(* ===== verification/Prelude.thy ===== *)
theory Prelude
  imports Main "HOL-Library.Word" "HOL-Library.Monad_Syntax"
begin

text \<open>
  Shared vocabulary of the development: the machine types of the C++ sources, the generic lemmas
  on machine words, lists and options that the component theories use, and the two container
  shapes of the C++ standard library that the sources rely on: \<open>std::set\<close> with a comparator
  (an ordered list without equivalent elements) and \<open>std::map\<close> / \<open>std::unordered_map\<close>
  (an association list with the emplace / find / erase interface).
\<close>

section \<open>Machine types\<close>

text \<open>
  \<open>size_t\<close>, \<open>uint64_t\<close> and \<open>void *\<close> are 64-bit words (the null pointer is the word 0),
  \<open>uint32_t\<close> is a 32-bit word. An \<open>int64_t\<close> is a 64-bit word read with \<open>sint\<close>.
  Objects on the C++ heap (\<open>MemBuf *\<close>, \<open>MemBlock *\<close>) are named by natural numbers.
\<close>

type_synonym size_t = "64 word"
type_synonym device_ptr = "64 word"
type_synonym int64 = "64 word"
type_synonym uint32 = "32 word"
type_synonym ptr = nat

named_theorems word_arith \<open>no-overflow facts about 64-bit words, read through unat\<close>
named_theorems heap_simps \<open>how the heap operations act on the store\<close>

section \<open>Words\<close>

lemma unat64_bound: "unat (x :: 64 word) < 2 ^ 64"
  by (rule order_less_le_trans [OF unsigned_less]) simp

lemma unat64_add [word_arith]:
  fixes a b :: "64 word"
  assumes "unat a + unat b < 2 ^ 64"
  shows "unat (a + b) = unat a + unat b"
  using assms by (simp add: unat_word_ariths)

lemma unat64_sub [word_arith]:
  fixes a b :: "64 word"
  assumes "b \<le> a"
  shows "unat (a - b) = unat a - unat b"
  using assms by (rule unat_sub)

lemma word_sub_split:
  fixes a b :: "64 word"
  assumes "b \<le> a"
  shows "unat b + unat (a - b) = unat a"
  using assms by (simp add: unat64_sub word_le_nat_alt)

section \<open>Lists and options\<close>

definition hd_opt :: "'a list \<Rightarrow> 'a option \<Rightarrow> 'a option" where
  "hd_opt xs d = (case xs of [] \<Rightarrow> d | x # _ \<Rightarrow> Some x)"

definition last_opt :: "'a list \<Rightarrow> 'a option \<Rightarrow> 'a option" where
  "last_opt xs d = (if xs = [] then d else Some (last xs))"

lemma hd_opt_simps [simp]:
  "hd_opt [] d = d"
  "hd_opt (x # xs) d = Some x"
  by (simp_all add: hd_opt_def)

lemma hd_opt_append [simp]: "hd_opt (xs @ ys) d = hd_opt xs (hd_opt ys d)"
  by (cases xs) simp_all

lemma last_opt_simps [simp]:
  "last_opt [] d = d"
  "last_opt (xs @ [x]) d = Some x"
  "last_opt (x # xs) d = last_opt xs (Some x)"
  by (simp_all add: last_opt_def)

section \<open>Ordered sets with a comparator\<close>

text \<open>
  \<open>std::set<T, Cmp>\<close>: the elements in comparator order. \<open>emplace\<close> keeps the old element when
  an equivalent one is present, \<open>erase\<close> removes the element equivalent to the key, and
  \<open>lower_bound\<close> is the first element not less than the key.
\<close>

fun oset_emplace :: "('a \<Rightarrow> 'a \<Rightarrow> bool) \<Rightarrow> 'a \<Rightarrow> 'a list \<Rightarrow> 'a list" where
  "oset_emplace lt x [] = [x]"
| "oset_emplace lt x (y # ys) =
     (if lt x y then x # y # ys
      else if lt y x then y # oset_emplace lt x ys
      else y # ys)"

fun oset_erase :: "('a \<Rightarrow> 'a \<Rightarrow> bool) \<Rightarrow> 'a \<Rightarrow> 'a list \<Rightarrow> 'a list" where
  "oset_erase lt x [] = []"
| "oset_erase lt x (y # ys) =
     (if lt y x then y # oset_erase lt x ys
      else if lt x y then y # ys
      else ys)"

definition oset_lower_bound :: "('a \<Rightarrow> 'a \<Rightarrow> bool) \<Rightarrow> 'a \<Rightarrow> 'a list \<Rightarrow> 'a option" where
  "oset_lower_bound lt x ys = List.find (\<lambda>y. \<not> lt y x) ys"

text \<open>The laws of a comparator that is a strict linear order on the elements in play.\<close>

locale strict_order =
  fixes lt :: "'a \<Rightarrow> 'a \<Rightarrow> bool" and A :: "'a set"
  assumes irrefl: "x \<in> A \<Longrightarrow> \<not> lt x x"
    and trans: "\<lbrakk>x \<in> A; y \<in> A; z \<in> A; lt x y; lt y z\<rbrakk> \<Longrightarrow> lt x z"
    and total: "\<lbrakk>x \<in> A; y \<in> A; x \<noteq> y\<rbrakk> \<Longrightarrow> lt x y \<or> lt y x"
begin

lemma asym: "\<lbrakk>x \<in> A; y \<in> A; lt x y\<rbrakk> \<Longrightarrow> \<not> lt y x"
  using irrefl trans by blast

lemma emplace_set:
  "\<lbrakk>set ys \<subseteq> A; x \<in> A\<rbrakk> \<Longrightarrow> set (oset_emplace lt x ys) = insert x (set ys)"
  by (induction ys) (use total in auto)

lemma emplace_sorted:
  "\<lbrakk>set ys \<subseteq> A; x \<in> A; sorted_wrt lt ys\<rbrakk> \<Longrightarrow> sorted_wrt lt (oset_emplace lt x ys)"
proof (induction ys)
  case Nil
  then show ?case by simp
next
  case (Cons y ys)
  have less_x: "lt x z" if "lt x y" "z \<in> set ys" for z
    using that Cons.prems by (auto intro: trans)
  show ?case
    using Cons less_x by (auto simp: emplace_set)
qed

lemma erase_set:
  "\<lbrakk>set ys \<subseteq> A; x \<in> A; sorted_wrt lt ys\<rbrakk> \<Longrightarrow> set (oset_erase lt x ys) = set ys - {x}"
proof (induction ys)
  case Nil
  then show ?case by simp
next
  case (Cons y ys)
  then have IH: "set (oset_erase lt x ys) = set ys - {x}" by simp
  from Cons.prems have mem: "x \<in> A" "y \<in> A" and gt: "\<And>z. z \<in> set ys \<Longrightarrow> lt y z"
    by auto
  consider "lt y x" | "lt x y" "\<not> lt y x" | "x = y"
    using total [of x y] mem by blast
  then show ?case
  proof cases
    case 1
    with irrefl mem have "x \<noteq> y" by blast
    with 1 IH show ?thesis by auto
  next
    case 2
    with gt have "x \<notin> set ys" by blast
    moreover from 2 irrefl mem have "x \<noteq> y" by blast
    ultimately show ?thesis using 2 by auto
  next
    case 3
    with gt irrefl mem have "x \<notin> set ys" by blast
    with 3 irrefl mem show ?thesis by auto
  qed
qed

lemma erase_sorted:
  "\<lbrakk>set ys \<subseteq> A; x \<in> A; sorted_wrt lt ys\<rbrakk> \<Longrightarrow> sorted_wrt lt (oset_erase lt x ys)"
proof (induction ys)
  case Nil
  then show ?case by simp
next
  case (Cons y ys)
  then have "set (oset_erase lt x ys) \<subseteq> set ys"
    by (auto simp: erase_set)
  with Cons show ?case by auto
qed

lemma sorted_distinct: "\<lbrakk>set ys \<subseteq> A; sorted_wrt lt ys\<rbrakk> \<Longrightarrow> distinct ys"
  by (induction ys) (use irrefl in auto)

end

text \<open>Addresses and handles are numbers, compared by \<open><\<close>.\<close>

interpretation nat_order: strict_order "(<) :: nat \<Rightarrow> nat \<Rightarrow> bool" UNIV
  by unfold_locales auto

lemma foldl_emplace:
  fixes xs s :: "nat list"
  assumes "sorted_wrt (<) s"
  shows "set (foldl (\<lambda>s p. oset_emplace (<) p s) s xs) = set s \<union> set xs"
    "sorted_wrt (<) (foldl (\<lambda>s p. oset_emplace (<) p s) s xs)"
proof -
  have "set (foldl (\<lambda>s p. oset_emplace (<) p s) s xs) = set s \<union> set xs \<and>
      sorted_wrt (<) (foldl (\<lambda>s p. oset_emplace (<) p s) s xs)"
    using assms
    by (induction xs arbitrary: s) (auto simp: nat_order.emplace_set nat_order.emplace_sorted)
  then show "set (foldl (\<lambda>s p. oset_emplace (<) p s) s xs) = set s \<union> set xs"
    "sorted_wrt (<) (foldl (\<lambda>s p. oset_emplace (<) p s) s xs)" by blast+
qed

lemma oset_emplace_cong:
  assumes "\<And>y. y \<in> set ys \<Longrightarrow> lt x y = lt' x y \<and> lt y x = lt' y x"
  shows "oset_emplace lt x ys = oset_emplace lt' x ys"
  using assms by (induction ys) auto

lemma oset_lower_bound_SomeD:
  assumes "oset_lower_bound lt x ys = Some y"
  shows "y \<in> set ys \<and> \<not> lt y x"
  using assms by (auto simp: oset_lower_bound_def find_Some_iff)

lemma oset_lower_bound_None:
  "oset_lower_bound lt x ys = None \<longleftrightarrow> (\<forall>y \<in> set ys. lt y x)"
  by (auto simp: oset_lower_bound_def find_None_iff)

lemma oset_lower_bound_least:
  assumes "oset_lower_bound lt x ys = Some y" "sorted_wrt lt ys" "z \<in> set ys" "\<not> lt z x"
  shows "z = y \<or> lt y z"
  using assms by (induction ys) (auto simp: oset_lower_bound_def split: if_splits)

section \<open>Association lists with the interface of the standard maps\<close>

text \<open>
  \<open>find\<close> is \<open>map_of\<close>; \<open>emplace\<close> keeps an entry that is already there; \<open>operator[] =\<close>
  overwrites. The order of an unordered map is not specified, so no theorem depends on it.
\<close>

definition al_emplace :: "'k \<Rightarrow> 'v \<Rightarrow> ('k \<times> 'v) list \<Rightarrow> ('k \<times> 'v) list" where
  "al_emplace k v m = (if map_of m k = None then m @ [(k, v)] else m)"

fun al_erase :: "'k \<Rightarrow> ('k \<times> 'v) list \<Rightarrow> ('k \<times> 'v) list" where
  "al_erase k [] = []"
| "al_erase k (e # m) = (if fst e = k then m else e # al_erase k m)"

fun al_set :: "'k \<Rightarrow> 'v \<Rightarrow> ('k \<times> 'v) list \<Rightarrow> ('k \<times> 'v) list" where
  "al_set k v [] = [(k, v)]"
| "al_set k v (e # m) = (if fst e = k then (k, v) # m else e # al_set k v m)"

lemma al_emplace_find [simp]:
  "map_of (al_emplace k v m) = (if map_of m k = None then (map_of m)(k \<mapsto> v) else map_of m)"
  by (auto simp: al_emplace_def map_of_append fun_eq_iff map_add_def split: option.splits)

lemma al_erase_find [simp]:
  "distinct (map fst m) \<Longrightarrow> map_of (al_erase k m) = (map_of m)(k := None)"
proof (induction m)
  case Nil
  then show ?case by simp
next
  case (Cons e m)
  then have "fst e = k \<Longrightarrow> map_of m k = None"
    by (auto simp: map_of_eq_None_iff)
  with Cons show ?case by (cases e) (auto simp: fun_eq_iff)
qed

lemma al_set_find [simp]: "map_of (al_set k v m) = (map_of m)(k \<mapsto> v)"
  by (induction m) (auto simp: fun_eq_iff)

lemma al_erase_keys_subset: "set (al_erase k m) \<subseteq> set m"
  by (induction m) auto

lemma al_emplace_distinct [simp]:
  "distinct (map fst (al_emplace k v m)) = distinct (map fst m)"
  by (auto simp: al_emplace_def map_of_eq_None_iff)

lemma al_erase_distinct [simp]:
  "distinct (map fst m) \<Longrightarrow> distinct (map fst (al_erase k m))"
  by (induction m) (auto dest: subsetD [OF al_erase_keys_subset] simp: image_iff)

lemma al_set_keys: "fst ` set (al_set k v m) = insert k (fst ` set m)"
  by (induction m) auto

lemma al_set_distinct [simp]:
  "distinct (map fst m) \<Longrightarrow> distinct (map fst (al_set k v m))"
  by (induction m) (auto simp: al_set_keys)

section \<open>Evaluation\<close>

text \<open>A bind is evaluated from the left: the continuation waits for the value.\<close>

lemma bind_weak_cong: "m = m' \<Longrightarrow> Option.bind m f = Option.bind m' f"
  by simp

end
