(* ===== verification/Mem_Sizes.thy ===== *)
theory Mem_Sizes
  imports Prelude
begin

text \<open>
  Sizes of the dynamic memory pool: the constants and enumerations of
  \<^verbatim>\<open>memory/dynamic_memory_pool.h\<close>, the rounding of a request to the 512 byte granule, the size
  of a new memory block, and the statistics record \<open>MemStat\<close> of
  \<^verbatim>\<open>memory/abstract_dynamic_memory_pool.h\<close>. All arithmetic is on 64-bit words, so the
  wrap-around of \<open>size_t\<close> is the wrap-around of the model.
\<close>

section \<open>Constants and enumerations\<close>

definition kDynamicMemAlignSize :: size_t where
  "kDynamicMemAlignSize = 512"

definition kDynamicMemAllocUnitSize :: size_t where
  "kDynamicMemAllocUnitSize = push_bit 20 1024"

definition kMBToByte :: size_t where
  "kMBToByte = push_bit 10 1024"

definition kGBToByte :: size_t where
  "kGBToByte = push_bit 20 1024"

definition kMaxUsedMemSize :: size_t where
  "kMaxUsedMemSize = 58 * kGBToByte"

lemma mem_constants [simp]:
  "kDynamicMemAlignSize = 512"
  "kDynamicMemAllocUnitSize = 2 ^ 30"
  "kMBToByte = 2 ^ 20"
  "kGBToByte = 2 ^ 30"
  "kMaxUsedMemSize = 62277025792"
  by (simp_all add: kDynamicMemAlignSize_def kDynamicMemAllocUnitSize_def kMBToByte_def
      kGBToByte_def kMaxUsedMemSize_def)

datatype mem_buf_status = kMemBufIdle | kMemBufUsed | kMemBufEagerFree | kMemBufUsedByEvent

datatype allocator_type =
  kWeight | kConstantValue | kKernelOutput | kGraphOutput | kWorkspace | kOther

fun DynamicMemBufStatusToString :: "mem_buf_status \<Rightarrow> string" where
  "DynamicMemBufStatusToString kMemBufIdle = ''idle''"
| "DynamicMemBufStatusToString kMemBufUsed = ''used''"
| "DynamicMemBufStatusToString kMemBufEagerFree = ''eager_free''"
| "DynamicMemBufStatusToString kMemBufUsedByEvent = ''used_by_event''"

fun AllocatorTypeToString :: "allocator_type \<Rightarrow> string" where
  "AllocatorTypeToString kWeight = ''weight''"
| "AllocatorTypeToString kConstantValue = ''constant value''"
| "AllocatorTypeToString kKernelOutput = ''kernel output''"
| "AllocatorTypeToString kGraphOutput = ''graph output''"
| "AllocatorTypeToString kWorkspace = ''workspace''"
| "AllocatorTypeToString kOther = ''other''"

section \<open>Rounding a request\<close>

text \<open>\<open>DynamicMemPool::AlignMemorySize\<close>; the addition of the granule may wrap.\<close>

definition AlignMemorySize :: "size_t \<Rightarrow> size_t" where
  "AlignMemorySize sz =
     (if sz = 0 then kDynamicMemAlignSize
      else ((sz + kDynamicMemAlignSize - 1) div kDynamicMemAlignSize) * kDynamicMemAlignSize)"

lemma unat_AlignMemorySize:
  assumes "unat sz \<le> 2 ^ 64 - 512"
  shows "unat (AlignMemorySize sz)
    = (if sz = 0 then 512 else (unat sz + 511) div 512 * 512)"
proof (cases "sz = 0")
  case True
  then show ?thesis by (simp add: AlignMemorySize_def)
next
  case False
  have sum: "unat (sz + 511) = unat sz + 511"
    using assms by (subst unat64_add) simp_all
  have le: "(unat sz + 511) div 512 * 512 < 2 ^ 64"
    using assms by simp
  have "unat ((sz + 511) div 512 * 512 :: 64 word) = (unat sz + 511) div 512 * 512"
    using le by (simp add: unat_word_ariths unat_div sum)
  moreover have "sz + 512 - 1 = sz + 511" by simp
  ultimately show ?thesis
    using False by (simp add: AlignMemorySize_def add.commute)
qed

section \<open>The size of a new block\<close>

text \<open>
  \<open>CalMemBlockAllocSize\<close> doubles the unit size until the request fits. The doubling wraps, so the
  loop may not end: it is a partial function whose value \<open>None\<close> means that the call does not
  return. The branch that grows by addition is kept although the source fixes
  \<open>is_graph_run_mode\<close> to false.
\<close>

partial_function (option) grow_double :: "size_t \<Rightarrow> size_t \<Rightarrow> size_t option" where
  "grow_double alloc_mem_size sz =
     (if alloc_mem_size < sz then grow_double (alloc_mem_size * 2) sz
      else Some alloc_mem_size)"

partial_function (option) grow_add :: "size_t \<Rightarrow> size_t \<Rightarrow> size_t \<Rightarrow> size_t option" where
  "grow_add unit_size alloc_mem_size sz =
     (if alloc_mem_size < sz then grow_add unit_size (alloc_mem_size + unit_size) sz
      else Some alloc_mem_size)"

definition CalMemBlockAllocSize :: "size_t \<Rightarrow> size_t \<Rightarrow> size_t \<Rightarrow> size_t option" where
  "CalMemBlockAllocSize device_free_mem_size alloc_mem_unit_size sz =
     (if device_free_mem_size < sz then Some 0
      else
        let is_graph_run_mode = False in
        map_option (\<lambda>alloc_mem_size. min alloc_mem_size device_free_mem_size)
          (if is_graph_run_mode
           then grow_add alloc_mem_unit_size alloc_mem_unit_size sz
           else grow_double alloc_mem_unit_size sz))"

lemma grow_double_done: "sz \<le> a \<Longrightarrow> grow_double a sz = Some a"
  by (subst grow_double.simps) (simp add: not_less [symmetric])

lemma grow_double_returns:
  assumes "0 < a" and "sz \<le> 2 ^ 63"
  shows "\<exists>r. grow_double a sz = Some r \<and> sz \<le> r \<and> a \<le> r"
  using assms
proof (induction "unat sz - unat a" arbitrary: a rule: less_induct)
  case less
  show ?case
  proof (cases "a < sz")
    case True
    have small: "unat a < unat sz" "unat sz \<le> 2 ^ 63"
      using True less.prems by (simp_all add: word_less_nat_alt word_le_nat_alt)
    have dbl: "unat (a * 2) = unat a * 2"
      using small by (simp add: unat_word_ariths)
    have pos: "0 < unat a"
      using less.prems by (simp add: word_less_nat_alt)
    have "\<exists>r. grow_double (a * 2) sz = Some r \<and> sz \<le> r \<and> a * 2 \<le> r"
      using less.prems small pos
      by (intro less.hyps) (simp_all add: dbl word_less_nat_alt)
    then obtain r where r: "grow_double (a * 2) sz = Some r" "sz \<le> r" "a * 2 \<le> r"
      by blast
    have "a \<le> a * 2" by (simp add: word_le_nat_alt dbl)
    with r True show ?thesis by (subst grow_double.simps) auto
  next
    case False
    then show ?thesis by (subst grow_double.simps) auto
  qed
qed

lemma grow_double_zero: "0 < sz \<Longrightarrow> grow_double 0 sz = None"
proof (rule ccontr)
  assume pos: "0 < sz" and "grow_double 0 sz \<noteq> None"
  then obtain r where r: "grow_double 0 sz = Some r" by blast
  have "0 < sz \<longrightarrow> (0 :: size_t) \<noteq> 0"
  proof (rule grow_double.raw_induct [where P = "\<lambda>a s _. 0 < s \<longrightarrow> a \<noteq> 0", OF _ r])
    fix f :: "size_t \<Rightarrow> size_t \<Rightarrow> size_t option" and a s r'
    assume IH: "\<And>a s r. f a s = Some r \<Longrightarrow> 0 < s \<longrightarrow> a \<noteq> 0"
      and eq: "(if a < s then f (a * 2) s else Some a) = Some r'"
    show "0 < s \<longrightarrow> a \<noteq> 0"
    proof (intro impI notI)
      assume "0 < s" and "a = 0"
      with eq have "f 0 s = Some r'" by simp
      with IH \<open>0 < s\<close> show False by blast
    qed
  qed
  with pos show False by simp
qed

lemma grow_double_power_diverges:
  assumes "2 ^ 63 < sz" and "k \<le> 64"
  shows "grow_double (2 ^ k) sz = None"
  using assms(2)
proof (induction "64 - k" arbitrary: k)
  case 0
  then have "k = 64" by simp
  then have "(2 :: size_t) ^ k = 0" by simp
  moreover have "0 < sz" using assms(1) by (simp add: word_less_nat_alt)
  ultimately show ?case by (metis grow_double_zero)
next
  case (Suc n)
  then have k: "k < 64" by simp
  have "unat (word_of_nat (2 ^ k) :: size_t) = 2 ^ k"
    using k by (subst unsigned_of_nat) (simp add: take_bit_nat_eq_self)
  then have "unat ((2 :: size_t) ^ k) = 2 ^ k" by simp
  moreover have "(2 :: nat) ^ k \<le> 2 ^ 63"
    using k by (intro power_increasing) simp_all
  moreover have "(2 :: nat) ^ 63 < unat sz"
    using assms(1) by (simp add: word_less_nat_alt)
  ultimately have "(2 :: size_t) ^ k < sz"
    by (simp add: word_less_nat_alt)
  moreover have "grow_double (2 ^ Suc k) sz = None"
    using Suc by (intro Suc.hyps) simp_all
  ultimately show ?case
    by (subst grow_double.simps) (simp add: mult.commute)
qed

section \<open>Statistics\<close>

record mem_stat =
  used_size :: size_t
  peak_size :: size_t
  alloc_size :: size_t
  used_by_event_size :: size_t
  eager_free_size :: size_t
  temp_used_size :: size_t
  temp_used_by_event_size :: size_t
  temp_peak_size :: size_t
  temp_alloc_size :: size_t

definition MemStat_Reset :: mem_stat where
  "MemStat_Reset =
     \<lparr>used_size = 0, peak_size = 0, alloc_size = 0, used_by_event_size = 0,
      eager_free_size = 0, temp_used_size = 0, temp_used_by_event_size = 0,
      temp_peak_size = 0, temp_alloc_size = 0\<rparr>"

definition IdleSize :: "mem_stat \<Rightarrow> size_t" where
  "IdleSize s = alloc_size s - used_size s"

definition UpdatePeakSize :: "mem_stat \<Rightarrow> mem_stat" where
  "UpdatePeakSize s =
     (let s = s\<lparr>peak_size := max (peak_size s) (used_size s)\<rparr>
      in if temp_used_size s < used_size s
         then s\<lparr>temp_peak_size := max (temp_peak_size s) (used_size s - temp_used_size s)\<rparr>
         else s)"

lemma UpdatePeakSize_simps [simp]:
  "used_size (UpdatePeakSize s) = used_size s"
  "alloc_size (UpdatePeakSize s) = alloc_size s"
  "used_by_event_size (UpdatePeakSize s) = used_by_event_size s"
  "eager_free_size (UpdatePeakSize s) = eager_free_size s"
  "peak_size (UpdatePeakSize s) = max (peak_size s) (used_size s)"
  by (simp_all add: UpdatePeakSize_def Let_def)

end
