(* ===== verification/Mem_Events.thy ===== *)
theory Mem_Events
  imports Prelude
begin

text \<open>
  Stream events bound to a memory buffer: \<open>EventBase\<close> of \<^verbatim>\<open>memory/dynamic_memory_pool.h\<close> and
  \<^verbatim>\<open>memory/dynamic_memory_pool.cc\<close>. The member \<open>events_\<close> is a nullable pointer to a map from
  the user stream id to the list of recorded (task id, event) pairs; the device event itself is
  an opaque handle. Task ids are recorded as \<open>int64_t\<close>, while \<open>WaitEvent\<close> takes its task id as
  \<open>uint32_t\<close>: the conversion at the call is \<open>ucast\<close>.
\<close>

type_synonym task_event = "int64 \<times> nat"
type_synonym event_map = "(uint32 \<times> task_event list) list"
type_synonym events = "event_map option"

definition IsEventNotUsed :: "events \<Rightarrow> bool" where
  "IsEventNotUsed evs = (case evs of None \<Rightarrow> True | Some m \<Rightarrow> m = [])"

definition EventBase_RecordEvent :: "int64 \<Rightarrow> uint32 \<Rightarrow> nat \<Rightarrow> events \<Rightarrow> events" where
  "EventBase_RecordEvent task_id_on_stream user_stream_id event evs =
     (let m = (case evs of None \<Rightarrow> [] | Some m \<Rightarrow> m);
          event_list = (case map_of m user_stream_id of None \<Rightarrow> [] | Some l \<Rightarrow> l)
      in Some (al_set user_stream_id (event_list @ [(task_id_on_stream, event)]) m))"

text \<open>
  The comparison \<open>front().first <= task_id_on_stream\<close> promotes the unsigned 32-bit task id to
  \<open>int64_t\<close>.
\<close>

definition task_done :: "uint32 \<Rightarrow> task_event \<Rightarrow> bool" where
  "task_done task_id_on_stream e \<longleftrightarrow> sint (fst e) \<le> uint task_id_on_stream"

definition EventBase_WaitEvent :: "uint32 \<Rightarrow> uint32 \<Rightarrow> events \<Rightarrow> bool \<times> events" where
  "EventBase_WaitEvent task_id_on_stream user_stream_id evs =
     (case evs of
        None \<Rightarrow> (False, None)
      | Some m \<Rightarrow>
          (case map_of m user_stream_id of
             None \<Rightarrow> (False, Some m)
           | Some event_list \<Rightarrow>
               (let event_list = dropWhile (task_done task_id_on_stream) event_list
                in if event_list = [] then (True, Some (al_erase user_stream_id m))
                   else (True, Some (al_set user_stream_id event_list m)))))"

definition EventBase_SyncAllEvents :: "events \<Rightarrow> bool \<times> events" where
  "EventBase_SyncAllEvents evs =
     (if IsEventNotUsed evs then (False, evs) else (True, Some []))"

section \<open>Well-formed event maps\<close>

text \<open>No stream is bound twice, and a bound stream has a pending event.\<close>

definition events_wf :: "events \<Rightarrow> bool" where
  "events_wf evs = (case evs of None \<Rightarrow> True
     | Some m \<Rightarrow> distinct (map fst m) \<and> (\<forall>(s, l) \<in> set m. l \<noteq> []))"

definition pending :: "events \<Rightarrow> uint32 \<Rightarrow> task_event list" where
  "pending evs s = (case evs of None \<Rightarrow> [] | Some m \<Rightarrow>
     (case map_of m s of None \<Rightarrow> [] | Some l \<Rightarrow> l))"

lemma al_set_values:
  "(k', v') \<in> set (al_set k v m) \<Longrightarrow> (k', v') = (k, v) \<or> (k', v') \<in> set m"
  by (induction m) (auto split: if_splits)

lemma events_wf_None [simp]: "events_wf None"
  by (simp add: events_wf_def)

lemma RecordEvent_wf:
  "events_wf evs \<Longrightarrow> events_wf (EventBase_RecordEvent t s e evs)"
  by (auto simp: events_wf_def EventBase_RecordEvent_def Let_def dest!: al_set_values
      split: option.splits)

lemma WaitEvent_wf:
  "events_wf evs \<Longrightarrow> events_wf (snd (EventBase_WaitEvent t s evs))"
  by (auto simp: events_wf_def EventBase_WaitEvent_def Let_def eq_commute [of "[]" "dropWhile P xs" for P xs]
      dest!: al_set_values dest: subsetD [OF al_erase_keys_subset] split: option.splits)

lemma SyncAllEvents_wf:
  "events_wf evs \<Longrightarrow> events_wf (snd (EventBase_SyncAllEvents evs))"
  by (simp add: EventBase_SyncAllEvents_def events_wf_def)

lemma al_set_not_Nil [simp]: "al_set k v m \<noteq> []"
  by (cases m) auto

lemma RecordEvent_used [simp]: "\<not> IsEventNotUsed (EventBase_RecordEvent t s e evs)"
  by (simp add: IsEventNotUsed_def EventBase_RecordEvent_def Let_def)

lemma IsEventNotUsed_pending:
  assumes "events_wf evs"
  shows "IsEventNotUsed evs \<longleftrightarrow> (\<forall>s. pending evs s = [])"
proof (cases evs)
  case None
  then show ?thesis by (simp add: IsEventNotUsed_def pending_def)
next
  case (Some m)
  show ?thesis
  proof (cases m)
    case Nil
    with Some show ?thesis by (simp add: IsEventNotUsed_def pending_def)
  next
    case (Cons e m')
    then have "pending evs (fst e) = snd e"
      using Some by (cases e) (simp add: pending_def)
    moreover have "snd e \<noteq> []"
      using assms Some Cons by (auto simp: events_wf_def)
    ultimately show ?thesis
      using Some Cons by (auto simp: IsEventNotUsed_def intro!: exI [of _ "fst e"])
  qed
qed

lemma pending_RecordEvent [simp]:
  "pending (EventBase_RecordEvent t s e evs) s' =
     (if s' = s then pending evs s @ [(t, e)] else pending evs s')"
  by (auto simp: pending_def EventBase_RecordEvent_def Let_def split: option.splits)

lemma pending_WaitEvent:
  assumes "events_wf evs"
  shows "pending (snd (EventBase_WaitEvent t s evs)) s' =
     (if s' = s then dropWhile (task_done t) (pending evs s) else pending evs s')"
  using assms
  by (auto simp: pending_def EventBase_WaitEvent_def events_wf_def Let_def
      eq_commute [of "[]" "dropWhile P xs" for P xs] split: option.splits)

lemma pending_SyncAllEvents [simp]:
  "events_wf evs \<Longrightarrow> pending (snd (EventBase_SyncAllEvents evs)) s = []"
  by (auto simp: EventBase_SyncAllEvents_def pending_def IsEventNotUsed_def split: option.splits)

end
