(* ===== verification/Mem_Buf.thy ===== *)
theory Mem_Buf
  imports Mem_Sizes Mem_Events
begin

text \<open>
  The objects of the pool and the C++ heap they live on: \<open>MemBuf\<close> and \<open>MemBlock\<close> of
  \<^verbatim>\<open>memory/abstract_dynamic_memory_pool.h\<close>. Buffers point at their neighbours and at their
  block, so they are kept in an explicit store. Reading or writing through a pointer whose object
  was deleted is undefined behaviour; an operation that does so has the value \<open>None\<close>.
\<close>

section \<open>Objects\<close>

record mem_buf =
  prev_buf :: "ptr option"
  next_buf :: "ptr option"
  buf_size :: size_t
  buf_addr :: device_ptr
  buf_stream_id :: uint32
  buf_mem_block :: ptr
  buf_status :: mem_buf_status
  buf_events :: events
  owner_name :: string
  alloc_type :: allocator_type

definition MemBuf :: "size_t \<Rightarrow> device_ptr \<Rightarrow> uint32 \<Rightarrow> ptr \<Rightarrow> mem_buf_status \<Rightarrow> mem_buf" where
  "MemBuf sz addr stream_id mem_block status =
     \<lparr>prev_buf = None, next_buf = None, buf_size = sz, buf_addr = addr,
      buf_stream_id = stream_id, buf_mem_block = mem_block, buf_status = status,
      buf_events = None, owner_name = [], alloc_type = kOther\<rparr>"

lemma MemBuf_simps [simp]:
  "prev_buf (MemBuf s a t b st) = None" "next_buf (MemBuf s a t b st) = None"
  "buf_size (MemBuf s a t b st) = s" "buf_addr (MemBuf s a t b st) = a"
  "buf_stream_id (MemBuf s a t b st) = t" "buf_mem_block (MemBuf s a t b st) = b"
  "buf_status (MemBuf s a t b st) = st" "buf_events (MemBuf s a t b st) = None"
  by (simp_all add: MemBuf_def)

record mem_block =
  block_size :: size_t
  block_addr :: device_ptr
  block_stream_id :: uint32
  min_addr :: device_ptr
  max_addr :: device_ptr

definition MemBlock :: "size_t \<Rightarrow> device_ptr \<Rightarrow> uint32 \<Rightarrow> mem_block" where
  "MemBlock sz addr stream_id =
     \<lparr>block_size = sz, block_addr = addr, block_stream_id = stream_id, min_addr = 0, max_addr = 0\<rparr>"

lemma MemBlock_simps [simp]:
  "block_size (MemBlock s a t) = s" "block_addr (MemBlock s a t) = a"
  "block_stream_id (MemBlock s a t) = t"
  by (simp_all add: MemBlock_def)

text \<open>The border addresses record the used range of a block; the null pointer means unset.\<close>

definition UpdateBorderAddr :: "mem_buf \<Rightarrow> mem_block \<Rightarrow> mem_block" where
  "UpdateBorderAddr buf blk =
     (let blk = (if min_addr blk = 0 then blk\<lparr>min_addr := buf_addr buf\<rparr>
                 else blk\<lparr>min_addr := min (min_addr blk) (buf_addr buf)\<rparr>);
          right_addr = buf_addr buf + buf_size buf
      in blk\<lparr>max_addr := max (max_addr blk) right_addr\<rparr>)"

lemma UpdateBorderAddr_simps [simp]:
  "block_size (UpdateBorderAddr b k) = block_size k"
  "block_addr (UpdateBorderAddr b k) = block_addr k"
  "block_stream_id (UpdateBorderAddr b k) = block_stream_id k"
  by (simp_all add: UpdateBorderAddr_def Let_def)

definition MemBlock_ActualPeakSize :: "mem_block \<Rightarrow> size_t" where
  "MemBlock_ActualPeakSize blk =
     (if min_addr blk = 0 \<or> max_addr blk = 0 then 0 else max_addr blk - min_addr blk)"

text \<open>The order of the free sets: by size, then by address.\<close>

definition MemBufComparator :: "mem_buf \<Rightarrow> mem_buf \<Rightarrow> bool" where
  "MemBufComparator left right =
     (if buf_size left \<noteq> buf_size right then buf_size left < buf_size right
      else buf_addr left < buf_addr right)"

section \<open>The store\<close>

type_synonym buf_heap = "ptr \<Rightarrow> mem_buf option"

record 'd world =
  bufs :: buf_heap
  blks :: "ptr \<Rightarrow> mem_block option"
  fresh :: ptr
  stat :: mem_stat
  dev :: 'd

definition new_buf :: "mem_buf \<Rightarrow> 'd world \<Rightarrow> ptr \<times> 'd world" where
  "new_buf b w = (fresh w, w\<lparr>bufs := (bufs w)(fresh w \<mapsto> b), fresh := Suc (fresh w)\<rparr>)"

definition new_block :: "mem_block \<Rightarrow> 'd world \<Rightarrow> ptr \<times> 'd world" where
  "new_block k w = (fresh w, w\<lparr>blks := (blks w)(fresh w \<mapsto> k), fresh := Suc (fresh w)\<rparr>)"

definition mod_buf :: "ptr \<Rightarrow> (mem_buf \<Rightarrow> mem_buf) \<Rightarrow> 'd world \<Rightarrow> 'd world option" where
  "mod_buf p f w =
     (case bufs w p of None \<Rightarrow> None | Some b \<Rightarrow> Some (w\<lparr>bufs := (bufs w)(p \<mapsto> f b)\<rparr>))"

definition mod_buf_opt :: "ptr option \<Rightarrow> (mem_buf \<Rightarrow> mem_buf) \<Rightarrow> 'd world \<Rightarrow> 'd world option" where
  "mod_buf_opt q f w = (case q of None \<Rightarrow> Some w | Some p \<Rightarrow> mod_buf p f w)"

definition delete_buf :: "ptr \<Rightarrow> 'd world \<Rightarrow> 'd world option" where
  "delete_buf p w = (case bufs w p of None \<Rightarrow> None | Some b \<Rightarrow> Some (w\<lparr>bufs := (bufs w)(p := None)\<rparr>))"

definition mod_block :: "ptr \<Rightarrow> (mem_block \<Rightarrow> mem_block) \<Rightarrow> 'd world \<Rightarrow> 'd world option" where
  "mod_block p f w =
     (case blks w p of None \<Rightarrow> None | Some b \<Rightarrow> Some (w\<lparr>blks := (blks w)(p \<mapsto> f b)\<rparr>))"

definition delete_block :: "ptr \<Rightarrow> 'd world \<Rightarrow> 'd world option" where
  "delete_block p w = (case blks w p of None \<Rightarrow> None | Some b \<Rightarrow> Some (w\<lparr>blks := (blks w)(p := None)\<rparr>))"

text \<open>\<open>MemBuf::Link\<close> and \<open>MemBuf::Unlink\<close>.\<close>

definition Link :: "ptr \<Rightarrow> ptr option \<Rightarrow> ptr option \<Rightarrow> 'd world \<Rightarrow> 'd world option" where
  "Link this prev nxt w = do {
     w \<leftarrow> (case prev of None \<Rightarrow> Some w
       | Some q \<Rightarrow> do { w \<leftarrow> mod_buf q (\<lambda>b. b\<lparr>next_buf := Some this\<rparr>) w;
                        mod_buf this (\<lambda>b. b\<lparr>prev_buf := Some q\<rparr>) w });
     (case nxt of None \<Rightarrow> Some w
       | Some r \<Rightarrow> do { w \<leftarrow> mod_buf r (\<lambda>b. b\<lparr>prev_buf := Some this\<rparr>) w;
                        mod_buf this (\<lambda>b. b\<lparr>next_buf := Some r\<rparr>) w }) }"

definition Unlink :: "ptr \<Rightarrow> 'd world \<Rightarrow> 'd world option" where
  "Unlink this w = do {
     b \<leftarrow> bufs w this;
     w \<leftarrow> mod_buf_opt (prev_buf b) (\<lambda>c. c\<lparr>next_buf := next_buf b\<rparr>) w;
     w \<leftarrow> mod_buf_opt (next_buf b) (\<lambda>c. c\<lparr>prev_buf := prev_buf b\<rparr>) w;
     mod_buf this (\<lambda>c. c\<lparr>prev_buf := None, next_buf := None\<rparr>) w }"

lemma mod_buf_Some [heap_simps]:
  "bufs w p = Some b \<Longrightarrow> mod_buf p f w = Some (w\<lparr>bufs := (bufs w)(p \<mapsto> f b)\<rparr>)"
  by (simp add: mod_buf_def)

lemma delete_buf_Some [heap_simps]:
  "bufs w p = Some b \<Longrightarrow> delete_buf p w = Some (w\<lparr>bufs := (bufs w)(p := None)\<rparr>)"
  by (simp add: delete_buf_def)

lemma mod_block_Some [heap_simps]:
  "blks w p = Some b \<Longrightarrow> mod_block p f w = Some (w\<lparr>blks := (blks w)(p \<mapsto> f b)\<rparr>)"
  by (simp add: mod_block_def)

lemma mod_buf_opt_simps [simp, heap_simps]:
  "mod_buf_opt None f w = Some w"
  "mod_buf_opt (Some p) f w = mod_buf p f w"
  by (simp_all add: mod_buf_opt_def)

section \<open>The free sets\<close>

text \<open>
  \<open>std::set<MemBuf *, MemBufComparator>\<close>: pointers in the order of the comparator, which reads
  the buffers. A set operation compares the key with elements of the tree, so it is undefined as
  soon as the set holds a dangling pointer.
\<close>

type_synonym buf_set = "ptr list"

definition buf_less :: "buf_heap \<Rightarrow> ptr \<Rightarrow> ptr \<Rightarrow> bool" where
  "buf_less h p q =
     (case h p of None \<Rightarrow> False | Some l \<Rightarrow> (case h q of None \<Rightarrow> False | Some r \<Rightarrow> MemBufComparator l r))"

definition live :: "buf_heap \<Rightarrow> ptr \<Rightarrow> bool" where
  "live h p = (case h p of None \<Rightarrow> False | Some _ \<Rightarrow> True)"

definition bufset_emplace :: "buf_heap \<Rightarrow> ptr \<Rightarrow> buf_set \<Rightarrow> buf_set option" where
  "bufset_emplace h p s =
     (if list_all (live h) (p # s) then Some (oset_emplace (buf_less h) p s) else None)"

definition bufset_erase :: "buf_heap \<Rightarrow> ptr \<Rightarrow> buf_set \<Rightarrow> buf_set option" where
  "bufset_erase h p s =
     (if list_all (live h) (p # s) then Some (oset_erase (buf_less h) p s) else None)"

definition bufset_lower_bound :: "buf_heap \<Rightarrow> mem_buf \<Rightarrow> buf_set \<Rightarrow> ptr option option" where
  "bufset_lower_bound h key s =
     (if list_all (live h) s
      then Some (List.find (\<lambda>p. \<not> MemBufComparator (the (h p)) key) s) else None)"

lemma live_Some [simp]: "h p = Some b \<Longrightarrow> live h p"
  by (simp add: live_def)

lemma liveE: "live h p \<Longrightarrow> (\<And>b. h p = Some b \<Longrightarrow> P) \<Longrightarrow> P"
  by (auto simp: live_def split: option.splits)

text \<open>The comparator is a strict linear order on the pairs (size, address) it compares.\<close>

definition buf_key :: "mem_buf \<Rightarrow> size_t \<times> device_ptr" where
  "buf_key b = (buf_size b, buf_addr b)"

definition key_less :: "size_t \<times> device_ptr \<Rightarrow> size_t \<times> device_ptr \<Rightarrow> bool" where
  "key_less k l = (fst k < fst l \<or> fst k = fst l \<and> snd k < snd l)"

lemma MemBufComparator_key: "MemBufComparator a b = key_less (buf_key a) (buf_key b)"
  by (auto simp: MemBufComparator_def key_less_def buf_key_def)

interpretation key_order: strict_order key_less UNIV
  by unfold_locales (auto simp: key_less_def prod_eq_iff)

lemma buf_less_strict_order:
  assumes live: "\<And>p. p \<in> A \<Longrightarrow> live h p"
    and inj: "inj_on (\<lambda>p. buf_key (the (h p))) A"
  shows "strict_order (buf_less h) A"
proof -
  have key: "buf_less h p q = key_less (buf_key (the (h p))) (buf_key (the (h q)))"
    if "p \<in> A" "q \<in> A" for p q
    using live [OF that(1)] live [OF that(2)]
    by (auto elim!: liveE simp: buf_less_def MemBufComparator_key)
  show ?thesis
  proof
    fix p assume "p \<in> A"
    then show "\<not> buf_less h p p" using key_order.irrefl by (simp add: key)
  next
    fix p q r assume "p \<in> A" "q \<in> A" "r \<in> A" "buf_less h p q" "buf_less h q r"
    then show "buf_less h p r" using key_order.trans by (simp add: key)
  next
    fix p q assume "p \<in> A" "q \<in> A" "p \<noteq> q"
    moreover from this have "buf_key (the (h p)) \<noteq> buf_key (the (h q))"
      using inj by (auto simp: inj_on_def)
    ultimately show "buf_less h p q \<or> buf_less h q p"
      using key_order.total [OF UNIV_I UNIV_I] by (simp add: key)
  qed
qed

text \<open>The definitions that a concrete run unfolds.\<close>

lemmas buf_exec = new_buf_def new_block_def mod_buf_def mod_buf_opt_def delete_buf_def mod_block_def
  Link_def Unlink_def buf_less_def MemBufComparator_def bufset_emplace_def bufset_erase_def
  bufset_lower_bound_def MemBuf_def MemBlock_def UpdateBorderAddr_def oset_lower_bound_def

end
