(* ===== verification/Mem_Allocator.thy ===== *)
theory Mem_Allocator
  imports Mem_Buf
begin

text \<open>
  \<open>MemBufAllocator\<close> of \<^verbatim>\<open>memory/abstract_dynamic_memory_pool.h\<close> and
  \<^verbatim>\<open>memory/abstract_dynamic_memory_pool.cc\<close>: a best-fit allocator over the memory blocks it
  expands, with a set of idle buffers and a set of eager-free buffers (buffers without physical
  memory). The four callbacks the constructor takes are a record of functions on the world; a
  callback that does not return normally has the value \<open>None\<close>.
\<close>

section \<open>State\<close>

record 'd callbacks =
  mem_block_expander :: "size_t \<Rightarrow> 'd world \<Rightarrow> (ptr option \<times> 'd world) option"
  mem_block_cleaner :: "ptr \<Rightarrow> 'd world \<Rightarrow> (bool \<times> 'd world) option"
  mem_mapper :: "size_t \<Rightarrow> device_ptr \<Rightarrow> 'd world \<Rightarrow> (size_t \<times> 'd world) option"
  mem_eager_freer :: "device_ptr \<Rightarrow> size_t \<Rightarrow> 'd world \<Rightarrow> (size_t \<times> 'd world) option"

record allocator =
  mem_blocks :: "ptr list"
  free_mem_bufs :: buf_set
  eager_free_mem_bufs :: buf_set
  enable_eager_free :: bool
  is_persistent :: bool
  al_stream_id :: uint32

definition MemBufAllocator :: "bool \<Rightarrow> bool \<Rightarrow> uint32 \<Rightarrow> allocator" where
  "MemBufAllocator eager persistent stream_id =
     \<lparr>mem_blocks = [], free_mem_bufs = [], eager_free_mem_bufs = [],
      enable_eager_free = eager, is_persistent = persistent, al_stream_id = stream_id\<rparr>"

text \<open>The member \<open>search_key_\<close> with its size set to the request.\<close>

definition search_key :: "size_t \<Rightarrow> mem_buf" where
  "search_key sz = MemBuf sz 0 0 0 kMemBufIdle"

section \<open>Operations on the free sets\<close>

text \<open>
  The source picks the set by the status: the idle set for \<open>kMemBufIdle\<close>, the eager-free set
  for \<open>kMemBufEagerFree\<close>, none otherwise.
\<close>

definition emplace_by_status ::
    "mem_buf_status \<Rightarrow> ptr \<Rightarrow> allocator \<Rightarrow> buf_heap \<Rightarrow> allocator option" where
  "emplace_by_status status p al h =
     (if status = kMemBufIdle then do {
        s \<leftarrow> bufset_emplace h p (free_mem_bufs al);
        Some (al\<lparr>free_mem_bufs := s\<rparr>) }
      else if status = kMemBufEagerFree then do {
        s \<leftarrow> bufset_emplace h p (eager_free_mem_bufs al);
        Some (al\<lparr>eager_free_mem_bufs := s\<rparr>) }
      else Some al)"

definition erase_by_status ::
    "mem_buf_status \<Rightarrow> ptr \<Rightarrow> allocator \<Rightarrow> buf_heap \<Rightarrow> allocator option" where
  "erase_by_status status p al h =
     (if status = kMemBufIdle then do {
        s \<leftarrow> bufset_erase h p (free_mem_bufs al);
        Some (al\<lparr>free_mem_bufs := s\<rparr>) }
      else if status = kMemBufEagerFree then do {
        s \<leftarrow> bufset_erase h p (eager_free_mem_bufs al);
        Some (al\<lparr>eager_free_mem_bufs := s\<rparr>) }
      else Some al)"

section \<open>Splitting a candidate\<close>

text \<open>
  \<open>split_mem_buf\<close> is the part of \<open>MapAndSplitMemBuf\<close> under "Try to split mem buf": the tail of
  the candidate becomes a new buffer with the candidate's status. The source chooses the set of
  the tail with \<open>== kMemBufIdle\<close> and else.
\<close>

definition split_mem_buf ::
    "ptr \<Rightarrow> size_t \<Rightarrow> allocator \<Rightarrow> 'd world \<Rightarrow> (allocator \<times> 'd world) option" where
  "split_mem_buf candidate sz al w = do {
     c \<leftarrow> bufs w candidate;
     let remaining_size = buf_size c - sz;
     let remaining_addr = buf_addr c + sz;
     let (remaining, w) = new_buf
       (MemBuf remaining_size remaining_addr (buf_stream_id c) (buf_mem_block c) (buf_status c)) w;
     w \<leftarrow> (case next_buf c of None \<Rightarrow> Some w
       | Some r \<Rightarrow> do { w \<leftarrow> mod_buf r (\<lambda>b. b\<lparr>prev_buf := Some remaining\<rparr>) w;
                        mod_buf remaining (\<lambda>b. b\<lparr>next_buf := Some r\<rparr>) w });
     w \<leftarrow> mod_buf candidate (\<lambda>b. b\<lparr>next_buf := Some remaining\<rparr>) w;
     w \<leftarrow> mod_buf remaining (\<lambda>b. b\<lparr>prev_buf := Some candidate\<rparr>) w;
     al \<leftarrow> emplace_by_status
       (if buf_status c = kMemBufIdle then kMemBufIdle else kMemBufEagerFree) remaining al (bufs w);
     w \<leftarrow> mod_buf candidate (\<lambda>b. b\<lparr>buf_size := sz\<rparr>) w;
     Some (al, w) }"

text \<open>\<open>use_mem_buf\<close> is the end of \<open>MapAndSplitMemBuf\<close>: the candidate becomes used.\<close>

definition use_mem_buf :: "ptr \<Rightarrow> 'd world \<Rightarrow> 'd world option" where
  "use_mem_buf candidate w = do {
     w \<leftarrow> mod_buf candidate (\<lambda>b. b\<lparr>buf_status := kMemBufUsed\<rparr>) w;
     c \<leftarrow> bufs w candidate;
     mod_block (buf_mem_block c) (UpdateBorderAddr c) w }"

text \<open>\<open>map_mem_buf\<close> is its begin: an eager-free candidate gets physical memory first.\<close>

definition map_mem_buf ::
    "'d callbacks \<Rightarrow> ptr \<Rightarrow> size_t \<Rightarrow> 'd world \<Rightarrow> (bool \<times> 'd world) option" where
  "map_mem_buf cb candidate sz w = do {
     c \<leftarrow> bufs w candidate;
     let remaining_size = buf_size c - sz;
     if buf_status c = kMemBufEagerFree then do {
       let map_size = (if kDynamicMemAlignSize \<le> remaining_size then sz else buf_size c);
       (mapped_size, w) \<leftarrow> mem_mapper cb map_size (buf_addr c) w;
       Some (mapped_size = map_size, w) }
     else Some (True, w) }"

definition MapAndSplitMemBuf ::
    "'d callbacks \<Rightarrow> ptr \<Rightarrow> size_t \<Rightarrow> allocator \<Rightarrow> 'd world \<Rightarrow>
     (ptr option \<times> allocator \<times> 'd world) option" where
  "MapAndSplitMemBuf cb candidate sz al w = do {
     c \<leftarrow> bufs w candidate;
     let remaining_size = buf_size c - sz;
     (mapped, w) \<leftarrow> map_mem_buf cb candidate sz w;
     if \<not> mapped then do {
       al \<leftarrow> emplace_by_status kMemBufEagerFree candidate al (bufs w);
       Some (None, al, w) }
     else do {
       (al, w) \<leftarrow> (if kDynamicMemAlignSize \<le> remaining_size
                    then split_mem_buf candidate sz al w else Some (al, w));
       w \<leftarrow> use_mem_buf candidate w;
       Some (Some candidate, al, w) } }"

section \<open>Malloc\<close>

definition ExpandBlock ::
    "'d callbacks \<Rightarrow> size_t \<Rightarrow> allocator \<Rightarrow> 'd world \<Rightarrow>
     (ptr option \<times> allocator \<times> 'd world) option" where
  "ExpandBlock cb sz al w = do {
     (mem_block, w) \<leftarrow> mem_block_expander cb sz w;
     (case mem_block of
        None \<Rightarrow> Some (None, al, w)
      | Some b \<Rightarrow> Some (Some b, al\<lparr>mem_blocks := mem_blocks al @ [b]\<rparr>, w)) }"

definition MallocExpandBlock ::
    "'d callbacks \<Rightarrow> size_t \<Rightarrow> allocator \<Rightarrow> 'd world \<Rightarrow>
     (ptr option \<times> allocator \<times> 'd world) option" where
  "MallocExpandBlock cb sz al w = do {
     (mem_block, al, w) \<leftarrow> ExpandBlock cb sz al w;
     (case mem_block of
        None \<Rightarrow> Some (None, al, w)
      | Some b \<Rightarrow> do {
          blk \<leftarrow> blks w b;
          let status = (if enable_eager_free al then kMemBufEagerFree else kMemBufIdle);
          let (candidate, w) = new_buf
            (MemBuf (block_size blk) (block_addr blk) (block_stream_id blk) b status) w;
          if block_size blk < sz then do {
            al \<leftarrow> emplace_by_status status candidate al (bufs w);
            Some (None, al, w) }
          else MapAndSplitMemBuf cb candidate sz al w }) }"

definition Malloc ::
    "'d callbacks \<Rightarrow> size_t \<Rightarrow> allocator \<Rightarrow> 'd world \<Rightarrow>
     (ptr option \<times> allocator \<times> 'd world) option" where
  "Malloc cb sz al w =
     (if mem_blocks al = [] then MallocExpandBlock cb sz al w
      else do {
        it \<leftarrow> bufset_lower_bound (bufs w) (search_key sz) (free_mem_bufs al);
        (case it of
           Some candidate \<Rightarrow>
             MapAndSplitMemBuf cb candidate sz
               (al\<lparr>free_mem_bufs := remove1 candidate (free_mem_bufs al)\<rparr>) w
         | None \<Rightarrow> do {
             it \<leftarrow> bufset_lower_bound (bufs w) (search_key sz) (eager_free_mem_bufs al);
             (case it of
                Some candidate \<Rightarrow>
                  MapAndSplitMemBuf cb candidate sz
                    (al\<lparr>eager_free_mem_bufs := remove1 candidate (eager_free_mem_bufs al)\<rparr>) w
              | None \<Rightarrow> Some (None, al, w)) }) })"

section \<open>Free\<close>

definition merge_prev ::
    "ptr \<Rightarrow> mem_buf_status \<Rightarrow> allocator \<Rightarrow> 'd world \<Rightarrow> (allocator \<times> 'd world) option" where
  "merge_prev p target_status al w = do {
     b \<leftarrow> bufs w p;
     (case prev_buf b of
        None \<Rightarrow> Some (al, w)
      | Some q \<Rightarrow> do {
          c \<leftarrow> bufs w q;
          if buf_status c = target_status then do {
            w \<leftarrow> mod_buf p (\<lambda>b. b\<lparr>prev_buf := prev_buf c\<rparr>) w;
            w \<leftarrow> mod_buf_opt (prev_buf c) (\<lambda>d. d\<lparr>next_buf := Some p\<rparr>) w;
            w \<leftarrow> mod_buf p (\<lambda>b. b\<lparr>buf_addr := buf_addr c,
                                     buf_size := buf_size b + buf_size c\<rparr>) w;
            al \<leftarrow> erase_by_status target_status q al (bufs w);
            w \<leftarrow> delete_buf q w;
            Some (al, w) }
          else Some (al, w) }) }"

definition merge_next ::
    "ptr \<Rightarrow> mem_buf_status \<Rightarrow> allocator \<Rightarrow> 'd world \<Rightarrow> (allocator \<times> 'd world) option" where
  "merge_next p target_status al w = do {
     b \<leftarrow> bufs w p;
     (case next_buf b of
        None \<Rightarrow> Some (al, w)
      | Some q \<Rightarrow> do {
          c \<leftarrow> bufs w q;
          if buf_status c = target_status then do {
            w \<leftarrow> mod_buf p (\<lambda>b. b\<lparr>next_buf := next_buf c\<rparr>) w;
            w \<leftarrow> mod_buf_opt (next_buf c) (\<lambda>d. d\<lparr>prev_buf := Some p\<rparr>) w;
            w \<leftarrow> mod_buf p (\<lambda>b. b\<lparr>buf_size := buf_size b + buf_size c\<rparr>) w;
            al \<leftarrow> erase_by_status target_status q al (bufs w);
            w \<leftarrow> delete_buf q w;
            Some (al, w) }
          else Some (al, w) }) }"

definition Free ::
    "ptr \<Rightarrow> mem_buf_status \<Rightarrow> allocator \<Rightarrow> 'd world \<Rightarrow> (bool \<times> allocator \<times> 'd world) option" where
  "Free p target_status al w = do {
     b \<leftarrow> bufs w p;
     if \<not> IsEventNotUsed (buf_events b) then do {
       w \<leftarrow> mod_buf p (\<lambda>b. b\<lparr>buf_status := kMemBufUsedByEvent\<rparr>) w;
       Some (False, al, w) }
     else do {
       w \<leftarrow> mod_buf p (\<lambda>b. b\<lparr>buf_status := target_status\<rparr>) w;
       (al, w) \<leftarrow> merge_prev p target_status al w;
       (al, w) \<leftarrow> merge_next p target_status al w;
       al \<leftarrow> emplace_by_status target_status p al (bufs w);
       Some (True, al, w) } }"

section \<open>Eager free and release\<close>

text \<open>The first loop of \<open>FreeIdleMemsByEagerFree\<close>, over the idle set as it was at its start.\<close>

fun eager_free_idles ::
    "ptr list \<Rightarrow> size_t \<Rightarrow> allocator \<Rightarrow> 'd world \<Rightarrow> (size_t \<times> allocator \<times> 'd world) option" where
  "eager_free_idles [] eager_size al w = Some (eager_size, al, w)"
| "eager_free_idles (p # ps) eager_size al w = do {
     b \<leftarrow> bufs w p;
     let eager_size = eager_size + buf_size b;
     (_, al, w) \<leftarrow> Free p kMemBufEagerFree al w;
     eager_free_idles ps eager_size al w }"

text \<open>The second loop: every eager-free buffer gives its physical memory back.\<close>

fun eager_free_all ::
    "'d callbacks \<Rightarrow> ptr list \<Rightarrow> size_t \<Rightarrow> 'd world \<Rightarrow> (size_t \<times> 'd world) option" where
  "eager_free_all cb [] real_size w = Some (real_size, w)"
| "eager_free_all cb (p # ps) real_size w = do {
     b \<leftarrow> bufs w p;
     (n, w) \<leftarrow> mem_eager_freer cb (buf_addr b) (buf_size b) w;
     eager_free_all cb ps (real_size + n) w }"

definition Allocator_FreeIdleMemsByEagerFree ::
    "'d callbacks \<Rightarrow> allocator \<Rightarrow> 'd world \<Rightarrow>
     ((size_t \<times> size_t) \<times> allocator \<times> 'd world) option" where
  "Allocator_FreeIdleMemsByEagerFree cb al w = do {
     (eager_size, al, w) \<leftarrow> eager_free_idles (free_mem_bufs al) 0 al w;
     let al = al\<lparr>free_mem_bufs := []\<rparr>;
     (real_size, w) \<leftarrow> eager_free_all cb (eager_free_mem_bufs al) 0 w;
     Some ((eager_size, real_size), al, w) }"

fun clean_blocks :: "'d callbacks \<Rightarrow> ptr list \<Rightarrow> 'd world \<Rightarrow> 'd world option" where
  "clean_blocks cb [] w = Some w"
| "clean_blocks cb (b # bs) w = do {
     (_, w) \<leftarrow> mem_block_cleaner cb b w;
     clean_blocks cb bs w }"

fun delete_blocks :: "ptr list \<Rightarrow> 'd world \<Rightarrow> 'd world option" where
  "delete_blocks [] w = Some w"
| "delete_blocks (b # bs) w = do { w \<leftarrow> delete_block b w; delete_blocks bs w }"

fun delete_bufs :: "ptr list \<Rightarrow> 'd world \<Rightarrow> 'd world option" where
  "delete_bufs [] w = Some w"
| "delete_bufs (p # ps) w = do { w \<leftarrow> delete_buf p w; delete_bufs ps w }"

definition Allocator_ReleaseDeviceRes ::
    "'d callbacks \<Rightarrow> allocator \<Rightarrow> 'd world \<Rightarrow> (allocator \<times> 'd world) option" where
  "Allocator_ReleaseDeviceRes cb al w = do {
     w \<leftarrow> clean_blocks cb (mem_blocks al) w;
     w \<leftarrow> delete_blocks (mem_blocks al) w;
     w \<leftarrow> delete_bufs (free_mem_bufs al) w;
     w \<leftarrow> delete_bufs (eager_free_mem_bufs al) w;
     Some (al\<lparr>mem_blocks := [], free_mem_bufs := [], eager_free_mem_bufs := []\<rparr>, w) }"

text \<open>The destructor frees the same objects without calling the cleaner.\<close>

definition destroy_MemBufAllocator :: "allocator \<Rightarrow> 'd world \<Rightarrow> 'd world option" where
  "destroy_MemBufAllocator al w = do {
     w \<leftarrow> delete_blocks (mem_blocks al) w;
     w \<leftarrow> delete_bufs (free_mem_bufs al) w;
     delete_bufs (eager_free_mem_bufs al) w }"

section \<open>Statistics of an allocator\<close>

fun sum_block_peaks :: "(ptr \<Rightarrow> mem_block option) \<Rightarrow> ptr list \<Rightarrow> size_t option" where
  "sum_block_peaks h [] = Some 0"
| "sum_block_peaks h (b # bs) = do {
     k \<leftarrow> h b; n \<leftarrow> sum_block_peaks h bs; Some (MemBlock_ActualPeakSize k + n) }"

definition Allocator_ActualPeakSize :: "allocator \<Rightarrow> 'd world \<Rightarrow> size_t option" where
  "Allocator_ActualPeakSize al w = sum_block_peaks (blks w) (mem_blocks al)"

fun sum_block_sizes :: "(ptr \<Rightarrow> mem_block option) \<Rightarrow> ptr list \<Rightarrow> size_t option" where
  "sum_block_sizes h [] = Some 0"
| "sum_block_sizes h (b # bs) = do {
     k \<leftarrow> h b; n \<leftarrow> sum_block_sizes h bs; Some (block_size k + n) }"

fun sum_buf_sizes :: "buf_heap \<Rightarrow> ptr list \<Rightarrow> size_t option" where
  "sum_buf_sizes h [] = Some 0"
| "sum_buf_sizes h (p # ps) = do {
     b \<leftarrow> h p; n \<leftarrow> sum_buf_sizes h ps; Some (buf_size b + n) }"

text \<open>
  The figures \<open>DumpStateInfo\<close> prints: block total, idle total, eager-free total, in-use total.
\<close>

definition DumpStateInfo ::
    "allocator \<Rightarrow> 'd world \<Rightarrow> (size_t \<times> size_t \<times> size_t \<times> size_t) option" where
  "DumpStateInfo al w = do {
     mem_block_size \<leftarrow> sum_block_sizes (blks w) (mem_blocks al);
     free_size \<leftarrow> sum_buf_sizes (bufs w) (free_mem_bufs al);
     eager_size \<leftarrow> sum_buf_sizes (bufs w) (eager_free_mem_bufs al);
     Some (mem_block_size, free_size, eager_size, mem_block_size - free_size - eager_size) }"

lemmas al_exec = MemBufAllocator_def search_key_def emplace_by_status_def erase_by_status_def
  split_mem_buf_def use_mem_buf_def map_mem_buf_def MapAndSplitMemBuf_def ExpandBlock_def
  MallocExpandBlock_def Malloc_def merge_prev_def merge_next_def Free_def

end
