(* ===== verification/Mem_Layout.thy ===== *)
theory Mem_Layout
  imports Mem_Allocator
begin

text \<open>
  The representation relation of an allocator: the doubly linked chain of buffers of each block,
  the tiling of the block by its buffers, and the agreement of the two free sets with the buffer
  states. The lemmas say how relinking, splitting and merging act on them.
\<close>

section \<open>Chains of buffers\<close>

definition link :: "buf_heap \<Rightarrow> ptr \<Rightarrow> (ptr option \<times> ptr option) option" where
  "link h p = map_option (\<lambda>b. (prev_buf b, next_buf b)) (h p)"

fun dll :: "buf_heap \<Rightarrow> ptr option \<Rightarrow> ptr list \<Rightarrow> ptr option \<Rightarrow> bool" where
  "dll h pr [] nx \<longleftrightarrow> True"
| "dll h pr (p # ps) nx \<longleftrightarrow> link h p = Some (pr, hd_opt ps nx) \<and> dll h (Some p) ps nx"

lemma dll_append:
  "dll h pr (xs @ ys) nx \<longleftrightarrow> dll h pr xs (hd_opt ys nx) \<and> dll h (last_opt xs pr) ys nx"
  by (induction xs arbitrary: pr) auto

lemma dll_live: "dll h pr ps nx \<Longrightarrow> p \<in> set ps \<Longrightarrow> live h p"
  by (induction ps arbitrary: pr) (auto simp: link_def live_def)

lemma dll_cong:
  "(\<And>p. p \<in> set ps \<Longrightarrow> link h p = link h' p) \<Longrightarrow> dll h pr ps nx = dll h' pr ps nx"
  by (induction ps arbitrary: pr) auto

lemma dll_relink_next:
  assumes "dll h pr (xs @ [r]) nx" "distinct (xs @ [r])"
    and "link h' r = map_option (\<lambda>l. (fst l, nx')) (link h r)"
    and "\<And>p. p \<in> set xs \<Longrightarrow> link h' p = link h p"
  shows "dll h' pr (xs @ [r]) nx'"
proof -
  have "dll h' pr xs (Some r)"
    using assms(1) dll_cong [of xs h' h] assms(4) by (auto simp: dll_append)
  moreover have "dll h' (last_opt xs pr) [r] nx'"
    using assms(1,3) by (auto simp: dll_append)
  ultimately show ?thesis by (simp add: dll_append)
qed

lemma dll_relink_prev:
  assumes "dll h pr (r # ys) nx" "distinct (r # ys)"
    and "link h' r = map_option (\<lambda>l. (pr', snd l)) (link h r)"
    and "\<And>p. p \<in> set ys \<Longrightarrow> link h' p = link h p"
  shows "dll h' pr' (r # ys) nx"
  using assms(1,3) dll_cong [of ys h' h] assms(4) by auto

section \<open>Tilings\<close>

type_synonym seg = "device_ptr \<times> size_t"

definition seg_of :: "buf_heap \<Rightarrow> ptr \<Rightarrow> seg" where
  "seg_of h p = (case h p of None \<Rightarrow> (0, 0) | Some b \<Rightarrow> (buf_addr b, buf_size b))"

definition segs :: "buf_heap \<Rightarrow> ptr list \<Rightarrow> seg list" where
  "segs h ps = map (seg_of h) ps"

lemma segs_simps [simp]:
  "segs h [] = []" "segs h (p # ps) = seg_of h p # segs h ps"
  "segs h (xs @ ys) = segs h xs @ segs h ys"
  by (simp_all add: segs_def)

lemma in_segs [simp]: "s \<in> set (segs h ps) \<longleftrightarrow> (\<exists>p \<in> set ps. s = seg_of h p)"
  by (auto simp: segs_def)

definition status_of :: "buf_heap \<Rightarrow> ptr \<Rightarrow> mem_buf_status" where
  "status_of h p = (case h p of None \<Rightarrow> kMemBufUsed | Some b \<Rightarrow> buf_status b)"

definition events_of :: "buf_heap \<Rightarrow> ptr \<Rightarrow> events" where
  "events_of h p = (case h p of None \<Rightarrow> None | Some b \<Rightarrow> buf_events b)"

fun tiles :: "device_ptr \<Rightarrow> seg list \<Rightarrow> bool" where
  "tiles a [] \<longleftrightarrow> True"
| "tiles a (s # ss) \<longleftrightarrow> fst s = a \<and> 0 < snd s \<and> tiles (a + snd s) ss"

definition total :: "seg list \<Rightarrow> nat" where
  "total ss = sum_list (map (unat \<circ> snd) ss)"

definition word_total :: "seg list \<Rightarrow> size_t" where
  "word_total ss = sum_list (map snd ss)"

lemma total_simps [simp]:
  "total [] = 0" "total (s # ss) = unat (snd s) + total ss"
  "total (xs @ ys) = total xs + total ys"
  by (simp_all add: total_def)

lemma word_total_simps [simp]:
  "word_total [] = 0" "word_total (s # ss) = snd s + word_total ss"
  "word_total (xs @ ys) = word_total xs + word_total ys"
  by (simp_all add: word_total_def)

lemma tiles_append: "tiles a (xs @ ys) \<longleftrightarrow> tiles a xs \<and> tiles (a + word_total xs) ys"
  by (induction xs arbitrary: a) (auto simp: add.assoc)

lemma unat_tile_end:
  "unat a + total ss < 2 ^ 64 \<Longrightarrow> unat (a + word_total ss) = unat a + total ss"
proof (induction ss arbitrary: a)
  case Nil
  then show ?case by simp
next
  case (Cons s ss)
  then have "unat (a + snd s) = unat a + unat (snd s)"
    by (intro unat64_add) simp
  with Cons show ?case by (simp add: add.assoc [symmetric])
qed

text \<open>The bytes of a segment.\<close>

definition seg_range :: "seg \<Rightarrow> nat set" where
  "seg_range s = {unat (fst s) ..< unat (fst s) + unat (snd s)}"

lemma tiles_range:
  assumes "tiles a ss" "unat a + total ss < 2 ^ 64" "s \<in> set ss"
  shows "seg_range s \<subseteq> {unat a ..< unat a + total ss}"
  using assms
proof (induction ss arbitrary: a)
  case Nil
  then show ?case by simp
next
  case (Cons t ss)
  have t: "unat (a + snd t) = unat a + unat (snd t)"
    using Cons.prems by (intro unat64_add) simp
  show ?case
  proof (cases "s = t")
    case True
    with Cons.prems show ?thesis by (auto simp: seg_range_def)
  next
    case False
    with Cons.prems have "seg_range s \<subseteq> {unat (a + snd t) ..< unat (a + snd t) + total ss}"
      by (intro Cons.IH) (auto simp: t)
    with t show ?thesis by auto
  qed
qed

lemma tiles_pos: "tiles a ss \<Longrightarrow> s \<in> set ss \<Longrightarrow> 0 < snd s"
  by (induction ss arbitrary: a) auto

lemma tiles_sorted:
  assumes "tiles a ss" "unat a + total ss < 2 ^ 64"
  shows "sorted_wrt (\<lambda>s t. unat (fst s) + unat (snd s) \<le> unat (fst t)) ss"
  using assms
proof (induction ss arbitrary: a)
  case Nil
  then show ?case by simp
next
  case (Cons s ss)
  have s: "unat (a + snd s) = unat a + unat (snd s)"
    using Cons.prems by (intro unat64_add) simp
  have tl: "tiles (a + snd s) ss" "unat (a + snd s) + total ss < 2 ^ 64"
    using Cons.prems by (auto simp: s)
  have "unat a + unat (snd s) \<le> unat (fst t)" if "t \<in> set ss" for t
  proof -
    have "0 < snd t" using tl(1) that by (rule tiles_pos)
    then have "unat (fst t) \<in> seg_range t"
      by (simp add: seg_range_def word_less_nat_alt)
    then show ?thesis
      using tiles_range [OF tl that] s by auto
  qed
  with Cons tl show ?case by auto
qed

section \<open>Blocks\<close>

definition free_status :: "mem_buf_status \<Rightarrow> bool" where
  "free_status st \<longleftrightarrow> st = kMemBufIdle \<or> st = kMemBufEagerFree"

lemma free_status_simps [simp]:
  "free_status kMemBufIdle" "free_status kMemBufEagerFree"
  "\<not> free_status kMemBufUsed" "\<not> free_status kMemBufUsedByEvent"
  by (simp_all add: free_status_def)

text \<open>A buffer belongs to its block, and a free buffer carries no event.\<close>

definition buf_ok :: "buf_heap \<Rightarrow> ptr \<Rightarrow> ptr \<Rightarrow> bool" where
  "buf_ok h b p \<longleftrightarrow> (\<exists>B. h p = Some B \<and> buf_mem_block B = b \<and>
     (free_status (buf_status B) \<longrightarrow> IsEventNotUsed (buf_events B)))"

definition block_rep :: "buf_heap \<Rightarrow> ptr \<Rightarrow> seg \<Rightarrow> ptr list \<Rightarrow> bool" where
  "block_rep h b e ps \<longleftrightarrow>
     dll h None ps None \<and> tiles (fst e) (segs h ps) \<and>
     total (segs h ps) = unat (snd e) \<and> 0 < snd e \<and>
     unat (fst e) + unat (snd e) < 2 ^ 64 \<and> (\<forall>p \<in> set ps. buf_ok h b p)"

text \<open>A buffer whose neighbour was relinked is the same buffer otherwise.\<close>

definition relinked :: "buf_heap \<Rightarrow> buf_heap \<Rightarrow> ptr \<Rightarrow> bool" where
  "relinked h h' r \<longleftrightarrow> seg_of h' r = seg_of h r \<and> status_of h' r = status_of h r \<and>
     (\<forall>b. buf_ok h' b r = buf_ok h b r) \<and> live h' r = live h r \<and> events_of h' r = events_of h r"

lemmas relinked_fields_defs =
  relinked_def seg_of_def status_of_def buf_ok_def live_def events_of_def

lemma relinked_refl [simp]: "h' r = h r \<Longrightarrow> relinked h h' r"
  by (simp add: relinked_fields_defs)

lemma relinked_next [simp]:
  "h' r = map_option (\<lambda>c. c\<lparr>next_buf := x\<rparr>) (h r) \<Longrightarrow> relinked h h' r"
  by (cases "h r") (simp_all add: relinked_fields_defs)

lemma relinked_prev [simp]:
  "h' r = map_option (\<lambda>c. c\<lparr>prev_buf := x\<rparr>) (h r) \<Longrightarrow> relinked h h' r"
  by (cases "h r") (simp_all add: relinked_fields_defs)

lemma relinked_fields:
  assumes "relinked h h' r"
  shows "seg_of h' r = seg_of h r" "status_of h' r = status_of h r" "buf_ok h' b r = buf_ok h b r"
    "live h' r = live h r" "events_of h' r = events_of h r"
  using assms by (simp_all add: relinked_def)

lemma segs_relinked:
  "(\<And>r. r \<in> set xs \<Longrightarrow> relinked h h' r) \<Longrightarrow> segs h' xs = segs h xs"
  by (simp add: segs_def relinked_fields)

lemma seg_of_Some: "h p = Some b \<Longrightarrow> seg_of h p = (buf_addr b, buf_size b)"
  by (simp add: seg_of_def)

lemma status_of_Some: "h p = Some b \<Longrightarrow> status_of h p = buf_status b"
  by (simp add: status_of_def)

lemma dll_relink_last:
  assumes "dll h pr xs nx" "distinct xs"
    and "\<And>r. r \<in> set xs \<Longrightarrow>
      h' r = (if last_opt xs None = Some r then map_option (\<lambda>c. c\<lparr>next_buf := nx'\<rparr>) (h r) else h r)"
  shows "dll h' pr xs nx'"
proof (cases xs rule: rev_cases)
  case Nil
  then show ?thesis by simp
next
  case (snoc ys r)
  have "link h' r = map_option (\<lambda>l. (fst l, nx')) (link h r)"
    using assms(3) [of r] snoc by (cases "h r") (simp_all add: link_def)
  moreover have "link h' p = link h p" if "p \<in> set ys" for p
    using assms(2,3) that snoc by (auto simp: link_def)
  ultimately show ?thesis
    using assms(1,2) snoc dll_relink_next [of h pr ys r nx h' nx'] by simp
qed

lemma dll_relink_first:
  assumes "dll h pr ys nx" "distinct ys"
    and "\<And>r. r \<in> set ys \<Longrightarrow>
      h' r = (if hd_opt ys None = Some r then map_option (\<lambda>c. c\<lparr>prev_buf := pr'\<rparr>) (h r) else h r)"
  shows "dll h' pr' ys nx"
proof (cases ys)
  case Nil
  then show ?thesis by simp
next
  case (Cons r zs)
  have "link h' r = map_option (\<lambda>l. (pr', snd l)) (link h r)"
    using assms(3) [of r] Cons by (cases "h r") (simp_all add: link_def)
  moreover have "link h' p = link h p" if "p \<in> set zs" for p
    using assms(2,3) that Cons by (auto simp: link_def)
  ultimately show ?thesis
    using assms(1,2) Cons dll_relink_prev [of h pr r zs nx h' pr'] by simp
qed

subsection \<open>Merging and splitting inside a block\<close>

lemma block_links:
  assumes "block_rep h b e (xs @ p # ys)" "h p = Some B"
  shows "prev_buf B = last_opt xs None" "next_buf B = hd_opt ys None"
  using assms by (auto simp: block_rep_def dll_append link_def)

lemma block_links2:
  assumes "block_rep h b e (xs @ p # q # ys)" "h p = Some P" "h q = Some Q"
  shows "prev_buf P = last_opt xs None" "next_buf P = Some q"
    "prev_buf Q = Some p" "next_buf Q = hd_opt ys None"
  using assms by (auto simp: block_rep_def dll_append link_def)

lemma block_merge_prev:
  assumes rep: "block_rep h b e (xs @ q # p # ys)" and dist: "distinct (xs @ q # p # ys)"
    and hp: "h p = Some B" and hq: "h q = Some Q"
    and hp': "h' p = Some (B\<lparr>prev_buf := prev_buf Q, buf_addr := buf_addr Q,
                              buf_size := buf_size B + buf_size Q\<rparr>)"
    and xs: "\<And>r. r \<in> set xs \<Longrightarrow> h' r =
      (if prev_buf Q = Some r then map_option (\<lambda>c. c\<lparr>next_buf := Some p\<rparr>) (h r) else h r)"
    and ys: "\<And>r. r \<in> set ys \<Longrightarrow> h' r = h r"
  shows "block_rep h' b e (xs @ p # ys)"
proof -
  have d: "dll h None xs (Some q)" "link h q = Some (last_opt xs None, Some p)"
      "link h p = Some (Some q, hd_opt ys None)" "dll h (Some p) ys None"
    using rep by (auto simp: block_rep_def dll_append)
  have pq: "prev_buf Q = last_opt xs None"
    using rep hq hp by (rule block_links2)
  have "dll h' None xs (Some p)"
    by (rule dll_relink_last [OF d(1)]) (use dist xs pq in simp_all)
  moreover have "dll h' (Some p) ys None"
    using d(4) ys dll_cong [of ys h' h] by (simp add: link_def)
  moreover have "link h' p = Some (last_opt xs None, hd_opt ys None)"
    using hp' d(3) hp pq by (simp add: link_def)
  ultimately have dll: "dll h' None (xs @ p # ys) None"
    by (simp add: dll_append)
  have rl: "relinked h h' r" if "r \<in> set xs \<union> set ys" for r
    using that xs [of r] ys [of r] by (auto split: if_splits)
  have segs: "segs h' xs = segs h xs" "segs h' ys = segs h ys"
    using rl by (simp_all add: segs_def relinked_fields(1))
  have tot: "unat (fst e) + total (segs h (xs @ q # p # ys)) < 2 ^ 64"
    using rep by (simp add: block_rep_def)
  have sz: "unat (buf_size B + buf_size Q) = unat (buf_size B) + unat (buf_size Q)"
    using tot hp hq by (intro unat64_add) (simp add: seg_of_Some)
  have pos: "0 < buf_size B + buf_size Q"
    using rep hp hq by (auto simp: block_rep_def tiles_append seg_of_Some word_less_nat_alt sz)
  have "tiles (fst e) (segs h' (xs @ p # ys))"
    using rep pos hp' hp hq segs
    by (auto simp: block_rep_def tiles_append seg_of_Some add.assoc add.commute [of "buf_size B"])
  moreover have "total (segs h' (xs @ p # ys)) = total (segs h (xs @ q # p # ys))"
    using hp' hp hq segs sz by (simp add: seg_of_Some)
  moreover have "buf_ok h' b r" if "r \<in> set (xs @ p # ys)" for r
  proof (cases "r = p")
    case True
    have "buf_ok h b p" using rep by (simp add: block_rep_def)
    with True hp hp' show ?thesis by (auto simp: buf_ok_def)
  next
    case False
    with that rl have "relinked h h' r" by auto
    then show ?thesis
      using rep that False by (auto simp: block_rep_def relinked_fields)
  qed
  ultimately show "block_rep h' b e (xs @ p # ys)"
    using rep dll by (simp add: block_rep_def)
qed

lemma block_merge_next:
  assumes rep: "block_rep h b e (xs @ p # q # ys)" and dist: "distinct (xs @ p # q # ys)"
    and hp: "h p = Some B" and hq: "h q = Some Q"
    and hp': "h' p = Some (B\<lparr>next_buf := next_buf Q, buf_size := buf_size B + buf_size Q\<rparr>)"
    and xs: "\<And>r. r \<in> set xs \<Longrightarrow> h' r = h r"
    and ys: "\<And>r. r \<in> set ys \<Longrightarrow> h' r =
      (if next_buf Q = Some r then map_option (\<lambda>c. c\<lparr>prev_buf := Some p\<rparr>) (h r) else h r)"
  shows "block_rep h' b e (xs @ p # ys)"
proof -
  have d: "dll h None xs (Some p)" "link h q = Some (Some p, hd_opt ys None)"
      "link h p = Some (last_opt xs None, Some q)" "dll h (Some q) ys None"
    using rep by (auto simp: block_rep_def dll_append)
  have nq: "next_buf Q = hd_opt ys None"
    using rep hp hq by (rule block_links2)
  have "dll h' (Some p) ys None"
    by (rule dll_relink_first [OF d(4)]) (use dist ys nq in simp_all)
  moreover have "dll h' None xs (Some p)"
    using d(1) xs dll_cong [of xs h' h] by (simp add: link_def)
  moreover have "link h' p = Some (last_opt xs None, hd_opt ys None)"
    using hp' d(3) hp nq by (simp add: link_def)
  ultimately have dll: "dll h' None (xs @ p # ys) None"
    by (simp add: dll_append)
  have rl: "relinked h h' r" if "r \<in> set xs \<union> set ys" for r
    using that xs [of r] ys [of r] by (auto split: if_splits)
  have segs: "segs h' xs = segs h xs" "segs h' ys = segs h ys"
    using rl by (simp_all add: segs_def relinked_fields(1))
  have tot: "unat (fst e) + total (segs h (xs @ p # q # ys)) < 2 ^ 64"
    using rep by (simp add: block_rep_def)
  have sz: "unat (buf_size B + buf_size Q) = unat (buf_size B) + unat (buf_size Q)"
    using tot hp hq by (intro unat64_add) (simp add: seg_of_Some)
  have pos: "0 < buf_size B + buf_size Q"
    using rep hp hq by (auto simp: block_rep_def tiles_append seg_of_Some word_less_nat_alt sz)
  have "tiles (fst e) (segs h' (xs @ p # ys))"
    using rep pos hp' hp hq segs
    by (auto simp: block_rep_def tiles_append seg_of_Some add.assoc)
  moreover have "total (segs h' (xs @ p # ys)) = total (segs h (xs @ p # q # ys))"
    using hp' hp hq segs sz by (simp add: seg_of_Some)
  moreover have "buf_ok h' b r" if "r \<in> set (xs @ p # ys)" for r
  proof (cases "r = p")
    case True
    have "buf_ok h b p" using rep by (simp add: block_rep_def)
    with True hp hp' show ?thesis by (auto simp: buf_ok_def)
  next
    case False
    with that rl have "relinked h h' r" by auto
    then show ?thesis
      using rep that False by (auto simp: block_rep_def relinked_fields)
  qed
  ultimately show "block_rep h' b e (xs @ p # ys)"
    using rep dll by (simp add: block_rep_def)
qed

lemma block_split:
  assumes rep: "block_rep h b e (xs @ p # ys)" and dist: "distinct (xs @ p # ys)"
    and fresh: "n \<notin> set (xs @ p # ys)" and hp: "h p = Some B"
    and sz: "0 < sz" "sz < buf_size B"
    and hp': "h' p = Some (B\<lparr>next_buf := Some n, buf_size := sz\<rparr>)"
    and hn': "h' n = Some N" "prev_buf N = Some p" "next_buf N = next_buf B"
      "buf_addr N = buf_addr B + sz" "buf_size N = buf_size B - sz" "buf_mem_block N = b"
      "IsEventNotUsed (buf_events N)"
    and xs: "\<And>r. r \<in> set xs \<Longrightarrow> h' r = h r"
    and ys: "\<And>r. r \<in> set ys \<Longrightarrow> h' r =
      (if next_buf B = Some r then map_option (\<lambda>c. c\<lparr>prev_buf := Some n\<rparr>) (h r) else h r)"
  shows "block_rep h' b e (xs @ p # n # ys)"
proof -
  have d: "dll h None xs (Some p)" "link h p = Some (last_opt xs None, hd_opt ys None)"
      "dll h (Some p) ys None"
    using rep by (auto simp: block_rep_def dll_append)
  have nb: "next_buf B = hd_opt ys None"
    using rep hp by (rule block_links)
  have "dll h' (Some n) ys None"
    by (rule dll_relink_first [OF d(3)]) (use dist ys nb in simp_all)
  moreover have "dll h' None xs (Some p)"
    using d(1) xs dll_cong [of xs h' h] by (simp add: link_def)
  moreover have "link h' p = Some (last_opt xs None, Some n)" "link h' n = Some (Some p, hd_opt ys None)"
    using hp' d(2) hp nb hn' by (simp_all add: link_def)
  ultimately have dll: "dll h' None (xs @ p # n # ys) None"
    by (simp add: dll_append)
  have rl: "relinked h h' r" if "r \<in> set xs \<union> set ys" for r
    using that xs [of r] ys [of r] by (auto split: if_splits)
  have segs: "segs h' xs = segs h xs" "segs h' ys = segs h ys"
    using rl by (simp_all add: segs_def relinked_fields(1))
  have split: "unat sz + unat (buf_size B - sz) = unat (buf_size B)"
    using sz by (intro word_sub_split) simp
  have pos: "0 < buf_size B - sz"
    using sz split by (simp add: word_less_nat_alt)
  have "tiles (fst e) (segs h' (xs @ p # n # ys))"
    using rep pos sz hp' hn' hp segs
    by (auto simp: block_rep_def tiles_append seg_of_Some add.assoc)
  moreover have "total (segs h' (xs @ p # n # ys)) = total (segs h (xs @ p # ys))"
    using hp' hn' hp segs split by (simp add: seg_of_Some)
  moreover have "buf_ok h' b r" if "r \<in> set (xs @ p # n # ys)" for r
  proof -
    have "buf_ok h b p" using rep by (simp add: block_rep_def)
    then have "buf_ok h' b p" using hp hp' by (auto simp: buf_ok_def)
    moreover have "buf_ok h' b n" using hn' by (auto simp: buf_ok_def)
    moreover have "buf_ok h' b r" if "r \<in> set xs \<union> set ys"
      using rep that rl [OF that] by (auto simp: block_rep_def relinked_fields)
    ultimately show ?thesis using that by auto
  qed
  ultimately show "block_rep h' b e (xs @ p # n # ys)"
    using rep dll by (simp add: block_rep_def)
qed

end
