(* ===== verification/Mem_Alloc_Inv.thy ===== *)
theory Mem_Alloc_Inv
  imports Mem_Layout
begin

text \<open>
  The representation invariant of \<open>MemBufAllocator\<close> over a layout (for each block the list of its
  buffers in address order) and the effect of every allocator operation on it.
\<close>

section \<open>Layouts\<close>

type_synonym layout = "(ptr \<times> ptr list) list"

definition ptrs :: "layout \<Rightarrow> ptr list" where
  "ptrs L = concat (map snd L)"

lemma ptrs_simps [simp]:
  "ptrs [] = []" "ptrs (e # L) = snd e @ ptrs L" "ptrs (K @ L) = ptrs K @ ptrs L"
  by (simp_all add: ptrs_def)

definition blk_ext :: "'d world \<Rightarrow> ptr \<Rightarrow> seg option" where
  "blk_ext w b = map_option (\<lambda>k. (block_addr k, block_size k)) (blks w b)"

definition apart :: "'d world \<Rightarrow> ptr list \<Rightarrow> bool" where
  "apart w bs \<longleftrightarrow> (\<forall>b \<in> set bs. \<forall>c \<in> set bs. b \<noteq> c \<longrightarrow>
     seg_range (the (blk_ext w b)) \<inter> seg_range (the (blk_ext w c)) = {})"

definition layout_rep :: "'d world \<Rightarrow> layout \<Rightarrow> bool" where
  "layout_rep w L \<longleftrightarrow>
     distinct (map fst L) \<and> distinct (ptrs L) \<and>
     (\<forall>(b, ps) \<in> set L. \<exists>e. blk_ext w b = Some e \<and> block_rep (bufs w) b e ps) \<and>
     apart w (map fst L) \<and>
     (\<forall>p \<in> set (ptrs L). p < fresh w) \<and> (\<forall>b \<in> set (map fst L). b < fresh w)"

lemma in_ptrs: "p \<in> set (ptrs L) \<longleftrightarrow> (\<exists>(b, ps) \<in> set L. p \<in> set ps)"
  by (force simp: ptrs_def)

lemma layout_block:
  assumes "layout_rep w L" "(b, ps) \<in> set L"
  obtains e where "blk_ext w b = Some e" "block_rep (bufs w) b e ps"
  using assms by (force simp: layout_rep_def)

lemma block_rep_live: "block_rep h b e ps \<Longrightarrow> p \<in> set ps \<Longrightarrow> live h p"
  by (auto simp: block_rep_def intro: dll_live)

lemma layout_live: "layout_rep w L \<Longrightarrow> p \<in> set (ptrs L) \<Longrightarrow> live (bufs w) p"
  by (force simp: in_ptrs elim: layout_block intro: block_rep_live)

lemma block_rep_range:
  assumes "block_rep h b e ps" "p \<in> set ps"
  shows "seg_range (seg_of h p) \<subseteq> seg_range e" "seg_range (seg_of h p) \<noteq> {}"
proof -
  have t: "tiles (fst e) (segs h ps)" "total (segs h ps) = unat (snd e)"
      "unat (fst e) + total (segs h ps) < 2 ^ 64"
    using assms(1) by (auto simp: block_rep_def)
  have mem: "seg_of h p \<in> set (segs h ps)" using assms(2) by auto
  show "seg_range (seg_of h p) \<subseteq> seg_range e"
    using tiles_range [OF t(1,3) mem] t(2) by (simp add: seg_range_def)
  have "0 < snd (seg_of h p)" by (rule tiles_pos [OF t(1) mem])
  then show "seg_range (seg_of h p) \<noteq> {}"
    by (simp add: seg_range_def word_less_nat_alt)
qed

lemma block_rep_disjoint:
  assumes "block_rep h b e ps" "p \<in> set ps" "q \<in> set ps" "p \<noteq> q"
  shows "seg_range (seg_of h p) \<inter> seg_range (seg_of h q) = {}"
proof -
  have "sorted_wrt (\<lambda>s t. unat (fst s) + unat (snd s) \<le> unat (fst t)) (segs h ps)"
    using assms(1) by (intro tiles_sorted) (auto simp: block_rep_def)
  then have "sorted_wrt (\<lambda>r s. seg_range (seg_of h r) \<inter> seg_range (seg_of h s) = {}) ps"
    by (auto simp: segs_def sorted_wrt_map seg_range_def elim!: sorted_wrt_mono_rel [rotated])
  then show ?thesis
    using assms(2-4) by (induction ps) auto
qed

text \<open>Any two buffers of a layout are disjoint; in particular their addresses differ.\<close>

lemma layout_disjoint:
  assumes rep: "layout_rep w L" and p: "p \<in> set (ptrs L)" and q: "q \<in> set (ptrs L)" and "p \<noteq> q"
  shows "seg_range (seg_of (bufs w) p) \<inter> seg_range (seg_of (bufs w) q) = {}"
proof -
  obtain b ps where b: "(b, ps) \<in> set L" "p \<in> set ps" using p by (auto simp: in_ptrs)
  obtain c qs where c: "(c, qs) \<in> set L" "q \<in> set qs" using q by (auto simp: in_ptrs)
  obtain e where e: "blk_ext w b = Some e" "block_rep (bufs w) b e ps"
    using rep b(1) by (rule layout_block)
  obtain f where f: "blk_ext w c = Some f" "block_rep (bufs w) c f qs"
    using rep c(1) by (rule layout_block)
  show ?thesis
  proof (cases "b = c")
    case True
    then have "ps = qs"
      using rep b(1) c(1) by (auto simp: layout_rep_def eq_key_imp_eq_value)
    with c have "q \<in> set ps" by simp
    with e(2) b(2) show ?thesis using \<open>p \<noteq> q\<close> by (rule block_rep_disjoint)
  next
    case False
    moreover have "apart w (map fst L)" using rep by (simp add: layout_rep_def)
    moreover have "b \<in> set (map fst L)" "c \<in> set (map fst L)"
      using b(1) c(1) by (auto intro: rev_image_eqI)
    ultimately have "seg_range e \<inter> seg_range f = {}"
      using e(1) f(1) unfolding apart_def by fastforce
    with block_rep_range(1) [OF e(2) b(2)] block_rep_range(1) [OF f(2) c(2)]
    show ?thesis by blast
  qed
qed

lemma layout_nonempty:
  "layout_rep w L \<Longrightarrow> p \<in> set (ptrs L) \<Longrightarrow> seg_range (seg_of (bufs w) p) \<noteq> {}"
  by (auto simp: in_ptrs elim!: layout_block dest: block_rep_range(2))

lemma layout_addr_inj:
  assumes "layout_rep w L" "p \<in> set (ptrs L)" "q \<in> set (ptrs L)"
    and "fst (seg_of (bufs w) p) = fst (seg_of (bufs w) q)"
  shows "p = q"
proof (rule ccontr)
  assume "p \<noteq> q"
  with assms have "seg_range (seg_of (bufs w) p) \<inter> seg_range (seg_of (bufs w) q) = {}"
    by (intro layout_disjoint)
  moreover have "unat (fst (seg_of (bufs w) p)) \<in> seg_range (seg_of (bufs w) p)"
    using layout_nonempty [OF assms(1,2)] by (auto simp: seg_range_def)
  moreover have "unat (fst (seg_of (bufs w) p)) \<in> seg_range (seg_of (bufs w) q)"
    using layout_nonempty [OF assms(1,3)] assms(4) by (auto simp: seg_range_def)
  ultimately show False by blast
qed

lemma buf_key_seg: "live h p \<Longrightarrow> buf_key (the (h p)) = (snd (seg_of h p), fst (seg_of h p))"
  by (auto elim!: liveE simp: buf_key_def seg_of_def)

lemma layout_order:
  assumes "layout_rep w L" "A \<subseteq> set (ptrs L)"
  shows "strict_order (buf_less (bufs w)) A"
proof (rule buf_less_strict_order)
  show "live (bufs w) p" if "p \<in> A" for p
    using assms that by (auto intro: layout_live)
  then show "inj_on (\<lambda>p. buf_key (the (bufs w p))) A"
    using assms by (auto simp: inj_on_def buf_key_seg intro: layout_addr_inj)
qed

lemma block_rep_same:
  assumes same: "\<And>p. p \<in> set qs \<Longrightarrow> h' p = h p" and rep: "block_rep h c e qs"
  shows "block_rep h' c e qs"
proof -
  have "dll h' None qs None = dll h None qs None"
    by (intro dll_cong) (simp add: link_def same)
  moreover have "segs h' qs = segs h qs"
    using same by (simp add: segs_def seg_of_def)
  ultimately show ?thesis
    using rep same by (simp add: block_rep_def buf_ok_def)
qed

text \<open>Replacing the buffers of one block.\<close>

lemma layout_replace:
  assumes rep: "layout_rep w (LA @ (b, ps) # LB)"
    and ext: "\<And>c. c \<in> set (map fst (LA @ (b, ps) # LB)) \<Longrightarrow> blk_ext w' c = blk_ext w c"
    and frame: "\<And>p. p \<in> set (ptrs LA) \<union> set (ptrs LB) \<Longrightarrow> bufs w' p = bufs w p"
    and new: "\<And>e. blk_ext w b = Some e \<Longrightarrow> block_rep (bufs w') b e ps'"
    and dist: "distinct ps'" and ps': "\<And>p. p \<in> set ps' \<Longrightarrow> p \<in> set ps \<or> fresh w \<le> p \<and> p < fresh w'"
    and fresh: "fresh w \<le> fresh w'"
  shows "layout_rep w' (LA @ (b, ps') # LB)"
proof -
  have other: "block_rep (bufs w') c e qs"
    if "(c, qs) \<in> set LA \<union> set LB" "block_rep (bufs w) c e qs" for c e qs
    using _ that(2) by (rule block_rep_same) (use frame that(1) in \<open>auto simp: in_ptrs\<close>)
  have blocks: "\<exists>e. blk_ext w' c = Some e \<and> block_rep (bufs w') c e qs"
    if "(c, qs) \<in> set (LA @ (b, ps') # LB)" for c qs
  proof (cases "(c, qs) \<in> set LA \<union> set LB")
    case True
    then obtain e where "blk_ext w c = Some e" "block_rep (bufs w) c e qs"
      using rep by (auto elim: layout_block)
    moreover have "blk_ext w' c = blk_ext w c"
      by (rule ext) (use True in \<open>auto intro: rev_image_eqI\<close>)
    ultimately show ?thesis using other True by auto
  next
    case False
    then have cq: "c = b" "qs = ps'" using that by auto
    obtain e where e: "blk_ext w b = Some e"
      using rep by (auto elim: layout_block)
    moreover have "blk_ext w' b = blk_ext w b" by (rule ext) simp
    ultimately show ?thesis using new cq by auto
  qed
  have dist': "distinct (ptrs (LA @ (b, ps') # LB))"
  proof -
    have d: "distinct (ptrs (LA @ (b, ps) # LB))" using rep by (simp add: layout_rep_def)
    have lt: "\<forall>p \<in> set (ptrs LA) \<union> set (ptrs LB). p < fresh w"
      using rep by (auto simp: layout_rep_def)
    have "p \<notin> set (ptrs LA) \<union> set (ptrs LB)" if "p \<in> set ps'" for p
      using ps' [OF that]
    proof
      assume "p \<in> set ps"
      with d show ?thesis by auto
    next
      assume "fresh w \<le> p \<and> p < fresh w'"
      with lt show ?thesis by (meson not_le)
    qed
    with d dist show ?thesis by auto
  qed
  have ap: "apart w' (map fst (LA @ (b, ps') # LB))"
  proof -
    have "apart w (map fst (LA @ (b, ps) # LB))" using rep by (simp add: layout_rep_def)
    moreover have "map fst (LA @ (b, ps') # LB) = map fst (LA @ (b, ps) # LB)" by simp
    ultimately show ?thesis
      using ext unfolding apart_def by metis
  qed
  have lt: "p < fresh w'" if "p \<in> set (ptrs (LA @ (b, ps) # LB))" for p
    using that rep fresh by (auto simp: layout_rep_def intro: order_less_le_trans)
  have "p < fresh w'" if "p \<in> set (ptrs (LA @ (b, ps') # LB))" for p
    using that ps' [of p] lt [of p] by auto
  moreover have "c < fresh w'" if "c \<in> set (map fst (LA @ (b, ps') # LB))" for c
  proof -
    have "c \<in> set (map fst (LA @ (b, ps) # LB))" using that by simp
    then have "c < fresh w" using rep unfolding layout_rep_def by blast
    with fresh show ?thesis by simp
  qed
  ultimately show ?thesis
    using rep blocks dist' ap by (auto simp: layout_rep_def)
qed

section \<open>The free sets\<close>

text \<open>
  \<open>bufset_rep h A X st s\<close>: the set \<open>s\<close> lists, in comparator order, the buffers of \<open>A\<close> that
  have status \<open>st\<close>, except those of \<open>X\<close> (the buffer an operation has in hand).
\<close>

definition bufset_rep :: "buf_heap \<Rightarrow> ptr set \<Rightarrow> ptr set \<Rightarrow> mem_buf_status \<Rightarrow> buf_set \<Rightarrow> bool" where
  "bufset_rep h A X st s \<longleftrightarrow>
     set s = {p \<in> A. status_of h p = st} - X \<and> sorted_wrt (buf_less h) s"

definition sets_rep :: "ptr set \<Rightarrow> buf_heap \<Rightarrow> allocator \<Rightarrow> ptr set \<Rightarrow> bool" where
  "sets_rep X h al A \<longleftrightarrow>
     bufset_rep h A X kMemBufIdle (free_mem_bufs al) \<and>
     bufset_rep h A X kMemBufEagerFree (eager_free_mem_bufs al)"

lemma buf_less_seg:
  "buf_less h p q \<longleftrightarrow> live h p \<and> live h q \<and>
     key_less (prod.swap (seg_of h p)) (prod.swap (seg_of h q))"
  by (auto simp: buf_less_def live_def seg_of_def MemBufComparator_key buf_key_def split: option.splits)

lemma buf_less_relinked:
  "relinked h h' p \<Longrightarrow> relinked h h' q \<Longrightarrow> buf_less h' p q = buf_less h p q"
  by (simp add: buf_less_seg relinked_def)

lemma strict_order_cong:
  assumes "strict_order lt A" "\<And>x y. x \<in> A \<Longrightarrow> y \<in> A \<Longrightarrow> lt' x y = lt x y"
  shows "strict_order lt' A"
proof
  fix x assume "x \<in> A"
  with assms show "\<not> lt' x x" using strict_order.irrefl by metis
next
  fix x y z assume "x \<in> A" "y \<in> A" "z \<in> A" "lt' x y" "lt' y z"
  with assms show "lt' x z" using strict_order.trans by metis
next
  fix x y assume "x \<in> A" "y \<in> A" "x \<noteq> y"
  with assms show "lt' x y \<or> lt' y x" using strict_order.total by metis
qed

lemma bufset_rep_cong:
  assumes "bufset_rep h A X st s"
    and "{p \<in> A'. status_of h' p = st} - X' = {p \<in> A. status_of h p = st} - X"
    and "\<And>p. \<lbrakk>p \<in> A; p \<notin> X; status_of h p = st\<rbrakk> \<Longrightarrow> relinked h h' p"
  shows "bufset_rep h' A' X' st s"
proof -
  have "relinked h h' p" if "p \<in> set s" for p
    using assms(1,3) that by (simp add: bufset_rep_def)
  then have "buf_less h' p q = buf_less h p q" if "p \<in> set s" "q \<in> set s" for p q
    using that by (simp add: buf_less_relinked)
  then have "sorted_wrt (buf_less h') s = sorted_wrt (buf_less h) s"
    by (induction s) auto
  with assms(1,2) show ?thesis by (simp add: bufset_rep_def)
qed

lemma sets_rep_cong:
  assumes "sets_rep X h al A"
    and "\<And>p. free_status (status_of h' p) \<Longrightarrow> p \<in> A' \<and> p \<notin> X' \<Longrightarrow> p \<in> A \<and> p \<notin> X"
    and "\<And>p. p \<in> A \<Longrightarrow> p \<notin> X \<Longrightarrow> free_status (status_of h p) \<Longrightarrow> p \<in> A' \<and> p \<notin> X'"
    and "\<And>p. p \<in> A \<Longrightarrow> p \<notin> X \<Longrightarrow> relinked h h' p"
  shows "sets_rep X' h' al A'"
proof -
  have *: "{p \<in> A'. status_of h' p = st} - X' = {p \<in> A. status_of h p = st} - X"
    if "free_status st" for st
  proof safe
    fix p assume "p \<in> A'" "p \<notin> X'" "st = status_of h' p"
    with that assms(2) have "p \<in> A \<and> p \<notin> X" by blast
    moreover from this assms(4) have "relinked h h' p" by blast
    ultimately show "p \<in> A" "p \<in> X \<Longrightarrow> False" "status_of h p = status_of h' p"
      by (simp_all add: relinked_def)
  next
    fix p assume "p \<in> A" "p \<notin> X" "st = status_of h p"
    with that assms(3) show "p \<in> A'" "p \<in> X' \<Longrightarrow> False" by blast+
    from \<open>p \<in> A\<close> \<open>p \<notin> X\<close> assms(4) have "relinked h h' p" by blast
    then show "status_of h' p = status_of h p" by (simp add: relinked_def)
  qed
  show ?thesis
    using assms(1) bufset_rep_cong [OF _ * assms(4)] unfolding sets_rep_def by simp
qed

lemma bufset_emplace_rep:
  assumes ord: "strict_order (buf_less h) A" and live: "\<And>p. p \<in> A \<Longrightarrow> live h p"
    and rep: "bufset_rep h A X st s" and p: "p \<in> A" "status_of h p = st"
  shows "\<exists>s'. bufset_emplace h p s = Some s' \<and> bufset_rep h A (X - {p}) st s'"
proof -
  have sub: "set s \<subseteq> A" using rep by (auto simp: bufset_rep_def)
  then have "bufset_emplace h p s = Some (oset_emplace (buf_less h) p s)"
    using live p by (auto simp: bufset_emplace_def list_all_iff)
  moreover have "set (oset_emplace (buf_less h) p s) = insert p (set s)"
    using ord sub p by (intro strict_order.emplace_set)
  moreover have "sorted_wrt (buf_less h) (oset_emplace (buf_less h) p s)"
    using ord sub p rep by (intro strict_order.emplace_sorted) (auto simp: bufset_rep_def)
  ultimately show ?thesis
    using rep p by (auto simp: bufset_rep_def)
qed

lemma bufset_erase_rep:
  assumes ord: "strict_order (buf_less h) A" and live: "\<And>p. p \<in> A \<Longrightarrow> live h p"
    and rep: "bufset_rep h A X st s" and p: "p \<in> A"
  shows "\<exists>s'. bufset_erase h p s = Some s' \<and> bufset_rep h A (insert p X) st s'"
proof -
  have sub: "set s \<subseteq> A" using rep by (auto simp: bufset_rep_def)
  then have "bufset_erase h p s = Some (oset_erase (buf_less h) p s)"
    using live p by (auto simp: bufset_erase_def list_all_iff)
  moreover have "set (oset_erase (buf_less h) p s) = set s - {p}"
    using ord sub p rep by (intro strict_order.erase_set) (auto simp: bufset_rep_def)
  moreover have "sorted_wrt (buf_less h) (oset_erase (buf_less h) p s)"
    using ord sub p rep by (intro strict_order.erase_sorted) (auto simp: bufset_rep_def)
  ultimately show ?thesis
    using rep p by (auto simp: bufset_rep_def)
qed

text \<open>Two allocators that differ in their free sets only.\<close>

definition same_config :: "allocator \<Rightarrow> allocator \<Rightarrow> bool" where
  "same_config al al' \<longleftrightarrow>
     mem_blocks al' = mem_blocks al \<and> enable_eager_free al' = enable_eager_free al \<and>
     is_persistent al' = is_persistent al \<and> al_stream_id al' = al_stream_id al"

lemma same_config_refl [simp]: "same_config al al"
  by (simp add: same_config_def)

lemma same_config_trans: "same_config al bl \<Longrightarrow> same_config bl cl \<Longrightarrow> same_config al cl"
  by (simp add: same_config_def)

lemma bufset_rep_shrink:
  "bufset_rep h A X st s \<Longrightarrow> status_of h p \<noteq> st \<Longrightarrow> bufset_rep h A (X - {p}) st s"
  by (auto simp: bufset_rep_def)

lemma bufset_rep_grow:
  "bufset_rep h A X st s \<Longrightarrow> status_of h p \<noteq> st \<Longrightarrow> bufset_rep h A (insert p X) st s"
  by (auto simp: bufset_rep_def)

lemma emplace_by_status_rep:
  assumes ord: "strict_order (buf_less h) A" and live: "\<And>p. p \<in> A \<Longrightarrow> live h p"
    and rep: "sets_rep X h al A" and p: "p \<in> A" "status_of h p = st" "free_status st"
  shows "\<exists>al'. emplace_by_status st p al h = Some al' \<and> sets_rep (X - {p}) h al' A
    \<and> same_config al al'"
proof -
  have idle: "bufset_rep h A X kMemBufIdle (free_mem_bufs al)"
    and eager: "bufset_rep h A X kMemBufEagerFree (eager_free_mem_bufs al)"
    using rep by (auto simp: sets_rep_def)
  from p(3) consider "st = kMemBufIdle" | "st = kMemBufEagerFree"
    by (auto simp: free_status_def)
  then show ?thesis
  proof cases
    case 1
    with p bufset_emplace_rep [OF ord live idle p(1)] bufset_rep_shrink [OF eager, of p]
    show ?thesis by (auto simp: emplace_by_status_def sets_rep_def same_config_def)
  next
    case 2
    with p bufset_emplace_rep [OF ord live eager p(1)] bufset_rep_shrink [OF idle, of p]
    show ?thesis by (auto simp: emplace_by_status_def sets_rep_def same_config_def)
  qed
qed

lemma erase_by_status_rep:
  assumes ord: "strict_order (buf_less h) A" and live: "\<And>p. p \<in> A \<Longrightarrow> live h p"
    and rep: "sets_rep X h al A" and p: "p \<in> A" "status_of h p = st" "free_status st"
  shows "\<exists>al'. erase_by_status st p al h = Some al' \<and> sets_rep (insert p X) h al' A
    \<and> same_config al al'"
proof -
  have idle: "bufset_rep h A X kMemBufIdle (free_mem_bufs al)"
    and eager: "bufset_rep h A X kMemBufEagerFree (eager_free_mem_bufs al)"
    using rep by (auto simp: sets_rep_def)
  from p(3) consider "st = kMemBufIdle" | "st = kMemBufEagerFree"
    by (auto simp: free_status_def)
  then show ?thesis
  proof cases
    case 1
    with p bufset_erase_rep [OF ord live idle p(1)] bufset_rep_grow [OF eager, of p]
    show ?thesis by (auto simp: erase_by_status_def sets_rep_def same_config_def)
  next
    case 2
    with p bufset_erase_rep [OF ord live eager p(1)] bufset_rep_grow [OF idle, of p]
    show ?thesis by (auto simp: erase_by_status_def sets_rep_def same_config_def)
  qed
qed

end
