(* ===== verification/Mem_Alloc_Ops.thy ===== *)
theory Mem_Alloc_Ops
  imports Mem_Alloc_Inv
begin

text \<open>
  The allocator operations preserve the representation invariant: freeing a buffer coalesces it
  with its free neighbours, allocating one splits the best fitting buffer.
\<close>

section \<open>Free\<close>

lemma relinked_same: "relinked h h' r \<Longrightarrow> h'' r = h' r \<Longrightarrow> relinked h h'' r"
  by (simp add: relinked_fields_defs)

lemma layout_order_own:
  assumes "layout_rep w LL" "A \<subseteq> set (ptrs LL)"
  shows "strict_order (buf_less (bufs w)) A" "p \<in> A \<Longrightarrow> live (bufs w) p"
  using assms by (auto intro: layout_order layout_live)

lemma merge_prev_step:
  assumes lay: "layout_rep w (LA @ (b, xs @ q # p # ys) # LB)"
    and A: "A \<subseteq> set (ptrs (LA @ (b, xs @ q # p # ys) # LB))" "set (xs @ q # p # ys) \<subseteq> A"
    and sets: "sets_rep {p} (bufs w) al A"
    and st: "status_of (bufs w) q = st" "free_status st"
  shows "\<exists>al' h'. merge_prev p st al w = Some (al', w\<lparr>bufs := h'\<rparr>)
    \<and> layout_rep (w\<lparr>bufs := h'\<rparr>) (LA @ (b, xs @ p # ys) # LB)
    \<and> sets_rep {p} h' al' (A - {q}) \<and> same_config al al'
    \<and> (\<forall>r. r \<notin> set (xs @ [q, p]) \<longrightarrow> h' r = bufs w r) \<and> h' q = None
    \<and> (\<forall>r \<in> set xs. relinked (bufs w) h' r)
    \<and> status_of h' p = status_of (bufs w) p
    \<and> seg_of h' p = (fst (seg_of (bufs w) q), snd (seg_of (bufs w) p) + snd (seg_of (bufs w) q))"
proof -
  let ?h = "bufs w"
  obtain e where e: "blk_ext w b = Some e" "block_rep ?h b e (xs @ q # p # ys)"
    using lay by (auto elim: layout_block)
  have dist: "distinct (xs @ q # p # ys)"
    using lay by (auto simp: layout_rep_def)
  obtain B where hp: "?h p = Some B"
    using block_rep_live [OF e(2), of p] by (auto elim: liveE)
  obtain Q where hq: "?h q = Some Q"
    using block_rep_live [OF e(2), of q] by (auto elim: liveE)
  have links: "prev_buf B = Some q" "prev_buf Q = last_opt xs None"
    using block_links2 [OF e(2) hq hp] by simp_all
  have Qst: "buf_status Q = st" using st(1) hq by (simp add: status_of_def)
  define h1 where "h1 = (\<lambda>r. if r = p then Some (B\<lparr>prev_buf := prev_buf Q, buf_addr := buf_addr Q,
      buf_size := buf_size B + buf_size Q\<rparr>)
    else if prev_buf Q = Some r then map_option (\<lambda>c. c\<lparr>next_buf := Some p\<rparr>) (?h r) else ?h r)"
  define h2 where "h2 = h1(q := None)"
  have qp: "q \<noteq> p" using dist by auto
  have pQ: "prev_buf Q \<noteq> Some p" "prev_buf Q \<noteq> Some q"
    using links dist by (auto simp: last_opt_def)
  have out: "prev_buf Q \<noteq> Some r" if "r \<notin> set xs" for r
    using links that by (auto simp: last_opt_def)
  have rel: "relinked ?h h1 r" if "r \<noteq> p" for r
    using that by (cases "prev_buf Q = Some r") (simp_all add: h1_def)
  have blk: "block_rep h2 b e (xs @ p # ys)"
    using e(2) dist hp hq
    by (rule block_merge_prev) (use dist out in \<open>auto simp: h2_def h1_def\<close>)
  have lay2: "layout_rep (w\<lparr>bufs := h2\<rparr>) (LA @ (b, xs @ p # ys) # LB)"
  proof (rule layout_replace [OF lay])
    show "bufs (w\<lparr>bufs := h2\<rparr>) r = ?h r" if "r \<in> set (ptrs LA) \<union> set (ptrs LB)" for r
    proof -
      have "r \<notin> set (xs @ q # p # ys)" using lay that by (auto simp: layout_rep_def)
      with out show ?thesis by (auto simp: h2_def h1_def)
    qed
  qed (use e(1) blk dist in \<open>auto simp: blk_ext_def\<close>)
  have ord: "strict_order (buf_less h1) (A - {p})"
  proof (rule strict_order_cong)
    show "strict_order (buf_less ?h) (A - {p})"
      using A lay by (intro layout_order_own) auto
  qed (rule buf_less_relinked; rule rel; simp)
  have live1: "live h1 r" if "r \<in> A - {p}" for r
    using that rel [of r] layout_order_own(2) [OF lay A(1), of r] by (simp add: relinked_def)
  have sets1: "sets_rep {} h1 al (A - {p})"
    using sets by (rule sets_rep_cong) (use rel in \<open>auto simp: relinked_def\<close>)
  have q: "q \<in> A - {p}" "status_of h1 q = st"
    using A dist st(1) rel [of q] by (auto simp: relinked_def)
  obtain al' where al': "erase_by_status st q al h1 = Some al'"
      "sets_rep {q} h1 al' (A - {p})" "same_config al al'"
    using erase_by_status_rep [of h1 "A - {p}" "{}" al q st] ord live1 sets1 q st(2)
    by auto
  have sets2: "sets_rep {p} h2 al' (A - {q})"
    using al'(2) by (rule sets_rep_cong) (auto simp: h2_def)
  have run: "merge_prev p st al w = Some (al', w\<lparr>bufs := h2\<rparr>)"
  proof (cases "prev_buf Q")
    case None
    then have "h1 = ?h(p \<mapsto> B\<lparr>prev_buf := None, buf_addr := buf_addr Q,
        buf_size := buf_size B + buf_size Q\<rparr>)"
      by (auto simp: h1_def fun_eq_iff)
    with None show ?thesis
      using hp hq links Qst al'(1) pQ qp by (simp add: merge_prev_def heap_simps h2_def)
  next
    case (Some r)
    then have "r \<in> set xs" using out by blast
    then obtain R where R: "?h r = Some R"
      using block_rep_live [OF e(2), of r] by (auto elim: liveE)
    have "h1 = (?h(p \<mapsto> B\<lparr>prev_buf := Some r\<rparr>, r \<mapsto> R\<lparr>next_buf := Some p\<rparr>,
        p \<mapsto> B\<lparr>prev_buf := Some r, buf_addr := buf_addr Q, buf_size := buf_size B + buf_size Q\<rparr>))"
      using Some R pQ by (auto simp: h1_def fun_eq_iff)
    with Some show ?thesis
      using hp hq links Qst al'(1) pQ qp R by (simp add: merge_prev_def heap_simps h2_def)
  qed
  have "\<forall>r. r \<notin> set (xs @ [q, p]) \<longrightarrow> h2 r = ?h r"
    using out by (auto simp: h2_def h1_def)
  moreover have "\<forall>r \<in> set xs. relinked ?h h2 r"
  proof
    fix r assume "r \<in> set xs"
    then have same: "h2 r = h1 r" and "r \<noteq> p" using dist by (auto simp: h2_def)
    from rel [OF \<open>r \<noteq> p\<close>] same show "relinked ?h h2 r" by (rule relinked_same)
  qed
  moreover have "status_of h2 p = status_of ?h p"
    "seg_of h2 p = (fst (seg_of ?h q), snd (seg_of ?h p) + snd (seg_of ?h q))"
    using dist hp hq by (auto simp: h2_def h1_def status_of_def seg_of_def)
  ultimately show ?thesis
    using run lay2 sets2 al'(3) by (auto simp: h2_def)
qed

lemma merge_next_step:
  assumes lay: "layout_rep w (LA @ (b, xs @ p # q # ys) # LB)"
    and A: "A \<subseteq> set (ptrs (LA @ (b, xs @ p # q # ys) # LB))" "set (xs @ p # q # ys) \<subseteq> A"
    and sets: "sets_rep {p} (bufs w) al A"
    and st: "status_of (bufs w) q = st" "free_status st"
  shows "\<exists>al' h'. merge_next p st al w = Some (al', w\<lparr>bufs := h'\<rparr>)
    \<and> layout_rep (w\<lparr>bufs := h'\<rparr>) (LA @ (b, xs @ p # ys) # LB)
    \<and> sets_rep {p} h' al' (A - {q}) \<and> same_config al al'
    \<and> (\<forall>r. r \<notin> set ([p, q] @ ys) \<longrightarrow> h' r = bufs w r) \<and> h' q = None
    \<and> (\<forall>r \<in> set ys. relinked (bufs w) h' r)
    \<and> status_of h' p = status_of (bufs w) p
    \<and> seg_of h' p = (fst (seg_of (bufs w) p), snd (seg_of (bufs w) p) + snd (seg_of (bufs w) q))"
proof -
  let ?h = "bufs w"
  obtain e where e: "blk_ext w b = Some e" "block_rep ?h b e (xs @ p # q # ys)"
    using lay by (auto elim: layout_block)
  have dist: "distinct (xs @ p # q # ys)"
    using lay by (auto simp: layout_rep_def)
  obtain B where hp: "?h p = Some B"
    using block_rep_live [OF e(2), of p] by (auto elim: liveE)
  obtain Q where hq: "?h q = Some Q"
    using block_rep_live [OF e(2), of q] by (auto elim: liveE)
  have links: "next_buf B = Some q" "next_buf Q = hd_opt ys None"
    using block_links2 [OF e(2) hp hq] by simp_all
  have Qst: "buf_status Q = st" using st(1) hq by (simp add: status_of_def)
  define h1 where "h1 = (\<lambda>r. if r = p then Some (B\<lparr>next_buf := next_buf Q,
      buf_size := buf_size B + buf_size Q\<rparr>)
    else if next_buf Q = Some r then map_option (\<lambda>c. c\<lparr>prev_buf := Some p\<rparr>) (?h r) else ?h r)"
  define h2 where "h2 = h1(q := None)"
  have qp: "q \<noteq> p" using dist by auto
  have pQ: "next_buf Q \<noteq> Some p" "next_buf Q \<noteq> Some q"
    using links dist by (auto simp: hd_opt_def split: list.splits)
  have out: "next_buf Q \<noteq> Some r" if "r \<notin> set ys" for r
    using links that by (auto simp: hd_opt_def split: list.splits)
  have rel: "relinked ?h h1 r" if "r \<noteq> p" for r
    using that by (cases "next_buf Q = Some r") (simp_all add: h1_def)
  have blk: "block_rep h2 b e (xs @ p # ys)"
    using e(2) dist hp hq
    by (rule block_merge_next) (use dist out in \<open>auto simp: h2_def h1_def\<close>)
  have lay2: "layout_rep (w\<lparr>bufs := h2\<rparr>) (LA @ (b, xs @ p # ys) # LB)"
  proof (rule layout_replace [OF lay])
    show "bufs (w\<lparr>bufs := h2\<rparr>) r = ?h r" if "r \<in> set (ptrs LA) \<union> set (ptrs LB)" for r
    proof -
      have "r \<notin> set (xs @ p # q # ys)" using lay that by (auto simp: layout_rep_def)
      with out show ?thesis by (auto simp: h2_def h1_def)
    qed
  qed (use e(1) blk dist in \<open>auto simp: blk_ext_def\<close>)
  have ord: "strict_order (buf_less h1) (A - {p})"
  proof (rule strict_order_cong)
    show "strict_order (buf_less ?h) (A - {p})"
      using A lay by (intro layout_order_own) auto
  qed (rule buf_less_relinked; rule rel; simp)
  have live1: "live h1 r" if "r \<in> A - {p}" for r
    using that rel [of r] layout_order_own(2) [OF lay A(1), of r] by (simp add: relinked_def)
  have sets1: "sets_rep {} h1 al (A - {p})"
    using sets by (rule sets_rep_cong) (use rel in \<open>auto simp: relinked_def\<close>)
  have q: "q \<in> A - {p}" "status_of h1 q = st"
    using A dist st(1) rel [of q] by (auto simp: relinked_def)
  obtain al' where al': "erase_by_status st q al h1 = Some al'"
      "sets_rep {q} h1 al' (A - {p})" "same_config al al'"
    using erase_by_status_rep [of h1 "A - {p}" "{}" al q st] ord live1 sets1 q st(2)
    by auto
  have sets2: "sets_rep {p} h2 al' (A - {q})"
    using al'(2) by (rule sets_rep_cong) (auto simp: h2_def)
  have run: "merge_next p st al w = Some (al', w\<lparr>bufs := h2\<rparr>)"
  proof (cases "next_buf Q")
    case None
    then have "h1 = ?h(p \<mapsto> B\<lparr>next_buf := None,
        buf_size := buf_size B + buf_size Q\<rparr>)"
      by (auto simp: h1_def fun_eq_iff)
    with None show ?thesis
      using hp hq links Qst al'(1) pQ qp by (simp add: merge_next_def heap_simps h2_def)
  next
    case (Some r)
    then have "r \<in> set ys" using out by blast
    then obtain R where R: "?h r = Some R"
      using block_rep_live [OF e(2), of r] by (auto elim: liveE)
    have "h1 = (?h(p \<mapsto> B\<lparr>next_buf := Some r\<rparr>, r \<mapsto> R\<lparr>prev_buf := Some p\<rparr>,
        p \<mapsto> B\<lparr>next_buf := Some r, buf_size := buf_size B + buf_size Q\<rparr>))"
      using Some R pQ by (auto simp: h1_def fun_eq_iff)
    with Some show ?thesis
      using hp hq links Qst al'(1) pQ qp R by (simp add: merge_next_def heap_simps h2_def)
  qed
  have "\<forall>r. r \<notin> set ([p, q] @ ys) \<longrightarrow> h2 r = ?h r"
    using out by (auto simp: h2_def h1_def)
  moreover have "\<forall>r \<in> set ys. relinked ?h h2 r"
  proof
    fix r assume "r \<in> set ys"
    then have same: "h2 r = h1 r" and "r \<noteq> p" using dist by (auto simp: h2_def)
    from rel [OF \<open>r \<noteq> p\<close>] same show "relinked ?h h2 r" by (rule relinked_same)
  qed
  moreover have "status_of h2 p = status_of ?h p"
    "seg_of h2 p = (fst (seg_of ?h p), snd (seg_of ?h p) + snd (seg_of ?h q))"
    using dist hp hq by (auto simp: h2_def h1_def status_of_def seg_of_def)
  ultimately show ?thesis
    using run lay2 sets2 al'(3) by (auto simp: h2_def)
qed

text \<open>What is left of the buffers before and after the freed one.\<close>

definition absorb_prev :: "buf_heap \<Rightarrow> mem_buf_status \<Rightarrow> ptr list \<Rightarrow> ptr list" where
  "absorb_prev h st xs = (if xs \<noteq> [] \<and> status_of h (last xs) = st then butlast xs else xs)"

definition absorb_next :: "buf_heap \<Rightarrow> mem_buf_status \<Rightarrow> ptr list \<Rightarrow> ptr list" where
  "absorb_next h st ys = (if ys \<noteq> [] \<and> status_of h (hd ys) = st then tl ys else ys)"

lemma absorb_subset:
  "set (absorb_prev h st xs) \<subseteq> set xs" "set (absorb_next h st ys) \<subseteq> set ys"
  by (auto simp: absorb_prev_def absorb_next_def dest: in_set_butlastD list.set_sel(2))

lemma merge_prev_rep:
  assumes lay: "layout_rep w (LA @ (b, xs @ p # ys) # LB)"
    and A: "A \<subseteq> set (ptrs (LA @ (b, xs @ p # ys) # LB))" "set (xs @ p # ys) \<subseteq> A"
    and sets: "sets_rep {p} (bufs w) al A" and st: "free_status st"
  shows "\<exists>al' h'. merge_prev p st al w = Some (al', w\<lparr>bufs := h'\<rparr>)
    \<and> layout_rep (w\<lparr>bufs := h'\<rparr>) (LA @ (b, absorb_prev (bufs w) st xs @ p # ys) # LB)
    \<and> sets_rep {p} h' al' (A - (set xs - set (absorb_prev (bufs w) st xs))) \<and> same_config al al'
    \<and> (\<forall>r. r \<notin> set (xs @ [p]) \<longrightarrow> h' r = bufs w r)
    \<and> (\<forall>r \<in> set (absorb_prev (bufs w) st xs). relinked (bufs w) h' r)
    \<and> status_of h' p = status_of (bufs w) p"
proof -
  obtain e where e: "block_rep (bufs w) b e (xs @ p # ys)"
    using lay by (auto elim: layout_block)
  obtain B where hp: "bufs w p = Some B"
    using block_rep_live [OF e, of p] by (auto elim: liveE)
  note pb = block_links(1) [OF e hp]
  have dist: "distinct (xs @ p # ys)" using lay by (auto simp: layout_rep_def)
  show ?thesis
  proof (cases xs rule: rev_cases)
    case Nil
    with pb hp lay sets show ?thesis
      by (intro exI [of _ al] exI [of _ "bufs w"]) (simp add: merge_prev_def absorb_prev_def)
  next
    case (snoc zs q)
    obtain Q where hq: "bufs w q = Some Q"
      using block_rep_live [OF e, of q] snoc by (auto elim: liveE)
    show ?thesis
    proof (cases "status_of (bufs w) q = st")
      case False
      with pb hp hq snoc lay sets show ?thesis
        by (intro exI [of _ al] exI [of _ "bufs w"])
          (simp add: merge_prev_def absorb_prev_def status_of_def)
    next
      case True
      have "set xs - set (absorb_prev (bufs w) st xs) = {q}"
        using snoc True dist by (auto simp: absorb_prev_def)
      with merge_prev_step [of w LA b zs q p ys LB A al st] lay A sets True st snoc show ?thesis
        by (auto simp: absorb_prev_def)
    qed
  qed
qed

lemma merge_next_rep:
  assumes lay: "layout_rep w (LA @ (b, xs @ p # ys) # LB)"
    and A: "A \<subseteq> set (ptrs (LA @ (b, xs @ p # ys) # LB))" "set (xs @ p # ys) \<subseteq> A"
    and sets: "sets_rep {p} (bufs w) al A" and st: "free_status st"
  shows "\<exists>al' h'. merge_next p st al w = Some (al', w\<lparr>bufs := h'\<rparr>)
    \<and> layout_rep (w\<lparr>bufs := h'\<rparr>) (LA @ (b, xs @ p # absorb_next (bufs w) st ys) # LB)
    \<and> sets_rep {p} h' al' (A - (set ys - set (absorb_next (bufs w) st ys))) \<and> same_config al al'
    \<and> (\<forall>r. r \<notin> set (p # ys) \<longrightarrow> h' r = bufs w r)
    \<and> (\<forall>r \<in> set (absorb_next (bufs w) st ys). relinked (bufs w) h' r)
    \<and> status_of h' p = status_of (bufs w) p"
proof -
  obtain e where e: "block_rep (bufs w) b e (xs @ p # ys)"
    using lay by (auto elim: layout_block)
  obtain B where hp: "bufs w p = Some B"
    using block_rep_live [OF e, of p] by (auto elim: liveE)
  note nb = block_links(2) [OF e hp]
  have dist: "distinct (xs @ p # ys)" using lay by (auto simp: layout_rep_def)
  show ?thesis
  proof (cases ys)
    case Nil
    with nb hp lay sets show ?thesis
      by (intro exI [of _ al] exI [of _ "bufs w"]) (simp add: merge_next_def absorb_next_def)
  next
    case (Cons q zs)
    obtain Q where hq: "bufs w q = Some Q"
      using block_rep_live [OF e, of q] Cons by (auto elim: liveE)
    show ?thesis
    proof (cases "status_of (bufs w) q = st")
      case False
      with nb hp hq Cons lay sets show ?thesis
        by (intro exI [of _ al] exI [of _ "bufs w"])
          (simp add: merge_next_def absorb_next_def status_of_def)
    next
      case True
      have "set ys - set (absorb_next (bufs w) st ys) = {q}"
        using Cons True dist by (auto simp: absorb_next_def)
      with merge_next_step [of w LA b xs p q zs LB A al st] lay A sets True st Cons show ?thesis
        by (auto simp: absorb_next_def)
    qed
  qed
qed

text \<open>Changing fields of a buffer other than its links and its segment.\<close>

lemma block_rep_fields:
  assumes "block_rep h b e ps"
    and "\<And>r. r \<in> set ps \<Longrightarrow> link h' r = link h r \<and> seg_of h' r = seg_of h r \<and> buf_ok h' b r"
  shows "block_rep h' b e ps"
proof -
  have "dll h' None ps None = dll h None ps None"
    using assms(2) by (intro dll_cong) simp
  moreover have "segs h' ps = segs h ps" using assms(2) by (simp add: segs_def)
  ultimately show ?thesis using assms by (simp add: block_rep_def)
qed

lemma layout_fields:
  assumes lay: "layout_rep w (LA @ (b, xs @ p # ys) # LB)" and hp: "bufs w p = Some B"
    and B': "prev_buf B' = prev_buf B" "next_buf B' = next_buf B" "buf_addr B' = buf_addr B"
      "buf_size B' = buf_size B" "buf_mem_block B' = buf_mem_block B"
      "free_status (buf_status B') \<Longrightarrow> IsEventNotUsed (buf_events B')"
  shows "layout_rep (w\<lparr>bufs := (bufs w)(p \<mapsto> B')\<rparr>) (LA @ (b, xs @ p # ys) # LB)"
proof (rule layout_replace [OF lay])
  have dist: "distinct (ptrs (LA @ (b, xs @ p # ys) # LB))"
    using lay by (auto simp: layout_rep_def)
  then show "distinct (xs @ p # ys)" by auto
  show "bufs (w\<lparr>bufs := (bufs w)(p \<mapsto> B')\<rparr>) r = bufs w r"
    if "r \<in> set (ptrs LA) \<union> set (ptrs LB)" for r
    using dist that by auto
  fix e assume "blk_ext w b = Some e"
  then have e: "block_rep (bufs w) b e (xs @ p # ys)"
    using lay by (auto elim!: layout_block [of _ _ b "xs @ p # ys"])
  have "buf_ok (bufs w) b p" using e by (simp add: block_rep_def)
  with hp B' e show "block_rep (bufs (w\<lparr>bufs := (bufs w)(p \<mapsto> B')\<rparr>)) b e (xs @ p # ys)"
    by (intro block_rep_fields [OF e])
      (auto simp: link_def seg_of_def buf_ok_def block_rep_def)
qed (auto simp: blk_ext_def)

lemma relinked_trans: "relinked h h' r \<Longrightarrow> relinked h' h'' r \<Longrightarrow> relinked h h'' r"
  by (simp add: relinked_def)

lemma Free_rep:
  assumes lay: "layout_rep w (LA @ (b, xs @ p # ys) # LB)"
    and A: "A \<subseteq> set (ptrs (LA @ (b, xs @ p # ys) # LB))" "set (xs @ p # ys) \<subseteq> A"
    and sets: "sets_rep {p} (bufs w) al A" and st: "free_status st"
    and hp: "bufs w p = Some B" "IsEventNotUsed (buf_events B)"
    and xs': "xs' = absorb_prev (bufs w) st xs" and ys': "ys' = absorb_next (bufs w) st ys"
  shows "\<exists>al' h'. Free p st al w = Some (True, al', w\<lparr>bufs := h'\<rparr>)
    \<and> layout_rep (w\<lparr>bufs := h'\<rparr>) (LA @ (b, xs' @ p # ys') # LB)
    \<and> sets_rep {} h' al' (A - (set xs - set xs') - (set ys - set ys')) \<and> same_config al al'
    \<and> (\<forall>r. r \<notin> set (xs @ p # ys) \<longrightarrow> h' r = bufs w r)
    \<and> (\<forall>r \<in> set xs' \<union> set ys'. relinked (bufs w) h' r)
    \<and> status_of h' p = st"
proof -
  let ?LL = "\<lambda>us vs. LA @ (b, us @ p # vs) # LB"
  have dist: "distinct (ptrs (?LL xs ys))" using lay by (auto simp: layout_rep_def)
  define h0 where "h0 = (bufs w)(p \<mapsto> B\<lparr>buf_status := st\<rparr>)"
  define w0 where "w0 = w\<lparr>bufs := h0\<rparr>"
  have w0: "bufs w0 = h0" by (simp add: w0_def)
  have lay0: "layout_rep w0 (?LL xs ys)"
    unfolding w0_def h0_def using lay hp(1) by (rule layout_fields) (use hp in simp_all)
  have rel0: "relinked (bufs w) h0 r" if "r \<noteq> p" for r
    using that by (simp add: h0_def)
  have sets0: "sets_rep {p} (bufs w0) al A"
    unfolding w0 using sets
    by (rule sets_rep_cong) (use rel0 in \<open>auto simp: h0_def\<close>)
  have st0: "status_of h0 r = status_of (bufs w) r" if "r \<in> set xs \<union> set ys" for r
    using that dist rel0 [of r] by (auto simp: relinked_def)
  have xs0: "absorb_prev h0 st xs = xs'"
    using st0 [of "last xs"] xs' by (cases "xs = []") (simp_all add: absorb_prev_def)
  obtain al1 h1 where m1: "merge_prev p st al w0 = Some (al1, w0\<lparr>bufs := h1\<rparr>)"
      "layout_rep (w0\<lparr>bufs := h1\<rparr>) (?LL xs' ys)" "sets_rep {p} h1 al1 (A - (set xs - set xs'))"
      "same_config al al1" "\<And>r. r \<notin> set (xs @ [p]) \<Longrightarrow> h1 r = h0 r"
      "\<And>r. r \<in> set xs' \<Longrightarrow> relinked h0 h1 r" "status_of h1 p = status_of h0 p"
    using merge_prev_rep [OF lay0 A sets0 st] unfolding w0 xs0 by auto
  define A1 where "A1 = A - (set xs - set xs')"
  have sub: "set xs' \<subseteq> set xs" "set ys' \<subseteq> set ys"
    using absorb_subset by (auto simp: xs' ys')
  have A1: "A1 \<subseteq> set (ptrs (?LL xs' ys))" "set (xs' @ p # ys) \<subseteq> A1"
    using A sub dist by (auto simp: A1_def)
  have same: "h1 r = bufs w r" if "r \<notin> set xs" "r \<noteq> p" for r
    using that m1(5) by (simp add: h0_def)
  have disj: "r \<notin> set xs \<and> r \<noteq> p" if "r \<in> set ys" for r
    using that dist by auto
  have "status_of h1 r = status_of (bufs w) r" if "r \<in> set ys" for r
    using same [of r] disj [OF that] by (simp add: status_of_def)
  from this [of "hd ys"] have ys1: "absorb_next h1 st ys = ys'"
    using ys' by (cases "ys = []") (simp_all add: absorb_next_def)
  obtain al2 h2 where m2: "merge_next p st al1 (w0\<lparr>bufs := h1\<rparr>) = Some (al2, w0\<lparr>bufs := h2\<rparr>)"
      "layout_rep (w0\<lparr>bufs := h2\<rparr>) (?LL xs' ys')" "sets_rep {p} h2 al2 (A1 - (set ys - set ys'))"
      "same_config al1 al2" "\<And>r. r \<notin> set (p # ys) \<Longrightarrow> h2 r = h1 r"
      "\<And>r. r \<in> set ys' \<Longrightarrow> relinked h1 h2 r" "status_of h2 p = status_of h1 p"
    using merge_next_rep [OF m1(2) A1, of al1 st] m1(3) st by (auto simp: ys1 A1_def)
  define A2 where "A2 = A1 - (set ys - set ys')"
  have A2: "A2 \<subseteq> set (ptrs (?LL xs' ys'))" "p \<in> A2"
    using A1 sub dist by (auto simp: A2_def)
  have stp: "status_of h2 p = st"
    using m1(7) m2(7) by (simp add: h0_def status_of_def)
  obtain al3 where m3: "emplace_by_status st p al2 h2 = Some al3"
      "sets_rep {} h2 al3 A2" "same_config al2 al3"
    using emplace_by_status_rep [of h2 A2 "{p}" al2 p st]
      layout_order_own [OF m2(2) A2(1)] m2(3) A2 stp st by (auto simp: A2_def)
  have "Free p st al w = Some (True, al3, w\<lparr>bufs := h2\<rparr>)"
    using hp m1(1) m2(1) m3(1) by (simp add: Free_def heap_simps w0_def h0_def)
  moreover have "layout_rep (w\<lparr>bufs := h2\<rparr>) (?LL xs' ys')"
    using m2(2) by (simp add: w0_def)
  moreover have "same_config al al3"
    using m1(4) m2(4) m3(3) by (simp add: same_config_def)
  moreover have "h2 r = bufs w r" if "r \<notin> set (xs @ p # ys)" for r
    using m2(5) [of r] same [of r] that by simp
  moreover have "relinked (bufs w) h2 r" if r: "r \<in> set xs'" for r
  proof -
    have "r \<noteq> p" "r \<notin> set (p # ys)" using r sub dist by auto
    with m2(5) have "h2 r = h1 r" by blast
    from relinked_trans [OF rel0 [OF \<open>r \<noteq> p\<close>] m1(6) [OF r]] this
    show ?thesis by (rule relinked_same)
  qed
  moreover have "relinked (bufs w) h2 r" if r: "r \<in> set ys'" for r
  proof -
    have "h1 r = bufs w r" using r sub same disj by blast
    then have "relinked (bufs w) h1 r" by simp
    from this m2(6) [OF r] show ?thesis by (rule relinked_trans)
  qed
  ultimately show ?thesis
    using m3(2) stp by (auto simp: A2_def A1_def)
qed

section \<open>Coalescing\<close>

text \<open>No two neighbouring buffers are free in the same way.\<close>

definition coalesced :: "buf_heap \<Rightarrow> ptr list \<Rightarrow> bool" where
  "coalesced h ps \<longleftrightarrow>
     successively (\<lambda>p q. \<not> (free_status (status_of h p) \<and> status_of h q = status_of h p)) ps"

lemma coalesced_Nil [simp]: "coalesced h []"
  by (simp add: coalesced_def)

lemma coalesced_append:
  "coalesced h (xs @ ys) \<longleftrightarrow> coalesced h xs \<and> coalesced h ys \<and>
     (xs \<noteq> [] \<longrightarrow> ys \<noteq> [] \<longrightarrow>
        \<not> (free_status (status_of h (last xs)) \<and> status_of h (hd ys) = status_of h (last xs)))"
  by (auto simp: coalesced_def successively_append_iff)

lemma coalesced_Cons:
  "coalesced h (p # ys) \<longleftrightarrow> coalesced h ys \<and>
     (ys \<noteq> [] \<longrightarrow> \<not> (free_status (status_of h p) \<and> status_of h (hd ys) = status_of h p))"
  by (cases ys) (auto simp: coalesced_def)

lemma coalesced_cong:
  "(\<And>r. r \<in> set ps \<Longrightarrow> status_of h' r = status_of h r) \<Longrightarrow> coalesced h' ps = coalesced h ps"
  unfolding coalesced_def by (intro successively_cong) auto

lemma coalesced_absorb:
  assumes "coalesced h xs" "coalesced h ys" "free_status st"
    and "status_of h' p = st" "\<And>r. r \<in> set xs' \<union> set ys' \<Longrightarrow> status_of h' r = status_of h r"
    and "xs' = absorb_prev h st xs" "ys' = absorb_next h st ys"
  shows "coalesced h' (xs' @ p # ys')"
proof -
  have x: "coalesced h xs'" "xs' \<noteq> [] \<Longrightarrow> status_of h (last xs') \<noteq> st"
  proof -
    show "coalesced h xs'"
      using assms(1,6) by (cases xs rule: rev_cases) (auto simp: absorb_prev_def coalesced_append)
    show "status_of h (last xs') \<noteq> st" if "xs' \<noteq> []"
      using assms(1,3,6) that
      by (cases xs rule: rev_cases) (auto simp: absorb_prev_def coalesced_append split: if_splits)
  qed
  have y: "coalesced h ys'" "ys' \<noteq> [] \<Longrightarrow> status_of h (hd ys') \<noteq> st"
  proof -
    show "coalesced h ys'"
      using assms(2,7) by (cases ys) (auto simp: absorb_next_def coalesced_Cons)
    show "status_of h (hd ys') \<noteq> st" if "ys' \<noteq> []"
      using assms(2,3,7) that
      by (cases ys) (auto simp: absorb_next_def coalesced_Cons split: if_splits)
  qed
  have "coalesced h' xs'" "coalesced h' ys'"
    using x(1) y(1) assms(5) coalesced_cong [of xs' h' h] coalesced_cong [of ys' h' h] by auto
  moreover have "status_of h' (last xs') \<noteq> st" if "xs' \<noteq> []"
    using that x(2) assms(5) [of "last xs'"] by simp
  moreover have "status_of h' (hd ys') \<noteq> st" if "ys' \<noteq> []"
    using that y(2) assms(5) [of "hd ys'"] by simp
  ultimately show ?thesis
    using assms(4) by (auto simp: coalesced_append coalesced_Cons)
qed

end
