(* ===== verification/Mem_Alloc_Malloc.thy ===== *)
theory Mem_Alloc_Malloc
  imports Mem_Alloc_Ops
begin

text \<open>
  Allocation: splitting the candidate buffer, the contract of the callbacks that provide blocks
  and physical memory, and the total correctness of \<open>Malloc\<close> under that contract.
\<close>

section \<open>Splitting\<close>

lemma split_mem_buf_rep:
  assumes lay: "layout_rep w (LA @ (b, xs @ p # ys) # LB)"
    and A: "A \<subseteq> set (ptrs (LA @ (b, xs @ p # ys) # LB))" "set (xs @ p # ys) \<subseteq> A"
    and sets: "sets_rep {p} (bufs w) al A"
    and hp: "bufs w p = Some B" "free_status (buf_status B)"
    and sz: "0 < sz" "sz < buf_size B" and n: "n = fresh w"
  shows "\<exists>al' h'. split_mem_buf p sz al w = Some (al', w\<lparr>bufs := h', fresh := Suc n\<rparr>)
    \<and> layout_rep (w\<lparr>bufs := h', fresh := Suc n\<rparr>) (LA @ (b, xs @ p # n # ys) # LB)
    \<and> sets_rep {p} h' al' (insert n A) \<and> same_config al al'
    \<and> (\<forall>r. r \<notin> set (p # n # ys) \<longrightarrow> h' r = bufs w r)
    \<and> (\<forall>r \<in> set ys. relinked (bufs w) h' r)
    \<and> h' p = Some (B\<lparr>next_buf := Some n, buf_size := sz\<rparr>)
    \<and> status_of h' n = buf_status B
    \<and> seg_of h' n = (buf_addr B + sz, buf_size B - sz)"
proof -
  let ?h = "bufs w"
  obtain e where e: "blk_ext w b = Some e" "block_rep ?h b e (xs @ p # ys)"
    using lay by (auto elim: layout_block)
  have dist: "distinct (xs @ p # ys)"
    using lay by (auto simp: layout_rep_def)
  have nin: "n \<notin> set (ptrs (LA @ (b, xs @ p # ys) # LB))"
    using lay n unfolding layout_rep_def by blast
  have mb: "buf_mem_block B = b"
    using e(2) hp by (auto simp: block_rep_def buf_ok_def)
  have nb: "next_buf B = hd_opt ys None" by (rule block_links(2) [OF e(2) hp(1)])
  define N where "N = (MemBuf (buf_size B - sz) (buf_addr B + sz) (buf_stream_id B) b
     (buf_status B))\<lparr>next_buf := next_buf B, prev_buf := Some p\<rparr>"
  define h1 where "h1 = (\<lambda>r. if r = n then Some N else if r = p then Some (B\<lparr>next_buf := Some n\<rparr>)
    else if next_buf B = Some r then map_option (\<lambda>c. c\<lparr>prev_buf := Some n\<rparr>) (?h r) else ?h r)"
  define h2 where "h2 = h1(p \<mapsto> B\<lparr>next_buf := Some n, buf_size := sz\<rparr>)"
  let ?w2 = "w\<lparr>bufs := h2, fresh := Suc n\<rparr>"
  have np: "n \<noteq> p" using nin by auto
  have out: "next_buf B \<noteq> Some r" if "r \<notin> set ys" for r
    using nb that by (auto simp: hd_opt_def split: list.splits)
  have rel: "relinked ?h h1 r" if "r \<noteq> p" "r \<noteq> n" for r
    using that by (cases "next_buf B = Some r") (simp_all add: h1_def)
  have rel2: "relinked h1 h2 r" if "r \<noteq> p" for r
    using that by (simp add: h2_def)
  have blk: "block_rep h2 b e (xs @ p # n # ys)"
  proof (rule block_split [OF e(2) dist _ hp(1) sz])
    show "n \<notin> set (xs @ p # ys)" using nin by auto
    show "h2 n = Some N" using np by (simp add: h2_def h1_def)
    show "h2 r = ?h r" if "r \<in> set xs" for r
      using that nin dist out [of r] by (auto simp: h2_def h1_def)
    show "h2 r = (if next_buf B = Some r then map_option (\<lambda>c. c\<lparr>prev_buf := Some n\<rparr>) (?h r) else ?h r)"
      if "r \<in> set ys" for r
      using that nin dist by (auto simp: h2_def h1_def)
  qed (simp_all add: h2_def N_def IsEventNotUsed_def)
  have lay2: "layout_rep ?w2 (LA @ (b, xs @ p # n # ys) # LB)"
  proof (rule layout_replace [OF lay])
    show "bufs ?w2 r = ?h r" if "r \<in> set (ptrs LA) \<union> set (ptrs LB)" for r
    proof -
      have "r \<notin> set (xs @ p # n # ys)" using lay that nin by (auto simp: layout_rep_def)
      with out show ?thesis by (auto simp: h2_def h1_def)
    qed
  qed (use e(1) blk dist n nin in \<open>auto simp: blk_ext_def\<close>)
  have A2: "insert n A - {p} \<subseteq> set (ptrs (LA @ (b, xs @ p # n # ys) # LB))"
    using A by auto
  have ord: "strict_order (buf_less h1) (insert n A - {p})"
  proof (rule strict_order_cong)
    show "strict_order (buf_less h2) (insert n A - {p})"
      using layout_order_own(1) [OF lay2 A2] by simp
    show "buf_less h1 x y = buf_less h2 x y" if "x \<in> insert n A - {p}" "y \<in> insert n A - {p}" for x y
      using that rel2 by (intro buf_less_relinked [symmetric]) auto
  qed
  have live: "live h1 r" if "r \<in> insert n A - {p}" for r
    using layout_order_own(2) [OF lay2 A2 that] that by (simp add: h2_def live_def)
  have sets1: "sets_rep {n} h1 al (insert n A - {p})"
    using sets by (rule sets_rep_cong) (use nin A rel in auto)
  obtain al' where al': "emplace_by_status (buf_status B) n al h1 = Some al'"
      "sets_rep {} h1 al' (insert n A - {p})" "same_config al al'"
    using emplace_by_status_rep [of h1 "insert n A - {p}" "{n}" al n "buf_status B"] ord live sets1 hp np
    by (auto simp: h1_def status_of_def N_def)
  have sets2: "sets_rep {p} h2 al' (insert n A)"
    using al'(2) by (rule sets_rep_cong) (use rel2 in auto)
  have stB: "(if buf_status B = kMemBufIdle then kMemBufIdle else kMemBufEagerFree) = buf_status B"
    using hp(2) by (auto simp: free_status_def)
  have run: "split_mem_buf p sz al w = Some (al', ?w2)"
  proof (cases "next_buf B")
    case None
    then have "h1 = ?h(n \<mapsto> N\<lparr>prev_buf := None\<rparr>, p \<mapsto> B\<lparr>next_buf := Some n\<rparr>, n \<mapsto> N)"
      using np by (auto simp: h1_def fun_eq_iff)
    with None show ?thesis
      using hp al'(1) np n mb stB
      by (simp add: split_mem_buf_def heap_simps new_buf_def Let_def h2_def N_def MemBuf_def)
  next
    case (Some r)
    then have r: "r \<in> set ys" using out by blast
    then obtain R where R: "?h r = Some R"
      using block_rep_live [OF e(2), of r] by (auto elim: liveE)
    have rn: "r \<noteq> n" "r \<noteq> p" using r nin dist by auto
    have "h1 = ?h(n \<mapsto> N\<lparr>prev_buf := None, next_buf := None\<rparr>, r \<mapsto> R\<lparr>prev_buf := Some n\<rparr>,
        n \<mapsto> N\<lparr>prev_buf := None\<rparr>, p \<mapsto> B\<lparr>next_buf := Some n\<rparr>, n \<mapsto> N)"
      using Some R rn np by (auto simp: h1_def fun_eq_iff)
    with Some show ?thesis
      using hp al'(1) np n mb stB R rn
      by (simp add: split_mem_buf_def heap_simps new_buf_def Let_def h2_def N_def MemBuf_def)
  qed
  have "\<forall>r. r \<notin> set (p # n # ys) \<longrightarrow> h2 r = ?h r"
    using out by (auto simp: h2_def h1_def)
  moreover have "\<forall>r \<in> set ys. relinked ?h h2 r"
  proof
    fix r assume "r \<in> set ys"
    then have "r \<noteq> p" "r \<noteq> n" using dist nin by auto
    from relinked_trans [OF rel [OF this] rel2 [OF this(1)]] show "relinked ?h h2 r" .
  qed
  moreover have "status_of h2 n = buf_status B" "seg_of h2 n = (buf_addr B + sz, buf_size B - sz)"
    using np by (auto simp: h2_def h1_def status_of_def seg_of_def N_def)
  ultimately show ?thesis
    using run lay2 sets2 al'(3) by (auto simp: h2_def)
qed

end
