(* ===== verification/Mem_Alloc_Provider.thy ===== *)
theory Mem_Alloc_Provider
  imports Mem_Alloc_Malloc
begin

text \<open>
  The contract between \<open>MemBufAllocator\<close> and the callbacks it is constructed with, and the total
  correctness of the allocator's operations under that contract.
\<close>

section \<open>Allocator states\<close>

definition alloc_state :: "'d world \<Rightarrow> layout \<Rightarrow> layout \<Rightarrow> layout \<Rightarrow> allocator \<Rightarrow> bool" where
  "alloc_state w LA L LB al \<longleftrightarrow>
     layout_rep w (LA @ L @ LB) \<and> map fst L = mem_blocks al \<and>
     sets_rep {} (bufs w) al (set (ptrs L)) \<and> (\<forall>(b, ps) \<in> set L. coalesced (bufs w) ps)"

definition used :: "buf_heap \<Rightarrow> layout \<Rightarrow> ptr set" where
  "used h L = {p \<in> set (ptrs L). \<not> free_status (status_of h p)}"

text \<open>
  An operation of one allocator leaves the buffers of the others alone, moves no used buffer and
  keeps every block.
\<close>

definition stat_frame :: "'d world \<Rightarrow> 'd world \<Rightarrow> bool" where
  "stat_frame w w' \<longleftrightarrow> stat w' =
     (stat w)\<lparr>alloc_size := alloc_size (stat w'), eager_free_size := eager_free_size (stat w')\<rparr>"

lemma stat_frame_refl [simp]: "stat w' = stat w \<Longrightarrow> stat_frame w w'"
  by (simp add: stat_frame_def)

lemma stat_frame_trans: "stat_frame w w1 \<Longrightarrow> stat_frame w1 w2 \<Longrightarrow> stat_frame w w2"
  by (cases "stat w"; cases "stat w1"; cases "stat w2") (simp add: stat_frame_def)

lemma stat_frame_fields:
  assumes "stat_frame w w'"
  shows "used_size (stat w') = used_size (stat w)" "peak_size (stat w') = peak_size (stat w)"
    "used_by_event_size (stat w') = used_by_event_size (stat w)"
  using assms by (cases "stat w"; cases "stat w'"; simp add: stat_frame_def)+

definition keeps :: "'d world \<Rightarrow> layout \<Rightarrow> layout \<Rightarrow> ptr set \<Rightarrow> 'd world \<Rightarrow> bool" where
  "keeps w LA LB U w' \<longleftrightarrow>
     (\<forall>r \<in> set (ptrs LA) \<union> set (ptrs LB). bufs w' r = bufs w r) \<and>
     (\<forall>r \<in> U. relinked (bufs w) (bufs w') r) \<and>
     (\<forall>b < fresh w. blk_ext w' b = blk_ext w b) \<and> fresh w \<le> fresh w' \<and> stat_frame w w'"

definition malloc_post ::
    "'d world \<Rightarrow> layout \<Rightarrow> layout \<Rightarrow> layout \<Rightarrow> size_t \<Rightarrow> ptr option \<Rightarrow> allocator \<Rightarrow> 'd world \<Rightarrow> bool" where
  "malloc_post w LA L LB sz r al' w' \<longleftrightarrow>
     keeps w LA LB (used (bufs w) L) w' \<and>
     (\<exists>L'. alloc_state w' LA L' LB al' \<and>
        (case r of
           None \<Rightarrow> used (bufs w') L' = used (bufs w) L
         | Some p \<Rightarrow> p \<notin> used (bufs w) L \<and> used (bufs w') L' = insert p (used (bufs w) L) \<and>
             status_of (bufs w') p = kMemBufUsed \<and> IsEventNotUsed (events_of (bufs w') p) \<and>
             sz \<le> snd (seg_of (bufs w') p) \<and> snd (seg_of (bufs w') p) - sz < 512))"

definition same_objects :: "'d world \<Rightarrow> 'd world \<Rightarrow> bool" where
  "same_objects w w' \<longleftrightarrow> bufs w' = bufs w \<and> blks w' = blks w \<and> fresh w' = fresh w \<and>
     stat_frame w w'"

definition good_block :: "'d world \<Rightarrow> mem_block \<Rightarrow> bool" where
  "good_block w k \<longleftrightarrow> 0 < block_size k \<and> unat (block_addr k) + unat (block_size k) < 2 ^ 64 \<and>
     (\<forall>c e. blk_ext w c = Some e \<longrightarrow> seg_range e \<inter> seg_range (block_addr k, block_size k) = {})"

text \<open>
  The effect of taking the free buffer \<open>p\<close> for a request: it becomes used, and a tail buffer of
  the old status may follow it.
\<close>

definition split_post ::
    "'d world \<Rightarrow> layout \<Rightarrow> ptr \<Rightarrow> ptr list \<Rightarrow> ptr \<Rightarrow> ptr list \<Rightarrow> layout \<Rightarrow> ptr set \<Rightarrow> mem_buf \<Rightarrow>
     size_t \<Rightarrow> allocator \<Rightarrow> 'd world \<Rightarrow> bool" where
  "split_post w LA b xs p ys LB A B sz al' w' \<longleftrightarrow>
     (\<exists>zs. set zs \<subseteq> {fresh w} \<and> layout_rep w' (LA @ (b, xs @ p # zs @ ys) # LB) \<and>
         sets_rep {} (bufs w') al' (A \<union> set zs) \<and>
         (\<forall>r. r \<notin> set (p # zs @ ys) \<longrightarrow> bufs w' r = bufs w r) \<and>
         (\<forall>r \<in> set ys. relinked (bufs w) (bufs w') r) \<and>
         (\<forall>r \<in> set zs. status_of (bufs w') r = buf_status B) \<and>
         status_of (bufs w') p = kMemBufUsed \<and> events_of (bufs w') p = buf_events B \<and>
         sz \<le> snd (seg_of (bufs w') p) \<and> snd (seg_of (bufs w') p) - sz < 512)"

lemma blk_ext_frame [simp]:
  "blk_ext (w\<lparr>bufs := h\<rparr>) = blk_ext w" "blk_ext (w\<lparr>fresh := n\<rparr>) = blk_ext w"
  "blk_ext (w\<lparr>stat := s\<rparr>) = blk_ext w" "blk_ext (w\<lparr>dev := d\<rparr>) = blk_ext w"
  by (simp_all add: blk_ext_def fun_eq_iff)

lemma blk_ext_same: "same_objects w w' \<Longrightarrow> blk_ext w' = blk_ext w"
  by (simp add: same_objects_def blk_ext_def fun_eq_iff)

lemma layout_rep_same:
  assumes "bufs w' = bufs w" "blk_ext w' = blk_ext w" "fresh w \<le> fresh w'"
  shows "layout_rep w L \<Longrightarrow> layout_rep w' L"
  using assms by (auto simp: layout_rep_def apart_def intro: order_less_le_trans)

lemma layout_ext: "layout_rep w L \<Longrightarrow> b \<in> set (map fst L) \<Longrightarrow> blk_ext w b \<noteq> None"
  by (auto simp: layout_rep_def)

lemma keeps_trans:
  assumes "keeps w LA LB U w1" "keeps w1 LA LB U w2"
  shows "keeps w LA LB U w2"
  using assms by (auto simp: keeps_def intro: relinked_trans stat_frame_trans order_trans order_less_le_trans)

lemma keeps_refl:
  "\<lbrakk>bufs w' = bufs w; blk_ext w' = blk_ext w; fresh w \<le> fresh w'; stat_frame w w'\<rbrakk> \<Longrightarrow>
     keeps w LA LB U w'"
  by (simp add: keeps_def)

lemma used_append [simp]: "used h (K @ L) = used h K \<union> used h L"
  by (auto simp: used_def)

lemma used_cong:
  "(\<And>r. r \<in> set (ptrs L) \<Longrightarrow> status_of h' r = status_of h r) \<Longrightarrow> used h' L = used h L"
  by (auto simp: used_def)

text \<open>Taking a free buffer of the allocator's own layout.\<close>

lemma split_post_malloc:
  assumes L: "L = L1 @ (b, xs @ p # ys) # L2"
    and lay: "layout_rep w (LA @ L @ LB)" and co: "\<forall>(b, ps) \<in> set L. coalesced (bufs w) ps"
    and hp: "bufs w p = Some B" "free_status (buf_status B)"
    and post: "split_post w (LA @ L1) b xs p ys (L2 @ LB) (set (ptrs L)) B sz al' w'"
    and w': "blk_ext w' = blk_ext w" "fresh w \<le> fresh w'" "mem_blocks al' = map fst L"
      "stat_frame w w'"
  shows "malloc_post w LA L LB sz (Some p) al' w'"
proof -
  obtain zs where zs: "set zs \<subseteq> {fresh w}"
      "layout_rep w' ((LA @ L1) @ (b, xs @ p # zs @ ys) # (L2 @ LB))"
      "sets_rep {} (bufs w') al' (set (ptrs L) \<union> set zs)"
      "\<And>r. r \<notin> set (p # zs @ ys) \<Longrightarrow> bufs w' r = bufs w r"
      "\<And>r. r \<in> set ys \<Longrightarrow> relinked (bufs w) (bufs w') r"
      "\<And>r. r \<in> set zs \<Longrightarrow> status_of (bufs w') r = buf_status B"
      "status_of (bufs w') p = kMemBufUsed" "events_of (bufs w') p = buf_events B"
      "sz \<le> snd (seg_of (bufs w') p)" "snd (seg_of (bufs w') p) - sz < 512"
    using post unfolding split_post_def by blast
  define L' where "L' = L1 @ (b, xs @ p # zs @ ys) # L2"
  have dist: "distinct (ptrs (LA @ L' @ LB))"
    using zs(2) by (simp add: layout_rep_def L'_def)
  have rel: "relinked (bufs w) (bufs w') r" if "r \<in> set (ptrs (LA @ L @ LB))" "r \<noteq> p" for r
  proof (cases "r \<in> set ys")
    case True
    then show ?thesis by (rule zs(5))
  next
    case False
    have "r \<noteq> fresh w" using that(1) lay unfolding layout_rep_def by blast
    then have "r \<notin> set zs" using zs(1) by blast
    with False that zs(4) show ?thesis by simp
  qed
  have st: "status_of (bufs w') r = status_of (bufs w) r"
    if "r \<in> set (ptrs (LA @ L @ LB))" "r \<noteq> p" for r
    using rel [OF that] by (simp add: relinked_def)
  have stp: "status_of (bufs w) p = buf_status B" using hp(1) by (simp add: status_of_def)
  have frame: "bufs w' r = bufs w r" if "r \<in> set (ptrs LA) \<union> set (ptrs LB)" for r
  proof (rule zs(4))
    show "r \<notin> set (p # zs @ ys)" using that dist by (auto simp: L'_def)
  qed
  have rel_used: "relinked (bufs w) (bufs w') r" if "r \<in> used (bufs w) L" for r
    by (rule rel) (use that stp hp(2) in \<open>auto simp: used_def\<close>)
  have keeps: "keeps w LA LB (used (bufs w) L) w'"
    unfolding keeps_def using frame rel_used w'(1,2,4) by simp
  have co_blk: "coalesced (bufs w') (xs @ p # zs @ ys)"
  proof -
    have c: "coalesced (bufs w) xs" "coalesced (bufs w) ys"
        "ys \<noteq> [] \<Longrightarrow> status_of (bufs w) (hd ys) \<noteq> buf_status B"
      using co L hp(2) stp by (auto simp: coalesced_append coalesced_Cons)
    have "p \<notin> set xs" "p \<notin> set ys" using dist by (auto simp: L'_def)
    then have "coalesced (bufs w') xs" "coalesced (bufs w') ys"
      using c(1,2) st L coalesced_cong [of xs "bufs w'" "bufs w"]
        coalesced_cong [of ys "bufs w'" "bufs w"] by auto
    moreover have "status_of (bufs w') (hd ys) \<noteq> buf_status B" if "ys \<noteq> []"
      using c(3) [OF that] st [of "hd ys"] hd_in_set [OF that] L \<open>p \<notin> set ys\<close>
      by (cases "hd ys = p") auto
    moreover have "zs = [] \<or> (\<exists>n. zs = [n])"
    proof -
      have "distinct zs" using dist by (simp add: L'_def)
      with zs(1) show ?thesis by (cases zs; cases "tl zs") auto
    qed
    ultimately show ?thesis
      using zs(6,7) by (auto simp: coalesced_append coalesced_Cons)
  qed
  have co': "\<forall>(c, ps) \<in> set L'. coalesced (bufs w') ps"
  proof (clarify)
    fix c ps assume "(c, ps) \<in> set L'"
    then consider "(c, ps) = (b, xs @ p # zs @ ys)" | "(c, ps) \<in> set L1 \<union> set L2"
      by (auto simp: L'_def)
    then show "coalesced (bufs w') ps"
    proof cases
      case 1
      with co_blk show ?thesis by simp
    next
      case 2
      have "status_of (bufs w') r = status_of (bufs w) r" if "r \<in> set ps" for r
      proof (rule st)
        have "r \<in> set (ptrs L1) \<union> set (ptrs L2)" using 2 that by (auto simp: in_ptrs)
        then show "r \<in> set (ptrs (LA @ L @ LB))" "r \<noteq> p" using dist by (auto simp: L L'_def)
      qed
      then show ?thesis
        using co 2 L coalesced_cong [of ps "bufs w'" "bufs w"] by auto
    qed
  qed
  have ptrs': "set (ptrs L') = set (ptrs L) \<union> set zs" by (auto simp: L L'_def)
  have "alloc_state w' LA L' LB al'"
    using zs(2,3) co' w'(3) by (simp add: alloc_state_def ptrs' L) (simp add: L'_def)
  moreover have "used (bufs w') L' = insert p (used (bufs w) L)"
  proof -
    have "r \<in> used (bufs w') L' \<longleftrightarrow> r \<in> insert p (used (bufs w) L)" for r
      using st [of r] zs(6) [of r] zs(7) hp(2) ptrs' L
      by (cases "r = p") (auto simp: used_def)
    then show ?thesis by blast
  qed
  moreover have "p \<notin> used (bufs w) L" using stp hp(2) by (simp add: used_def)
  moreover have "IsEventNotUsed (events_of (bufs w') p)"
  proof -
    obtain e where "block_rep (bufs w) b e (xs @ p # ys)"
      using lay L by (auto elim: layout_block)
    then show ?thesis using hp zs(8) by (auto simp: block_rep_def buf_ok_def)
  qed
  ultimately show ?thesis
    using keeps zs(7,9,10) by (auto simp: malloc_post_def)
qed

section \<open>The contract\<close>

text \<open>
  \<open>inv i\<close> is the provider's own invariant (the device keeps track of what it handed out, and has
  room for \<open>i\<close> more blocks) and \<open>req\<close> the requests for which it answers. The mapping callbacks touch no pool object; a new block is a
  fresh object whose range is apart from every live block. The provider's invariant does not
  depend on the buffers, and survives the deletion of blocks.
\<close>

locale block_provider =
  fixes cb :: "'d callbacks" and inv :: "nat \<Rightarrow> 'd world \<Rightarrow> bool" and req :: "size_t \<Rightarrow> bool"
  assumes mapper: "inv i w \<Longrightarrow> \<exists>n w'. mem_mapper cb s a w = Some (n, w') \<and> inv i w' \<and> same_objects w w'"
    and eager_freer:
      "inv i w \<Longrightarrow> \<exists>n w'. mem_eager_freer cb a s w = Some (n, w') \<and> inv i w' \<and> same_objects w w'"
    and cleaner: "\<lbrakk>inv i w; blks w b = Some k\<rbrakk> \<Longrightarrow>
      \<exists>r w'. mem_block_cleaner cb b w = Some (r, w') \<and> inv i w' \<and> same_objects w w'"
    and expander: "\<lbrakk>inv (Suc i) w; req s\<rbrakk> \<Longrightarrow>
      (\<exists>w'. mem_block_expander cb s w = Some (None, w') \<and> inv (Suc i) w' \<and> same_objects w w') \<or>
      (\<exists>w' k. mem_block_expander cb s w = Some (Some (fresh w), w') \<and> inv i w' \<and>
        bufs w' = bufs w \<and> fresh w' = Suc (fresh w) \<and> blks w' = (blks w)(fresh w \<mapsto> k) \<and>
        stat_frame w w' \<and> good_block w k)"
    and inv_mono: "inv (Suc i) w \<Longrightarrow> inv i w"
    and inv_frame: "\<lbrakk>inv i w; dev w' = dev w; blk_ext w' \<subseteq>\<^sub>m blk_ext w\<rbrakk> \<Longrightarrow> inv i w'"
begin

lemma map_mem_buf_total:
  assumes "inv i w" "bufs w p = Some B"
  shows "\<exists>m w'. map_mem_buf cb p sz w = Some (m, w') \<and> inv i w' \<and> same_objects w w' \<and>
    (buf_status B \<noteq> kMemBufEagerFree \<longrightarrow> m)"
proof (cases "buf_status B = kMemBufEagerFree")
  case True
  with assms mapper [of i w "if kDynamicMemAlignSize \<le> buf_size B - sz then sz else buf_size B"
      "buf_addr B"]
  show ?thesis by (auto simp: map_mem_buf_def Let_def)
next
  case False
  with assms show ?thesis by (auto simp: map_mem_buf_def same_objects_def)
qed

lemma use_mem_buf_rep:
  assumes lay: "layout_rep w (LA @ (b, xs @ p # ys) # LB)" and hp: "bufs w p = Some B" and "inv i w"
    and sets: "sets_rep {p} (bufs w) al A"
  shows "\<exists>w'. use_mem_buf p w = Some w' \<and> layout_rep w' (LA @ (b, xs @ p # ys) # LB) \<and> inv i w' \<and>
    bufs w' = (bufs w)(p \<mapsto> B\<lparr>buf_status := kMemBufUsed\<rparr>) \<and> blk_ext w' = blk_ext w \<and>
    fresh w' = fresh w \<and> stat w' = stat w \<and> sets_rep {} (bufs w') al A"
proof -
  obtain e where e: "blk_ext w b = Some e" "block_rep (bufs w) b e (xs @ p # ys)"
    using lay by (auto elim: layout_block)
  have mb: "buf_mem_block B = b" using e(2) hp by (auto simp: block_rep_def buf_ok_def)
  obtain k where k: "blks w b = Some k" using e(1) by (auto simp: blk_ext_def)
  define B' where "B' = B\<lparr>buf_status := kMemBufUsed\<rparr>"
  define w1 where "w1 = w\<lparr>bufs := (bufs w)(p \<mapsto> B')\<rparr>"
  define w2 where "w2 = w1\<lparr>blks := (blks w)(b \<mapsto> UpdateBorderAddr B' k)\<rparr>"
  have lay1: "layout_rep w1 (LA @ (b, xs @ p # ys) # LB)"
    unfolding w1_def using lay hp by (rule layout_fields) (simp_all add: B'_def)
  have ext: "blk_ext w2 = blk_ext w"
    using k by (auto simp: w2_def w1_def blk_ext_def fun_eq_iff)
  have "layout_rep w2 (LA @ (b, xs @ p # ys) # LB)"
    using lay1 by (rule layout_rep_same [rotated -1]) (simp_all add: ext, simp_all add: w2_def w1_def)
  moreover have "use_mem_buf p w = Some w2"
    using hp k mb by (simp add: use_mem_buf_def heap_simps w2_def w1_def B'_def)
  moreover have "inv i w2"
    using assms(3) by (rule inv_frame) (simp_all add: ext, simp add: w2_def w1_def)
  moreover have "sets_rep {} (bufs w2) al A"
    using sets by (rule sets_rep_cong) (auto simp: w2_def w1_def B'_def status_of_def split: if_splits)
  ultimately show ?thesis
    using ext by (auto simp: w2_def w1_def B'_def)
qed

lemma MapAndSplit_rep:
  assumes lay: "layout_rep w (LA @ (b, xs @ p # ys) # LB)"
    and A: "A \<subseteq> set (ptrs (LA @ (b, xs @ p # ys) # LB))" "set (xs @ p # ys) \<subseteq> A"
    and sets: "sets_rep {p} (bufs w) al A" and inv: "inv i w"
    and hp: "bufs w p = Some B" "free_status (buf_status B)" and sz: "0 < sz" "sz \<le> buf_size B"
  shows "\<exists>r al' w'. MapAndSplitMemBuf cb p sz al w = Some (r, al', w') \<and> inv i w' \<and> same_config al al' \<and>
    blk_ext w' = blk_ext w \<and> fresh w \<le> fresh w' \<and> stat_frame w w' \<and>
    (buf_status B \<noteq> kMemBufEagerFree \<longrightarrow> r = Some p) \<and>
    (case r of
       None \<Rightarrow> layout_rep w' (LA @ (b, xs @ p # ys) # LB) \<and> bufs w' = bufs w \<and>
         sets_rep {} (bufs w') al' A
     | Some q \<Rightarrow> q = p \<and> split_post w LA b xs p ys LB A B sz al' w')"
proof -
  obtain m w1 where m: "map_mem_buf cb p sz w = Some (m, w1)" "inv i w1" "same_objects w w1"
      "buf_status B \<noteq> kMemBufEagerFree \<longrightarrow> m"
    using map_mem_buf_total [OF inv hp(1)] by blast
  have w1: "bufs w1 = bufs w" "fresh w1 = fresh w" "blk_ext w1 = blk_ext w" "stat_frame w w1"
    using m(3) blk_ext_same by (auto simp: same_objects_def)
  have lay1: "layout_rep w1 (LA @ (b, xs @ p # ys) # LB)"
    using lay by (rule layout_rep_same [rotated -1]) (simp_all add: w1)
  have sets1: "sets_rep {p} (bufs w1) al A" using sets by (simp add: w1)
  have hp1: "bufs w1 p = Some B" using hp by (simp add: w1)
  have eqn: "MapAndSplitMemBuf cb p sz al w =
      (if \<not> m then do {
         al \<leftarrow> emplace_by_status kMemBufEagerFree p al (bufs w1);
         Some (None, al, w1) }
       else do {
         (al, w) \<leftarrow> (if kDynamicMemAlignSize \<le> buf_size B - sz
                      then split_mem_buf p sz al w1 else Some (al, w1));
         w \<leftarrow> use_mem_buf p w;
         Some (Some p, al, w) })"
    using hp m(1) by (simp add: MapAndSplitMemBuf_def Let_def)
  consider (fail) "\<not> m" | (split) "m" "512 \<le> buf_size B - sz" | (whole) "m" "\<not> 512 \<le> buf_size B - sz"
    by blast
  then show ?thesis
  proof cases
    case fail
    then have st: "status_of (bufs w1) p = kMemBufEagerFree"
      using m(4) hp1 by (auto simp: status_of_def)
    obtain al' where "emplace_by_status kMemBufEagerFree p al (bufs w1) = Some al'"
        "sets_rep {} (bufs w1) al' A" "same_config al al'"
      using emplace_by_status_rep [of "bufs w1" A "{p}" al p kMemBufEagerFree]
        layout_order_own [OF lay1 A(1)] sets1 st A(2) by auto
    with fail eqn m(2,4) lay1 w1 show ?thesis
      by (intro exI [of _ None] exI [of _ al'] exI [of _ w1]) simp
  next
    case split
    have lt: "sz < buf_size B"
    proof -
      have "sz \<noteq> buf_size B" using split(2) by auto
      with sz(2) show ?thesis by simp
    qed
    define n where "n = fresh w1"
    obtain al' h' where s: "split_mem_buf p sz al w1 = Some (al', w1\<lparr>bufs := h', fresh := Suc n\<rparr>)"
        "layout_rep (w1\<lparr>bufs := h', fresh := Suc n\<rparr>) (LA @ (b, xs @ p # n # ys) # LB)"
        "sets_rep {p} h' al' (insert n A)" "same_config al al'"
        "\<And>r. r \<notin> set (p # n # ys) \<Longrightarrow> h' r = bufs w1 r"
        "\<And>r. r \<in> set ys \<Longrightarrow> relinked (bufs w1) h' r"
        "h' p = Some (B\<lparr>next_buf := Some n, buf_size := sz\<rparr>)" "status_of h' n = buf_status B"
      using split_mem_buf_rep [OF lay1 A sets1 hp1 hp(2) sz(1) lt n_def] by blast
    have inv': "inv i (w1\<lparr>bufs := h', fresh := Suc n\<rparr>)"
      using m(2) by (rule inv_frame) simp_all
    obtain w2 where w2: "use_mem_buf p (w1\<lparr>bufs := h', fresh := Suc n\<rparr>) = Some w2"
        "layout_rep w2 (LA @ (b, xs @ p # n # ys) # LB)" "inv i w2"
        "bufs w2 = h'(p \<mapsto> (B\<lparr>next_buf := Some n, buf_size := sz\<rparr>)\<lparr>buf_status := kMemBufUsed\<rparr>)"
        "blk_ext w2 = blk_ext w" "fresh w2 = Suc n" "sets_rep {} (bufs w2) al' (insert n A)"
        "stat w2 = stat w1"
      using use_mem_buf_rep [OF s(2) _ inv', of _ al' "insert n A"] s(3,7) w1 by auto
    have dist: "p \<noteq> n" "p \<notin> set ys" "n \<notin> set ys" using s(2) by (auto simp: layout_rep_def)
    show ?thesis
    proof (intro exI [of _ "Some p"] exI [of _ al'] exI [of _ w2] conjI)
      show "MapAndSplitMemBuf cb p sz al w = Some (Some p, al', w2)"
        using eqn split s(1) w2(1) by simp
      have rel: "relinked (bufs w) (bufs w2) r" if "r \<in> set ys" for r
      proof -
        have "bufs w2 r = h' r" using that dist w2(4) by auto
        with relinked_same [OF s(6) [OF that]] show ?thesis by (simp add: w1)
      qed
      have frame: "bufs w2 r = bufs w r" if "r \<notin> set (p # [n] @ ys)" for r
        using that s(5) w2(4) w1 by auto
      have st: "status_of (bufs w2) n = buf_status B"
        using s(8) dist w2(4) by (simp add: status_of_def)
      have "split_post w LA b xs p ys LB A B sz al' w2"
        unfolding split_post_def using w2 s rel frame st n_def w1
        by (intro exI [of _ "[n]"]) (auto simp: status_of_def events_of_def seg_of_def)
      then show "case Some p of None \<Rightarrow> layout_rep w2 (LA @ (b, xs @ p # ys) # LB) \<and>
          bufs w2 = bufs w \<and> sets_rep {} (bufs w2) al' A
        | Some q \<Rightarrow> q = p \<and> split_post w LA b xs p ys LB A B sz al' w2" by simp
    qed (use w2 s n_def w1 in \<open>simp_all add: stat_frame_def\<close>)
  next
    case whole
    obtain w2 where w2: "use_mem_buf p w1 = Some w2"
        "layout_rep w2 (LA @ (b, xs @ p # ys) # LB)" "inv i w2"
        "bufs w2 = (bufs w)(p \<mapsto> B\<lparr>buf_status := kMemBufUsed\<rparr>)"
        "blk_ext w2 = blk_ext w" "fresh w2 = fresh w" "sets_rep {} (bufs w2) al A"
        "stat w2 = stat w1"
      using use_mem_buf_rep [OF lay1 hp1 m(2) sets1] w1 by auto
    have dist: "p \<notin> set ys" using lay by (auto simp: layout_rep_def)
    have rel: "relinked (bufs w) (bufs w2) r" if "r \<in> set ys" for r
      using that dist w2(4) by (intro relinked_refl) auto
    show ?thesis
    proof (intro exI [of _ "Some p"] exI [of _ al] exI [of _ w2] conjI)
      show "MapAndSplitMemBuf cb p sz al w = Some (Some p, al, w2)"
        using eqn whole w2(1) by simp
      have "split_post w LA b xs p ys LB A B sz al w2"
        unfolding split_post_def using w2 rel whole sz(2)
        by (intro exI [of _ "[]"]) (auto simp: status_of_def events_of_def seg_of_def not_le)
      then show "case Some p of None \<Rightarrow> layout_rep w2 (LA @ (b, xs @ p # ys) # LB) \<and>
          bufs w2 = bufs w \<and> sets_rep {} (bufs w2) al A
        | Some q \<Rightarrow> q = p \<and> split_post w LA b xs p ys LB A B sz al w2" by simp
    qed (use w2 w1 in \<open>simp_all add: stat_frame_def\<close>)
  qed
qed

end

end
