(* ===== verification/Mem_Alloc_Total.thy ===== *)
theory Mem_Alloc_Total
  imports Mem_Alloc_Provider
begin

text \<open>
  Total correctness of \<open>Malloc\<close>, \<open>MallocExpandBlock\<close> and \<open>Free\<close> on the states of an
  allocator, under the contract of its callbacks.
\<close>

section \<open>A new block\<close>

lemma layout_add_block:
  assumes lay: "layout_rep w (LA @ L @ LB)" and k: "good_block w k" and b: "b = fresh w"
    and n: "n = Suc b" "fresh w' = Suc n" "bufs w' = (bufs w)(n \<mapsto> N)" "blks w' = (blks w)(b \<mapsto> k)"
    and N: "N = MemBuf (block_size k) (block_addr k) sid b st"
  shows "layout_rep w' (LA @ L @ (b, [n]) # LB)"
proof -
  let ?L = "LA @ L @ LB"
  have lt: "p < b" if "p \<in> set (ptrs ?L)" for p
    using that lay b unfolding layout_rep_def by blast
  have ltb: "c < b" if "c \<in> set (map fst ?L)" for c
    using that lay b unfolding layout_rep_def by blast
  have ext: "blk_ext w' c = blk_ext w c" if "c \<in> set (map fst ?L)" for c
    using ltb [OF that] by (simp add: blk_ext_def n)
  have extb: "blk_ext w' b = Some (block_addr k, block_size k)" by (simp add: blk_ext_def n)
  have blocks: "\<exists>e. blk_ext w' c = Some e \<and> block_rep (bufs w') c e qs" if "(c, qs) \<in> set ?L" for c qs
  proof -
    obtain e where e: "blk_ext w c = Some e" "block_rep (bufs w) c e qs"
      using lay \<open>(c, qs) \<in> _\<close> by (rule layout_block)
    have "bufs w' p = bufs w p" if "p \<in> set qs" for p
    proof -
      have "p < b" by (rule lt) (use that \<open>(c, qs) \<in> _\<close> in \<open>auto simp only: in_ptrs\<close>)
      then show ?thesis by (simp add: n)
    qed
    then have "block_rep (bufs w') c e qs" using e(2) by (rule block_rep_same)
    moreover have "c \<in> set (map fst ?L)" using \<open>(c, qs) \<in> _\<close> by (auto intro: rev_image_eqI)
    ultimately show ?thesis using e(1) ext by simp
  qed
  have new: "block_rep (bufs w') b (block_addr k, block_size k) [n]"
    using k by (simp add: block_rep_def link_def n N seg_of_def buf_ok_def good_block_def MemBuf_def
        IsEventNotUsed_def)
  have d: "distinct (ptrs ?L)" "distinct (map fst ?L)" using lay by (simp_all add: layout_rep_def)
  have "n \<notin> set (ptrs ?L)" "b \<notin> set (map fst ?L)" using lt ltb n(1) by fastforce+
  then have dist: "distinct (ptrs (LA @ L @ (b, [n]) # LB))" "distinct (map fst (LA @ L @ (b, [n]) # LB))"
    using d by auto
  have ap: "apart w' (map fst (LA @ L @ (b, [n]) # LB))"
  proof -
    have old: "seg_range (the (blk_ext w' c)) \<inter> seg_range (the (blk_ext w' d)) = {}"
      if "c \<in> set (map fst ?L)" "d \<in> set (map fst ?L)" "c \<noteq> d" for c d
    proof -
      have "apart w (map fst ?L)" using lay by (simp only: layout_rep_def)
      with that have "seg_range (the (blk_ext w c)) \<inter> seg_range (the (blk_ext w d)) = {}"
        unfolding apart_def by blast
      with that show ?thesis by (simp only: ext)
    qed
    have "seg_range (the (blk_ext w' c)) \<inter> seg_range (block_addr k, block_size k) = {}"
      if c: "c \<in> set (map fst ?L)" for c
    proof -
      obtain e where e: "blk_ext w c = Some e" using layout_ext [OF lay c] by auto
      with k have "seg_range e \<inter> seg_range (block_addr k, block_size k) = {}"
        unfolding good_block_def by blast
      with e ext [OF c] show ?thesis by simp
    qed
    then have nw: "seg_range (the (blk_ext w' c)) \<inter> seg_range (the (blk_ext w' b)) = {}"
      if "c \<in> set (map fst ?L)" for c
      using that extb by simp
    have split: "c = b \<or> c \<in> set (map fst ?L)" if "c \<in> set (map fst (LA @ L @ (b, [n]) # LB))" for c
      using that by auto
    show ?thesis
      unfolding apart_def
    proof (intro ballI impI)
      fix c d
      assume cd: "c \<in> set (map fst (LA @ L @ (b, [n]) # LB))"
        "d \<in> set (map fst (LA @ L @ (b, [n]) # LB))" "c \<noteq> d"
      then consider "c = b" "d \<in> set (map fst ?L)" | "c \<in> set (map fst ?L)" "d = b"
        | "c \<in> set (map fst ?L)" "d \<in> set (map fst ?L)"
        using split by blast
      then show "seg_range (the (blk_ext w' c)) \<inter> seg_range (the (blk_ext w' d)) = {}"
        using nw [of c] nw [of d] old [of c d] cd(3) by cases blast+
    qed
  qed
  show ?thesis
    unfolding layout_rep_def
  proof (intro conjI ballI)
    show "p < fresh w'" if "p \<in> set (ptrs (LA @ L @ (b, [n]) # LB))" for p
    proof (cases "p = n")
      case True
      then show ?thesis by (simp add: n)
    next
      case False
      with that lt [of p] show ?thesis by (auto simp: n)
    qed
    show "c < fresh w'" if "c \<in> set (map fst (LA @ L @ (b, [n]) # LB))" for c
    proof (cases "c = b")
      case True
      then show ?thesis by (simp add: n)
    next
      case False
      with that have "c \<in> set (map fst ?L)" by auto
      from ltb [OF this] show ?thesis by (simp add: n)
    qed
    show "case x of (c, qs) \<Rightarrow> \<exists>e. blk_ext w' c = Some e \<and> block_rep (bufs w') c e qs"
      if "x \<in> set (LA @ L @ (b, [n]) # LB)" for x
    proof (cases "x = (b, [n])")
      case True
      with extb new show ?thesis by simp
    next
      case False
      with that have "x \<in> set ?L" by auto
      with blocks show ?thesis by (cases x) simp
    qed
  qed (use dist ap in auto)
qed

section \<open>Taking a buffer out of a free set\<close>

lemma bufset_remove1_rep:
  assumes "strict_order (buf_less h) A" "bufset_rep h A X st s" 
  shows "bufset_rep h A (insert p X) st (remove1 p s)"
proof -
  have s: "set s = {p \<in> A. status_of h p = st} - X" "sorted_wrt (buf_less h) s"
    using assms(2) by (auto simp: bufset_rep_def)
  have "distinct s" using assms(1) s by (intro strict_order.sorted_distinct) auto
  then have "remove1 p s = filter (\<lambda>x. x \<noteq> p) s"
    by (simp add: distinct_remove1_removeAll removeAll_filter_not_eq eq_commute)
  with s show ?thesis by (auto simp: bufset_rep_def sorted_wrt_filter)
qed

lemma bufset_lower_bound_total:
  assumes "bufset_rep h A X st s" "\<And>p. p \<in> A \<Longrightarrow> live h p"
  shows "\<exists>it. bufset_lower_bound h (search_key sz) s = Some it"
proof -
  have "set s \<subseteq> A" using assms(1) by (auto simp: bufset_rep_def)
  with assms(2) have "list_all (live h) s" by (auto simp: list_all_iff)
  then show ?thesis by (simp add: bufset_lower_bound_def)
qed

text \<open>
  The lower bound of a request: no buffer with less bytes than requested is chosen, and every
  buffer that is large enough comes no earlier in the order than the chosen one.
\<close>

lemma lower_bound_fits:
  assumes "h p = Some B"
  shows "\<not> MemBufComparator B (search_key sz) \<longleftrightarrow> sz \<le> snd (seg_of h p)"
  using assms by (auto simp: MemBufComparator_def search_key_def MemBuf_def seg_of_def not_less)

lemma bufset_lower_bound_SomeD:
  assumes rep: "bufset_rep h A X st s" and lb: "bufset_lower_bound h (search_key sz) s = Some (Some p)"
  shows "p \<in> set s" "sz \<le> snd (seg_of h p)"
    "\<And>q. q \<in> set s \<Longrightarrow> sz \<le> snd (seg_of h q) \<Longrightarrow> snd (seg_of h p) \<le> snd (seg_of h q)"
proof -
  have live: "\<And>q. q \<in> set s \<Longrightarrow> \<exists>B. h q = Some B"
    and find: "List.find (\<lambda>p. \<not> MemBufComparator (the (h p)) (search_key sz)) s = Some p"
    using lb by (auto simp: bufset_lower_bound_def list_all_iff live_def split: if_splits option.splits)
  have fits: "\<not> MemBufComparator (the (h q)) (search_key sz) \<longleftrightarrow> sz \<le> snd (seg_of h q)"
    if "q \<in> set s" for q
  proof -
    from live [OF that] obtain B where "h q = Some B" ..
    with lower_bound_fits [of h q B sz] show ?thesis by simp
  qed
  obtain i where i: "i < length s" "s ! i = p" "\<not> MemBufComparator (the (h p)) (search_key sz)"
      "\<And>j. j < i \<Longrightarrow> MemBufComparator (the (h (s ! j))) (search_key sz)"
    using find by (auto simp: find_Some_iff)
  show p: "p \<in> set s" using i by auto
  then show "sz \<le> snd (seg_of h p)" using i(3) fits by blast
  fix q assume q: "q \<in> set s" "sz \<le> snd (seg_of h q)"
  obtain j where j: "j < length s" "s ! j = q" using q(1) by (auto simp: in_set_conv_nth)
  have "\<not> j < i" using i(4) [of j] j q fits by blast
  then consider "j = i" | "i < j" by linarith
  then show "snd (seg_of h p) \<le> snd (seg_of h q)"
  proof cases
    case 1
    with i j show ?thesis by simp
  next
    case 2
    then have "buf_less h p q"
      using rep i(2) j sorted_wrt_nth_less [of "buf_less h" s i j] by (simp add: bufset_rep_def)
    then show ?thesis by (auto simp: buf_less_seg key_less_def)
  qed
qed

lemma bufset_lower_bound_NoneD:
  assumes "bufset_lower_bound h (search_key sz) s = Some None" "q \<in> set s"
  shows "snd (seg_of h q) < sz"
proof -
  have "live h q" "MemBufComparator (the (h q)) (search_key sz)"
    using assms by (auto simp: bufset_lower_bound_def list_all_iff find_None_iff split: if_splits)
  then obtain B where "h q = Some B" "MemBufComparator B (search_key sz)" by (auto elim!: liveE)
  with lower_bound_fits [of h q B sz] show ?thesis by simp
qed

section \<open>Malloc\<close>

lemma malloc_post_trans:
  assumes "keeps w LA LB (used (bufs w) L) w1" "used (bufs w1) L1 = used (bufs w) L"
    and "malloc_post w1 LA L1 LB sz r al' w'"
  shows "malloc_post w LA L LB sz r al' w'"
  using assms(3) keeps_trans [OF assms(1)] unfolding malloc_post_def assms(2) by blast

lemma malloc_post_None:
  assumes "alloc_state w' LA L LB al'" "bufs w' = bufs w" "blk_ext w' = blk_ext w"
    and "fresh w \<le> fresh w'" "stat_frame w w'"
  shows "malloc_post w LA L LB sz None al' w'"
  using assms by (auto simp: malloc_post_def intro: keeps_refl)

text \<open>The number of blocks an operation added, at most one.\<close>

definition spent :: "allocator \<Rightarrow> allocator \<Rightarrow> nat" where
  "spent al al' = length (mem_blocks al') - length (mem_blocks al)"

definition grown :: "allocator \<Rightarrow> allocator \<Rightarrow> bool" where
  "grown al al' \<longleftrightarrow> length (mem_blocks al) \<le> length (mem_blocks al') \<and>
     length (mem_blocks al') \<le> Suc (length (mem_blocks al)) \<and>
     enable_eager_free al' = enable_eager_free al \<and> is_persistent al' = is_persistent al \<and>
     al_stream_id al' = al_stream_id al"

lemma same_config_spent: "same_config al al' \<Longrightarrow> spent al al' = 0 \<and> grown al al'"
  by (simp add: same_config_def spent_def grown_def)

context block_provider
begin

lemma MapAndSplit_alloc:
  assumes L: "L = L1 @ (b, xs @ p # ys) # L2"
    and lay: "layout_rep w (LA @ L @ LB)" and co: "\<forall>(b, ps) \<in> set L. coalesced (bufs w) ps"
    and al: "map fst L = mem_blocks al" "sets_rep {p} (bufs w) al (set (ptrs L))" and inv: "inv i w"
    and hp: "bufs w p = Some B" "free_status (buf_status B)" and sz: "0 < sz" "sz \<le> buf_size B"
  shows "\<exists>r al' w'. MapAndSplitMemBuf cb p sz al w = Some (r, al', w') \<and> inv i w' \<and> same_config al al' \<and>
    malloc_post w LA L LB sz r al' w' \<and> (r = None \<or> r = Some p) \<and>
    (buf_status B \<noteq> kMemBufEagerFree \<longrightarrow> r = Some p)"
proof -
  have lay': "layout_rep w ((LA @ L1) @ (b, xs @ p # ys) # (L2 @ LB))" using lay L by simp
  have A: "set (ptrs L) \<subseteq> set (ptrs ((LA @ L1) @ (b, xs @ p # ys) # (L2 @ LB)))"
      "set (xs @ p # ys) \<subseteq> set (ptrs L)"
    using L by auto
  obtain r al' w' where m: "MapAndSplitMemBuf cb p sz al w = Some (r, al', w')" "inv i w'"
      "same_config al al'" "blk_ext w' = blk_ext w" "fresh w \<le> fresh w'" "stat_frame w w'"
      "buf_status B \<noteq> kMemBufEagerFree \<longrightarrow> r = Some p"
      "case r of
         None \<Rightarrow> layout_rep w' ((LA @ L1) @ (b, xs @ p # ys) # (L2 @ LB)) \<and> bufs w' = bufs w \<and>
           sets_rep {} (bufs w') al' (set (ptrs L))
       | Some q \<Rightarrow> q = p \<and> split_post w (LA @ L1) b xs p ys (L2 @ LB) (set (ptrs L)) B sz al' w'"
    using MapAndSplit_rep [OF lay' A al(2) inv hp sz] by blast
  have blocks: "mem_blocks al' = map fst L" using m(3) al(1) by (simp add: same_config_def)
  have "malloc_post w LA L LB sz r al' w'"
  proof (cases r)
    case None
    with m(8) have "layout_rep w' (LA @ L @ LB)" "bufs w' = bufs w"
        "sets_rep {} (bufs w') al' (set (ptrs L))"
      unfolding L by auto
    with co blocks have "alloc_state w' LA L LB al'" by (simp add: alloc_state_def)
    with None m \<open>bufs w' = bufs w\<close> show ?thesis by (auto intro: malloc_post_None)
  next
    case (Some q)
    with m(8) have q: "q = p"
        "split_post w (LA @ L1) b xs p ys (L2 @ LB) (set (ptrs L)) B sz al' w'"
      by simp_all
    show ?thesis
      unfolding Some q(1) by (rule split_post_malloc [OF L lay co hp q(2) m(4,5) blocks m(6)])
  qed
  moreover have "r = None \<or> r = Some p" using m(8) by (cases r) auto
  ultimately show ?thesis using m by blast
qed

lemma MallocExpandBlock_total:
  assumes al: "alloc_state w LA L LB al" and inv: "inv (Suc i) w" and sz: "0 < sz" "req sz"
  shows "\<exists>r al' w'. MallocExpandBlock cb sz al w = Some (r, al', w') \<and> inv (Suc i - spent al al') w' \<and>
    grown al al' \<and> malloc_post w LA L LB sz r al' w'"
  using expander [OF inv sz(2)]
proof (elim disjE exE conjE)
  fix w' assume "mem_block_expander cb sz w = Some (None, w')" "inv (Suc i) w'" "same_objects w w'"
  moreover from this have "bufs w' = bufs w" "blk_ext w' = blk_ext w" "fresh w' = fresh w" "stat_frame w w'"
    using blk_ext_same by (auto simp: same_objects_def)
  moreover from this have "alloc_state w' LA L LB al"
    using al layout_rep_same [of w' w] by (simp add: alloc_state_def)
  ultimately show ?thesis
    by (auto simp: MallocExpandBlock_def ExpandBlock_def spent_def grown_def intro: malloc_post_None)
next
  fix w1 k
  assume ex: "mem_block_expander cb sz w = Some (Some (fresh w), w1)" "inv i w1" "bufs w1 = bufs w"
    "fresh w1 = Suc (fresh w)" "blks w1 = (blks w)(fresh w \<mapsto> k)" "stat_frame w w1" "good_block w k"
  define b where "b = fresh w"
  define n where "n = Suc b"
  define st where "st = (if enable_eager_free al then kMemBufEagerFree else kMemBufIdle)"
  define N where "N = MemBuf (block_size k) (block_addr k) (block_stream_id k) b st"
  define w2 where "w2 = w1\<lparr>bufs := (bufs w)(n \<mapsto> N), fresh := Suc n\<rparr>"
  define al2 where "al2 = al\<lparr>mem_blocks := mem_blocks al @ [b]\<rparr>"
  define L2 where "L2 = L @ [(b, [n])]"
  have st: "free_status st" by (simp add: st_def)
  have hN: "bufs w2 n = Some N" "buf_status N = st" "buf_size N = block_size k"
    by (simp_all add: w2_def N_def MemBuf_def)
  have lay: "layout_rep w (LA @ L @ LB)" using al by (simp add: alloc_state_def)
  have "layout_rep w2 (LA @ L @ (b, [n]) # LB)"
    using lay ex(7) b_def n_def by (rule layout_add_block) (use ex b_def N_def in \<open>simp_all add: w2_def\<close>)
  then have lay2: "layout_rep w2 (LA @ L2 @ LB)" by (simp add: L2_def)
  have lt: "p < b" if "p \<in> set (ptrs (LA @ L @ LB))" for p
    using that lay b_def unfolding layout_rep_def by blast
  have frame: "bufs w2 p = bufs w p" if "p \<in> set (ptrs (LA @ L @ LB))" for p
    using lt [OF that] by (simp add: w2_def n_def)
  have co: "\<forall>(c, ps) \<in> set L2. coalesced (bufs w2) ps"
  proof clarify
    fix c ps assume "(c, ps) \<in> set L2"
    then consider "(c, ps) \<in> set L" | "ps = [n]" by (auto simp: L2_def)
    then show "coalesced (bufs w2) ps"
    proof cases
      case 1
      then have "bufs w2 r = bufs w r" if "r \<in> set ps" for r
        using that by (intro frame) (auto simp: in_ptrs)
      then have "status_of (bufs w2) r = status_of (bufs w) r" if "r \<in> set ps" for r
        using that by (simp add: status_of_def)
      moreover have "coalesced (bufs w) ps" using al 1 by (auto simp: alloc_state_def)
      ultimately show ?thesis using coalesced_cong [of ps "bufs w2" "bufs w"] by blast
    qed (simp add: coalesced_def)
  qed
  have sets: "sets_rep {n} (bufs w2) al2 (set (ptrs L2))"
  proof -
    have "sets_rep {} (bufs w) al2 (set (ptrs L))"
      using al by (simp add: alloc_state_def sets_rep_def al2_def)
    then show ?thesis
    proof (rule sets_rep_cong)
      fix p assume "p \<in> set (ptrs L)" "p \<notin> {}"
      then have "p \<in> set (ptrs (LA @ L @ LB))" by simp
      from lt [OF this] frame [OF this]
      show "p \<in> set (ptrs L2) \<and> p \<notin> {n}" "relinked (bufs w) (bufs w2) p"
        using \<open>p \<in> set (ptrs L)\<close> by (auto simp: L2_def n_def)
    qed (auto simp: L2_def)
  qed
  have blocks: "map fst L2 = mem_blocks al2" using al by (simp add: L2_def al2_def alloc_state_def)
  have inv2: "inv i w2" using ex(2) by (rule inv_frame) (simp_all add: w2_def)
  have keeps: "keeps w LA LB (used (bufs w) L) w2"
    unfolding keeps_def
  proof (intro conjI ballI allI impI)
    show "relinked (bufs w) (bufs w2) r" if "r \<in> used (bufs w) L" for r
      using frame [of r] that by (auto simp: used_def)
    show "blk_ext w2 c = blk_ext w c" if "c < fresh w" for c
      using that ex(5) by (simp add: blk_ext_def w2_def)
    show "stat_frame w w2" using ex(6) by (simp add: stat_frame_def w2_def)
    show "bufs w2 r = bufs w r" if "r \<in> set (ptrs LA) \<union> set (ptrs LB)" for r
      by (rule frame) (use that in auto)
  qed (simp add: w2_def n_def b_def)
  have used2: "used (bufs w2) L2 = used (bufs w) L"
  proof -
    have "status_of (bufs w2) r = status_of (bufs w) r" if "r \<in> set (ptrs L)" for r
      using frame [of r] that by (simp add: status_of_def)
    then have "used (bufs w2) L = used (bufs w) L" by (rule used_cong)
    moreover have "used (bufs w2) [(b, [n])] = {}" using hN st by (simp add: used_def status_of_def)
    ultimately show ?thesis by (simp add: L2_def)
  qed
  have run: "MallocExpandBlock cb sz al w =
      (if block_size k < sz then do { al \<leftarrow> emplace_by_status st n al2 (bufs w2); Some (None, al, w2) }
       else MapAndSplitMemBuf cb n sz al2 w2)"
    using ex b_def
    by (simp add: MallocExpandBlock_def ExpandBlock_def new_buf_def Let_def st_def al2_def n_def
        N_def w2_def)
  show ?thesis
  proof (cases "block_size k < sz")
    case True
    have "set (ptrs L2) \<subseteq> set (ptrs (LA @ L2 @ LB))" "n \<in> set (ptrs L2)" by (auto simp: L2_def)
    then obtain al3 where al3: "emplace_by_status st n al2 (bufs w2) = Some al3"
        "sets_rep {} (bufs w2) al3 (set (ptrs L2))" "same_config al2 al3"
      using emplace_by_status_rep [of "bufs w2" "set (ptrs L2)" "{n}" al2 n st]
        layout_order_own [OF lay2] sets hN st by (auto simp: status_of_def)
    have "alloc_state w2 LA L2 LB al3"
      using lay2 al3 co blocks by (simp add: alloc_state_def same_config_def)
    then have "malloc_post w2 LA L2 LB sz None al3 w2" by (rule malloc_post_None) simp_all
    with keeps used2 have "malloc_post w LA L LB sz None al3 w2" by (rule malloc_post_trans)
    with True al3 inv2 run show ?thesis
      by (auto simp: same_config_def al2_def spent_def grown_def)
  next
    case False
    then have le: "sz \<le> buf_size N" using hN by simp
    have L2': "L2 = L @ (b, [] @ n # []) # []" by (simp add: L2_def)
    obtain r al' w' where "MapAndSplitMemBuf cb n sz al2 w2 = Some (r, al', w')" "inv i w'"
        "same_config al2 al'" "malloc_post w2 LA L2 LB sz r al' w'"
      using MapAndSplit_alloc [OF L2' lay2 co blocks sets inv2 hN(1) _ sz(1) le] hN(2) st by auto
    moreover from keeps used2 this(4) have "malloc_post w LA L LB sz r al' w'"
      by (rule malloc_post_trans)
    ultimately show ?thesis
      using False run by (auto simp: same_config_def al2_def spent_def grown_def)
  qed
qed

lemma take_candidate:
  assumes al: "alloc_state w LA L LB al" and inv: "inv i w" and sz: "0 < sz"
    and st: "free_status st"
    and p: "p \<in> set (ptrs L)" "status_of (bufs w) p = st" "sz \<le> snd (seg_of (bufs w) p)"
    and al': "sets_rep {p} (bufs w) al' (set (ptrs L))" "same_config al al'"
  shows "\<exists>r al2 w'. MapAndSplitMemBuf cb p sz al' w = Some (r, al2, w') \<and> inv i w' \<and> same_config al al2 \<and>
    malloc_post w LA L LB sz r al2 w' \<and> (r = None \<or> r = Some p) \<and>
    (st \<noteq> kMemBufEagerFree \<longrightarrow> r = Some p)"
proof -
  have lay: "layout_rep w (LA @ L @ LB)" and co: "\<forall>(b, ps) \<in> set L. coalesced (bufs w) ps"
    and blocks: "map fst L = mem_blocks al'"
    using al al'(2) by (simp_all add: alloc_state_def same_config_def)
  obtain b ps where "(b, ps) \<in> set L" "p \<in> set ps" using p(1) by (auto simp: in_ptrs)
  then obtain L1 L2 xs ys where L: "L = L1 @ (b, xs @ p # ys) # L2"
    by (metis split_list)
  have "live (bufs w) p" using lay by (rule layout_live) (use p(1) in simp)
  then obtain B where B: "bufs w p = Some B" by (rule liveE)
  have "buf_status B = st" "sz \<le> buf_size B"
    using p(2,3) B by (simp_all add: status_of_def seg_of_def)
  with MapAndSplit_alloc [OF L lay co blocks al'(1) inv B _ sz] st same_config_trans [OF al'(2)]
  show ?thesis by blast
qed

lemma Malloc_total:
  assumes al: "alloc_state w LA L LB al" and inv: "inv (Suc i) w" and sz: "0 < sz" "req sz"
  shows "\<exists>r al' w'. Malloc cb sz al w = Some (r, al', w') \<and> inv (Suc i - spent al al') w' \<and>
    grown al al' \<and> malloc_post w LA L LB sz r al' w'"
proof (cases "mem_blocks al = []")
  case True
  then show ?thesis using MallocExpandBlock_total [OF assms] by (simp add: Malloc_def)
next
  case False
  let ?A = "set (ptrs L)"
  have lay: "layout_rep w (LA @ L @ LB)" using al by (simp add: alloc_state_def)
  have A: "?A \<subseteq> set (ptrs (LA @ L @ LB))" by auto
  note ord = layout_order_own [OF lay A]
  have idle: "bufset_rep (bufs w) ?A {} kMemBufIdle (free_mem_bufs al)"
    and eager: "bufset_rep (bufs w) ?A {} kMemBufEagerFree (eager_free_mem_bufs al)"
    using al by (auto simp: alloc_state_def sets_rep_def)
  obtain i1 where i1: "bufset_lower_bound (bufs w) (search_key sz) (free_mem_bufs al) = Some i1"
    using bufset_lower_bound_total [OF idle ord(2)] by blast
  obtain i2 where i2: "bufset_lower_bound (bufs w) (search_key sz) (eager_free_mem_bufs al) = Some i2"
    using bufset_lower_bound_total [OF eager ord(2)] by blast
  consider (idle) p where "i1 = Some p" | (eager) p where "i1 = None" "i2 = Some p"
    | (none) "i1 = None" "i2 = None"
    by (cases i1; cases i2) auto
  then show ?thesis
  proof cases
    case (idle p)
    note lb = bufset_lower_bound_SomeD [OF \<open>bufset_rep _ _ _ kMemBufIdle _\<close> i1 [unfolded idle]]
    have p: "p \<in> ?A" "status_of (bufs w) p = kMemBufIdle"
      using lb(1) \<open>bufset_rep _ _ _ kMemBufIdle _\<close> by (auto simp: bufset_rep_def)
    let ?al = "al\<lparr>free_mem_bufs := remove1 p (free_mem_bufs al)\<rparr>"
    have "sets_rep {p} (bufs w) ?al ?A"
      using bufset_remove1_rep [OF ord(1) \<open>bufset_rep _ _ _ kMemBufIdle _\<close>, of p]
        bufset_rep_grow [OF eager, of p] p by (simp add: sets_rep_def)
    from take_candidate [OF al inv sz(1) _ p lb(2) this] show ?thesis
      using False i1 idle by (fastforce simp: Malloc_def same_config_def spent_def grown_def)
  next
    case (eager p)
    note lb = bufset_lower_bound_SomeD [OF \<open>bufset_rep _ _ _ kMemBufEagerFree _\<close> i2 [unfolded eager]]
    have p: "p \<in> ?A" "status_of (bufs w) p = kMemBufEagerFree"
      using lb(1) \<open>bufset_rep _ _ _ kMemBufEagerFree _\<close> by (auto simp: bufset_rep_def)
    let ?al = "al\<lparr>eager_free_mem_bufs := remove1 p (eager_free_mem_bufs al)\<rparr>"
    have "sets_rep {p} (bufs w) ?al ?A"
      using bufset_remove1_rep [OF ord(1) \<open>bufset_rep _ _ _ kMemBufEagerFree _\<close>, of p]
        bufset_rep_grow [OF idle, of p] p by (simp add: sets_rep_def)
    from take_candidate [OF al inv sz(1) _ p lb(2) this] show ?thesis
      using False i1 i2 eager by (fastforce simp: Malloc_def same_config_def spent_def grown_def)
  next
    case none
    have "malloc_post w LA L LB sz None al w" using al by (rule malloc_post_None) simp_all
    with none False i1 i2 inv show ?thesis by (simp add: Malloc_def spent_def grown_def)
  qed
qed

end

end
