(* ===== verification/Mem_Alloc_Free.thy ===== *)
theory Mem_Alloc_Free
  imports Mem_Alloc_Total
begin

text \<open>
  \<open>Free\<close>, the conversion of idle memory to eager-free memory, and the release of an allocator, on
  the states of an allocator.
\<close>

section \<open>Free\<close>

lemma ptrs_split:
  assumes "p \<in> set (ptrs L)"
  obtains b xs ys L1 L2 where "L = L1 @ (b, xs @ p # ys) # L2"
proof -
  obtain b ps where "(b, ps) \<in> set L" "p \<in> set ps" using assms by (auto simp: in_ptrs)
  then show ?thesis using that by (metis split_list)
qed

lemma Free_alloc:
  assumes al: "layout_rep w (LA @ L @ LB)" "map fst L = mem_blocks al"
      "sets_rep {p} (bufs w) al (set (ptrs L))"
    and co: "\<forall>(b, ps) \<in> set L. coalesced (bufs w) ps"
    and p: "p \<in> set (ptrs L)" "IsEventNotUsed (events_of (bufs w) p)" and st: "free_status st"
  shows "\<exists>al' h' L'. Free p st al w = Some (True, al', w\<lparr>bufs := h'\<rparr>) \<and>
    alloc_state (w\<lparr>bufs := h'\<rparr>) LA L' LB al' \<and> same_config al al' \<and>
    set (ptrs L') \<subseteq> set (ptrs L) \<and> p \<in> set (ptrs L') \<and> status_of h' p = st \<and>
    (\<forall>r \<in> set (ptrs L) - set (ptrs L'). status_of (bufs w) r = st) \<and>
    (\<forall>r \<in> set (ptrs L') - {p}. relinked (bufs w) h' r) \<and>
    (\<forall>r. r \<notin> set (ptrs L) \<longrightarrow> h' r = bufs w r)"
proof -
  let ?h = "bufs w"
  obtain b xs ys L1 L2 where L: "L = L1 @ (b, xs @ p # ys) # L2" using p(1) by (rule ptrs_split)
  have lay: "layout_rep w ((LA @ L1) @ (b, xs @ p # ys) # (L2 @ LB))" using al(1) L by simp
  have A: "set (ptrs L) \<subseteq> set (ptrs ((LA @ L1) @ (b, xs @ p # ys) # (L2 @ LB)))"
      "set (xs @ p # ys) \<subseteq> set (ptrs L)"
    using L by auto
  have "live ?h p" using al(1) by (rule layout_live) (use p(1) in simp)
  then obtain B where B: "?h p = Some B" by (rule liveE)
  then have ev: "IsEventNotUsed (buf_events B)" using p(2) by (simp add: events_of_def)
  define xs' where "xs' = absorb_prev ?h st xs"
  define ys' where "ys' = absorb_next ?h st ys"
  define L' where "L' = L1 @ (b, xs' @ p # ys') # L2"
  obtain al' h' where f: "Free p st al w = Some (True, al', w\<lparr>bufs := h'\<rparr>)"
      "layout_rep (w\<lparr>bufs := h'\<rparr>) ((LA @ L1) @ (b, xs' @ p # ys') # (L2 @ LB))"
      "sets_rep {} h' al' (set (ptrs L) - (set xs - set xs') - (set ys - set ys'))"
      "same_config al al'" "\<And>r. r \<notin> set (xs @ p # ys) \<Longrightarrow> h' r = ?h r"
      "\<And>r. r \<in> set xs' \<union> set ys' \<Longrightarrow> relinked ?h h' r" "status_of h' p = st"
    using Free_rep [OF lay A al(3) st B ev xs'_def ys'_def] by blast
  have sub: "set xs' \<subseteq> set xs" "set ys' \<subseteq> set ys"
    using absorb_subset by (auto simp: xs'_def ys'_def)
  have dist: "distinct (ptrs L)" using al(1) by (simp add: layout_rep_def)
  have ptrs': "set (ptrs L') = set (ptrs L) - (set xs - set xs') - (set ys - set ys')"
    using dist sub unfolding L L'_def by auto
  have gone: "status_of ?h r = st" if "r \<in> set (ptrs L) - set (ptrs L')" for r
  proof -
    have "r \<in> set xs - set xs' \<or> r \<in> set ys - set ys'" using that ptrs' by blast
    then show ?thesis
      by (cases xs rule: rev_cases; cases ys)
        (auto simp: xs'_def ys'_def absorb_prev_def absorb_next_def split: if_splits)
  qed
  have rel: "relinked ?h h' r" if "r \<in> set (ptrs L') - {p}" for r
  proof (cases "r \<in> set xs' \<union> set ys'")
    case True
    then show ?thesis by (rule f(6))
  next
    case False
    with that dist have "r \<notin> set (xs @ p # ys)" unfolding L L'_def by auto
    from f(5) [OF this] show ?thesis by simp
  qed
  have st': "status_of h' r = status_of ?h r" if "r \<in> set (ptrs L') - {p}" for r
    using rel [OF that] by (simp add: relinked_def)
  have co': "\<forall>(c, ps) \<in> set L'. coalesced h' ps"
  proof clarify
    fix c ps assume cps: "(c, ps) \<in> set L'"
    then consider "ps = xs' @ p # ys'" | "(c, ps) \<in> set L1 \<union> set L2" by (auto simp: L'_def)
    then show "coalesced h' ps"
    proof cases
      case 1
      have xy: "coalesced ?h xs" "coalesced ?h ys"
        using co L by (auto simp: coalesced_append coalesced_Cons)
      show ?thesis
        unfolding 1
      proof (rule coalesced_absorb [OF xy st f(7) _ xs'_def ys'_def])
        fix r assume r: "r \<in> set xs' \<union> set ys'"
        then have "r \<in> set (ptrs L') - {p}" using dist sub unfolding L L'_def by auto
        then show "status_of h' r = status_of ?h r" by (rule st')
      qed
    next
      case 2
      have "status_of h' r = status_of ?h r" if "r \<in> set ps" for r
      proof (rule st')
        have "r \<in> set (ptrs L1) \<union> set (ptrs L2)" using 2 that by (auto simp: in_ptrs)
        then show "r \<in> set (ptrs L') - {p}" using dist unfolding L L'_def by auto
      qed
      then show ?thesis using co 2 L coalesced_cong [of ps h' ?h] by auto
    qed
  qed
  have "alloc_state (w\<lparr>bufs := h'\<rparr>) LA L' LB al'"
    using f(2,3,4) al(2) co' unfolding alloc_state_def ptrs'
    by (simp add: same_config_def L) (simp add: L'_def)
  moreover have "h' r = ?h r" if "r \<notin> set (ptrs L)" for r
    by (rule f(5)) (use that L in auto)
  moreover have "p \<in> set (ptrs L')" "set (ptrs L') \<subseteq> set (ptrs L)"
    using ptrs' by (auto simp: L'_def)
  ultimately show ?thesis
    using f(1,4,7) gone rel by blast
qed

definition free_post ::
    "'d world \<Rightarrow> layout \<Rightarrow> layout \<Rightarrow> layout \<Rightarrow> ptr \<Rightarrow> mem_buf_status \<Rightarrow> allocator \<Rightarrow> 'd world \<Rightarrow> bool" where
  "free_post w LA L LB p st al' w' \<longleftrightarrow>
     keeps w LA LB (used (bufs w) L - {p}) w' \<and> blks w' = blks w \<and> stat w' = stat w \<and> dev w' = dev w \<and>
     (\<exists>L'. alloc_state w' LA L' LB al' \<and> used (bufs w') L' = used (bufs w) L - {p} \<and>
        p \<in> set (ptrs L') \<and> status_of (bufs w') p = st)"

text \<open>A buffer in use that no event refers to is freed and merged with its free neighbours.\<close>

lemma Free_total:
  assumes al: "alloc_state w LA L LB al" and p: "p \<in> used (bufs w) L"
    and ev: "IsEventNotUsed (events_of (bufs w) p)" and st: "free_status st"
  shows "\<exists>al' w'. Free p st al w = Some (True, al', w') \<and> free_post w LA L LB p st al' w' \<and> same_config al al'"
proof -
  have a: "layout_rep w (LA @ L @ LB)" "map fst L = mem_blocks al"
      "sets_rep {} (bufs w) al (set (ptrs L))" "\<forall>(b, ps) \<in> set L. coalesced (bufs w) ps"
    using al by (auto simp: alloc_state_def)
  have p': "p \<in> set (ptrs L)" "\<not> free_status (status_of (bufs w) p)" using p by (auto simp: used_def)
  have sets: "sets_rep {p} (bufs w) al (set (ptrs L))"
    using a(3) by (rule sets_rep_cong) (use p' in auto)
  obtain al' h' L' where f: "Free p st al w = Some (True, al', w\<lparr>bufs := h'\<rparr>)"
      "alloc_state (w\<lparr>bufs := h'\<rparr>) LA L' LB al'"
      "set (ptrs L') \<subseteq> set (ptrs L)" "p \<in> set (ptrs L')" "status_of h' p = st"
      "\<And>r. r \<in> set (ptrs L) - set (ptrs L') \<Longrightarrow> status_of (bufs w) r = st"
      "\<And>r. r \<in> set (ptrs L') - {p} \<Longrightarrow> relinked (bufs w) h' r"
      "\<And>r. r \<notin> set (ptrs L) \<Longrightarrow> h' r = bufs w r"
    and cfg: "same_config al al'"
    using Free_alloc [OF a(1,2) sets a(4) p'(1) ev st] by blast
  have mem: "r \<in> set (ptrs L') - {p}" if "r \<in> used (bufs w) L - {p}" for r
    using that f(6) [of r] st by (auto simp: used_def)
  have st': "status_of h' r = status_of (bufs w) r" if "r \<in> set (ptrs L') - {p}" for r
    using f(7) [OF that] by (simp add: relinked_def)
  have "used h' L' = used (bufs w) L - {p}"
  proof (intro set_eqI iffI)
    fix r assume r: "r \<in> used h' L'"
    then have "r \<noteq> p" using f(5) st by (auto simp: used_def)
    with r st' [of r] f(3) show "r \<in> used (bufs w) L - {p}" by (auto simp: used_def)
  next
    fix r assume r: "r \<in> used (bufs w) L - {p}"
    from mem [OF r] st' [OF mem [OF r]] r show "r \<in> used h' L'" by (auto simp: used_def)
  qed
  moreover have "keeps w LA LB (used (bufs w) L - {p}) (w\<lparr>bufs := h'\<rparr>)"
    unfolding keeps_def
  proof (intro conjI ballI)
    fix r assume "r \<in> set (ptrs LA) \<union> set (ptrs LB)"
    then have "r \<notin> set (ptrs L)" using a(1) by (auto simp: layout_rep_def)
    with f(8) show "bufs (w\<lparr>bufs := h'\<rparr>) r = bufs w r" by simp
  next
    fix r assume "r \<in> used (bufs w) L - {p}"
    from f(7) [OF mem [OF this]] show "relinked (bufs w) (bufs (w\<lparr>bufs := h'\<rparr>)) r" by simp
  qed simp_all
  ultimately show ?thesis
    using f(1,2,4,5) cfg by (auto simp: free_post_def)
qed

text \<open>Changing the status among the used ones, or the events, of a buffer in use.\<close>

definition same_place :: "mem_buf \<Rightarrow> mem_buf \<Rightarrow> bool" where
  "same_place B B' \<longleftrightarrow> prev_buf B' = prev_buf B \<and> next_buf B' = next_buf B \<and> buf_addr B' = buf_addr B \<and>
     buf_size B' = buf_size B \<and> buf_mem_block B' = buf_mem_block B \<and>
     \<not> free_status (buf_status B) \<and> \<not> free_status (buf_status B')"

lemma alloc_state_fields:
  assumes al: "alloc_state w LA L LB al" and p: "p \<in> set (ptrs L)"
    and B: "bufs w p = Some B" "same_place B B'"
  shows "alloc_state (w\<lparr>bufs := (bufs w)(p \<mapsto> B')\<rparr>) LA L LB al"
    "used ((bufs w)(p \<mapsto> B')) K = used (bufs w) K"
proof -
  let ?w = "w\<lparr>bufs := (bufs w)(p \<mapsto> B')\<rparr>"
  have a: "layout_rep w (LA @ L @ LB)" "map fst L = mem_blocks al"
      "sets_rep {} (bufs w) al (set (ptrs L))" "\<forall>(b, ps) \<in> set L. coalesced (bufs w) ps"
    using al by (auto simp: alloc_state_def)
  have nf: "\<not> free_status (status_of (bufs w) p)" "\<not> free_status (buf_status B')"
    using B by (simp_all add: status_of_def same_place_def)
  obtain b xs ys L1 L2 where L: "L = L1 @ (b, xs @ p # ys) # L2" using p by (rule ptrs_split)
  have "layout_rep ?w (LA @ L @ LB)"
    using layout_fields [of w "LA @ L1" b xs p ys "L2 @ LB" B B'] a(1) L B by (simp add: same_place_def)
  moreover have "sets_rep {} (bufs ?w) al (set (ptrs L))"
  proof -
    have "sets_rep {p} (bufs w) al (set (ptrs L))"
      using a(3) by (rule sets_rep_cong) (use nf in auto)
    then show ?thesis
      by (rule sets_rep_cong) (use nf in \<open>auto simp: status_of_def split: if_splits\<close>)
  qed
  moreover have "coalesced (bufs ?w) ps" if "coalesced (bufs w) ps" for ps
    using that unfolding coalesced_def
    by (rule successively_mono) (use nf B in \<open>auto simp: status_of_def split: if_splits\<close>)
  ultimately show "alloc_state ?w LA L LB al" using a(2,4) by (auto simp: alloc_state_def)
  show "used ((bufs w)(p \<mapsto> B')) K = used (bufs w) K"
    using nf by (auto simp: used_def status_of_def)
qed

text \<open>A buffer that an event still refers to is only marked.\<close>

lemma Free_event:
  assumes al: "alloc_state w LA L LB al" and p: "p \<in> used (bufs w) L"
    and ev: "\<not> IsEventNotUsed (events_of (bufs w) p)"
  shows "\<exists>B. bufs w p = Some B \<and> same_place B (B\<lparr>buf_status := kMemBufUsedByEvent\<rparr>) \<and>
    Free p st al w = Some (False, al, w\<lparr>bufs := (bufs w)(p \<mapsto> B\<lparr>buf_status := kMemBufUsedByEvent\<rparr>)\<rparr>)"
proof -
  have p': "p \<in> set (ptrs L)" "\<not> free_status (status_of (bufs w) p)" using p by (auto simp: used_def)
  have "live (bufs w) p"
    using al p'(1) layout_live [of w "LA @ L @ LB" p] by (simp add: alloc_state_def)
  then obtain B where B: "bufs w p = Some B" by (rule liveE)
  with p'(2) ev show ?thesis
    by (auto simp: Free_def heap_simps events_of_def same_place_def status_of_def)
qed

section \<open>Eager free\<close>

text \<open>Freeing to the eager-free state neither reads nor writes the idle set.\<close>

lemma merge_prev_eager:
  "merge_prev p kMemBufEagerFree (al\<lparr>free_mem_bufs := s\<rparr>) w =
     map_option (\<lambda>(al', w'). (al'\<lparr>free_mem_bufs := s\<rparr>, w')) (merge_prev p kMemBufEagerFree al w)"
  by (auto simp: merge_prev_def erase_by_status_def split: bind_splits option.splits)

lemma merge_next_eager:
  "merge_next p kMemBufEagerFree (al\<lparr>free_mem_bufs := s\<rparr>) w =
     map_option (\<lambda>(al', w'). (al'\<lparr>free_mem_bufs := s\<rparr>, w')) (merge_next p kMemBufEagerFree al w)"
  by (auto simp: merge_next_def erase_by_status_def split: bind_splits option.splits)

lemma Free_eager:
  "Free p kMemBufEagerFree (al\<lparr>free_mem_bufs := s\<rparr>) w =
     map_option (\<lambda>(r, al', w'). (r, al'\<lparr>free_mem_bufs := s\<rparr>, w')) (Free p kMemBufEagerFree al w)"
  by (auto simp: Free_def merge_prev_eager merge_next_eager emplace_by_status_def
      split: bind_splits option.splits)

lemma Free_eager_al:
  assumes "Free p kMemBufEagerFree (al\<lparr>free_mem_bufs := s\<rparr>) w = Some (r, al1, w')"
  shows "free_mem_bufs al1 = s"
    "\<exists>al'. Free p kMemBufEagerFree al w = Some (r, al', w') \<and> al1 = al'\<lparr>free_mem_bufs := s\<rparr>"
  using assms unfolding Free_eager by auto

text \<open>
  The loop over the idle set: it visits the idle buffers in order, adds up their sizes and turns
  each into eager-free memory; the used buffers stay where they are.
\<close>

lemma eager_free_idles_total:
  assumes "layout_rep w (LA @ L @ LB)" "map fst L = mem_blocks al"
    and "sets_rep {} (bufs w) (al\<lparr>free_mem_bufs := ps\<rparr>) (set (ptrs L))"
    and "\<forall>(b, ps) \<in> set L. coalesced (bufs w) ps"
  shows "\<exists>al' h' L'. eager_free_idles ps n al w =
        Some (n + word_total (segs (bufs w) ps), al', w\<lparr>bufs := h'\<rparr>) \<and>
      alloc_state (w\<lparr>bufs := h'\<rparr>) LA L' LB (al'\<lparr>free_mem_bufs := []\<rparr>) \<and> same_config al al' \<and>
      used h' L' = used (bufs w) L \<and> (\<forall>r \<in> used (bufs w) L. relinked (bufs w) h' r) \<and>
      (\<forall>r. r \<notin> set (ptrs L) \<longrightarrow> h' r = bufs w r)"
  using assms
proof (induction ps arbitrary: n al w L)
  case Nil
  then have "alloc_state w LA L LB (al\<lparr>free_mem_bufs := []\<rparr>)" by (simp add: alloc_state_def)
  then show ?case by (intro exI [of _ al] exI [of _ "bufs w"] exI [of _ L]) simp
next
  case (Cons p ps)
  let ?h = "bufs w"
  let ?al = "al\<lparr>free_mem_bufs := ps\<rparr>"
  have ord: "strict_order (buf_less ?h) (set (ptrs L))"
    by (rule layout_order_own(1) [OF Cons.prems(1)]) auto
  have idle: "bufset_rep ?h (set (ptrs L)) {} kMemBufIdle (p # ps)"
    and eager: "bufset_rep ?h (set (ptrs L)) {} kMemBufEagerFree (eager_free_mem_bufs al)"
    using Cons.prems(3) by (simp_all add: sets_rep_def)
  have p: "p \<in> set (ptrs L)" "status_of ?h p = kMemBufIdle"
    using idle by (auto simp: bufset_rep_def)
  have sets: "sets_rep {p} ?h ?al (set (ptrs L))"
    using bufset_remove1_rep [OF ord idle, of p] bufset_rep_grow [OF eager, of p] p
    by (simp add: sets_rep_def)
  obtain b xs ys L1 L2 where L: "L = L1 @ (b, xs @ p # ys) # L2" using p(1) by (rule ptrs_split)
  obtain e where e: "block_rep ?h b e (xs @ p # ys)"
    using Cons.prems(1) L by (auto elim: layout_block)
  obtain B where B: "?h p = Some B" using e by (auto simp: block_rep_def buf_ok_def)
  have ev: "IsEventNotUsed (events_of ?h p)"
    using e B p(2) by (auto simp: block_rep_def buf_ok_def status_of_def events_of_def)
  have blocks: "map fst L = mem_blocks ?al" using Cons.prems(2) by simp
  obtain al1 h1 L1' where f: "Free p kMemBufEagerFree ?al w = Some (True, al1, w\<lparr>bufs := h1\<rparr>)"
      "alloc_state (w\<lparr>bufs := h1\<rparr>) LA L1' LB al1" "same_config ?al al1"
      "set (ptrs L1') \<subseteq> set (ptrs L)" "p \<in> set (ptrs L1')" "status_of h1 p = kMemBufEagerFree"
      "\<And>r. r \<in> set (ptrs L) - set (ptrs L1') \<Longrightarrow> status_of ?h r = kMemBufEagerFree"
      "\<And>r. r \<in> set (ptrs L1') - {p} \<Longrightarrow> relinked ?h h1 r"
      "\<And>r. r \<notin> set (ptrs L) \<Longrightarrow> h1 r = ?h r"
    using Free_alloc [OF Cons.prems(1) blocks sets Cons.prems(4) p(1) ev, of kMemBufEagerFree]
    by auto
  obtain al2 where al2: "Free p kMemBufEagerFree al w = Some (True, al2, w\<lparr>bufs := h1\<rparr>)"
      "al1 = al2\<lparr>free_mem_bufs := ps\<rparr>"
    using Free_eager_al(2) [OF f(1)] by blast
  have keep: "relinked ?h h1 r" "r \<in> set (ptrs L1')" "r \<noteq> p"
    if "r \<in> set (ptrs L)" "status_of ?h r \<noteq> kMemBufEagerFree" "r \<noteq> p" for r
    using that f(7,8) by auto
  have dist: "p \<notin> set ps"
    using strict_order.sorted_distinct [OF ord, of "p # ps"] idle by (auto simp: bufset_rep_def)
  have segs: "segs h1 ps = segs ?h ps"
  proof (rule segs_relinked)
    fix r assume "r \<in> set ps"
    with idle dist show "relinked ?h h1 r" by (intro keep(1)) (auto simp: bufset_rep_def)
  qed
  have used1: "used h1 L1' = used ?h L"
  proof (intro set_eqI iffI)
    fix r assume r: "r \<in> used h1 L1'"
    then have "r \<noteq> p" using f(6) by (auto simp: used_def)
    with r f(8) [of r] f(4) show "r \<in> used ?h L" by (auto simp: used_def relinked_def)
  next
    fix r assume r: "r \<in> used ?h L"
    then have "r \<in> set (ptrs L)" "status_of ?h r \<noteq> kMemBufEagerFree" "r \<noteq> p"
      using p(2) by (auto simp: used_def)
    from keep [OF this] r show "r \<in> used h1 L1'" by (auto simp: used_def relinked_def)
  qed
  have rel1: "relinked ?h h1 r" if "r \<in> used ?h L" for r
    by (rule keep(1)) (use that p(2) in \<open>auto simp: used_def\<close>)
  have "layout_rep (w\<lparr>bufs := h1\<rparr>) (LA @ L1' @ LB)" "map fst L1' = mem_blocks al2"
      "sets_rep {} (bufs (w\<lparr>bufs := h1\<rparr>)) (al2\<lparr>free_mem_bufs := ps\<rparr>) (set (ptrs L1'))"
      "\<forall>(b, ps) \<in> set L1'. coalesced (bufs (w\<lparr>bufs := h1\<rparr>)) ps"
    using f(2) unfolding al2(2) by (simp_all add: alloc_state_def)
  from Cons.IH [OF this, of "n + buf_size B"] obtain al' h' L' where IH:
      "eager_free_idles ps (n + buf_size B) al2 (w\<lparr>bufs := h1\<rparr>) =
        Some (n + buf_size B + word_total (segs h1 ps), al', w\<lparr>bufs := h'\<rparr>)"
      "alloc_state (w\<lparr>bufs := h'\<rparr>) LA L' LB (al'\<lparr>free_mem_bufs := []\<rparr>)" "same_config al2 al'"
      "used h' L' = used h1 L1'" "\<And>r. r \<in> used h1 L1' \<Longrightarrow> relinked h1 h' r"
      "\<And>r. r \<notin> set (ptrs L1') \<Longrightarrow> h' r = h1 r"
    by auto
  show ?case
  proof (intro exI [of _ al'] exI [of _ h'] exI [of _ L'] conjI ballI allI impI)
    show "eager_free_idles (p # ps) n al w =
        Some (n + word_total (segs ?h (p # ps)), al', w\<lparr>bufs := h'\<rparr>)"
      using B al2(1) IH(1) segs by (simp add: seg_of_def add.assoc)
    show "same_config al al'" using f(3) IH(3) al2(2) by (simp add: same_config_def)
    show "used h' L' = used ?h L" using IH(4) used1 by simp
    show "relinked ?h h' r" if "r \<in> used ?h L" for r
      using rel1 [OF that] IH(5) [of r] used1 that by (auto intro: relinked_trans)
    show "h' r = ?h r" if "r \<notin> set (ptrs L)" for r
      using that f(4,9) IH(6) [of r] by auto
  qed (use IH(2) in simp)
qed

context block_provider
begin

lemma eager_free_all_total:
  assumes "inv i w" "\<And>p. p \<in> set ps \<Longrightarrow> live (bufs w) p"
  shows "\<exists>m w'. eager_free_all cb ps n w = Some (m, w') \<and> inv i w' \<and> same_objects w w'"
  using assms
proof (induction ps arbitrary: n w)
  case Nil
  then show ?case by (simp add: same_objects_def)
next
  case (Cons p ps)
  obtain B where B: "bufs w p = Some B" using Cons.prems(2) [of p] by (auto elim: liveE)
  obtain k w1 where e: "mem_eager_freer cb (buf_addr B) (buf_size B) w = Some (k, w1)" "inv i w1"
      "same_objects w w1"
    using eager_freer [OF Cons.prems(1)] by blast
  have "\<And>p. p \<in> set ps \<Longrightarrow> live (bufs w1) p" using Cons.prems(2) e(3) by (simp add: same_objects_def)
  from Cons.IH [OF e(2) this, of "n + k"] obtain m w' where
    "eager_free_all cb ps (n + k) w1 = Some (m, w')" "inv i w'" "same_objects w1 w'" by blast
  with B e show ?case by (auto simp: same_objects_def intro: stat_frame_trans)
qed

text \<open>
  After \<open>FreeIdleMemsByEagerFree\<close> no buffer is idle; the first figure it returns is the number
  of bytes that were idle, and the buffers in use are untouched.
\<close>

lemma FreeIdle_total:
  assumes al: "alloc_state w LA L LB al" and inv: "inv i w"
  shows "\<exists>m al' w' L'. Allocator_FreeIdleMemsByEagerFree cb al w =
      Some ((word_total (segs (bufs w) (free_mem_bufs al)), m), al', w') \<and> inv i w' \<and>
    alloc_state w' LA L' LB al' \<and> free_mem_bufs al' = [] \<and> mem_blocks al' = mem_blocks al \<and>
    used (bufs w') L' = used (bufs w) L \<and> keeps w LA LB (used (bufs w) L) w'"
proof -
  have a: "layout_rep w (LA @ L @ LB)" "map fst L = mem_blocks al"
      "sets_rep {} (bufs w) (al\<lparr>free_mem_bufs := free_mem_bufs al\<rparr>) (set (ptrs L))"
      "\<forall>(b, ps) \<in> set L. coalesced (bufs w) ps"
    using al by (auto simp: alloc_state_def)
  obtain al1 h1 L1 where e: "eager_free_idles (free_mem_bufs al) 0 al w =
        Some (0 + word_total (segs (bufs w) (free_mem_bufs al)), al1, w\<lparr>bufs := h1\<rparr>)"
      "alloc_state (w\<lparr>bufs := h1\<rparr>) LA L1 LB (al1\<lparr>free_mem_bufs := []\<rparr>)"
      "used h1 L1 = used (bufs w) L" "\<And>r. r \<in> used (bufs w) L \<Longrightarrow> relinked (bufs w) h1 r"
      "\<And>r. r \<notin> set (ptrs L) \<Longrightarrow> h1 r = bufs w r" "mem_blocks al1 = mem_blocks al"
    using eager_free_idles_total [OF a, of 0] by (fastforce simp: same_config_def)
  have inv1: "inv i (w\<lparr>bufs := h1\<rparr>)" using inv by (rule inv_frame) simp_all
  have lay1: "layout_rep (w\<lparr>bufs := h1\<rparr>) (LA @ L1 @ LB)"
    using e(2) by (simp add: alloc_state_def)
  have "live (bufs (w\<lparr>bufs := h1\<rparr>)) p" if "p \<in> set (eager_free_mem_bufs al1)" for p
    by (rule layout_live [OF lay1]) (use that e(2) in \<open>auto simp: alloc_state_def sets_rep_def bufset_rep_def\<close>)
  from eager_free_all_total [OF inv1 this, of "eager_free_mem_bufs al1" 0] obtain m w' where
    r: "eager_free_all cb (eager_free_mem_bufs al1) 0 (w\<lparr>bufs := h1\<rparr>) = Some (m, w')" "inv i w'"
      "same_objects (w\<lparr>bufs := h1\<rparr>) w'"
    by blast
  have w': "bufs w' = h1" "blk_ext w' = blk_ext w" "fresh w' = fresh w" "stat_frame w w'"
    using r(3) blk_ext_same [OF r(3)] by (simp_all add: same_objects_def stat_frame_def)
  have "alloc_state w' LA L1 LB (al1\<lparr>free_mem_bufs := []\<rparr>)"
    using e(2) layout_rep_same [of w' "w\<lparr>bufs := h1\<rparr>"] w' by (simp add: alloc_state_def)
  moreover have "keeps w LA LB (used (bufs w) L) w'"
    unfolding keeps_def
  proof (intro conjI ballI)
    fix r assume "r \<in> set (ptrs LA) \<union> set (ptrs LB)"
    then have "r \<notin> set (ptrs L)" using a(1) by (auto simp: layout_rep_def)
    with e(5) w'(1) show "bufs w' r = bufs w r" by simp
  qed (use w' e(4) in auto)
  ultimately show ?thesis
    using e(1,3,6) r(1,2) w'(1)
    by (auto simp: Allocator_FreeIdleMemsByEagerFree_def Let_def
        intro!: exI [of _ m] exI [of _ "al1\<lparr>free_mem_bufs := []\<rparr>"] exI [of _ w'] exI [of _ L1])
qed

end

end
