(* ===== verification/Mem_Pool.thy ===== *)
theory Mem_Pool
  imports Mem_Allocator
begin

text \<open>
  \<open>AbstractDynamicMemPool\<close> of \<^verbatim>\<open>memory/abstract_dynamic_memory_pool.h\<close> and
  \<^verbatim>\<open>memory/abstract_dynamic_memory_pool.cc\<close>: one allocator per (persistent, stream) pair and an
  optional allocator for small requests, the map from device addresses to the buffers in use, the
  buffers that stream events refer to, and the statistics. The pure virtual device operations are
  a record of functions; a device operation that throws has the value \<open>None\<close>. The lock is taken
  by every public operation and released at its end, so operations are atomic steps here. Log
  output is left out.
\<close>

section \<open>State\<close>

text \<open>The device operations a concrete pool overrides, over a device state.\<close>

record 'd device =
  AllocDeviceMem :: "size_t \<Rightarrow> 'd \<Rightarrow> ((size_t \<times> device_ptr) \<times> 'd) option"
  FreeDeviceMem :: "device_ptr \<Rightarrow> 'd \<Rightarrow> (bool \<times> 'd) option"
  free_mem_size :: "'d \<Rightarrow> size_t"
  total_mem_size :: "'d \<Rightarrow> size_t"
  GetVmmUsedMemSize :: "'d \<Rightarrow> size_t"
  IsEnableEagerFree :: "'d \<Rightarrow> bool"
  SyncAllStreams :: "'d \<Rightarrow> (bool \<times> 'd) option"
  AllocDeviceMemByEagerFree :: "size_t \<Rightarrow> 'd \<Rightarrow> ((size_t \<times> device_ptr) \<times> 'd) option"
  FreeDeviceMemByEagerFree :: "device_ptr \<Rightarrow> size_t \<Rightarrow> 'd \<Rightarrow> (size_t \<times> 'd) option"
  MmapDeviceMem :: "size_t \<Rightarrow> device_ptr \<Rightarrow> 'd \<Rightarrow> (size_t \<times> 'd) option"

text \<open>A \<open>MemBufAllocator *\<close> is the tiny allocator or the allocator of a key.\<close>

datatype alloc_id = Tiny | Keyed "bool \<times> uint32"

text \<open>The settings that the callbacks read through the captured reference to the pool.\<close>

record pool_config =
  enable_vmm :: bool
  common_unit_size :: size_t
  persist_unit_size :: size_t

record 'd pool =
  tiny_allocator :: "allocator option"
  stream_id_allocators :: "((bool \<times> uint32) \<times> allocator) list"
  addr_mem_buf_allocators :: "(device_ptr \<times> (ptr \<times> alloc_id)) list"
  stream_pair_mem_bufs :: "((uint32 \<times> uint32) \<times> ptr list) list"
  world :: "'d world"
  config :: pool_config
  eager_free_count :: size_t
  last_eager_free_count :: size_t

definition mod_stat :: "(mem_stat \<Rightarrow> mem_stat) \<Rightarrow> 'd world \<Rightarrow> 'd world" where
  "mod_stat f w = w\<lparr>stat := f (stat w)\<rparr>"

definition mem_stat_of :: "'d pool \<Rightarrow> mem_stat" where
  "mem_stat_of P = stat (world P)"

definition pool_stat :: "(mem_stat \<Rightarrow> mem_stat) \<Rightarrow> 'd pool \<Rightarrow> 'd pool" where
  "pool_stat f P = P\<lparr>world := mod_stat f (world P)\<rparr>"

definition get_al :: "alloc_id \<Rightarrow> 'd pool \<Rightarrow> allocator option" where
  "get_al i P = (case i of Tiny \<Rightarrow> tiny_allocator P
     | Keyed k \<Rightarrow> map_of (stream_id_allocators P) k)"

definition set_al :: "alloc_id \<Rightarrow> allocator \<Rightarrow> 'd pool \<Rightarrow> 'd pool" where
  "set_al i al P = (case i of Tiny \<Rightarrow> P\<lparr>tiny_allocator := Some al\<rparr>
     | Keyed k \<Rightarrow> P\<lparr>stream_id_allocators := al_set k al (stream_id_allocators P)\<rparr>)"

definition MemAllocUnitSize :: "bool \<Rightarrow> pool_config \<Rightarrow> size_t" where
  "MemAllocUnitSize from_persistent_mem C =
     (if from_persistent_mem then persist_unit_size C else common_unit_size C)"

definition SetMemAllocUintSize :: "size_t \<Rightarrow> size_t \<Rightarrow> 'd pool \<Rightarrow> 'd pool" where
  "SetMemAllocUintSize common_size persist_size P =
     P\<lparr>config := (config P)\<lparr>common_unit_size := common_size, persist_unit_size := persist_size\<rparr>\<rparr>"

definition SetEnableVmm :: "bool \<Rightarrow> 'd pool \<Rightarrow> 'd pool" where
  "SetEnableVmm b P = P\<lparr>config := (config P)\<lparr>enable_vmm := b\<rparr>\<rparr>"

section \<open>The callbacks of the allocators\<close>

text \<open>The last part of both expanders: account for the new memory and make the block.\<close>

definition make_block :: "size_t \<Rightarrow> device_ptr \<Rightarrow> uint32 \<Rightarrow> 'd world \<Rightarrow> ptr option \<times> 'd world" where
  "make_block n addr stream_id w =
     (if n = 0 then (None, w)
      else
        let w = mod_stat (\<lambda>s. s\<lparr>alloc_size := alloc_size s + n\<rparr>) w;
            (b, w) = new_block (MemBlock n addr stream_id) w
        in (Some b, w))"

definition tiny_expander :: "'d device \<Rightarrow> size_t \<Rightarrow> 'd world \<Rightarrow> (ptr option \<times> 'd world) option" where
  "tiny_expander D sz w = do {
     let block_size = 1024 * 1024;
     ((n, addr), d) \<leftarrow> AllocDeviceMem D block_size (dev w);
     Some (make_block n addr 0 (w\<lparr>dev := d\<rparr>)) }"

definition keyed_expander ::
    "'d device \<Rightarrow> pool_config \<Rightarrow> bool \<Rightarrow> uint32 \<Rightarrow> size_t \<Rightarrow> 'd world \<Rightarrow> (ptr option \<times> 'd world) option" where
  "keyed_expander D C persistent stream_id sz w = do {
     block_size \<leftarrow> CalMemBlockAllocSize (free_mem_size D (dev w)) (MemAllocUnitSize persistent C) sz;
     if block_size = 0 then Some (None, w)
     else if IsEnableEagerFree D (dev w) \<or> enable_vmm C then do {
       let eager_size = max block_size (total_mem_size D (dev w));
       ((n, addr), d) \<leftarrow> AllocDeviceMemByEagerFree D eager_size (dev w);
       let w = mod_stat (\<lambda>s. s\<lparr>eager_free_size := eager_free_size s + n\<rparr>) (w\<lparr>dev := d\<rparr>);
       Some (make_block n addr stream_id w) }
     else do {
       ((n, addr), d) \<leftarrow> AllocDeviceMem D block_size (dev w);
       Some (make_block n addr stream_id (w\<lparr>dev := d\<rparr>)) } }"

definition pool_cleaner :: "'d device \<Rightarrow> ptr \<Rightarrow> 'd world \<Rightarrow> (bool \<times> 'd world) option" where
  "pool_cleaner D b w = do {
     k \<leftarrow> blks w b;
     let w = mod_stat (\<lambda>s. s\<lparr>alloc_size := alloc_size s - block_size k\<rparr>) w;
     (r, d) \<leftarrow> FreeDeviceMem D (block_addr k) (dev w);
     Some (r, w\<lparr>dev := d\<rparr>) }"

definition pool_mapper ::
    "'d device \<Rightarrow> size_t \<Rightarrow> device_ptr \<Rightarrow> 'd world \<Rightarrow> (size_t \<times> 'd world) option" where
  "pool_mapper D sz addr w = do {
     let w = mod_stat (\<lambda>s. s\<lparr>eager_free_size := eager_free_size s - sz\<rparr>) w;
     (n, d) \<leftarrow> MmapDeviceMem D sz addr (dev w);
     Some (n, w\<lparr>dev := d\<rparr>) }"

definition pool_eager_freer ::
    "'d device \<Rightarrow> device_ptr \<Rightarrow> size_t \<Rightarrow> 'd world \<Rightarrow> (size_t \<times> 'd world) option" where
  "pool_eager_freer D addr sz w = do {
     (n, d) \<leftarrow> FreeDeviceMemByEagerFree D addr sz (dev w);
     Some (n, w\<lparr>dev := d\<rparr>) }"

definition callbacks_of :: "'d device \<Rightarrow> pool_config \<Rightarrow> alloc_id \<Rightarrow> 'd callbacks" where
  "callbacks_of D C i =
     \<lparr>mem_block_expander = (case i of Tiny \<Rightarrow> tiny_expander D
        | Keyed (persistent, stream_id) \<Rightarrow> keyed_expander D C persistent stream_id),
      mem_block_cleaner = pool_cleaner D,
      mem_mapper = pool_mapper D,
      mem_eager_freer = pool_eager_freer D\<rparr>"

text \<open>The constructor; its argument says whether \<open>ENABLE_TINY_ALLOCATOR\<close> is set.\<close>

definition AbstractDynamicMemPool :: "bool \<Rightarrow> 'd \<Rightarrow> 'd pool" where
  "AbstractDynamicMemPool enable_tiny d =
     \<lparr>tiny_allocator = (if enable_tiny then Some (MemBufAllocator False False 0) else None),
      stream_id_allocators = [], addr_mem_buf_allocators = [], stream_pair_mem_bufs = [],
      world = \<lparr>bufs = Map.empty, blks = Map.empty, fresh = 0, stat = MemStat_Reset, dev = d\<rparr>,
      config = \<lparr>enable_vmm = False, common_unit_size = kDynamicMemAllocUnitSize,
        persist_unit_size = kDynamicMemAllocUnitSize\<rparr>, eager_free_count = 0,
      last_eager_free_count = 0\<rparr>"

definition GenerateAllocator :: "'d device \<Rightarrow> bool \<Rightarrow> uint32 \<Rightarrow> 'd pool \<Rightarrow> allocator" where
  "GenerateAllocator D persistent stream_id P =
     MemBufAllocator (IsEnableEagerFree D (dev (world P)) \<or> enable_vmm (config P)) persistent stream_id"

text \<open>The order of \<open>std::pair<bool, uint32_t>\<close>, the key order of \<open>stream_id_allocators_\<close>.\<close>

definition alloc_key_less :: "bool \<times> uint32 \<Rightarrow> bool \<times> uint32 \<Rightarrow> bool" where
  "alloc_key_less k l \<longleftrightarrow> (\<not> fst k \<and> fst l) \<or> (fst k = fst l \<and> snd k < snd l)"

definition GetMemBufAllocator ::
    "'d device \<Rightarrow> size_t \<Rightarrow> bool \<Rightarrow> uint32 \<Rightarrow> 'd pool \<Rightarrow> alloc_id \<times> 'd pool" where
  "GetMemBufAllocator D sz from_persistent_mem stream_id P =
     (if tiny_allocator P \<noteq> None \<and> sz \<le> 1024 * 1024 then (Tiny, P)
      else
        let key = (from_persistent_mem, stream_id) in
        (case map_of (stream_id_allocators P) key of
           Some _ \<Rightarrow> (Keyed key, P)
         | None \<Rightarrow>
             (Keyed key, P\<lparr>stream_id_allocators :=
                oset_emplace (\<lambda>e f. alloc_key_less (fst e) (fst f))
                  (key, GenerateAllocator D from_persistent_mem stream_id P)
                  (stream_id_allocators P)\<rparr>)))"

section \<open>Calls of an allocator's operations\<close>

definition al_Malloc ::
    "'d device \<Rightarrow> alloc_id \<Rightarrow> size_t \<Rightarrow> 'd pool \<Rightarrow> (ptr option \<times> 'd pool) option" where
  "al_Malloc D i sz P = do {
     al \<leftarrow> get_al i P;
     (r, al, w) \<leftarrow> Malloc (callbacks_of D (config P) i) sz al (world P);
     Some (r, (set_al i al P)\<lparr>world := w\<rparr>) }"

definition al_MallocExpandBlock ::
    "'d device \<Rightarrow> alloc_id \<Rightarrow> size_t \<Rightarrow> 'd pool \<Rightarrow> (ptr option \<times> 'd pool) option" where
  "al_MallocExpandBlock D i sz P = do {
     al \<leftarrow> get_al i P;
     (r, al, w) \<leftarrow> MallocExpandBlock (callbacks_of D (config P) i) sz al (world P);
     Some (r, (set_al i al P)\<lparr>world := w\<rparr>) }"

definition al_Free :: "alloc_id \<Rightarrow> ptr \<Rightarrow> 'd pool \<Rightarrow> (bool \<times> 'd pool) option" where
  "al_Free i p P = do {
     al \<leftarrow> get_al i P;
     (r, al, w) \<leftarrow> Free p kMemBufIdle al (world P);
     Some (r, (set_al i al P)\<lparr>world := w\<rparr>) }"

section \<open>Freeing\<close>

definition DoFreeTensorMem :: "device_ptr \<Rightarrow> 'd pool \<Rightarrow> (bool \<times> 'd pool) option" where
  "DoFreeTensorMem device_addr P =
     (case map_of (addr_mem_buf_allocators P) device_addr of
        None \<Rightarrow> Some (False, P)
      | Some (mem_buf, i) \<Rightarrow> do {
          b \<leftarrow> bufs (world P) mem_buf;
          let free_size = buf_size b;
          (freed, P) \<leftarrow> al_Free i mem_buf P;
          if freed then
            Some (True,
              (pool_stat (\<lambda>s. s\<lparr>used_size := used_size s - free_size\<rparr>) P)
                \<lparr>addr_mem_buf_allocators := al_erase device_addr (addr_mem_buf_allocators P)\<rparr>)
          else Some (False, P) })"

definition FreeTensorMem :: "device_ptr \<Rightarrow> 'd pool \<Rightarrow> 'd pool option" where
  "FreeTensorMem device_addr P = map_option snd (DoFreeTensorMem device_addr P)"

section \<open>Events\<close>

definition pair_emplace ::
    "uint32 \<times> uint32 \<Rightarrow> ptr \<Rightarrow> ((uint32 \<times> uint32) \<times> ptr list) list \<Rightarrow>
     ((uint32 \<times> uint32) \<times> ptr list) list" where
  "pair_emplace key p m =
     al_set key (oset_emplace (<) p (case map_of m key of None \<Rightarrow> [] | Some s \<Rightarrow> s)) m"

definition pair_erase ::
    "uint32 \<times> uint32 \<Rightarrow> ptr \<Rightarrow> ((uint32 \<times> uint32) \<times> ptr list) list \<Rightarrow>
     ((uint32 \<times> uint32) \<times> ptr list) list" where
  "pair_erase key p m = map (\<lambda>(k, s). (k, if k = key then remove1 p s else s)) m"

definition pair_erase_all ::
    "ptr \<Rightarrow> ((uint32 \<times> uint32) \<times> ptr list) list \<Rightarrow> ((uint32 \<times> uint32) \<times> ptr list) list" where
  "pair_erase_all p m = map (\<lambda>(k, s). (k, remove1 p s)) m"

fun RecordEvent ::
    "int64 \<Rightarrow> uint32 \<Rightarrow> (uint32 \<times> device_ptr) list \<Rightarrow> nat \<Rightarrow> 'd pool \<Rightarrow> (bool \<times> 'd pool) option" where
  "RecordEvent task_id_on_stream user_stream_id [] event P = Some (True, P)"
| "RecordEvent task_id_on_stream user_stream_id ((memory_stream_id, addr) # rest) event P =
     (case map_of (addr_mem_buf_allocators P) addr of
        None \<Rightarrow> RecordEvent task_id_on_stream user_stream_id rest event P
      | Some (mem_buf, _) \<Rightarrow> do {
          b \<leftarrow> bufs (world P) mem_buf;
          let P = (if IsEventNotUsed (buf_events b)
            then pool_stat (\<lambda>s. s\<lparr>used_by_event_size := used_by_event_size s + buf_size b\<rparr>) P else P);
          w \<leftarrow> mod_buf mem_buf (\<lambda>b. b\<lparr>buf_events :=
            EventBase_RecordEvent task_id_on_stream user_stream_id event (buf_events b)\<rparr>) (world P);
          let P = P\<lparr>world := w, stream_pair_mem_bufs :=
            pair_emplace (user_stream_id, memory_stream_id) mem_buf (stream_pair_mem_bufs P)\<rparr>;
          RecordEvent task_id_on_stream user_stream_id rest event P })"

text \<open>The body of the loop of both \<open>WaitEvent\<close> operations.\<close>

definition wait_mem_buf ::
    "int64 \<Rightarrow> uint32 \<times> uint32 \<Rightarrow> ptr \<Rightarrow> 'd pool \<Rightarrow> 'd pool option" where
  "wait_mem_buf task_id_on_stream key mem_buf P = do {
     w \<leftarrow> mod_buf mem_buf (\<lambda>b. b\<lparr>buf_events :=
       snd (EventBase_WaitEvent (ucast task_id_on_stream) (fst key) (buf_events b))\<rparr>) (world P);
     let P = P\<lparr>world := w\<rparr>;
     b \<leftarrow> bufs (world P) mem_buf;
     if IsEventNotUsed (buf_events b) then do {
       let P = pool_stat (\<lambda>s. s\<lparr>used_by_event_size := used_by_event_size s - buf_size b\<rparr>)
         (P\<lparr>stream_pair_mem_bufs := pair_erase key mem_buf (stream_pair_mem_bufs P)\<rparr>);
       if buf_status b = kMemBufUsedByEvent then do {
         let P = P\<lparr>stream_pair_mem_bufs := pair_erase_all mem_buf (stream_pair_mem_bufs P)\<rparr>;
         (_, P) \<leftarrow> DoFreeTensorMem (buf_addr b) P;
         Some P }
       else Some P }
     else Some P }"

fun wait_mem_bufs :: "int64 \<Rightarrow> uint32 \<times> uint32 \<Rightarrow> ptr list \<Rightarrow> 'd pool \<Rightarrow> 'd pool option" where
  "wait_mem_bufs task_id_on_stream key [] P = Some P"
| "wait_mem_bufs task_id_on_stream key (p # ps) P = do {
     P \<leftarrow> wait_mem_buf task_id_on_stream key p P;
     wait_mem_bufs task_id_on_stream key ps P }"

definition WaitEvent :: "int64 \<Rightarrow> uint32 \<Rightarrow> uint32 \<Rightarrow> 'd pool \<Rightarrow> (bool \<times> 'd pool) option" where
  "WaitEvent task_id_on_stream user_stream_id memory_stream_id P =
     (let key = (user_stream_id, memory_stream_id) in
      case map_of (stream_pair_mem_bufs P) key of
        None \<Rightarrow> Some (False, P)
      | Some mem_bufs \<Rightarrow> do {
          P \<leftarrow> wait_mem_bufs task_id_on_stream key mem_bufs P;
          Some (True, P) })"

text \<open>The overload for all user streams of a memory stream.\<close>

fun wait_pairs :: "int64 \<Rightarrow> uint32 \<Rightarrow> (uint32 \<times> uint32) list \<Rightarrow> 'd pool \<Rightarrow> 'd pool option" where
  "wait_pairs task_id_on_stream memory_stream_id [] P = Some P"
| "wait_pairs task_id_on_stream memory_stream_id (key # keys) P =
     (if snd key \<noteq> memory_stream_id then wait_pairs task_id_on_stream memory_stream_id keys P
      else do {
        mem_bufs \<leftarrow> map_of (stream_pair_mem_bufs P) key;
        P \<leftarrow> wait_mem_bufs task_id_on_stream key mem_bufs P;
        wait_pairs task_id_on_stream memory_stream_id keys P })"

definition WaitEvent_all :: "int64 \<Rightarrow> uint32 \<Rightarrow> 'd pool \<Rightarrow> (bool \<times> 'd pool) option" where
  "WaitEvent_all task_id_on_stream memory_stream_id P = do {
     P \<leftarrow> wait_pairs task_id_on_stream memory_stream_id (map fst (stream_pair_mem_bufs P)) P;
     Some (True, P) }"

fun sync_mem_bufs :: "ptr list \<Rightarrow> 'd pool \<Rightarrow> 'd pool option" where
  "sync_mem_bufs [] P = Some P"
| "sync_mem_bufs (p # ps) P = do {
     b \<leftarrow> bufs (world P) p;
     let (synced, evs) = EventBase_SyncAllEvents (buf_events b);
     w \<leftarrow> mod_buf p (\<lambda>b. b\<lparr>buf_events := evs\<rparr>) (world P);
     let P = P\<lparr>world := w\<rparr>;
     P \<leftarrow> (if synced \<and> buf_status b = kMemBufUsedByEvent
            then map_option snd (DoFreeTensorMem (buf_addr b) P) else Some P);
     sync_mem_bufs ps P }"

definition DoSyncAllEvents :: "'d pool \<Rightarrow> (bool \<times> 'd pool) option" where
  "DoSyncAllEvents P =
     (if stream_pair_mem_bufs P = [] then Some (False, P)
      else do {
        let carry_event_mem_bufs =
          foldl (\<lambda>s p. oset_emplace (<) p s) [] (concat (map snd (stream_pair_mem_bufs P)));
        P \<leftarrow> sync_mem_bufs carry_event_mem_bufs P;
        Some (True, P\<lparr>stream_pair_mem_bufs := []\<rparr>) })"

section \<open>Eager free\<close>

fun free_idle_keys ::
    "'d device \<Rightarrow> (bool \<times> uint32) list \<Rightarrow> size_t \<times> size_t \<Rightarrow> 'd pool \<Rightarrow>
     ((size_t \<times> size_t) \<times> 'd pool) option" where
  "free_idle_keys D [] acc P = Some (acc, P)"
| "free_idle_keys D (k # ks) acc P = do {
     al \<leftarrow> get_al (Keyed k) P;
     ((e, r), al, w) \<leftarrow> Allocator_FreeIdleMemsByEagerFree (callbacks_of D (config P) (Keyed k)) al (world P);
     free_idle_keys D ks (fst acc + e, snd acc + r) ((set_al (Keyed k) al P)\<lparr>world := w\<rparr>) }"

definition FreeIdleMemsByEagerFree ::
    "'d device \<Rightarrow> 'd pool \<Rightarrow> ((size_t \<times> size_t) \<times> 'd pool) option" where
  "FreeIdleMemsByEagerFree D P = do {
     let P = P\<lparr>eager_free_count := eager_free_count P + 1\<rparr>;
     ((e, r), P) \<leftarrow> free_idle_keys D (map fst (stream_id_allocators P)) (0, 0) P;
     Some ((e, r), pool_stat (\<lambda>s. s\<lparr>eager_free_size := eager_free_size s + e\<rparr>) P) }"

definition sync_streams :: "'d device \<Rightarrow> 'd pool \<Rightarrow> (bool \<times> 'd pool) option" where
  "sync_streams D P = do {
     (ok, d) \<leftarrow> SyncAllStreams D (dev (world P));
     Some (ok, P\<lparr>world := (world P)\<lparr>dev := d\<rparr>\<rparr>) }"

definition DefragMemory :: "'d device \<Rightarrow> 'd pool \<Rightarrow> 'd pool option" where
  "DefragMemory D P =
     (if \<not> enable_vmm (config P) then Some P
      else if eager_free_count P = 0 then Some P
      else if last_eager_free_count P = eager_free_count P then Some P
      else do {
        (ok, P) \<leftarrow> sync_streams D P;
        if \<not> ok then Some P
        else do {
          (_, P) \<leftarrow> FreeIdleMemsByEagerFree D P;
          Some (P\<lparr>last_eager_free_count := eager_free_count P\<rparr>) } })"

section \<open>Allocation\<close>

text \<open>
  The fall-backs of \<open>AllocMemBuf\<close>: eager free and a second try (\<open>alloc_after_eager_free\<close>), then a
  new block, then waiting for all events (\<open>alloc_after_expand\<close>).
\<close>

definition alloc_after_expand ::
    "'d device \<Rightarrow> alloc_id \<Rightarrow> size_t \<Rightarrow> 'd pool \<Rightarrow> (ptr option \<times> 'd pool) option" where
  "alloc_after_expand D i sz P = do {
     (mem_buf, P) \<leftarrow> al_MallocExpandBlock D i sz P;
     (case mem_buf of
        Some p \<Rightarrow> Some (Some p, P)
      | None \<Rightarrow> do {
          (_, P) \<leftarrow> DoSyncAllEvents P;
          al_Malloc D i sz P }) }"

definition alloc_after_eager_free ::
    "'d device \<Rightarrow> alloc_id \<Rightarrow> size_t \<Rightarrow> 'd pool \<Rightarrow> (ptr option \<times> 'd pool) option" where
  "alloc_after_eager_free D i sz P =
     (if IsEnableEagerFree D (dev (world P)) \<or> enable_vmm (config P) then do {
        (ok, P) \<leftarrow> sync_streams D P;
        if \<not> ok then Some (None, P)
        else do {
          (_, P) \<leftarrow> FreeIdleMemsByEagerFree D P;
          (mem_buf, P) \<leftarrow> al_Malloc D i sz P;
          (case mem_buf of Some p \<Rightarrow> Some (Some p, P) | None \<Rightarrow> alloc_after_expand D i sz P) } }
      else alloc_after_expand D i sz P)"

definition AllocMemBuf ::
    "'d device \<Rightarrow> size_t \<Rightarrow> bool \<Rightarrow> uint32 \<Rightarrow> 'd pool \<Rightarrow> ((ptr \<times> alloc_id) option \<times> 'd pool) option" where
  "AllocMemBuf D align_size from_persistent_mem stream_id P = do {
     let (i, P) = GetMemBufAllocator D align_size from_persistent_mem stream_id P;
     (mem_buf, P) \<leftarrow> al_Malloc D i align_size P;
     (mem_buf, i, P) \<leftarrow>
       (if mem_buf = None \<and> \<not> enable_vmm (config P) \<and> from_persistent_mem then do {
          let (i, P) = GetMemBufAllocator D align_size (\<not> from_persistent_mem) stream_id P;
          (mem_buf, P) \<leftarrow> al_Malloc D i align_size P;
          Some (mem_buf, i, P) }
        else Some (mem_buf, i, P));
     (mem_buf, P) \<leftarrow>
       (if mem_buf = None then alloc_after_eager_free D i align_size P else Some (mem_buf, P));
     (case mem_buf of
        None \<Rightarrow> Some (None, P)
      | Some p \<Rightarrow> do {
          b \<leftarrow> bufs (world P) p;
          Some (Some (p, i), pool_stat (\<lambda>s. UpdatePeakSize (s\<lparr>used_size := used_size s + buf_size b\<rparr>)) P) }) }"

definition AllocTensorMem ::
    "'d device \<Rightarrow> size_t \<Rightarrow> bool \<Rightarrow> uint32 \<Rightarrow> 'd pool \<Rightarrow> (device_ptr \<times> 'd pool) option" where
  "AllocTensorMem D sz from_persistent_mem stream_id P = do {
     let align_size = AlignMemorySize sz;
     (r, P) \<leftarrow> AllocMemBuf D align_size from_persistent_mem stream_id P;
     (case r of
        None \<Rightarrow> Some (0, P)
      | Some (p, i) \<Rightarrow> do {
          b \<leftarrow> bufs (world P) p;
          Some (buf_addr b, P\<lparr>addr_mem_buf_allocators :=
            al_emplace (buf_addr b) (p, i) (addr_mem_buf_allocators P)\<rparr>) }) }"

section \<open>Continuous allocation\<close>

text \<open>
  The loop of \<open>AllocContinuousTensorMem\<close> from the second size on: each size becomes a used buffer
  linked behind the previous one; the last one takes what the running total has left.
\<close>

fun split_continuous ::
    "size_t list \<Rightarrow> size_t \<Rightarrow> device_ptr \<Rightarrow> ptr \<Rightarrow> ptr \<Rightarrow> alloc_id \<Rightarrow> uint32 \<Rightarrow> 'd pool \<Rightarrow>
     (device_ptr list \<times> 'd pool) option" where
  "split_continuous [] total_size next_addr prev_mem_buf block i stream_id P = Some ([], P)"
| "split_continuous (sz # rest) total_size next_addr prev_mem_buf block i stream_id P = do {
     let (new_mem_buf, w) = new_buf (MemBuf sz next_addr stream_id block kMemBufUsed) (world P);
     prev \<leftarrow> bufs w prev_mem_buf;
     w \<leftarrow> Link new_mem_buf (Some prev_mem_buf) (next_buf prev) w;
     let P = P\<lparr>world := w, addr_mem_buf_allocators :=
       al_emplace next_addr (new_mem_buf, i) (addr_mem_buf_allocators P)\<rparr>;
     if rest \<noteq> [] then do {
       (addrs, P) \<leftarrow> split_continuous rest (total_size - sz) (next_addr + sz) new_mem_buf block i stream_id P;
       Some (next_addr # addrs, P) }
     else do {
       w \<leftarrow> (if total_size \<noteq> sz then mod_buf new_mem_buf (\<lambda>b. b\<lparr>buf_size := total_size\<rparr>) (world P)
              else Some (world P));
       Some ([next_addr], P\<lparr>world := w\<rparr>) } }"

text \<open>The source reads \<open>size_list[0]\<close>; for an empty list that is undefined.\<close>

definition AllocContinuousTensorMem ::
    "'d device \<Rightarrow> size_t list \<Rightarrow> uint32 \<Rightarrow> 'd pool \<Rightarrow> (device_ptr list \<times> 'd pool) option" where
  "AllocContinuousTensorMem D sizes stream_id P = do {
     let total_size = foldl (+) 0 sizes;
     (device_addr, P) \<leftarrow> AllocTensorMem D total_size False stream_id P;
     if device_addr = 0 then Some ([], P)
     else if length sizes = 1 then Some ([device_addr], P)
     else (case map_of (addr_mem_buf_allocators P) device_addr of
         None \<Rightarrow> Some ([device_addr], P)
       | Some (mem_buf, i) \<Rightarrow>
           (case sizes of
              [] \<Rightarrow> None
            | sz # rest \<Rightarrow> do {
                w \<leftarrow> mod_buf mem_buf (\<lambda>b. b\<lparr>buf_size := sz\<rparr>) (world P);
                b \<leftarrow> bufs w mem_buf;
                (addrs, P) \<leftarrow> split_continuous rest (total_size - sz) (buf_addr b + sz) mem_buf
                  (buf_mem_block b) i stream_id (P\<lparr>world := w\<rparr>);
                Some (device_addr # addrs, P) })) }"

section \<open>Partial free\<close>

text \<open>\<open>std::map<void *, \<dots>>\<close>: the candidates in address order.\<close>

type_synonym candidates = "(device_ptr \<times> (ptr \<times> alloc_id)) list"

definition cand_emplace :: "device_ptr \<Rightarrow> ptr \<times> alloc_id \<Rightarrow> candidates \<Rightarrow> candidates" where
  "cand_emplace a v = oset_emplace (\<lambda>e f. fst e < fst f) (a, v)"

text \<open>The entry before \<open>upper_bound\<close>: the last one whose key is at most the address.\<close>

definition cand_locate :: "device_ptr \<Rightarrow> candidates \<Rightarrow> (ptr \<times> alloc_id) option" where
  "cand_locate a cs = (case takeWhile (\<lambda>e. fst e \<le> a) cs of [] \<Rightarrow> None | es \<Rightarrow> Some (snd (last es)))"

fun collect_candidates :: "device_ptr list \<Rightarrow> candidates \<Rightarrow> 'd pool \<Rightarrow> candidates" where
  "collect_candidates [] cs P = cs"
| "collect_candidates (a # as) cs P =
     (case map_of (addr_mem_buf_allocators P) a of
        None \<Rightarrow> collect_candidates as cs P
      | Some v \<Rightarrow> collect_candidates as (cand_emplace a v cs) P)"

text \<open>The first split: the kept part becomes a buffer of its own.\<close>

definition split_keep ::
    "device_ptr \<Rightarrow> size_t \<Rightarrow> ptr \<Rightarrow> alloc_id \<Rightarrow> candidates \<Rightarrow> 'd pool \<Rightarrow>
     (ptr \<times> candidates \<times> 'd pool) option" where
  "split_keep keep_addr keep_size mem_buf i cs P = do {
     b \<leftarrow> bufs (world P) mem_buf;
     if keep_addr = buf_addr b then do {
       w \<leftarrow> mod_buf mem_buf (\<lambda>b. b\<lparr>buf_size := keep_size\<rparr>) (world P);
       Some (mem_buf, al_erase (buf_addr b) cs, P\<lparr>world := w\<rparr>) }
     else do {
       let (keep_mem_buf, w) = new_buf
         (MemBuf keep_size keep_addr (buf_stream_id b) (buf_mem_block b) (buf_status b)) (world P);
       w \<leftarrow> Link keep_mem_buf (Some mem_buf) (next_buf b) w;
       w \<leftarrow> mod_buf mem_buf (\<lambda>c. c\<lparr>buf_size := keep_addr - buf_addr b\<rparr>) w;
       Some (keep_mem_buf, cs, P\<lparr>world := w, addr_mem_buf_allocators :=
         al_emplace keep_addr (keep_mem_buf, i) (addr_mem_buf_allocators P)\<rparr>) } }"

text \<open>The second split: the part behind the kept one becomes a candidate again.\<close>

definition split_last ::
    "size_t \<Rightarrow> mem_buf_status \<Rightarrow> ptr \<Rightarrow> alloc_id \<Rightarrow> candidates \<Rightarrow> 'd pool \<Rightarrow>
     (candidates \<times> 'd pool) option" where
  "split_last last_size status keep_mem_buf i cs P = do {
     k \<leftarrow> bufs (world P) keep_mem_buf;
     let last_addr = buf_addr k + buf_size k;
     let (last_mem_buf, w) = new_buf
       (MemBuf last_size last_addr (buf_stream_id k) (buf_mem_block k) status) (world P);
     w \<leftarrow> Link last_mem_buf (Some keep_mem_buf) (next_buf k) w;
     Some (cand_emplace last_addr (last_mem_buf, i) cs, P\<lparr>world := w, addr_mem_buf_allocators :=
       al_emplace last_addr (last_mem_buf, i) (addr_mem_buf_allocators P)\<rparr>) }"

definition keep_one ::
    "device_ptr \<Rightarrow> size_t option \<Rightarrow> candidates \<Rightarrow> 'd pool \<Rightarrow> (ptr option \<times> candidates \<times> 'd pool) option" where
  "keep_one keep_addr size_entry cs P =
     (case cand_locate keep_addr cs of
        None \<Rightarrow> Some (None, cs, P)
      | Some (mem_buf, i) \<Rightarrow> do {
          b \<leftarrow> bufs (world P) mem_buf;
          let base_end = buf_addr b + buf_size b;
          keep_size \<leftarrow> size_entry;
          let keep_end = keep_addr + keep_size;
          if base_end \<le> keep_addr then Some (None, cs, P)
          else do {
            (keep_mem_buf, cs, P) \<leftarrow> split_keep keep_addr keep_size mem_buf i cs P;
            (cs, P) \<leftarrow> (if keep_end < base_end
               then split_last (base_end - keep_end) (buf_status b) keep_mem_buf i cs P
               else Some (cs, P));
            Some (Some keep_mem_buf, cs, P) } })"

fun keep_all ::
    "(device_ptr \<times> size_t option) list \<Rightarrow> device_ptr set \<Rightarrow> candidates \<Rightarrow> 'd pool \<Rightarrow>
     (ptr list \<times> candidates \<times> 'd pool) option" where
  "keep_all [] processed cs P = Some ([], cs, P)"
| "keep_all ((a, n) # ks) processed cs P =
     (if a \<in> processed then keep_all ks processed cs P
      else do {
        (r, cs, P) \<leftarrow> keep_one a n cs P;
        (ps, cs, P) \<leftarrow> keep_all ks (insert a processed) cs P;
        Some ((case r of None \<Rightarrow> ps | Some p \<Rightarrow> p # ps), cs, P) })"

fun free_candidates :: "candidates \<Rightarrow> 'd pool \<Rightarrow> 'd pool option" where
  "free_candidates [] P = Some P"
| "free_candidates ((a, (mem_buf, i)) # cs) P = do {
     b \<leftarrow> bufs (world P) mem_buf;
     (_, P) \<leftarrow> DoFreeTensorMem (buf_addr b) P;
     free_candidates cs P }"

text \<open>
  \<open>keep_addr_sizes[i]\<close> is read for every kept address that is located; an index past the end is
  undefined behaviour, so the missing sizes are \<open>None\<close>.
\<close>

definition DoFreePartTensorMems ::
    "device_ptr list \<Rightarrow> device_ptr list \<Rightarrow> size_t list \<Rightarrow> 'd pool \<Rightarrow> (ptr list \<times> 'd pool) option" where
  "DoFreePartTensorMems free_addrs keep_addrs keep_addr_sizes P = do {
     let cs = collect_candidates free_addrs [] P;
     (mem_bufs, cs, P) \<leftarrow> keep_all
       (zip keep_addrs (map Some keep_addr_sizes @ replicate (length keep_addrs) None)) {} cs P;
     P \<leftarrow> free_candidates cs P;
     Some (mem_bufs, P) }"

definition FreePartTensorMems ::
    "device_ptr list \<Rightarrow> device_ptr list \<Rightarrow> size_t list \<Rightarrow> 'd pool \<Rightarrow> 'd pool option" where
  "FreePartTensorMems free_addrs keep_addrs keep_addr_sizes P =
     map_option snd (DoFreePartTensorMems free_addrs keep_addrs keep_addr_sizes P)"

section \<open>Release\<close>

fun release_keys :: "'d device \<Rightarrow> (bool \<times> uint32) list \<Rightarrow> 'd pool \<Rightarrow> 'd pool option" where
  "release_keys D [] P = Some P"
| "release_keys D (k # ks) P = do {
     al \<leftarrow> get_al (Keyed k) P;
     (al, w) \<leftarrow> Allocator_ReleaseDeviceRes (callbacks_of D (config P) (Keyed k)) al (world P);
     release_keys D ks ((set_al (Keyed k) al P)\<lparr>world := w\<rparr>) }"

definition ReleaseDeviceRes :: "'d device \<Rightarrow> 'd pool \<Rightarrow> 'd pool option" where
  "ReleaseDeviceRes D P = do {
     w \<leftarrow> delete_bufs (map (fst \<circ> snd) (addr_mem_buf_allocators P)) (world P);
     let P = P\<lparr>world := w, addr_mem_buf_allocators := []\<rparr>;
     P \<leftarrow> release_keys D (map fst (stream_id_allocators P)) P;
     Some (pool_stat (\<lambda>_. MemStat_Reset) (P\<lparr>stream_id_allocators := [], stream_pair_mem_bufs := []\<rparr>)) }"

section \<open>Statistics\<close>

definition TotalMemStatistics :: "'d pool \<Rightarrow> size_t" where
  "TotalMemStatistics P = alloc_size (mem_stat_of P)"

definition TotalUsedMemStatistics :: "'d pool \<Rightarrow> size_t" where
  "TotalUsedMemStatistics P = used_size (mem_stat_of P)"

definition TotalUsedByEventMemStatistics :: "'d pool \<Rightarrow> size_t" where
  "TotalUsedByEventMemStatistics P = used_by_event_size (mem_stat_of P)"

definition TotalIdleMemStatistics :: "'d pool \<Rightarrow> size_t" where
  "TotalIdleMemStatistics P = IdleSize (mem_stat_of P)"

definition TotalEagerFreeMemStatistics :: "'d pool \<Rightarrow> size_t" where
  "TotalEagerFreeMemStatistics P = eager_free_size (mem_stat_of P)"

definition UsedMemPeakStatistics :: "'d pool \<Rightarrow> size_t" where
  "UsedMemPeakStatistics P = peak_size (mem_stat_of P)"

definition MaxMemAllocatedStatistics :: "'d pool \<Rightarrow> size_t" where
  "MaxMemAllocatedStatistics P = temp_peak_size (mem_stat_of P)"

definition MaxMemReservedStatistics :: "'d pool \<Rightarrow> size_t" where
  "MaxMemReservedStatistics P = alloc_size (mem_stat_of P) - temp_alloc_size (mem_stat_of P)"

fun sum_peaks :: "((bool \<times> uint32) \<times> allocator) list \<Rightarrow> 'd world \<Rightarrow> size_t option" where
  "sum_peaks [] w = Some 0"
| "sum_peaks (e # es) w = do {
     n \<leftarrow> Allocator_ActualPeakSize (snd e) w;
     m \<leftarrow> sum_peaks es w;
     Some (n + m) }"

definition ActualPeakStatistics :: "'d device \<Rightarrow> 'd pool \<Rightarrow> size_t option" where
  "ActualPeakStatistics D P =
     (if enable_vmm (config P) then Some (GetVmmUsedMemSize D (dev (world P)))
      else sum_peaks (stream_id_allocators P) (world P))"

text \<open>\<open>BlockCountsStatistics\<close> and \<open>BlockUnitSizeStatistics\<close>: the persistent and the common figure.\<close>

definition BlockCountsStatistics :: "'d pool \<Rightarrow> nat \<times> nat" where
  "BlockCountsStatistics P =
     (sum_list (map (\<lambda>e. length (mem_blocks (snd e))) (filter (fst \<circ> fst) (stream_id_allocators P))),
      sum_list (map (\<lambda>e. length (mem_blocks (snd e))) (filter (Not \<circ> fst \<circ> fst) (stream_id_allocators P))))"

definition BlockUnitSizeStatistics :: "'d pool \<Rightarrow> size_t \<times> size_t" where
  "BlockUnitSizeStatistics P = (persist_unit_size (config P), common_unit_size (config P))"

text \<open>For each block its address, size and stream; a later block of the same address overwrites.\<close>

fun blocks_info ::
    "ptr list \<Rightarrow> (device_ptr \<times> (size_t \<times> uint32)) list \<Rightarrow> 'd world \<Rightarrow>
     (device_ptr \<times> (size_t \<times> uint32)) list option" where
  "blocks_info [] m w = Some m"
| "blocks_info (b # bs) m w = do {
     k \<leftarrow> blks w b;
     blocks_info bs (al_set (block_addr k) (block_size k, block_stream_id k) m) w }"

definition MemBlocksInfoStatistics ::
    "bool \<Rightarrow> 'd pool \<Rightarrow> (device_ptr \<times> (size_t \<times> uint32)) list option" where
  "MemBlocksInfoStatistics persistent P =
     blocks_info (concat (map (mem_blocks \<circ> snd)
       (filter (\<lambda>e. fst (fst e) = persistent) (stream_id_allocators P)))) [] (world P)"

definition CommonMemBlocksInfoStatistics :: "'d pool \<Rightarrow> (device_ptr \<times> (size_t \<times> uint32)) list option" where
  "CommonMemBlocksInfoStatistics = MemBlocksInfoStatistics False"

definition PersistentMemBlocksInfoStatistics ::
    "'d pool \<Rightarrow> (device_ptr \<times> (size_t \<times> uint32)) list option" where
  "PersistentMemBlocksInfoStatistics = MemBlocksInfoStatistics True"

definition ResetMaxMemReserved :: "'d pool \<Rightarrow> 'd pool" where
  "ResetMaxMemReserved = pool_stat (\<lambda>s. s\<lparr>temp_alloc_size := alloc_size s\<rparr>)"

definition ResetMaxMemAllocated :: "'d pool \<Rightarrow> 'd pool" where
  "ResetMaxMemAllocated = pool_stat (\<lambda>s. s\<lparr>temp_used_size := used_size s,
     temp_used_by_event_size := used_by_event_size s, temp_peak_size := 0\<rparr>)"

section \<open>Time events\<close>

text \<open>
  \<open>AbstractEnhancedDynamicMemPool\<close>: snapshots of the statistics. The clock value and the
  thread's debug information are arguments.
\<close>

record allocator_debug_info =
  debug_name :: string
  debug_type :: allocator_type
  debug_run_mode :: "8 word"

record memory_time_event =
  created_at :: "64 word"
  te_addr :: device_ptr
  te_size :: size_t
  te_used_size :: size_t
  te_peak_size :: size_t
  te_alloc_size :: size_t
  te_used_by_event_size :: size_t
  te_eager_free_size :: size_t
  te_from_persistent :: "8 word"
  te_is_persistent :: "8 word"
  te_run_mode :: "8 word"
  te_alloc_type :: "8 word option"
  te_stream_id :: uint32
  te_owner :: string

fun alloc_type_code :: "allocator_type \<Rightarrow> 8 word" where
  "alloc_type_code kWeight = 0"
| "alloc_type_code kConstantValue = 1"
| "alloc_type_code kKernelOutput = 2"
| "alloc_type_code kGraphOutput = 3"
| "alloc_type_code kWorkspace = 4"
| "alloc_type_code kOther = 5"

text \<open>The default member values; \<open>alloc_type_\<close> has none, so it is indeterminate (\<open>None\<close>).\<close>

definition MemoryTimeEvent :: memory_time_event where
  "MemoryTimeEvent =
     \<lparr>created_at = 0, te_addr = 0, te_size = 0, te_used_size = 0, te_peak_size = 0,
      te_alloc_size = 0, te_used_by_event_size = 0, te_eager_free_size = 0,
      te_from_persistent = 0, te_is_persistent = 0, te_run_mode = 0, te_alloc_type = None,
      te_stream_id = 0, te_owner = []\<rparr>"

definition stat_snapshot :: "mem_stat \<Rightarrow> memory_time_event \<Rightarrow> memory_time_event" where
  "stat_snapshot s e = e\<lparr>te_used_size := used_size s, te_peak_size := peak_size s,
     te_alloc_size := alloc_size s, te_used_by_event_size := used_by_event_size s,
     te_eager_free_size := eager_free_size s\<rparr>"

definition GenAllocateMemoryTimeEvent ::
    "64 word \<Rightarrow> allocator_debug_info \<Rightarrow> device_ptr \<Rightarrow> size_t \<Rightarrow> uint32 \<Rightarrow> bool \<Rightarrow> bool \<Rightarrow> 'd pool \<Rightarrow>
     memory_time_event" where
  "GenAllocateMemoryTimeEvent now dbg addr sz stream_id from_persistent persistent P =
     stat_snapshot (mem_stat_of P)
       (MemoryTimeEvent\<lparr>created_at := now, te_addr := addr, te_size := sz,
          te_from_persistent := of_bool from_persistent, te_is_persistent := of_bool persistent,
          te_stream_id := stream_id, te_run_mode := debug_run_mode dbg,
          te_owner := debug_name dbg, te_alloc_type := Some (alloc_type_code (debug_type dbg))\<rparr>)"

definition GenFreeMemoryTimeEvent :: "64 word \<Rightarrow> device_ptr \<Rightarrow> 'd pool \<Rightarrow> memory_time_event" where
  "GenFreeMemoryTimeEvent now addr P =
     stat_snapshot (mem_stat_of P) (MemoryTimeEvent\<lparr>created_at := now, te_addr := addr, te_size := - 1\<rparr>)"

lemmas pool_exec = mod_stat_def pool_stat_def get_al_def set_al_def MemAllocUnitSize_def make_block_def
  tiny_expander_def keyed_expander_def pool_cleaner_def pool_mapper_def pool_eager_freer_def callbacks_of_def
  AbstractDynamicMemPool_def GenerateAllocator_def alloc_key_less_def GetMemBufAllocator_def al_Malloc_def
  al_MallocExpandBlock_def al_Free_def DoFreeTensorMem_def FreeTensorMem_def alloc_after_expand_def
  alloc_after_eager_free_def AllocMemBuf_def AllocTensorMem_def SetEnableVmm_def CalMemBlockAllocSize_def
  AlignMemorySize_def grow_double_done MemStat_Reset_def UpdatePeakSize_def al_emplace_def
  pair_emplace_def pair_erase_def pair_erase_all_def wait_mem_buf_def WaitEvent_def DoSyncAllEvents_def
  IsEventNotUsed_def EventBase_RecordEvent_def EventBase_WaitEvent_def EventBase_SyncAllEvents_def task_done_def

end
