(* ===== verification/Mem_Device.thy ===== *)
theory Mem_Device
  imports Mem_Alloc_Free Mem_Pool
begin

text \<open>
  What the pool relies on of its device operations, as a locale, and the proof that the callbacks
  the pool hands to its allocators then satisfy the allocators' contract.
\<close>

section \<open>The size of a new block\<close>

lemma grow_double_bound:
  assumes "0 < a" "sz \<le> 2 ^ 63" "grow_double a sz = Some r"
  shows "r = a \<or> unat r < 2 * unat sz"
  using assms
proof (induction "unat sz - unat a" arbitrary: a rule: less_induct)
  case less
  show ?case
  proof (cases "a < sz")
    case True
    have small: "unat a < unat sz" "unat sz \<le> 2 ^ 63" "0 < unat a"
      using True less.prems by (simp_all add: word_less_nat_alt word_le_nat_alt)
    have dbl: "unat (a * 2) = unat a * 2"
      using small by (simp add: unat_word_ariths)
    have "grow_double (a * 2) sz = Some r"
      using less.prems(3) True by (subst (asm) grow_double.simps) simp
    then have "r = a * 2 \<or> unat r < 2 * unat sz"
      using less.prems small dbl by (intro less.hyps) (simp_all add: dbl word_less_nat_alt)
    with dbl small show ?thesis by auto
  next
    case False
    with less.prems(3) show ?thesis by (subst (asm) grow_double.simps) simp
  qed
qed

lemma CalMemBlockAllocSize_total:
  assumes "0 < u" "sz \<le> 2 ^ 63" "unat u \<le> lim" "2 * unat sz \<le> lim"
  shows "\<exists>n. CalMemBlockAllocSize free u sz = Some n \<and> unat n \<le> lim \<and>
    (sz \<le> free \<longrightarrow> sz \<le> n)"
proof (cases "free < sz")
  case True
  then show ?thesis by (auto simp: CalMemBlockAllocSize_def)
next
  case False
  obtain r where r: "grow_double u sz = Some r" "sz \<le> r"
    using grow_double_returns [OF assms(1,2)] by blast
  have "unat r \<le> lim" using grow_double_bound [OF assms(1,2) r(1)] assms(3,4) by auto
  moreover have "unat (min r free) \<le> unat r" by (simp add: word_le_nat_alt [symmetric])
  ultimately show ?thesis
    using r False by (auto simp: CalMemBlockAllocSize_def Let_def not_less)
qed

section \<open>The contract of a device\<close>

text \<open>
  \<open>dinv i d E\<close>: the device is in order, the ranges in \<open>E\<close> are handed out, and there is room for
  \<open>i\<close> more ranges of at most \<open>lim\<close> bytes.
\<close>

definition reserves ::
    "(nat \<Rightarrow> 'd \<Rightarrow> seg set \<Rightarrow> bool) \<Rightarrow> nat \<Rightarrow> seg set \<Rightarrow> ((size_t \<times> device_ptr) \<times> 'd) option \<Rightarrow> bool" where
  "reserves dinv i E r \<longleftrightarrow> (\<exists>n a d'. r = Some ((n, a), d') \<and>
     (n = 0 \<and> dinv (Suc i) d' E \<or>
      0 < n \<and> unat a + unat n < 2 ^ 64 \<and> (\<forall>e \<in> E. seg_range e \<inter> seg_range (a, n) = {}) \<and>
        dinv i d' (insert (a, n) E)))"

locale mem_device =
  fixes D :: "'d device" and dinv :: "nat \<Rightarrow> 'd \<Rightarrow> seg set \<Rightarrow> bool" and lim :: nat
  assumes alloc: "\<lbrakk>dinv (Suc i) d E; 0 < s; unat s \<le> lim\<rbrakk> \<Longrightarrow> reserves dinv i E (AllocDeviceMem D s d)"
    and alloc_eager: "\<lbrakk>dinv (Suc i) d E; 0 < s; unat s \<le> lim\<rbrakk> \<Longrightarrow>
      reserves dinv i E (AllocDeviceMemByEagerFree D s d)"
    and total_lim: "dinv i d E \<Longrightarrow> unat (total_mem_size D d) \<le> lim"
    and free_dev: "dinv i d E \<Longrightarrow> \<exists>r d'. FreeDeviceMem D a d = Some (r, d') \<and> dinv i d' E"
    and mmap_dev: "dinv i d E \<Longrightarrow> \<exists>r d'. MmapDeviceMem D s a d = Some (r, d') \<and> dinv i d' E"
    and eager_dev: "dinv i d E \<Longrightarrow> \<exists>r d'. FreeDeviceMemByEagerFree D a s d = Some (r, d') \<and> dinv i d' E"
    and sync_dev: "dinv i d E \<Longrightarrow> \<exists>r d'. SyncAllStreams D d = Some (r, d') \<and> dinv i d' E"
    and weaken: "\<lbrakk>dinv i d E; j \<le> i; E' \<subseteq> E\<rbrakk> \<Longrightarrow> dinv j d E'"

text \<open>A device together with pool settings whose unit sizes the device can serve.\<close>

locale pool_device = mem_device D dinv lim
  for D :: "'d device" and dinv :: "nat \<Rightarrow> 'd \<Rightarrow> seg set \<Rightarrow> bool" and lim :: nat +
  fixes C :: pool_config
  assumes units: "0 < common_unit_size C" "0 < persist_unit_size C"
      "unat (common_unit_size C) \<le> lim" "unat (persist_unit_size C) \<le> lim"
    and lim: "2 ^ 20 \<le> lim" "lim < 2 ^ 64"

definition world_inv :: "(nat \<Rightarrow> 'd \<Rightarrow> seg set \<Rightarrow> bool) \<Rightarrow> nat \<Rightarrow> 'd world \<Rightarrow> bool" where
  "world_inv dinv i w \<longleftrightarrow> dinv i (dev w) (ran (blk_ext w))"

lemma mod_stat_simps [simp]:
  "bufs (mod_stat f w) = bufs w" "blks (mod_stat f w) = blks w" "fresh (mod_stat f w) = fresh w"
  "dev (mod_stat f w) = dev w" "stat (mod_stat f w) = f (stat w)" "blk_ext (mod_stat f w) = blk_ext w"
  by (simp_all add: mod_stat_def)

lemma ran_subset: "m \<subseteq>\<^sub>m m' \<Longrightarrow> ran m \<subseteq> ran m'"
  unfolding map_le_def ran_def dom_def by force

context pool_device
begin

lemma make_block_ok:
  assumes r: "reserves dinv i (ran (blk_ext w)) (Some ((n, a), d'))"
    and w': "bufs w' = bufs w" "blks w' = blks w" "fresh w' = fresh w" "dev w' = d'" "stat_frame w w'"
  shows "(\<exists>w''. make_block n a sid w' = (None, w'') \<and> world_inv dinv (Suc i) w'' \<and> same_objects w w'') \<or>
    (\<exists>w'' k. make_block n a sid w' = (Some (fresh w), w'') \<and> world_inv dinv i w'' \<and>
      bufs w'' = bufs w \<and> fresh w'' = Suc (fresh w) \<and> blks w'' = (blks w)(fresh w \<mapsto> k) \<and>
      stat_frame w w'' \<and> good_block w k)"
proof (cases "n = 0")
  case True
  have "blk_ext w' = blk_ext w" using w' by (simp add: blk_ext_def fun_eq_iff)
  with True r w' show ?thesis
    by (auto simp: make_block_def reserves_def world_inv_def same_objects_def)
next
  case False
  let ?k = "MemBlock n a sid"
  define w'' where "w'' = snd (make_block n a sid w')"
  have mk: "make_block n a sid w' = (Some (fresh w), w'')"
    using False w' by (simp add: make_block_def new_block_def Let_def w''_def)
  have f: "bufs w'' = bufs w" "fresh w'' = Suc (fresh w)" "blks w'' = (blks w)(fresh w \<mapsto> ?k)" "dev w'' = d'"
    using False w' by (simp_all add: make_block_def new_block_def Let_def w''_def)
  have "stat w'' = (stat w')\<lparr>alloc_size := alloc_size (stat w') + n\<rparr>"
    using False by (simp add: make_block_def new_block_def Let_def w''_def)
  then have sf: "stat_frame w w''"
    using w'(5) by (cases "stat w"; cases "stat w'"; cases "stat w''") (simp add: stat_frame_def)
  have "blk_ext w'' = (blk_ext w)(fresh w \<mapsto> (a, n))"
    using f(3) by (simp add: blk_ext_def fun_eq_iff)
  then have "ran (blk_ext w'') \<subseteq> insert (a, n) (ran (blk_ext w))"
    by (auto simp: ran_def split: if_splits)
  then have "world_inv dinv i w''"
    using r False f(4) by (auto simp: reserves_def world_inv_def intro: weaken)
  moreover have "good_block w ?k"
    using r False by (auto simp: reserves_def good_block_def ran_def)
  ultimately show ?thesis using mk f sf by blast
qed

lemma stat_frame_eager:
  "stat_frame w (mod_stat (\<lambda>s. s\<lparr>eager_free_size := f s\<rparr>) (w\<lparr>dev := d\<rparr>))"
  "stat_frame w (mod_stat (\<lambda>s. s\<lparr>alloc_size := g s\<rparr>) w)"
  by (cases "stat w"; simp add: stat_frame_def)+

lemma provider: "block_provider (callbacks_of D C k) (world_inv dinv) (\<lambda>s. 2 * unat s \<le> lim)"
proof
  fix i w s a
  assume inv: "world_inv dinv i w"
  show "\<exists>n w'. mem_mapper (callbacks_of D C k) s a w = Some (n, w') \<and> world_inv dinv i w' \<and> same_objects w w'"
    using mmap_dev [of i "dev w" "ran (blk_ext w)" s a] inv stat_frame_eager(1)
    by (auto simp: callbacks_of_def pool_mapper_def Let_def world_inv_def same_objects_def stat_frame_def)
  show "\<exists>n w'. mem_eager_freer (callbacks_of D C k) a s w = Some (n, w') \<and> world_inv dinv i w' \<and> same_objects w w'"
    using eager_dev [of i "dev w" "ran (blk_ext w)" a s] inv
    by (auto simp: callbacks_of_def pool_eager_freer_def world_inv_def same_objects_def)
next
  fix i w b kb
  assume inv: "world_inv dinv i w" and b: "blks w b = Some kb"
  show "\<exists>r w'. mem_block_cleaner (callbacks_of D C k) b w = Some (r, w') \<and> world_inv dinv i w' \<and> same_objects w w'"
    using free_dev [of i "dev w" "ran (blk_ext w)" "block_addr kb"] inv b stat_frame_eager(2)
    by (auto simp: callbacks_of_def pool_cleaner_def Let_def world_inv_def same_objects_def stat_frame_def)
next
  fix i w and s :: size_t
  assume inv: "world_inv dinv (Suc i) w" and req: "2 * unat s \<le> lim"
  let ?post = "\<lambda>r. \<exists>mb w''. r = Some (mb, w'') \<and>
    (mb = None \<and> world_inv dinv (Suc i) w'' \<and> same_objects w w'' \<or>
     mb = Some (fresh w) \<and> (\<exists>k. world_inv dinv i w'' \<and> bufs w'' = bufs w \<and> fresh w'' = Suc (fresh w) \<and>
       blks w'' = (blks w)(fresh w \<mapsto> k) \<and> stat_frame w w'' \<and> good_block w k))"
  have di: "dinv (Suc i) (dev w) (ran (blk_ext w))" using inv by (simp add: world_inv_def)
  have plain: "?post (do { ((n, a), d) \<leftarrow> AllocDeviceMem D t (dev w); Some (make_block n a sid (w\<lparr>dev := d\<rparr>)) })"
    if t: "0 < t" "unat t \<le> lim" for t sid
  proof -
    obtain n a d where r: "AllocDeviceMem D t (dev w) = Some ((n, a), d)"
        "reserves dinv i (ran (blk_ext w)) (Some ((n, a), d))"
      using alloc [OF di t] unfolding reserves_def by blast
    from make_block_ok [OF r(2), of "w\<lparr>dev := d\<rparr>" sid] r(1) show ?thesis by fastforce
  qed
  have eager: "?post (do { ((n, a), d) \<leftarrow> AllocDeviceMemByEagerFree D t (dev w);
      Some (make_block n a sid (mod_stat (\<lambda>s. s\<lparr>eager_free_size := eager_free_size s + n\<rparr>) (w\<lparr>dev := d\<rparr>))) })"
    if t: "0 < t" "unat t \<le> lim" for t sid
  proof -
    obtain n a d where r: "AllocDeviceMemByEagerFree D t (dev w) = Some ((n, a), d)"
        "reserves dinv i (ran (blk_ext w)) (Some ((n, a), d))"
      using alloc_eager [OF di t] unfolding reserves_def by blast
    from make_block_ok [OF r(2), of "mod_stat (\<lambda>s. s\<lparr>eager_free_size := eager_free_size s + n\<rparr>) (w\<lparr>dev := d\<rparr>)" sid]
      stat_frame_eager(1) [of w _ d] r(1)
    show ?thesis by fastforce
  qed
  have "?post (mem_block_expander (callbacks_of D C k) s w)"
  proof (cases k)
    case Tiny
    have "0 < (1048576 :: size_t)" "unat (1048576 :: size_t) \<le> lim" using lim by simp_all
    from plain [OF this, of 0] Tiny show ?thesis
      by (simp add: callbacks_of_def tiny_expander_def)
  next
    case (Keyed pk)
    obtain p sid where pk: "pk = (p, sid)" by force
    have s63: "s \<le> 2 ^ 63" using req lim by (simp add: word_le_nat_alt)
    have u: "0 < MemAllocUnitSize p C" "unat (MemAllocUnitSize p C) \<le> lim"
      using units by (simp_all add: MemAllocUnitSize_def)
    obtain n where n: "CalMemBlockAllocSize (free_mem_size D (dev w)) (MemAllocUnitSize p C) s = Some n"
        "unat n \<le> lim"
      using CalMemBlockAllocSize_total [OF u(1) s63 u(2) req] by blast
    have ex: "mem_block_expander (callbacks_of D C k) s w = keyed_expander D C p sid s w"
      using Keyed pk by (simp add: callbacks_of_def)
    consider "n = 0" | "n \<noteq> 0" "IsEnableEagerFree D (dev w) \<or> enable_vmm C"
      | "n \<noteq> 0" "\<not> (IsEnableEagerFree D (dev w) \<or> enable_vmm C)" by blast
    then show ?thesis
    proof cases
      case 1
      with n inv ex show ?thesis by (auto simp: keyed_expander_def same_objects_def)
    next
      case 2
      let ?t = "max n (total_mem_size D (dev w))"
      have "unat ?t \<le> lim" using n(2) total_lim [OF di] by (simp add: max_def)
      moreover have "0 < ?t" using 2(1) by (simp add: word_greater_zero_iff less_max_iff_disj)
      ultimately show ?thesis using eager [of ?t sid] n(1) 2 ex by (simp add: keyed_expander_def Let_def)
    next
      case 3
      then have "0 < n" by (simp add: word_greater_zero_iff)
      from plain [OF this n(2), of sid] n(1) 3 ex show ?thesis by (simp add: keyed_expander_def)
    qed
  qed
  then show "(\<exists>w'. mem_block_expander (callbacks_of D C k) s w = Some (None, w') \<and> world_inv dinv (Suc i) w' \<and>
      same_objects w w') \<or>
    (\<exists>w' ka. mem_block_expander (callbacks_of D C k) s w = Some (Some (fresh w), w') \<and> world_inv dinv i w' \<and>
      bufs w' = bufs w \<and> fresh w' = Suc (fresh w) \<and> blks w' = (blks w)(fresh w \<mapsto> ka) \<and>
      stat_frame w w' \<and> good_block w ka)"
    by blast
next
  fix i w
  assume "world_inv dinv (Suc i) w"
  then show "world_inv dinv i w" by (auto simp: world_inv_def intro: weaken)
next
  fix i and w w' :: "'d world"
  assume "world_inv dinv i w" "dev w' = dev w" "blk_ext w' \<subseteq>\<^sub>m blk_ext w"
  then show "world_inv dinv i w'"
    using ran_subset by (auto simp: world_inv_def intro: weaken)
qed

end

sublocale pool_device \<subseteq> prov: block_provider "callbacks_of D C k" "world_inv dinv" "\<lambda>s. 2 * unat s \<le> lim" for k
  by (rule provider)

end
