(* ===== verification/Mem_Pool_Inv.thy ===== *)
theory Mem_Pool_Inv
  imports Mem_Device
begin

text \<open>
  The invariant of the pool: its allocators share one layout of disjoint blocks, the address map
  lists exactly the buffers in use, and the statistics count their bytes.
\<close>

section \<open>The allocators of a pool\<close>

definition ids :: "'d pool \<Rightarrow> alloc_id list" where
  "ids P = (case tiny_allocator P of None \<Rightarrow> [] | Some _ \<Rightarrow> [Tiny]) @
     map (Keyed \<circ> fst) (stream_id_allocators P)"

type_synonym pool_layout = "alloc_id \<Rightarrow> layout"

definition whole :: "pool_layout \<Rightarrow> 'd pool \<Rightarrow> layout" where
  "whole lay P = concat (map lay (ids P))"

definition al_ok :: "buf_heap \<Rightarrow> layout \<Rightarrow> allocator \<Rightarrow> bool" where
  "al_ok h L al \<longleftrightarrow> map fst L = mem_blocks al \<and> sets_rep {} h al (set (ptrs L)) \<and>
     (\<forall>(b, ps) \<in> set L. coalesced h ps)"

lemma alloc_state_al_ok:
  "alloc_state w LA L LB al \<longleftrightarrow> layout_rep w (LA @ L @ LB) \<and> al_ok (bufs w) L al"
  by (auto simp: alloc_state_def al_ok_def)

lemma al_ok_cong:
  assumes ok: "al_ok h L al" and same: "\<And>p. p \<in> set (ptrs L) \<Longrightarrow> h' p = h p"
  shows "al_ok h' L al"
proof -
  have st: "status_of h' p = status_of h p" if "p \<in> set (ptrs L)" for p
    using same [OF that] by (simp add: status_of_def)
  have "sets_rep {} h' al (set (ptrs L))"
    using ok [unfolded al_ok_def, THEN conjunct2, THEN conjunct1]
    by (rule sets_rep_cong) (use same in auto)
  moreover have "coalesced h' ps" if "(b, ps) \<in> set L" for b ps
  proof -
    have "coalesced h ps" using ok that by (auto simp: al_ok_def)
    moreover have "status_of h' p = status_of h p" if "p \<in> set ps" for p
      by (rule st) (use that \<open>(b, ps) \<in> set L\<close> in \<open>auto simp: in_ptrs\<close>)
    ultimately show ?thesis using coalesced_cong [of ps h' h] by blast
  qed
  ultimately show ?thesis using ok by (auto simp: al_ok_def)
qed

definition pool_rep :: "'d pool \<Rightarrow> pool_layout \<Rightarrow> bool" where
  "pool_rep P lay \<longleftrightarrow> distinct (map fst (stream_id_allocators P)) \<and>
     layout_rep (world P) (whole lay P) \<and>
     (\<forall>i \<in> set (ids P). \<exists>al. get_al i P = Some al \<and> al_ok (bufs (world P)) (lay i) al)"

lemma ids_distinct: "distinct (map fst (stream_id_allocators P)) \<Longrightarrow> distinct (ids P)"
  by (auto simp: ids_def distinct_map inj_on_def split: option.splits)

lemma get_al_ids: "i \<in> set (ids P) \<longleftrightarrow> get_al i P \<noteq> None"
  by (cases i; cases "tiny_allocator P") (auto simp: ids_def get_al_def map_of_eq_None_iff image_iff)

lemma al_set_map_fst: "k \<in> fst ` set m \<Longrightarrow> map fst (al_set k v m) = map fst m"
  by (induction m) auto

lemma ids_set_al: "i \<in> set (ids P) \<Longrightarrow> ids (set_al i al P) = ids P"
  by (cases i; cases "tiny_allocator P")
    (auto simp: ids_def set_al_def al_set_map_fst image_iff map_map [symmetric] simp del: map_map)

lemma get_set_al: "get_al j (set_al i al P) = (if j = i then Some al else get_al j P)"
  by (cases i; cases j) (auto simp: get_al_def set_al_def)

lemma set_al_frame [simp]:
  "world (set_al i al P) = world P" "config (set_al i al P) = config P"
  "addr_mem_buf_allocators (set_al i al P) = addr_mem_buf_allocators P"
  "stream_pair_mem_bufs (set_al i al P) = stream_pair_mem_bufs P"
  by (cases i; simp add: set_al_def)+

lemma distinct_set_al:
  "distinct (map fst (stream_id_allocators P)) \<Longrightarrow> distinct (map fst (stream_id_allocators (set_al i al P)))"
  by (cases i) (simp_all add: set_al_def)

lemma ids_world [simp]:
  "ids (P\<lparr>world := w\<rparr>) = ids P" "ids (P\<lparr>addr_mem_buf_allocators := m\<rparr>) = ids P"
  "ids (P\<lparr>stream_pair_mem_bufs := s\<rparr>) = ids P" "ids (P\<lparr>eager_free_count := n\<rparr>) = ids P"
  "ids (P\<lparr>last_eager_free_count := n\<rparr>) = ids P" "ids (pool_stat f P) = ids P"
  by (simp_all add: ids_def pool_stat_def)

lemma get_al_world [simp]:
  "get_al i (P\<lparr>world := w\<rparr>) = get_al i P" "get_al i (P\<lparr>addr_mem_buf_allocators := m\<rparr>) = get_al i P"
  "get_al i (P\<lparr>stream_pair_mem_bufs := s\<rparr>) = get_al i P" "get_al i (P\<lparr>eager_free_count := n\<rparr>) = get_al i P"
  "get_al i (P\<lparr>last_eager_free_count := n\<rparr>) = get_al i P" "get_al i (pool_stat f P) = get_al i P"
  by (cases i; simp add: get_al_def pool_stat_def)+

lemma pool_stat_simps [simp]:
  "world (pool_stat f P) = mod_stat f (world P)" "config (pool_stat f P) = config P"
  "addr_mem_buf_allocators (pool_stat f P) = addr_mem_buf_allocators P"
  "stream_pair_mem_bufs (pool_stat f P) = stream_pair_mem_bufs P"
  "stream_id_allocators (pool_stat f P) = stream_id_allocators P"
  by (simp_all add: pool_stat_def)

text \<open>Taking one allocator out of the pool and putting it back.\<close>

lemma pool_split:
  assumes rep: "pool_rep P lay" and i: "i \<in> set (ids P)"
  obtains xs ys al where "ids P = xs @ i # ys" "i \<notin> set xs" "i \<notin> set ys" "get_al i P = Some al"
    "alloc_state (world P) (concat (map lay xs)) (lay i) (concat (map lay ys)) al"
proof -
  obtain xs ys where xy: "ids P = xs @ i # ys" using i by (meson split_list)
  have "distinct (ids P)" using rep by (simp add: pool_rep_def ids_distinct)
  then have "i \<notin> set xs" "i \<notin> set ys" using xy by auto
  moreover obtain al where "get_al i P = Some al" "al_ok (bufs (world P)) (lay i) al"
    using rep i by (auto simp: pool_rep_def)
  moreover have "layout_rep (world P) (concat (map lay xs) @ lay i @ concat (map lay ys))"
    using rep xy by (simp add: pool_rep_def whole_def)
  ultimately show ?thesis using that xy by (simp add: alloc_state_al_ok)
qed

lemma pool_join:
  assumes rep: "pool_rep P lay" and xy: "ids P = xs @ i # ys" "i \<notin> set xs" "i \<notin> set ys"
    and st: "alloc_state w' (concat (map lay xs)) L' (concat (map lay ys)) al'"
    and frame: "\<And>r. r \<in> set (ptrs (concat (map lay xs))) \<union> set (ptrs (concat (map lay ys))) \<Longrightarrow>
      bufs w' r = bufs (world P) r"
  shows "pool_rep ((set_al i al' P)\<lparr>world := w'\<rparr>) (lay(i := L'))"
    "whole (lay(i := L')) ((set_al i al' P)\<lparr>world := w'\<rparr>) = concat (map lay xs) @ L' @ concat (map lay ys)"
proof -
  let ?P = "(set_al i al' P)\<lparr>world := w'\<rparr>"
  have i: "i \<in> set (ids P)" using xy by simp
  have ids: "ids ?P = xs @ i # ys" using ids_set_al [OF i] xy(1) by simp
  have same: "map (lay(i := L')) xs = map lay xs" "map (lay(i := L')) ys = map lay ys"
    using xy(2,3) by auto
  show w: "whole (lay(i := L')) ?P = concat (map lay xs) @ L' @ concat (map lay ys)"
    unfolding whole_def ids map_append list.map same by simp
  have "\<exists>al. get_al j ?P = Some al \<and> al_ok (bufs w') ((lay(i := L')) j) al" if "j \<in> set (ids ?P)" for j
  proof (cases "j = i")
    case True
    then show ?thesis using st by (auto simp: get_set_al alloc_state_al_ok)
  next
    case False
    then have j: "j \<in> set xs \<union> set ys" using that ids by auto
    then obtain al where al: "get_al j P = Some al" "al_ok (bufs (world P)) (lay j) al"
      using rep xy(1) by (auto simp: pool_rep_def)
    have "al_ok (bufs w') (lay j) al"
      using al(2)
    proof (rule al_ok_cong)
      fix p assume "p \<in> set (ptrs (lay j))"
      with j show "bufs w' p = bufs (world P) p" by (intro frame) (auto simp: ptrs_def)
    qed
    with al False show ?thesis by (simp add: get_set_al)
  qed
  moreover have "layout_rep w' (concat (map lay xs) @ L' @ concat (map lay ys))"
    using st by (simp add: alloc_state_al_ok)
  ultimately show "pool_rep ?P (lay(i := L'))"
    using rep w by (simp add: pool_rep_def distinct_set_al)
qed

section \<open>Buffers in use\<close>

definition uses :: "'d pool \<Rightarrow> pool_layout \<Rightarrow> alloc_id \<Rightarrow> ptr set" where
  "uses P lay i = used (bufs (world P)) (lay i)"

definition in_use :: "'d pool \<Rightarrow> pool_layout \<Rightarrow> ptr set" where
  "in_use P lay = (\<Union>i \<in> set (ids P). uses P lay i)"

lemma used_concat: "used h (concat Ls) = (\<Union>L \<in> set Ls. used h L)"
  by (induction Ls) (auto simp: used_def)

lemma in_use_whole: "in_use P lay = used (bufs (world P)) (whole lay P)"
  by (simp add: in_use_def uses_def whole_def used_concat)

lemma finite_in_use [simp]: "finite (in_use P lay)"
  by (simp add: in_use_def uses_def used_def)

abbreviation pool_seg :: "'d pool \<Rightarrow> ptr \<Rightarrow> seg" where
  "pool_seg P p \<equiv> seg_of (bufs (world P)) p"

definition addr_rep :: "'d pool \<Rightarrow> pool_layout \<Rightarrow> bool" where
  "addr_rep P lay \<longleftrightarrow> distinct (map fst (addr_mem_buf_allocators P)) \<and>
     (\<forall>a p i. map_of (addr_mem_buf_allocators P) a = Some (p, i) \<longleftrightarrow>
        i \<in> set (ids P) \<and> p \<in> uses P lay i \<and> fst (pool_seg P p) = a)"

definition size_rep :: "'d pool \<Rightarrow> pool_layout \<Rightarrow> bool" where
  "size_rep P lay \<longleftrightarrow> used_size (stat (world P)) = (\<Sum>p \<in> in_use P lay. snd (pool_seg P p))"

text \<open>A buffer in a stream pair's set is in use and still has an event.\<close>

definition pairs_ok :: "'d pool \<Rightarrow> pool_layout \<Rightarrow> bool" where
  "pairs_ok P lay \<longleftrightarrow> distinct (map fst (stream_pair_mem_bufs P)) \<and>
     (\<forall>(k, s) \<in> set (stream_pair_mem_bufs P). sorted_wrt (<) s \<and>
        (\<forall>p \<in> set s. p \<in> in_use P lay \<and> \<not> IsEventNotUsed (events_of (bufs (world P)) p)))"

section \<open>Operations of one allocator\<close>

text \<open>
  The common effect on the pool of an operation of the allocator \<open>i\<close> that gives up the buffers
  \<open>X\<close>: it keeps all other buffers in use where they are.
\<close>

definition al_step :: "alloc_id \<Rightarrow> ptr set \<Rightarrow> 'd pool \<Rightarrow> pool_layout \<Rightarrow> 'd pool \<Rightarrow> pool_layout \<Rightarrow> bool" where
  "al_step i X P lay P' lay' \<longleftrightarrow> pool_rep P' lay' \<and> ids P' = ids P \<and> config P' = config P \<and>
     addr_mem_buf_allocators P' = addr_mem_buf_allocators P \<and>
     stream_pair_mem_bufs P' = stream_pair_mem_bufs P \<and>
     (\<forall>j. j \<in> set (ids P) \<longrightarrow> j \<noteq> i \<longrightarrow> uses P' lay' j = uses P lay j) \<and>
     (\<forall>r \<in> in_use P lay - X. relinked (bufs (world P)) (bufs (world P')) r) \<and>
     fresh (world P) \<le> fresh (world P')"

lemma ptrs_concat: "j \<in> set xs \<Longrightarrow> p \<in> set (ptrs (lay j)) \<Longrightarrow> p \<in> set (ptrs (concat (map lay xs)))"
  by (auto simp: ptrs_def)

lemma uses_sub_ptrs: "uses P lay i \<subseteq> set (ptrs (lay i))"
  by (auto simp: uses_def used_def)

lemma al_step_join:
  assumes rep: "pool_rep P lay" and xy: "ids P = xs @ i # ys" "i \<notin> set xs" "i \<notin> set ys"
    and st: "alloc_state w' (concat (map lay xs)) L' (concat (map lay ys)) al'"
    and keeps: "keeps (world P) (concat (map lay xs)) (concat (map lay ys)) (uses P lay i - X) w'"
  shows "al_step i X P lay ((set_al i al' P)\<lparr>world := w'\<rparr>) (lay(i := L'))"
    "length (whole (lay(i := L')) ((set_al i al' P)\<lparr>world := w'\<rparr>)) + length (lay i) =
       length (whole lay P) + length L'"
proof -
  let ?P = "(set_al i al' P)\<lparr>world := w'\<rparr>"
  have frame: "bufs w' r = bufs (world P) r"
    if "r \<in> set (ptrs (concat (map lay xs))) \<union> set (ptrs (concat (map lay ys)))" for r
    using keeps that by (simp add: keeps_def)
  note join = pool_join [OF rep xy st frame]
  have other: "bufs w' r = bufs (world P) r" if "j \<in> set (ids P)" "j \<noteq> i" "r \<in> set (ptrs (lay j))" for j r
    by (rule frame) (use that xy(1) ptrs_concat [of j _ r lay] in auto)
  have "uses ?P (lay(i := L')) j = uses P lay j" if "j \<in> set (ids P)" "j \<noteq> i" for j
    using other [OF that] that(2) by (auto simp: uses_def status_of_def intro!: used_cong)
  moreover have "relinked (bufs (world P)) (bufs w') r" if r: "r \<in> in_use P lay - X" for r
  proof -
    obtain j where j: "j \<in> set (ids P)" "r \<in> uses P lay j" using r by (auto simp: in_use_def)
    show ?thesis
    proof (cases "j = i")
      case True
      then show ?thesis using keeps j r by (auto simp: keeps_def)
    next
      case False
      with j uses_sub_ptrs have "bufs w' r = bufs (world P) r" by (intro other) auto
      then show ?thesis by simp
    qed
  qed
  moreover have "ids ?P = ids P" using ids_set_al [of i P] xy(1) by simp
  ultimately show "al_step i X P lay ?P (lay(i := L'))"
    using join(1) keeps by (simp add: al_step_def keeps_def)
  show "length (whole (lay(i := L')) ?P) + length (lay i) = length (whole lay P) + length L'"
  proof -
    have "whole lay P = concat (map lay xs) @ lay i @ concat (map lay ys)"
      by (simp add: whole_def xy(1))
    with join(2) show ?thesis by (simp only: length_append)
  qed
qed

text \<open>
  The core of the invariant, for a device that can serve \<open>N\<close> blocks in all; the rest of the
  invariant relates the layout to the pool's own tables.
\<close>

definition pool_core ::
    "(nat \<Rightarrow> 'd \<Rightarrow> seg set \<Rightarrow> bool) \<Rightarrow> pool_config \<Rightarrow> nat \<Rightarrow> 'd pool \<Rightarrow> pool_layout \<Rightarrow> bool" where
  "pool_core dinv C N P lay \<longleftrightarrow> pool_rep P lay \<and> config P = C \<and> length (whole lay P) \<le> N \<and>
     world_inv dinv (N - length (whole lay P)) (world P)"

definition pool_ok ::
    "(nat \<Rightarrow> 'd \<Rightarrow> seg set \<Rightarrow> bool) \<Rightarrow> pool_config \<Rightarrow> nat \<Rightarrow> 'd pool \<Rightarrow> pool_layout \<Rightarrow> bool" where
  "pool_ok dinv C N P lay \<longleftrightarrow>
     pool_core dinv C N P lay \<and> addr_rep P lay \<and> size_rep P lay \<and> pairs_ok P lay"

text \<open>The effect of an allocation by the allocator \<open>i\<close>.\<close>

definition malloc_step ::
    "alloc_id \<Rightarrow> size_t \<Rightarrow> 'd pool \<Rightarrow> pool_layout \<Rightarrow> ptr option \<Rightarrow> 'd pool \<Rightarrow> pool_layout \<Rightarrow> bool" where
  "malloc_step i sz P lay r P' lay' \<longleftrightarrow> al_step i {} P lay P' lay' \<and> stat_frame (world P) (world P') \<and>
     length (whole lay P) \<le> length (whole lay' P') \<and> length (whole lay' P') \<le> Suc (length (whole lay P)) \<and>
     (case r of None \<Rightarrow> uses P' lay' i = uses P lay i
      | Some p \<Rightarrow> p \<notin> in_use P lay \<and> uses P' lay' i = insert p (uses P lay i) \<and>
          status_of (bufs (world P')) p = kMemBufUsed \<and> IsEventNotUsed (events_of (bufs (world P')) p) \<and>
          sz \<le> snd (pool_seg P' p) \<and> snd (pool_seg P' p) - sz < 512)"

context pool_device
begin

lemma malloc_step_join:
  assumes core: "pool_core dinv C N P lay" and lt: "length (whole lay P) < N"
    and xy: "ids P = xs @ i # ys" "i \<notin> set xs" "i \<notin> set ys" and al: "get_al i P = Some al"
    and st: "alloc_state (world P) (concat (map lay xs)) (lay i) (concat (map lay ys)) al"
    and inv: "world_inv dinv (Suc (N - length (whole lay P) - 1) - spent al al') w'" and gr: "grown al al'"
    and post: "malloc_post (world P) (concat (map lay xs)) (lay i) (concat (map lay ys)) sz r al' w'"
  shows "\<exists>lay'. pool_core dinv C N ((set_al i al' P)\<lparr>world := w'\<rparr>) lay' \<and>
    malloc_step i sz P lay r ((set_al i al' P)\<lparr>world := w'\<rparr>) lay'"
proof -
  let ?P = "(set_al i al' P)\<lparr>world := w'\<rparr>"
  have rep: "pool_rep P lay" using core by (simp add: pool_core_def)
  obtain L' where L': "alloc_state w' (concat (map lay xs)) L' (concat (map lay ys)) al'"
      "case r of None \<Rightarrow> used (bufs w') L' = used (bufs (world P)) (lay i)
         | Some p \<Rightarrow> p \<notin> used (bufs (world P)) (lay i) \<and>
             used (bufs w') L' = insert p (used (bufs (world P)) (lay i)) \<and>
             status_of (bufs w') p = kMemBufUsed \<and> IsEventNotUsed (events_of (bufs w') p) \<and>
             sz \<le> snd (seg_of (bufs w') p) \<and> snd (seg_of (bufs w') p) - sz < 512"
    and keeps: "keeps (world P) (concat (map lay xs)) (concat (map lay ys)) (uses P lay i - {}) w'"
    using post by (auto simp: malloc_post_def uses_def)
  let ?lay = "lay(i := L')"
  note step = al_step_join [OF rep xy L'(1) keeps]
  have len: "length (lay i) = length (mem_blocks al)" "length L' = length (mem_blocks al')"
    using st L'(1) by (metis alloc_state_def length_map)+
  have grow: "length (whole lay P) \<le> length (whole ?lay ?P)" "length (whole ?lay ?P) \<le> Suc (length (whole lay P))"
      "spent al al' = length (whole ?lay ?P) - length (whole lay P)"
    using step(2) len gr by (auto simp: grown_def spent_def)
  have "pool_core dinv C N ?P ?lay"
    using core step(1) grow inv lt by (auto simp: pool_core_def al_step_def)
  moreover have "malloc_step i sz P lay r ?P ?lay"
  proof -
    have new: "p \<notin> in_use P lay" if r: "r = Some p" for p
    proof
      assume "p \<in> in_use P lay"
      then obtain j where j: "j \<in> set (ids P)" "p \<in> uses P lay j" by (auto simp: in_use_def)
      have "p \<notin> uses P lay i" "p \<in> used (bufs w') L'" using L'(2) r by (auto simp: uses_def)
      then have "j \<noteq> i" "p \<in> set (ptrs L')" using j by (auto simp: used_def)
      moreover have "p \<in> set (ptrs (concat (map lay xs))) \<union> set (ptrs (concat (map lay ys)))"
        using j \<open>j \<noteq> i\<close> subsetD [OF uses_sub_ptrs j(2)] xy(1) ptrs_concat [of j _ p lay] by auto
      ultimately show False using L'(1) by (auto simp: alloc_state_def layout_rep_def)
    qed
    have sf: "stat_frame (world P) w'" using keeps by (simp add: keeps_def)
    show ?thesis
      unfolding malloc_step_def
    proof (intro conjI)
      show "case r of None \<Rightarrow> uses ?P ?lay i = uses P lay i
        | Some p \<Rightarrow> p \<notin> in_use P lay \<and> uses ?P ?lay i = insert p (uses P lay i) \<and>
          status_of (bufs (world ?P)) p = kMemBufUsed \<and> IsEventNotUsed (events_of (bufs (world ?P)) p) \<and>
          sz \<le> snd (pool_seg ?P p) \<and> snd (pool_seg ?P p) - sz < 512"
        using L'(2) new by (cases r) (simp_all add: uses_def)
    qed (use step(1) sf grow in simp_all)
  qed
  ultimately show ?thesis by blast
qed

lemma al_Malloc_total:
  assumes core: "pool_core dinv C N P lay" and lt: "length (whole lay P) < N" and i: "i \<in> set (ids P)"
    and sz: "0 < sz" "2 * unat sz \<le> lim"
  shows "\<exists>r P' lay'. al_Malloc D i sz P = Some (r, P') \<and> pool_core dinv C N P' lay' \<and> malloc_step i sz P lay r P' lay'"
proof -
  have rep: "pool_rep P lay" and cfg: "config P = C" using core by (simp_all add: pool_core_def)
  obtain xs ys al where xy: "ids P = xs @ i # ys" "i \<notin> set xs" "i \<notin> set ys" "get_al i P = Some al"
      "alloc_state (world P) (concat (map lay xs)) (lay i) (concat (map lay ys)) al"
    using rep i by (rule pool_split)
  let ?m = "N - length (whole lay P) - 1"
  have "Suc ?m = N - length (whole lay P)" using lt by simp
  then have "world_inv dinv (Suc ?m) (world P)" using core by (simp only: pool_core_def)
  from prov.Malloc_total [OF xy(5) this sz, of i]
  obtain r al' w' where m: "Malloc (callbacks_of D C i) sz al (world P) = Some (r, al', w')"
      "world_inv dinv (Suc ?m - spent al al') w'" "grown al al'"
      "malloc_post (world P) (concat (map lay xs)) (lay i) (concat (map lay ys)) sz r al' w'"
    by blast
  from malloc_step_join [OF core lt xy m(2-4)] m(1) xy(4) cfg show ?thesis
    by (auto simp: al_Malloc_def)
qed

lemma al_MallocExpandBlock_total:
  assumes core: "pool_core dinv C N P lay" and lt: "length (whole lay P) < N" and i: "i \<in> set (ids P)"
    and sz: "0 < sz" "2 * unat sz \<le> lim"
  shows "\<exists>r P' lay'. al_MallocExpandBlock D i sz P = Some (r, P') \<and> pool_core dinv C N P' lay' \<and>
    malloc_step i sz P lay r P' lay'"
proof -
  have rep: "pool_rep P lay" and cfg: "config P = C" using core by (simp_all add: pool_core_def)
  obtain xs ys al where xy: "ids P = xs @ i # ys" "i \<notin> set xs" "i \<notin> set ys" "get_al i P = Some al"
      "alloc_state (world P) (concat (map lay xs)) (lay i) (concat (map lay ys)) al"
    using rep i by (rule pool_split)
  let ?m = "N - length (whole lay P) - 1"
  have "Suc ?m = N - length (whole lay P)" using lt by simp
  then have "world_inv dinv (Suc ?m) (world P)" using core by (simp only: pool_core_def)
  from prov.MallocExpandBlock_total [OF xy(5) this sz, of i]
  obtain r al' w' where m: "MallocExpandBlock (callbacks_of D C i) sz al (world P) = Some (r, al', w')"
      "world_inv dinv (Suc ?m - spent al al') w'" "grown al al'"
      "malloc_post (world P) (concat (map lay xs)) (lay i) (concat (map lay ys)) sz r al' w'"
    by blast
  from malloc_step_join [OF core lt xy m(2-4)] m(1) xy(4) cfg show ?thesis
    by (auto simp: al_MallocExpandBlock_def)
qed

end

end
