(* ===== verification/Mem_Pool_Ops.thy ===== *)
theory Mem_Pool_Ops
  imports Mem_Pool_Inv
begin

text \<open>
  The pool's operations keep its invariant: looking up an allocator, freeing, eager free, events
  and allocation.
\<close>

section \<open>Looking up an allocator\<close>

lemma oset_emplace_new:
  assumes "\<And>y. y \<in> set ys \<Longrightarrow> lt x y \<or> lt y x"
  obtains as bs where "ys = as @ bs" "oset_emplace lt x ys = as @ x # bs"
proof -
  have "\<exists>as bs. ys = as @ bs \<and> oset_emplace lt x ys = as @ x # bs"
    using assms
  proof (induction ys)
    case Nil
    then show ?case by simp
  next
    case (Cons y ys)
    show ?case
    proof (cases "lt x y")
      case True
      then show ?thesis by (intro exI [of _ "[]"] exI [of _ "y # ys"]) simp
    next
      case False
      with Cons.prems have "lt y x" by auto
      from Cons obtain as bs where "ys = as @ bs" "oset_emplace lt x ys = as @ x # bs" by auto
      with False \<open>lt y x\<close> show ?thesis by (intro exI [of _ "y # as"] exI [of _ bs]) simp
    qed
  qed
  then show ?thesis using that by blast
qed

lemma alloc_key_total: "k \<noteq> l \<Longrightarrow> alloc_key_less k l \<or> alloc_key_less l k"
  by (cases k; cases l) (auto simp: alloc_key_less_def)

lemma al_set_same: "map_of m k = Some v \<Longrightarrow> al_set k v m = m"
  by (induction m) (auto split: if_splits)

lemma al_ok_empty: "al_ok h [] (MemBufAllocator e p s)"
  by (simp add: al_ok_def MemBufAllocator_def sets_rep_def bufset_rep_def)

definition lookup_post :: "'d pool \<Rightarrow> pool_layout \<Rightarrow> alloc_id \<Rightarrow> 'd pool \<Rightarrow> pool_layout \<Rightarrow> bool" where
  "lookup_post P lay i P' lay' \<longleftrightarrow> pool_rep P' lay' \<and> i \<in> set (ids P') \<and> set (ids P) \<subseteq> set (ids P') \<and>
     world P' = world P \<and> config P' = config P \<and> whole lay' P' = whole lay P \<and>
     addr_mem_buf_allocators P' = addr_mem_buf_allocators P \<and>
     stream_pair_mem_bufs P' = stream_pair_mem_bufs P \<and>
     (\<forall>j \<in> set (ids P). uses P' lay' j = uses P lay j) \<and>
     (\<forall>j \<in> set (ids P') - set (ids P). uses P' lay' j = {})"

lemma GetMemBufAllocator_total:
  assumes rep: "pool_rep P lay"
  shows "\<exists>i P' lay'. GetMemBufAllocator D sz fp sid P = (i, P') \<and> lookup_post P lay i P' lay'"
proof -
  let ?key = "(fp, sid)"
  consider (tiny) "tiny_allocator P \<noteq> None" "sz \<le> 1024 * 1024"
    | (found) al where "\<not> (tiny_allocator P \<noteq> None \<and> sz \<le> 1024 * 1024)" "map_of (stream_id_allocators P) ?key = Some al"
    | (new) "\<not> (tiny_allocator P \<noteq> None \<and> sz \<le> 1024 * 1024)" "map_of (stream_id_allocators P) ?key = None"
    by (cases "map_of (stream_id_allocators P) ?key"; blast)
  then show ?thesis
  proof cases
    case tiny
    then have "Tiny \<in> set (ids P)" by (auto simp: ids_def)
    with tiny rep show ?thesis
      by (intro exI [of _ Tiny] exI [of _ P] exI [of _ lay]) (simp add: GetMemBufAllocator_def lookup_post_def)
  next
    case found
    then have "Keyed ?key \<in> set (ids P)" by (simp add: get_al_ids get_al_def)
    with found rep show ?thesis
      by (intro exI [of _ "Keyed ?key"] exI [of _ P] exI [of _ lay])
        (auto simp: GetMemBufAllocator_def lookup_post_def Let_def)
  next
    case new
    let ?al = "GenerateAllocator D fp sid P"
    let ?lt = "\<lambda>e f. alloc_key_less (fst e) (fst f)"
    have nk: "?key \<notin> fst ` set (stream_id_allocators P)" using new(2) by (simp add: map_of_eq_None_iff)
    obtain as bs where ab: "stream_id_allocators P = as @ bs"
        "oset_emplace ?lt (?key, ?al) (stream_id_allocators P) = as @ (?key, ?al) # bs"
    proof (rule oset_emplace_new [of "stream_id_allocators P" ?lt "(?key, ?al)"])
      fix y assume "y \<in> set (stream_id_allocators P)"
      with nk have "?key \<noteq> fst y" by (metis image_eqI)
      then show "?lt (?key, ?al) y \<or> ?lt y (?key, ?al)" using alloc_key_total [of ?key "fst y"] by simp
    qed
    define P' where "P' = P\<lparr>stream_id_allocators := as @ (?key, ?al) # bs\<rparr>"
    let ?i = "Keyed ?key"
    let ?lay = "lay(?i := [])"
    have run: "GetMemBufAllocator D sz fp sid P = (?i, P')"
      using new ab(2) by (auto simp: GetMemBufAllocator_def Let_def P'_def)
    define ts where "ts = (case tiny_allocator P of None \<Rightarrow> [] | Some _ \<Rightarrow> [Tiny])"
    define A where "A = ts @ map (Keyed \<circ> fst) as"
    define B where "B = map (Keyed \<circ> fst) bs"
    have ids: "ids P = A @ B" "ids P' = A @ ?i # B"
      by (simp_all add: ids_def ts_def P'_def ab(1) A_def B_def)
    have ni: "?i \<notin> set A" "?i \<notin> set B"
      using nk ab(1) by (auto simp: ts_def image_iff A_def B_def split: option.splits)
    have same: "map ?lay A = map lay A" "map ?lay B = map lay B"
      using ni by auto
    have wh: "whole ?lay P' = whole lay P"
      unfolding whole_def ids map_append list.map same by simp
    have w: "world P' = world P" "config P' = config P"
        "addr_mem_buf_allocators P' = addr_mem_buf_allocators P"
        "stream_pair_mem_bufs P' = stream_pair_mem_bufs P"
      by (simp_all add: P'_def)
    have get: "get_al j P' = (if j = ?i then Some ?al else get_al j P)" for j
    proof (cases j)
      case Tiny
      then show ?thesis by (simp add: get_al_def P'_def)
    next
      case (Keyed k)
      have n1: "map_of as ?key = None" using nk ab(1) by (auto simp: map_of_eq_None_iff)
      show ?thesis
        using Keyed n1 by (cases "k = ?key")
          (auto simp: get_al_def P'_def ab(1) map_add_def split: option.split)
    qed
    have "\<exists>al. get_al j P' = Some al \<and> al_ok (bufs (world P')) (?lay j) al" if "j \<in> set (ids P')" for j
    proof (cases "j = ?i")
      case True
      then show ?thesis by (simp add: get GenerateAllocator_def al_ok_empty)
    next
      case False
      then have "j \<in> set (ids P)" using that ids by auto
      with rep False w show ?thesis by (auto simp: get pool_rep_def)
    qed
    moreover have "distinct (map fst (stream_id_allocators P'))"
      using rep nk ab(1) by (auto simp: pool_rep_def P'_def)
    ultimately have "pool_rep P' ?lay" using rep w wh by (simp add: pool_rep_def)
    moreover have "uses P' ?lay j = uses P lay j" if "j \<in> set (ids P)" for j
    proof -
      have "j \<noteq> ?i" using that ni ids(1) by auto
      then show ?thesis by (simp add: uses_def w)
    qed
    moreover have "uses P' ?lay j = {}" if "j \<in> set (ids P') - set (ids P)" for j
    proof -
      have "j = ?i" using that ids by auto
      then show ?thesis by (simp add: uses_def used_def)
    qed
    ultimately have "lookup_post P lay ?i P' ?lay"
      using ids w wh by (auto simp: lookup_post_def)
    with run show ?thesis by blast
  qed
qed

section \<open>What a step of one allocator keeps\<close>

lemma uses_disjoint:
  assumes rep: "pool_rep P lay" and ij: "i \<in> set (ids P)" "j \<in> set (ids P)" "p \<in> uses P lay i" "p \<in> uses P lay j"
  shows "i = j"
proof (rule ccontr)
  assume ne: "i \<noteq> j"
  obtain xs ys where xy: "ids P = xs @ i # ys" using ij(1) by (meson split_list)
  have "j \<in> set xs \<union> set ys" using ij(2) xy ne by auto
  then have "p \<in> set (ptrs (concat (map lay xs))) \<union> set (ptrs (concat (map lay ys)))"
    using subsetD [OF uses_sub_ptrs ij(4)] ptrs_concat [of j _ p lay] by auto
  moreover have "p \<in> set (ptrs (lay i))" using subsetD [OF uses_sub_ptrs ij(3)] .
  moreover have "distinct (ptrs (whole lay P))" using rep by (simp add: pool_rep_def layout_rep_def)
  ultimately show False by (auto simp: whole_def xy)
qed

lemma in_use_ptrs: "p \<in> in_use P lay \<Longrightarrow> p \<in> set (ptrs (whole lay P))"
  unfolding in_use_whole by (simp add: used_def)

text \<open>Two buffers in use have disjoint ranges, hence different addresses.\<close>

lemma in_use_disjoint:
  assumes "pool_rep P lay" "p \<in> in_use P lay" "q \<in> in_use P lay" "p \<noteq> q"
  shows "seg_range (pool_seg P p) \<inter> seg_range (pool_seg P q) = {}"
  using assms
  by (intro layout_disjoint [of "world P" "whole lay P"]) (auto simp: pool_rep_def intro: in_use_ptrs)

lemma in_use_addr_inj:
  assumes "pool_rep P lay" "p \<in> in_use P lay" "q \<in> in_use P lay" "fst (pool_seg P p) = fst (pool_seg P q)"
  shows "p = q"
  using assms by (intro layout_addr_inj [of "world P" "whole lay P"] in_use_ptrs) (auto simp: pool_rep_def)

lemma al_step_kept:
  assumes "al_step i X P lay P' lay'" "r \<in> in_use P lay" "r \<notin> X"
  shows "pool_seg P' r = pool_seg P r" "status_of (bufs (world P')) r = status_of (bufs (world P)) r"
    "events_of (bufs (world P')) r = events_of (bufs (world P)) r"
  using assms by (auto simp: al_step_def relinked_def)

lemma in_use_split: "i \<in> set (ids P) \<Longrightarrow> in_use P lay = uses P lay i \<union> (\<Union>j \<in> set (ids P) - {i}. uses P lay j)"
  by (auto simp: in_use_def)

lemma al_step_in_use:
  assumes st: "al_step i X P lay P' lay'" and i: "i \<in> set (ids P)"
  shows "in_use P' lay' = uses P' lay' i \<union> (\<Union>j \<in> set (ids P) - {i}. uses P lay j)"
proof -
  have "ids P' = ids P" using st by (simp add: al_step_def)
  then have "in_use P' lay' = uses P' lay' i \<union> (\<Union>j \<in> set (ids P) - {i}. uses P' lay' j)"
    using in_use_split [of i P' lay'] i by simp
  moreover have "uses P' lay' j = uses P lay j" if "j \<in> set (ids P) - {i}" for j
    using st that by (simp add: al_step_def)
  ultimately show ?thesis by simp
qed

lemma malloc_step_in_use:
  assumes st: "malloc_step i sz P lay r P' lay'" and i: "i \<in> set (ids P)"
  shows "in_use P' lay' = (case r of None \<Rightarrow> in_use P lay | Some p \<Rightarrow> insert p (in_use P lay))"
proof -
  have "al_step i {} P lay P' lay'" using st by (simp add: malloc_step_def)
  from al_step_in_use [OF this i] in_use_split [OF i, of lay] st show ?thesis
    by (auto simp: malloc_step_def split: option.splits)
qed

lemma free_step_in_use:
  assumes rep: "pool_rep P lay" and st: "al_step i {p} P lay P' lay'" and i: "i \<in> set (ids P)"
    and p: "p \<in> uses P lay i" and u: "uses P' lay' i = uses P lay i - {p}"
  shows "in_use P' lay' = in_use P lay - {p}"
proof -
  have "p \<notin> uses P lay j" if "j \<in> set (ids P) - {i}" for j
    using uses_disjoint [OF rep i _ p] that by blast
  with al_step_in_use [OF st i] in_use_split [OF i, of lay] u show ?thesis by auto
qed

section \<open>Freeing\<close>

text \<open>The invariant after the allocator's part of a free, and after the bookkeeping of the pool.\<close>

lemma addr_rep_free:
  assumes rep: "pool_rep P lay" and addr: "addr_rep P lay" and st: "al_step i {p} P lay P' lay'"
    and i: "i \<in> set (ids P)" "p \<in> uses P lay i" "uses P' lay' i = uses P lay i - {p}"
    and a: "a = fst (pool_seg P p)"
  shows "addr_rep (P'\<lparr>addr_mem_buf_allocators := al_erase a (addr_mem_buf_allocators P')\<rparr>) lay'"
proof -
  have s: "ids P' = ids P" "addr_mem_buf_allocators P' = addr_mem_buf_allocators P"
    using st by (simp_all add: al_step_def)
  have d: "distinct (map fst (addr_mem_buf_allocators P))" using addr by (simp add: addr_rep_def)
  have m: "map_of (addr_mem_buf_allocators P) b = Some (q, j) \<longleftrightarrow>
      j \<in> set (ids P) \<and> q \<in> uses P lay j \<and> fst (pool_seg P q) = b" for b q j
    using addr by (simp add: addr_rep_def)
  have u: "uses P' lay' j = uses P lay j - {p}" if "j \<in> set (ids P)" for j
  proof (cases "j = i")
    case False
    then have "uses P' lay' j = uses P lay j" using st that by (simp add: al_step_def)
    moreover have "p \<notin> uses P lay j" using uses_disjoint [OF rep i(1) that i(2)] False by blast
    ultimately show ?thesis by simp
  qed (simp add: i(3))
  have pin: "p \<in> in_use P lay" using i by (auto simp: in_use_def)
  have eqv: "(b \<noteq> a \<and> j \<in> set (ids P) \<and> q \<in> uses P lay j \<and> fst (pool_seg P q) = b) \<longleftrightarrow>
      (j \<in> set (ids P) \<and> q \<in> uses P lay j - {p} \<and> fst (pool_seg P' q) = b)" for b q j
  proof (cases "j \<in> set (ids P) \<and> q \<in> uses P lay j")
    case True
    then have qin: "q \<in> in_use P lay" by (auto simp: in_use_def)
    have "q = p \<longleftrightarrow> fst (pool_seg P q) = a" using in_use_addr_inj [OF rep qin pin] a by auto
    moreover have "q \<noteq> p \<Longrightarrow> pool_seg P' q = pool_seg P q" using al_step_kept(1) [OF st qin] by simp
    ultimately show ?thesis using True by auto
  qed auto
  let ?P = "P'\<lparr>addr_mem_buf_allocators := al_erase a (addr_mem_buf_allocators P')\<rparr>"
  have "map_of (addr_mem_buf_allocators ?P) b = Some (q, j) \<longleftrightarrow>
      j \<in> set (ids ?P) \<and> q \<in> uses ?P lay' j \<and> fst (pool_seg ?P q) = b" for b q j
  proof -
    have "map_of (addr_mem_buf_allocators ?P) b = Some (q, j) \<longleftrightarrow>
        b \<noteq> a \<and> map_of (addr_mem_buf_allocators P) b = Some (q, j)"
      using d by (simp add: s)
    also have "\<dots> \<longleftrightarrow> j \<in> set (ids P) \<and> q \<in> uses P lay j - {p} \<and> fst (pool_seg P' q) = b"
      unfolding m by (rule eqv)
    also have "\<dots> \<longleftrightarrow> j \<in> set (ids P) \<and> q \<in> uses P' lay' j \<and> fst (pool_seg P' q) = b"
      using u by blast
    finally show ?thesis by (simp add: s uses_def)
  qed
  then show ?thesis using d by (simp add: addr_rep_def s)
qed

lemma size_rep_free:
  assumes size: "size_rep P lay" and st: "al_step i {p} P lay P' lay'" and p: "p \<in> in_use P lay"
    and u: "in_use P' lay' = in_use P lay - {p}" and stat: "stat (world P') = stat (world P)"
  shows "used_size (stat (world P')) - snd (pool_seg P p) = (\<Sum>q \<in> in_use P' lay'. snd (pool_seg P' q))"
proof -
  have "(\<Sum>q \<in> in_use P' lay'. snd (pool_seg P' q)) = (\<Sum>q \<in> in_use P lay - {p}. snd (pool_seg P q))"
    unfolding u by (rule sum.cong) (use al_step_kept(1) [OF st] in auto)
  moreover have "(\<Sum>q \<in> in_use P lay. snd (pool_seg P q)) =
      snd (pool_seg P p) + (\<Sum>q \<in> in_use P lay - {p}. snd (pool_seg P q))"
    using p by (intro sum.remove) simp_all
  ultimately show ?thesis
    using size stat by (simp add: size_rep_def)
qed

lemma pairs_ok_step:
  assumes pairs: "pairs_ok P lay" and st: "al_step i X P lay P' lay'"
    and out: "\<And>p. p \<in> X \<Longrightarrow> p \<in> in_use P lay \<Longrightarrow> IsEventNotUsed (events_of (bufs (world P)) p)"
    and u: "in_use P lay - X \<subseteq> in_use P' lay'"
  shows "pairs_ok P' lay'"
proof -
  have "p \<in> in_use P' lay' \<and> \<not> IsEventNotUsed (events_of (bufs (world P')) p)"
    if "p \<in> in_use P lay" "\<not> IsEventNotUsed (events_of (bufs (world P)) p)" for p
  proof -
    have "p \<notin> X" using out that by blast
    with al_step_kept(3) [OF st that(1)] that u show ?thesis by auto
  qed
  moreover have "stream_pair_mem_bufs P' = stream_pair_mem_bufs P" using st by (simp add: al_step_def)
  ultimately show ?thesis using pairs unfolding pairs_ok_def by fastforce
qed

lemma pool_rep_frame:
  assumes "pool_rep P lay" "stream_id_allocators P' = stream_id_allocators P"
    and "tiny_allocator P' = tiny_allocator P" "bufs (world P') = bufs (world P)"
    and "blk_ext (world P') = blk_ext (world P)" "fresh (world P') = fresh (world P)"
  shows "pool_rep P' lay" "whole lay P' = whole lay P" "uses P' lay = uses P lay" "in_use P' lay = in_use P lay"
    "ids P' = ids P"
proof -
  show ids: "ids P' = ids P" using assms(2,3) by (simp add: ids_def)
  then show wh: "whole lay P' = whole lay P" by (simp add: whole_def)
  have get: "get_al i P' = get_al i P" for i using assms(2,3) by (cases i) (simp_all add: get_al_def)
  have "layout_rep (world P') (whole lay P)"
    using assms(1) layout_rep_same [of "world P'" "world P"] assms(4-6) by (simp add: pool_rep_def)
  then show "pool_rep P' lay" using assms(1,2,4) by (simp add: pool_rep_def wh ids get)
  show u: "uses P' lay = uses P lay" by (simp add: uses_def fun_eq_iff assms(4))
  then show "in_use P' lay = in_use P lay" by (simp add: in_use_def ids)
qed

text \<open>The part of the invariant that freeing needs; it leaves the stream pairs open.\<close>

definition pool_tab ::
    "(nat \<Rightarrow> 'd \<Rightarrow> seg set \<Rightarrow> bool) \<Rightarrow> pool_config \<Rightarrow> nat \<Rightarrow> 'd pool \<Rightarrow> pool_layout \<Rightarrow> bool" where
  "pool_tab dinv C N P lay \<longleftrightarrow> pool_core dinv C N P lay \<and> addr_rep P lay \<and> size_rep P lay"

lemma pool_ok_tab: "pool_ok dinv C N P lay \<longleftrightarrow> pool_tab dinv C N P lay \<and> pairs_ok P lay"
  by (auto simp: pool_ok_def pool_tab_def)

lemma addr_found:
  assumes "addr_rep P lay" "map_of (addr_mem_buf_allocators P) a = Some (p, i)"
  shows "i \<in> set (ids P)" "p \<in> uses P lay i" "fst (pool_seg P p) = a" "p \<in> in_use P lay"
  using assms by (auto simp: addr_rep_def in_use_def)

text \<open>The relation between the pools before and after a free of the buffer \<open>p\<close> at \<open>a\<close>.\<close>

definition freed :: "device_ptr \<Rightarrow> ptr \<Rightarrow> 'd pool \<Rightarrow> pool_layout \<Rightarrow> 'd pool \<Rightarrow> pool_layout \<Rightarrow> bool" where
  "freed a p P lay P' lay' \<longleftrightarrow> in_use P' lay' = in_use P lay - {p} \<and>
     map_of (addr_mem_buf_allocators P') = (map_of (addr_mem_buf_allocators P))(a := None) \<and>
     stream_pair_mem_bufs P' = stream_pair_mem_bufs P \<and> ids P' = ids P \<and>
     length (whole lay' P') = length (whole lay P) \<and>
     (\<forall>r \<in> in_use P lay - {p}. relinked (bufs (world P)) (bufs (world P')) r)"

context pool_device
begin

lemma DoFree_freed:
  assumes tab: "pool_tab dinv C N P lay" and a: "map_of (addr_mem_buf_allocators P) a = Some (p, i)"
    and ev: "IsEventNotUsed (events_of (bufs (world P)) p)"
  shows "\<exists>P' lay'. DoFreeTensorMem a P = Some (True, P') \<and> pool_tab dinv C N P' lay' \<and>
    freed a p P lay P' lay' \<and> stat (world P') = (stat (world P))\<lparr>used_size := used_size (stat (world P)) - snd (pool_seg P p)\<rparr>"
proof -
  have core: "pool_core dinv C N P lay" and addr: "addr_rep P lay" and size: "size_rep P lay"
    using tab by (simp_all add: pool_tab_def)
  have rep: "pool_rep P lay" using core by (simp add: pool_core_def)
  note ip = addr_found [OF addr a]
  obtain xs ys al where xy: "ids P = xs @ i # ys" "i \<notin> set xs" "i \<notin> set ys" "get_al i P = Some al"
      "alloc_state (world P) (concat (map lay xs)) (lay i) (concat (map lay ys)) al"
    using rep ip(1) by (rule pool_split)
  have pu: "p \<in> used (bufs (world P)) (lay i)" using ip(2) by (simp add: uses_def)
  obtain al' w' where f: "Free p kMemBufIdle al (world P) = Some (True, al', w')" "same_config al al'"
      "free_post (world P) (concat (map lay xs)) (lay i) (concat (map lay ys)) p kMemBufIdle al' w'"
    using Free_total [OF xy(5) pu ev, of kMemBufIdle] by auto
  obtain L' where L': "alloc_state w' (concat (map lay xs)) L' (concat (map lay ys)) al'"
      "used (bufs w') L' = used (bufs (world P)) (lay i) - {p}"
    and fr: "keeps (world P) (concat (map lay xs)) (concat (map lay ys)) (uses P lay i - {p}) w'"
      "blks w' = blks (world P)" "stat w' = stat (world P)" "dev w' = dev (world P)"
    using f(3) by (auto simp: free_post_def uses_def)
  define P1 where "P1 = (set_al i al' P)\<lparr>world := w'\<rparr>"
  define lay' where "lay' = lay(i := L')"
  note step = al_step_join [OF rep xy(1-3) L'(1) fr(1), folded P1_def lay'_def]
  have u: "uses P1 lay' i = uses P lay i - {p}" using L'(2) by (simp add: uses_def P1_def lay'_def)
  have len: "length (whole lay' P1) = length (whole lay P)"
  proof -
    have "length (lay i) = length L'"
      using xy(5) L'(1) f(2) by (metis alloc_state_def length_map same_config_def)
    with step(2) show ?thesis by simp
  qed
  have w1: "world P1 = w'" "config P1 = config P" by (simp_all add: P1_def)
  have inu: "in_use P1 lay' = in_use P lay - {p}"
    by (rule free_step_in_use [OF rep step(1) ip(1,2) u])
  have ext: "blk_ext w' = blk_ext (world P)" by (simp add: blk_ext_def fun_eq_iff fr(2))
  obtain b where b: "bufs (world P) p = Some b" "buf_size b = snd (pool_seg P p)"
    using layout_live [of "world P" "whole lay P" p] rep in_use_ptrs [OF ip(4)]
    by (auto simp: pool_rep_def seg_of_def elim: liveE)
  let ?f = "\<lambda>s. s\<lparr>used_size := used_size s - buf_size b\<rparr>"
  define P' where "P' = (pool_stat ?f P1)\<lparr>addr_mem_buf_allocators := al_erase a (addr_mem_buf_allocators P1)\<rparr>"
  have run: "DoFreeTensorMem a P = Some (True, P')"
    using a b(1) xy(4) f(1) by (simp add: DoFreeTensorMem_def al_Free_def P'_def P1_def)
  have rep1: "pool_rep P1 lay'" using step(1) by (simp add: al_step_def)
  have frame: "pool_rep P' lay'" "whole lay' P' = whole lay' P1" "in_use P' lay' = in_use P1 lay'"
      "ids P' = ids P1" "uses P' lay' = uses P1 lay'"
    using pool_rep_frame [OF rep1, of P'] by (simp_all add: P'_def pool_stat_def mod_stat_def)
  have core': "pool_core dinv C N P' lay'"
    using core frame len w1 ext fr(4)
    by (simp add: pool_core_def world_inv_def P'_def)
  have addr': "addr_rep P' lay'"
  proof -
    have "addr_rep (P1\<lparr>addr_mem_buf_allocators := al_erase a (addr_mem_buf_allocators P1)\<rparr>) lay'"
      by (rule addr_rep_free [OF rep addr step(1) ip(1,2) u ip(3) [symmetric]])
    then show ?thesis by (simp add: addr_rep_def P'_def uses_def)
  qed
  have "size_rep P' lay'"
  proof -
    have "world P' = mod_stat ?f w'" by (simp add: P'_def w1)
    with size_rep_free [OF size step(1) ip(4) inu] b(2) fr(3) show ?thesis
      unfolding size_rep_def frame(3) by (simp add: w1)
  qed
  with core' addr' have "pool_tab dinv C N P' lay'" by (simp add: pool_tab_def)
  moreover have "freed a p P lay P' lay'"
    unfolding freed_def
  proof (intro conjI)
    show "map_of (addr_mem_buf_allocators P') = (map_of (addr_mem_buf_allocators P))(a := None)"
      using addr by (simp add: addr_rep_def P'_def P1_def)
    show "\<forall>r \<in> in_use P lay - {p}. relinked (bufs (world P)) (bufs (world P')) r"
      using step(1) by (simp add: al_step_def P'_def)
    show "ids P' = ids P" using step(1) by (simp add: al_step_def frame)
  qed (use frame inu len in \<open>simp_all add: P'_def P1_def\<close>)
  moreover have "stat (world P') = (stat (world P))\<lparr>used_size := used_size (stat (world P)) - snd (pool_seg P p)\<rparr>"
    using fr(3) b(2) by (simp add: P'_def w1)
  ultimately show ?thesis using run by blast
qed

text \<open>Changing a buffer in use that keeps its place.\<close>

lemma pool_fields:
  assumes tab: "pool_tab dinv C N P lay" and p: "p \<in> in_use P lay" "bufs (world P) p = Some B" "same_place B B'"
    and P': "P' = P\<lparr>world := (world P)\<lparr>bufs := (bufs (world P))(p \<mapsto> B')\<rparr>\<rparr>"
  shows "pool_tab dinv C N P' lay" "in_use P' lay = in_use P lay" "whole lay P' = whole lay P"
    "pool_seg P' r = pool_seg P r" "ids P' = ids P"
proof -
  have core: "pool_core dinv C N P lay" and addr: "addr_rep P lay" and size: "size_rep P lay"
    using tab by (simp_all add: pool_tab_def)
  have rep: "pool_rep P lay" using core by (simp add: pool_core_def)
  let ?w = "(world P)\<lparr>bufs := (bufs (world P))(p \<mapsto> B')\<rparr>"
  obtain i where i: "i \<in> set (ids P)" "p \<in> uses P lay i" using p(1) by (auto simp: in_use_def)
  obtain xs ys al where xy: "ids P = xs @ i # ys" "i \<notin> set xs" "i \<notin> set ys" "get_al i P = Some al"
      "alloc_state (world P) (concat (map lay xs)) (lay i) (concat (map lay ys)) al"
    using rep i(1) by (rule pool_split)
  have pl: "p \<in> set (ptrs (lay i))" using subsetD [OF uses_sub_ptrs i(2)] .
  note af = alloc_state_fields [OF xy(5) pl p(2,3)]
  have set_same: "set_al i al P = P"
    using xy(4) by (cases i) (simp_all add: get_al_def set_al_def al_set_same)
  have "pool_rep ((set_al i al P)\<lparr>world := ?w\<rparr>) (lay(i := lay i))"
  proof (rule pool_join(1) [OF rep xy(1-3) af(1)])
    fix r assume r: "r \<in> set (ptrs (concat (map lay xs))) \<union> set (ptrs (concat (map lay ys)))"
    have "distinct (ptrs (concat (map lay xs) @ lay i @ concat (map lay ys)))"
      using xy(5) by (simp add: alloc_state_def layout_rep_def)
    with r pl have "r \<noteq> p" by auto
    then show "bufs ?w r = bufs (world P) r" by simp
  qed
  then have rep': "pool_rep P' lay" unfolding set_same P' by simp
  show ids: "ids P' = ids P" by (simp add: P')
  have uses: "uses P' lay j = uses P lay j" for j using af(2) by (simp add: uses_def P')
  then show inu: "in_use P' lay = in_use P lay" by (simp add: in_use_def ids)
  show wh: "whole lay P' = whole lay P" by (simp add: whole_def ids)
  have seg: "pool_seg P' q = pool_seg P q" for q
    using p(2,3) by (simp add: P' seg_of_def same_place_def)
  then show "pool_seg P' r = pool_seg P r" .
  have "pool_core dinv C N P' lay" using core rep' wh by (simp add: pool_core_def P' world_inv_def)
  moreover have "addr_rep P' lay" using addr unfolding addr_rep_def uses seg ids by (simp add: P')
  moreover have "size_rep P' lay" using size unfolding size_rep_def inu seg by (simp add: P')
  ultimately show "pool_tab dinv C N P' lay" by (simp add: pool_tab_def)
qed

text \<open>A buffer that an event refers to stays in use; the free only marks it.\<close>

lemma DoFree_marked:
  assumes tab: "pool_tab dinv C N P lay" and a: "map_of (addr_mem_buf_allocators P) a = Some (p, i)"
    and ev: "\<not> IsEventNotUsed (events_of (bufs (world P)) p)"
  shows "\<exists>B P'. bufs (world P) p = Some B \<and> DoFreeTensorMem a P = Some (False, P') \<and>
    same_place B (B\<lparr>buf_status := kMemBufUsedByEvent\<rparr>) \<and> pool_tab dinv C N P' lay \<and>
    in_use P' lay = in_use P lay \<and> whole lay P' = whole lay P \<and>
    P' = P\<lparr>world := (world P)\<lparr>bufs := (bufs (world P))(p \<mapsto> B\<lparr>buf_status := kMemBufUsedByEvent\<rparr>)\<rparr>\<rparr>"
proof -
  have rep: "pool_rep P lay" and addr: "addr_rep P lay"
    using tab by (simp_all add: pool_tab_def pool_core_def)
  note ip = addr_found [OF addr a]
  obtain xs ys al where xy: "ids P = xs @ i # ys" "i \<notin> set xs" "i \<notin> set ys" "get_al i P = Some al"
      "alloc_state (world P) (concat (map lay xs)) (lay i) (concat (map lay ys)) al"
    using rep ip(1) by (rule pool_split)
  have pu: "p \<in> used (bufs (world P)) (lay i)" using ip(2) by (simp add: uses_def)
  obtain B where f: "bufs (world P) p = Some B" "same_place B (B\<lparr>buf_status := kMemBufUsedByEvent\<rparr>)"
      "Free p kMemBufIdle al (world P) = Some (False, al,
         (world P)\<lparr>bufs := (bufs (world P))(p \<mapsto> B\<lparr>buf_status := kMemBufUsedByEvent\<rparr>)\<rparr>)"
    using Free_event [OF xy(5) pu ev, of kMemBufIdle] by blast
  have set_same: "set_al i al P = P"
    using xy(4) by (cases i) (simp_all add: get_al_def set_al_def al_set_same)
  have "DoFreeTensorMem a P = Some (False, P\<lparr>world := (world P)\<lparr>bufs :=
      (bufs (world P))(p \<mapsto> B\<lparr>buf_status := kMemBufUsedByEvent\<rparr>)\<rparr>\<rparr>)"
    using a f(1,3) xy(4) by (simp add: DoFreeTensorMem_def al_Free_def set_same)
  with f(1,2) pool_fields [OF tab ip(4) f(1,2) refl] show ?thesis by blast
qed

text \<open>\<open>DoFreeTensorMem\<close> on any address keeps the invariant.\<close>

lemma DoFreeTensorMem_total:
  assumes ok: "pool_ok dinv C N P lay"
  shows "\<exists>r P' lay'. DoFreeTensorMem a P = Some (r, P') \<and> pool_ok dinv C N P' lay' \<and>
    length (whole lay' P') = length (whole lay P) \<and>
    (case map_of (addr_mem_buf_allocators P) a of
       None \<Rightarrow> \<not> r \<and> P' = P
     | Some (p, i) \<Rightarrow>
         if IsEventNotUsed (events_of (bufs (world P)) p) then r \<and> freed a p P lay P' lay'
         else \<not> r \<and> in_use P' lay' = in_use P lay \<and> status_of (bufs (world P')) p = kMemBufUsedByEvent \<and>
           (\<forall>q. pool_seg P' q = pool_seg P q \<and>
              (q \<noteq> p \<longrightarrow> status_of (bufs (world P')) q = status_of (bufs (world P)) q)))"
proof (cases "map_of (addr_mem_buf_allocators P) a")
  case None
  with ok show ?thesis by (auto simp: DoFreeTensorMem_def)
next
  case (Some e)
  obtain p i where e: "e = (p, i)" by force
  have a: "map_of (addr_mem_buf_allocators P) a = Some (p, i)" using Some e by simp
  have tab: "pool_tab dinv C N P lay" and pairs: "pairs_ok P lay" using ok by (simp_all add: pool_ok_tab)
  show ?thesis
  proof (cases "IsEventNotUsed (events_of (bufs (world P)) p)")
    case True
    obtain P' lay' where f: "DoFreeTensorMem a P = Some (True, P')" "pool_tab dinv C N P' lay'"
        "freed a p P lay P' lay'"
      using DoFree_freed [OF tab a True] by blast
    have "pairs_ok P' lay'"
    proof -
      have "q \<in> in_use P' lay' \<and> \<not> IsEventNotUsed (events_of (bufs (world P')) q)"
        if q: "q \<in> in_use P lay" "\<not> IsEventNotUsed (events_of (bufs (world P)) q)" for q
      proof -
        have "q \<noteq> p" using q True by auto
        then have "q \<in> in_use P lay - {p}" using q by simp
        moreover have "relinked (bufs (world P)) (bufs (world P')) q"
          using f(3) calculation by (auto simp: freed_def)
        ultimately show ?thesis using f(3) q by (simp add: freed_def relinked_def)
      qed
      moreover have "stream_pair_mem_bufs P' = stream_pair_mem_bufs P" using f(3) by (simp add: freed_def)
      ultimately show ?thesis using pairs unfolding pairs_ok_def by fastforce
    qed
    with f a True show ?thesis
      by (intro exI [of _ True] exI [of _ P'] exI [of _ lay']) (simp add: pool_ok_tab freed_def)
  next
    case False
    obtain B P' where f: "bufs (world P) p = Some B" "DoFreeTensorMem a P = Some (False, P')"
        "pool_tab dinv C N P' lay" "in_use P' lay = in_use P lay" "whole lay P' = whole lay P"
      and P': "P' = P\<lparr>world := (world P)\<lparr>bufs := (bufs (world P))(p \<mapsto> B\<lparr>buf_status := kMemBufUsedByEvent\<rparr>)\<rparr>\<rparr>"
      using DoFree_marked [OF tab a False] by blast
    have f6: "bufs (world P') = (bufs (world P))(p \<mapsto> B\<lparr>buf_status := kMemBufUsedByEvent\<rparr>)"
        "stream_pair_mem_bufs P' = stream_pair_mem_bufs P"
      by (simp_all add: P')
    have "events_of (bufs (world P')) q = events_of (bufs (world P)) q" for q
      using f(1) by (simp add: events_of_def f6)
    then have "pairs_ok P' lay" using pairs by (simp add: pairs_ok_def f(4) f6)
    with f f6 a False show ?thesis
      by (intro exI [of _ False] exI [of _ P'] exI [of _ lay]) (simp add: pool_ok_tab status_of_def seg_of_def)
  qed
qed

end

end
