(* ===== verification/Mem_Pool_Eager.thy ===== *)
theory Mem_Pool_Eager
  imports Mem_Pool_Ops
begin

text \<open>
  Frames of the pool's invariant, and the operations that give idle memory back to the device:
  they keep the invariant and every buffer in use.
\<close>

section \<open>Buffers that stay\<close>

text \<open>Every buffer that is plainly used (not only by an event) stays in use at its place.\<close>

definition stays :: "'d pool \<Rightarrow> pool_layout \<Rightarrow> 'd pool \<Rightarrow> pool_layout \<Rightarrow> bool" where
  "stays P lay P' lay' \<longleftrightarrow> (\<forall>q \<in> in_use P lay. status_of (bufs (world P)) q = kMemBufUsed \<longrightarrow>
     q \<in> in_use P' lay' \<and> pool_seg P' q = pool_seg P q \<and> status_of (bufs (world P')) q = kMemBufUsed)"

lemma stays_refl [simp]: "stays P lay P lay"
  by (simp add: stays_def)

lemma stays_trans: "stays P lay P1 lay1 \<Longrightarrow> stays P1 lay1 P2 lay2 \<Longrightarrow> stays P lay P2 lay2"
  by (simp add: stays_def)

text \<open>Every buffer in use afterwards was in use before, at the same place and with the same status.\<close>

definition left :: "'d pool \<Rightarrow> pool_layout \<Rightarrow> 'd pool \<Rightarrow> pool_layout \<Rightarrow> bool" where
  "left P lay P' lay' \<longleftrightarrow> in_use P' lay' \<subseteq> in_use P lay \<and>
     (\<forall>q \<in> in_use P' lay'. pool_seg P' q = pool_seg P q \<and>
        status_of (bufs (world P')) q = status_of (bufs (world P)) q)"

lemma left_refl [simp]: "left P lay P lay"
  by (simp add: left_def)

lemma left_trans: "left P lay P1 lay1 \<Longrightarrow> left P1 lay1 P2 lay2 \<Longrightarrow> left P lay P2 lay2"
  by (auto simp: left_def)

lemma left_freed: "freed a p P lay P' lay' \<Longrightarrow> left P lay P' lay'"
  unfolding left_def freed_def relinked_def by blast

lemma stays_same: "left P lay P' lay' \<Longrightarrow> in_use P' lay' = in_use P lay \<Longrightarrow> stays P lay P' lay'"
  by (simp add: stays_def left_def)

text \<open>A step of one allocator that leaves its buffers in use as they are keeps the tables.\<close>

lemma addr_rep_same:
  assumes "addr_rep P lay" "ids P' = ids P" "addr_mem_buf_allocators P' = addr_mem_buf_allocators P"
    and u: "\<And>j. j \<in> set (ids P) \<Longrightarrow> uses P' lay' j = uses P lay j"
    and s: "\<And>q. q \<in> in_use P lay \<Longrightarrow> pool_seg P' q = pool_seg P q"
  shows "addr_rep P' lay'"
proof -
  have "(j \<in> set (ids P) \<and> q \<in> uses P lay j \<and> fst (pool_seg P q) = b) \<longleftrightarrow>
      (j \<in> set (ids P) \<and> q \<in> uses P' lay' j \<and> fst (pool_seg P' q) = b)" for j q b
  proof (cases "j \<in> set (ids P) \<and> q \<in> uses P lay j")
    case True
    then have "q \<in> in_use P lay" by (auto simp: in_use_def)
    with True u s show ?thesis by simp
  qed (use u in blast)
  with assms(1-3) show ?thesis by (simp add: addr_rep_def)
qed

lemma size_rep_same:
  assumes "size_rep P lay" "in_use P' lay' = in_use P lay" "used_size (stat (world P')) = used_size (stat (world P))"
    and s: "\<And>q. q \<in> in_use P lay \<Longrightarrow> pool_seg P' q = pool_seg P q"
  shows "size_rep P' lay'"
proof -
  have "(\<Sum>q \<in> in_use P lay. snd (pool_seg P' q)) = (\<Sum>q \<in> in_use P lay. snd (pool_seg P q))"
    by (rule sum.cong) (simp_all add: s)
  with assms(1-3) show ?thesis by (simp add: size_rep_def)
qed

lemma al_step_ok:
  assumes ok: "pool_ok dinv C N P lay" and core: "pool_core dinv C N P' lay'"
    and st: "al_step i {} P lay P' lay'" and i: "i \<in> set (ids P)" "uses P' lay' i = uses P lay i"
    and sf: "stat_frame (world P) (world P')"
  shows "pool_ok dinv C N P' lay'" "left P lay P' lay'" "in_use P' lay' = in_use P lay"
proof -
  show inu: "in_use P' lay' = in_use P lay"
    using al_step_in_use [OF st i(1)] in_use_split [OF i(1)] i(2) by simp
  then show "left P lay P' lay'" using al_step_kept(1,2) [OF st] by (simp add: left_def)
  have u: "uses P' lay' j = uses P lay j" if "j \<in> set (ids P)" for j
    using st i(2) that by (cases "j = i") (simp_all add: al_step_def)
  have s: "pool_seg P' q = pool_seg P q" if "q \<in> in_use P lay" for q
    using al_step_kept(1) [OF st that] by simp
  have f: "ids P' = ids P" "addr_mem_buf_allocators P' = addr_mem_buf_allocators P"
      "used_size (stat (world P')) = used_size (stat (world P))"
    using st arg_cong [OF sf [unfolded stat_frame_def], of used_size] by (simp_all add: al_step_def)
  have "addr_rep P' lay'"
    by (rule addr_rep_same [OF _ f(1,2) u s]) (use ok in \<open>simp_all add: pool_ok_def\<close>)
  moreover have "size_rep P' lay'"
    by (rule size_rep_same [OF _ inu f(3) s]) (use ok in \<open>simp_all add: pool_ok_def\<close>)
  moreover have "pairs_ok P' lay'"
    by (rule pairs_ok_step [OF _ st]) (use ok inu in \<open>simp_all add: pool_ok_def\<close>)
  ultimately show "pool_ok dinv C N P' lay'" using core by (simp add: pool_ok_def)
qed

lemma pool_ok_frame:
  assumes ok: "pool_ok dinv C N P lay"
    and al: "stream_id_allocators P' = stream_id_allocators P" "tiny_allocator P' = tiny_allocator P"
    and w: "bufs (world P') = bufs (world P)" "blk_ext (world P') = blk_ext (world P)" "fresh (world P') = fresh (world P)"
    and f: "config P' = config P" "addr_mem_buf_allocators P' = addr_mem_buf_allocators P"
      "stream_pair_mem_bufs P' = stream_pair_mem_bufs P" "used_size (stat (world P')) = used_size (stat (world P))"
    and inv: "world_inv dinv (N - length (whole lay P)) (world P')"
  shows "pool_ok dinv C N P' lay" "in_use P' lay = in_use P lay" "whole lay P' = whole lay P" "left P lay P' lay"
proof -
  have rep: "pool_rep P lay" using ok by (simp add: pool_ok_def pool_core_def)
  note fr = pool_rep_frame [OF rep al w]
  show inu: "in_use P' lay = in_use P lay" and wh: "whole lay P' = whole lay P" by (fact fr)+
  show "left P lay P' lay" by (simp add: left_def inu w(1))
  have "pool_core dinv C N P' lay" using ok fr(1) wh inv f(1) by (simp add: pool_ok_def pool_core_def)
  moreover have "addr_rep P' lay"
    by (rule addr_rep_same) (use ok fr f w in \<open>simp_all add: pool_ok_def\<close>)
  moreover have "size_rep P' lay"
    by (rule size_rep_same) (use ok inu f w in \<open>simp_all add: pool_ok_def\<close>)
  moreover have "pairs_ok P' lay" using ok inu f w by (simp add: pool_ok_def pairs_ok_def)
  ultimately show "pool_ok dinv C N P' lay" by (simp add: pool_ok_def)
qed

section \<open>Eager free of the pool\<close>

context pool_device
begin

lemma free_idle_key:
  assumes core: "pool_core dinv C N P lay" and i: "Keyed k \<in> set (ids P)"
  shows "\<exists>al e r al' w' lay'. get_al (Keyed k) P = Some al \<and>
    Allocator_FreeIdleMemsByEagerFree (callbacks_of D (config P) (Keyed k)) al (world P) = Some ((e, r), al', w') \<and>
    pool_core dinv C N ((set_al (Keyed k) al' P)\<lparr>world := w'\<rparr>) lay' \<and>
    al_step (Keyed k) {} P lay ((set_al (Keyed k) al' P)\<lparr>world := w'\<rparr>) lay' \<and>
    uses ((set_al (Keyed k) al' P)\<lparr>world := w'\<rparr>) lay' (Keyed k) = uses P lay (Keyed k) \<and>
    stat_frame (world P) w' \<and> e = word_total (segs (bufs (world P)) (free_mem_bufs al)) \<and> free_mem_bufs al' = [] \<and>
    length (whole lay' ((set_al (Keyed k) al' P)\<lparr>world := w'\<rparr>)) = length (whole lay P)"
proof -
  let ?i = "Keyed k"
  have rep: "pool_rep P lay" and cfg: "config P = C" using core by (simp_all add: pool_core_def)
  obtain xs ys al where xy: "ids P = xs @ ?i # ys" "?i \<notin> set xs" "?i \<notin> set ys" "get_al ?i P = Some al"
      "alloc_state (world P) (concat (map lay xs)) (lay ?i) (concat (map lay ys)) al"
    using rep i by (rule pool_split)
  have "world_inv dinv (N - length (whole lay P)) (world P)" using core by (simp add: pool_core_def)
  from prov.FreeIdle_total [OF xy(5) this, of ?i] obtain m al' w' L' where f:
      "Allocator_FreeIdleMemsByEagerFree (callbacks_of D C ?i) al (world P) =
         Some ((word_total (segs (bufs (world P)) (free_mem_bufs al)), m), al', w')"
      "world_inv dinv (N - length (whole lay P)) w'"
      "alloc_state w' (concat (map lay xs)) L' (concat (map lay ys)) al'" "free_mem_bufs al' = []" "mem_blocks al' = mem_blocks al"
      "used (bufs w') L' = used (bufs (world P)) (lay ?i)"
      "keeps (world P) (concat (map lay xs)) (concat (map lay ys)) (used (bufs (world P)) (lay ?i)) w'"
    by blast
  have keeps: "keeps (world P) (concat (map lay xs)) (concat (map lay ys)) (uses P lay ?i - {}) w'"
    using f(7) by (simp add: uses_def)
  note step = al_step_join [OF rep xy(1-3) f(3) keeps]
  let ?P = "(set_al ?i al' P)\<lparr>world := w'\<rparr>"
  let ?lay = "lay(?i := L')"
  have "length L' = length (lay ?i)"
    using xy(5) f(3,5) by (metis alloc_state_def length_map)
  then have len: "length (whole ?lay ?P) = length (whole lay P)" using step(2) by simp
  have "pool_core dinv C N ?P ?lay"
    using step(1) len f(2) core by (auto simp: pool_core_def al_step_def)
  moreover have "uses ?P ?lay ?i = uses P lay ?i" using f(6) by (simp add: uses_def)
  moreover have "stat_frame (world P) w'" using f(7) by (simp add: keeps_def)
  ultimately show ?thesis using xy(4) f(1,4) step(1) len cfg by blast
qed

lemma free_idle_keys_total:
  assumes "pool_ok dinv C N P lay" "\<And>k. k \<in> set ks \<Longrightarrow> Keyed k \<in> set (ids P)"
  shows "\<exists>e r P' lay'. free_idle_keys D ks acc P = Some ((e, r), P') \<and> pool_ok dinv C N P' lay' \<and>
    ids P' = ids P \<and> in_use P' lay' = in_use P lay \<and> left P lay P' lay' \<and>
    length (whole lay' P') = length (whole lay P) \<and> stat_frame (world P) (world P')"
  using assms
proof (induction ks arbitrary: acc P lay)
  case Nil
  then show ?case
    by (intro exI [of _ "fst acc"] exI [of _ "snd acc"] exI [of _ P] exI [of _ lay]) simp
next
  case (Cons k ks)
  have core: "pool_core dinv C N P lay" and i: "Keyed k \<in> set (ids P)"
    using Cons.prems by (simp_all add: pool_ok_def)
  obtain al e r al' w' lay1 where f: "get_al (Keyed k) P = Some al"
      "Allocator_FreeIdleMemsByEagerFree (callbacks_of D (config P) (Keyed k)) al (world P) = Some ((e, r), al', w')"
    and core1: "pool_core dinv C N ((set_al (Keyed k) al' P)\<lparr>world := w'\<rparr>) lay1"
    and st: "al_step (Keyed k) {} P lay ((set_al (Keyed k) al' P)\<lparr>world := w'\<rparr>) lay1"
    and u: "uses ((set_al (Keyed k) al' P)\<lparr>world := w'\<rparr>) lay1 (Keyed k) = uses P lay (Keyed k)"
    and sf: "stat_frame (world P) w'"
    and len: "length (whole lay1 ((set_al (Keyed k) al' P)\<lparr>world := w'\<rparr>)) = length (whole lay P)"
    using free_idle_key [OF core i] by blast
  let ?P = "(set_al (Keyed k) al' P)\<lparr>world := w'\<rparr>"
  have sf': "stat_frame (world P) (world ?P)" using sf by simp
  note ok1 = al_step_ok [OF Cons.prems(1) core1 st i u sf']
  have ids: "ids ?P = ids P" using st by (simp add: al_step_def)
  obtain e' r' P' lay' where g: "free_idle_keys D ks (fst acc + e, snd acc + r) ?P = Some ((e', r'), P')"
      "pool_ok dinv C N P' lay'" "ids P' = ids ?P" "in_use P' lay' = in_use ?P lay1"
      "left ?P lay1 P' lay'" "length (whole lay' P') = length (whole lay1 ?P)" "stat_frame (world ?P) (world P')"
    using Cons.IH [OF ok1(1), of "(fst acc + e, snd acc + r)"] Cons.prems(2) ids by auto
  have "stat_frame (world P) (world P')" using stat_frame_trans [OF sf' g(7)] .
  then show ?case
    using f g ids ok1(3) len left_trans [OF ok1(2) g(5)]
    by (intro exI [of _ e'] exI [of _ r'] exI [of _ P'] exI [of _ lay']) simp
qed

lemma FreeIdleMemsByEagerFree_total:
  assumes ok: "pool_ok dinv C N P lay"
  shows "\<exists>e P' lay'. FreeIdleMemsByEagerFree D P = Some (e, P') \<and> pool_ok dinv C N P' lay' \<and>
    ids P' = ids P \<and> in_use P' lay' = in_use P lay \<and> left P lay P' lay' \<and>
    length (whole lay' P') = length (whole lay P)"
proof -
  let ?P = "P\<lparr>eager_free_count := eager_free_count P + 1\<rparr>"
  have inv: "world_inv dinv (N - length (whole lay P)) (world P)" using ok by (simp add: pool_ok_def pool_core_def)
  have ok1: "pool_ok dinv C N ?P lay" "in_use ?P lay = in_use P lay" "whole lay ?P = whole lay P" "left P lay ?P lay"
    using pool_ok_frame [OF ok, of ?P] inv by simp_all
  have "Keyed k \<in> set (ids ?P)" if "k \<in> set (map fst (stream_id_allocators ?P))" for k
    using that by (auto simp: ids_def)
  from free_idle_keys_total [OF ok1(1) this] obtain e r P2 lay2 where
    f: "free_idle_keys D (map fst (stream_id_allocators ?P)) (0, 0) ?P = Some ((e, r), P2)"
      "pool_ok dinv C N P2 lay2" "ids P2 = ids ?P" "in_use P2 lay2 = in_use ?P lay" "left ?P lay P2 lay2"
      "length (whole lay2 P2) = length (whole lay ?P)"
    by blast
  let ?P' = "pool_stat (\<lambda>s. s\<lparr>eager_free_size := eager_free_size s + e\<rparr>) P2"
  have inv2: "world_inv dinv (N - length (whole lay2 P2)) (world ?P')"
    using f(2) by (simp add: pool_ok_def pool_core_def world_inv_def)
  have tiny: "tiny_allocator ?P' = tiny_allocator P2" by (simp add: pool_stat_def)
  note ok2 = pool_ok_frame [OF f(2), of ?P', OF _ tiny _ _ _ _ _ _ _ inv2, simplified]
  have "left P lay ?P' lay2" using left_trans [OF left_trans [OF ok1(4) f(5)] ok2(4)] .
  moreover have "FreeIdleMemsByEagerFree D P = Some ((e, r), ?P')"
    using f(1) by (simp add: FreeIdleMemsByEagerFree_def Let_def)
  moreover have "ids ?P' = ids P" using f(3) by simp
  moreover have "in_use ?P' lay2 = in_use P lay" using ok2(2) f(4) ok1(2) by simp
  moreover have "length (whole lay2 ?P') = length (whole lay P)" using ok2(3) f(6) ok1(3) by simp
  ultimately show ?thesis using ok2(1) by blast
qed

lemma sync_streams_total:
  assumes ok: "pool_ok dinv C N P lay"
  shows "\<exists>r P'. sync_streams D P = Some (r, P') \<and> pool_ok dinv C N P' lay \<and> ids P' = ids P \<and>
    in_use P' lay = in_use P lay \<and> left P lay P' lay \<and> whole lay P' = whole lay P"
proof -
  have "dinv (N - length (whole lay P)) (dev (world P)) (ran (blk_ext (world P)))"
    using ok by (simp add: pool_ok_def pool_core_def world_inv_def)
  from sync_dev [OF this] obtain r d where d: "SyncAllStreams D (dev (world P)) = Some (r, d)"
    "dinv (N - length (whole lay P)) d (ran (blk_ext (world P)))" by blast
  let ?P = "P\<lparr>world := (world P)\<lparr>dev := d\<rparr>\<rparr>"
  have "blk_ext (world ?P) = blk_ext (world P)" by (simp add: blk_ext_def fun_eq_iff)
  with d(2) pool_ok_frame [OF ok, of ?P] have "pool_ok dinv C N ?P lay" "in_use ?P lay = in_use P lay"
      "whole lay ?P = whole lay P" "left P lay ?P lay"
    by (simp_all add: world_inv_def)
  with d(1) show ?thesis by (simp add: sync_streams_def)
qed

text \<open>\<open>DefragMemory\<close> only gives idle memory back to the device.\<close>

lemma DefragMemory_total:
  assumes ok: "pool_ok dinv C N P lay"
  shows "\<exists>P' lay'. DefragMemory D P = Some P' \<and> pool_ok dinv C N P' lay' \<and>
    in_use P' lay' = in_use P lay \<and> left P lay P' lay'"
proof -
  obtain r P1 where s: "sync_streams D P = Some (r, P1)" "pool_ok dinv C N P1 lay"
      "in_use P1 lay = in_use P lay" "left P lay P1 lay"
    using sync_streams_total [OF ok] by blast
  obtain e P2 lay2 where f: "FreeIdleMemsByEagerFree D P1 = Some (e, P2)" "pool_ok dinv C N P2 lay2"
      "in_use P2 lay2 = in_use P1 lay" "left P1 lay P2 lay2"
    using FreeIdleMemsByEagerFree_total [OF s(2)] by blast
  let ?P = "P2\<lparr>last_eager_free_count := eager_free_count P2\<rparr>"
  have inv: "world_inv dinv (N - length (whole lay2 P2)) (world P2)" using f(2) by (simp add: pool_ok_def pool_core_def)
  have g: "pool_ok dinv C N ?P lay2" "in_use ?P lay2 = in_use P lay" "left P lay ?P lay2"
    using pool_ok_frame [OF f(2), of ?P] inv f(3) s(3) left_trans [OF s(4) left_trans [OF f(4)]] by simp_all
  show ?thesis
  proof (cases "DefragMemory D P = Some P")
    case True
    with ok show ?thesis by (intro exI [of _ P] exI [of _ lay]) simp
  next
    case False
    then have "DefragMemory D P = (if r then Some ?P else Some P1)"
      using s(1) f(1) by (simp add: DefragMemory_def split: if_splits)
    with g s show ?thesis by (cases r) (auto intro: exI [of _ lay] exI [of _ lay2])
  qed
qed

end

end
