(* ===== verification/Mem_Pool_Sync.thy ===== *)
theory Mem_Pool_Sync
  imports Mem_Pool_Eager
begin

text \<open>
  \<open>DoSyncAllEvents\<close> of the pool: all events are over, so the buffers that were freed while an
  event referred to them become idle, and exactly these.
\<close>

text \<open>The buffers that a synchronisation of the buffers in \<open>X\<close> frees.\<close>

definition syncable :: "'d pool \<Rightarrow> ptr set \<Rightarrow> ptr set" where
  "syncable P X = {p \<in> X. status_of (bufs (world P)) p = kMemBufUsedByEvent \<and>
     \<not> IsEventNotUsed (events_of (bufs (world P)) p)}"

definition carried :: "'d pool \<Rightarrow> ptr set" where
  "carried P = (\<Union>(k, s) \<in> set (stream_pair_mem_bufs P). set s)"

context pool_device
begin

lemma addr_of_used:
  assumes tab: "pool_tab dinv C N P lay" and p: "p \<in> in_use P lay"
  obtains i where "map_of (addr_mem_buf_allocators P) (fst (pool_seg P p)) = Some (p, i)" "i \<in> set (ids P)" "p \<in> uses P lay i"
proof -
  obtain i where i: "i \<in> set (ids P)" "p \<in> uses P lay i" using p by (auto simp: in_use_def)
  then have "map_of (addr_mem_buf_allocators P) (fst (pool_seg P p)) = Some (p, i)"
    using tab by (simp add: pool_tab_def addr_rep_def)
  with i show ?thesis using that by blast
qed

lemma in_use_live:
  assumes tab: "pool_tab dinv C N P lay" and p: "p \<in> in_use P lay"
  obtains B where "bufs (world P) p = Some B" "\<not> free_status (buf_status B)"
proof -
  have "layout_rep (world P) (whole lay P)" using tab by (simp add: pool_tab_def pool_core_def pool_rep_def)
  from layout_live [OF this in_use_ptrs [OF p]] obtain B where B: "bufs (world P) p = Some B"
    by (auto elim: liveE)
  have "\<not> free_status (status_of (bufs (world P)) p)"
    using p unfolding in_use_whole by (simp add: used_def)
  with B show ?thesis using that by (simp add: status_of_Some)
qed

text \<open>One buffer of the loop: its events go, and if it was only kept for them, so does the buffer.\<close>

lemma sync_one:
  assumes tab: "pool_tab dinv C N P lay" and p: "p \<in> in_use P lay"
  shows "\<exists>P' lay'. sync_mem_bufs (p # ps) P = sync_mem_bufs ps P' \<and> pool_tab dinv C N P' lay' \<and>
    in_use P' lay' = in_use P lay - syncable P {p} \<and> left P lay P' lay' \<and> ids P' = ids P \<and>
    length (whole lay' P') = length (whole lay P) \<and> stream_pair_mem_bufs P' = stream_pair_mem_bufs P \<and>
    (\<forall>q \<in> in_use P' lay' - {p}. events_of (bufs (world P')) q = events_of (bufs (world P)) q)"
proof -
  obtain B where B: "bufs (world P) p = Some B" "\<not> free_status (buf_status B)"
    using tab p by (rule in_use_live)
  define evs where "evs = snd (EventBase_SyncAllEvents (buf_events B))"
  let ?B = "B\<lparr>buf_events := evs\<rparr>"
  define P1 where "P1 = P\<lparr>world := (world P)\<lparr>bufs := (bufs (world P))(p \<mapsto> ?B)\<rparr>\<rparr>"
  have "same_place B ?B" using B(2) by (simp add: same_place_def)
  note f = pool_fields [OF tab p B(1) this P1_def]
  have ev: "IsEventNotUsed evs" by (simp add: evs_def EventBase_SyncAllEvents_def IsEventNotUsed_def)
  have b1: "bufs (world P1) = (bufs (world P))(p \<mapsto> ?B)" by (simp add: P1_def)
  have sy: "fst (EventBase_SyncAllEvents (buf_events B)) \<longleftrightarrow> \<not> IsEventNotUsed (buf_events B)"
    by (simp add: EventBase_SyncAllEvents_def)
  have st: "status_of (bufs (world P)) p = buf_status B" "events_of (bufs (world P)) p = buf_events B"
    using B(1) by (simp_all add: status_of_def events_of_def)
  have left1: "left P lay P1 lay"
    unfolding left_def using f(2,4) B(1) by (auto simp: b1 status_of_def)
  have ev1: "events_of (bufs (world P1)) q = events_of (bufs (world P)) q" if "q \<noteq> p" for q
    using that by (simp add: b1 events_of_def)
  show ?thesis
  proof (cases "p \<in> syncable P {p}")
    case True
    then have c: "buf_status B = kMemBufUsedByEvent" "\<not> IsEventNotUsed (buf_events B)"
      using st by (simp_all add: syncable_def)
    have p1: "p \<in> in_use P1 lay" using p f(2) by simp
    obtain i where a: "map_of (addr_mem_buf_allocators P1) (fst (pool_seg P1 p)) = Some (p, i)"
      using f(1) p1 by (rule addr_of_used)
    have "IsEventNotUsed (events_of (bufs (world P1)) p)" using ev by (simp add: b1 events_of_def)
    from DoFree_freed [OF f(1) a this] obtain P' lay' where
      d: "DoFreeTensorMem (fst (pool_seg P1 p)) P1 = Some (True, P')" "pool_tab dinv C N P' lay'"
        "freed (fst (pool_seg P1 p)) p P1 lay P' lay'" by blast
    have "fst (pool_seg P1 p) = buf_addr B" by (simp add: b1 seg_of_def)
    then have run: "sync_mem_bufs (p # ps) P = sync_mem_bufs ps P'"
      using B(1) c sy d(1) by (simp add: case_prod_beta mod_buf_def evs_def P1_def Let_def)
    have S: "syncable P {p} = {p}" using True by (auto simp: syncable_def)
    have fr: "in_use P' lay' = in_use P lay - {p}" "ids P' = ids P" "length (whole lay' P') = length (whole lay P)"
        "stream_pair_mem_bufs P' = stream_pair_mem_bufs P"
      using d(3) f by (simp_all add: freed_def P1_def)
    have "events_of (bufs (world P')) q = events_of (bufs (world P)) q" if "q \<in> in_use P' lay' - {p}" for q
    proof -
      have "relinked (bufs (world P1)) (bufs (world P')) q" using that d(3) by (auto simp: freed_def)
      then show ?thesis using ev1 that by (simp add: relinked_def)
    qed
    then show ?thesis
      using run d(2) fr S left_trans [OF left1 left_freed [OF d(3)]] by blast
  next
    case False
    then have S: "syncable P {p} = {}" by (auto simp: syncable_def)
    from False have "\<not> (\<not> IsEventNotUsed (buf_events B) \<and> buf_status B = kMemBufUsedByEvent)"
      using st by (auto simp: syncable_def)
    then have "sync_mem_bufs (p # ps) P = sync_mem_bufs ps P1"
      using B(1) sy by (auto simp: case_prod_beta mod_buf_def evs_def P1_def Let_def)
    moreover have "stream_pair_mem_bufs P1 = stream_pair_mem_bufs P" by (simp add: P1_def)
    ultimately show ?thesis
      using f S left1 ev1 by (intro exI [of _ P1] exI [of _ lay]) simp
  qed
qed

lemma sync_mem_bufs_total:
  assumes "pool_tab dinv C N P lay" "set ps \<subseteq> in_use P lay" "distinct ps"
  shows "\<exists>P' lay'. sync_mem_bufs ps P = Some P' \<and> pool_tab dinv C N P' lay' \<and>
    in_use P' lay' = in_use P lay - syncable P (set ps) \<and> left P lay P' lay' \<and> ids P' = ids P \<and>
    length (whole lay' P') = length (whole lay P)"
  using assms
proof (induction ps arbitrary: P lay)
  case Nil
  then show ?case by (intro exI [of _ P] exI [of _ lay]) (simp add: syncable_def)
next
  case (Cons p ps)
  have p: "p \<in> in_use P lay" using Cons.prems by simp
  obtain P1 lay1 where s: "sync_mem_bufs (p # ps) P = sync_mem_bufs ps P1" "pool_tab dinv C N P1 lay1"
      "in_use P1 lay1 = in_use P lay - syncable P {p}" "left P lay P1 lay1" "ids P1 = ids P"
      "length (whole lay1 P1) = length (whole lay P)"
      "\<forall>q \<in> in_use P1 lay1 - {p}. events_of (bufs (world P1)) q = events_of (bufs (world P)) q"
    using sync_one [OF Cons.prems(1) p] by blast
  have sub: "set ps \<subseteq> in_use P1 lay1"
    using Cons.prems(2,3) s(3) by (auto simp: syncable_def)
  have same: "syncable P1 (set ps) = syncable P (set ps)"
  proof -
    have "status_of (bufs (world P1)) q = status_of (bufs (world P)) q \<and>
        events_of (bufs (world P1)) q = events_of (bufs (world P)) q" if "q \<in> set ps" for q
      using s(4,7) sub that Cons.prems(3) by (auto simp: left_def)
    then show ?thesis by (auto simp: syncable_def)
  qed
  obtain P' lay' where t: "sync_mem_bufs ps P1 = Some P'" "pool_tab dinv C N P' lay'"
      "in_use P' lay' = in_use P1 lay1 - syncable P1 (set ps)" "left P1 lay1 P' lay'" "ids P' = ids P1"
      "length (whole lay' P') = length (whole lay1 P1)"
    using Cons.IH [OF s(2) sub] Cons.prems(3) by auto
  have "in_use P' lay' = in_use P lay - syncable P (set (p # ps))"
    unfolding t(3) s(3) same by (auto simp: syncable_def)
  then show ?case
    using s t left_trans [OF s(4) t(4)] by (intro exI [of _ P'] exI [of _ lay']) simp
qed

lemma DoSyncAllEvents_total:
  assumes ok: "pool_ok dinv C N P lay"
  shows "\<exists>r P' lay'. DoSyncAllEvents P = Some (r, P') \<and> pool_ok dinv C N P' lay' \<and>
    in_use P' lay' = in_use P lay - {p \<in> carried P. status_of (bufs (world P)) p = kMemBufUsedByEvent} \<and>
    left P lay P' lay' \<and> ids P' = ids P \<and> length (whole lay' P') = length (whole lay P) \<and>
    stream_pair_mem_bufs P' = []"
proof (cases "stream_pair_mem_bufs P = []")
  case True
  with ok show ?thesis
    by (intro exI [of _ False] exI [of _ P] exI [of _ lay]) (simp add: DoSyncAllEvents_def carried_def)
next
  case False
  have tab: "pool_tab dinv C N P lay" and pairs: "pairs_ok P lay" using ok by (simp_all add: pool_ok_tab)
  define ps where "ps = foldl (\<lambda>s p. oset_emplace (<) p s) [] (concat (map snd (stream_pair_mem_bufs P)))"
  have ps: "set ps = carried P" "distinct ps"
    using foldl_emplace [of "[]" "concat (map snd (stream_pair_mem_bufs P))"] nat_order.sorted_distinct [of ps]
    by (auto simp: ps_def carried_def)
  have cu: "p \<in> in_use P lay" "\<not> IsEventNotUsed (events_of (bufs (world P)) p)" if "p \<in> carried P" for p
    using that pairs by (auto simp: carried_def pairs_ok_def)
  obtain P1 lay' where s: "sync_mem_bufs ps P = Some P1" "pool_tab dinv C N P1 lay'"
      "in_use P1 lay' = in_use P lay - syncable P (set ps)" "left P lay P1 lay'" "ids P1 = ids P"
      "length (whole lay' P1) = length (whole lay P)"
    using sync_mem_bufs_total [OF tab _ ps(2)] cu ps(1) by blast
  let ?P = "P1\<lparr>stream_pair_mem_bufs := []\<rparr>"
  have run: "DoSyncAllEvents P = Some (True, ?P)"
    using False s(1) by (simp add: DoSyncAllEvents_def ps_def [symmetric])
  have rep1: "pool_rep P1 lay'" using s(2) by (simp add: pool_tab_def pool_core_def)
  have fr: "pool_rep ?P lay'" "whole lay' ?P = whole lay' P1" "uses ?P lay' = uses P1 lay'"
      "in_use ?P lay' = in_use P1 lay'" "ids ?P = ids P1"
    using pool_rep_frame [OF rep1, of ?P] by simp_all
  have "pool_ok dinv C N ?P lay'"
    using s(2) fr
    by (simp add: pool_ok_def pool_tab_def pool_core_def addr_rep_def size_rep_def pairs_ok_def)
  moreover have "syncable P (set ps) = {p \<in> carried P. status_of (bufs (world P)) p = kMemBufUsedByEvent}"
    unfolding ps(1) using cu(2) by (auto simp: syncable_def)
  moreover have "left P lay ?P lay'" using s(4) by (simp add: left_def fr)
  ultimately show ?thesis
    using run s fr by (intro exI [of _ True] exI [of _ ?P] exI [of _ lay']) simp
qed

end

text \<open>A buffer that is plainly used is not among those a synchronisation gives up.\<close>

lemma stays_left:
  assumes "left P lay P' lay'" "in_use P' lay' = in_use P lay - {p \<in> X. status_of (bufs (world P)) p = kMemBufUsedByEvent}"
  shows "stays P lay P' lay'"
  using assms by (auto simp: stays_def left_def)

end
