(* ===== verification/Mem_Pool_Alloc.thy ===== *)
theory Mem_Pool_Alloc
  imports Mem_Pool_Sync
begin

text \<open>
  Allocation from the pool: the fall-backs (eager free, a new block, waiting for all events) keep
  the invariant, and a successful allocation hands out a range that no other buffer in use has.
\<close>

section \<open>Chains of attempts\<close>

text \<open>What an attempt that hands out nothing does: at most \<open>k\<close> new blocks, no new buffer in use.\<close>

definition moved :: "nat \<Rightarrow> 'd pool \<Rightarrow> pool_layout \<Rightarrow> 'd pool \<Rightarrow> pool_layout \<Rightarrow> bool" where
  "moved k P lay P' lay' \<longleftrightarrow> left P lay P' lay' \<and> stays P lay P' lay' \<and> set (ids P) \<subseteq> set (ids P') \<and>
     length (whole lay' P') \<le> length (whole lay P) + k"

lemma moved_refl [simp]: "moved 0 P lay P lay"
  by (simp add: moved_def)

lemma moved_trans: "moved k P lay P1 lay1 \<Longrightarrow> moved l P1 lay1 P2 lay2 \<Longrightarrow> moved (k + l) P lay P2 lay2"
  unfolding moved_def by (auto intro: left_trans stays_trans)

lemma moved_mono: "moved k P lay P' lay' \<Longrightarrow> k \<le> l \<Longrightarrow> moved l P lay P' lay'"
  by (auto simp: moved_def)

lemma moved_same:
  assumes "left P lay P' lay'" "in_use P' lay' = in_use P lay" "ids P' = ids P" "length (whole lay' P') = length (whole lay P)"
  shows "moved 0 P lay P' lay'"
  using assms stays_same [OF assms(1,2)] by (simp add: moved_def)

text \<open>An attempt of the allocator \<open>i\<close> that ends with \<open>r\<close>, after at most \<open>k\<close> new blocks.\<close>

definition tried ::
    "(nat \<Rightarrow> 'd \<Rightarrow> seg set \<Rightarrow> bool) \<Rightarrow> pool_config \<Rightarrow> nat \<Rightarrow> nat \<Rightarrow> size_t \<Rightarrow> 'd pool \<Rightarrow> pool_layout \<Rightarrow>
     ptr option \<Rightarrow> alloc_id \<Rightarrow> 'd pool \<Rightarrow> bool" where
  "tried dinv C N k sz P lay r i P' \<longleftrightarrow>
     (case r of
        None \<Rightarrow> \<exists>lay'. pool_ok dinv C N P' lay' \<and> moved k P lay P' lay' \<and> i \<in> set (ids P')
      | Some p \<Rightarrow> \<exists>P1 lay1 lay'. pool_ok dinv C N P1 lay1 \<and> moved k P lay P1 lay1 \<and> i \<in> set (ids P1) \<and>
          pool_core dinv C N P' lay' \<and> malloc_step i sz P1 lay1 (Some p) P' lay')"

lemma tried_after:
  assumes "moved k P lay P1 lay1" "tried dinv C N l sz P1 lay1 r i P'" "k + l \<le> m"
  shows "tried dinv C N m sz P lay r i P'"
proof (cases r)
  case None
  then obtain lay' where "pool_ok dinv C N P' lay'" "moved l P1 lay1 P' lay'" "i \<in> set (ids P')"
    using assms(2) by (auto simp: tried_def)
  with moved_mono [OF moved_trans [OF assms(1)] assms(3)] None show ?thesis by (auto simp: tried_def)
next
  case (Some p)
  then obtain P2 lay2 lay' where "pool_ok dinv C N P2 lay2" "moved l P1 lay1 P2 lay2" "i \<in> set (ids P2)"
      "pool_core dinv C N P' lay'" "malloc_step i sz P2 lay2 (Some p) P' lay'"
    using assms(2) by (auto simp: tried_def)
  with moved_mono [OF moved_trans [OF assms(1)] assms(3)] Some show ?thesis by (auto simp: tried_def)
qed

lemma lookup_ok:
  assumes ok: "pool_ok dinv C N P lay" and lk: "lookup_post P lay i P' lay'"
  shows "pool_ok dinv C N P' lay'" "moved 0 P lay P' lay'" "i \<in> set (ids P')"
proof -
  have f: "pool_rep P' lay'" "set (ids P) \<subseteq> set (ids P')" "world P' = world P" "config P' = config P"
      "whole lay' P' = whole lay P" "addr_mem_buf_allocators P' = addr_mem_buf_allocators P"
      "stream_pair_mem_bufs P' = stream_pair_mem_bufs P" "i \<in> set (ids P')"
      "\<And>j. j \<in> set (ids P) \<Longrightarrow> uses P' lay' j = uses P lay j"
      "\<And>j. j \<in> set (ids P') \<Longrightarrow> j \<notin> set (ids P) \<Longrightarrow> uses P' lay' j = {}"
    using lk by (simp_all add: lookup_post_def)
  show "i \<in> set (ids P')" by (fact f)
  have inu: "in_use P' lay' = in_use P lay" by (simp add: in_use_whole f)
  have "pool_core dinv C N P' lay'" using ok f by (simp add: pool_ok_def pool_core_def)
  moreover have "addr_rep P' lay'"
  proof -
    have "j \<in> set (ids P) \<and> q \<in> uses P lay j \<longleftrightarrow> j \<in> set (ids P') \<and> q \<in> uses P' lay' j" for j q
      using f(2,9,10) by (cases "j \<in> set (ids P)") auto
    with ok f(3,6) show ?thesis unfolding pool_ok_def addr_rep_def by metis
  qed
  moreover have "size_rep P' lay'" "pairs_ok P' lay'"
    using ok f inu by (simp_all add: pool_ok_def size_rep_def pairs_ok_def)
  ultimately show "pool_ok dinv C N P' lay'" by (simp add: pool_ok_def)
  show "moved 0 P lay P' lay'" using f inu by (simp add: moved_def left_def stays_def)
qed

lemma malloc_none:
  assumes ok: "pool_ok dinv C N P lay" and core: "pool_core dinv C N P' lay'"
    and st: "malloc_step i sz P lay None P' lay'" and i: "i \<in> set (ids P)"
  shows "pool_ok dinv C N P' lay'" "moved 1 P lay P' lay'" "i \<in> set (ids P')"
proof -
  have s: "al_step i {} P lay P' lay'" "uses P' lay' i = uses P lay i" "stat_frame (world P) (world P')"
      "length (whole lay' P') \<le> Suc (length (whole lay P))"
    using st by (simp_all add: malloc_step_def)
  note o = al_step_ok [OF ok core s(1) i s(2,3)]
  show "pool_ok dinv C N P' lay'" by (fact o)
  have ids: "ids P' = ids P" using s(1) by (simp add: al_step_def)
  then show "i \<in> set (ids P')" using i by simp
  show "moved 1 P lay P' lay'"
    using o(2) stays_same [OF o(2,3)] ids s(4) by (simp add: moved_def)
qed

lemma tried_malloc:
  assumes "pool_ok dinv C N P lay" "pool_core dinv C N P' lay'" "malloc_step i sz P lay r P' lay'" "i \<in> set (ids P)"
  shows "tried dinv C N 1 sz P lay r i P'"
proof (cases r)
  case None
  with assms malloc_none [of dinv C N P lay P' lay' i sz] show ?thesis by (auto simp: tried_def)
next
  case (Some p)
  have "moved 1 P lay P lay" by (rule moved_mono [OF moved_refl]) simp
  with Some assms show ?thesis by (auto simp: tried_def)
qed

context pool_device
begin

lemma al_Malloc_tried:
  assumes ok: "pool_ok dinv C N P lay" and lt: "length (whole lay P) < N" and i: "i \<in> set (ids P)"
    and sz: "0 < sz" "2 * unat sz \<le> lim"
  shows "\<exists>r P'. al_Malloc D i sz P = Some (r, P') \<and> tried dinv C N 1 sz P lay r i P'"
  using al_Malloc_total [OF _ lt i sz] tried_malloc [OF ok _ _ i] ok unfolding pool_ok_def by blast

lemma al_MallocExpandBlock_tried:
  assumes ok: "pool_ok dinv C N P lay" and lt: "length (whole lay P) < N" and i: "i \<in> set (ids P)"
    and sz: "0 < sz" "2 * unat sz \<le> lim"
  shows "\<exists>r P'. al_MallocExpandBlock D i sz P = Some (r, P') \<and> tried dinv C N 1 sz P lay r i P'"
  using al_MallocExpandBlock_total [OF _ lt i sz] tried_malloc [OF ok _ _ i] ok unfolding pool_ok_def by blast

lemma sync_all_moved:
  assumes ok: "pool_ok dinv C N P lay"
  shows "\<exists>r P' lay'. DoSyncAllEvents P = Some (r, P') \<and> pool_ok dinv C N P' lay' \<and> moved 0 P lay P' lay'"
proof -
  obtain r P' lay' where s: "DoSyncAllEvents P = Some (r, P')" "pool_ok dinv C N P' lay'"
      "in_use P' lay' = in_use P lay - {p \<in> carried P. status_of (bufs (world P)) p = kMemBufUsedByEvent}"
      "left P lay P' lay'" "ids P' = ids P" "length (whole lay' P') = length (whole lay P)"
    using DoSyncAllEvents_total [OF ok] by blast
  have "moved 0 P lay P' lay'" using s stays_left [OF s(4,3)] by (simp add: moved_def)
  with s show ?thesis by blast
qed

lemma alloc_after_expand_tried:
  assumes ok: "pool_ok dinv C N P lay" and lt: "length (whole lay P) + 2 \<le> N" and i: "i \<in> set (ids P)"
    and sz: "0 < sz" "2 * unat sz \<le> lim"
  shows "\<exists>r P'. alloc_after_expand D i sz P = Some (r, P') \<and> tried dinv C N 2 sz P lay r i P'"
proof -
  obtain r P1 where e: "al_MallocExpandBlock D i sz P = Some (r, P1)" "tried dinv C N 1 sz P lay r i P1"
    using al_MallocExpandBlock_tried [OF ok _ i sz] lt by auto
  show ?thesis
  proof (cases r)
    case None
    then obtain lay1 where t: "pool_ok dinv C N P1 lay1" "moved 1 P lay P1 lay1" "i \<in> set (ids P1)"
      using e(2) by (auto simp: tried_def)
    obtain b P2 lay2 where s: "DoSyncAllEvents P1 = Some (b, P2)" "pool_ok dinv C N P2 lay2" "moved 0 P1 lay1 P2 lay2"
      using sync_all_moved [OF t(1)] by blast
    have m: "moved 1 P lay P2 lay2" using moved_trans [OF t(2) s(3)] by simp
    have "length (whole lay2 P2) < N" "i \<in> set (ids P2)"
      using m lt t(3) s(3) by (auto simp: moved_def)
    from al_Malloc_tried [OF s(2) this sz] obtain r' P' where
      "al_Malloc D i sz P2 = Some (r', P')" "tried dinv C N 1 sz P2 lay2 r' i P'" by blast
    with e None s tried_after [OF m] show ?thesis by (auto simp: alloc_after_expand_def)
  next
    case (Some p)
    with e tried_after [OF moved_refl e(2), of 2] show ?thesis by (auto simp: alloc_after_expand_def)
  qed
qed

lemma alloc_after_eager_free_tried:
  assumes ok: "pool_ok dinv C N P lay" and lt: "length (whole lay P) + 3 \<le> N" and i: "i \<in> set (ids P)"
    and sz: "0 < sz" "2 * unat sz \<le> lim"
  shows "\<exists>r P'. alloc_after_eager_free D i sz P = Some (r, P') \<and> tried dinv C N 3 sz P lay r i P'"
proof (cases "IsEnableEagerFree D (dev (world P)) \<or> enable_vmm (config P)")
  case False
  obtain r P' where "alloc_after_expand D i sz P = Some (r, P')" "tried dinv C N 2 sz P lay r i P'"
    using alloc_after_expand_tried [OF ok _ i sz] lt by auto
  with False tried_after [OF moved_refl, of dinv C N 2 sz P lay r i P' 3] show ?thesis
    by (simp add: alloc_after_eager_free_def)
next
  case True
  obtain b P1 where s: "sync_streams D P = Some (b, P1)" "pool_ok dinv C N P1 lay" "moved 0 P lay P1 lay" "ids P1 = ids P"
    using sync_streams_total [OF ok] moved_same by metis
  show ?thesis
  proof (cases b)
    case False
    with True s i have "alloc_after_eager_free D i sz P = Some (None, P1)"
      by (simp add: alloc_after_eager_free_def)
    moreover have "tried dinv C N 3 sz P lay None i P1"
      using s i moved_mono [OF s(3)] by (auto simp: tried_def)
    ultimately show ?thesis by blast
  next
    case b: True
    obtain e P2 lay2 where f: "FreeIdleMemsByEagerFree D P1 = Some (e, P2)" "pool_ok dinv C N P2 lay2"
        "moved 0 P1 lay P2 lay2" "ids P2 = ids P1"
      using FreeIdleMemsByEagerFree_total [OF s(2)] moved_same by metis
    have m: "moved 0 P lay P2 lay2" using moved_trans [OF s(3) f(3)] by simp
    have i2: "i \<in> set (ids P2)" and lt2: "length (whole lay2 P2) < N"
      using i s(4) f(4) m lt by (simp_all add: moved_def)
    obtain r P3 where t: "al_Malloc D i sz P2 = Some (r, P3)" "tried dinv C N 1 sz P2 lay2 r i P3"
      using al_Malloc_tried [OF f(2) lt2 i2 sz] by blast
    show ?thesis
    proof (cases r)
      case None
      then obtain lay3 where k: "pool_ok dinv C N P3 lay3" "moved 1 P2 lay2 P3 lay3" "i \<in> set (ids P3)"
        using t(2) by (auto simp: tried_def)
      have m3: "moved 1 P lay P3 lay3" using moved_trans [OF m k(2)] by simp
      then have "length (whole lay3 P3) + 2 \<le> N" using lt by (simp add: moved_def)
      from alloc_after_expand_tried [OF k(1) this k(3) sz] obtain r' P' where
        "alloc_after_expand D i sz P3 = Some (r', P')" "tried dinv C N 2 sz P3 lay3 r' i P'" by blast
      with True b s(1) f(1) t(1) None tried_after [OF m3] show ?thesis
        by (auto simp: alloc_after_eager_free_def)
    next
      case (Some p)
      with True b s(1) f(1) t tried_after [OF m t(2), of 3] show ?thesis
        by (auto simp: alloc_after_eager_free_def)
    qed
  qed
qed

text \<open>Looking up the allocator and its first attempt.\<close>

lemma lookup_malloc_tried:
  assumes ok: "pool_ok dinv C N P lay" and lt: "length (whole lay P) < N" and sz: "0 < sz" "2 * unat sz \<le> lim"
  shows "\<exists>i P1 r P'. GetMemBufAllocator D sz fp sid P = (i, P1) \<and> al_Malloc D i sz P1 = Some (r, P') \<and>
    tried dinv C N 1 sz P lay r i P'"
proof -
  have "pool_rep P lay" using ok by (simp add: pool_ok_def pool_core_def)
  from GetMemBufAllocator_total [OF this] obtain i P1 lay1 where
    g: "GetMemBufAllocator D sz fp sid P = (i, P1)" "lookup_post P lay i P1 lay1" by blast
  note lk = lookup_ok [OF ok g(2)]
  have "length (whole lay1 P1) < N" using lk(2) lt by (simp add: moved_def)
  from al_Malloc_tried [OF lk(1) this lk(3) sz] tried_after [OF lk(2)] g(1) show ?thesis by fastforce
qed

text \<open>All attempts of \<open>AllocMemBuf\<close>; the statistics are updated when a buffer was found.\<close>

lemma AllocMemBuf_tried:
  assumes ok: "pool_ok dinv C N P lay" and lt: "length (whole lay P) + 5 \<le> N" and sz: "0 < sz" "2 * unat sz \<le> lim"
  shows "\<exists>r i P'. tried dinv C N 5 sz P lay r i P' \<and> AllocMemBuf D sz fp sid P =
    (case r of None \<Rightarrow> Some (None, P')
     | Some p \<Rightarrow> do {
         b \<leftarrow> bufs (world P') p;
         Some (Some (p, i), pool_stat (\<lambda>s. UpdatePeakSize (s\<lparr>used_size := used_size s + buf_size b\<rparr>)) P') })"
proof -
  have "length (whole lay P) < N" using lt by simp
  from lookup_malloc_tried [OF ok this sz, of fp sid] obtain i0 Q0 r0 P0 where
    a0: "GetMemBufAllocator D sz fp sid P = (i0, Q0)" "al_Malloc D i0 sz Q0 = Some (r0, P0)"
      "tried dinv C N 1 sz P lay r0 i0 P0" by blast
  obtain r1 i1 P1 where a1: "tried dinv C N 2 sz P lay r1 i1 P1"
    "(if r0 = None \<and> \<not> enable_vmm (config P0) \<and> fp then do {
        let (i, P) = GetMemBufAllocator D sz (\<not> fp) sid P0;
        (mem_buf, P) \<leftarrow> al_Malloc D i sz P;
        Some (mem_buf, i, P) } else Some (r0, i0, P0)) = Some (r1, i1, P1)"
  proof (cases "r0 = None \<and> \<not> enable_vmm (config P0) \<and> fp")
    case True
    then obtain lay0 where t: "pool_ok dinv C N P0 lay0" "moved 1 P lay P0 lay0"
      using a0(3) by (auto simp: tried_def)
    have "length (whole lay0 P0) < N" using t(2) lt by (simp add: moved_def)
    from lookup_malloc_tried [OF t(1) this sz, of "\<not> fp" sid] obtain i Q r P' where
      g: "GetMemBufAllocator D sz (\<not> fp) sid P0 = (i, Q)" "al_Malloc D i sz Q = Some (r, P')"
        "tried dinv C N 1 sz P0 lay0 r i P'" by blast
    have "tried dinv C N 2 sz P lay r i P'" by (rule tried_after [OF t(2) g(3)]) simp
    with True g that show ?thesis by simp
  next
    case False
    have "tried dinv C N 2 sz P lay r0 i0 P0" by (rule tried_after [OF moved_refl a0(3)]) simp
    moreover have "(if r0 = None \<and> \<not> enable_vmm (config P0) \<and> fp then do {
        let (i, P) = GetMemBufAllocator D sz (\<not> fp) sid P0;
        (mem_buf, P) \<leftarrow> al_Malloc D i sz P;
        Some (mem_buf, i, P) } else Some (r0, i0, P0)) = Some (r0, i0, P0)" by (rule if_not_P [OF False])
    ultimately show ?thesis by (rule that)
  qed
  obtain r P' where a2: "tried dinv C N 5 sz P lay r i1 P'"
    "(if r1 = None then alloc_after_eager_free D i1 sz P1 else Some (r1, P1)) = Some (r, P')"
  proof (cases r1)
    case None
    then obtain lay1 where t: "pool_ok dinv C N P1 lay1" "moved 2 P lay P1 lay1" "i1 \<in> set (ids P1)"
      using a1(1) by (auto simp: tried_def)
    have "length (whole lay1 P1) + 3 \<le> N" using t(2) lt by (simp add: moved_def)
    from alloc_after_eager_free_tried [OF t(1) this t(3) sz] obtain r P' where
      g: "alloc_after_eager_free D i1 sz P1 = Some (r, P')" "tried dinv C N 3 sz P1 lay1 r i1 P'" by blast
    have "tried dinv C N 5 sz P lay r i1 P'" by (rule tried_after [OF t(2) g(2)]) simp
    with None g(1) that show ?thesis by simp
  next
    case (Some p)
    have "tried dinv C N 5 sz P lay r1 i1 P1" by (rule tried_after [OF moved_refl a1(1)]) simp
    with Some that show ?thesis by simp
  qed
  have "AllocMemBuf D sz fp sid P = (case r of None \<Rightarrow> Some (None, P')
     | Some p \<Rightarrow> do {
         b \<leftarrow> bufs (world P') p;
         Some (Some (p, i1), pool_stat (\<lambda>s. UpdatePeakSize (s\<lparr>used_size := used_size s + buf_size b\<rparr>)) P') })"
    unfolding AllocMemBuf_def a0(1) Let_def prod.case a0(2) bind.simps a1(2) [unfolded Let_def] a2(2) ..
  with a2(1) show ?thesis by blast
qed

end

section \<open>The buffer that is handed out\<close>

text \<open>
  The relation between the pools before and after a successful allocation of the range at \<open>a\<close>:
  it is a buffer of the pool of its own, and every buffer that was plainly used stays where it is.
\<close>

definition allocated :: "size_t \<Rightarrow> device_ptr \<Rightarrow> 'd pool \<Rightarrow> pool_layout \<Rightarrow> 'd pool \<Rightarrow> pool_layout \<Rightarrow> bool" where
  "allocated sz a P lay P' lay' \<longleftrightarrow> (\<exists>p i. map_of (addr_mem_buf_allocators P') a = Some (p, i) \<and>
     p \<in> in_use P' lay' \<and> in_use P' lay' \<subseteq> insert p (in_use P lay) \<and> fst (pool_seg P' p) = a \<and>
     sz \<le> snd (pool_seg P' p) \<and> snd (pool_seg P' p) - sz < 512 \<and>
     status_of (bufs (world P')) p = kMemBufUsed \<and> IsEventNotUsed (events_of (bufs (world P')) p) \<and>
     (\<forall>q \<in> in_use P' lay' - {p}. pool_seg P' q = pool_seg P q \<and>
        status_of (bufs (world P')) q = status_of (bufs (world P)) q) \<and>
     (\<forall>q \<in> in_use P lay. status_of (bufs (world P)) q = kMemBufUsed \<longrightarrow>
        q \<in> in_use P' lay' \<and> pool_seg P' q = pool_seg P q \<and> q \<noteq> p \<and>
        seg_range (pool_seg P' p) \<inter> seg_range (pool_seg P' q) = {}))"

text \<open>The tables after the bookkeeping of an allocation.\<close>

lemma addr_rep_malloc:
  assumes rep: "pool_rep P' lay'" and addr: "addr_rep P lay" and st: "malloc_step i sz P lay (Some p) P' lay'"
    and i: "i \<in> set (ids P)" and a: "a = fst (pool_seg P' p)"
  shows "addr_rep (P'\<lparr>addr_mem_buf_allocators := al_emplace a (p, i) (addr_mem_buf_allocators P')\<rparr>) lay'"
    "map_of (addr_mem_buf_allocators P') a = None"
proof -
  have s: "al_step i {} P lay P' lay'" "p \<notin> in_use P lay" "uses P' lay' i = insert p (uses P lay i)"
    using st by (simp_all add: malloc_step_def)
  have f: "ids P' = ids P" "addr_mem_buf_allocators P' = addr_mem_buf_allocators P"
      "\<And>j. j \<in> set (ids P) \<Longrightarrow> j \<noteq> i \<Longrightarrow> uses P' lay' j = uses P lay j"
    using s(1) by (simp_all add: al_step_def)
  have m: "map_of (addr_mem_buf_allocators P) b = Some (q, j) \<longleftrightarrow>
      j \<in> set (ids P) \<and> q \<in> uses P lay j \<and> fst (pool_seg P q) = b" for b q j
    using addr by (simp add: addr_rep_def)
  have pin: "p \<in> in_use P' lay'" using s(3) i f(1) by (auto simp: in_use_def)
  have old: "q \<in> in_use P' lay' \<and> pool_seg P' q = pool_seg P q \<and> q \<noteq> p \<and> fst (pool_seg P q) \<noteq> a"
    if "j \<in> set (ids P)" "q \<in> uses P lay j" for q j
  proof -
    have q: "q \<in> in_use P lay" using that by (auto simp: in_use_def)
    then have q': "q \<in> in_use P' lay'" using malloc_step_in_use [OF st i] by simp
    have seg: "pool_seg P' q = pool_seg P q" using al_step_kept(1) [OF s(1) q] by simp
    have "q \<noteq> p" using q s(2) by blast
    with in_use_addr_inj [OF rep q' pin] a seg q' show ?thesis by auto
  qed
  show none: "map_of (addr_mem_buf_allocators P') a = None"
  proof (rule ccontr)
    assume "map_of (addr_mem_buf_allocators P') a \<noteq> None"
    then obtain q j where "map_of (addr_mem_buf_allocators P) a = Some (q, j)" by (auto simp: f(2))
    with m old show False by blast
  qed
  have "map_of (al_emplace a (p, i) (addr_mem_buf_allocators P')) b = Some (q, j) \<longleftrightarrow>
      j \<in> set (ids P) \<and> q \<in> uses P' lay' j \<and> fst (pool_seg P' q) = b" for b q j
  proof (cases "q = p")
    case True
    have no: "p \<notin> uses P lay j" if "j \<in> set (ids P)" for j using s(2) that by (auto simp: in_use_def)
    then have "p \<in> uses P' lay' j \<longleftrightarrow> j = i" if "j \<in> set (ids P)" for j
      using f(3) s(3) that by (cases "j = i") auto
    moreover have "map_of (addr_mem_buf_allocators P) b \<noteq> Some (p, j)" using m no by blast
    ultimately show ?thesis using True none i a by (auto simp: f(2))
  next
    case False
    have u: "q \<in> uses P' lay' j \<longleftrightarrow> q \<in> uses P lay j" if "j \<in> set (ids P)" for j
      using f(3) s(3) False that by (cases "j = i") auto
    have "map_of (al_emplace a (p, i) (addr_mem_buf_allocators P')) b = Some (q, j) \<longleftrightarrow>
        b \<noteq> a \<and> map_of (addr_mem_buf_allocators P) b = Some (q, j)"
      using none False by (auto simp: f(2))
    also have "\<dots> \<longleftrightarrow> b \<noteq> a \<and> j \<in> set (ids P) \<and> q \<in> uses P lay j \<and> fst (pool_seg P q) = b" using m by blast
    also have "\<dots> \<longleftrightarrow> j \<in> set (ids P) \<and> q \<in> uses P' lay' j \<and> fst (pool_seg P' q) = b"
      using old u by metis
    finally show ?thesis .
  qed
  with addr f show "addr_rep (P'\<lparr>addr_mem_buf_allocators := al_emplace a (p, i) (addr_mem_buf_allocators P')\<rparr>) lay'"
    by (simp add: addr_rep_def uses_def)
qed

lemma malloc_some:
  assumes ok: "pool_ok dinv C N P lay" and core: "pool_core dinv C N P' lay'"
    and st: "malloc_step i sz P lay (Some p) P' lay'" and i: "i \<in> set (ids P)" and b: "bufs (world P') p = Some b"
    and P'': "P'' = (pool_stat (\<lambda>s. UpdatePeakSize (s\<lparr>used_size := used_size s + buf_size b\<rparr>)) P')
      \<lparr>addr_mem_buf_allocators := al_emplace (buf_addr b) (p, i) (addr_mem_buf_allocators P')\<rparr>"
  shows "pool_ok dinv C N P'' lay'" "in_use P'' lay' = insert p (in_use P lay)" "whole lay' P'' = whole lay' P'"
    "map_of (addr_mem_buf_allocators P'') (buf_addr b) = Some (p, i)"
proof -
  have s: "al_step i {} P lay P' lay'" "p \<notin> in_use P lay" "stat_frame (world P) (world P')"
      "IsEventNotUsed (events_of (bufs (world P')) p)"
    using st by (simp_all add: malloc_step_def)
  have rep: "pool_rep P' lay'" using core by (simp add: pool_core_def)
  have tabs: "addr_rep P lay" "size_rep P lay" "pairs_ok P lay" using ok by (simp_all add: pool_ok_def)
  have seg: "pool_seg P' p = (buf_addr b, buf_size b)" using b by (simp add: seg_of_def)
  have fr: "pool_rep P'' lay'" "whole lay' P'' = whole lay' P'" "uses P'' lay' = uses P' lay'"
      "in_use P'' lay' = in_use P' lay'" "ids P'' = ids P'"
    using pool_rep_frame [OF rep, of P''] by (simp_all add: P'' pool_stat_def)
  show "whole lay' P'' = whole lay' P'" by (fact fr)
  have inu: "in_use P' lay' = insert p (in_use P lay)" using malloc_step_in_use [OF st i] by simp
  with fr(4) show "in_use P'' lay' = insert p (in_use P lay)" by simp
  have bw: "bufs (world P'') = bufs (world P')" by (simp add: P'')
  have "pool_core dinv C N P'' lay'"
    using core fr by (simp add: pool_core_def world_inv_def P'')
  moreover have "addr_rep P'' lay'"
  proof (rule addr_rep_same)
    show "addr_rep (P'\<lparr>addr_mem_buf_allocators := al_emplace (buf_addr b) (p, i) (addr_mem_buf_allocators P')\<rparr>) lay'"
      using addr_rep_malloc(1) [OF rep tabs(1) st i, of "buf_addr b"] seg by simp
  qed (simp_all add: fr bw P'' uses_def)
  moreover have "size_rep P'' lay'"
  proof -
    have "used_size (stat (world P')) = used_size (stat (world P))"
      using arg_cong [OF s(3) [unfolded stat_frame_def], of used_size] by simp
    moreover have "(\<Sum>q \<in> in_use P lay. snd (pool_seg P' q)) = (\<Sum>q \<in> in_use P lay. snd (pool_seg P q))"
      by (rule sum.cong) (simp_all add: al_step_kept(1) [OF s(1)])
    ultimately show ?thesis
      using tabs(2) s(2) seg unfolding size_rep_def fr(4) inu bw by (simp add: P'' add.commute)
  qed
  moreover have "pairs_ok P'' lay'"
  proof -
    have "pairs_ok P' lay'" by (rule pairs_ok_step [OF tabs(3) s(1)]) (simp_all add: inu subset_insertI)
    moreover have "stream_pair_mem_bufs P'' = stream_pair_mem_bufs P'" by (simp add: P'')
    ultimately show ?thesis by (simp add: pairs_ok_def fr bw)
  qed
  ultimately show "pool_ok dinv C N P'' lay'" by (simp add: pool_ok_def)
  show "map_of (addr_mem_buf_allocators P'') (buf_addr b) = Some (p, i)"
    using addr_rep_malloc(2) [OF rep tabs(1) st i, of "buf_addr b"] seg by (simp add: P'')
qed

lemma AlignMemorySize_pos:
  assumes "2 * unat (AlignMemorySize sz) \<le> lim" "unat sz \<le> 2 ^ 64 - 512"
  shows "0 < AlignMemorySize sz" "sz \<le> AlignMemorySize sz"
proof -
  have "unat sz \<le> unat (AlignMemorySize sz) \<and> 0 < unat (AlignMemorySize sz)"
    using unat_AlignMemorySize [OF assms(2)] unat_gt_0 [of sz] by auto
  then show "0 < AlignMemorySize sz" "sz \<le> AlignMemorySize sz"
    by (simp_all add: word_less_nat_alt word_le_nat_alt)
qed

context pool_device
begin

lemma AllocTensorMem_total:
  assumes ok: "pool_ok dinv C N P lay" and lt: "length (whole lay P) + 6 \<le> N"
    and sz: "unat sz \<le> 2 ^ 64 - 512" "2 * unat (AlignMemorySize sz) \<le> lim"
  shows "\<exists>a P' lay'. AllocTensorMem D sz fp sid P = Some (a, P') \<and> pool_ok dinv C N P' lay' \<and>
    length (whole lay' P') \<le> length (whole lay P) + 6 \<and>
    (a = 0 \<and> left P lay P' lay' \<and> stays P lay P' lay' \<or> allocated (AlignMemorySize sz) a P lay P' lay')"
proof -
  let ?n = "AlignMemorySize sz"
  have n: "0 < ?n" using AlignMemorySize_pos [OF sz(2,1)] by simp
  have "length (whole lay P) + 5 \<le> N" using lt by simp
  from AllocMemBuf_tried [OF ok this n sz(2), of fp sid] obtain r i P' where
    t: "tried dinv C N 5 ?n P lay r i P'" "AllocMemBuf D ?n fp sid P =
      (case r of None \<Rightarrow> Some (None, P')
       | Some p \<Rightarrow> do {
           b \<leftarrow> bufs (world P') p;
           Some (Some (p, i), pool_stat (\<lambda>s. UpdatePeakSize (s\<lparr>used_size := used_size s + buf_size b\<rparr>)) P') })"
    by blast
  show ?thesis
  proof (cases r)
    case None
    then obtain lay' where "pool_ok dinv C N P' lay'" "moved 5 P lay P' lay'" using t(1) by (auto simp: tried_def)
    moreover have "AllocTensorMem D sz fp sid P = Some (0, P')"
      using None t(2) by (simp add: AllocTensorMem_def Let_def)
    ultimately show ?thesis by (auto simp: moved_def)
  next
    case (Some p)
    then obtain P1 lay1 lay' where m: "pool_ok dinv C N P1 lay1" "moved 5 P lay P1 lay1" "i \<in> set (ids P1)"
        "pool_core dinv C N P' lay'" "malloc_step i ?n P1 lay1 (Some p) P' lay'"
      using t(1) by (auto simp: tried_def)
    have inu: "in_use P' lay' = insert p (in_use P1 lay1)" using malloc_step_in_use [OF m(5,3)] by simp
    have rep: "pool_rep P' lay'" using m(4) by (simp add: pool_core_def)
    have "live (bufs (world P')) p"
      using layout_live [of "world P'" "whole lay' P'" p] rep in_use_ptrs [of p P' lay'] inu by (simp add: pool_rep_def)
    then obtain b where b: "bufs (world P') p = Some b" by (auto elim: liveE)
    define P'' where "P'' = (pool_stat (\<lambda>s. UpdatePeakSize (s\<lparr>used_size := used_size s + buf_size b\<rparr>)) P')
      \<lparr>addr_mem_buf_allocators := al_emplace (buf_addr b) (p, i) (addr_mem_buf_allocators P')\<rparr>"
    note f = malloc_some [OF m(1,4,5,3) b P''_def]
    have run: "AllocTensorMem D sz fp sid P = Some (buf_addr b, P'')"
      using Some t(2) b by (simp add: AllocTensorMem_def Let_def P''_def)
    have bw: "bufs (world P'') = bufs (world P')" by (simp add: P''_def)
    have rep'': "pool_rep P'' lay'" using f(1) by (simp add: pool_ok_def pool_core_def)
    have p: "p \<notin> in_use P1 lay1" "?n \<le> snd (pool_seg P' p)" "snd (pool_seg P' p) - ?n < 512"
        "status_of (bufs (world P')) p = kMemBufUsed" "IsEventNotUsed (events_of (bufs (world P')) p)"
        "al_step i {} P1 lay1 P' lay'"
      using m(5) by (simp_all add: malloc_step_def)
    have old: "q \<in> in_use P'' lay' \<and> pool_seg P'' q = pool_seg P q \<and> q \<noteq> p \<and>
        seg_range (pool_seg P'' p) \<inter> seg_range (pool_seg P'' q) = {}"
      if q: "q \<in> in_use P lay" "status_of (bufs (world P)) q = kMemBufUsed" for q
    proof -
      have q1: "q \<in> in_use P1 lay1" "pool_seg P1 q = pool_seg P q" using m(2) q by (auto simp: moved_def stays_def)
      then have "q \<in> in_use P'' lay'" "q \<noteq> p" "p \<in> in_use P'' lay'" using f(2) p(1) by auto
      moreover have "pool_seg P'' q = pool_seg P q" using al_step_kept(1) [OF p(6) q1(1)] q1(2) bw by simp
      ultimately show ?thesis using in_use_disjoint [OF rep'', of p q] by blast
    qed
    have "in_use P1 lay1 \<subseteq> in_use P lay" using m(2) by (simp add: moved_def left_def)
    then have sub: "in_use P'' lay' \<subseteq> insert p (in_use P lay)" "p \<in> in_use P'' lay'" using f(2) by auto
    have same: "pool_seg P'' q = pool_seg P q \<and> status_of (bufs (world P'')) q = status_of (bufs (world P)) q"
      if "q \<in> in_use P'' lay' - {p}" for q
    proof -
      have q1: "q \<in> in_use P1 lay1" using that f(2) by blast
      with m(2) have "pool_seg P1 q = pool_seg P q" "status_of (bufs (world P1)) q = status_of (bufs (world P)) q"
        by (simp_all add: moved_def left_def)
      with al_step_kept(1,2) [OF p(6) q1] show ?thesis by (simp add: bw)
    qed
    have "pool_seg P'' p = (buf_addr b, buf_size b)" using b by (simp add: bw seg_of_def)
    then have "allocated ?n (buf_addr b) P lay P'' lay'"
      unfolding allocated_def using f(4) p(2-5) sub
      by (intro exI [of _ p] exI [of _ i] conjI ballI impI old same) (simp_all add: bw)
    moreover have "length (whole lay' P'') \<le> length (whole lay P) + 6"
      using f(3) m(2,5) by (simp add: moved_def malloc_step_def)
    ultimately show ?thesis using run f(1) by blast
  qed
qed

end

end
