(* ===== verification/Mem_Pool_Events.thy ===== *)
theory Mem_Pool_Events
  imports Mem_Pool_Alloc
begin

text \<open>
  Recording and waiting for events in the pool. \<open>WaitEvent\<close> keeps the invariant as long as no
  buffer is recorded for two stream pairs at once: then the last event of a buffer goes together
  with its only entry in the pool's table.
\<close>

section \<open>The table of stream pairs\<close>

definition single :: "'d pool \<Rightarrow> bool" where
  "single P \<longleftrightarrow> distinct (concat (map snd (stream_pair_mem_bufs P)))"

lemma carried_concat: "carried P = set (concat (map snd (stream_pair_mem_bufs P)))"
  by (auto simp: carried_def)

lemma pair_erase_keys [simp]: "map fst (pair_erase k p m) = map fst m" "map fst (pair_erase_all p m) = map fst m"
  by (simp_all add: pair_erase_def pair_erase_all_def comp_def case_prod_beta')

lemma remove1_absent: "p \<notin> set (concat (map snd m)) \<Longrightarrow> pair_erase_all p m = m"
  by (induction m) (auto simp: pair_erase_all_def remove1_idem)

lemma pair_erase_all_concat:
  "distinct (concat (map snd m)) \<Longrightarrow> concat (map snd (pair_erase_all p m)) = remove1 p (concat (map snd m))"
proof (induction m)
  case Nil
  then show ?case by (simp add: pair_erase_all_def)
next
  case (Cons e m)
  then show ?case
  proof (cases "p \<in> set (snd e)")
    case True
    then have "p \<notin> set (concat (map snd m))" using Cons.prems by auto
    then have "pair_erase_all p m = m" by (rule remove1_absent)
    with True show ?thesis by (simp add: pair_erase_all_def case_prod_beta' remove1_append)
  next
    case False
    with Cons show ?thesis by (simp add: pair_erase_all_def case_prod_beta' remove1_append remove1_idem)
  qed
qed

text \<open>With one entry per buffer, erasing it under its key erases it everywhere.\<close>

lemma pair_erase_only:
  assumes "distinct (concat (map snd m))" "distinct (map fst m)" "map_of m k = Some s" "p \<in> set s"
  shows "pair_erase k p m = pair_erase_all p m"
  using assms
proof (induction m)
  case Nil
  then show ?case by simp
next
  case (Cons e m)
  show ?case
  proof (cases "fst e = k")
    case True
    then have s: "snd e = s" using Cons.prems(3) by (cases e) simp
    then have "p \<notin> set (concat (map snd m))" using Cons.prems(1,4) by auto
    then have "pair_erase_all p m = m" by (rule remove1_absent)
    moreover have "pair_erase k p m = m"
    proof -
      have "fst x \<noteq> k" if "x \<in> set m" for x using that True Cons.prems(2) by (metis distinct.simps(2) image_eqI list.simps(9) list.set_map)
      then show ?thesis unfolding pair_erase_def by (intro map_idI) (simp add: case_prod_beta')
    qed
    ultimately show ?thesis
      using True by (cases e) (simp add: pair_erase_def pair_erase_all_def)
  next
    case False
    then have "map_of m k = Some s" using Cons.prems(3) by (cases e) simp
    moreover from this have "p \<in> (\<Union>a \<in> set m. set (snd a))"
      using Cons.prems(4) by (force dest: map_of_SomeD)
    moreover from this have "p \<notin> set (snd e)" using Cons.prems(1) by auto
    ultimately show ?thesis
      using Cons False by (cases e) (simp add: pair_erase_def pair_erase_all_def remove1_idem)
  qed
qed

lemma set_remove1_keeps: "set r - {p} \<subseteq> set (remove1 p r)"
  by (induction r) auto

lemma map_of_pair_erase_all: "map_of (pair_erase_all p m) k = map_option (remove1 p) (map_of m k)"
  by (induction m) (auto simp: pair_erase_all_def)

lemma map_of_pair_emplace:
  "map_of (pair_emplace k p m) l = (if l = k
     then Some (oset_emplace (<) p (case map_of m k of None \<Rightarrow> [] | Some s \<Rightarrow> s)) else map_of m l)"
  by (simp add: pair_emplace_def)

lemma pair_emplace_distinct: "distinct (map fst m) \<Longrightarrow> distinct (map fst (pair_emplace k p m))"
  by (simp add: pair_emplace_def)

text \<open>The contents of the table through lookups.\<close>

lemma pairs_ok_lookup:
  "pairs_ok P lay \<longleftrightarrow> distinct (map fst (stream_pair_mem_bufs P)) \<and>
     (\<forall>k s. map_of (stream_pair_mem_bufs P) k = Some s \<longrightarrow> sorted_wrt (<) s \<and>
        (\<forall>p \<in> set s. p \<in> in_use P lay \<and> \<not> IsEventNotUsed (events_of (bufs (world P)) p)))"
  unfolding pairs_ok_def by (rule conj_cong [OF refl]) (fastforce dest: map_of_SomeD)

lemma pairs_ok_events:
  assumes "pairs_ok P lay" "stream_pair_mem_bufs P' = stream_pair_mem_bufs P" "in_use P' lay' = in_use P lay"
    and "\<And>q. \<not> IsEventNotUsed (events_of (bufs (world P)) q) \<Longrightarrow> \<not> IsEventNotUsed (events_of (bufs (world P')) q)"
  shows "pairs_ok P' lay'"
  using assms(1,4) unfolding pairs_ok_lookup assms(2,3) by blast

lemma pairs_ok_erase:
  assumes "pairs_ok P lay" "stream_pair_mem_bufs P' = pair_erase_all p (stream_pair_mem_bufs P)"
    and "\<And>q. q \<in> in_use P lay \<Longrightarrow> q \<noteq> p \<Longrightarrow>
      q \<in> in_use P' lay' \<and> events_of (bufs (world P')) q = events_of (bufs (world P)) q"
  shows "pairs_ok P' lay'"
  unfolding pairs_ok_lookup assms(2) map_of_pair_erase_all pair_erase_keys
proof (intro conjI allI impI)
  show "distinct (map fst (stream_pair_mem_bufs P))" using assms(1) by (simp add: pairs_ok_lookup)
next
  fix k s assume "map_option (remove1 p) (map_of (stream_pair_mem_bufs P) k) = Some s"
  then obtain t where t: "map_of (stream_pair_mem_bufs P) k = Some t" "s = remove1 p t" by auto
  have ok: "sorted_wrt (<) t" "\<forall>q \<in> set t. q \<in> in_use P lay \<and> \<not> IsEventNotUsed (events_of (bufs (world P)) q)"
    using assms(1) t(1) unfolding pairs_ok_lookup by blast+
  then have "distinct t" using nat_order.sorted_distinct [of t] by simp
  with t(2) have s: "set s = set t - {p}" by simp
  show "sorted_wrt (<) s"
    using ok(1) unfolding t(2) by (induction t) auto
  show "\<forall>q \<in> set s. q \<in> in_use P' lay' \<and> \<not> IsEventNotUsed (events_of (bufs (world P')) q)"
    using ok(2) assms(3) by (auto simp: s)
qed

lemma pairs_ok_emplace:
  assumes "pairs_ok P lay" "stream_pair_mem_bufs P' = pair_emplace k p (stream_pair_mem_bufs P)"
    and "in_use P' lay' = in_use P lay" "p \<in> in_use P lay" "\<not> IsEventNotUsed (events_of (bufs (world P')) p)"
    and "\<And>q. q \<noteq> p \<Longrightarrow> events_of (bufs (world P')) q = events_of (bufs (world P)) q"
  shows "pairs_ok P' lay'"
  unfolding pairs_ok_lookup assms(2) map_of_pair_emplace
proof (intro conjI allI impI)
  show "distinct (map fst (pair_emplace k p (stream_pair_mem_bufs P)))"
    using assms(1) by (intro pair_emplace_distinct) (simp add: pairs_ok_lookup)
next
  fix l s assume s: "(if l = k then Some (oset_emplace (<) p
    (case map_of (stream_pair_mem_bufs P) k of None \<Rightarrow> [] | Some s \<Rightarrow> s)) else map_of (stream_pair_mem_bufs P) l) = Some s"
  have old: "sorted_wrt (<) t \<and> (\<forall>q \<in> set t. q \<in> in_use P lay \<and> \<not> IsEventNotUsed (events_of (bufs (world P)) q))"
    if "map_of (stream_pair_mem_bufs P) j = Some t" for j t
    using assms(1) that unfolding pairs_ok_lookup by blast
  have ev: "\<not> IsEventNotUsed (events_of (bufs (world P')) q)"
    if "\<not> IsEventNotUsed (events_of (bufs (world P)) q)" for q
    using that assms(5,6) by (cases "q = p") auto
  define t where "t = (case map_of (stream_pair_mem_bufs P) k of None \<Rightarrow> [] | Some s \<Rightarrow> s)"
  have t: "sorted_wrt (<) t" "\<forall>q \<in> set t. q \<in> in_use P lay \<and> \<not> IsEventNotUsed (events_of (bufs (world P)) q)"
    using old [of k t] by (cases "map_of (stream_pair_mem_bufs P) k"; simp add: t_def)+
  show "sorted_wrt (<) s"
    using s old [of l s] nat_order.emplace_sorted [of t p] t(1) by (auto simp: t_def [symmetric] split: if_splits)
  show "\<forall>q \<in> set s. q \<in> in_use P' lay' \<and> \<not> IsEventNotUsed (events_of (bufs (world P')) q)"
  proof (cases "l = k")
    case True
    then have "set s = insert p (set t)" using s nat_order.emplace_set [of t p] by (auto simp: t_def [symmetric])
    with t(2) ev assms(3-5) show ?thesis by auto
  next
    case False
    with s old [of l s] ev assms(3) show ?thesis by auto
  qed
qed

section \<open>Recording\<close>

context pool_device
begin

lemma record_one:
  assumes ok: "pool_ok dinv C N P lay" and a: "map_of (addr_mem_buf_allocators P) addr = Some (p, i)"
  shows "\<exists>P'. RecordEvent t u ((m, addr) # rest) ev P = RecordEvent t u rest ev P' \<and> pool_ok dinv C N P' lay \<and>
    in_use P' lay = in_use P lay \<and> left P lay P' lay \<and> whole lay P' = whole lay P \<and> ids P' = ids P \<and>
    addr_mem_buf_allocators P' = addr_mem_buf_allocators P \<and>
    events_of (bufs (world P')) p = EventBase_RecordEvent t u ev (events_of (bufs (world P)) p) \<and>
    (\<forall>q. q \<noteq> p \<longrightarrow> events_of (bufs (world P')) q = events_of (bufs (world P)) q)"
proof -
  have tab: "pool_tab dinv C N P lay" and pairs: "pairs_ok P lay" using ok by (simp_all add: pool_ok_tab)
  have p: "p \<in> in_use P lay" using addr_found(4) [OF _ a] tab by (simp add: pool_tab_def)
  obtain B where B: "bufs (world P) p = Some B" "\<not> free_status (buf_status B)" using tab p by (rule in_use_live)
  let ?f = "\<lambda>s. s\<lparr>used_by_event_size := used_by_event_size s + buf_size B\<rparr>"
  define P1 where "P1 = (if IsEventNotUsed (buf_events B) then pool_stat ?f P else P)"
  have ok1: "pool_ok dinv C N P1 lay" "in_use P1 lay = in_use P lay" "whole lay P1 = whole lay P"
  proof -
    have "world_inv dinv (N - length (whole lay P)) (world P1)"
      using ok by (simp add: pool_ok_def pool_core_def world_inv_def P1_def)
    with pool_ok_frame [OF ok, of P1] show "pool_ok dinv C N P1 lay" "in_use P1 lay = in_use P lay" "whole lay P1 = whole lay P"
      by (simp_all add: P1_def pool_stat_def)
  qed
  have w1: "bufs (world P1) = bufs (world P)" "ids P1 = ids P" "stream_pair_mem_bufs P1 = stream_pair_mem_bufs P"
      "addr_mem_buf_allocators P1 = addr_mem_buf_allocators P"
    by (simp_all add: P1_def)
  let ?B = "B\<lparr>buf_events := EventBase_RecordEvent t u ev (buf_events B)\<rparr>"
  define P2 where "P2 = P1\<lparr>world := (world P1)\<lparr>bufs := (bufs (world P1))(p \<mapsto> ?B)\<rparr>\<rparr>"
  have sp: "same_place B ?B" using B(2) by (simp add: same_place_def)
  have tab1: "pool_tab dinv C N P1 lay" using ok1(1) by (simp add: pool_ok_tab)
  have f: "pool_tab dinv C N P2 lay" "in_use P2 lay = in_use P1 lay" "whole lay P2 = whole lay P1" "ids P2 = ids P1"
      "\<And>r. pool_seg P2 r = pool_seg P1 r"
    using pool_fields [OF tab1 _ _ sp P2_def] p ok1(2) B(1) w1(1) by simp_all
  define P' where "P' = P2\<lparr>stream_pair_mem_bufs := pair_emplace (u, m) p (stream_pair_mem_bufs P2)\<rparr>"
  have run: "RecordEvent t u ((m, addr) # rest) ev P = RecordEvent t u rest ev P'"
    using a B(1) w1 by (simp add: mod_buf_def Let_def P'_def P2_def P1_def)
  have rep2: "pool_rep P2 lay" using f(1) by (simp add: pool_tab_def pool_core_def)
  have fr: "pool_rep P' lay" "whole lay P' = whole lay P2" "uses P' lay = uses P2 lay"
      "in_use P' lay = in_use P2 lay" "ids P' = ids P2"
    using pool_rep_frame [OF rep2, of P'] by (simp_all add: P'_def)
  have w': "bufs (world P') = (bufs (world P))(p \<mapsto> ?B)" by (simp add: P'_def P2_def w1)
  have tab': "pool_tab dinv C N P' lay"
    using f(1) fr by (simp add: pool_tab_def pool_core_def addr_rep_def size_rep_def P'_def)
  have evp: "events_of (bufs (world P')) p = EventBase_RecordEvent t u ev (events_of (bufs (world P)) p)"
      "\<And>q. q \<noteq> p \<Longrightarrow> events_of (bufs (world P')) q = events_of (bufs (world P)) q"
    using B(1) by (simp_all add: w' events_of_def)
  have "pairs_ok P' lay"
  proof (rule pairs_ok_emplace [OF pairs])
    show "stream_pair_mem_bufs P' = pair_emplace (u, m) p (stream_pair_mem_bufs P)"
      by (simp add: P'_def P2_def w1)
  qed (use p fr f ok1 evp in simp_all)
  then have ok': "pool_ok dinv C N P' lay" using tab' by (simp add: pool_ok_tab)
  have inu: "in_use P' lay = in_use P lay" using fr f ok1 by simp
  have "left P lay P' lay" using inu B(1) by (auto simp: left_def w' seg_of_def status_of_def)
  moreover have "addr_mem_buf_allocators P' = addr_mem_buf_allocators P" by (simp add: P'_def P2_def w1)
  ultimately show ?thesis
    using run ok' inu evp fr f ok1 w1 by (intro exI [of _ P']) simp
qed

lemma RecordEvent_total:
  assumes "pool_ok dinv C N P lay"
  shows "\<exists>P'. RecordEvent t u as ev P = Some (True, P') \<and> pool_ok dinv C N P' lay \<and>
    in_use P' lay = in_use P lay \<and> left P lay P' lay \<and> whole lay P' = whole lay P \<and>
    addr_mem_buf_allocators P' = addr_mem_buf_allocators P"
  using assms
proof (induction as arbitrary: P)
  case Nil
  then show ?case by simp
next
  case (Cons e as)
  obtain m addr where e: "e = (m, addr)" by force
  show ?case
  proof (cases "map_of (addr_mem_buf_allocators P) addr")
    case None
    with Cons e show ?thesis by simp
  next
    case (Some v)
    obtain p i where "v = (p, i)" by force
    with Some have "map_of (addr_mem_buf_allocators P) addr = Some (p, i)" by simp
    from record_one [OF Cons.prems this, of t u m as ev] obtain P1 where
      r: "RecordEvent t u (e # as) ev P = RecordEvent t u as ev P1" "pool_ok dinv C N P1 lay"
        "in_use P1 lay = in_use P lay" "left P lay P1 lay" "whole lay P1 = whole lay P"
        "addr_mem_buf_allocators P1 = addr_mem_buf_allocators P"
      unfolding e by blast
    from Cons.IH [OF r(2)] r left_trans [OF r(4)] show ?thesis by auto
  qed
qed

end

section \<open>Waiting\<close>

text \<open>
  What waiting for one buffer may do: the buffer \<open>p\<close> leaves the pool only if it was kept for its
  events alone, and the table loses at most \<open>p\<close>.
\<close>

definition waited :: "ptr set \<Rightarrow> 'd pool \<Rightarrow> pool_layout \<Rightarrow> 'd pool \<Rightarrow> pool_layout \<Rightarrow> bool" where
  "waited X P lay P' lay' \<longleftrightarrow> left P lay P' lay' \<and> stays P lay P' lay' \<and> in_use P lay - X \<subseteq> in_use P' lay' \<and>
     length (whole lay' P') = length (whole lay P) \<and>
     map fst (stream_pair_mem_bufs P') = map fst (stream_pair_mem_bufs P) \<and>
     (\<forall>k s. map_of (stream_pair_mem_bufs P) k = Some s \<longrightarrow>
        (\<exists>s'. map_of (stream_pair_mem_bufs P') k = Some s' \<and> set s - X \<subseteq> set s'))"

lemma waited_refl [simp]: "waited {} P lay P lay"
  by (simp add: waited_def)

lemma waited_trans:
  assumes a: "waited X P lay P1 lay1" and b: "waited Y P1 lay1 P2 lay2"
  shows "waited (X \<union> Y) P lay P2 lay2"
proof -
  have "\<exists>s2. map_of (stream_pair_mem_bufs P2) k = Some s2 \<and> set s - (X \<union> Y) \<subseteq> set s2"
    if k: "map_of (stream_pair_mem_bufs P) k = Some s" for k s
  proof -
    obtain s1 where s1: "map_of (stream_pair_mem_bufs P1) k = Some s1" "set s - X \<subseteq> set s1"
      using a k unfolding waited_def by blast
    obtain s2 where "map_of (stream_pair_mem_bufs P2) k = Some s2" "set s1 - Y \<subseteq> set s2"
      using b s1(1) unfolding waited_def by blast
    with s1(2) show ?thesis by blast
  qed
  moreover have "in_use P lay - (X \<union> Y) \<subseteq> in_use P2 lay2"
    using a b unfolding waited_def by blast
  moreover have "left P lay P2 lay2" "stays P lay P2 lay2"
    using a b left_trans [of P lay P1 lay1] stays_trans [of P lay P1 lay1] by (simp_all add: waited_def)
  ultimately show ?thesis using a b by (simp add: waited_def)
qed

context pool_device
begin

lemma wait_one:
  assumes ok: "pool_ok dinv C N P lay" and sg: "single P"
    and k: "map_of (stream_pair_mem_bufs P) key = Some s" "p \<in> set s"
  shows "\<exists>P' lay'. wait_mem_buf t key p P = Some P' \<and> pool_ok dinv C N P' lay' \<and> single P' \<and> waited {p} P lay P' lay'"
proof -
  have tab: "pool_tab dinv C N P lay" and pairs: "pairs_ok P lay" using ok by (simp_all add: pool_ok_tab)
  have p: "p \<in> in_use P lay" using pairs k unfolding pairs_ok_lookup by blast
  obtain B where B: "bufs (world P) p = Some B" "\<not> free_status (buf_status B)" using tab p by (rule in_use_live)
  let ?B = "B\<lparr>buf_events := snd (EventBase_WaitEvent (ucast t) (fst key) (buf_events B))\<rparr>"
  define P1 where "P1 = P\<lparr>world := (world P)\<lparr>bufs := (bufs (world P))(p \<mapsto> ?B)\<rparr>\<rparr>"
  have sp: "same_place B ?B" using B(2) by (simp add: same_place_def)
  note f = pool_fields [OF tab p B(1) sp P1_def]
  have w1: "bufs (world P1) = (bufs (world P))(p \<mapsto> ?B)" "stream_pair_mem_bufs P1 = stream_pair_mem_bufs P"
      "addr_mem_buf_allocators P1 = addr_mem_buf_allocators P"
    by (simp_all add: P1_def)
  have left1: "left P lay P1 lay" using f(2,4) B(1) by (auto simp: left_def w1 status_of_def)
  have stays1: "stays P lay P1 lay" using stays_same [OF left1 f(2)] .
  have ev1: "events_of (bufs (world P1)) q = events_of (bufs (world P)) q" if "q \<noteq> p" for q
    using that by (simp add: w1 events_of_def)
  show ?thesis
  proof (cases "IsEventNotUsed (buf_events ?B)")
    case False
    then have run: "wait_mem_buf t key p P = Some P1"
      using B(1) by (simp add: wait_mem_buf_def mod_buf_def Let_def P1_def)
    have "pairs_ok P1 lay"
    proof (rule pairs_ok_events [OF pairs w1(2) f(2)])
      fix q assume "\<not> IsEventNotUsed (events_of (bufs (world P)) q)"
      then show "\<not> IsEventNotUsed (events_of (bufs (world P1)) q)"
        using False ev1 by (cases "q = p") (simp_all add: w1 events_of_def)
    qed
    then have "pool_ok dinv C N P1 lay" using f(1) by (simp add: pool_ok_tab)
    moreover have "waited {p} P lay P1 lay"
      using left1 stays1 f(2,3) w1(2) by (auto simp: waited_def)
    ultimately show ?thesis using run sg by (auto simp: single_def w1(2))
  next
    case True
    let ?f = "\<lambda>s. s\<lparr>used_by_event_size := used_by_event_size s - buf_size B\<rparr>"
    let ?m = "stream_pair_mem_bufs P"
    have dm: "distinct (map fst ?m)" "distinct (concat (map snd ?m))"
      using pairs sg by (simp_all add: pairs_ok_def single_def)
    have only: "pair_erase key p ?m = pair_erase_all p ?m" by (rule pair_erase_only [OF dm(2,1) k])
    have gone: "pair_erase_all p (pair_erase_all p ?m) = pair_erase_all p ?m"
      by (rule remove1_absent) (use dm(2) in \<open>simp add: pair_erase_all_concat\<close>)
    define P2 where "P2 = pool_stat ?f (P1\<lparr>stream_pair_mem_bufs := pair_erase_all p ?m\<rparr>)"
    have rep1: "pool_rep P1 lay" using f(1) by (simp add: pool_tab_def pool_core_def)
    have fr: "pool_rep P2 lay" "whole lay P2 = whole lay P1" "uses P2 lay = uses P1 lay"
        "in_use P2 lay = in_use P1 lay" "ids P2 = ids P1"
      using pool_rep_frame [OF rep1, of P2] by (simp_all add: P2_def pool_stat_def)
    have w2: "bufs (world P2) = bufs (world P1)" "stream_pair_mem_bufs P2 = pair_erase_all p ?m"
        "addr_mem_buf_allocators P2 = addr_mem_buf_allocators P1"
      by (simp_all add: P2_def)
    have tab2: "pool_tab dinv C N P2 lay"
      using f(1) fr by (simp add: pool_tab_def pool_core_def world_inv_def addr_rep_def size_rep_def P2_def)
    have sg2: "single P2" using dm(2) by (simp add: single_def w2 pair_erase_all_concat)
    have inu2: "in_use P2 lay = in_use P lay" using fr(4) f(2) by simp
    have left2: "left P lay P2 lay" using left1 by (simp add: left_def w2 inu2 f(2))
    have look: "\<exists>s'. map_of (stream_pair_mem_bufs P2) l = Some s' \<and> set r - {p} \<subseteq> set s'"
      if "map_of ?m l = Some r" for l r
      using that set_remove1_keeps [of r p] by (simp add: w2 map_of_pair_erase_all)
    show ?thesis
    proof (cases "buf_status B = kMemBufUsedByEvent")
      case False
      then have run: "wait_mem_buf t key p P = Some P2"
        using B(1) True by (simp add: wait_mem_buf_def mod_buf_def Let_def P1_def P2_def only)
      have "pairs_ok P2 lay"
        by (rule pairs_ok_erase [OF pairs w2(2)]) (use ev1 inu2 w2 in simp)
      then have "pool_ok dinv C N P2 lay" using tab2 by (simp add: pool_ok_tab)
      moreover have "waited {p} P lay P2 lay"
        unfolding waited_def using left2 stays_same [OF left2 inu2] inu2 fr(2) f(3) look
        by (auto simp: w2)
      ultimately show ?thesis using run sg2 by blast
    next
      case ube: True
      have p2: "p \<in> in_use P2 lay" using p inu2 by simp
      obtain i where a: "map_of (addr_mem_buf_allocators P2) (fst (pool_seg P2 p)) = Some (p, i)"
        using tab2 p2 by (rule addr_of_used)
      have "IsEventNotUsed (events_of (bufs (world P2)) p)" using True by (simp add: w2 w1 events_of_def)
      from DoFree_freed [OF tab2 a this] obtain P' lay' where
        d: "DoFreeTensorMem (fst (pool_seg P2 p)) P2 = Some (True, P')" "pool_tab dinv C N P' lay'"
          "freed (fst (pool_seg P2 p)) p P2 lay P' lay'" by blast
      have "fst (pool_seg P2 p) = buf_addr B" by (simp add: w2 w1 seg_of_def)
      then have d': "DoFreeTensorMem (buf_addr B) P2 = Some (True, P')" using d(1) by simp
      have same: "P2\<lparr>stream_pair_mem_bufs := pair_erase_all p (stream_pair_mem_bufs P2)\<rparr> = P2"
        using gone w2(2) by (cases P2) simp
      have "wait_mem_buf t key p P = do {
          (_, P) \<leftarrow> DoFreeTensorMem (buf_addr B) (P2\<lparr>stream_pair_mem_bufs := pair_erase_all p (stream_pair_mem_bufs P2)\<rparr>);
          Some P }"
        using B(1) True ube by (simp add: wait_mem_buf_def mod_buf_def Let_def P1_def P2_def only)
      then have run: "wait_mem_buf t key p P = Some P'" unfolding same d' by simp
      have fr': "in_use P' lay' = in_use P lay - {p}" "stream_pair_mem_bufs P' = pair_erase_all p ?m"
          "length (whole lay' P') = length (whole lay P)"
        using d(3) inu2 w2 fr(2) f(3) by (simp_all add: freed_def)
      have "pairs_ok P' lay'"
      proof (rule pairs_ok_erase [OF pairs fr'(2)])
        fix q assume q: "q \<in> in_use P lay" "q \<noteq> p"
        then have "relinked (bufs (world P2)) (bufs (world P')) q" using d(3) inu2 by (auto simp: freed_def)
        then show "q \<in> in_use P' lay' \<and> events_of (bufs (world P')) q = events_of (bufs (world P)) q"
          using q ev1 fr'(1) w2(1) by (simp add: relinked_def)
      qed
      then have ok': "pool_ok dinv C N P' lay'" using d(2) by (simp add: pool_ok_tab)
      have left': "left P lay P' lay'" by (rule left_trans [OF left2 left_freed [OF d(3)]])
      have "status_of (bufs (world P)) p = kMemBufUsedByEvent" using B(1) ube by (simp add: status_of_def)
      then have "{q \<in> {p}. status_of (bufs (world P)) q = kMemBufUsedByEvent} = {p}" by auto
      then have "stays P lay P' lay'" using stays_left [OF left', of "{p}"] fr'(1) by simp
      then have "waited {p} P lay P' lay'"
        unfolding waited_def using left' fr' look w2(2) by auto
      moreover have "single P'" using sg2 by (simp add: single_def fr'(2) w2(2))
      ultimately show ?thesis using run ok' by blast
    qed
  qed
qed

lemma wait_mem_bufs_total:
  assumes "pool_ok dinv C N P lay" "single P" "distinct ps"
    and "\<exists>s. map_of (stream_pair_mem_bufs P) key = Some s \<and> set ps \<subseteq> set s"
  shows "\<exists>P' lay'. wait_mem_bufs t key ps P = Some P' \<and> pool_ok dinv C N P' lay' \<and> single P' \<and>
    waited (set ps) P lay P' lay'"
  using assms
proof (induction ps arbitrary: P lay)
  case Nil
  then show ?case by (intro exI [of _ P] exI [of _ lay]) simp
next
  case (Cons p ps)
  obtain s where s: "map_of (stream_pair_mem_bufs P) key = Some s" "set (p # ps) \<subseteq> set s"
    using Cons.prems(4) by blast
  then obtain P1 lay1 where a: "wait_mem_buf t key p P = Some P1" "pool_ok dinv C N P1 lay1" "single P1"
      "waited {p} P lay P1 lay1"
    using wait_one [OF Cons.prems(1,2) s(1), of p t] by auto
  obtain s1 where s1: "map_of (stream_pair_mem_bufs P1) key = Some s1" "set s - {p} \<subseteq> set s1"
    using a(4) s(1) unfolding waited_def by blast
  have "set ps \<subseteq> set s1" using s(2) s1(2) Cons.prems(3) by auto
  with s1(1) Cons.IH [OF a(2,3)] Cons.prems(3) obtain P' lay' where
    b: "wait_mem_bufs t key ps P1 = Some P'" "pool_ok dinv C N P' lay'" "single P'" "waited (set ps) P1 lay1 P' lay'"
    by auto
  have "waited (set (p # ps)) P lay P' lay'" using waited_trans [OF a(4) b(4)] by simp
  with a(1) b show ?case by auto
qed

lemma wait_key_total:
  assumes ok: "pool_ok dinv C N P lay" and sg: "single P" and k: "map_of (stream_pair_mem_bufs P) key = Some s"
  shows "\<exists>P' lay'. wait_mem_bufs t key s P = Some P' \<and> pool_ok dinv C N P' lay' \<and> single P' \<and>
    waited (set s) P lay P' lay'"
proof -
  have "sorted_wrt (<) s" using ok k unfolding pool_ok_def pairs_ok_lookup by blast
  then have "distinct s" using nat_order.sorted_distinct [of s] by simp
  with wait_mem_bufs_total [OF ok sg this] k show ?thesis by blast
qed

lemma WaitEvent_total:
  assumes ok: "pool_ok dinv C N P lay" and sg: "single P"
  shows "\<exists>r P' lay'. WaitEvent t u m P = Some (r, P') \<and> pool_ok dinv C N P' lay' \<and> single P' \<and>
    (r \<longleftrightarrow> (u, m) \<in> fst ` set (stream_pair_mem_bufs P)) \<and> waited (carried P) P lay P' lay'"
proof (cases "map_of (stream_pair_mem_bufs P) (u, m)")
  case None
  then have "WaitEvent t u m P = Some (False, P)" by (simp add: WaitEvent_def)
  moreover have "waited (carried P) P lay P lay" by (auto simp: waited_def)
  ultimately show ?thesis using ok sg None by (auto simp: map_of_eq_None_iff)
next
  case (Some s)
  from wait_key_total [OF ok sg this] obtain P' lay' where
    w: "wait_mem_bufs t (u, m) s P = Some P'" "pool_ok dinv C N P' lay'" "single P'" "waited (set s) P lay P' lay'"
    by blast
  have "(u, m) \<in> fst ` set (stream_pair_mem_bufs P)" using Some by (force dest: map_of_SomeD)
  moreover have "set s \<subseteq> carried P" using Some by (force simp: carried_def dest: map_of_SomeD)
  then have "waited (carried P) P lay P' lay'" using w(4) unfolding waited_def by blast
  ultimately show ?thesis using w Some by (auto simp: WaitEvent_def)
qed

lemma wait_pairs_total:
  assumes "pool_ok dinv C N P lay" "single P" "set ks \<subseteq> fst ` set (stream_pair_mem_bufs P)"
  shows "\<exists>P' lay' X. wait_pairs t m ks P = Some P' \<and> pool_ok dinv C N P' lay' \<and> single P' \<and> waited X P lay P' lay'"
  using assms
proof (induction ks arbitrary: P lay)
  case Nil
  then show ?case by (intro exI [of _ P] exI [of _ lay] exI [of _ "{}"]) simp
next
  case (Cons k ks)
  show ?case
  proof (cases "snd k = m")
    case False
    with Cons show ?thesis by simp
  next
    case True
    obtain s where s: "map_of (stream_pair_mem_bufs P) k = Some s"
      using Cons.prems(3) by (cases "map_of (stream_pair_mem_bufs P) k") (auto simp: map_of_eq_None_iff)
    from wait_key_total [OF Cons.prems(1,2) s] obtain P1 lay1 where
      a: "wait_mem_bufs t k s P = Some P1" "pool_ok dinv C N P1 lay1" "single P1" "waited (set s) P lay P1 lay1"
      by blast
    have "map fst (stream_pair_mem_bufs P1) = map fst (stream_pair_mem_bufs P)" using a(4) by (simp add: waited_def)
    then have "set ks \<subseteq> fst ` set (stream_pair_mem_bufs P1)"
      using Cons.prems(3) by (metis insert_subset list.set_map list.simps(15))
    from Cons.IH [OF a(2,3) this] obtain P' lay' X where
      b: "wait_pairs t m ks P1 = Some P'" "pool_ok dinv C N P' lay'" "single P'" "waited X P1 lay1 P' lay'" by blast
    have "wait_pairs t m (k # ks) P = Some P'" using True s a(1) b(1) by simp
    with b(2,3) waited_trans [OF a(4) b(4)] show ?thesis by blast
  qed
qed

lemma WaitEvent_all_total:
  assumes ok: "pool_ok dinv C N P lay" and sg: "single P"
  shows "\<exists>P' lay' X. WaitEvent_all t m P = Some (True, P') \<and> pool_ok dinv C N P' lay' \<and> single P' \<and>
    waited X P lay P' lay'"
proof -
  obtain P' lay' X where "wait_pairs t m (map fst (stream_pair_mem_bufs P)) P = Some P'" "pool_ok dinv C N P' lay'"
      "single P'" "waited X P lay P' lay'"
    using wait_pairs_total [OF ok sg, of "map fst (stream_pair_mem_bufs P)" t m] by auto
  moreover from this(1) have "WaitEvent_all t m P = Some (True, P')" by (simp add: WaitEvent_all_def)
  ultimately show ?thesis by blast
qed

end

end
