(* ===== verification/Mem_Vmm.thy ===== *)
theory Mem_Vmm
  imports Mem_Sizes
begin

text \<open>
  The virtual memory layer of \<^verbatim>\<open>memory/ascend_vmm_adapter.h\<close> and
  \<^verbatim>\<open>memory/ascend_vmm_adapter.cc\<close>: \<open>VmmManager\<close> simulates the driver (virtual ranges, physical
  handles of 2 MB, mappings), and \<open>AscendVmmAdapter\<close> maps and unmaps 2 MB chunks of reserved
  ranges, caching the handles it unmaps. \<open>std::runtime_error\<close> is the left part of a sum.
\<close>

section \<open>Ordered maps\<close>

text \<open>\<open>std::map\<close> over ordered keys, as the list of its entries in key order.\<close>

fun omap_set :: "'k :: linorder \<Rightarrow> 'v \<Rightarrow> ('k \<times> 'v) list \<Rightarrow> ('k \<times> 'v) list" where
  "omap_set k v [] = [(k, v)]"
| "omap_set k v (e # m) =
     (if k < fst e then (k, v) # e # m
      else if fst e < k then e # omap_set k v m
      else (k, v) # m)"

definition omap :: "('k :: linorder \<times> 'v) list \<Rightarrow> bool" where
  "omap m \<longleftrightarrow> sorted_wrt (<) (map fst m)"

lemma omap_Nil [simp]: "omap []"
  by (simp add: omap_def)

lemma omap_set_keys: "fst ` set (omap_set k v m) = insert k (fst ` set m)"
  by (induction m) auto

lemma omap_set_omap [simp]: "omap m \<Longrightarrow> omap (omap_set k v m)"
  unfolding omap_def
  by (induction m) (auto simp: omap_set_keys image_iff dest: order.strict_trans)

lemma omap_set_find [simp]: "omap m \<Longrightarrow> map_of (omap_set k v m) = (map_of m)(k \<mapsto> v)"
  unfolding omap_def
  by (induction m) (auto simp: fun_eq_iff dest: order.strict_trans)

lemma omap_distinct: "omap m \<Longrightarrow> distinct (map fst m)"
  by (simp add: omap_def strict_sorted_iff)

lemma omap_erase [simp]: "omap m \<Longrightarrow> omap (al_erase k m)"
  unfolding omap_def
  by (induction m) (auto dest: subsetD [OF al_erase_keys_subset])

text \<open>The entries around a key: \<open>upper_bound\<close>, the entry before it, and \<open>lower_bound\<close>.\<close>

definition upper_bound :: "'k :: linorder \<Rightarrow> ('k \<times> 'v) list \<Rightarrow> ('k \<times> 'v) option" where
  "upper_bound k m = List.find (\<lambda>e. k < fst e) m"

definition before_upper_bound :: "'k :: linorder \<Rightarrow> ('k \<times> 'v) list \<Rightarrow> ('k \<times> 'v) option" where
  "before_upper_bound k m =
     (case takeWhile (\<lambda>e. fst e \<le> k) m of [] \<Rightarrow> None | es \<Rightarrow> Some (last es))"

section \<open>The manager\<close>

datatype vmm_error =
  FreeVirtualAddressFailed | UnmapAddressFailed | HandleUnmapFailed | MapAddressExists
  | MapUpCheckFailed | MapLowCheckFailed | InputSizeNotAligned

definition kMbByte :: size_t where
  "kMbByte = push_bit 20 1"

definition kDefaultMapSize :: size_t where
  "kDefaultMapSize = kMbByte * 2"

lemma kDefaultMapSize [simp]: "kDefaultMapSize = 2097152"
  by (simp add: kDefaultMapSize_def kMbByte_def)

record mem_handle =
  handle_mapped :: bool
  handle_addr :: device_ptr
  handle_size :: size_t

definition MemHandle :: mem_handle where
  "MemHandle = \<lparr>handle_mapped = False, handle_addr = 0, handle_size = 0\<rparr>"

definition MemHandle_Map :: "device_ptr \<Rightarrow> size_t \<Rightarrow> mem_handle \<Rightarrow> mem_handle" where
  "MemHandle_Map addr sz h = h\<lparr>handle_mapped := True, handle_addr := addr, handle_size := sz\<rparr>"

definition MemHandle_Unmap :: "device_ptr \<Rightarrow> mem_handle \<Rightarrow> vmm_error + mem_handle" where
  "MemHandle_Unmap addr h =
     (if handle_addr h \<noteq> addr then Inl HandleUnmapFailed
      else Inr (h\<lparr>handle_mapped := False, handle_addr := 0, handle_size := 0\<rparr>))"

text \<open>
  A handle is named by the number of its creation; \<open>handles\<close> lists the live handles with their
  contents.
\<close>

record vmm_manager =
  virtual_addresses :: "(device_ptr \<times> size_t) list"
  handles :: "(nat \<times> mem_handle) list"
  next_handle :: nat
  max_mem_size :: size_t
  base_addr :: size_t
  mapped_addrs :: "(device_ptr \<times> nat) list"

definition VmmManager :: "size_t \<Rightarrow> vmm_manager" where
  "VmmManager max_size = \<lparr>virtual_addresses = [], handles = [], next_handle = 0,
     max_mem_size = max_size, base_addr = 0, mapped_addrs = []\<rparr>"

definition MallocVirtualAddress :: "size_t \<Rightarrow> vmm_manager \<Rightarrow> device_ptr \<times> vmm_manager" where
  "MallocVirtualAddress sz M =
     (base_addr M, M\<lparr>base_addr := base_addr M + sz,
        virtual_addresses :=
          (if map_of (virtual_addresses M) (base_addr M) = None
           then omap_set (base_addr M) sz (virtual_addresses M) else virtual_addresses M)\<rparr>)"

definition FreeVirtualAddress :: "device_ptr \<Rightarrow> vmm_manager \<Rightarrow> vmm_error + vmm_manager" where
  "FreeVirtualAddress addr M =
     (if map_of (virtual_addresses M) addr = None then Inl FreeVirtualAddressFailed
      else Inr (M\<lparr>virtual_addresses := al_erase addr (virtual_addresses M)\<rparr>))"

definition GetHandle :: "vmm_manager \<Rightarrow> nat option \<times> vmm_manager" where
  "GetHandle M =
     (if max_mem_size M \<le> of_nat (length (handles M)) * kDefaultMapSize then (None, M)
      else (Some (next_handle M),
        M\<lparr>handles := omap_set (next_handle M) MemHandle (handles M), next_handle := Suc (next_handle M)\<rparr>))"

definition FreeHandle :: "nat \<Rightarrow> vmm_manager \<Rightarrow> bool \<times> vmm_manager" where
  "FreeHandle h M =
     (if map_of (handles M) h = None then (False, M)
      else (True, M\<lparr>handles := al_erase h (handles M)\<rparr>))"

text \<open>
  The source checks the neighbour above, and the neighbour below only when there is one above.
  Mapping through a handle that does not exist is undefined; the adapter never does so.
\<close>

definition Map :: "nat \<Rightarrow> device_ptr \<Rightarrow> vmm_manager \<Rightarrow> vmm_error + vmm_manager" where
  "Map h addr M =
     (if map_of (mapped_addrs M) addr \<noteq> None then Inl MapAddressExists
      else
        let store = Inr (M\<lparr>handles := map (\<lambda>(i, c). (i, if i = h then MemHandle_Map addr kDefaultMapSize c else c))
              (handles M), mapped_addrs := omap_set addr h (mapped_addrs M)\<rparr>)
        in (case upper_bound addr (mapped_addrs M) of
              None \<Rightarrow> store
            | Some (up, _) \<Rightarrow>
                if up < addr + kDefaultMapSize then Inl MapUpCheckFailed
                else (case before_upper_bound addr (mapped_addrs M) of
                        None \<Rightarrow> store
                      | Some (low, _) \<Rightarrow>
                          if addr < low + kDefaultMapSize then Inl MapLowCheckFailed else store)))"

definition Unmap :: "device_ptr \<Rightarrow> vmm_manager \<Rightarrow> vmm_error + vmm_manager" where
  "Unmap addr M =
     (case map_of (mapped_addrs M) addr of
        None \<Rightarrow> Inl UnmapAddressFailed
      | Some h \<Rightarrow>
          (case MemHandle_Unmap addr (case map_of (handles M) h of None \<Rightarrow> MemHandle | Some c \<Rightarrow> c) of
             Inl e \<Rightarrow> Inl e
           | Inr c \<Rightarrow> Inr (M\<lparr>handles := map (\<lambda>(i, d). (i, if i = h then c else d)) (handles M),
               mapped_addrs := al_erase addr (mapped_addrs M)\<rparr>)))"

section \<open>The adapter\<close>

record vmm_adapter =
  vmm_manager_of :: vmm_manager
  physical_handle_size :: size_t
  vmm_map :: "(device_ptr \<times> nat option) list"
  all_reserve_mems :: "device_ptr list"
  cached_handle_sets :: "nat list"

definition kVmmAlignSize :: size_t where
  "kVmmAlignSize = 2 * (1024 * 1024)"

lemma kVmmAlignSize [simp]: "kVmmAlignSize = 2097152"
  by (simp add: kVmmAlignSize_def)

definition AscendVmmAdapter :: vmm_adapter where
  "AscendVmmAdapter = \<lparr>vmm_manager_of = VmmManager kMaxUsedMemSize, physical_handle_size = 0,
     vmm_map = [], all_reserve_mems = [], cached_handle_sets = []\<rparr>"

definition GetRoundUpAlignSize :: "size_t \<Rightarrow> size_t" where
  "GetRoundUpAlignSize input_size =
     ((input_size + kVmmAlignSize - 1) div kVmmAlignSize) * kVmmAlignSize"

definition GetRoundDownAlignSize :: "size_t \<Rightarrow> size_t" where
  "GetRoundDownAlignSize input_size = (input_size div kVmmAlignSize) * kVmmAlignSize"

definition GetHandleSize :: "size_t \<Rightarrow> vmm_error + size_t" where
  "GetHandleSize input_size =
     (if input_size mod kVmmAlignSize \<noteq> 0 then Inl InputSizeNotAligned
      else Inr (input_size div kVmmAlignSize))"

definition GetAllocatedSize :: "vmm_adapter \<Rightarrow> size_t" where
  "GetAllocatedSize V = physical_handle_size V * kVmmAlignSize"

text \<open>The null pointer is the failure value, also when the segment found starts at address 0.\<close>

definition FindVmmSegment :: "device_ptr \<Rightarrow> vmm_adapter \<Rightarrow> device_ptr" where
  "FindVmmSegment addr V = (case before_upper_bound addr (vmm_map V) of None \<Rightarrow> 0 | Some e \<Rightarrow> fst e)"

fun MoveBackMappedHandle :: "(device_ptr \<times> nat) list \<Rightarrow> vmm_adapter \<Rightarrow> vmm_error + vmm_adapter" where
  "MoveBackMappedHandle [] V = Inr V"
| "MoveBackMappedHandle ((address, h) # rest) V =
     (case Unmap address (vmm_manager_of V) of
        Inl e \<Rightarrow> Inl e
      | Inr M \<Rightarrow>
          let V = V\<lparr>vmm_manager_of := M\<rparr> in
          MoveBackMappedHandle rest
            (if map_of (vmm_map V) address = None then V
             else V\<lparr>vmm_map := omap_set address None (vmm_map V),
                    cached_handle_sets := oset_emplace (<) h (cached_handle_sets V)\<rparr>))"

text \<open>
  The handle for one more chunk: a cached one, or a new one while the limit allows it. The result
  \<open>None\<close> stands for the two branches that give up and move the mapped handles back.
\<close>

definition acquire_handle :: "size_t \<Rightarrow> vmm_adapter \<Rightarrow> nat option \<times> vmm_adapter" where
  "acquire_handle max_size V =
     (case cached_handle_sets V of
        h # hs \<Rightarrow> (Some h, V\<lparr>cached_handle_sets := hs\<rparr>)
      | [] \<Rightarrow>
          if max_size \<le> physical_handle_size V * kVmmAlignSize then (None, V)
          else (case GetHandle (vmm_manager_of V) of
                  (None, M) \<Rightarrow> (None, V\<lparr>vmm_manager_of := M\<rparr>)
                | (Some h, M) \<Rightarrow> (Some h, V\<lparr>vmm_manager_of := M,
                    physical_handle_size := physical_handle_size V + 1\<rparr>)))"

text \<open>
  The loop of \<open>MmapDeviceMem\<close>. The iterator is the list of the map's keys from its position on.
  The result says whether all chunks are mapped.
\<close>

fun mmap_loop ::
    "nat \<Rightarrow> device_ptr list \<Rightarrow> device_ptr \<Rightarrow> (device_ptr \<times> nat) list \<Rightarrow> size_t \<Rightarrow> vmm_adapter \<Rightarrow>
     vmm_error + (bool \<times> vmm_adapter)" where
  "mmap_loop 0 ks new_addr mapped max_size V = Inr (True, V)"
| "mmap_loop (Suc n) [] new_addr mapped max_size V = Inr (False, V)"
| "mmap_loop (Suc n) (k # ks) new_addr mapped max_size V =
     (if k \<noteq> new_addr then Inr (False, V)
      else if map_of (vmm_map V) k \<noteq> Some None
      then mmap_loop n ks (new_addr + kVmmAlignSize) mapped max_size V
      else (case acquire_handle max_size V of
          (None, V) \<Rightarrow>
            (case MoveBackMappedHandle mapped V of Inl e \<Rightarrow> Inl e | Inr V \<Rightarrow> Inr (False, V))
        | (Some h, V) \<Rightarrow>
            (case Map h new_addr (vmm_manager_of V) of
               Inl e \<Rightarrow> Inl e
             | Inr M \<Rightarrow>
                 mmap_loop n ks (new_addr + kVmmAlignSize) (omap_set k h mapped) max_size
                   (V\<lparr>vmm_manager_of := M, vmm_map := omap_set k (Some h) (vmm_map V)\<rparr>))))"

definition Vmm_MmapDeviceMem ::
    "size_t \<Rightarrow> device_ptr \<Rightarrow> size_t \<Rightarrow> vmm_adapter \<Rightarrow> vmm_error + (size_t \<times> vmm_adapter)" where
  "Vmm_MmapDeviceMem sz addr max_size V =
     (let vmm_start_addr = FindVmmSegment addr V in
      if vmm_start_addr = 0 then Inr (0, V)
      else
        let start_offset = addr - vmm_start_addr;
            align_size = GetRoundUpAlignSize (sz + start_offset)
        in (case GetHandleSize align_size of
              Inl e \<Rightarrow> Inl e
            | Inr n \<Rightarrow>
                (case mmap_loop (unat n) (dropWhile (\<lambda>k. k \<noteq> vmm_start_addr) (map fst (vmm_map V)))
                        vmm_start_addr [] max_size V of
                   Inl e \<Rightarrow> Inl e
                 | Inr (True, V) \<Rightarrow> Inr (sz, V)
                 | Inr (False, V) \<Rightarrow> Inr (0, V))))"

fun reserve_chunks :: "nat \<Rightarrow> device_ptr \<Rightarrow> (device_ptr \<times> nat option) list \<Rightarrow> (device_ptr \<times> nat option) list" where
  "reserve_chunks 0 addr m = m"
| "reserve_chunks (Suc n) addr m = reserve_chunks n (addr + kVmmAlignSize) (omap_set addr None m)"

definition Vmm_AllocDeviceMem :: "size_t \<Rightarrow> vmm_adapter \<Rightarrow> vmm_error + ((size_t \<times> device_ptr) \<times> vmm_adapter)" where
  "Vmm_AllocDeviceMem sz V =
     (let align_size = GetRoundUpAlignSize sz;
          (addr, M) = MallocVirtualAddress align_size (vmm_manager_of V);
          V = V\<lparr>vmm_manager_of := M, all_reserve_mems := all_reserve_mems V @ [addr]\<rparr>
      in (case GetHandleSize align_size of
            Inl e \<Rightarrow> Inl e
          | Inr n \<Rightarrow> Inr ((align_size, addr), V\<lparr>vmm_map := reserve_chunks (unat n) addr (vmm_map V)\<rparr>)))"

text \<open>The loop of \<open>EagerFreeDeviceMem\<close>; the iterator is again the rest of the key list.\<close>

fun eager_free_loop ::
    "device_ptr list \<Rightarrow> device_ptr \<Rightarrow> device_ptr \<Rightarrow> size_t \<Rightarrow> vmm_adapter \<Rightarrow>
     vmm_error + (size_t \<times> vmm_adapter)" where
  "eager_free_loop ks vmm_start_addr free_end_addr ret_size V =
     (let vmm_end_addr = vmm_start_addr + kVmmAlignSize in
      if free_end_addr < vmm_end_addr then Inr (ret_size, V)
      else (case ks of
          [] \<Rightarrow> Inr (0, V)
        | k # ks \<Rightarrow>
            if k \<noteq> vmm_start_addr then Inr (0, V)
            else (case map_of (vmm_map V) k of
                Some (Some h) \<Rightarrow>
                  (case Unmap vmm_start_addr (vmm_manager_of V) of
                     Inl e \<Rightarrow> Inl e
                   | Inr M \<Rightarrow>
                       eager_free_loop ks vmm_end_addr free_end_addr (ret_size + kVmmAlignSize)
                         (V\<lparr>vmm_manager_of := M,
                            cached_handle_sets := oset_emplace (<) h (cached_handle_sets V),
                            vmm_map := omap_set k None (vmm_map V)\<rparr>))
              | _ \<Rightarrow> eager_free_loop ks vmm_end_addr free_end_addr ret_size V)))"

definition Vmm_EagerFreeDeviceMem ::
    "device_ptr \<Rightarrow> size_t \<Rightarrow> vmm_adapter \<Rightarrow> vmm_error + (size_t \<times> vmm_adapter)" where
  "Vmm_EagerFreeDeviceMem addr sz V =
     (case dropWhile (\<lambda>k. k < addr) (map fst (vmm_map V)) of
        [] \<Rightarrow> Inr (0, V)
      | k # ks \<Rightarrow> eager_free_loop (k # ks) k (addr + sz) 0 V)"

text \<open>\<open>ClearAllMemory\<close>, also the destructor.\<close>

fun clear_mapped :: "(device_ptr \<times> nat option) list \<Rightarrow> vmm_manager \<Rightarrow> vmm_error + vmm_manager" where
  "clear_mapped [] M = Inr M"
| "clear_mapped ((a, None) # kvs) M = clear_mapped kvs M"
| "clear_mapped ((a, Some h) # kvs) M =
     (case Unmap a M of
        Inl e \<Rightarrow> Inl e
      | Inr M \<Rightarrow> clear_mapped kvs (snd (FreeHandle h M)))"

fun clear_reserved :: "device_ptr list \<Rightarrow> vmm_manager \<Rightarrow> vmm_error + vmm_manager" where
  "clear_reserved [] M = Inr M"
| "clear_reserved (a # as) M =
     (case FreeVirtualAddress a M of Inl e \<Rightarrow> Inl e | Inr M \<Rightarrow> clear_reserved as M)"

definition ClearAllMemory :: "vmm_adapter \<Rightarrow> vmm_error + vmm_adapter" where
  "ClearAllMemory V =
     (case clear_mapped (vmm_map V) (vmm_manager_of V) of
        Inl e \<Rightarrow> Inl e
      | Inr M \<Rightarrow>
          (case clear_reserved (all_reserve_mems V)
                  (fold (\<lambda>h M. snd (FreeHandle h M)) (cached_handle_sets V) M) of
             Inl e \<Rightarrow> Inl e
           | Inr M \<Rightarrow> Inr (V\<lparr>vmm_manager_of := M, cached_handle_sets := [],
               all_reserve_mems := [], vmm_map := []\<rparr>)))"

end
