(* ===== verification/Mem_Vmm_Inv.thy ===== *)
theory Mem_Vmm_Inv
  imports Mem_Vmm
begin

text \<open>
  The invariant of the virtual memory layer: the adapter's table and the manager's table of
  mappings agree, chunks are aligned and below the reserved end, and every physical handle is
  mapped once, cached, or in hand. Under it no operation throws.
\<close>

section \<open>Aligned chunks\<close>

definition chunk :: "size_t \<Rightarrow> device_ptr \<Rightarrow> bool" where
  "chunk lim k \<longleftrightarrow> unat k mod 2097152 = 0 \<and> unat k + 2097152 \<le> unat lim"

lemma aligned_gap:
  fixes x y c :: nat
  assumes "x mod c = 0" "y mod c = 0" "x < y"
  shows "x + c \<le> y"
proof -
  obtain q where q: "x = c * q" using assms(1) by auto
  obtain r where r: "y = c * r" using assms(2) by auto
  have "Suc q \<le> r" using assms(3) q r by (simp add: Suc_le_eq)
  then have "c * Suc q \<le> c * r" by (rule mult_le_mono2)
  with q r show ?thesis by simp
qed

lemma chunk_end: "chunk lim k \<Longrightarrow> unat (k + 2097152) = unat k + 2097152"
  using unsigned_less [of lim, where ?'a = nat] by (subst unat64_add) (auto simp: chunk_def)

lemma chunk_gap:
  assumes "chunk lim k" "chunk lim l" "k < l"
  shows "k + 2097152 \<le> l"
proof -
  have "unat k < unat l" using assms(3) by (simp add: word_less_nat_alt)
  then have "unat k + 2097152 \<le> unat l"
    using assms(1,2) by (intro aligned_gap) (auto simp: chunk_def)
  with chunk_end [OF assms(1)] show ?thesis by (simp add: word_le_nat_alt)
qed

lemma upper_boundD: "upper_bound k m = Some (l, v) \<Longrightarrow> l \<in> fst ` set m \<and> k < l"
  unfolding upper_bound_def find_Some_iff by (metis fst_conv image_eqI nth_mem)

lemma before_upper_boundD:
  assumes "before_upper_bound k m = Some (l, v)"
  shows "(l, v) \<in> set m \<and> l \<le> k"
proof -
  let ?t = "takeWhile (\<lambda>e. fst e \<le> k) m"
  have t: "?t \<noteq> []" "last ?t = (l, v)"
    using assms by (auto simp: before_upper_bound_def split: list.splits)
  then have "(l, v) \<in> set ?t" by (metis last_in_set)
  then show ?thesis by (auto dest: set_takeWhileD)
qed

section \<open>The invariant\<close>

text \<open>The tables are ordered and hold aligned chunks below the end of the reserved range.\<close>

definition tables_ok :: "vmm_adapter \<Rightarrow> bool" where
  "tables_ok V \<longleftrightarrow> omap (vmm_map V) \<and> omap (mapped_addrs (vmm_manager_of V)) \<and>
     omap (handles (vmm_manager_of V)) \<and>
     (\<forall>k \<in> dom (map_of (vmm_map V)). chunk (base_addr (vmm_manager_of V)) k) \<and>
     unat (base_addr (vmm_manager_of V)) mod 2097152 = 0"

text \<open>The two tables of mappings agree, and a mapped handle knows its address.\<close>

definition maps_ok :: "vmm_adapter \<Rightarrow> bool" where
  "maps_ok V \<longleftrightarrow>
     (\<forall>a h. map_of (mapped_addrs (vmm_manager_of V)) a = Some h \<longleftrightarrow>
        map_of (vmm_map V) a = Some (Some h)) \<and>
     (\<forall>a h. map_of (vmm_map V) a = Some (Some h) \<longrightarrow>
        map_option handle_addr (map_of (handles (vmm_manager_of V)) h) = Some a)"

text \<open>
  Every handle is mapped, cached, or in the set \<open>X\<close> of handles an operation has in hand; the
  number of handles is the counter, and it respects the limit.
\<close>

definition mapped_handles :: "vmm_adapter \<Rightarrow> nat set" where
  "mapped_handles V = {h. \<exists>a. map_of (vmm_map V) a = Some (Some h)}"

definition handles_ok :: "nat set \<Rightarrow> vmm_adapter \<Rightarrow> bool" where
  "handles_ok X V \<longleftrightarrow>
     sorted_wrt (<) (cached_handle_sets V) \<and>
     set (cached_handle_sets V) \<inter> mapped_handles V = {} \<and>
     X \<inter> (set (cached_handle_sets V) \<union> mapped_handles V) = {} \<and>
     dom (map_of (handles (vmm_manager_of V))) = mapped_handles V \<union> set (cached_handle_sets V) \<union> X \<and>
     (\<forall>h \<in> dom (map_of (handles (vmm_manager_of V))). h < next_handle (vmm_manager_of V)) \<and>
     physical_handle_size V = of_nat (length (handles (vmm_manager_of V))) \<and>
     length (handles (vmm_manager_of V)) \<le> 29696 \<and>
     max_mem_size (vmm_manager_of V) = kMaxUsedMemSize"

definition vmm_ok :: "nat set \<Rightarrow> vmm_adapter \<Rightarrow> bool" where
  "vmm_ok X V \<longleftrightarrow> tables_ok V \<and> maps_ok V \<and> handles_ok X V"

lemma vmm_ok_init: "vmm_ok {} AscendVmmAdapter"
  by (simp add: vmm_ok_def tables_ok_def maps_ok_def handles_ok_def mapped_handles_def
      AscendVmmAdapter_def VmmManager_def omap_def)

lemma map_of_update_values [simp]:
  "map_of (map (\<lambda>(i, c). (i, if i = h then f c else c)) m) j =
     (if j = h then map_option f (map_of m j) else map_of m j)"
  by (induction m) auto

lemma map_of_replace_values [simp]:
  "map_of (map (\<lambda>(i, d). (i, if i = h then c else d)) m) j =
     (if j = h then map_option (\<lambda>_. c) (map_of m j) else map_of m j)"
  by (induction m) auto

lemma dom_update_values:
  "dom (map_of (map (\<lambda>(i, c). (i, if i = h then f c else c)) m)) = dom (map_of m)"
  by (auto simp: dom_def split: if_splits)

lemma omap_map_values [simp]: "omap (map (\<lambda>(i, c). (i, f i c)) m) = omap m"
  by (simp add: omap_def comp_def case_prod_beta')

lemma dom_map_of: "dom (map_of m) = fst ` set m"
  by (rule dom_map_of_conv_image_fst)

section \<open>Mapping and unmapping a chunk\<close>

definition map_chunk :: "device_ptr \<Rightarrow> nat option \<Rightarrow> vmm_manager \<Rightarrow> vmm_adapter \<Rightarrow> vmm_adapter" where
  "map_chunk a v M V = V\<lparr>vmm_manager_of := M, vmm_map := omap_set a v (vmm_map V)\<rparr>"

lemma Map_returns:
  assumes tab: "tables_ok V" and mp: "maps_ok V" and a: "map_of (vmm_map V) a = Some None"
  shows "Map h a (vmm_manager_of V) = Inr ((vmm_manager_of V)\<lparr>
    handles := map (\<lambda>(i, c). (i, if i = h then MemHandle_Map a kDefaultMapSize c else c))
      (handles (vmm_manager_of V)),
    mapped_addrs := omap_set a h (mapped_addrs (vmm_manager_of V))\<rparr>)"
proof -
  let ?M = "vmm_manager_of V"
  have not_mapped: "map_of (mapped_addrs ?M) a = None"
    using a mp by (cases "map_of (mapped_addrs ?M) a") (auto simp: maps_ok_def)
  have keys: "chunk (base_addr ?M) k" if "k \<in> fst ` set (mapped_addrs ?M)" for k
  proof -
    have "k \<in> dom (map_of (mapped_addrs ?M))" using that by (simp add: dom_map_of)
    then have "k \<in> dom (map_of (vmm_map V))" using mp by (auto simp: maps_ok_def)
    then show ?thesis using tab by (simp add: tables_ok_def)
  qed
  have ka: "chunk (base_addr ?M) a" using tab a by (simp add: tables_ok_def domI)
  have up: "\<not> up < a + 2097152" if "upper_bound a (mapped_addrs ?M) = Some (up, v)" for up v
    using upper_boundD [OF that] chunk_gap [OF ka keys] by (auto simp: not_less)
  have low: "\<not> a < low + 2097152" if "before_upper_bound a (mapped_addrs ?M) = Some (low, v)" for low v
  proof -
    have l: "low \<in> fst ` set (mapped_addrs ?M)" "low \<le> a"
      using before_upper_boundD [OF that] by (auto intro: rev_image_eqI)
    then have "low \<noteq> a" using not_mapped by (auto simp: map_of_eq_None_iff)
    with l(2) have "low < a" by simp
    with chunk_gap [OF keys [OF l(1)] ka] show ?thesis by (simp add: not_less)
  qed
  show ?thesis
    using not_mapped up low by (auto simp: Map_def Let_def split: option.splits)
qed

lemma Map_total:
  assumes ok: "vmm_ok {h} V" and a: "map_of (vmm_map V) a = Some None"
  shows "\<exists>M. Map h a (vmm_manager_of V) = Inr M \<and> vmm_ok {} (map_chunk a (Some h) M V) \<and>
    base_addr M = base_addr (vmm_manager_of V)"
proof -
  let ?M = "vmm_manager_of V"
  let ?V = "\<lambda>M. map_chunk a (Some h) M V"
  have tab: "tables_ok V" and mp: "maps_ok V" and hs: "handles_ok {h} V"
    using ok by (simp_all add: vmm_ok_def)
  define M where "M = ?M\<lparr>handles := map (\<lambda>(i, c). (i, if i = h then MemHandle_Map a kDefaultMapSize c else c))
      (handles ?M), mapped_addrs := omap_set a h (mapped_addrs ?M)\<rparr>"
  have om: "omap (vmm_map V)" "omap (mapped_addrs ?M)" using tab by (simp_all add: tables_ok_def)
  have "tables_ok (?V M)"
    using tab a by (auto simp: tables_ok_def map_chunk_def M_def)
  moreover have "maps_ok (?V M)"
  proof -
    have "h \<in> dom (map_of (handles ?M))" using hs by (simp add: handles_ok_def)
    then obtain c where "map_of (handles ?M) h = Some c" by blast
    moreover have "map_of (vmm_map V) b \<noteq> Some (Some h)" for b
      using hs by (auto simp: handles_ok_def mapped_handles_def)
    ultimately show ?thesis
      using mp om by (auto simp: maps_ok_def map_chunk_def M_def MemHandle_Map_def)
  qed
  moreover have "mapped_handles (?V M) = insert h (mapped_handles V)"
    using om a by (auto simp: mapped_handles_def map_chunk_def) (metis option.distinct(1) option.inject)+
  then have "handles_ok {} (?V M)"
    using hs by (auto simp: handles_ok_def map_chunk_def M_def dom_update_values)
  ultimately show ?thesis
    using Map_returns [OF tab mp a] by (auto simp: vmm_ok_def M_def)
qed

lemma Unmap_total:
  assumes ok: "vmm_ok X V" and a: "map_of (vmm_map V) a = Some (Some h)"
  shows "\<exists>M. Unmap a (vmm_manager_of V) = Inr M \<and>
    vmm_ok X ((map_chunk a None M V)\<lparr>cached_handle_sets := oset_emplace (<) h (cached_handle_sets V)\<rparr>) \<and>
    base_addr M = base_addr (vmm_manager_of V)"
proof -
  let ?M = "vmm_manager_of V"
  have tab: "tables_ok V" and mp: "maps_ok V" and hs: "handles_ok X V"
    using ok by (simp_all add: vmm_ok_def)
  have m: "map_of (mapped_addrs ?M) a = Some h" using mp a by (simp add: maps_ok_def)
  obtain c where hc: "map_of (handles ?M) h = Some c" "handle_addr c = a"
    using mp a unfolding maps_ok_def map_option_eq_Some by metis
  define M where "M = ?M\<lparr>handles := map (\<lambda>(i, d). (i, if i = h
      then c\<lparr>handle_mapped := False, handle_addr := 0, handle_size := 0\<rparr> else d)) (handles ?M),
    mapped_addrs := al_erase a (mapped_addrs ?M)\<rparr>"
  let ?V = "(map_chunk a None M V)\<lparr>cached_handle_sets := oset_emplace (<) h (cached_handle_sets V)\<rparr>"
  have om: "omap (vmm_map V)" "omap (mapped_addrs ?M)" "distinct (map fst (mapped_addrs ?M))"
    using tab by (simp_all add: tables_ok_def omap_distinct)
  have uniq: "b = a" if "map_of (vmm_map V) b = Some (Some h)" for b
  proof -
    have "map_option handle_addr (map_of (handles ?M) h) = Some b"
      using that mp unfolding maps_ok_def by blast
    with hc show ?thesis by simp
  qed
  have "tables_ok ?V"
    using tab a by (auto simp: tables_ok_def map_chunk_def M_def)
  moreover have "maps_ok ?V"
    unfolding maps_ok_def
  proof (intro conjI allI impI)
    fix b h'
    have vm: "map_of (vmm_map ?V) b = (if b = a then Some None else map_of (vmm_map V) b)"
      using om by (simp add: map_chunk_def)
    show "(map_of (mapped_addrs (vmm_manager_of ?V)) b = Some h') = (map_of (vmm_map ?V) b = Some (Some h'))"
      unfolding vm using mp om(3) by (simp add: maps_ok_def map_chunk_def M_def)
    assume "map_of (vmm_map ?V) b = Some (Some h')"
    then have b: "b \<noteq> a" "map_of (vmm_map V) b = Some (Some h')" unfolding vm by (auto split: if_splits)
    then have "h' \<noteq> h" using uniq by blast
    with b mp show "map_option handle_addr (map_of (handles (vmm_manager_of ?V)) h') = Some b"
      by (simp add: maps_ok_def map_chunk_def M_def)
  qed
  moreover have "mapped_handles ?V = mapped_handles V - {h}"
  proof -
    have vm: "map_of (vmm_map ?V) = (map_of (vmm_map V))(a \<mapsto> None)"
      using om by (simp add: map_chunk_def)
    have "x \<in> mapped_handles ?V \<longleftrightarrow> x \<in> mapped_handles V \<and> x \<noteq> h" for x
    proof
      assume "x \<in> mapped_handles ?V"
      then obtain b where "b \<noteq> a" "map_of (vmm_map V) b = Some (Some x)"
        unfolding mapped_handles_def vm by (auto split: if_splits)
      with uniq show "x \<in> mapped_handles V \<and> x \<noteq> h" unfolding mapped_handles_def by blast
    next
      assume "x \<in> mapped_handles V \<and> x \<noteq> h"
      then obtain b where b: "map_of (vmm_map V) b = Some (Some x)" "x \<noteq> h"
        unfolding mapped_handles_def by blast
      then have "b \<noteq> a" using a by auto
      with b show "x \<in> mapped_handles ?V" unfolding mapped_handles_def vm by auto
    qed
    then show ?thesis by blast
  qed
  ultimately have mh: "mapped_handles ?V = mapped_handles V - {h}" and tabs: "tables_ok ?V" "maps_ok ?V"
    by simp_all
  have hm: "h \<in> mapped_handles V" using a by (auto simp: mapped_handles_def)
  have man: "vmm_manager_of ?V = M" "physical_handle_size ?V = physical_handle_size V"
      "dom (map_of (handles M)) = dom (map_of (handles ?M))" "next_handle M = next_handle ?M"
      "length (handles M) = length (handles ?M)" "max_mem_size M = max_mem_size ?M"
    by (auto simp: M_def map_chunk_def dom_def split: if_splits)
  have c: "set (cached_handle_sets ?V) = insert h (set (cached_handle_sets V))"
      "sorted_wrt (<) (cached_handle_sets ?V)"
    using hs nat_order.emplace_set [of "cached_handle_sets V" h]
      nat_order.emplace_sorted [of "cached_handle_sets V" h] by (simp_all add: handles_ok_def)
  have "handles_ok X ?V"
    unfolding handles_ok_def mh man c(1)
  proof (intro conjI)
    show "dom (map_of (handles ?M)) = mapped_handles V - {h} \<union> insert h (set (cached_handle_sets V)) \<union> X"
      using hs hm by (auto simp: handles_ok_def)
    show "X \<inter> (insert h (set (cached_handle_sets V)) \<union> (mapped_handles V - {h})) = {}"
      using hs hm by (auto simp: handles_ok_def)
  qed (use hs c(2) in \<open>auto simp: handles_ok_def\<close>)
  with tabs have "vmm_ok X ?V" by (simp add: vmm_ok_def)
  moreover have "Unmap a ?M = Inr M"
    using m hc by (simp add: Unmap_def MemHandle_Unmap_def M_def)
  ultimately show ?thesis by (auto simp: M_def)
qed

section \<open>Taking and returning handles\<close>

lemma acquire_handle_total:
  assumes ok: "vmm_ok {} V"
  shows "acquire_handle max_size V = (None, V) \<or>
    (\<exists>h V'. acquire_handle max_size V = (Some h, V') \<and> vmm_ok {h} V' \<and> vmm_map V' = vmm_map V \<and>
       base_addr (vmm_manager_of V') = base_addr (vmm_manager_of V))"
proof (cases "cached_handle_sets V")
  case (Cons h hs)
  let ?V = "V\<lparr>cached_handle_sets := hs\<rparr>"
  have "mapped_handles ?V = mapped_handles V" by (simp add: mapped_handles_def)
  then have "vmm_ok {h} ?V"
    using ok Cons by (auto simp: vmm_ok_def tables_ok_def maps_ok_def handles_ok_def)
  with Cons show ?thesis by (auto simp: acquire_handle_def)
next
  case Nil
  let ?M = "vmm_manager_of V"
  have tab: "tables_ok V" and mp: "maps_ok V" and hs: "handles_ok {} V"
    using ok by (simp_all add: vmm_ok_def)
  show ?thesis
  proof (cases "max_size \<le> physical_handle_size V * kVmmAlignSize \<or>
      max_mem_size ?M \<le> of_nat (length (handles ?M)) * kDefaultMapSize")
    case True
    with Nil show ?thesis by (auto simp: acquire_handle_def GetHandle_def)
  next
    case False
    let ?h = "next_handle ?M"
    define M where "M = ?M\<lparr>handles := omap_set ?h MemHandle (handles ?M), next_handle := Suc ?h\<rparr>"
    define V' where "V' = V\<lparr>vmm_manager_of := M, physical_handle_size := physical_handle_size V + 1\<rparr>"
    have om: "omap (handles ?M)" using tab by (simp add: tables_ok_def)
    have new: "?h \<notin> dom (map_of (handles ?M))" using hs by (auto simp: handles_ok_def)
    have mh: "mapped_handles V' = mapped_handles V" by (simp add: mapped_handles_def V'_def)
    have lt: "length (handles ?M) < 29696"
    proof -
      have b: "length (handles ?M) \<le> 29696" "max_mem_size ?M = 62277025792"
        using hs by (simp_all add: handles_ok_def)
      have "unat (of_nat (length (handles ?M)) * 2097152 :: size_t) = length (handles ?M) * 2097152"
        using b by (simp add: unat_word_ariths unsigned_of_nat take_bit_nat_eq_self)
      with False b show ?thesis by (simp add: word_less_nat_alt not_le)
    qed
    have len: "length (handles M) = Suc (length (handles ?M))"
    proof -
      have "length (omap_set k v m) = Suc (length m)" if "k \<notin> fst ` set m" for k :: nat and v :: mem_handle and m
        using that by (induction m) auto
      with new show ?thesis by (simp add: M_def dom_map_of)
    qed
    have "tables_ok V'" using tab by (simp add: tables_ok_def V'_def M_def)
    moreover have "maps_ok V'"
      unfolding maps_ok_def
    proof (intro conjI allI impI)
      fix a h
      show "(map_of (mapped_addrs (vmm_manager_of V')) a = Some h) = (map_of (vmm_map V') a = Some (Some h))"
        using mp by (simp add: maps_ok_def V'_def M_def)
      assume "map_of (vmm_map V') a = Some (Some h)"
      then have old: "map_option handle_addr (map_of (handles ?M) h) = Some a"
        using mp by (simp add: maps_ok_def V'_def)
      then have "h \<in> dom (map_of (handles ?M))" by auto
      with new have "h \<noteq> ?h" by metis
      with old om show "map_option handle_addr (map_of (handles (vmm_manager_of V')) h) = Some a"
        by (simp add: V'_def M_def)
    qed
    moreover have "handles_ok {?h} V'"
      using hs new len lt om unfolding handles_ok_def mh
      by (auto simp: V'_def M_def less_Suc_eq Nil)
    ultimately have "vmm_ok {?h} V'" by (simp add: vmm_ok_def)
    with False Nil show ?thesis
      by (auto simp: acquire_handle_def GetHandle_def V'_def M_def not_le)
  qed
qed

text \<open>What an operation on chunks keeps of the adapter.\<close>

definition same_range :: "vmm_adapter \<Rightarrow> vmm_adapter \<Rightarrow> bool" where
  "same_range V V' \<longleftrightarrow> base_addr (vmm_manager_of V') = base_addr (vmm_manager_of V) \<and>
     dom (map_of (vmm_map V')) = dom (map_of (vmm_map V))"

lemma same_range_refl [simp]: "same_range V V"
  by (simp add: same_range_def)

lemma same_range_trans: "same_range V V1 \<Longrightarrow> same_range V1 V2 \<Longrightarrow> same_range V V2"
  by (simp add: same_range_def)

lemma vmm_ok_omap: "vmm_ok X V \<Longrightarrow> omap (vmm_map V)"
  by (simp add: vmm_ok_def tables_ok_def)

lemma MoveBack_total:
  assumes "vmm_ok X V" "distinct (map fst ms)"
    and "\<And>a h. (a, h) \<in> set ms \<Longrightarrow> map_of (vmm_map V) a = Some (Some h)"
  shows "\<exists>V'. MoveBackMappedHandle ms V = Inr V' \<and> vmm_ok X V' \<and> same_range V V' \<and>
    map_of (vmm_map V') = (\<lambda>a. if a \<in> fst ` set ms then Some None else map_of (vmm_map V) a)"
  using assms
proof (induction ms arbitrary: V)
  case Nil
  then show ?case by simp
next
  case (Cons e ms)
  obtain a h where e: "e = (a, h)" by force
  have a: "map_of (vmm_map V) a = Some (Some h)" using Cons.prems(3) e by simp
  obtain M where M: "Unmap a (vmm_manager_of V) = Inr M"
      "vmm_ok X ((map_chunk a None M V)\<lparr>cached_handle_sets := oset_emplace (<) h (cached_handle_sets V)\<rparr>)"
      "base_addr M = base_addr (vmm_manager_of V)"
    using Unmap_total [OF Cons.prems(1) a] by blast
  define V1 where "V1 = (map_chunk a None M V)\<lparr>cached_handle_sets := oset_emplace (<) h (cached_handle_sets V)\<rparr>"
  have vm: "map_of (vmm_map V1) = (map_of (vmm_map V))(a \<mapsto> None)"
    using vmm_ok_omap [OF Cons.prems(1)] by (simp add: V1_def map_chunk_def)
  have sr: "same_range V V1"
    using vm a M(3) by (auto simp: same_range_def V1_def map_chunk_def)
  have "map_of (vmm_map V1) b = Some (Some i)" if "(b, i) \<in> set ms" for b i
  proof -
    have "b \<noteq> a" using that Cons.prems(2) e by (auto intro: rev_image_eqI)
    with that Cons.prems(3) vm show ?thesis by simp
  qed
  from Cons.IH [OF M(2) [folded V1_def] _ this] Cons.prems(2) obtain V' where V':
      "MoveBackMappedHandle ms V1 = Inr V'" "vmm_ok X V'" "same_range V1 V'"
      "map_of (vmm_map V') = (\<lambda>a. if a \<in> fst ` set ms then Some None else map_of (vmm_map V1) a)"
    by auto
  have "MoveBackMappedHandle (e # ms) V = Inr V'"
    using M(1) a V'(1) by (simp add: e Let_def V1_def map_chunk_def)
  moreover have "map_of (vmm_map V') = (\<lambda>x. if x \<in> fst ` set (e # ms) then Some None else map_of (vmm_map V) x)"
    unfolding V'(4) vm by (auto simp: e fun_eq_iff)
  ultimately show ?case using V'(2,3) sr same_range_trans by blast
qed

section \<open>Mapping a range\<close>

definition chunks :: "nat \<Rightarrow> device_ptr \<Rightarrow> device_ptr list" where
  "chunks n a = map (\<lambda>i. a + of_nat i * 2097152) [0 ..< n]"

lemma chunks_simps [simp]:
  "chunks 0 a = []" "chunks (Suc n) a = a # chunks n (a + 2097152)"
  by (simp_all add: chunks_def map_upt_Suc algebra_simps del: upt_Suc)

definition mapped_at :: "vmm_adapter \<Rightarrow> device_ptr \<Rightarrow> bool" where
  "mapped_at V a \<longleftrightarrow> (\<exists>h. map_of (vmm_map V) a = Some (Some h))"

definition loop_post ::
    "nat \<Rightarrow> device_ptr list \<Rightarrow> device_ptr \<Rightarrow> (device_ptr \<Rightarrow> nat option option) \<Rightarrow> vmm_adapter \<Rightarrow>
     bool \<Rightarrow> vmm_adapter \<Rightarrow> bool" where
  "loop_post n ks a t V r V' \<longleftrightarrow> vmm_ok {} V' \<and> same_range V V' \<and>
    (r \<longrightarrow> (\<forall>b \<in> set (chunks n a). mapped_at V' b) \<and> (\<forall>b. mapped_at V b \<longrightarrow> mapped_at V' b)) \<and>
    (\<not> r \<longrightarrow> map_of (vmm_map V') = t \<or> (\<nexists>rest. ks = chunks n a @ rest))"

lemma mmap_loop_total:
  assumes "vmm_ok {} V" "omap ms" "set ks \<subseteq> dom (map_of (vmm_map V))"
    and "\<forall>b h. map_of ms b = Some h \<longrightarrow> map_of (vmm_map V) b = Some (Some h)"
    and "\<forall>b. if b \<in> fst ` set ms then t b = Some None else map_of (vmm_map V) b = t b"
  shows "\<exists>r V'. mmap_loop n ks a ms mx V = Inr (r, V') \<and> loop_post n ks a t V r V'"
  using assms
proof (induction n arbitrary: ks a ms V)
  case 0
  then show ?case by (auto simp: loop_post_def)
next
  case (Suc n)
  have om: "omap (vmm_map V)" using Suc.prems(1) by (rule vmm_ok_omap)
  show ?case
  proof (cases ks)
    case Nil
    with Suc.prems(1) show ?thesis by (auto simp: loop_post_def)
  next
    case (Cons k ks')
    have kd: "k \<in> dom (map_of (vmm_map V))" "set ks' \<subseteq> dom (map_of (vmm_map V))"
      using Suc.prems(3) Cons by auto
    consider (other) "k \<noteq> a" | (skip) h where "k = a" "map_of (vmm_map V) a = Some (Some h)"
      | (get) "k = a" "map_of (vmm_map V) a = Some None"
      using kd(1) by (auto simp: dom_def) (metis option.exhaust)
    then show ?thesis
    proof cases
      case other
      with Cons Suc.prems(1) show ?thesis by (auto simp: loop_post_def)
    next
      case skip
      obtain r V' where IH: "mmap_loop n ks' (a + 2097152) ms mx V = Inr (r, V')"
          "loop_post n ks' (a + 2097152) t V r V'"
        using Suc.IH [OF Suc.prems(1,2) kd(2) Suc.prems(4,5)] by blast
      have "mapped_at V a" using skip by (simp add: mapped_at_def)
      then have "loop_post (Suc n) ks a t V r V'" using IH(2) Cons skip by (auto simp: loop_post_def)
      with IH(1) Cons skip show ?thesis by simp
    next
      case get
      from acquire_handle_total [OF Suc.prems(1), of mx] show ?thesis
      proof (elim disjE exE conjE)
        assume none: "acquire_handle mx V = (None, V)"
        have "\<And>b h. (b, h) \<in> set ms \<Longrightarrow> map_of (vmm_map V) b = Some (Some h)"
          using Suc.prems(4) omap_distinct [OF Suc.prems(2)] by simp
        from MoveBack_total [OF Suc.prems(1) omap_distinct [OF Suc.prems(2)] this]
        obtain V' where V': "MoveBackMappedHandle ms V = Inr V'" "vmm_ok {} V'" "same_range V V'"
            "map_of (vmm_map V') = (\<lambda>a. if a \<in> fst ` set ms then Some None else map_of (vmm_map V) a)"
          by blast
        have "map_of (vmm_map V') b = t b" for b
          using Suc.prems(5) [rule_format, of b] unfolding V'(4) by (auto split: if_splits)
        then have "loop_post (Suc n) ks a t V False V'"
          using V'(2,3) by (auto simp: loop_post_def fun_eq_iff)
        moreover have "mmap_loop (Suc n) ks a ms mx V = Inr (False, V')"
          using none V'(1) Cons get by simp
        ultimately show ?thesis by blast
      next
        fix h V1
        assume ac: "acquire_handle mx V = (Some h, V1)" "vmm_ok {h} V1" "vmm_map V1 = vmm_map V"
          "base_addr (vmm_manager_of V1) = base_addr (vmm_manager_of V)"
        obtain M where M: "Map h a (vmm_manager_of V1) = Inr M" "vmm_ok {} (map_chunk a (Some h) M V1)"
            "base_addr M = base_addr (vmm_manager_of V1)"
          using Map_total [OF ac(2), of a] get ac(3) by auto
        define V2 where "V2 = map_chunk a (Some h) M V1"
        have vm: "map_of (vmm_map V2) = (map_of (vmm_map V))(a \<mapsto> Some h)"
          using om by (simp add: V2_def map_chunk_def ac(3))
        have sr: "same_range V V2"
          using vm get M(3) ac(4) by (auto simp: same_range_def V2_def map_chunk_def)
        have a_ms: "map_of ms a = None"
          using Suc.prems(4) get by (cases "map_of ms a") auto
        have "set ks' \<subseteq> dom (map_of (vmm_map V2))" using kd(2) sr by (simp add: same_range_def)
        moreover have "\<forall>b i. map_of (omap_set a h ms) b = Some i \<longrightarrow> map_of (vmm_map V2) b = Some (Some i)"
          using Suc.prems(2,4) by (simp add: vm)
        moreover have "\<forall>b. if b \<in> fst ` set (omap_set a h ms) then t b = Some None
            else map_of (vmm_map V2) b = t b"
        proof
          fix b
          show "if b \<in> fst ` set (omap_set a h ms) then t b = Some None else map_of (vmm_map V2) b = t b"
            using Suc.prems(5) [rule_format, of b] get by (auto simp: omap_set_keys vm split: if_splits)
        qed
        ultimately obtain r V' where IH: "mmap_loop n ks' (a + 2097152) (omap_set a h ms) mx V2 = Inr (r, V')"
            "loop_post n ks' (a + 2097152) t V2 r V'"
          using Suc.IH [OF M(2) [folded V2_def] omap_set_omap [OF Suc.prems(2)]] by blast
        have "mapped_at V2 a" "\<And>b. mapped_at V b \<Longrightarrow> mapped_at V2 b"
          using get by (auto simp: mapped_at_def vm)
        then have "loop_post (Suc n) ks a t V r V'"
          using IH(2) Cons get same_range_trans [OF sr] by (auto simp: loop_post_def)
        moreover have "mmap_loop (Suc n) ks a ms mx V = Inr (r, V')"
          using IH(1) Cons get ac(1) M(1) by (simp add: V2_def map_chunk_def)
        ultimately show ?thesis by blast
      qed
    qed
  qed
qed

lemma word_div_mult:
  fixes y :: size_t
  shows "unat (y div 2097152 * 2097152) = unat y div 2097152 * 2097152"
proof -
  have "unat y div 2097152 * 2097152 \<le> unat y" by (rule div_times_less_eq_dividend)
  also have "\<dots> < 2 ^ 64" using unsigned_less [of y, where ?'a = nat] by simp
  finally show ?thesis by (simp add: unat_word_ariths unat_div)
qed

lemma GetHandleSize_RoundUp:
  "GetHandleSize (GetRoundUpAlignSize x) = Inr ((x + 2097152 - 1) div 2097152)"
proof -
  let ?y = "(x + 2097152 - 1) div 2097152"
  have "unat ((?y * 2097152) mod 2097152) = unat (0 :: size_t)"
    by (simp add: unat_mod word_div_mult)
  then have m: "(?y * 2097152) mod 2097152 = 0" by (simp only: unsigned_word_eqI)
  have "unat ((?y * 2097152) div 2097152) = unat ?y"
    by (simp add: unat_div word_div_mult)
  then have d: "(?y * 2097152) div 2097152 = ?y" by (rule unsigned_word_eqI)
  show ?thesis
    by (simp only: GetHandleSize_def GetRoundUpAlignSize_def kVmmAlignSize m d) simp
qed

lemma unat_round_up:
  fixes x :: size_t
  assumes "unat x + 2097151 < 2 ^ 64"
  shows "unat ((x + 2097152 - 1) div 2097152) = (unat x + 2097151) div 2097152"
proof -
  have "x + 2097152 - 1 = x + 2097151" by simp
  moreover have "unat (x + 2097151) = unat x + 2097151" using assms by (subst unat64_add) simp_all
  ultimately show ?thesis by (simp add: unat_div del: diff_numeral_special) (simp add: add.commute)
qed

lemma FindVmmSegment_cases:
  "FindVmmSegment a V = 0 \<or> (FindVmmSegment a V \<in> dom (map_of (vmm_map V)) \<and> FindVmmSegment a V \<le> a)"
  by (auto simp: FindVmmSegment_def dom_map_of dest!: before_upper_boundD split: option.splits
      intro: rev_image_eqI)

text \<open>
  \<open>MmapDeviceMem\<close> throws nothing and returns the size or 0; on success every chunk of the range is
  mapped and no mapping is lost.
\<close>

lemma Mmap_total:
  assumes ok: "vmm_ok {} V"
  shows "\<exists>r V'. Vmm_MmapDeviceMem sz a mx V = Inr (r, V') \<and> vmm_ok {} V' \<and> same_range V V' \<and>
    (r = sz \<or> r = 0) \<and>
    (r \<noteq> 0 \<longrightarrow> (\<forall>b. mapped_at V b \<longrightarrow> mapped_at V' b) \<and>
       (\<exists>s \<in> dom (map_of (vmm_map V)). s \<le> a \<and> s \<noteq> 0 \<and>
          (\<forall>b \<in> set (chunks (unat ((sz + (a - s) + 2097152 - 1) div 2097152)) s). mapped_at V' b)))"
proof (cases "FindVmmSegment a V = 0")
  case True
  with ok show ?thesis by (simp add: Vmm_MmapDeviceMem_def)
next
  case False
  define s where "s = FindVmmSegment a V"
  have s: "s \<in> dom (map_of (vmm_map V))" "s \<le> a" "s \<noteq> 0"
    using FindVmmSegment_cases [of a V] False by (auto simp: s_def)
  let ?n = "unat ((sz + (a - s) + 2097152 - 1) div 2097152)"
  let ?ks = "dropWhile (\<lambda>k. k \<noteq> s) (map fst (vmm_map V))"
  have "set ?ks \<subseteq> dom (map_of (vmm_map V))"
    by (auto simp: dom_map_of dest: set_dropWhileD)
  then obtain r V' where l: "mmap_loop ?n ?ks s [] mx V = Inr (r, V')"
      "loop_post ?n ?ks s (map_of (vmm_map V)) V r V'"
    using mmap_loop_total [OF ok omap_Nil, of ?ks "map_of (vmm_map V)" ?n s mx] by auto
  have "Vmm_MmapDeviceMem sz a mx V = Inr (if r then sz else 0, V')"
    using l(1) s(3) by (simp add: Vmm_MmapDeviceMem_def Let_def GetHandleSize_RoundUp s_def [symmetric])
  with l(2) s show ?thesis by (auto simp: loop_post_def)
qed

section \<open>Reserving and eager free\<close>

lemma reserve_chunks_find:
  "omap m \<Longrightarrow> omap (reserve_chunks n a m) \<and>
     map_of (reserve_chunks n a m) b = (if b \<in> set (chunks n a) then Some None else map_of m b)"
  by (induction n arbitrary: a m) (auto simp: eq_commute)

lemma eager_free_loop_total:
  assumes "vmm_ok {} V" "set ks \<subseteq> dom (map_of (vmm_map V))"
  shows "\<exists>r V'. eager_free_loop ks a e n V = Inr (r, V') \<and> vmm_ok {} V' \<and> same_range V V' \<and>
    (\<forall>b. mapped_at V' b \<longrightarrow> mapped_at V b) \<and>
    (\<forall>b. mapped_at V b \<longrightarrow> mapped_at V' b \<or> b \<in> set ks \<and> b + 2097152 \<le> e)"
  using assms
proof (induction ks arbitrary: a n V)
  case Nil
  then show ?case by (simp add: Let_def)
next
  case (Cons k ks)
  have sub: "set ks \<subseteq> dom (map_of (vmm_map V))" using Cons.prems(2) by simp
  consider (stop) "e < a + 2097152 \<or> k \<noteq> a" | (skip) "\<not> (e < a + 2097152 \<or> k \<noteq> a)" "map_of (vmm_map V) k = Some None"
    | (unmap) h where "\<not> (e < a + 2097152 \<or> k \<noteq> a)" "map_of (vmm_map V) k = Some (Some h)"
    using Cons.prems(2) by (auto simp: dom_def) (metis option.exhaust)
  then show ?case
  proof cases
    case stop
    with Cons.prems(1) show ?thesis by (auto simp: Let_def)
  next
    case skip
    obtain r V' where IH: "eager_free_loop ks (a + 2097152) e n V = Inr (r, V')" "vmm_ok {} V'" "same_range V V'"
        "\<forall>b. mapped_at V' b \<longrightarrow> mapped_at V b" "\<forall>b. mapped_at V b \<longrightarrow> mapped_at V' b \<or> b \<in> set ks \<and> b + 2097152 \<le> e"
      using Cons.IH [OF Cons.prems(1) sub, of "a + 2097152" n] by blast
    have "eager_free_loop (k # ks) a e n V = Inr (r, V')"
      using skip IH(1) by (subst eager_free_loop.simps) (simp add: Let_def del: eager_free_loop.simps)
    with IH(2-5) show ?thesis by (metis list.set_intros(2))
  next
    case unmap
    obtain M where M: "Unmap k (vmm_manager_of V) = Inr M"
        "vmm_ok {} ((map_chunk k None M V)\<lparr>cached_handle_sets := oset_emplace (<) h (cached_handle_sets V)\<rparr>)"
        "base_addr M = base_addr (vmm_manager_of V)"
      using Unmap_total [OF Cons.prems(1) unmap(2)] by blast
    define V1 where "V1 = (map_chunk k None M V)\<lparr>cached_handle_sets := oset_emplace (<) h (cached_handle_sets V)\<rparr>"
    have vm: "map_of (vmm_map V1) = (map_of (vmm_map V))(k \<mapsto> None)"
      using vmm_ok_omap [OF Cons.prems(1)] by (simp add: V1_def map_chunk_def)
    have sr: "same_range V V1"
      using vm unmap(2) M(3) by (auto simp: same_range_def V1_def map_chunk_def)
    have "set ks \<subseteq> dom (map_of (vmm_map V1))" using sub sr by (simp add: same_range_def)
    from Cons.IH [OF M(2) [folded V1_def] this, of "a + 2097152" "n + 2097152"]
    obtain r V' where IH: "eager_free_loop ks (a + 2097152) e (n + 2097152) V1 = Inr (r, V')" "vmm_ok {} V'"
        "same_range V1 V'" "\<forall>b. mapped_at V' b \<longrightarrow> mapped_at V1 b"
        "\<forall>b. mapped_at V1 b \<longrightarrow> mapped_at V' b \<or> b \<in> set ks \<and> b + 2097152 \<le> e"
      by blast
    have sub1: "\<forall>b. mapped_at V1 b \<longrightarrow> mapped_at V b" by (auto simp: mapped_at_def vm)
    have "\<forall>b. mapped_at V b \<longrightarrow> mapped_at V1 b \<or> b = k" by (auto simp: mapped_at_def vm)
    moreover have "k + 2097152 \<le> e" using unmap(1) by (simp add: not_less)
    ultimately have gone: "\<forall>b. mapped_at V b \<longrightarrow> mapped_at V' b \<or> b \<in> set (k # ks) \<and> b + 2097152 \<le> e"
      using IH(5) by auto
    have "V1 = V\<lparr>vmm_manager_of := M,
        cached_handle_sets := oset_emplace (<) h (cached_handle_sets V),
        vmm_map := omap_set k None (vmm_map V)\<rparr>"
      by (cases V) (simp add: V1_def map_chunk_def)
    with IH(1) M(1) unmap have "eager_free_loop (k # ks) a e n V = Inr (r, V')"
      by (subst eager_free_loop.simps) (simp add: Let_def del: eager_free_loop.simps)
    with IH(2-4) same_range_trans [OF sr] sub1 gone show ?thesis by blast
  qed
qed

lemma dropWhile_lower:
  fixes a :: device_ptr
  assumes "sorted_wrt (<) ks" "b \<in> set (dropWhile (\<lambda>k. k < a) ks)"
  shows "a \<le> b"
  using assms by (induction ks) (force split: if_splits)+

lemma EagerFree_total:
  assumes "vmm_ok {} V"
  shows "\<exists>r V'. Vmm_EagerFreeDeviceMem a sz V = Inr (r, V') \<and> vmm_ok {} V' \<and> same_range V V' \<and>
    (\<forall>b. mapped_at V' b \<longrightarrow> mapped_at V b) \<and>
    (\<forall>b. mapped_at V b \<longrightarrow> mapped_at V' b \<or> a \<le> b \<and> b + 2097152 \<le> a + sz)"
proof (cases "dropWhile (\<lambda>k. k < a) (map fst (vmm_map V))")
  case Nil
  from assms show ?thesis unfolding Vmm_EagerFreeDeviceMem_def Nil by simp
next
  case (Cons k ks)
  have "set (k # ks) \<subseteq> dom (map_of (vmm_map V))"
    unfolding Cons [symmetric] dom_map_of using set_dropWhileD by fastforce
  from eager_free_loop_total [OF assms this, of k "a + sz" 0] obtain r V' where
    r: "eager_free_loop (k # ks) k (a + sz) 0 V = Inr (r, V')" "vmm_ok {} V'" "same_range V V'"
      "\<forall>b. mapped_at V' b \<longrightarrow> mapped_at V b"
      "\<forall>b. mapped_at V b \<longrightarrow> mapped_at V' b \<or> b \<in> set (k # ks) \<and> b + 2097152 \<le> a + sz"
    by blast
  have "sorted_wrt (<) (map fst (vmm_map V))" using vmm_ok_omap [OF assms] by (simp add: omap_def)
  then have "a \<le> b" if "b \<in> set (k # ks)" for b
    using that unfolding Cons [symmetric] by (rule dropWhile_lower)
  with r show ?thesis unfolding Vmm_EagerFreeDeviceMem_def Cons list.case by blast
qed

lemma unat_GetRoundUpAlignSize:
  assumes "unat sz + 2097152 < 2 ^ 64"
  shows "unat (GetRoundUpAlignSize sz) = (unat sz + 2097151) div 2097152 * 2097152"
proof -
  have *: "unat ((sz + 2097152 - 1) div 2097152) = (unat sz + 2097151) div 2097152"
    using assms by (intro unat_round_up) simp
  have "unat (GetRoundUpAlignSize sz) = unat ((sz + 2097152 - 1) div 2097152) * 2097152"
    unfolding GetRoundUpAlignSize_def kVmmAlignSize word_div_mult unat_div by simp
  with * show ?thesis by simp
qed

lemma chunks_below:
  assumes "b \<in> set (chunks n a)" "unat a mod 2097152 = 0" "unat a + n * 2097152 \<le> unat lim"
  shows "chunk lim b \<and> unat a \<le> unat b"
proof -
  obtain i where i: "i < n" "b = a + of_nat i * 2097152" using assms(1) by (auto simp: chunks_def)
  have le: "unat a + Suc i * 2097152 \<le> unat lim"
    using assms(3) i(1) mult_le_mono1 [of "Suc i" n 2097152] by linarith
  have lt: "unat lim < 2 ^ 64" using unsigned_less [of lim, where ?'a = nat] by simp
  have "unat (of_nat i * 2097152 :: size_t) = i * 2097152"
    using le lt by (simp add: unat_word_ariths unsigned_of_nat take_bit_nat_eq_self)
  then have "unat b = unat a + i * 2097152"
    unfolding i(2) using le lt by (subst unat64_add) simp_all
  with le assms(2) show ?thesis by (simp add: chunk_def mod_add_eq)
qed

lemma VmmAlloc_total:
  assumes ok: "vmm_ok {} V" and fits: "unat (base_addr (vmm_manager_of V)) + unat sz + 2097152 < 2 ^ 64"
  shows "\<exists>V'. Vmm_AllocDeviceMem sz V = Inr ((GetRoundUpAlignSize sz, base_addr (vmm_manager_of V)), V') \<and>
    vmm_ok {} V' \<and> unat (base_addr (vmm_manager_of V')) =
      unat (base_addr (vmm_manager_of V)) + unat (GetRoundUpAlignSize sz)"
proof -
  let ?M = "vmm_manager_of V"
  let ?b = "base_addr ?M"
  define al where "al = GetRoundUpAlignSize sz"
  define M where "M = snd (MallocVirtualAddress al ?M)"
  let ?n = "unat ((sz + 2097152 - 1) div 2097152)"
  define V' where "V' = V\<lparr>vmm_manager_of := M, all_reserve_mems := all_reserve_mems V @ [?b],
    vmm_map := reserve_chunks ?n ?b (vmm_map V)\<rparr>"
  have tab: "tables_ok V" and mp: "maps_ok V" and hs: "handles_ok {} V"
    using ok by (simp_all add: vmm_ok_def)
  have n: "?n = (unat sz + 2097151) div 2097152" using fits by (intro unat_round_up) simp
  have al: "unat al = ?n * 2097152"
    unfolding al_def n using fits by (intro unat_GetRoundUpAlignSize) simp
  have top: "unat (?b + al) = unat ?b + unat al"
  proof (rule unat64_add)
    have "unat al \<le> unat sz + 2097151" unfolding al n by (rule div_times_less_eq_dividend)
    with fits show "unat ?b + unat al < 2 ^ 64" by simp
  qed
  have M: "base_addr M = ?b + al" "mapped_addrs M = mapped_addrs ?M" "handles M = handles ?M"
      "next_handle M = next_handle ?M" "max_mem_size M = max_mem_size ?M"
    by (simp_all add: M_def MallocVirtualAddress_def)
  have om: "omap (vmm_map V)" and bm: "unat ?b mod 2097152 = 0" using tab by (simp_all add: tables_ok_def)
  have vm: "omap (vmm_map V')" "map_of (vmm_map V') c =
      (if c \<in> set (chunks ?n ?b) then Some None else map_of (vmm_map V) c)" for c
    using reserve_chunks_find [OF om, of ?n ?b] by (simp_all add: V'_def)
  have new: "chunk (?b + al) c \<and> unat ?b \<le> unat c" if "c \<in> set (chunks ?n ?b)" for c
    using that bm by (rule chunks_below) (simp add: top al)
  have old: "chunk (?b + al) c \<and> unat c < unat ?b" if "c \<in> dom (map_of (vmm_map V))" for c
  proof -
    have "chunk ?b c" using tab that unfolding tables_ok_def by blast
    then show ?thesis by (simp add: chunk_def top)
  qed
  have same: "map_of (vmm_map V') c = Some (Some h) \<longleftrightarrow> map_of (vmm_map V) c = Some (Some h)" for c h
    using new [of c] old [of c] by (auto simp: vm(2) dom_def)
  have "chunk (?b + al) c" if "c \<in> dom (map_of (vmm_map V'))" for c
    using that new old by (auto simp: dom_def vm(2) split: if_splits)
  then have "tables_ok V'"
    using tab vm(1) top al bm by (simp add: tables_ok_def V'_def M mod_add_eq)
  moreover have "maps_ok V'"
    using mp unfolding maps_ok_def same by (simp add: V'_def M)
  moreover have "mapped_handles V' = mapped_handles V" by (simp add: mapped_handles_def same)
  then have "handles_ok {} V'" using hs unfolding handles_ok_def by (simp add: V'_def M)
  moreover have "Vmm_AllocDeviceMem sz V = Inr ((al, ?b), V')"
    by (simp add: Vmm_AllocDeviceMem_def Let_def GetHandleSize_RoundUp MallocVirtualAddress_def
        V'_def M_def al_def)
  ultimately show ?thesis
    using top by (auto simp: vmm_ok_def al_def V'_def M)
qed

end
