(* ===== verification/Memory_Pool.thy ===== *)
theory Memory_Pool
  imports Mem_Device Mem_Vmm_Inv
begin

text \<open>
  \<open>MemoryPool\<close> of \<^verbatim>\<open>memory/memory_pool.h\<close>: the device operations over \<open>malloc\<close> and the virtual
  memory adapter, and the proof that they meet the contract of a device.
\<close>

section \<open>State and operations\<close>

text \<open>
  The host heap is its upper end: \<open>FreeDeviceMem\<close> never calls \<open>free\<close>, so \<open>malloc\<close> hands out
  growing addresses and the null pointer when the address space is used up. \<open>addr_slot\<close> is the
  address of the caller's variable that receives the result.
\<close>

record mp_dev =
  heap_top :: size_t
  addr_slot :: device_ptr
  alloc_infos :: "(device_ptr \<times> size_t) list"
  vmm :: vmm_adapter

definition malloc :: "size_t \<Rightarrow> mp_dev \<Rightarrow> device_ptr \<times> mp_dev" where
  "malloc sz d =
     (if 2 ^ 64 \<le> unat (heap_top d) + unat sz then (0, d)
      else (heap_top d, d\<lparr>heap_top := heap_top d + sz\<rparr>))"

text \<open>The key of the new entry is the address of the variable, not the address in it.\<close>

definition MP_AllocDeviceMem :: "size_t \<Rightarrow> mp_dev \<Rightarrow> ((size_t \<times> device_ptr) \<times> mp_dev) option" where
  "MP_AllocDeviceMem sz d =
     (let (addr, d) = malloc sz d;
          d = (if map_of (alloc_infos d) (addr_slot d) = None
               then d\<lparr>alloc_infos := omap_set (addr_slot d) sz (alloc_infos d)\<rparr> else d)
      in Some ((sz, addr), d))"

definition MP_FreeDeviceMem :: "device_ptr \<Rightarrow> mp_dev \<Rightarrow> (bool \<times> mp_dev) option" where
  "MP_FreeDeviceMem addr d =
     (if map_of (alloc_infos d) addr = None then Some (False, d)
      else Some (True, d\<lparr>alloc_infos := al_erase addr (alloc_infos d)\<rparr>))"

definition GetMaxUsedMemSize :: size_t where
  "GetMaxUsedMemSize = kMaxUsedMemSize"

definition ReservedMemorySize :: "mp_dev \<Rightarrow> size_t" where
  "ReservedMemorySize d = foldl (\<lambda>n e. n + snd e) 0 (alloc_infos d)"

text \<open>An exception of the adapter leaves the pool operation.\<close>

definition lift_vmm :: "vmm_error + ('a \<times> vmm_adapter) \<Rightarrow> mp_dev \<Rightarrow> ('a \<times> mp_dev) option" where
  "lift_vmm r d = (case r of Inl _ \<Rightarrow> None | Inr (x, V) \<Rightarrow> Some (x, d\<lparr>vmm := V\<rparr>))"

definition MemoryPool_device :: "mp_dev device" where
  "MemoryPool_device =
     \<lparr>AllocDeviceMem = MP_AllocDeviceMem,
      FreeDeviceMem = MP_FreeDeviceMem,
      free_mem_size = (\<lambda>d. - 1),
      total_mem_size = (\<lambda>d. kMaxUsedMemSize),
      GetVmmUsedMemSize = (\<lambda>d. GetAllocatedSize (vmm d)),
      IsEnableEagerFree = (\<lambda>d. False),
      SyncAllStreams = (\<lambda>d. Some (True, d)),
      AllocDeviceMemByEagerFree = (\<lambda>sz d. lift_vmm (Vmm_AllocDeviceMem sz (vmm d)) d),
      FreeDeviceMemByEagerFree = (\<lambda>addr sz d. lift_vmm (Vmm_EagerFreeDeviceMem addr sz (vmm d)) d),
      MmapDeviceMem = (\<lambda>sz addr d. lift_vmm (Vmm_MmapDeviceMem sz addr GetMaxUsedMemSize (vmm d)) d)\<rparr>"

text \<open>The state of the device when the pool is made, and the constructor of the pool.\<close>

definition mp_init :: "size_t \<Rightarrow> device_ptr \<Rightarrow> mp_dev" where
  "mp_init heap slot = \<lparr>heap_top = heap, addr_slot = slot, alloc_infos = [], vmm = AscendVmmAdapter\<rparr>"

definition MemoryPool :: "bool \<Rightarrow> bool \<Rightarrow> mp_dev \<Rightarrow> mp_dev pool" where
  "MemoryPool tiny vmm_enabled d = SetEnableVmm vmm_enabled (AbstractDynamicMemPool tiny d)"

definition mp_config :: "bool \<Rightarrow> pool_config" where
  "mp_config vmm_enabled = \<lparr>enable_vmm = vmm_enabled, common_unit_size = kDynamicMemAllocUnitSize,
     persist_unit_size = kDynamicMemAllocUnitSize\<rparr>"

section \<open>The contract\<close>

text \<open>
  Virtual ranges are handed out from address 0 upwards and must stay below \<open>2 ^ 46\<close>; the host heap
  starts there. Requests are at most \<open>2 ^ 36\<close> bytes, so a range takes at most \<open>2 ^ 37\<close>.
\<close>

definition mp_inv :: "nat \<Rightarrow> mp_dev \<Rightarrow> seg set \<Rightarrow> bool" where
  "mp_inv i d E \<longleftrightarrow>
     vmm_ok {} (vmm d) \<and>
     unat (base_addr (vmm_manager_of (vmm d))) + i * 2 ^ 37 \<le> 2 ^ 46 \<and>
     2 ^ 46 \<le> unat (heap_top d) \<and> unat (heap_top d) + i * 2 ^ 37 < 2 ^ 64 \<and>
     (\<forall>e \<in> E. unat (fst e) + unat (snd e) \<le> unat (base_addr (vmm_manager_of (vmm d))) \<or>
        2 ^ 46 \<le> unat (fst e) \<and> unat (fst e) + unat (snd e) \<le> unat (heap_top d))"

lemma mp_inv_init: "2 ^ 46 \<le> unat heap \<Longrightarrow> unat heap < 2 ^ 63 \<Longrightarrow> mp_inv 512 (mp_init heap slot) {}"
  by (simp add: mp_inv_def mp_init_def vmm_ok_init) (simp add: AscendVmmAdapter_def VmmManager_def)

lemma mp_inv_vmm:
  assumes "mp_inv i d E" "vmm_ok {} V" "same_range (vmm d) V"
  shows "mp_inv i (d\<lparr>vmm := V\<rparr>) E"
  using assms by (simp add: mp_inv_def same_range_def)

lemma mp_alloc:
  assumes inv: "mp_inv (Suc i) d E" and s: "0 < s" "unat s \<le> 2 ^ 36"
  shows "reserves mp_inv i E (MP_AllocDeviceMem s d)"
proof -
  define d1 where "d1 = d\<lparr>heap_top := heap_top d + s\<rparr>"
  define d2 where "d2 = (if map_of (alloc_infos d1) (addr_slot d1) = None
    then d1\<lparr>alloc_infos := omap_set (addr_slot d1) s (alloc_infos d1)\<rparr> else d1)"
  have b: "unat (heap_top d) + 2 ^ 37 < 2 ^ 64" "2 ^ 46 \<le> unat (heap_top d)"
      "unat (heap_top d) + Suc i * 2 ^ 37 < 2 ^ 64"
      "unat (base_addr (vmm_manager_of (vmm d))) + Suc i * 2 ^ 37 \<le> 2 ^ 46"
    using inv by (simp_all add: mp_inv_def)
  have run: "MP_AllocDeviceMem s d = Some ((s, heap_top d), d2)"
    using b(1) s(2) by (simp add: MP_AllocDeviceMem_def malloc_def d2_def d1_def Let_def)
  have top: "unat (heap_top d + s) = unat (heap_top d) + unat s"
    using b(1) s(2) by (intro unat64_add) simp
  have d2: "vmm d2 = vmm d" "heap_top d2 = heap_top d + s" by (simp_all add: d2_def d1_def)
  have "mp_inv i d2 (insert (heap_top d, s) E)"
    using inv b s(2) unfolding mp_inv_def d2 top by auto
  moreover have "seg_range e \<inter> seg_range (heap_top d, s) = {}" if "e \<in> E" for e
    using inv that b(2,4) by (auto simp: mp_inv_def seg_range_def dest!: bspec)
  ultimately show ?thesis
    using run s b(1) by (auto simp: reserves_def)
qed

lemma mp_alloc_eager:
  assumes inv: "mp_inv (Suc i) d E" and s: "0 < s" "unat s \<le> 2 ^ 36"
  shows "reserves mp_inv i E (lift_vmm (Vmm_AllocDeviceMem s (vmm d)) d)"
proof -
  let ?b = "base_addr (vmm_manager_of (vmm d))"
  let ?n = "GetRoundUpAlignSize s"
  have b: "unat ?b + Suc i * 2 ^ 37 \<le> 2 ^ 46" "vmm_ok {} (vmm d)" "2 ^ 46 \<le> unat (heap_top d)"
      "unat (heap_top d) + Suc i * 2 ^ 37 < 2 ^ 64"
    using inv by (simp_all add: mp_inv_def)
  obtain V where V: "Vmm_AllocDeviceMem s (vmm d) = Inr ((?n, ?b), V)" "vmm_ok {} V"
      "unat (base_addr (vmm_manager_of V)) = unat ?b + unat ?n"
    using VmmAlloc_total [OF b(2), of s] b(1) s(2) by auto
  have n: "unat ?n = (unat s + 2097151) div 2097152 * 2097152"
    using s(2) by (intro unat_GetRoundUpAlignSize) simp
  have "unat ?n \<le> unat s + 2097151" unfolding n by (rule div_times_less_eq_dividend)
  with s(2) have n_le: "unat ?n \<le> 2 ^ 37" by simp
  have "0 < unat s" using s(1) by (simp add: word_less_nat_alt)
  then have "0 < (unat s + 2097151) div 2097152" by (simp add: div_greater_zero_iff)
  then have n_pos: "0 < ?n" unfolding word_less_nat_alt n by simp
  have "mp_inv i (d\<lparr>vmm := V\<rparr>) (insert (?b, ?n) E)"
    using inv b V(2) n_le unfolding mp_inv_def by (auto simp: V(3))
  moreover have "seg_range e \<inter> seg_range (?b, ?n) = {}" if "e \<in> E" for e
    using inv that b(1) n_le by (auto simp: mp_inv_def seg_range_def dest!: bspec)
  ultimately show ?thesis
    using V(1) n_pos b(1) n_le by (auto simp: reserves_def lift_vmm_def)
qed

interpretation mp: mem_device MemoryPool_device mp_inv "2 ^ 36"
proof
  fix i d E and s :: size_t
  assume "mp_inv (Suc i) d E" "0 < s" "unat s \<le> 2 ^ 36"
  then show "reserves mp_inv i E (AllocDeviceMem MemoryPool_device s d)"
      "reserves mp_inv i E (AllocDeviceMemByEagerFree MemoryPool_device s d)"
    using mp_alloc mp_alloc_eager by (simp_all add: MemoryPool_device_def)
next
  fix i d E and s a :: size_t
  assume inv: "mp_inv i d E"
  show "unat (total_mem_size MemoryPool_device d) \<le> 2 ^ 36" by (simp add: MemoryPool_device_def)
  show "\<exists>r d'. FreeDeviceMem MemoryPool_device a d = Some (r, d') \<and> mp_inv i d' E"
    using inv by (auto simp: MemoryPool_device_def MP_FreeDeviceMem_def mp_inv_def)
  show "\<exists>r d'. MmapDeviceMem MemoryPool_device s a d = Some (r, d') \<and> mp_inv i d' E"
    using Mmap_total [of "vmm d" s a GetMaxUsedMemSize] inv mp_inv_vmm [OF inv]
    by (fastforce simp: MemoryPool_device_def lift_vmm_def mp_inv_def)
  show "\<exists>r d'. FreeDeviceMemByEagerFree MemoryPool_device a s d = Some (r, d') \<and> mp_inv i d' E"
    using EagerFree_total [of "vmm d" a s] inv mp_inv_vmm [OF inv]
    by (fastforce simp: MemoryPool_device_def lift_vmm_def mp_inv_def)
  show "\<exists>r d'. SyncAllStreams MemoryPool_device d = Some (r, d') \<and> mp_inv i d' E"
    using inv by (auto simp: MemoryPool_device_def)
next
  fix i j :: nat and d E E'
  assume "mp_inv i d E" "j \<le> i" "E' \<subseteq> E"
  moreover from this have "j * 2 ^ 37 \<le> i * 2 ^ 37" by (intro mult_le_mono1)
  ultimately show "mp_inv j d E'" unfolding mp_inv_def by fastforce
qed

lemmas mp_exec = MemoryPool_def mp_init_def MemoryPool_device_def MP_AllocDeviceMem_def malloc_def

end
