(* ===== verification/Pool_Machine.thy ===== *)
theory Pool_Machine
  imports Mem_Pool_Events Memory_Pool
begin

text \<open>
  \<open>MemoryPool\<close> as a state machine: its states are the pools that the public operations lead to from
  the constructor. The guards bound the requests and the number of blocks by what the address space
  can hold, and let \<open>WaitEvent\<close> run only when no buffer is recorded for two stream pairs.
\<close>

text \<open>The operations of the pool on the operations of the device, with the sizes the constructor sets.\<close>

interpretation mpp: pool_device MemoryPool_device mp_inv "2 ^ 36" "mp_config b" for b
  by unfold_locales (simp_all add: mp_config_def)

section \<open>Operations\<close>

datatype pool_op =
  OpAlloc size_t bool uint32
| OpFree device_ptr
| OpRecord int64 uint32 "(uint32 \<times> device_ptr) list" nat
| OpWait int64 uint32 uint32
| OpWaitAll int64 uint32
| OpSync
| OpDefrag
| OpFreeIdle
| OpResetMaxReserved
| OpResetMaxAllocated

fun run_op :: "pool_op \<Rightarrow> mp_dev pool \<Rightarrow> mp_dev pool option" where
  "run_op (OpAlloc sz persistent stream_id) P = map_option snd (AllocTensorMem MemoryPool_device sz persistent stream_id P)"
| "run_op (OpFree addr) P = FreeTensorMem addr P"
| "run_op (OpRecord task user addrs event) P = map_option snd (RecordEvent task user addrs event P)"
| "run_op (OpWait task user mem) P = map_option snd (WaitEvent task user mem P)"
| "run_op (OpWaitAll task mem) P = map_option snd (WaitEvent_all task mem P)"
| "run_op OpSync P = map_option snd (DoSyncAllEvents P)"
| "run_op OpDefrag P = DefragMemory MemoryPool_device P"
| "run_op OpFreeIdle P = map_option snd (FreeIdleMemsByEagerFree MemoryPool_device P)"
| "run_op OpResetMaxReserved P = Some (ResetMaxMemReserved P)"
| "run_op OpResetMaxAllocated P = Some (ResetMaxMemAllocated P)"

definition block_count :: "'d pool \<Rightarrow> nat" where
  "block_count P = (case tiny_allocator P of None \<Rightarrow> 0 | Some al \<Rightarrow> length (mem_blocks al)) +
     sum_list (map (\<lambda>e. length (mem_blocks (snd e))) (stream_id_allocators P))"

definition max_blocks :: nat where
  "max_blocks = 512"

definition op_guard :: "pool_op \<Rightarrow> 'd pool \<Rightarrow> bool" where
  "op_guard op P = (case op of
     OpAlloc sz _ _ \<Rightarrow> sz \<le> 2 ^ 34 \<and> block_count P + 6 \<le> max_blocks
   | OpWait _ _ _ \<Rightarrow> single P
   | OpWaitAll _ _ \<Rightarrow> single P
   | _ \<Rightarrow> True)"

definition heap_ok :: "size_t \<Rightarrow> bool" where
  "heap_ok heap \<longleftrightarrow> 2 ^ 46 \<le> heap \<and> heap < 2 ^ 63"

inductive reachable :: "bool \<Rightarrow> mp_dev pool \<Rightarrow> bool" for vmm_enabled where
  init: "heap_ok heap \<Longrightarrow> reachable vmm_enabled (MemoryPool tiny vmm_enabled (mp_init heap slot))"
| step: "reachable vmm_enabled P \<Longrightarrow> op_guard op P \<Longrightarrow> run_op op P = Some P' \<Longrightarrow> reachable vmm_enabled P'"

fun run_ops :: "pool_op list \<Rightarrow> mp_dev pool \<Rightarrow> mp_dev pool option" where
  "run_ops [] P = Some P"
| "run_ops (op # ops) P = (if op_guard op P then do { P \<leftarrow> run_op op P; run_ops ops P } else None)"

text \<open>A run without the guards.\<close>

fun run_free :: "pool_op list \<Rightarrow> mp_dev pool \<Rightarrow> mp_dev pool option" where
  "run_free [] P = Some P"
| "run_free (op # ops) P = do { P \<leftarrow> run_op op P; run_free ops P }"

lemma run_ops_reachable: "reachable b P \<Longrightarrow> run_ops ops P = Some P' \<Longrightarrow> reachable b P'"
  by (induction ops arbitrary: P) (auto split: if_splits bind_splits intro: reachable.step)

section \<open>The invariant of the reachable pools\<close>

lemma whole_length:
  assumes "pool_rep P lay"
  shows "length (whole lay P) = block_count P"
proof -
  have one: "length (lay i) = length (mem_blocks al)" if "get_al i P = Some al" for i al
  proof -
    have "i \<in> set (ids P)" using that get_al_ids [of i P] by simp
    then have "al_ok (bufs (world P)) (lay i) al" using assms that by (auto simp: pool_rep_def)
    then show ?thesis by (metis al_ok_def length_map)
  qed
  have keyed: "length (lay (Keyed (fst e))) = length (mem_blocks (snd e))" if "e \<in> set (stream_id_allocators P)" for e
    using that assms by (intro one) (simp add: get_al_def pool_rep_def)
  have "length (concat (map (lay \<circ> (Keyed \<circ> fst)) (stream_id_allocators P))) =
      sum_list (map (\<lambda>e. length (mem_blocks (snd e))) (stream_id_allocators P))"
    using keyed by (simp add: length_concat comp_def cong: map_cong)
  moreover have "length (lay Tiny) = length (mem_blocks al)" if "tiny_allocator P = Some al" for al
    using that by (intro one) (simp add: get_al_def)
  ultimately show ?thesis
    by (cases "tiny_allocator P") (simp_all add: whole_def ids_def block_count_def)
qed

abbreviation mp_ok :: "bool \<Rightarrow> mp_dev pool \<Rightarrow> pool_layout \<Rightarrow> bool" where
  "mp_ok b \<equiv> pool_ok mp_inv (mp_config b) max_blocks"

lemma init_ok:
  assumes "heap_ok heap"
  shows "mp_ok b (MemoryPool tiny b (mp_init heap slot)) (\<lambda>_. [])"
proof -
  let ?P = "MemoryPool tiny b (mp_init heap slot)"
  have h: "2 ^ 46 \<le> unat heap" "unat heap < 2 ^ 63"
    using assms by (simp_all add: heap_ok_def word_le_nat_alt word_less_nat_alt)
  have P: "tiny_allocator ?P = (if tiny then Some (MemBufAllocator False False 0) else None)"
      "stream_id_allocators ?P = []" "addr_mem_buf_allocators ?P = []" "stream_pair_mem_bufs ?P = []"
      "bufs (world ?P) = Map.empty" "blks (world ?P) = Map.empty" "stat (world ?P) = MemStat_Reset"
      "dev (world ?P) = mp_init heap slot" "config ?P = mp_config b"
    by (simp_all add: MemoryPool_def SetEnableVmm_def AbstractDynamicMemPool_def mp_config_def)
  have ids: "set (ids ?P) \<subseteq> {Tiny}" by (simp add: ids_def P)
  have whole: "whole (\<lambda>_. []) ?P = []" by (simp add: whole_def)
  have ext: "blk_ext (world ?P) = Map.empty" by (simp add: blk_ext_def P fun_eq_iff)
  have no_use: "uses ?P (\<lambda>_. []) i = {}" for i by (simp add: uses_def used_def ptrs_def)
  have "layout_rep (world ?P) []" by (simp add: layout_rep_def ptrs_def apart_def)
  moreover have "\<exists>al. get_al i ?P = Some al \<and> al_ok (bufs (world ?P)) [] al" if "i \<in> set (ids ?P)" for i
    using that al_ok_empty by (auto simp: ids_def P get_al_def split: if_splits)
  ultimately have rep: "pool_rep ?P (\<lambda>_. [])" by (simp add: pool_rep_def whole P(2))
  have "world_inv mp_inv max_blocks (world ?P)"
    using mp_inv_init [OF h] by (simp add: world_inv_def ext P(8) max_blocks_def)
  with rep have "pool_core mp_inv (mp_config b) max_blocks ?P (\<lambda>_. [])"
    by (simp add: pool_core_def whole P(9))
  then show ?thesis
    by (simp add: pool_ok_def addr_rep_def size_rep_def pairs_ok_def in_use_def no_use P MemStat_Reset_def)
qed

lemma alloc_request:
  assumes "sz \<le> (2 ^ 34 :: size_t)"
  shows "unat sz \<le> 2 ^ 64 - 512" "2 * unat (AlignMemorySize sz) \<le> 2 ^ 36"
proof -
  have u: "unat sz \<le> 2 ^ 34" using assms by (simp add: word_le_nat_alt)
  then show l: "unat sz \<le> 2 ^ 64 - 512" by simp
  have "(unat sz + 511) div 512 * 512 \<le> unat sz + 511" by (rule div_times_less_eq_dividend)
  then show "2 * unat (AlignMemorySize sz) \<le> 2 ^ 36"
    using u unfolding unat_AlignMemorySize [OF l] by (cases "sz = 0") simp_all
qed

lemma mp_alloc_total:
  assumes ok: "mp_ok b P lay" and g: "op_guard (OpAlloc sz fp sid) P"
  shows "\<exists>a P' lay'. AllocTensorMem MemoryPool_device sz fp sid P = Some (a, P') \<and> mp_ok b P' lay' \<and>
    (a = 0 \<and> left P lay P' lay' \<and> stays P lay P' lay' \<or> allocated (AlignMemorySize sz) a P lay P' lay')"
proof -
  have "sz \<le> 2 ^ 34" "block_count P + 6 \<le> max_blocks" using g by (simp_all add: op_guard_def)
  moreover have "length (whole lay P) = block_count P"
    using ok by (intro whole_length) (simp add: pool_ok_def pool_core_def)
  ultimately show ?thesis
    using mpp.AllocTensorMem_total [OF ok _ alloc_request, of sz, where fp = fp and sid = sid] by fastforce
qed

lemma mp_reset:
  assumes ok: "mp_ok b P lay"
  shows "mp_ok b (ResetMaxMemReserved P) lay" "mp_ok b (ResetMaxMemAllocated P) lay"
proof -
  have inv: "world_inv mp_inv (max_blocks - length (whole lay P)) (world P)"
    using ok by (simp add: pool_ok_def pool_core_def)
  then show "mp_ok b (ResetMaxMemReserved P) lay" "mp_ok b (ResetMaxMemAllocated P) lay"
    by (auto intro!: pool_ok_frame(1) [OF ok]
        simp: ResetMaxMemReserved_def ResetMaxMemAllocated_def pool_stat_def world_inv_def)
qed

text \<open>Every operation returns and keeps the invariant.\<close>

lemma run_op_total:
  assumes ok: "mp_ok b P lay" and g: "op_guard op P"
  shows "\<exists>P' lay'. run_op op P = Some P' \<and> mp_ok b P' lay'"
proof (cases op)
  case (OpAlloc sz fp sid)
  with mp_alloc_total [OF ok] g show ?thesis by fastforce
next
  case (OpFree a)
  with mpp.DoFreeTensorMem_total [OF ok, of a] show ?thesis by (auto simp: FreeTensorMem_def)
next
  case (OpRecord t u as ev)
  with mpp.RecordEvent_total [OF ok, of t u as ev] show ?thesis by auto
next
  case (OpWait t u m)
  with g have "single P" by (simp add: op_guard_def)
  from mpp.WaitEvent_total [OF ok this, of t u m] OpWait show ?thesis by auto
next
  case (OpWaitAll t m)
  with g have "single P" by (simp add: op_guard_def)
  from mpp.WaitEvent_all_total [OF ok this, of t m] OpWaitAll show ?thesis by auto
next
  case OpSync
  with mpp.DoSyncAllEvents_total [OF ok] show ?thesis by auto
next
  case OpDefrag
  with mpp.DefragMemory_total [OF ok] show ?thesis by auto
next
  case OpFreeIdle
  with mpp.FreeIdleMemsByEagerFree_total [OF ok] show ?thesis by auto
qed (use mp_reset [OF ok] in auto)

lemma reachable_ok: "reachable b P \<Longrightarrow> \<exists>lay. mp_ok b P lay"
proof (induction rule: reachable.induct)
  case (init heap tiny slot)
  then show ?case using init_ok by blast
next
  case (step P op P')
  then obtain lay where "mp_ok b P lay" by blast
  from run_op_total [OF this step.hyps(2)] step.hyps(3) show ?case by auto
qed

section \<open>What the invariant says about the pool's own tables\<close>

text \<open>The range of the buffer that the address table has for an address.\<close>

definition range_at :: "'d pool \<Rightarrow> device_ptr \<Rightarrow> seg option" where
  "range_at P a = map_option (\<lambda>e. pool_seg P (fst e)) (map_of (addr_mem_buf_allocators P) a)"

lemma range_atD:
  assumes ok: "pool_ok dinv C N P lay" and r: "range_at P a = Some r"
  obtains p i where "map_of (addr_mem_buf_allocators P) a = Some (p, i)" "p \<in> in_use P lay" "r = pool_seg P p" "fst r = a"
proof -
  obtain p i where pi: "map_of (addr_mem_buf_allocators P) a = Some (p, i)" "r = pool_seg P p"
    using r by (auto simp: range_at_def)
  have "addr_rep P lay" using ok by (simp add: pool_ok_def)
  from addr_found [OF this pi(1)] pi that show ?thesis by blast
qed

lemma ranges_disjoint:
  assumes ok: "pool_ok dinv C N P lay" and r: "range_at P a = Some r" "range_at P b = Some s" "a \<noteq> b"
  shows "seg_range r \<inter> seg_range s = {}"
proof -
  obtain p i where p: "p \<in> in_use P lay" "r = pool_seg P p" "fst r = a" using ok r(1) by (rule range_atD)
  obtain q j where q: "q \<in> in_use P lay" "s = pool_seg P q" "fst s = b" using ok r(2) by (rule range_atD)
  have "p \<noteq> q" using p q r(3) by auto
  then show ?thesis
    using in_use_disjoint [of P lay p q] p q ok by (simp add: pool_ok_def pool_core_def)
qed

lemma used_size_table:
  assumes ok: "pool_ok dinv C N P lay"
  shows "used_size (stat (world P)) = sum_list (map (\<lambda>e. snd (pool_seg P (fst (snd e)))) (addr_mem_buf_allocators P))"
proof -
  let ?m = "addr_mem_buf_allocators P"
  have addr: "addr_rep P lay" and rep: "pool_rep P lay" using ok by (simp_all add: pool_ok_def pool_core_def)
  then have d: "distinct (map fst ?m)" by (simp add: addr_rep_def)
  have e: "map_of ?m (fst e) = Some (fst (snd e), snd (snd e))" if "e \<in> set ?m" for e
    using that d by simp
  have inj: "inj_on (\<lambda>e. fst (snd e)) (set ?m)"
  proof (rule inj_onI)
    fix x y assume xy: "x \<in> set ?m" "y \<in> set ?m" "fst (snd x) = fst (snd y)"
    from addr_found(3) [OF addr e [OF xy(1)]] addr_found(3) [OF addr e [OF xy(2)]] xy(3)
    have "fst x = fst y" by simp
    with e [OF xy(1)] e [OF xy(2)] show "x = y" by (simp add: prod_eq_iff)
  qed
  have img: "(\<lambda>e. fst (snd e)) ` set ?m = in_use P lay"
  proof (intro set_eqI iffI)
    fix p assume "p \<in> (\<lambda>e. fst (snd e)) ` set ?m"
    then show "p \<in> in_use P lay" using addr_found(4) [OF addr e] by auto
  next
    fix p assume "p \<in> in_use P lay"
    then obtain i where "i \<in> set (ids P)" "p \<in> uses P lay i" by (auto simp: in_use_def)
    then have "map_of ?m (fst (pool_seg P p)) = Some (p, i)" using addr by (simp add: addr_rep_def)
    then show "p \<in> (\<lambda>e. fst (snd e)) ` set ?m" by (force dest: map_of_SomeD)
  qed
  have "sum_list (map (\<lambda>e. snd (pool_seg P (fst (snd e)))) ?m) = (\<Sum>e \<in> set ?m. snd (pool_seg P (fst (snd e))))"
    using d by (intro sum_list_distinct_conv_sum_set) (simp add: distinct_map)
  also have "\<dots> = (\<Sum>p \<in> in_use P lay. snd (pool_seg P p))"
    unfolding img [symmetric] by (rule sum.reindex_cong [OF inj, symmetric]) simp_all
  finally show ?thesis using ok by (simp add: pool_ok_def size_rep_def)
qed

section \<open>The client's view\<close>

text \<open>
  The specification: the pool is a map from the addresses the client holds to the sizes of their
  ranges. An allocation either fails or adds a range that meets no other; a free removes one; the
  other operations change nothing the client holds.
\<close>

type_synonym view = "device_ptr \<rightharpoonup> size_t"

definition held :: "'d pool \<Rightarrow> view" where
  "held P a = (case map_of (addr_mem_buf_allocators P) a of None \<Rightarrow> None
     | Some (p, i) \<Rightarrow> if status_of (bufs (world P)) p = kMemBufUsed then Some (snd (pool_seg P p)) else None)"

definition apart_from :: "view \<Rightarrow> seg \<Rightarrow> bool" where
  "apart_from m r \<longleftrightarrow> (\<forall>a n. m a = Some n \<longrightarrow> seg_range r \<inter> seg_range (a, n) = {})"

definition spec_alloc :: "size_t \<Rightarrow> view \<Rightarrow> device_ptr \<Rightarrow> view \<Rightarrow> bool" where
  "spec_alloc sz m a m' \<longleftrightarrow> (\<exists>n. AlignMemorySize sz \<le> n \<and> n - AlignMemorySize sz < 512 \<and>
     a \<notin> dom m \<and> apart_from m (a, n) \<and> m' = m(a \<mapsto> n))"

definition spec_step :: "pool_op \<Rightarrow> view \<Rightarrow> view \<Rightarrow> bool" where
  "spec_step op m m' \<longleftrightarrow> (case op of
     OpAlloc sz _ _ \<Rightarrow> m' = m \<or> (\<exists>a. spec_alloc sz m a m')
   | OpFree a \<Rightarrow> m' = m(a := None)
   | _ \<Rightarrow> m' = m)"

lemma held_iff:
  assumes "pool_ok dinv C N P lay"
  shows "held P a = Some n \<longleftrightarrow>
    (\<exists>p \<in> in_use P lay. status_of (bufs (world P)) p = kMemBufUsed \<and> pool_seg P p = (a, n))"
proof -
  have addr: "addr_rep P lay" using assms by (simp add: pool_ok_def)
  show ?thesis
  proof
    assume "held P a = Some n"
    then obtain p i where "map_of (addr_mem_buf_allocators P) a = Some (p, i)"
        "status_of (bufs (world P)) p = kMemBufUsed" "n = snd (pool_seg P p)"
      by (auto simp: held_def split: option.splits if_splits)
    with addr_found [OF addr this(1)] show "\<exists>p \<in> in_use P lay. status_of (bufs (world P)) p = kMemBufUsed \<and> pool_seg P p = (a, n)"
      by (metis prod.collapse)
  next
    assume "\<exists>p \<in> in_use P lay. status_of (bufs (world P)) p = kMemBufUsed \<and> pool_seg P p = (a, n)"
    then obtain p i where "i \<in> set (ids P)" "p \<in> uses P lay i" "status_of (bufs (world P)) p = kMemBufUsed"
        "pool_seg P p = (a, n)"
      by (auto simp: in_use_def)
    moreover from this have "map_of (addr_mem_buf_allocators P) a = Some (p, i)"
      using addr by (simp add: addr_rep_def)
    ultimately show "held P a = Some n" by (simp add: held_def)
  qed
qed

lemma view_eqI: "(\<And>a n. m a = Some n \<longleftrightarrow> m' a = Some n) \<Longrightarrow> m = (m' :: view)"
  by (rule ext) (metis option.exhaust)

lemma held_same:
  assumes "pool_ok dinv C N P lay" "pool_ok dinv C N P' lay'" "left P lay P' lay'" "stays P lay P' lay'"
  shows "held P' = held P"
proof (rule view_eqI)
  fix a n
  have "(\<exists>p \<in> in_use P' lay'. status_of (bufs (world P')) p = kMemBufUsed \<and> pool_seg P' p = (a, n)) \<longleftrightarrow>
      (\<exists>p \<in> in_use P lay. status_of (bufs (world P)) p = kMemBufUsed \<and> pool_seg P p = (a, n))"
  proof
    assume "\<exists>p \<in> in_use P' lay'. status_of (bufs (world P')) p = kMemBufUsed \<and> pool_seg P' p = (a, n)"
    then show "\<exists>p \<in> in_use P lay. status_of (bufs (world P)) p = kMemBufUsed \<and> pool_seg P p = (a, n)"
      using assms(3) by (auto simp: left_def)
  next
    assume "\<exists>p \<in> in_use P lay. status_of (bufs (world P)) p = kMemBufUsed \<and> pool_seg P p = (a, n)"
    then show "\<exists>p \<in> in_use P' lay'. status_of (bufs (world P')) p = kMemBufUsed \<and> pool_seg P' p = (a, n)"
      using assms(4) by (auto simp: stays_def)
  qed
  then show "held P' a = Some n \<longleftrightarrow> held P a = Some n"
    by (simp add: held_iff [OF assms(1)] held_iff [OF assms(2)])
qed

lemma held_alloc:
  assumes ok: "pool_ok dinv C N P lay" "pool_ok dinv C N P' lay'" and al: "allocated (AlignMemorySize sz) a P lay P' lay'"
  shows "spec_alloc sz (held P) a (held P')"
proof -
  obtain p i where p: "map_of (addr_mem_buf_allocators P') a = Some (p, i)" "p \<in> in_use P' lay'"
      "in_use P' lay' \<subseteq> insert p (in_use P lay)" "fst (pool_seg P' p) = a"
      "AlignMemorySize sz \<le> snd (pool_seg P' p)" "snd (pool_seg P' p) - AlignMemorySize sz < 512"
      "status_of (bufs (world P')) p = kMemBufUsed"
    and kept: "\<And>q. q \<in> in_use P' lay' \<Longrightarrow> q \<noteq> p \<Longrightarrow> pool_seg P' q = pool_seg P q \<and>
      status_of (bufs (world P')) q = status_of (bufs (world P)) q"
    and old: "\<And>q. q \<in> in_use P lay \<Longrightarrow> status_of (bufs (world P)) q = kMemBufUsed \<Longrightarrow>
      q \<in> in_use P' lay' \<and> pool_seg P' q = pool_seg P q \<and> q \<noteq> p \<and> seg_range (pool_seg P' p) \<inter> seg_range (pool_seg P' q) = {}"
    using al unfolding allocated_def by blast
  define n where "n = snd (pool_seg P' p)"
  have seg: "pool_seg P' p = (a, n)" using p(4) by (simp add: n_def prod_eq_iff)
  have rep': "pool_rep P' lay'" using ok(2) by (simp add: pool_ok_def pool_core_def)
  have apart: "apart_from (held P) (a, n)"
    unfolding apart_from_def held_iff [OF ok(1)] using old seg by metis
  have new: "a \<notin> dom (held P)"
  proof
    assume "a \<in> dom (held P)"
    then obtain k where "held P a = Some k" by blast
    then obtain q where q: "q \<in> in_use P lay" "status_of (bufs (world P)) q = kMemBufUsed" "pool_seg P q = (a, k)"
      unfolding held_iff [OF ok(1)] by blast
    from old [OF q(1,2)] in_use_addr_inj [OF rep' p(2), of q] seg q(3) show False by simp
  qed
  have "held P' = (held P)(a \<mapsto> n)"
  proof (rule view_eqI)
    fix b k
    show "held P' b = Some k \<longleftrightarrow> ((held P)(a \<mapsto> n)) b = Some k"
    proof (cases "b = a")
      case True
      have "held P' a = Some n" using p(2,7) seg unfolding held_iff [OF ok(2)] by blast
      with True show ?thesis by simp
    next
      case False
      have "(\<exists>q \<in> in_use P' lay'. status_of (bufs (world P')) q = kMemBufUsed \<and> pool_seg P' q = (b, k)) \<longleftrightarrow>
          (\<exists>q \<in> in_use P lay. status_of (bufs (world P)) q = kMemBufUsed \<and> pool_seg P q = (b, k))"
      proof
        assume "\<exists>q \<in> in_use P' lay'. status_of (bufs (world P')) q = kMemBufUsed \<and> pool_seg P' q = (b, k)"
        then obtain q where q: "q \<in> in_use P' lay'" "status_of (bufs (world P')) q = kMemBufUsed" "pool_seg P' q = (b, k)"
          by blast
        have "q \<noteq> p" using q(3) seg False by auto
        with q kept [OF q(1)] p(3) show "\<exists>q \<in> in_use P lay. status_of (bufs (world P)) q = kMemBufUsed \<and> pool_seg P q = (b, k)"
          by auto
      next
        assume "\<exists>q \<in> in_use P lay. status_of (bufs (world P)) q = kMemBufUsed \<and> pool_seg P q = (b, k)"
        then obtain q where q: "q \<in> in_use P lay" "status_of (bufs (world P)) q = kMemBufUsed" "pool_seg P q = (b, k)"
          by blast
        with old [OF q(1,2)] kept [of q] show "\<exists>q \<in> in_use P' lay'. status_of (bufs (world P')) q = kMemBufUsed \<and> pool_seg P' q = (b, k)"
          by auto
      qed
      with False show ?thesis by (simp add: held_iff [OF ok(1)] held_iff [OF ok(2)])
    qed
  qed
  with p(5,6) new apart show ?thesis unfolding spec_alloc_def n_def by blast
qed

lemma held_free:
  assumes ok: "mp_ok b P lay"
  shows "\<exists>P'. FreeTensorMem a P = Some P' \<and> held P' = (held P)(a := None)"
proof -
  obtain r P' lay' where f: "DoFreeTensorMem a P = Some (r, P')" "mp_ok b P' lay'"
    and c: "case map_of (addr_mem_buf_allocators P) a of None \<Rightarrow> \<not> r \<and> P' = P
      | Some (p, i) \<Rightarrow>
         if IsEventNotUsed (events_of (bufs (world P)) p) then r \<and> freed a p P lay P' lay'
         else \<not> r \<and> in_use P' lay' = in_use P lay \<and> status_of (bufs (world P')) p = kMemBufUsedByEvent \<and>
           (\<forall>q. pool_seg P' q = pool_seg P q \<and>
              (q \<noteq> p \<longrightarrow> status_of (bufs (world P')) q = status_of (bufs (world P)) q))"
    using mpp.DoFreeTensorMem_total [OF ok, of a] by blast
  have "held P' = (held P)(a := None)"
  proof (cases "map_of (addr_mem_buf_allocators P) a")
    case None
    with c show ?thesis by (auto simp: held_def fun_eq_iff)
  next
    case (Some e)
    obtain p i where pi: "map_of (addr_mem_buf_allocators P) a = Some (p, i)" using Some by (cases e) simp
    have addr: "addr_rep P lay" and rep: "pool_rep P lay" using ok by (simp_all add: pool_ok_def pool_core_def)
    note ip = addr_found [OF addr pi]
    have only: "q = p \<longleftrightarrow> fst (pool_seg P q) = a" if "q \<in> in_use P lay" for q
      using in_use_addr_inj [OF rep that ip(4)] ip(3) by auto
    have iff: "(\<exists>q \<in> in_use P' lay'. status_of (bufs (world P')) q = kMemBufUsed \<and> pool_seg P' q = (b', k)) \<longleftrightarrow>
        b' \<noteq> a \<and> (\<exists>q \<in> in_use P lay. status_of (bufs (world P)) q = kMemBufUsed \<and> pool_seg P q = (b', k))" for b' k
    proof (cases "IsEventNotUsed (events_of (bufs (world P)) p)")
      case True
      with c pi have fr: "freed a p P lay P' lay'" by simp
      have inu: "in_use P' lay' = in_use P lay - {p}" using fr by (simp add: freed_def)
      have rl: "pool_seg P' q = pool_seg P q \<and> status_of (bufs (world P')) q = status_of (bufs (world P)) q"
        if "q \<in> in_use P lay" "q \<noteq> p" for q
        using fr that by (simp add: freed_def relinked_def)
      show ?thesis unfolding inu using rl only by (metis DiffE DiffI fst_conv insertCI insertE emptyE)
    next
      case False
      with c pi have m: "in_use P' lay' = in_use P lay" "status_of (bufs (world P')) p = kMemBufUsedByEvent"
          "\<And>q. pool_seg P' q = pool_seg P q"
          "\<And>q. q \<noteq> p \<Longrightarrow> status_of (bufs (world P')) q = status_of (bufs (world P)) q"
        by auto
      show ?thesis unfolding m(1,3) using m(2,4) only by (metis fst_conv mem_buf_status.distinct(9))
    qed
    show ?thesis
    proof (rule view_eqI)
      fix b' k
      show "held P' b' = Some k \<longleftrightarrow> ((held P)(a := None)) b' = Some k"
        using iff [of b' k] by (simp add: held_iff [OF f(2)] held_iff [OF ok])
    qed
  qed
  with f(1) show ?thesis by (simp add: FreeTensorMem_def)
qed

lemma held_reset: "held (ResetMaxMemReserved P) = held P" "held (ResetMaxMemAllocated P) = held P"
  by (rule ext, simp add: held_def ResetMaxMemReserved_def ResetMaxMemAllocated_def split: option.split)+

text \<open>Every operation of a reachable pool is a step of the specification.\<close>

lemma run_op_refines:
  assumes ok: "mp_ok b P lay" and g: "op_guard op P"
  shows "\<exists>P'. run_op op P = Some P' \<and> spec_step op (held P) (held P')"
proof (cases op)
  case (OpAlloc sz fp sid)
  with g obtain a P' lay' where a: "AllocTensorMem MemoryPool_device sz fp sid P = Some (a, P')" "mp_ok b P' lay'"
      "a = 0 \<and> left P lay P' lay' \<and> stays P lay P' lay' \<or> allocated (AlignMemorySize sz) a P lay P' lay'"
    using mp_alloc_total [OF ok, of sz fp sid] by auto
  have "held P' = held P \<or> spec_alloc sz (held P) a (held P')"
    using a(3) held_same [OF ok a(2)] held_alloc [OF ok a(2)] by blast
  with a(1) OpAlloc show ?thesis by (auto simp: spec_step_def)
next
  case (OpFree a)
  with held_free [OF ok, of a] show ?thesis by (auto simp: spec_step_def)
next
  case (OpRecord t u as ev)
  from mpp.RecordEvent_total [OF ok, of t u as ev] obtain P' where
    r: "RecordEvent t u as ev P = Some (True, P')" "mp_ok b P' lay" "in_use P' lay = in_use P lay" "left P lay P' lay"
    by blast
  from held_same [OF ok r(2,4) stays_same [OF r(4,3)]] r(1) OpRecord show ?thesis by (simp add: spec_step_def)
next
  case (OpWait t u m)
  with g have "single P" by (simp add: op_guard_def)
  from mpp.WaitEvent_total [OF ok this, of t u m] obtain r P' lay' where
    w: "WaitEvent t u m P = Some (r, P')" "mp_ok b P' lay'" "left P lay P' lay'" "stays P lay P' lay'"
    by (auto simp: waited_def)
  from held_same [OF ok w(2-4)] w(1) OpWait show ?thesis by (simp add: spec_step_def)
next
  case (OpWaitAll t m)
  with g have "single P" by (simp add: op_guard_def)
  from mpp.WaitEvent_all_total [OF ok this, of t m] obtain P' lay' where
    w: "WaitEvent_all t m P = Some (True, P')" "mp_ok b P' lay'" "left P lay P' lay'" "stays P lay P' lay'"
    by (auto simp: waited_def)
  from held_same [OF ok w(2-4)] w(1) OpWaitAll show ?thesis by (simp add: spec_step_def)
next
  case OpSync
  from mpp.DoSyncAllEvents_total [OF ok] obtain r P' lay' where
    s: "DoSyncAllEvents P = Some (r, P')" "mp_ok b P' lay'" "left P lay P' lay'"
      "in_use P' lay' = in_use P lay - {p \<in> carried P. status_of (bufs (world P)) p = kMemBufUsedByEvent}"
    by blast
  from held_same [OF ok s(2,3) stays_left [OF s(3,4)]] s(1) OpSync show ?thesis by (simp add: spec_step_def)
next
  case OpDefrag
  from mpp.DefragMemory_total [OF ok] obtain P' lay' where
    d: "DefragMemory MemoryPool_device P = Some P'" "mp_ok b P' lay'" "in_use P' lay' = in_use P lay" "left P lay P' lay'"
    by blast
  from held_same [OF ok d(2,4) stays_same [OF d(4,3)]] d(1) OpDefrag show ?thesis by (simp add: spec_step_def)
next
  case OpFreeIdle
  from mpp.FreeIdleMemsByEagerFree_total [OF ok] obtain e P' lay' where
    d: "FreeIdleMemsByEagerFree MemoryPool_device P = Some (e, P')" "mp_ok b P' lay'" "in_use P' lay' = in_use P lay"
      "left P lay P' lay'"
    by blast
  from held_same [OF ok d(2,4) stays_same [OF d(4,3)]] d(1) OpFreeIdle show ?thesis by (simp add: spec_step_def)
qed (simp_all add: spec_step_def held_reset)

section \<open>Concrete runs\<close>

lemmas run_exec = pool_exec al_exec buf_exec mp_exec Let_def

text \<open>A pool over a heap that starts at \<open>2 ^ 46\<close>, and the pool after one allocation.\<close>

definition pool0 :: "mp_dev pool" where
  "pool0 = MemoryPool False False (mp_init (2 ^ 46) 8)"

definition pool1 :: "mp_dev pool" where
  "pool1 = (case run_op (OpAlloc 1000 False 0) pool0 of None \<Rightarrow> pool0 | Some P \<Rightarrow> P)"

lemma pool0_reachable: "reachable False pool0"
  unfolding pool0_def by (rule reachable.init) (simp add: heap_ok_def)

lemma pool0_guard: "op_guard (OpAlloc 1000 False 0) pool0"
  by (simp add: op_guard_def pool0_def block_count_def max_blocks_def run_exec)

lemma pool1_run: "run_op (OpAlloc 1000 False 0) pool0 = Some pool1"
proof -
  obtain lay where "mp_ok False pool0 lay" using reachable_ok [OF pool0_reachable] by blast
  from run_op_total [OF this pool0_guard] obtain P where "run_op (OpAlloc 1000 False 0) pool0 = Some P" by blast
  then show ?thesis by (simp only: pool1_def option.case)
qed

lemma pool1_reachable: "reachable False pool1"
  by (rule reachable.step [OF pool0_reachable pool0_guard pool1_run])

lemma pool1_entry: "range_at pool1 (2 ^ 46) = Some (2 ^ 46, 1024)" "held pool1 (2 ^ 46) = Some 1024"
    "map_of (addr_mem_buf_allocators pool1) (2 ^ 46) = Some (1, Keyed (False, 0))"
    "IsEventNotUsed (events_of (bufs (world pool1)) 1)"
  by (simp_all add: pool1_def pool0_def range_at_def held_def seg_of_def status_of_def events_of_def run_exec
      cong: bind_weak_cong let_weak_cong option.case_cong_weak if_weak_cong)

text \<open>A second allocation of the same size.\<close>

definition pool2 :: "mp_dev pool" where
  "pool2 = (case run_op (OpAlloc 1000 False 0) pool1 of None \<Rightarrow> pool1 | Some P \<Rightarrow> P)"

lemma pool1_guard: "op_guard (OpAlloc 1000 False 0) pool1"
  by (simp add: op_guard_def pool1_def pool0_def block_count_def max_blocks_def run_exec
      cong: bind_weak_cong let_weak_cong option.case_cong_weak if_weak_cong)

lemma pool2_reachable: "reachable False pool2"
proof -
  obtain lay where "mp_ok False pool1 lay" using reachable_ok [OF pool1_reachable] by blast
  from run_op_total [OF this pool1_guard] obtain P where P: "run_op (OpAlloc 1000 False 0) pool1 = Some P" by blast
  then have "pool2 = P" by (simp only: pool2_def option.case)
  with reachable.step [OF pool1_reachable pool1_guard P] show ?thesis by simp
qed

lemma pool2_entries: "range_at pool2 (2 ^ 46) = Some (2 ^ 46, 1024)"
    "range_at pool2 (2 ^ 46 + 1024) = Some (2 ^ 46 + 1024, 1024)"
  by (simp_all add: pool2_def pool1_def pool0_def range_at_def seg_of_def run_exec
      cong: bind_weak_cong let_weak_cong option.case_cong_weak if_weak_cong)

text \<open>The buffer of the first allocation with an event of stream 1 recorded for it.\<close>

definition pool1e :: "mp_dev pool" where
  "pool1e = (case run_op (OpRecord 7 1 [(0, 2 ^ 46)] 5) pool1 of None \<Rightarrow> pool1 | Some P \<Rightarrow> P)"

lemma pool1e_reachable: "reachable False pool1e"
proof -
  have g: "op_guard (OpRecord 7 1 [(0, 2 ^ 46)] 5) pool1" by (simp add: op_guard_def)
  obtain lay where "mp_ok False pool1 lay" using reachable_ok [OF pool1_reachable] by blast
  from run_op_total [OF this g] obtain P where P: "run_op (OpRecord 7 1 [(0, 2 ^ 46)] 5) pool1 = Some P" by blast
  then have "pool1e = P" by (simp only: pool1e_def option.case)
  with reachable.step [OF pool1_reachable g P] show ?thesis by simp
qed

lemma pool1e_entry: "map_of (addr_mem_buf_allocators pool1e) (2 ^ 46) = Some (1, Keyed (False, 0))"
    "\<not> IsEventNotUsed (events_of (bufs (world pool1e)) 1)" "single pool1e"
  by (simp_all add: pool1e_def pool1_def pool0_def events_of_def single_def run_exec
      cong: bind_weak_cong let_weak_cong option.case_cong_weak if_weak_cong)

text \<open>The pool of two allocations after the first one is freed.\<close>

definition pool2f :: "mp_dev pool" where
  "pool2f = (case run_op (OpFree (2 ^ 46)) pool2 of None \<Rightarrow> pool2 | Some P \<Rightarrow> P)"

lemma pool2f_reachable: "reachable False pool2f"
proof -
  have g: "op_guard (OpFree (2 ^ 46)) pool2" by (simp add: op_guard_def)
  obtain lay where "mp_ok False pool2 lay" using reachable_ok [OF pool2_reachable] by blast
  from run_op_total [OF this g] obtain P where P: "run_op (OpFree (2 ^ 46)) pool2 = Some P" by blast
  then have "pool2f = P" by (simp only: pool2f_def option.case)
  with reachable.step [OF pool2_reachable g P] show ?thesis by simp
qed

lemma pool2f_free:
  "\<exists>al b q. get_al (Keyed (False, 0)) pool2f = Some al \<and> bufs (world pool2f) 1 = Some b \<and> next_buf b = Some q \<and>
    1 \<in> set (free_mem_bufs al)"
  by (simp add: pool2f_def pool2_def pool1_def pool0_def run_exec
      cong: bind_weak_cong let_weak_cong option.case_cong_weak if_weak_cong)

end
