(* ===== verification/Pool_Theorems.thy ===== *)
theory Pool_Theorems
  imports Pool_Machine
begin

text \<open>
  The properties of the memory pool, stated over its own tables: which addresses it has handed out,
  which ranges they stand for, and what its statistics count.
\<close>

section \<open>Shared facts\<close>

lemma range_at_iff:
  assumes "pool_ok dinv C N P lay"
  shows "range_at P a = Some r \<longleftrightarrow> (\<exists>p \<in> in_use P lay. pool_seg P p = r \<and> fst r = a)"
proof
  assume "range_at P a = Some r"
  from range_atD [OF assms this] show "\<exists>p \<in> in_use P lay. pool_seg P p = r \<and> fst r = a" by metis
next
  assume "\<exists>p \<in> in_use P lay. pool_seg P p = r \<and> fst r = a"
  then obtain p i where p: "i \<in> set (ids P)" "p \<in> uses P lay i" "pool_seg P p = r" "fst r = a"
    by (auto simp: in_use_def)
  then have "map_of (addr_mem_buf_allocators P) a = Some (p, i)"
    using assms by (simp add: pool_ok_def addr_rep_def)
  with p(3) show "range_at P a = Some r" by (simp add: range_at_def)
qed

lemma ranges_eqI: "(\<And>a r. f a = Some r \<longleftrightarrow> g a = Some (r :: seg)) \<Longrightarrow> f = g"
  by (rule ext) (metis option.exhaust)

lemma range_at_freed:
  assumes ok: "pool_ok dinv C N P lay" "pool_ok dinv C N P' lay'"
    and a: "map_of (addr_mem_buf_allocators P) a = Some (p, i)" and fr: "freed a p P lay P' lay'"
  shows "range_at P' = (range_at P)(a := None)"
proof (rule ranges_eqI)
  fix b r
  have addr: "addr_rep P lay" and rep: "pool_rep P lay" using ok(1) by (simp_all add: pool_ok_def pool_core_def)
  note ip = addr_found [OF addr a]
  have inu: "in_use P' lay' = in_use P lay - {p}" using fr by (simp add: freed_def)
  have seg: "pool_seg P' q = pool_seg P q" if "q \<in> in_use P lay - {p}" for q
    using fr that by (simp add: freed_def relinked_def)
  have only: "fst (pool_seg P q) = a \<longleftrightarrow> q = p" if "q \<in> in_use P lay" for q
    using in_use_addr_inj [OF rep that ip(4)] ip(3) by auto
  have "(\<exists>q \<in> in_use P lay - {p}. pool_seg P' q = r \<and> fst r = b) \<longleftrightarrow>
      b \<noteq> a \<and> (\<exists>q \<in> in_use P lay. pool_seg P q = r \<and> fst r = b)"
    using seg only by (auto simp: Bex_def)
  then show "range_at P' b = Some r \<longleftrightarrow> ((range_at P)(a := None)) b = Some r"
    by (simp add: range_at_iff [OF ok(1)] range_at_iff [OF ok(2)] inu)
qed

section \<open>The figures of an allocator\<close>

lemma sum_buf_sizes_sum:
  assumes "distinct s" "\<And>p. p \<in> set s \<Longrightarrow> live h p"
  shows "sum_buf_sizes h s = Some (\<Sum>p \<in> set s. snd (seg_of h p))"
  using assms
proof (induction s)
  case (Cons p s)
  from Cons.prems(2) [of p] obtain b where "h p = Some b" by (auto simp: live_def split: option.splits)
  with Cons show ?case by (simp add: seg_of_def)
qed simp

lemma buf_less_distinct: "sorted_wrt (buf_less h) s \<Longrightarrow> distinct s"
  by (induction s) (auto simp: buf_less_def MemBufComparator_def split: option.splits)

lemma word_total_of_nat: "word_total ss = of_nat (total ss)"
  by (induction ss) (simp_all add: word_total_def total_def)

lemma segs_sum: "distinct ps \<Longrightarrow> word_total (segs h ps) = (\<Sum>p \<in> set ps. snd (seg_of h p))"
  by (induction ps) (simp_all add: segs_def)

lemma sum_block_sizes_sum:
  assumes "\<And>b ps. (b, ps) \<in> set L \<Longrightarrow> \<exists>e. blk_ext w b = Some e \<and> block_rep (bufs w) b e ps" "distinct (ptrs L)"
  shows "sum_block_sizes (blks w) (map fst L) = Some (\<Sum>p \<in> set (ptrs L). snd (seg_of (bufs w) p))"
  using assms
proof (induction L)
  case Nil
  then show ?case by (simp add: ptrs_def)
next
  case (Cons bp L)
  obtain b ps where bp: "bp = (b, ps)" by force
  obtain e where e: "blk_ext w b = Some e" "block_rep (bufs w) b e ps" using Cons.prems(1) [of b ps] bp by auto
  obtain k where k: "blks w b = Some k" "snd e = block_size k" using e(1) by (auto simp: blk_ext_def split: option.splits)
  have d: "distinct ps" "distinct (ptrs L)" "set ps \<inter> set (ptrs L) = {}"
    using Cons.prems(2) bp by (simp_all add: ptrs_def)
  have "word_total (segs (bufs w) ps) = snd e"
    using e(2) by (simp add: block_rep_def word_total_of_nat)
  then have "block_size k = (\<Sum>p \<in> set ps. snd (seg_of (bufs w) p))" using segs_sum [OF d(1)] k(2) by metis
  moreover have "sum_block_sizes (blks w) (map fst L) = Some (\<Sum>p \<in> set (ptrs L). snd (seg_of (bufs w) p))"
    using Cons.IH Cons.prems(1) d(2) by auto
  moreover have "set (ptrs (bp # L)) = set ps \<union> set (ptrs L)" using bp by (simp add: ptrs_def)
  ultimately show ?case
    using bp k(1) d(3) by (simp add: sum.union_disjoint)
qed

lemma DumpStateInfo_used:
  assumes rep: "pool_rep P lay" and al: "get_al i P = Some al"
  shows "\<exists>B F E. DumpStateInfo al (world P) = Some (B, F, E, \<Sum>p \<in> uses P lay i. snd (pool_seg P p))"
proof -
  let ?h = "bufs (world P)"
  let ?A = "set (ptrs (lay i))"
  let ?sum = "\<lambda>X. \<Sum>p \<in> X. snd (seg_of ?h p)"
  have i: "i \<in> set (ids P)" using al get_al_ids [of i P] by simp
  obtain xs ys al0 where xy: "ids P = xs @ i # ys" "get_al i P = Some al0"
      "alloc_state (world P) (concat (map lay xs)) (lay i) (concat (map lay ys)) al0"
    using rep i by (rule pool_split)
  then have st: "layout_rep (world P) (concat (map lay xs) @ lay i @ concat (map lay ys))" "al_ok ?h (lay i) al"
    using al by (simp_all add: alloc_state_al_ok)
  have sets: "map fst (lay i) = mem_blocks al"
      "bufset_rep ?h ?A {} kMemBufIdle (free_mem_bufs al)" "bufset_rep ?h ?A {} kMemBufEagerFree (eager_free_mem_bufs al)"
    using st(2) by (simp_all add: al_ok_def sets_rep_def)
  have live: "live ?h p" if "p \<in> ?A" for p by (rule layout_live [OF st(1)]) (use that in simp)
  have inj: "distinct s" if "bufset_rep ?h ?A {} t s" for s t
    using that live by (auto simp: bufset_rep_def intro: buf_less_distinct)
  have blocks: "sum_block_sizes (blks (world P)) (mem_blocks al) = Some (?sum ?A)"
    unfolding sets(1) [symmetric]
  proof (rule sum_block_sizes_sum)
    show "distinct (ptrs (lay i))" using st(1) by (simp add: layout_rep_def)
    fix b ps assume "(b, ps) \<in> set (lay i)"
    then have "(b, ps) \<in> set (concat (map lay xs) @ lay i @ concat (map lay ys))" by simp
    with st(1) show "\<exists>e. blk_ext (world P) b = Some e \<and> block_rep ?h b e ps"
      unfolding layout_rep_def by blast
  qed
  have free: "sum_buf_sizes ?h (free_mem_bufs al) = Some (?sum {p \<in> ?A. status_of ?h p = kMemBufIdle})"
    using sum_buf_sizes_sum [OF inj [OF sets(2)]] sets(2) live by (simp add: bufset_rep_def)
  have eager: "sum_buf_sizes ?h (eager_free_mem_bufs al) = Some (?sum {p \<in> ?A. status_of ?h p = kMemBufEagerFree})"
    using sum_buf_sizes_sum [OF inj [OF sets(3)]] sets(3) live by (simp add: bufset_rep_def)
  have parts: "?A = uses P lay i \<union> ({p \<in> ?A. status_of ?h p = kMemBufIdle} \<union> {p \<in> ?A. status_of ?h p = kMemBufEagerFree})"
    by (auto simp: uses_def used_def free_status_def)
  have "?sum ?A = ?sum (uses P lay i) +
      (?sum {p \<in> ?A. status_of ?h p = kMemBufIdle} + ?sum {p \<in> ?A. status_of ?h p = kMemBufEagerFree})"
    by (subst parts, subst sum.union_disjoint; (subst sum.union_disjoint)?) (auto simp: uses_def used_def free_status_def)
  with blocks free eager show ?thesis by (simp add: DumpStateInfo_def)
qed

lemma coalesced_next:
  assumes rep: "pool_rep P lay" and i: "i \<in> set (ids P)" and al: "al_ok (bufs (world P)) (lay i) al"
    and p: "p \<in> set (ptrs (lay i))" "bufs (world P) p = Some b" "next_buf b = Some q"
    and st: "free_status (status_of (bufs (world P)) p)"
  shows "status_of (bufs (world P)) q \<noteq> status_of (bufs (world P)) p"
proof -
  obtain bl ps where bp: "(bl, ps) \<in> set (lay i)" "p \<in> set ps" using p(1) by (auto simp: in_ptrs)
  have "(bl, ps) \<in> set (whole lay P)" using bp(1) i by (auto simp: whole_def)
  moreover have "layout_rep (world P) (whole lay P)" using rep by (simp add: pool_rep_def)
  ultimately obtain e where "block_rep (bufs (world P)) bl e ps" by (metis layout_block)
  then have dll: "dll (bufs (world P)) None ps None" by (simp add: block_rep_def)
  obtain xs ys where ps: "ps = xs @ p # ys" using bp(2) by (meson split_list)
  have "link (bufs (world P)) p = Some (last_opt xs None, hd_opt ys None)"
    using dll by (simp add: ps dll_append)
  then have "hd_opt ys None = Some q" using p(2,3) by (simp add: link_def)
  then obtain zs where "ys = q # zs" by (cases ys) auto
  moreover have "coalesced (bufs (world P)) ps" using al bp(1) by (auto simp: al_ok_def)
  ultimately show ?thesis using st ps by (simp add: coalesced_append) (simp add: coalesced_def)
qed

lemma op_guard_cases:
  assumes "\<And>sz persistent stream_id. op = OpAlloc sz persistent stream_id \<Longrightarrow> sz \<le> 2 ^ 34 \<and> block_count P + 6 \<le> 512"
    and "\<And>task user mem. op = OpWait task user mem \<or> op = OpWaitAll task mem \<Longrightarrow> single P"
  shows "op_guard op P"
  using assms by (cases op) (auto simp: op_guard_def max_blocks_def)

section \<open>The operations of the machine return\<close>

text \<open>
  C2. Ten operations of the pool return on every state that they reach from the empty pool:
  \<open>AllocTensorMem\<close>, \<open>FreeTensorMem\<close>, \<open>RecordEvent\<close>, the two \<open>WaitEvent\<close>, \<open>DoSyncAllEvents\<close>,
  \<open>DefragMemory\<close>, \<open>FreeIdleMemsByEagerFree\<close> and the two resets of the peaks. None of them reads a
  deleted buffer, throws or loops, and the state they leave is reached again. The limits are those of the
  hypotheses: a request has at most 16 GB and finds room for six more of 512 blocks, and a \<open>WaitEvent\<close> is
  called only while no buffer is recorded for two pairs of streams. Not covered are
  \<open>AllocContinuousTensorMem\<close> (it reads the first element of an empty list, and with sizes that are no multiples of 512 its
  buffers no longer tile their block), \<open>FreePartTensorMems\<close> and \<open>ReleaseDeviceRes\<close>.
\<close>

theorem pool_operations_return:
  assumes "reachable vmm_enabled P"
    and "\<And>sz persistent stream_id. op = OpAlloc sz persistent stream_id \<Longrightarrow> sz \<le> 2 ^ 34 \<and> block_count P + 6 \<le> 512"
    and "\<And>task user mem. op = OpWait task user mem \<or> op = OpWaitAll task mem \<Longrightarrow> single P"
  shows "\<exists>P'. run_op op P = Some P' \<and> reachable vmm_enabled P'"
proof -
  have g: "op_guard op P" using assms(2,3) by (rule op_guard_cases)
  show ?thesis using reachable_ok [OF assms(1)] run_op_total [OF _ g] reachable.step [OF assms(1) g] by blast
qed

theorem pool_operations_return_witness:
  "(\<exists>P'. run_op (OpAlloc 1000 False 0) pool0 = Some P' \<and> reachable False P') \<and>
   (\<exists>P'. run_op (OpWait 7 1 0) pool1e = Some P' \<and> reachable False P')"
proof -
  have g: "block_count pool0 + 6 \<le> 512" using pool0_guard by (simp add: op_guard_def max_blocks_def)
  show ?thesis
    using pool_operations_return [OF pool0_reachable, of "OpAlloc 1000 False 0"] g
      pool_operations_return [OF pool1e_reachable, of "OpWait 7 1 0"] pool1e_entry(3) by simp
qed

section \<open>Refinement\<close>

text \<open>
  C1. On the states that these ten operations reach, and under the same limits, the pool implements its
  specification: a map from the addresses that the client holds to the sizes of their ranges. An allocation
  leaves the map alone (and fails) or adds a range that meets none of the held ones; a free removes its
  address; recording and waiting for events, synchronisation, eager free, defragmentation and the resets
  leave the map unchanged. Runs with \<open>AllocContinuousTensorMem\<close>, \<open>FreePartTensorMems\<close> or
  \<open>ReleaseDeviceRes\<close>, which change the map in other ways, are not covered.
\<close>

theorem pool_refines_view:
  assumes "reachable vmm_enabled P"
    and "\<And>sz persistent stream_id. op = OpAlloc sz persistent stream_id \<Longrightarrow> sz \<le> 2 ^ 34 \<and> block_count P + 6 \<le> 512"
    and "\<And>task user mem. op = OpWait task user mem \<or> op = OpWaitAll task mem \<Longrightarrow> single P"
  shows "\<exists>P'. run_op op P = Some P' \<and>
    (case op of
       OpAlloc sz _ _ \<Rightarrow> held P' = held P \<or> (\<exists>a. spec_alloc sz (held P) a (held P'))
     | OpFree a \<Rightarrow> held P' = (held P)(a := None)
     | _ \<Rightarrow> held P' = held P)"
proof -
  have "op_guard op P" using assms(2,3) by (rule op_guard_cases)
  then show ?thesis using reachable_ok [OF assms(1)] run_op_refines [of vmm_enabled P _ op] unfolding spec_step_def by blast
qed

theorem pool_refines_view_witness:
  "(\<exists>P'. run_op (OpAlloc 1000 False 0) pool0 = Some P' \<and>
     (held P' = held pool0 \<or> (\<exists>a. spec_alloc 1000 (held pool0) a (held P')))) \<and>
   (\<exists>P'. run_op (OpFree (2 ^ 46)) pool1e = Some P' \<and> held P' = (held pool1e)(2 ^ 46 := None))"
proof -
  have g: "block_count pool0 + 6 \<le> 512" using pool0_guard by (simp add: op_guard_def max_blocks_def)
  show ?thesis
    using pool_refines_view [OF pool0_reachable, of "OpAlloc 1000 False 0"] g
      pool_refines_view [OF pool1e_reachable, of "OpFree (2 ^ 46)"] by simp
qed

text \<open>
  C3. \<open>AllocTensorMem\<close> returns the null address and changes nothing the client holds, or it returns
  the start of a new range: at least as long as the request rounded up to 512 bytes and less than
  512 bytes longer, disjoint from every range the client holds.
\<close>

theorem AllocTensorMem_result:
  assumes "reachable vmm_enabled P" "op_guard (OpAlloc sz persistent stream_id) P"
  shows "\<exists>a P'. AllocTensorMem MemoryPool_device sz persistent stream_id P = Some (a, P') \<and>
    (a = 0 \<and> held P' = held P \<or> spec_alloc sz (held P) a (held P'))"
proof -
  obtain lay where ok: "mp_ok vmm_enabled P lay" using reachable_ok [OF assms(1)] by blast
  from mp_alloc_total [OF ok assms(2)] show ?thesis
    using held_same [OF ok] held_alloc [OF ok] by blast
qed

theorem AllocTensorMem_result_witness:
  "\<exists>a P'. AllocTensorMem MemoryPool_device 1000 False 0 pool0 = Some (a, P') \<and>
    (a = 0 \<and> held P' = held pool0 \<or> spec_alloc 1000 (held pool0) a (held P'))"
  using AllocTensorMem_result [OF pool0_reachable pool0_guard] .

text \<open>
  C6. Freeing what was just allocated restores the client's view: after an allocation that returned
  a non-null address, \<open>FreeTensorMem\<close> of this address leaves exactly the addresses held before.
\<close>

theorem alloc_free_roundtrip:
  assumes "reachable vmm_enabled P" "op_guard (OpAlloc sz persistent stream_id) P"
    and "AllocTensorMem MemoryPool_device sz persistent stream_id P = Some (a, P')" "a \<noteq> 0"
  shows "\<exists>P''. FreeTensorMem a P' = Some P'' \<and> held P'' = held P"
proof -
  obtain lay where ok: "mp_ok vmm_enabled P lay" using reachable_ok [OF assms(1)] by blast
  from mp_alloc_total [OF ok assms(2)] obtain lay' where a: "mp_ok vmm_enabled P' lay'"
      "allocated (AlignMemorySize sz) a P lay P' lay'"
    using assms(3,4) by auto
  obtain P'' where f: "FreeTensorMem a P' = Some P''" "held P'' = (held P')(a := None)"
    using held_free [OF a(1)] by blast
  have "(held P')(a := None) = held P"
    using held_alloc [OF ok a] by (auto simp: spec_alloc_def dom_def fun_eq_iff)
  with f show ?thesis by simp
qed

theorem alloc_free_roundtrip_witness:
  "\<exists>P''. FreeTensorMem (2 ^ 46) pool1 = Some P'' \<and> held P'' = held pool0"
proof -
  have "AllocTensorMem MemoryPool_device 1000 False 0 pool0 = Some (2 ^ 46, pool1)"
    by (simp add: pool1_def pool0_def run_exec cong: bind_weak_cong let_weak_cong option.case_cong_weak if_weak_cong)
  from alloc_free_roundtrip [OF pool0_reachable pool0_guard this] show ?thesis by simp
qed

section \<open>Invariants of the tables\<close>

text \<open>
  C4. In every reachable pool the ranges of two different addresses in the address table are
  disjoint, those that are only kept for an event included.
\<close>

theorem pool_ranges_disjoint:
  assumes "reachable vmm_enabled P" "range_at P a = Some r" "range_at P b = Some s" "a \<noteq> b"
  shows "seg_range r \<inter> seg_range s = {}"
  using reachable_ok [OF assms(1)] ranges_disjoint [OF _ assms(2-4)] by blast

theorem pool_ranges_disjoint_witness:
  "seg_range (2 ^ 46, 1024) \<inter> seg_range (2 ^ 46 + 1024, 1024) = {}"
  using pool_ranges_disjoint [OF pool2_reachable pool2_entries] by simp

text \<open>
  C5. On every state that the ten operations of the machine reach, the statistic of used memory is the sum
  of the sizes of the buffers in the address table (modulo \<open>2 ^ 64\<close>, as the code adds). It need not
  hold after \<open>AllocContinuousTensorMem\<close>, which is not one of the ten: it counts the whole
  buffer it takes, while the buffers it cuts from it add up to the sizes it is given.
\<close>

theorem TotalUsedMemStatistics_sum:
  assumes "reachable vmm_enabled P"
  shows "TotalUsedMemStatistics P =
    sum_list (map (\<lambda>e. snd (pool_seg P (fst (snd e)))) (addr_mem_buf_allocators P))"
  using reachable_ok [OF assms] used_size_table unfolding TotalUsedMemStatistics_def mem_stat_of_def by blast

theorem TotalUsedMemStatistics_sum_witness:
  "TotalUsedMemStatistics pool1 =
    sum_list (map (\<lambda>e. snd (pool_seg pool1 (fst (snd e)))) (addr_mem_buf_allocators pool1))"
  using TotalUsedMemStatistics_sum [OF pool1_reachable] .

section \<open>Freeing and events\<close>

text \<open>
  C7. \<open>DoFreeTensorMem\<close> of an address whose buffer has no event succeeds: the address leaves the
  table, all other ranges stay, and the used size goes down by the size of the range.
\<close>

theorem DoFreeTensorMem_frees:
  assumes "reachable vmm_enabled P" "map_of (addr_mem_buf_allocators P) a = Some (p, i)"
    and "IsEventNotUsed (events_of (bufs (world P)) p)"
  shows "\<exists>P'. DoFreeTensorMem a P = Some (True, P') \<and> range_at P' = (range_at P)(a := None) \<and>
    TotalUsedMemStatistics P' = TotalUsedMemStatistics P - snd (pool_seg P p)"
proof -
  obtain lay where ok: "mp_ok vmm_enabled P lay" using reachable_ok [OF assms(1)] by blast
  then have tab: "pool_tab mp_inv (mp_config vmm_enabled) max_blocks P lay" by (simp add: pool_ok_tab)
  obtain P' lay' where f: "DoFreeTensorMem a P = Some (True, P')"
      "stat (world P') = (stat (world P))\<lparr>used_size := used_size (stat (world P)) - snd (pool_seg P p)\<rparr>"
    using mpp.DoFree_freed [OF tab assms(2,3)] by blast
  obtain lay'' where g: "mp_ok vmm_enabled P' lay''" "freed a p P lay P' lay''"
    using mpp.DoFreeTensorMem_total [OF ok, of a] assms(2,3) f(1) by auto
  from range_at_freed [OF ok g(1) assms(2) g(2)] f show ?thesis
    by (simp add: TotalUsedMemStatistics_def mem_stat_of_def)
qed

theorem DoFreeTensorMem_frees_witness:
  "\<exists>P'. DoFreeTensorMem (2 ^ 46) pool1 = Some (True, P') \<and> range_at P' = (range_at pool1)(2 ^ 46 := None) \<and>
    TotalUsedMemStatistics P' = TotalUsedMemStatistics pool1 - snd (pool_seg pool1 1)"
  using DoFreeTensorMem_frees [OF pool1_reachable pool1_entry(3,4)] .

text \<open>
  C8. A buffer that an event still refers to is not released: \<open>DoFreeTensorMem\<close> returns false, every
  range stays in the table, and the client no longer holds the address.
\<close>

theorem DoFreeTensorMem_waits_for_events:
  assumes "reachable vmm_enabled P" "map_of (addr_mem_buf_allocators P) a = Some (p, i)"
    and "\<not> IsEventNotUsed (events_of (bufs (world P)) p)"
  shows "\<exists>P'. DoFreeTensorMem a P = Some (False, P') \<and> range_at P' = range_at P \<and> held P' = (held P)(a := None)"
proof -
  obtain lay where ok: "mp_ok vmm_enabled P lay" using reachable_ok [OF assms(1)] by blast
  obtain P' lay' where f: "DoFreeTensorMem a P = Some (False, P')" "mp_ok vmm_enabled P' lay'"
      "in_use P' lay' = in_use P lay" "\<And>q. pool_seg P' q = pool_seg P q"
    using mpp.DoFreeTensorMem_total [OF ok, of a] assms(2,3) by auto
  have "range_at P' = range_at P"
    by (rule ranges_eqI) (simp add: range_at_iff [OF ok] range_at_iff [OF f(2)] f(3,4))
  moreover have "held P' = (held P)(a := None)"
    using held_free [OF ok, of a] f(1) by (simp add: FreeTensorMem_def)
  ultimately show ?thesis using f(1) by blast
qed

theorem DoFreeTensorMem_waits_for_events_witness:
  "\<exists>P'. DoFreeTensorMem (2 ^ 46) pool1e = Some (False, P') \<and> range_at P' = range_at pool1e \<and>
    held P' = (held pool1e)(2 ^ 46 := None)"
  using DoFreeTensorMem_waits_for_events [OF pool1e_reachable pool1e_entry(1,2)] .

text \<open>
  C9. \<open>DoSyncAllEvents\<close> empties the table of stream pairs and releases exactly the buffers recorded
  there that were freed while an event referred to them; every other range stays.
\<close>

theorem DoSyncAllEvents_releases:
  assumes "reachable vmm_enabled P"
  shows "\<exists>r P'. DoSyncAllEvents P = Some (r, P') \<and> stream_pair_mem_bufs P' = [] \<and>
    (\<forall>a. range_at P' a = (case map_of (addr_mem_buf_allocators P) a of
       None \<Rightarrow> None
     | Some (p, i) \<Rightarrow> if p \<in> carried P \<and> status_of (bufs (world P)) p = kMemBufUsedByEvent then None
         else range_at P a))"
proof -
  obtain lay where ok: "mp_ok vmm_enabled P lay" using reachable_ok [OF assms] by blast
  obtain r P' lay' where s: "DoSyncAllEvents P = Some (r, P')" "mp_ok vmm_enabled P' lay'"
      "in_use P' lay' = in_use P lay - {p \<in> carried P. status_of (bufs (world P)) p = kMemBufUsedByEvent}"
      "left P lay P' lay'" "stream_pair_mem_bufs P' = []"
    using mpp.DoSyncAllEvents_total [OF ok] by blast
  have addr: "addr_rep P lay" and rep: "pool_rep P lay" using ok by (simp_all add: pool_ok_def pool_core_def)
  have kept: "range_at P' a = Some r \<longleftrightarrow> (\<exists>p \<in> in_use P' lay'. pool_seg P p = r \<and> fst r = a)" for a r
    using s(4) by (auto simp: range_at_iff [OF s(2)] left_def)
  have none: "range_at P' a = None" if "\<And>p. p \<in> in_use P' lay' \<Longrightarrow> fst (pool_seg P p) \<noteq> a" for a
    using kept [of a] that by (metis not_None_eq)
  have "range_at P' a = (case map_of (addr_mem_buf_allocators P) a of None \<Rightarrow> None
     | Some (p, i) \<Rightarrow> if p \<in> carried P \<and> status_of (bufs (world P)) p = kMemBufUsedByEvent then None
         else range_at P a)" for a
  proof (cases "map_of (addr_mem_buf_allocators P) a")
    case None
    then have "range_at P a = None" by (simp add: range_at_def)
    then have "\<nexists>p. p \<in> in_use P lay \<and> fst (pool_seg P p) = a"
      using range_at_iff [OF ok, of a] by (metis option.distinct(1))
    then have "range_at P' a = None" using s(3) by (intro none) auto
    with None show ?thesis by simp
  next
    case (Some e)
    obtain p i where e: "e = (p, i)" by force
    note ip = addr_found [OF addr Some [unfolded e]]
    have only: "q = p" if "q \<in> in_use P lay" "fst (pool_seg P q) = a" for q
      using in_use_addr_inj [OF rep that(1) ip(4)] that(2) ip(3) by simp
    have pa: "range_at P a = Some (pool_seg P p)" using Some e by (simp add: range_at_def)
    show ?thesis
    proof (cases "p \<in> carried P \<and> status_of (bufs (world P)) p = kMemBufUsedByEvent")
      case True
      then have "range_at P' a = None" using s(3) only by (intro none) auto
      with True Some e show ?thesis by simp
    next
      case False
      then have "p \<in> in_use P' lay'" using s(3) ip(4) by simp
      then have "range_at P' a = Some (pool_seg P p)" using kept [of a "pool_seg P p"] ip(3) by blast
      with False Some e pa show ?thesis by simp
    qed
  qed
  with s(1,5) show ?thesis by blast
qed

theorem DoSyncAllEvents_releases_witness:
  "\<exists>r P'. DoSyncAllEvents pool1e = Some (r, P') \<and> stream_pair_mem_bufs P' = []"
  using DoSyncAllEvents_releases [OF pool1e_reachable] by blast

text \<open>
  The limit on \<open>WaitEvent\<close> is needed. After two user streams were recorded for a buffer, it stays in
  the table of the first stream after its last event, a later free may merge and delete it, and the next
  \<open>WaitEvent\<close> of that stream reads a deleted buffer.
\<close>

lemma WaitEvent_use_after_free:
  "\<exists>P. run_free [OpAlloc 1000 False 0, OpAlloc 1000 False 0,
       OpRecord 1 1 [(0, 2 ^ 46 + 1024)] 5, OpRecord 1 2 [(0, 2 ^ 46 + 1024)] 6,
       OpWait 9 1 0, OpWait 9 2 0, OpFree (2 ^ 46 + 1024), OpFree (2 ^ 46)] pool0 = Some P \<and>
     WaitEvent 9 1 0 P = None"
  by (simp add: pool0_def run_exec cong: bind_weak_cong let_weak_cong option.case_cong_weak if_weak_cong)

section \<open>The allocators\<close>

text \<open>
  The figure of memory in use that \<open>MemBufAllocator::DumpStateInfo\<close> computes as block total
  minus idle total minus eager-free total is, in every reachable pool, the total size of the buffers
  of this allocator in the address table: no byte of a block is lost or counted twice.
\<close>

theorem DumpStateInfo_counts_used:
  assumes "reachable vmm_enabled P" "get_al i P = Some al"
  shows "\<exists>B F E. DumpStateInfo al (world P) =
    Some (B, F, E, \<Sum>p \<in> {p. \<exists>a. map_of (addr_mem_buf_allocators P) a = Some (p, i)}. snd (pool_seg P p))"
proof -
  obtain lay where ok: "mp_ok vmm_enabled P lay" using reachable_ok [OF assms(1)] by blast
  then have rep: "pool_rep P lay" and addr: "addr_rep P lay" by (simp_all add: pool_ok_def pool_core_def)
  have "i \<in> set (ids P)" using assms(2) get_al_ids [of i P] by simp
  then have "{p. \<exists>a. map_of (addr_mem_buf_allocators P) a = Some (p, i)} = uses P lay i"
    using addr by (auto simp: addr_rep_def)
  with DumpStateInfo_used [OF rep assms(2)] show ?thesis by simp
qed

theorem DumpStateInfo_counts_used_witness:
  "\<exists>al B F E. get_al (Keyed (False, 0)) pool1 = Some al \<and> DumpStateInfo al (world pool1) =
    Some (B, F, E, \<Sum>p \<in> {p. \<exists>a. map_of (addr_mem_buf_allocators pool1) a = Some (p, Keyed (False, 0))}. snd (pool_seg pool1 p))"
proof -
  obtain al where al: "get_al (Keyed (False, 0)) pool1 = Some al"
    by (simp add: pool1_def pool0_def run_exec cong: bind_weak_cong let_weak_cong option.case_cong_weak if_weak_cong)
  with DumpStateInfo_counts_used [OF pool1_reachable al] show ?thesis by blast
qed

text \<open>
  C11. Idle memory is coalesced: in every reachable pool the successor of an idle buffer in its block
  is not idle, and the successor of an eagerly freed buffer is not eagerly freed.
\<close>

theorem pool_coalesced:
  assumes "reachable vmm_enabled P" "get_al i P = Some al" "bufs (world P) p = Some b" "next_buf b = Some q"
  shows "(p \<in> set (free_mem_bufs al) \<longrightarrow> q \<notin> set (free_mem_bufs al)) \<and>
    (p \<in> set (eager_free_mem_bufs al) \<longrightarrow> q \<notin> set (eager_free_mem_bufs al))"
proof -
  obtain lay where ok: "mp_ok vmm_enabled P lay" using reachable_ok [OF assms(1)] by blast
  have i: "i \<in> set (ids P)" using assms(2) get_al_ids [of i P] by simp
  then have al: "al_ok (bufs (world P)) (lay i) al"
    using ok assms(2) by (auto simp: pool_ok_def pool_core_def pool_rep_def)
  have st: "p \<in> set (ptrs (lay i)) \<and> status_of (bufs (world P)) p = kMemBufIdle" if "p \<in> set (free_mem_bufs al)" for p
    using that al by (auto simp: al_ok_def sets_rep_def bufset_rep_def)
  have et: "p \<in> set (ptrs (lay i)) \<and> status_of (bufs (world P)) p = kMemBufEagerFree" if "p \<in> set (eager_free_mem_bufs al)" for p
    using that al by (auto simp: al_ok_def sets_rep_def bufset_rep_def)
  have rep: "pool_rep P lay" using ok by (simp add: pool_ok_def pool_core_def)
  note nx = coalesced_next [OF rep i al _ assms(3,4)]
  show ?thesis using nx st [of p] st [of q] et [of p] et [of q] by (auto simp: free_status_def)
qed

theorem pool_coalesced_witness:
  "\<exists>al b q. get_al (Keyed (False, 0)) pool2f = Some al \<and> bufs (world pool2f) 1 = Some b \<and> next_buf b = Some q \<and>
    1 \<in> set (free_mem_bufs al) \<and> q \<notin> set (free_mem_bufs al)"
proof -
  obtain al b q where a: "get_al (Keyed (False, 0)) pool2f = Some al" "bufs (world pool2f) 1 = Some b" "next_buf b = Some q"
      "1 \<in> set (free_mem_bufs al)"
    using pool2f_free by blast
  with pool_coalesced [OF pool2f_reachable a(1-3)] show ?thesis by blast
qed

text \<open>
  C10. Without events in two stream pairs, \<open>WaitEvent\<close> returns whether the pair is known, never
  takes an address from the client, and keeps every entry outside the waited buffers.
\<close>

theorem WaitEvent_keeps_view:
  assumes "reachable vmm_enabled P" "single P"
  shows "\<exists>r P'. WaitEvent task user mem P = Some (r, P') \<and>
    (r \<longleftrightarrow> (user, mem) \<in> fst ` set (stream_pair_mem_bufs P)) \<and> held P' = held P \<and>
    (\<forall>a p i. map_of (addr_mem_buf_allocators P) a = Some (p, i) \<longrightarrow> p \<notin> carried P \<longrightarrow> range_at P' a = range_at P a)"
proof -
  obtain lay where ok: "mp_ok vmm_enabled P lay" using reachable_ok [OF assms(1)] by blast
  obtain r P' lay' where w: "WaitEvent task user mem P = Some (r, P')" "mp_ok vmm_enabled P' lay'"
      "r \<longleftrightarrow> (user, mem) \<in> fst ` set (stream_pair_mem_bufs P)" "waited (carried P) P lay P' lay'"
    using mpp.WaitEvent_total [OF ok assms(2), of task user mem] by blast
  have ls: "left P lay P' lay'" "stays P lay P' lay'" "in_use P lay - carried P \<subseteq> in_use P' lay'"
    using w(4) by (simp_all add: waited_def)
  have "range_at P' a = range_at P a"
    if a: "map_of (addr_mem_buf_allocators P) a = Some (p, i)" "p \<notin> carried P" for a p i
  proof -
    have "p \<in> in_use P lay" "fst (pool_seg P p) = a"
      using addr_found [OF _ a(1), of lay] ok by (auto simp: pool_ok_def)
    then have p: "p \<in> in_use P' lay'" "pool_seg P' p = pool_seg P p" "fst (pool_seg P p) = a"
      using ls a(2) by (auto simp: left_def)
    then have "range_at P' a = Some (pool_seg P p)" using range_at_iff [OF w(2), of a "pool_seg P p"] by blast
    with a(1) show ?thesis by (simp add: range_at_def)
  qed
  with w(1,3) held_same [OF ok w(2) ls(1,2)] show ?thesis by blast
qed

theorem WaitEvent_keeps_view_witness:
  "\<exists>r P'. WaitEvent 7 1 0 pool1e = Some (r, P') \<and> held P' = held pool1e"
  using WaitEvent_keeps_view [OF pool1e_reachable pool1e_entry(3), of 7 1 0] by blast

end
