(* ===== verification/Vmm_Theorems.thy ===== *)
theory Vmm_Theorems
  imports Mem_Vmm_Inv
begin

text \<open>
  The properties of the virtual memory adapter: its operations from the constructor on never throw,
  a successful mapping covers the whole range, eager free only removes mappings.
\<close>

section \<open>Runs of the adapter\<close>

datatype vmm_op = VAlloc size_t | VMmap size_t device_ptr size_t | VEagerFree device_ptr size_t

fun vmm_run :: "vmm_op \<Rightarrow> vmm_adapter \<Rightarrow> vmm_error + vmm_adapter" where
  "vmm_run (VAlloc sz) V = map_sum id snd (Vmm_AllocDeviceMem sz V)"
| "vmm_run (VMmap sz addr mx) V = map_sum id snd (Vmm_MmapDeviceMem sz addr mx V)"
| "vmm_run (VEagerFree addr sz) V = map_sum id snd (Vmm_EagerFreeDeviceMem addr sz V)"

text \<open>A reservation must end before the end of the address space.\<close>

definition vmm_guard :: "vmm_op \<Rightarrow> vmm_adapter \<Rightarrow> bool" where
  "vmm_guard op V = (case op of
     VAlloc sz \<Rightarrow> unat (base_addr (vmm_manager_of V)) + unat sz + 2097152 < 2 ^ 64
   | _ \<Rightarrow> True)"

inductive vmm_reachable :: "vmm_adapter \<Rightarrow> bool" where
  init: "vmm_reachable AscendVmmAdapter"
| step: "vmm_reachable V \<Longrightarrow> vmm_guard op V \<Longrightarrow> vmm_run op V = Inr V' \<Longrightarrow> vmm_reachable V'"

lemma vmm_run_total:
  assumes "vmm_ok {} V" "vmm_guard op V"
  shows "\<exists>V'. vmm_run op V = Inr V' \<and> vmm_ok {} V'"
proof (cases op)
  case (VAlloc sz)
  with VmmAlloc_total [OF assms(1), of sz] assms(2) show ?thesis by (auto simp: vmm_guard_def)
next
  case (VMmap sz a mx)
  with Mmap_total [OF assms(1), of sz a mx] show ?thesis by auto
next
  case (VEagerFree a sz)
  with EagerFree_total [OF assms(1), of a sz] show ?thesis by auto
qed

lemma vmm_reachable_ok: "vmm_reachable V \<Longrightarrow> vmm_ok {} V"
proof (induction rule: vmm_reachable.induct)
  case init
  show ?case by (rule vmm_ok_init)
next
  case (step V op V')
  from vmm_run_total [OF step.IH step.hyps(2)] step.hyps(3) show ?case by auto
qed

section \<open>Ranges of chunks\<close>

lemma chunks_mem:
  assumes "unat s + n * 2097152 < 2 ^ 64" "unat s \<le> x" "x < unat s + n * 2097152"
  shows "\<exists>c \<in> set (chunks n s). unat c \<le> x \<and> x < unat c + 2097152"
proof -
  define i where "i = (x - unat s) div 2097152"
  have i: "i < n" using assms(2,3) unfolding i_def by (simp add: less_mult_imp_div_less)
  have lo: "unat s + i * 2097152 \<le> x" using assms(2) div_times_less_eq_dividend [of "x - unat s" 2097152] by (simp add: i_def)
  have "(x - unat s) mod 2097152 < 2097152" by simp
  then have hi: "x < unat s + i * 2097152 + 2097152"
    using assms(2) div_mult_mod_eq [of "x - unat s" 2097152] unfolding i_def by linarith
  have im: "i * 2097152 < n * 2097152" using i by simp
  have "unat (of_nat i * 2097152 :: size_t) = i * 2097152"
    using im assms(1) by (simp add: unat_word_ariths unsigned_of_nat take_bit_nat_eq_self)
  then have "unat (s + of_nat i * 2097152) = unat s + i * 2097152"
    using im assms(1) by (subst unat64_add) simp_all
  with lo hi i show ?thesis by (intro bexI [of _ "s + of_nat i * 2097152"]) (auto simp: chunks_def)
qed

text \<open>The chunks from \<open>s\<close> on that a mapping of the range at \<open>a\<close> asks for cover the range.\<close>

lemma chunks_cover:
  fixes s a sz :: size_t
  assumes "s \<le> a" "unat a + unat sz + 4194304 < 2 ^ 64" "unat a \<le> x" "x < unat a + unat sz"
  shows "\<exists>c \<in> set (chunks (unat ((sz + (a - s) + 2097152 - 1) div 2097152)) s). unat c \<le> x \<and> x < unat c + 2097152"
proof -
  have sa: "unat s \<le> unat a" using assms(1) by (simp add: word_le_nat_alt)
  have off: "unat (a - s) = unat a - unat s" using assms(1) by (rule unat_sub)
  have sum: "unat (sz + (a - s)) = unat sz + (unat a - unat s)"
    using assms(2) sa by (subst unat64_add) (simp_all add: off)
  let ?m = "unat sz + (unat a - unat s)"
  have n: "unat ((sz + (a - s) + 2097152 - 1) div 2097152) = (?m + 2097151) div 2097152"
    using unat_round_up [of "sz + (a - s)"] assms(2) sa by (simp add: sum)
  have up: "?m \<le> (?m + 2097151) div 2097152 * 2097152"
    using div_mult_mod_eq [of "?m + 2097151" 2097152] mod_less_divisor [of 2097152 "?m + 2097151"] by linarith
  have le: "(?m + 2097151) div 2097152 * 2097152 \<le> ?m + 2097151" by (rule div_times_less_eq_dividend)
  show ?thesis
    unfolding n by (rule chunks_mem) (use assms(2-4) sa up le in linarith)+
qed

lemmas vmm_exec = Vmm_AllocDeviceMem_def Vmm_MmapDeviceMem_def AscendVmmAdapter_def VmmManager_def
  MallocVirtualAddress_def GetRoundUpAlignSize_def GetHandleSize_def kVmmAlignSize_def kMbByte_def Let_def
  FindVmmSegment_def before_upper_bound_def upper_bound_def acquire_handle_def GetHandle_def MemHandle_def
  MemHandle_Map_def Map_def kDefaultMapSize_def

section \<open>Properties\<close>

text \<open>
  C12. No operation of the adapter throws: from the constructor on, reserving, mapping and eagerly
  freeing memory return, the checks of \<open>VmmManager::Map\<close> and \<open>Unmap\<close> never fail, and the adapter
  stays in a reachable state.
\<close>

theorem vmm_operations_return:
  assumes "vmm_reachable V" "vmm_guard op V"
  shows "\<exists>V'. vmm_run op V = Inr V' \<and> vmm_reachable V'"
  using vmm_run_total [OF vmm_reachable_ok [OF assms(1)] assms(2)] vmm_reachable.step [OF assms] by blast

theorem vmm_operations_return_witness:
  "\<exists>V'. vmm_run (VAlloc 5000000) AscendVmmAdapter = Inr V' \<and> vmm_reachable V'"
  by (rule vmm_operations_return [OF vmm_reachable.init]) (simp add: vmm_guard_def AscendVmmAdapter_def VmmManager_def)

text \<open>
  C13. When \<open>MmapDeviceMem\<close> reports success, every byte of the requested range lies in a mapped 2 MB
  chunk, and no chunk that was mapped before has lost its mapping; otherwise it returns 0.
\<close>

theorem MmapDeviceMem_covers:
  assumes "vmm_reachable V" "unat addr + unat sz + 4194304 < 2 ^ 64"
  shows "\<exists>r V'. Vmm_MmapDeviceMem sz addr max_size V = Inr (r, V') \<and> (r = 0 \<or> r = sz) \<and>
    (r \<noteq> 0 \<longrightarrow> (\<forall>b. mapped_at V b \<longrightarrow> mapped_at V' b) \<and>
       (\<forall>x \<in> {unat addr ..< unat addr + unat sz}. \<exists>c. mapped_at V' c \<and> unat c \<le> x \<and> x < unat c + 2097152))"
proof -
  obtain r V' where m: "Vmm_MmapDeviceMem sz addr max_size V = Inr (r, V')" "r = sz \<or> r = 0"
    "r \<noteq> 0 \<longrightarrow> (\<forall>b. mapped_at V b \<longrightarrow> mapped_at V' b) \<and>
       (\<exists>s \<in> dom (map_of (vmm_map V)). s \<le> addr \<and> s \<noteq> 0 \<and>
          (\<forall>b \<in> set (chunks (unat ((sz + (addr - s) + 2097152 - 1) div 2097152)) s). mapped_at V' b))"
    using Mmap_total [OF vmm_reachable_ok [OF assms(1)], of sz addr max_size] by blast
  have "(\<forall>b. mapped_at V b \<longrightarrow> mapped_at V' b) \<and>
       (\<forall>x \<in> {unat addr ..< unat addr + unat sz}. \<exists>c. mapped_at V' c \<and> unat c \<le> x \<and> x < unat c + 2097152)" if "r \<noteq> 0"
  proof -
    obtain s where s: "s \<le> addr" "\<forall>b \<in> set (chunks (unat ((sz + (addr - s) + 2097152 - 1) div 2097152)) s). mapped_at V' b"
      using m(3) \<open>r \<noteq> 0\<close> by blast
    have "\<exists>c. mapped_at V' c \<and> unat c \<le> x \<and> x < unat c + 2097152" if "x \<in> {unat addr ..< unat addr + unat sz}" for x
      using chunks_cover [OF s(1) assms(2), of x] that s(2) by auto
    with m(3) \<open>r \<noteq> 0\<close> show ?thesis by blast
  qed
  with m(1,2) show ?thesis by blast
qed

theorem MmapDeviceMem_covers_witness:
  "\<exists>V V'. vmm_run (VAlloc 6291456) AscendVmmAdapter = Inr V \<and>
     Vmm_MmapDeviceMem 1024 2097152 kMaxUsedMemSize V = Inr (1024, V') \<and>
     (\<exists>c. mapped_at V' c \<and> unat c \<le> 2097152 \<and> 2097152 < unat c + 2097152)"
proof -
  define V where "V = (case vmm_run (VAlloc 6291456) AscendVmmAdapter of Inl _ \<Rightarrow> AscendVmmAdapter | Inr V \<Rightarrow> V)"
  have g: "vmm_guard (VAlloc 6291456) AscendVmmAdapter"
    by (simp add: vmm_guard_def AscendVmmAdapter_def VmmManager_def)
  have run: "vmm_run (VAlloc 6291456) AscendVmmAdapter = Inr V"
    using vmm_run_total [OF vmm_ok_init g] by (auto simp: V_def simp del: vmm_run.simps)
  have reach: "vmm_reachable V" by (rule vmm_reachable.step [OF vmm_reachable.init g run])
  have "reserve_chunks 3 0 [] = [(0, None), (2097152, None), (4194304, None)]"
    by (simp add: numeral_3_eq_3 kVmmAlignSize_def)
  then have "\<exists>V'. Vmm_MmapDeviceMem 1024 2097152 kMaxUsedMemSize V = Inr (1024, V')"
    by (simp add: V_def vmm_exec)
  then obtain V' where m: "Vmm_MmapDeviceMem 1024 2097152 kMaxUsedMemSize V = Inr (1024, V')" by blast
  with MmapDeviceMem_covers [OF reach, of 2097152 1024 kMaxUsedMemSize]
  have cov: "\<forall>x \<in> {2097152 ..< 2098176}. \<exists>c. mapped_at V' c \<and> unat c \<le> x \<and> x < unat c + 2097152" by simp
  have "\<exists>c. mapped_at V' c \<and> unat c \<le> 2097152 \<and> 2097152 < unat c + 2097152"
    by (rule bspec [OF cov]) simp
  with run m show ?thesis by blast
qed

text \<open>
  \<open>EagerFreeDeviceMem\<close> adds no mapping, keeps the reserved range, and takes the memory only from
  chunks that lie completely inside the range it is given.
\<close>

theorem EagerFreeDeviceMem_only_unmaps:
  assumes "vmm_reachable V"
  shows "\<exists>r V'. Vmm_EagerFreeDeviceMem addr sz V = Inr (r, V') \<and> (\<forall>b. mapped_at V' b \<longrightarrow> mapped_at V b) \<and>
    (\<forall>b. mapped_at V b \<longrightarrow> mapped_at V' b \<or> addr \<le> b \<and> b + 2097152 \<le> addr + sz) \<and>
    base_addr (vmm_manager_of V') = base_addr (vmm_manager_of V)"
  using EagerFree_total [OF vmm_reachable_ok [OF assms], of addr sz] unfolding same_range_def by blast

theorem EagerFreeDeviceMem_only_unmaps_witness:
  "\<exists>r V'. Vmm_EagerFreeDeviceMem 0 4194304 AscendVmmAdapter = Inr (r, V') \<and>
    base_addr (vmm_manager_of V') = base_addr (vmm_manager_of AscendVmmAdapter)"
  using EagerFreeDeviceMem_only_unmaps [OF vmm_reachable.init, of 0 4194304] by blast

text \<open>
  The first range that is reserved starts at address 0, which \<open>FindVmmSegment\<close> uses for "not
  found": mapping memory in the first chunk fails on a fresh adapter although the chunk is reserved
  and no physical memory is in use.
\<close>

theorem first_mapping_fails:
  "\<exists>V. Vmm_AllocDeviceMem 2097152 AscendVmmAdapter = Inr ((2097152, 0), V) \<and> map_of (vmm_map V) 0 = Some None \<and>
     Vmm_MmapDeviceMem 1024 0 kMaxUsedMemSize V = Inr (0, V)"
  by (simp add: vmm_exec)

end
