(* ===== verification/Philox.thy ===== *)
theory Philox
  imports Prelude
begin

text \<open>
  The counter-based generator \<open>Philox\<close> of \<^verbatim>\<open>testing/random.h\<close>. A \<open>std::array<uint32_t, n>\<close> is a
  list of \<open>n\<close> 32-bit words; \<open>compute\<close>, \<open>raise_key\<close>, \<open>skip_one\<close> and \<open>skip\<close> update it in place, so
  they return the new array. The generator object is passed as a record; \<open>operator()\<close> returns the
  number drawn and the advanced generator. The theorems read the counter as a 128-bit number and
  show that \<open>discard\<close> is the repeated call of the generator.
\<close>

unbundle bit_operations_syntax

section \<open>State and operations\<close>

definition kCounterNum :: size_t where "kCounterNum = 4"
definition kMagic0 :: uint32 where "kMagic0 = 0xD2511F53"
definition kMagic1 :: uint32 where "kMagic1 = 0xCD9E8D57"
definition kKeyStep0 :: uint32 where "kKeyStep0 = 0x9E3779B9"
definition kKeyStep1 :: uint32 where "kKeyStep1 = 0xBB67AE85"

record philox =
  phx_key :: "uint32 list"
  phx_counter :: "uint32 list"
  phx_results :: "uint32 list"
  phx_index :: size_t

text \<open>The two halves of a 64-bit word, \<open>static_cast<uint32_t>(x)\<close> and \<open>static_cast<uint32_t>(x >> 32)\<close>.\<close>

definition lo32 :: "size_t \<Rightarrow> uint32" where
  "lo32 x = ucast x"

definition hi32 :: "size_t \<Rightarrow> uint32" where
  "hi32 x = ucast (drop_bit 32 x)"

definition Philox2 :: "size_t \<Rightarrow> size_t \<Rightarrow> philox" where
  "Philox2 seed seed2 = \<lparr>phx_key = [lo32 seed, hi32 seed], phx_counter = [0, 0, lo32 seed2, hi32 seed2],
     phx_results = [0, 0, 0, 0], phx_index = kCounterNum\<rparr>"

definition Philox1 :: "size_t \<Rightarrow> philox" where
  "Philox1 seed = \<lparr>phx_key = [lo32 seed, hi32 seed], phx_counter = [0, 0, lo32 seed, hi32 seed],
     phx_results = [0, 0, 0, 0], phx_index = kCounterNum\<rparr>"

definition compute :: "uint32 list \<Rightarrow> uint32 list \<Rightarrow> uint32 list" where
  "compute counter key =
     (let t0 = ucast kMagic0 * ucast (counter ! 0) :: size_t;
          l0 = lo32 t0;
          h0 = hi32 t0;
          t1 = ucast kMagic1 * ucast (counter ! 2) :: size_t;
          l1 = lo32 t1;
          h1 = hi32 t1;
          counter = counter[0 := (h1 XOR counter ! 1 XOR key ! 0)];
          counter = counter[1 := l1];
          counter = counter[2 := (h0 XOR counter ! 3 XOR key ! 1)]
      in counter[3 := l0])"

definition raise_key :: "uint32 list \<Rightarrow> uint32 list" where
  "raise_key key = key[0 := key ! 0 + kKeyStep0, 1 := key ! 1 + kKeyStep1]"

text \<open>Advance the counter by one step, with the carries.\<close>

definition skip_one :: "uint32 list \<Rightarrow> uint32 list" where
  "skip_one c =
     (let c = c[0 := c ! 0 + 1] in
      if c ! 0 = 0 then
        let c = c[1 := c ! 1 + 1] in
        if c ! 1 = 0 then
          let c = c[2 := c ! 2 + 1] in
          if c ! 2 = 0 then c[3 := c ! 3 + 1] else c
        else c
      else c)"

text \<open>Advance the counter by \<open>count\<close> steps.\<close>

definition skip :: "size_t \<Rightarrow> uint32 list \<Rightarrow> uint32 list" where
  "skip count c =
     (let lo = lo32 count;
          hi = hi32 count;
          c = c[0 := c ! 0 + lo];
          hi = (if c ! 0 < lo then hi + 1 else hi);
          c = c[1 := c ! 1 + hi]
      in if c ! 1 < hi then
           let c = c[2 := c ! 2 + 1] in
           if c ! 2 = 0 then c[3 := c ! 3 + 1] else c
         else c)"

text \<open>One round of \<open>next\<close>: \<open>compute\<close> and \<open>raise_key\<close>. The source unrolls ten rounds, the last without the raise.\<close>

definition round_step :: "uint32 list \<times> uint32 list \<Rightarrow> uint32 list \<times> uint32 list" where
  "round_step rk = (compute (fst rk) (snd rk), raise_key (snd rk))"

definition next_block :: "philox \<Rightarrow> uint32 list \<times> philox" where
  "next_block g =
     (let (result, key) = (round_step ^^ 9) (phx_counter g, phx_key g);
          result = compute result key
      in (result, g\<lparr>phx_counter := skip_one (phx_counter g)\<rparr>))"

text \<open>\<open>operator()\<close>.\<close>

definition draw :: "philox \<Rightarrow> uint32 \<times> philox" where
  "draw g =
     (let g = (if phx_index g = kCounterNum
               then (let (r, g) = next_block g in g\<lparr>phx_results := r, phx_index := 0\<rparr>) else g)
      in (phx_results g ! unat (phx_index g), g\<lparr>phx_index := phx_index g + 1\<rparr>))"

definition discard :: "size_t \<Rightarrow> philox \<Rightarrow> philox" where
  "discard step g =
     (if phx_index g = kCounterNum then
        let count = step div kCounterNum;
            g = g\<lparr>phx_counter := skip count (phx_counter g)\<rparr>;
            remain = step mod kCounterNum
        in if 0 < remain
           then (let (r, g) = next_block g in g\<lparr>phx_results := r, phx_index := remain\<rparr>)
           else g
      else
        let pos = phx_index g + step in
        if pos \<le> kCounterNum then g\<lparr>phx_index := pos\<rparr>
        else
          let count = (pos - kCounterNum) div kCounterNum;
              g = g\<lparr>phx_counter := skip count (phx_counter g)\<rparr>;
              remain = pos mod kCounterNum
          in if 0 < remain
             then (let (r, g) = next_block g in g\<lparr>phx_results := r, phx_index := remain\<rparr>)
             else g\<lparr>phx_index := kCounterNum\<rparr>)"

text \<open>The first \<open>n\<close> numbers drawn.\<close>

fun draws :: "nat \<Rightarrow> philox \<Rightarrow> uint32 list" where
  "draws 0 g = []"
| "draws (Suc n) g = (let (x, g) = draw g in x # draws n g)"

text \<open>The arrays have the sizes of their types and the index is within the results.\<close>

definition philox_wf :: "philox \<Rightarrow> bool" where
  "philox_wf g \<longleftrightarrow> length (phx_key g) = 2 \<and> length (phx_counter g) = 4 \<and> length (phx_results g) = 4 \<and> unat (phx_index g) \<le> 4"

text \<open>The counter read as a number of four digits to the base \<open>2 ^ 32\<close>.\<close>

definition counter_value :: "uint32 list \<Rightarrow> nat" where
  "counter_value c = unat (c ! 0) + 2 ^ 32 * (unat (c ! 1) + 2 ^ 32 * (unat (c ! 2) + 2 ^ 32 * unat (c ! 3)))"

section \<open>The counter\<close>

lemma unat32_bound: "unat (x :: uint32) < 2 ^ 32"
  by (rule order_less_le_trans [OF unsigned_less]) simp

lemma unat32_inc: "unat (x + 1 :: uint32) = (unat x + 1) mod 2 ^ 32"
  by (simp add: unat_word_ariths)

lemma unat32_inc0: "x + 1 = (0 :: uint32) \<longleftrightarrow> unat x = 2 ^ 32 - 1"
  using unat32_bound [of x] by (auto simp: word_unat_eq_iff unat32_inc mod_Suc)

lemma unat32_inc_carry: "unat (x + 1 :: uint32) = (if x + 1 = 0 then 0 else unat x + 1)"
  using unat32_bound [of x] by (auto simp: unat32_inc unat32_inc0)

lemma length_compute [simp]: "length (compute c k) = length c"
  by (simp add: compute_def Let_def)

lemma length_raise_key [simp]: "length (raise_key k) = length k"
  by (simp add: raise_key_def)

lemma length_skip_one [simp]: "length (skip_one c) = length c"
  by (simp add: skip_one_def Let_def)

lemma length_skip [simp]: "length (skip n c) = length c"
  by (simp add: skip_def Let_def)

lemma counter_value_bound: "counter_value c < 2 ^ 128"
  using unat32_bound [of "c ! 0"] unat32_bound [of "c ! 1"] unat32_bound [of "c ! 2"] unat32_bound [of "c ! 3"]
  by (simp add: counter_value_def)

lemma list4: "length c = 4 \<Longrightarrow> c = [c ! 0, c ! 1, c ! 2, c ! 3]"
  by (auto simp: numeral_eq_Suc length_Suc_conv)

lemma digits_unique:
  fixes a x b y B :: nat
  assumes "a + B * x = b + B * y" "a < B" "b < B"
  shows "a = b \<and> x = y"
proof -
  from assms have "(a + B * x) mod B = (b + B * y) mod B" "(a + B * x) div B = (b + B * y) div B" by simp_all
  with assms(2,3) show ?thesis by simp
qed

lemma counter_value_inj:
  assumes "length c = 4" "length c' = 4" "counter_value c = counter_value c'"
  shows "c = c'"
proof -
  note d = digits_unique [OF _ unat32_bound unat32_bound]
  from d [OF assms(3) [unfolded counter_value_def]] d
  have "c ! 0 = c' ! 0 \<and> c ! 1 = c' ! 1 \<and> c ! 2 = c' ! 2 \<and> c ! 3 = c' ! 3"
    by (metis word_unat_eq_iff)
  then show ?thesis using list4 [OF assms(1)] list4 [OF assms(2)] by simp
qed

lemma skip_one_value:
  assumes "length c = 4"
  shows "counter_value (skip_one c) = (counter_value c + 1) mod 2 ^ 128"
proof -
  obtain a0 a1 a2 a3 where c: "c = [a0, a1, a2, a3]" using list4 [OF assms] by blast
  have b: "unat a0 < 2 ^ 32" "unat a1 < 2 ^ 32" "unat a2 < 2 ^ 32" "unat a3 < 2 ^ 32" by (rule unat32_bound)+
  show ?thesis
  proof (cases "a0 + 1 = 0 \<and> a1 + 1 = 0 \<and> a2 + 1 = 0 \<and> a3 + 1 = 0")
    case True
    then show ?thesis
      by (simp add: c skip_one_def counter_value_def Let_def unat32_inc0 unat32_inc)
  next
    case False
    have "counter_value (skip_one c) = counter_value c + 1"
      using False unat32_inc_carry [of a0] unat32_inc_carry [of a1] unat32_inc_carry [of a2] unat32_inc_carry [of a3]
        unat32_inc0 [of a0] unat32_inc0 [of a1] unat32_inc0 [of a2]
      by (auto simp: c skip_one_def counter_value_def Let_def)
    then show ?thesis using counter_value_bound [of "skip_one c"] by simp
  qed
qed

lemma skip_one_power_value:
  assumes "length c = 4"
  shows "length ((skip_one ^^ n) c) = 4 \<and> counter_value ((skip_one ^^ n) c) = (counter_value c + n) mod 2 ^ 128"
proof (induction n)
  case 0
  then show ?case using assms counter_value_bound [of c] by simp
next
  case (Suc n)
  then have "counter_value ((skip_one ^^ Suc n) c) = ((counter_value c + n) mod 2 ^ 128 + 1) mod 2 ^ 128"
    by (simp add: skip_one_value)
  then show ?case using Suc by (simp add: mod_Suc_eq)
qed

lemma unat32_add_carry: "unat (a + b :: uint32) + (if a + b < b then 2 ^ 32 else 0) = unat a + unat b"
proof -
  have "unat (a + b) = (unat a + unat b) mod 2 ^ 32" by (simp add: unat_word_ariths)
  then show ?thesis
    using unat32_bound [of a] unat32_bound [of b]
    by (cases "unat a + unat b < 2 ^ 32") (auto simp: word_less_nat_alt le_mod_geq)
qed

lemma lo_hi_split: "unat n = unat (lo32 n) + 2 ^ 32 * unat (hi32 n)"
proof -
  have lo: "unat (lo32 n) = unat n mod 2 ^ 32"
    by (simp add: lo32_def unsigned_ucast_eq take_bit_eq_mod)
  have hi: "unat (hi32 n) = unat n div 2 ^ 32"
    using unat64_bound [of n]
    by (simp add: hi32_def unsigned_ucast_eq unsigned_drop_bit_eq take_bit_eq_mod drop_bit_eq_div less_mult_imp_div_less unat_div)
  show ?thesis by (simp add: lo hi)
qed

lemma skip_value:
  assumes "length c = 4" "hi32 n \<noteq> - 1"
  shows "counter_value (skip n c) = (counter_value c + unat n) mod 2 ^ 128"
proof -
  obtain a0 a1 a2 a3 where c: "c = [a0, a1, a2, a3]" using list4 [OF assms(1)] by blast
  define lo where "lo = lo32 n"
  define hi where "hi = hi32 n"
  define hi' where "hi' = (if a0 + lo < lo then hi + 1 else hi)"
  have hi0: "hi + 1 \<noteq> 0" using assms(2) unfolding hi_def by (simp add: eq_neg_iff_add_eq_0)
  have v0: "unat (a0 + lo) + (if a0 + lo < lo then 2 ^ 32 else 0) = unat a0 + unat lo" by (rule unat32_add_carry)
  have vh: "unat hi' = unat hi + (if a0 + lo < lo then 1 else 0)"
    using hi0 unat32_inc_carry [of hi] by (simp add: hi'_def)
  have v1: "unat (a1 + hi') + (if a1 + hi' < hi' then 2 ^ 32 else 0) = unat a1 + unat hi'" by (rule unat32_add_carry)
  have n: "unat n = unat lo + 2 ^ 32 * unat hi" by (simp add: lo_def hi_def lo_hi_split)
  have s: "skip n c = (if a1 + hi' < hi'
      then (if a2 + 1 = 0 then [a0 + lo, a1 + hi', a2 + 1, a3 + 1] else [a0 + lo, a1 + hi', a2 + 1, a3])
      else [a0 + lo, a1 + hi', a2, a3])"
    by (simp add: c skip_def Let_def lo_def hi_def hi'_def)
  show ?thesis
  proof (cases "a1 + hi' < hi' \<and> a2 + 1 = 0 \<and> a3 + 1 = 0")
    case True
    then have "counter_value c + unat n = 2 ^ 128 + counter_value (skip n c)"
      using v0 vh v1 n by (auto simp: s [unfolded c] c counter_value_def unat32_inc0 unat32_inc split: if_splits)
    then show ?thesis using counter_value_bound [of "skip n c"] by simp
  next
    case False
    then have "counter_value c + unat n = counter_value (skip n c)"
      using v0 vh v1 n unat32_inc_carry [of a2] unat32_inc_carry [of a3] unat32_inc0 [of a2]
      by (auto simp: s [unfolded c] c counter_value_def split: if_splits)
    then show ?thesis using counter_value_bound [of "skip n c"] by simp
  qed
qed

lemma skip_is_power:
  assumes "length c = 4" "hi32 n \<noteq> - 1"
  shows "skip n c = (skip_one ^^ unat n) c"
  using assms by (intro counter_value_inj) (simp_all add: skip_value skip_one_power_value)

section \<open>The numbers drawn\<close>

text \<open>The block computed from a key and a counter, and the \<open>i\<close>-th number drawn from a state.\<close>

definition block_of :: "uint32 list \<Rightarrow> uint32 list \<Rightarrow> uint32 list" where
  "block_of k c = (let (r, k) = (round_step ^^ 9) (c, k) in compute r k)"

definition out :: "philox \<Rightarrow> nat \<Rightarrow> uint32" where
  "out g i =
     (let p = unat (phx_index g) + i in
      if p < 4 then phx_results g ! p
      else block_of (phx_key g) ((skip_one ^^ ((p - 4) div 4)) (phx_counter g)) ! (p mod 4))"

lemma next_block_eq:
  "next_block g = (block_of (phx_key g) (phx_counter g), g\<lparr>phx_counter := skip_one (phx_counter g)\<rparr>)"
  by (simp add: next_block_def block_of_def split: prod.split)

lemma length_block_of [simp]: "length (block_of k c) = length c"
proof -
  have "length (fst ((round_step ^^ n) (c, k))) = length c" for n
    by (induction n) (simp_all add: round_step_def)
  from this [of 9] show ?thesis by (simp add: block_of_def split_beta)
qed

lemma kCounterNum_eq: "(x = kCounterNum) = (unat x = 4)"
  by (simp add: kCounterNum_def word_unat_eq_iff)

lemma div_step: "4 \<le> p \<Longrightarrow> p div 4 = Suc ((p - 4) div (4 :: nat))"
  by (simp add: le_div_geq)

lemma draw_out:
  assumes "philox_wf g" "draw g = (x, g')"
  shows "philox_wf g'" "x = out g 0" "out g' i = out g (Suc i)"
proof -
  have w: "length (phx_key g) = 2" "length (phx_counter g) = 4" "length (phx_results g) = 4" "unat (phx_index g) \<le> 4"
    using assms(1) by (simp_all add: philox_wf_def)
  show "philox_wf g'" "x = out g 0" "out g' i = out g (Suc i)"
  proof (atomize (full), cases "unat (phx_index g) = 4")
    case True
    then have g': "g' = g\<lparr>phx_counter := skip_one (phx_counter g),
        phx_results := block_of (phx_key g) (phx_counter g), phx_index := 1\<rparr>"
      and x: "x = block_of (phx_key g) (phx_counter g) ! 0"
      using assms(2) by (auto simp: draw_def next_block_eq kCounterNum_eq)
    have m5: "(5 + i) mod 4 = Suc i mod 4" using mod_add_self1 [of 4 "Suc i"] by (simp del: mod_add_self1)
    show "philox_wf g' \<and> x = out g 0 \<and> out g' i = out g (Suc i)"
      using w True div_step [of "Suc i"] m5
      by (auto simp: philox_wf_def out_def g' x Let_def funpow_swap1 not_less)
  next
    case False
    then have g': "g' = g\<lparr>phx_index := phx_index g + 1\<rparr>" and x: "x = phx_results g ! unat (phx_index g)"
      using assms(2) by (auto simp: draw_def kCounterNum_eq)
    have "unat (phx_index g + 1) = unat (phx_index g) + 1"
      using w False unat64_add [of "phx_index g" 1] by simp
    then show "philox_wf g' \<and> x = out g 0 \<and> out g' i = out g (Suc i)"
      using w False by (auto simp: philox_wf_def out_def g' x)
  qed
qed

lemma draws_out: "philox_wf g \<Longrightarrow> draws n g = map (out g) [0..<n]"
proof (induction n arbitrary: g)
  case (Suc n)
  obtain x g' where d: "draw g = (x, g')" by fastforce
  show ?case
    using Suc.IH [OF draw_out(1) [OF Suc.prems d]] draw_out(2,3) [OF Suc.prems d]
    by (simp add: d map_upt_Suc del: upt_Suc)
qed simp

lemma unat_of_mod4 [simp]: "unat (word_of_nat (m mod 4) :: size_t) = m mod 4"
  using mod_less_divisor [of 4 m] by (subst unat_of_nat) (simp del: mod_less_divisor)

lemma hi32_div4: "hi32 (n div 4) \<noteq> - 1"
proof
  assume "hi32 (n div 4) = - 1"
  then have "hi32 (n div 4) + 1 = 0" by simp
  then have "unat (hi32 (n div 4)) = 2 ^ 32 - 1" by (simp add: unat32_inc0)
  moreover have "unat (n div 4) < 2 ^ 62" using unat64_bound [of n] by (simp add: unat_div)
  ultimately show False using lo_hi_split [of "n div 4"] by simp
qed

lemma discard_wf:
  assumes "philox_wf g"
  shows "philox_wf (discard n g)"
  using assms
  by (auto simp: philox_wf_def discard_def next_block_eq Let_def kCounterNum_def unat_mod word_le_nat_alt
      less_imp_le_nat)

text \<open>Where \<open>discard\<close> leaves the generator, in terms of the position \<open>p\<close> behind the current block.\<close>

lemma discard_eq:
  assumes wf: "philox_wf g" and no_wrap: "unat (phx_index g) + unat n < 2 ^ 64"
  defines "p \<equiv> unat (phx_index g) + unat n"
  defines "c \<equiv> (skip_one ^^ ((p - 4) div 4)) (phx_counter g)"
  shows "discard n g =
    (if p < 4 then g\<lparr>phx_index := word_of_nat p\<rparr>
     else if p mod 4 = 0 then g\<lparr>phx_counter := c, phx_index := 4\<rparr>
     else g\<lparr>phx_counter := skip_one c, phx_results := block_of (phx_key g) c, phx_index := word_of_nat (p mod 4)\<rparr>)"
proof -
  have len: "length (phx_counter g) = 4" and idx: "unat (phx_index g) \<le> 4" using wf by (simp_all add: philox_wf_def)
  have remain: "unat (m mod 4) = unat m mod 4" for m :: size_t by (simp add: unat_mod)
  have pos: "unat (phx_index g + n) = p" using no_wrap by (simp add: p_def unat64_add)
  note sk = skip_is_power [OF len hi32_div4]
  show ?thesis
  proof (cases "unat (phx_index g) = 4")
    case True
    have k: "kCounterNum = 4" "phx_index g = 4" using True by (simp_all add: kCounterNum_def word_unat_eq_iff)
    have c: "skip (n div 4) (phx_counter g) = c" using sk [of n] True by (simp add: c_def p_def unat_div)
    have "word_of_nat (p mod 4) = n mod 4" "(0 < n mod 4) = (p mod 4 \<noteq> 0)"
      using True remain [of n] by (simp_all add: p_def word_unat_eq_iff word_less_nat_alt del: word_of_nat_eq_iff)
    then show ?thesis using True by (simp add: discard_def Let_def k c next_block_eq p_def)
  next
    case False
    have k: "kCounterNum = 4" by (simp add: kCounterNum_def)
    show ?thesis
    proof (cases "p \<le> 4")
      case le: True
      have "phx_index g + n \<le> 4" using le pos by (simp add: word_le_nat_alt)
      moreover have "phx_index g + n = word_of_nat p" unfolding pos [symmetric] by simp
      ultimately show ?thesis using False le by (auto simp: discard_def kCounterNum_eq Let_def k c_def)
    next
      case gt: False
      have "\<not> phx_index g + n \<le> 4" using gt pos by (simp add: word_le_nat_alt)
      moreover from this have "unat (phx_index g + n - 4) = p - 4" using pos by (simp add: unat64_sub)
      then have "skip ((phx_index g + n - 4) div 4) (phx_counter g) = c" using sk by (simp add: c_def unat_div)
      moreover have "word_of_nat (p mod 4) = (phx_index g + n) mod 4" "(0 < (phx_index g + n) mod 4) = (p mod 4 \<noteq> 0)"
        using pos remain [of "phx_index g + n"] by (simp_all add: word_unat_eq_iff word_less_nat_alt)
      ultimately show ?thesis using False gt
        by (simp add: discard_def Let_def k next_block_eq kCounterNum_eq word_unat_eq_iff)
    qed
  qed
qed

lemma discard_out:
  assumes wf: "philox_wf g" and no_wrap: "unat (phx_index g) + unat n < 2 ^ 64"
  shows "out (discard n g) i = out g (unat n + i)"
proof -
  define p where "p = unat (phx_index g) + unat n"
  have p: "unat (phx_index g) + (unat n + i) = p + i" by (simp add: p_def)
  have o: "out g (unat n + i) = (if p + i < 4 then phx_results g ! (p + i)
      else block_of (phx_key g) ((skip_one ^^ ((p + i - 4) div 4)) (phx_counter g)) ! ((p + i) mod 4))"
    by (simp add: out_def Let_def p)
  consider "p < 4" | "4 \<le> p" "p mod 4 = 0" | "4 \<le> p" "p mod 4 \<noteq> 0" by linarith
  then show ?thesis
  proof cases
    case 1
    then show ?thesis unfolding discard_eq [OF assms, folded p_def] o by (simp add: out_def Let_def unat_of_nat)
  next
    case 2
    then obtain k where k: "p = 4 * Suc k" by (metis div_step mult.commute div_mult_mod_eq add.right_neutral)
    then have "(p + i - 4) div 4 = i div 4 + (p - 4) div 4" "(p + i) mod 4 = i mod 4"
      using mod_mult_self2 [of i 4 "Suc k"] by (simp_all add: add.commute del: mod_mult_self2)
    with 2 show ?thesis unfolding discard_eq [OF assms, folded p_def] o by (simp add: out_def funpow_add)
  next
    case 3
    define k r where "k = (p - 4) div 4" and "r = p mod 4"
    have pk: "p = 4 + 4 * k + r" "r < 4"
      using 3 div_step [of p] div_mult_mod_eq [of p 4] by (auto simp: k_def r_def)
    have p4: "p + i - 4 = r + i + 4 * k" "p + i = r + i + 4 * Suc k" using pk by simp_all
    have pm: "(p + i) mod 4 = (r + i) mod 4" unfolding p4(2) by (simp del: mult_Suc_right)
    have pd: "(p + i - 4) div 4 = (r + i) div 4 + k" unfolding p4(1) by simp
    have u: "unat (word_of_nat r :: size_t) = r" using unat_of_mod4 [of p] by (simp add: r_def)
    have "\<not> r + i < 4 \<Longrightarrow> (r + i) div 4 = Suc ((r + i - 4) div 4)" by (simp add: div_step)
    then show ?thesis
      using 3 pk(2) pm pd unfolding discard_eq [OF assms, folded p_def] o
      by (cases "r + i < 4") (simp_all add: out_def Let_def u funpow_add funpow_swap1 flip: k_def r_def)
  qed
qed

end
