(* ===== verification/Thread_Pool.thy ===== *)
theory Thread_Pool
  imports Prelude "HOL-Library.Multiset"
begin

text \<open>
  The synchronous thread pool of \<^verbatim>\<open>testing/thread_pool.cc\<close>. A task is the list of the writes it makes
  to the shared memory, in program order, with the status it returns; \<open>exec\<close> performs one write. The
  threads interleave write by write.

  The first part is the pool between two calls: the vectors \<open>contexts_\<close> and \<open>sync_run_threads_\<close> and the
  threads that are alive, each with the context it serves. The second part is the scheduling loop of
  \<open>SyncRun\<close> against the workers in \<open>SyncRunLoop\<close>, with the context mutex and the condition variable: a
  worker polls, then takes the mutex, tests the predicate and goes to sleep, and only \<open>notify_one\<close> (or
  a spurious wake-up) wakes it. The third part is \<open>ClearThreadPool\<close> against the same workers.
  Tasks do not throw, and reads and writes of \<open>context->task\<close> are atomic.
\<close>

section \<open>The pool between two calls\<close>

text \<open>
  Contexts and threads have identities that are never used twice. An entry of \<open>contexts_\<close> is a
  \<open>shared_ptr\<close>, None when it is null; an entry of \<open>sync_run_threads_\<close> is the handle of a thread.
  \<open>tp_alive\<close> has the threads that run, with the context that each was started with.
\<close>

record thread_pool =
  tp_max_threads :: size_t
  tp_exit_run :: bool
  tp_threads :: "nat list"
  tp_contexts :: "nat option list"
  tp_alive :: "(nat \<times> nat) list"
  tp_fresh :: nat

definition ThreadPool0 :: "size_t \<Rightarrow> thread_pool" where
  "ThreadPool0 hardware_concurrency =
     \<lparr>tp_max_threads = hardware_concurrency, tp_exit_run = False, tp_threads = [], tp_contexts = [],
      tp_alive = [], tp_fresh = 0\<rparr>"

text \<open>\<open>std::vector::resize\<close> of a vector of \<open>shared_ptr\<close>.\<close>

definition resize_contexts :: "nat \<Rightarrow> nat option list \<Rightarrow> nat option list" where
  "resize_contexts n cs = take n cs @ replicate (n - length cs) None"

text \<open>The loop that starts the threads from number \<open>i\<close> on, \<open>n\<close> of them.\<close>

fun start_threads :: "nat \<Rightarrow> nat \<Rightarrow> thread_pool \<Rightarrow> thread_pool" where
  "start_threads 0 i tp = tp"
| "start_threads (Suc n) i tp =
     start_threads n (Suc i)
       (tp\<lparr>tp_contexts := (tp_contexts tp)[i := Some (tp_fresh tp)],
           tp_threads := tp_threads tp @ [tp_fresh tp],
           tp_alive := (tp_fresh tp, tp_fresh tp) # tp_alive tp,
           tp_fresh := Suc (tp_fresh tp)\<rparr>)"

definition grow_pool :: "thread_pool \<Rightarrow> nat \<Rightarrow> thread_pool" where
  "grow_pool tp task_num =
     (let tp = tp\<lparr>tp_exit_run := False\<rparr>;
          max_thread_num = unat (tp_max_threads tp);
          thread_num = length (tp_threads tp)
      in if thread_num < max_thread_num \<and> thread_num < task_num
         then
           let new_thread_num = (if task_num < max_thread_num then task_num else max_thread_num)
           in start_threads (new_thread_num - thread_num) thread_num
                (tp\<lparr>tp_contexts := resize_contexts new_thread_num (tp_contexts tp)\<rparr>)
         else tp)"

definition used_threads :: "nat \<Rightarrow> nat \<Rightarrow> nat" where
  "used_threads contexts task_num = (if task_num < contexts then task_num else contexts)"

text \<open>
  The pool that \<open>ClearThreadPool\<close> leaves when it returns: every thread it has a handle of has exited
  (\<open>join\<close>). A null context would be dereferenced (None).
\<close>

definition ClearThreadPool :: "thread_pool \<Rightarrow> thread_pool option" where
  "ClearThreadPool tp =
     (if tp_exit_run tp then Some tp
      else if None \<in> set (tp_contexts tp) then None
      else Some (tp\<lparr>tp_exit_run := True,
                    tp_alive := filter (\<lambda>(th, c). th \<notin> set (tp_threads tp)) (tp_alive tp),
                    tp_threads := []\<rparr>))"

text \<open>
  \<open>fork\<close> copies the pool into a child in which only the calling thread goes on; \<open>ChildAfterFork\<close> is
  the handler that the child runs.
\<close>

definition fork_child :: "thread_pool \<Rightarrow> thread_pool" where
  "fork_child tp = tp\<lparr>tp_alive := []\<rparr>"

definition ChildAfterFork :: "thread_pool \<Rightarrow> thread_pool option" where
  "ChildAfterFork tp =
     (if None \<in> set (tp_contexts tp) then None
      else Some (tp\<lparr>tp_contexts := [], tp_threads := []\<rparr>))"

inductive pool_reachable :: "size_t \<Rightarrow> thread_pool \<Rightarrow> bool" for hardware_concurrency :: size_t where
  constructed: "pool_reachable hardware_concurrency (ThreadPool0 hardware_concurrency)"
| grown: "\<lbrakk>pool_reachable hardware_concurrency tp; 2 \<le> task_num\<rbrakk>
     \<Longrightarrow> pool_reachable hardware_concurrency (grow_pool tp task_num)"
| cleared: "\<lbrakk>pool_reachable hardware_concurrency tp; ClearThreadPool tp = Some tp'\<rbrakk>
     \<Longrightarrow> pool_reachable hardware_concurrency tp'"
| forked: "\<lbrakk>pool_reachable hardware_concurrency tp; ChildAfterFork (fork_child tp) = Some tp'\<rbrakk>
     \<Longrightarrow> pool_reachable hardware_concurrency tp'"

subsection \<open>Invariant of the pool\<close>

text \<open>
  A pool whose threads serve its contexts: thread number \<open>i\<close> runs and serves context number \<open>i\<close>, and
  no other thread runs. Either the pool is of this kind, or it has no thread at all.
\<close>

definition served :: "thread_pool \<Rightarrow> bool" where
  "served tp \<longleftrightarrow>
     tp_contexts tp = map Some (tp_threads tp) \<and> distinct (tp_threads tp) \<and>
     set (tp_alive tp) = (\<lambda>t. (t, t)) ` set (tp_threads tp) \<and> (\<forall>t \<in> set (tp_threads tp). t < tp_fresh tp)"

definition tp_ok :: "size_t \<Rightarrow> thread_pool \<Rightarrow> bool" where
  "tp_ok hardware_concurrency tp \<longleftrightarrow>
     tp_max_threads tp = hardware_concurrency \<and> length (tp_contexts tp) \<le> unat hardware_concurrency \<and>
     None \<notin> set (tp_contexts tp) \<and> (served tp \<or> (tp_threads tp = [] \<and> tp_alive tp = []))"

lemma start_threads_other [simp]:
  "tp_max_threads (start_threads n i tp) = tp_max_threads tp"
  "tp_exit_run (start_threads n i tp) = tp_exit_run tp"
  by (induction n i tp rule: start_threads.induct) simp_all

text \<open>The loop completes a pool of which the first \<open>i\<close> contexts are served.\<close>

lemma start_threads_served:
  assumes "length (tp_threads tp) = i" "length (tp_contexts tp) = i + n"
    "take i (tp_contexts tp) = map Some (tp_threads tp)" "distinct (tp_threads tp)"
    "set (tp_alive tp) = (\<lambda>t. (t, t)) ` set (tp_threads tp)" "\<forall>t \<in> set (tp_threads tp). t < tp_fresh tp"
  shows "served (start_threads n i tp) \<and> length (tp_contexts (start_threads n i tp)) = i + n"
  using assms
proof (induction n i tp rule: start_threads.induct)
  case (2 n i tp)
  have "take (Suc i) ((tp_contexts tp)[i := Some (tp_fresh tp)]) = map Some (tp_threads tp) @ [Some (tp_fresh tp)]"
    using "2.prems" by (simp add: take_Suc_conv_app_nth)
  moreover have "tp_fresh tp \<notin> set (tp_threads tp)" using "2.prems"(6) by blast
  ultimately show ?case using "2.IH" "2.prems" by (auto simp: less_Suc_eq)
qed (simp add: served_def)

lemma take_resize: "i \<le> length cs \<Longrightarrow> i \<le> n \<Longrightarrow> take i (resize_contexts n cs) = take i cs"
  by (simp add: resize_contexts_def min_def)

lemma length_resize_contexts [simp]: "length (resize_contexts n cs) = n"
  by (simp add: resize_contexts_def)

lemma grow_pool_served:
  assumes "tp_ok h tp" "2 \<le> task_num"
  shows "served (grow_pool tp task_num) \<and> tp_ok h (grow_pool tp task_num) \<and> \<not> tp_exit_run (grow_pool tp task_num) \<and>
    (tp_contexts (grow_pool tp task_num) = [] \<longrightarrow> h = 0)"
proof (cases "length (tp_threads tp) < unat h \<and> length (tp_threads tp) < task_num")
  case True
  define n where "n = (if task_num < unat h then task_num else unat h)"
  let ?i = "length (tp_threads tp)"
  let ?tp = "tp\<lparr>tp_exit_run := False, tp_contexts := resize_contexts n (tp_contexts tp)\<rparr>"
  have m: "tp_max_threads tp = h" using assms(1) by (simp add: tp_ok_def)
  have n: "?i < n" "n \<le> unat h" using True by (auto simp: n_def)
  have g: "grow_pool tp task_num = start_threads (n - ?i) ?i ?tp"
    using True m by (simp add: grow_pool_def n_def Let_def)
  have pre: "served tp \<or> (tp_threads tp = [] \<and> tp_alive tp = [])" using assms(1) by (simp add: tp_ok_def)
  then have t: "take ?i (resize_contexts n (tp_contexts tp)) = map Some (tp_threads tp)"
    using n by (auto simp: served_def take_resize)
  have s: "served (start_threads (n - ?i) ?i ?tp) \<and> length (tp_contexts (start_threads (n - ?i) ?i ?tp)) = ?i + (n - ?i)"
    using pre n t by (intro start_threads_served) (auto simp: served_def)
  have ne: "tp_contexts (start_threads (n - ?i) ?i ?tp) \<noteq> []" using s n by (auto simp flip: length_0_conv)
  have nn: "None \<notin> set (tp_contexts (start_threads (n - ?i) ?i ?tp))" using s by (auto simp: served_def)
  from s n m ne nn show ?thesis unfolding g tp_ok_def by auto
next
  case False
  have m: "tp_max_threads tp = h" using assms(1) by (simp add: tp_ok_def)
  have "grow_pool tp task_num = tp\<lparr>tp_exit_run := False\<rparr>" using False m by (auto simp: grow_pool_def Let_def)
  moreover have "served tp \<and> (tp_contexts tp = [] \<longrightarrow> h = 0)"
    using False assms by (auto simp: tp_ok_def served_def unat_eq_zero)
  ultimately show ?thesis using assms(1) by (auto simp: tp_ok_def served_def)
qed

lemma ClearThreadPool_ok:
  assumes "tp_ok h tp"
  shows "\<exists>tp'. ClearThreadPool tp = Some tp' \<and> tp_ok h tp'"
  using assms by (auto simp: ClearThreadPool_def tp_ok_def served_def intro!: filter_False)

lemma ChildAfterFork_ok:
  assumes "tp_ok h tp"
  shows "\<exists>tp'. ChildAfterFork (fork_child tp) = Some tp' \<and> tp_ok h tp'"
  using assms by (auto simp: ChildAfterFork_def fork_child_def tp_ok_def)

lemma pool_reachable_ok: "pool_reachable h tp \<Longrightarrow> tp_ok h tp"
proof (induction rule: pool_reachable.induct)
  case constructed
  then show ?case by (simp add: tp_ok_def ThreadPool0_def)
next
  case (grown tp task_num)
  then show ?case using grow_pool_served by blast
next
  case (cleared tp tp')
  then show ?case using ClearThreadPool_ok by fastforce
next
  case (forked tp tp')
  then show ?case using ChildAfterFork_ok by fastforce
qed

text \<open>
  C27. However the pool was cleared, forked and reused before, when a run of at least two tasks starts
  its scheduling loop no entry of \<open>contexts_\<close> is null, every context is served by exactly one thread
  that is alive, every living thread serves one of the contexts, there are at most
  \<open>hardware_concurrency\<close> contexts, and \<open>exit_run_\<close> is off. Clearing the pool and the fork handler of
  the child dereference no null context.
\<close>

theorem every_context_has_a_thread:
  assumes "pool_reachable hardware_concurrency tp" and "2 \<le> task_num" and "tp' = grow_pool tp task_num"
  shows "(\<forall>c \<in> set (tp_contexts tp'). \<exists>k. c = Some k \<and> (\<exists>!th. (th, k) \<in> set (tp_alive tp'))) \<and>
    (\<forall>(th, k) \<in> set (tp_alive tp'). Some k \<in> set (tp_contexts tp')) \<and> distinct (tp_contexts tp') \<and>
    length (tp_contexts tp') \<le> unat hardware_concurrency \<and> \<not> tp_exit_run tp' \<and>
    ClearThreadPool tp \<noteq> None \<and> ChildAfterFork (fork_child tp) \<noteq> None"
proof -
  note ok = pool_reachable_ok [OF assms(1)]
  show ?thesis
    using grow_pool_served [OF ok assms(2)] ClearThreadPool_ok [OF ok] ChildAfterFork_ok [OF ok] assms(3)
    by (auto simp: served_def tp_ok_def distinct_map)
qed

theorem every_context_has_a_thread_witness:
  "\<exists>tp. ClearThreadPool (grow_pool (ThreadPool0 4) 9) = Some tp \<and>
     (\<exists>!th. (th, 5) \<in> set (tp_alive (grow_pool tp 3))) \<and> \<not> tp_exit_run (grow_pool tp 3)"
proof -
  have g: "pool_reachable 4 (grow_pool (ThreadPool0 4) 9)" by (intro pool_reachable.intros) simp
  from ClearThreadPool_ok [OF pool_reachable_ok [OF g]] obtain tp where
    c: "ClearThreadPool (grow_pool (ThreadPool0 4) 9) = Some tp" by blast
  have "Some 5 \<in> set (tp_contexts (grow_pool (the (ClearThreadPool (grow_pool (ThreadPool0 4) 9))) 3))" by code_simp
  then have "Some 5 \<in> set (tp_contexts (grow_pool tp 3))" by (simp add: c)
  with every_context_has_a_thread [OF pool_reachable.cleared [OF g c], of 3] c show ?thesis by fastforce
qed

section \<open>The scheduling loop and the workers\<close>

definition kYieldThreshold :: nat where
  "kYieldThreshold = 1000"

text \<open>
  Where a worker is in \<open>SyncRunLoop\<close>: at the top of the loop with its \<open>yield_count\<close>, past the first test
  of \<open>exit_run_\<close>, before the lock of the context mutex, holding it before the test of the predicate,
  holding it after the test has failed, asleep in \<open>wait\<close>, notified and before the lock again, past the
  wait, in the task with the writes it still has to make, returned. \<open>Crashed\<close> is the worker that
  dereferences a null task.
\<close>

datatype 'w worker =
  Looping nat | Polling nat | Locking | Testing | Blocking | Asleep | Woken | Ready | Running "'w list" | Exited | Crashed

text \<open>The worker holds the mutex of its context.\<close>

fun holds_mutex :: "'w worker \<Rightarrow> bool" where
  "holds_mutex Testing = True"
| "holds_mutex Blocking = True"
| "holds_mutex _ = False"

text \<open>
  The next step of a worker outside its task: \<open>exit_run\<close> and \<open>task\<close> are what it reads, \<open>locked\<close> says
  that another thread holds the mutex. None: the worker cannot go on by itself.
\<close>

fun worker_next :: "bool \<Rightarrow> 'w list option \<Rightarrow> bool \<Rightarrow> 'w worker \<Rightarrow> 'w worker option" where
  "worker_next exit_run task locked (Looping yield_count) = Some (if exit_run then Exited else Polling yield_count)"
| "worker_next exit_run task locked (Polling yield_count) =
     Some (if task = None
           then (if kYieldThreshold < yield_count + 1 then Locking else Looping (yield_count + 1))
           else Ready)"
| "worker_next exit_run task locked Locking = (if locked then None else Some Testing)"
| "worker_next exit_run task locked Testing = Some (if task \<noteq> None \<or> exit_run then Ready else Blocking)"
| "worker_next exit_run task locked Blocking = Some Asleep"
| "worker_next exit_run task locked Asleep = None"
| "worker_next exit_run task locked Woken = (if locked then None else Some Testing)"
| "worker_next exit_run task locked Ready =
     Some (if exit_run then Exited else case task of None \<Rightarrow> Crashed | Some t \<Rightarrow> Running t)"
| "worker_next exit_run task locked (Running ws) = None"
| "worker_next exit_run task locked Exited = None"
| "worker_next exit_run task locked Crashed = None"

text \<open>\<open>notify_one\<close> on the condition variable of a context: its only waiter, if it sleeps, wakes up.\<close>

definition notify_one :: "'w worker \<Rightarrow> 'w worker" where
  "notify_one w = (if w = Asleep then Woken else w)"

text \<open>
  The main thread scans the contexts (\<open>scan\<close> is its \<open>i\<close>); to assign a task it takes the context mutex,
  stores the task, notifies and unlocks.
\<close>

datatype main_pc = Scanning | Acquiring | Setting | Notifying | Returned

record ('w, 's) sync_state =
  ctx_task :: "nat option list"
  workers :: "'w worker list"
  main_at :: main_pc
  task_index :: nat
  scan :: nat
  running :: bool
  memory :: 's

definition main_locks :: "('w, 's) sync_state \<Rightarrow> nat \<Rightarrow> bool" where
  "main_locks s i \<longleftrightarrow> main_at s \<in> {Setting, Notifying} \<and> scan s = i"

text \<open>
  One step of the main thread or of a worker; \<open>exit_run_\<close> is off during a run, since \<open>SyncRun\<close> holds
  the mutex of the pool. With \<open>spurious\<close> a sleeping worker may wake up without being notified.
\<close>

inductive pool_step ::
    "('w \<Rightarrow> 's \<Rightarrow> 's) \<Rightarrow> 'w list list \<Rightarrow> nat \<Rightarrow> bool \<Rightarrow> ('w, 's) sync_state \<Rightarrow> ('w, 's) sync_state \<Rightarrow> bool"
  for exec :: "'w \<Rightarrow> 's \<Rightarrow> 's" and tasks :: "'w list list" and used :: nat and spurious :: bool where
  main_busy:
    "\<lbrakk>main_at s = Scanning; scan s < used; ctx_task s ! scan s = Some t\<rbrakk>
     \<Longrightarrow> pool_step exec tasks used spurious s (s\<lparr>running := True, scan := scan s + 1\<rparr>)"
| main_assign:
    "\<lbrakk>main_at s = Scanning; scan s < used; ctx_task s ! scan s = None; task_index s < length tasks\<rbrakk>
     \<Longrightarrow> pool_step exec tasks used spurious s (s\<lparr>main_at := Acquiring\<rparr>)"
| main_acquire:
    "\<lbrakk>main_at s = Acquiring; \<not> holds_mutex (workers s ! scan s)\<rbrakk>
     \<Longrightarrow> pool_step exec tasks used spurious s (s\<lparr>main_at := Setting\<rparr>)"
| main_set:
    "main_at s = Setting
     \<Longrightarrow> pool_step exec tasks used spurious s
          (s\<lparr>ctx_task := (ctx_task s)[scan s := Some (task_index s)], main_at := Notifying\<rparr>)"
| main_notify:
    "main_at s = Notifying
     \<Longrightarrow> pool_step exec tasks used spurious s
          (s\<lparr>workers := (workers s)[scan s := notify_one (workers s ! scan s)], running := True,
             task_index := task_index s + 1, scan := scan s + 1, main_at := Scanning\<rparr>)"
| main_idle:
    "\<lbrakk>main_at s = Scanning; scan s < used; ctx_task s ! scan s = None; \<not> task_index s < length tasks\<rbrakk>
     \<Longrightarrow> pool_step exec tasks used spurious s (s\<lparr>scan := scan s + 1\<rparr>)"
| main_again:
    "\<lbrakk>main_at s = Scanning; \<not> scan s < used; running s\<rbrakk>
     \<Longrightarrow> pool_step exec tasks used spurious s (s\<lparr>running := False, scan := 0\<rparr>)"
| main_return:
    "\<lbrakk>main_at s = Scanning; \<not> scan s < used; \<not> running s\<rbrakk>
     \<Longrightarrow> pool_step exec tasks used spurious s (s\<lparr>main_at := Returned\<rparr>)"
| worker_go:
    "\<lbrakk>i < length (workers s);
      worker_next False (map_option (\<lambda>t. tasks ! t) (ctx_task s ! i)) (main_locks s i) (workers s ! i) = Some w\<rbrakk>
     \<Longrightarrow> pool_step exec tasks used spurious s (s\<lparr>workers := (workers s)[i := w]\<rparr>)"
| worker_write:
    "\<lbrakk>i < length (workers s); workers s ! i = Running (w # ws)\<rbrakk>
     \<Longrightarrow> pool_step exec tasks used spurious s
          (s\<lparr>workers := (workers s)[i := Running ws], memory := exec w (memory s)\<rparr>)"
| worker_done:
    "\<lbrakk>i < length (workers s); workers s ! i = Running []\<rbrakk>
     \<Longrightarrow> pool_step exec tasks used spurious s
          (s\<lparr>workers := (workers s)[i := Looping 0], ctx_task := (ctx_task s)[i := None]\<rparr>)"
| worker_spurious:
    "\<lbrakk>spurious; i < length (workers s); workers s ! i = Asleep\<rbrakk>
     \<Longrightarrow> pool_step exec tasks used spurious s (s\<lparr>workers := (workers s)[i := Woken]\<rparr>)"

abbreviation pool_steps where
  "pool_steps exec tasks used spurious \<equiv> (pool_step exec tasks used spurious)\<^sup>*\<^sup>*"

text \<open>A worker that has no task and is not about to read one.\<close>

fun idle :: "'w worker \<Rightarrow> bool" where
  "idle Ready = False"
| "idle (Running ws) = False"
| "idle Exited = False"
| "idle Crashed = False"
| "idle _ = True"

text \<open>
  The state when the scheduling loop starts: every slot is empty; the worker of a context that a
  living thread serves is somewhere in its polling or waiting, asleep or not; a context that no
  thread serves has nobody in its loop.
\<close>

definition attended :: "thread_pool \<Rightarrow> nat option \<Rightarrow> bool" where
  "attended tp c \<longleftrightarrow> (\<exists>(th, k) \<in> set (tp_alive tp). c = Some k)"

definition sync_start :: "thread_pool \<Rightarrow> 's \<Rightarrow> ('w, 's) sync_state \<Rightarrow> bool" where
  "sync_start tp mem s \<longleftrightarrow>
     ctx_task s = replicate (length (tp_contexts tp)) None \<and>
     list_all2 (\<lambda>c w. if attended tp c then idle w else w = Exited) (tp_contexts tp) (workers s) \<and>
     main_at s = Scanning \<and> task_index s = 0 \<and> scan s = 0 \<and> \<not> running s \<and> memory s = mem"

text \<open>
  \<open>SyncRun\<close> on the pool \<open>tp\<close>, from memory \<open>mem\<close> to memory \<open>mem'\<close> with the result \<open>ret\<close>: no task, one
  task run by the caller, no context to run a task, or the scheduling loop until it returns.
\<close>

inductive SyncRun ::
    "('w \<Rightarrow> 's \<Rightarrow> 's) \<Rightarrow> thread_pool \<Rightarrow> ('w list \<times> bool) list \<Rightarrow> 's \<Rightarrow> bool \<Rightarrow> 's \<Rightarrow> bool"
  for exec :: "'w \<Rightarrow> 's \<Rightarrow> 's" and tp :: thread_pool where
  no_tasks: "SyncRun exec tp [] mem True mem"
| one_task: "SyncRun exec tp [(t, success)] mem success (fold exec t mem)"
| no_contexts:
    "\<lbrakk>2 \<le> length tasks; tp_contexts (grow_pool tp (length tasks)) = []\<rbrakk>
     \<Longrightarrow> SyncRun exec tp tasks mem True mem"
| scheduled:
    "\<lbrakk>2 \<le> length tasks; tp' = grow_pool tp (length tasks); tp_contexts tp' \<noteq> []; sync_start tp' mem s0;
      pool_steps exec (map fst tasks) (used_threads (length (tp_contexts tp')) (length tasks)) True s0 s;
      main_at s = Returned\<rbrakk>
     \<Longrightarrow> SyncRun exec tp tasks mem True (memory s)"

section \<open>Invariant of a run\<close>

text \<open>
  The writes that are still to be made: by a running worker, of an assigned task, of the tasks not
  yet assigned. The main thread counts a task as assigned after it has notified the worker.
\<close>

fun slot_rest :: "'w list list \<Rightarrow> nat option \<Rightarrow> 'w worker \<Rightarrow> 'w list" where
  "slot_rest tasks _ (Running ws) = ws"
| "slot_rest tasks (Some t) _ = tasks ! t"
| "slot_rest tasks None _ = []"

definition next_task :: "('w, 's) sync_state \<Rightarrow> nat" where
  "next_task s = (if main_at s = Notifying then task_index s + 1 else task_index s)"

definition rest :: "'w list list \<Rightarrow> ('w, 's) sync_state \<Rightarrow> 'w list" where
  "rest tasks s = concat (map2 (slot_rest tasks) (ctx_task s) (workers s)) @ concat (drop (next_task s) tasks)"

text \<open>
  A worker and its slot: with an empty slot the worker is idle, and does not hold the mutex while the
  main thread does. With a filled slot it is never between a failed test and its sleep, and it sleeps
  only while the main thread is about to notify it.
\<close>

fun slot_ok :: "bool \<Rightarrow> bool \<Rightarrow> nat option \<Rightarrow> 'w worker \<Rightarrow> bool" where
  "slot_ok setting notifying None w \<longleftrightarrow> idle w \<and> (setting \<longrightarrow> \<not> holds_mutex w)"
| "slot_ok setting notifying (Some t) w \<longleftrightarrow>
     w \<noteq> Exited \<and> w \<noteq> Crashed \<and> w \<noteq> Blocking \<and> (w = Asleep \<longrightarrow> notifying) \<and> (notifying \<longrightarrow> \<not> holds_mutex w)"

abbreviation slot_at :: "('w, 's) sync_state \<Rightarrow> nat \<Rightarrow> bool" where
  "slot_at s i \<equiv> slot_ok (main_at s = Setting \<and> scan s = i) (main_at s = Notifying \<and> scan s = i) (ctx_task s ! i) (workers s ! i)"

text \<open>
  The slots from the number of used threads on are empty; when the scan has found nothing running,
  the slots before it are empty and every task is assigned.
\<close>

definition sync_inv :: "'w list list \<Rightarrow> nat \<Rightarrow> ('w, 's) sync_state \<Rightarrow> bool" where
  "sync_inv tasks used s \<longleftrightarrow>
     length (workers s) = length (ctx_task s) \<and> used \<le> length (ctx_task s) \<and> scan s \<le> used \<and>
     (\<forall>i < length (ctx_task s). slot_at s i) \<and>
     (\<forall>i < length (ctx_task s). used \<le> i \<longrightarrow> ctx_task s ! i = None) \<and>
     (\<forall>i < scan s. \<not> running s \<longrightarrow> ctx_task s ! i = None \<and> length tasks \<le> task_index s) \<and>
     (main_at s \<in> {Acquiring, Setting, Notifying} \<longrightarrow> scan s < used \<and> task_index s < length tasks) \<and>
     (main_at s \<in> {Acquiring, Setting} \<longrightarrow> ctx_task s ! scan s = None) \<and>
     (main_at s = Returned \<longrightarrow> scan s = used \<and> \<not> running s)"

lemma sync_inv_slot: "sync_inv tasks used s \<Longrightarrow> i < length (workers s) \<Longrightarrow> slot_at s i"
  unfolding sync_inv_def by metis

lemma sync_inv_memory [simp]: "sync_inv tasks used (s\<lparr>memory := mem\<rparr>) = sync_inv tasks used s"
  by (simp add: sync_inv_def)

lemma sync_inv_worker:
  assumes "sync_inv tasks used s" "i < length (workers s)"
    "slot_ok (main_at s = Setting \<and> scan s = i) (main_at s = Notifying \<and> scan s = i) (ctx_task s ! i) w"
  shows "sync_inv tasks used (s\<lparr>workers := (workers s)[i := w]\<rparr>)"
  using assms unfolding sync_inv_def by (simp add: nth_list_update)

lemma sync_inv_empty:
  assumes "sync_inv tasks used s" "i < length (workers s)" "main_at s = Setting \<longrightarrow> scan s \<noteq> i"
  shows "sync_inv tasks used (s\<lparr>workers := (workers s)[i := Looping 0], ctx_task := (ctx_task s)[i := None]\<rparr>)"
  using assms unfolding sync_inv_def by (auto simp: nth_list_update)

lemma worker_next_ok:
  assumes "slot_ok st nt task w" "worker_next False (map_option f task) (st \<or> nt) w = Some w'" "task \<noteq> None \<longrightarrow> \<not> st"
  shows "slot_ok st nt task w'"
  using assms by (cases w; cases task) (auto split: if_splits)

lemma main_locks_at: "main_locks s i \<longleftrightarrow> (main_at s = Setting \<and> scan s = i) \<or> (main_at s = Notifying \<and> scan s = i)"
  by (auto simp: main_locks_def)

lemma sync_inv_step:
  assumes "pool_step exec tasks used sp s s'" "sync_inv tasks used s"
  shows "sync_inv tasks used s'"
  using assms(1)
proof cases
  case main_acquire
  have "slot_ok (scan s = i) False (ctx_task s ! i) (workers s ! i)" if "i < length (workers s)" for i
    using sync_inv_slot [OF assms(2) that] main_acquire by (cases "ctx_task s ! i") auto
  then show ?thesis using main_acquire assms(2) by (auto simp: sync_inv_def)
next
  case main_set
  then have "scan s < length (workers s)" "ctx_task s ! scan s = None" using assms(2) by (auto simp: sync_inv_def)
  with sync_inv_slot [OF assms(2)] have "slot_at s (scan s)" "ctx_task s ! scan s = None" by blast+
  with main_set have "\<not> holds_mutex (workers s ! scan s)" "idle (workers s ! scan s)" by auto
  then show ?thesis using main_set assms(2)
    by (auto simp: sync_inv_def nth_list_update elim: idle.elims)
next
  case main_notify
  then have i: "scan s < length (workers s)" using assms(2) by (auto simp: sync_inv_def)
  with sync_inv_slot [OF assms(2)] have "slot_ok False True (ctx_task s ! scan s) (workers s ! scan s)"
    using main_notify by fastforce
  then have "slot_ok False False (ctx_task s ! scan s) (notify_one (workers s ! scan s))"
    by (cases "ctx_task s ! scan s") (auto simp: notify_one_def)
  then show ?thesis using main_notify assms(2)
    by (auto simp: sync_inv_def nth_list_update less_Suc_eq)
next
  case (worker_go i w)
  have "slot_at s i" using worker_go sync_inv_slot [OF assms(2)] by blast
  then have "slot_ok (main_at s = Setting \<and> scan s = i) (main_at s = Notifying \<and> scan s = i) (ctx_task s ! i) w"
    using worker_go(3) unfolding main_locks_at
  proof (rule worker_next_ok [where f = "\<lambda>t. tasks ! t"])
    show "ctx_task s ! i \<noteq> None \<longrightarrow> \<not> (main_at s = Setting \<and> scan s = i)" using assms(2) by (auto simp: sync_inv_def)
  qed
  from sync_inv_worker [OF assms(2) worker_go(2) this] show ?thesis unfolding worker_go by simp
next
  case (worker_done i)
  have "slot_at s i" using worker_done sync_inv_slot [OF assms(2)] by blast
  then have "ctx_task s ! i \<noteq> None" using worker_done by (cases "ctx_task s ! i") auto
  then have "\<not> (main_at s = Setting \<and> scan s = i)" using assms(2) by (auto simp: sync_inv_def)
  then show ?thesis unfolding worker_done by (intro sync_inv_empty [OF assms(2) worker_done(2)]) simp
next
  case (worker_write i w ws)
  have "slot_at s i" using worker_write sync_inv_slot [OF assms(2)] by blast
  then have "slot_ok (main_at s = Setting \<and> scan s = i) (main_at s = Notifying \<and> scan s = i) (ctx_task s ! i) (Running ws)"
    using worker_write by (cases "ctx_task s ! i") auto
  from sync_inv_worker [OF assms(2) worker_write(2) this] show ?thesis unfolding worker_write by simp
next
  case (worker_spurious i)
  have "slot_at s i" using worker_spurious sync_inv_slot [OF assms(2)] by blast
  then have "slot_ok (main_at s = Setting \<and> scan s = i) (main_at s = Notifying \<and> scan s = i) (ctx_task s ! i) Woken"
    using worker_spurious by (cases "ctx_task s ! i") auto
  from sync_inv_worker [OF assms(2) worker_spurious(3) this] show ?thesis unfolding worker_spurious by simp
qed (use assms(2) in \<open>auto simp: sync_inv_def less_Suc_eq\<close>)

lemma sync_inv_steps: "pool_steps exec tasks used sp s s' \<Longrightarrow> sync_inv tasks used s \<Longrightarrow> sync_inv tasks used s'"
  by (induction rule: rtranclp_induct) (auto intro: sync_inv_step)

lemma served_attended:
  assumes "served tp" "i < length (tp_contexts tp)"
  shows "attended tp (tp_contexts tp ! i)"
  using assms by (force simp: served_def attended_def)

lemma sync_start_inv:
  assumes "served tp" "sync_start tp mem s" "used \<le> length (tp_contexts tp)"
  shows "sync_inv tasks used s"
proof -
  have w: "list_all2 (\<lambda>c w. if attended tp c then idle w else w = Exited) (tp_contexts tp) (workers s)"
    using assms(2) by (simp add: sync_start_def)
  have "idle (workers s ! i)" if "i < length (tp_contexts tp)" for i
    using list_all2_nthD [OF w that] served_attended [OF assms(1) that] by simp
  with list_all2_lengthD [OF w] assms(2,3) show ?thesis by (auto simp: sync_inv_def sync_start_def)
qed

text \<open>At the return nothing is left to do, and every worker is ready for the next run.\<close>

lemma returned_slots:
  assumes "sync_inv tasks used s" "main_at s = Returned" "0 < used" "i < length (ctx_task s)"
  shows "ctx_task s ! i = None \<and> idle (workers s ! i)"
proof -
  have c: "ctx_task s ! i = None" using assms unfolding sync_inv_def by (metis not_le)
  have "slot_at s i" using assms by (intro sync_inv_slot [OF assms(1)]) (simp add: sync_inv_def)
  with c show ?thesis by simp
qed

lemma slot_rest_idle [simp]: "idle w \<Longrightarrow> slot_rest tasks None w = []"
  by (cases w) simp_all

lemma returned_rest:
  assumes "sync_inv tasks used s" "main_at s = Returned" "0 < used"
  shows "rest tasks s = []"
proof -
  have "length tasks \<le> task_index s" using assms unfolding sync_inv_def by blast
  moreover have "length (workers s) = length (ctx_task s)" using assms by (simp add: sync_inv_def)
  ultimately show ?thesis
    using returned_slots [OF assms] assms(2) by (auto simp: rest_def in_set_zip next_task_def)
qed

section \<open>The work is done once\<close>

lemma slots_update:
  assumes "i < length xs" "length ys = length xs"
  shows "mset (concat (map2 f (xs[i := x]) (ys[i := y]))) + mset (f (xs ! i) (ys ! i))
    = mset (concat (map2 f xs ys)) + mset (f x y)"
  using assms
proof (induction xs arbitrary: i ys)
  case (Cons a xs)
  then show ?case by (cases ys; cases i) (auto simp: ac_simps)
qed simp

lemma slot_same:
  assumes "i < length xs" "length ys = length xs" "f x y = f (xs ! i) (ys ! i)"
  shows "mset (concat (map2 f (xs[i := x]) (ys[i := y]))) = mset (concat (map2 f xs ys))"
  using slots_update [OF assms(1,2), of f x y] assms(3) by simp

lemma worker_same:
  assumes "i < length ys" "length ys = length xs" "f (xs ! i) y = f (xs ! i) (ys ! i)"
  shows "mset (concat (map2 f xs (ys[i := y]))) = mset (concat (map2 f xs ys))"
  using slot_same [of i xs ys f "xs ! i" y] assms by simp

lemma slot_rest_next:
  assumes "worker_next False (map_option (\<lambda>t. tasks ! t) task) locked w = Some w'" "slot_ok st nt task w"
  shows "slot_rest tasks task w' = slot_rest tasks task w"
  using assms by (cases w; cases task) (auto split: if_splits)

text \<open>A step makes at most one write, and it is one of those still to be made.\<close>

lemma rest_step:
  assumes "pool_step exec tasks used sp s s'" "sync_inv tasks used s"
  shows "(mset (rest tasks s') = mset (rest tasks s) \<and> memory s' = memory s) \<or>
    (\<exists>w. mset (rest tasks s) = add_mset w (mset (rest tasks s')) \<and> memory s' = exec w (memory s))"
proof -
  have len: "length (workers s) = length (ctx_task s)" using assms(2) by (simp add: sync_inv_def)
  from assms(1) show ?thesis
  proof cases
    case main_set
    then have i: "scan s < length (ctx_task s)" "ctx_task s ! scan s = None" "task_index s < length tasks"
      using assms(2) by (auto simp: sync_inv_def)
    have "idle (workers s ! scan s)" using sync_inv_slot [OF assms(2), of "scan s"] i len by simp
    then have r: "slot_rest tasks (Some (task_index s)) (workers s ! scan s) = tasks ! task_index s"
        "slot_rest tasks (ctx_task s ! scan s) (workers s ! scan s) = []"
      using i by (cases "workers s ! scan s"; simp)+
    have "mset (concat (map2 (slot_rest tasks) ((ctx_task s)[scan s := Some (task_index s)]) (workers s)))
        = mset (concat (map2 (slot_rest tasks) (ctx_task s) (workers s))) + mset (tasks ! task_index s)"
      using slots_update [OF i(1) len, of "slot_rest tasks" "Some (task_index s)" "workers s ! scan s"] r by simp
    then show ?thesis using main_set i by (auto simp: rest_def next_task_def Cons_nth_drop_Suc [symmetric])
  next
    case main_notify
    then have i: "scan s < length (workers s)" using assms(2) len by (auto simp: sync_inv_def)
    have "slot_rest tasks (ctx_task s ! scan s) (notify_one (workers s ! scan s)) = slot_rest tasks (ctx_task s ! scan s) (workers s ! scan s)"
      by (cases "ctx_task s ! scan s") (auto simp: notify_one_def)
    from worker_same [where f = "slot_rest tasks", OF i len this] main_notify show ?thesis by (auto simp: rest_def next_task_def)
  next
    case (worker_go i w)
    have "slot_rest tasks (ctx_task s ! i) w = slot_rest tasks (ctx_task s ! i) (workers s ! i)"
      using slot_rest_next [OF worker_go(3) sync_inv_slot [OF assms(2) worker_go(2)]] .
    from worker_same [where f = "slot_rest tasks", OF worker_go(2) len this] worker_go show ?thesis by (auto simp: rest_def next_task_def)
  next
    case (worker_write i w ws)
    have "add_mset w (mset (concat (map2 (slot_rest tasks) (ctx_task s) ((workers s)[i := Running ws]))))
        = mset (concat (map2 (slot_rest tasks) (ctx_task s) (workers s)))"
      using slots_update [of i "ctx_task s" "workers s" "slot_rest tasks" "ctx_task s ! i" "Running ws"]
        worker_write len by simp
    then show ?thesis using worker_write by (intro disjI2 exI [of _ w]) (simp add: rest_def next_task_def)
  next
    case (worker_done i)
    have "mset (concat (map2 (slot_rest tasks) ((ctx_task s)[i := None]) ((workers s)[i := Looping 0])))
        = mset (concat (map2 (slot_rest tasks) (ctx_task s) (workers s)))"
      using worker_done len by (intro slot_same) auto
    then show ?thesis using worker_done by (auto simp: rest_def next_task_def)
  next
    case (worker_spurious i)
    have "slot_rest tasks (ctx_task s ! i) Woken = slot_rest tasks (ctx_task s ! i) (workers s ! i)"
      using worker_spurious by (cases "ctx_task s ! i") auto
    from worker_same [where f = "slot_rest tasks", OF worker_spurious(3) len this] worker_spurious show ?thesis by (auto simp: rest_def next_task_def)
  qed (auto simp: rest_def next_task_def)
qed

text \<open>
  Tasks whose writes commute. The memory after the writes still to be made is the same at every
  moment of the run.
\<close>

definition commuting :: "('w \<Rightarrow> 's \<Rightarrow> 's) \<Rightarrow> 'w list \<Rightarrow> bool" where
  "commuting exec ws \<longleftrightarrow> (\<forall>x \<in> set ws. \<forall>y \<in> set ws. exec x \<circ> exec y = exec y \<circ> exec x)"

lemma commuting_fold: "commuting exec xs \<Longrightarrow> mset xs = mset ys \<Longrightarrow> fold exec xs = fold exec ys"
  by (rule fold_multiset_equiv) (auto simp: commuting_def)

lemma commuting_subset: "commuting exec ys \<Longrightarrow> set xs \<subseteq> set ys \<Longrightarrow> commuting exec xs"
  by (auto simp: commuting_def)

lemma work_step:
  assumes "pool_step exec tasks used sp s s'" "sync_inv tasks used s" "commuting exec (rest tasks s)"
  shows "commuting exec (rest tasks s') \<and>
    fold exec (rest tasks s') (memory s') = fold exec (rest tasks s) (memory s)"
  using rest_step [OF assms(1,2)]
proof (elim disjE exE conjE)
  assume *: "mset (rest tasks s') = mset (rest tasks s)" "memory s' = memory s"
  then show ?thesis
    using assms(3) commuting_fold [of exec "rest tasks s'" "rest tasks s"]
      commuting_subset [of exec "rest tasks s" "rest tasks s'"] mset_eq_setD [OF *(1)] by simp
next
  fix w
  assume *: "mset (rest tasks s) = add_mset w (mset (rest tasks s'))" "memory s' = exec w (memory s)"
  then have "mset (rest tasks s) = mset (w # rest tasks s')" by simp
  then have "fold exec (rest tasks s) = fold exec (w # rest tasks s')" "set (rest tasks s) = set (w # rest tasks s')"
    using assms(3) commuting_fold mset_eq_setD by blast+
  then show ?thesis using * commuting_subset [OF assms(3), of "rest tasks s'"] by auto
qed

lemma work_steps:
  assumes "pool_steps exec tasks used sp s s'" "sync_inv tasks used s" "commuting exec (rest tasks s)"
  shows "commuting exec (rest tasks s') \<and>
    fold exec (rest tasks s') (memory s') = fold exec (rest tasks s) (memory s)"
  using assms(1)
proof (induction rule: rtranclp_induct)
  case (step y z)
  then show ?case using work_step [OF step(2)] sync_inv_steps [OF step(1) assms(2)] by simp
qed (use assms(3) in simp)

lemma rest_start:
  assumes "served tp" "sync_start tp mem s"
  shows "rest tasks s = concat tasks"
proof -
  have inv: "sync_inv tasks 0 s" using sync_start_inv [OF assms, of 0] by simp
  have "slot_rest tasks (ctx_task s ! i) (workers s ! i) = []" if "i < length (ctx_task s)" for i
  proof -
    have "ctx_task s ! i = None" using inv that by (simp add: sync_inv_def)
    moreover have "i < length (workers s)" using inv that by (simp add: sync_inv_def)
    ultimately show ?thesis using sync_inv_slot [OF inv, of i] by simp
  qed
  then have "concat (map2 (slot_rest tasks) (ctx_task s) (workers s)) = []" by (auto simp: in_set_zip)
  then show ?thesis using assms(2) by (simp add: rest_def sync_start_def next_task_def del: concat_eq_Nil_conv)
qed

lemma SyncRun_sequential:
  assumes "SyncRun exec tp tasks mem ret mem'" "pool_reachable h tp" "length tasks \<le> 1 \<or> 0 < h"
    "commuting exec (concat (map fst tasks))"
  shows "mem' = fold exec (concat (map fst tasks)) mem \<and> ret = (length tasks = 1 \<longrightarrow> snd (hd tasks))"
  using assms(1)
proof cases
  case no_contexts
  then show ?thesis using grow_pool_served [OF pool_reachable_ok [OF assms(2)], of "length tasks"] assms(3) by auto
next
  case (scheduled tp' s0 s)
  let ?u = "used_threads (length (tp_contexts tp')) (length tasks)"
  have sv: "served tp'" using grow_pool_served [OF pool_reachable_ok [OF assms(2)], of "length tasks"] scheduled by simp
  have u: "?u \<le> length (tp_contexts tp')" "0 < ?u" using scheduled by (auto simp: used_threads_def)
  note start = sync_start_inv [OF sv scheduled(6) u(1), of "map fst tasks"]
  have inv: "sync_inv (map fst tasks) ?u s" using sync_inv_steps [OF scheduled(7) start] .
  have "fold exec (rest (map fst tasks) s) (memory s) = fold exec (concat (map fst tasks)) (memory s0)"
    using work_steps [OF scheduled(7) start] rest_start [OF sv scheduled(6)] assms(4) by simp
  moreover have "memory s0 = mem" using scheduled(6) by (simp add: sync_start_def)
  ultimately show ?thesis using returned_rest [OF inv scheduled(8) u(2)] scheduled by simp
qed simp_all

section \<open>The loop can always finish\<close>

text \<open>A worker with a filled slot that is not asleep comes to run the task, by itself.\<close>

lemma worker_go_step:
  assumes "i < length (workers s)" "ctx_task s ! i = task" "\<not> main_locks s i" "workers s ! i = w"
    "worker_next False (map_option (\<lambda>t. tasks ! t) task) False w = Some w'"
  shows "pool_step exec tasks used sp s (s\<lparr>workers := (workers s)[i := w']\<rparr>)"
  using assms by (intro worker_go) simp_all

lemma worker_path:
  assumes "(\<lambda>w w'. worker_next False (map_option (\<lambda>t. tasks ! t) task) False w = Some w')\<^sup>*\<^sup>* w w'"
    "i < length (workers s)" "ctx_task s ! i = task" "\<not> main_locks s i" "workers s ! i = w"
  shows "pool_steps exec tasks used sp s (s\<lparr>workers := (workers s)[i := w']\<rparr>)"
  using assms(1)
proof (induction rule: rtranclp_induct)
  case base
  then have "s\<lparr>workers := (workers s)[i := w]\<rparr> = s" using assms(5) by (metis list_update_id sync_state.surjective sync_state.update_convs(2))
  then show ?case by simp
next
  case (step y z)
  have "pool_step exec tasks used sp (s\<lparr>workers := (workers s)[i := y]\<rparr>)
      (s\<lparr>workers := (workers s)[i := y], workers := (workers (s\<lparr>workers := (workers s)[i := y]\<rparr>))[i := z]\<rparr>)"
    using assms(2-4) step(2) by (intro worker_go_step) (auto simp: main_locks_def)
  then show ?case using step(3) by simp
qed

lemma to_running:
  assumes "slot_ok False False (Some t) w"
  shows "\<exists>ws. (\<lambda>w w'. worker_next False (map_option (\<lambda>t. tasks ! t) (Some t)) False w = Some w')\<^sup>*\<^sup>* w (Running ws)"
    (is "\<exists>ws. ?R\<^sup>*\<^sup>* w (Running ws)")
proof -
  have r: "?R\<^sup>*\<^sup>* Ready (Running (tasks ! t))" by (intro r_into_rtranclp) simp
  have te: "?R\<^sup>*\<^sup>* Testing (Running (tasks ! t))" by (rule converse_rtranclp_into_rtranclp [OF _ r]) simp
  have lo: "?R\<^sup>*\<^sup>* Locking (Running (tasks ! t))" by (rule converse_rtranclp_into_rtranclp [OF _ te]) simp
  have wo: "?R\<^sup>*\<^sup>* Woken (Running (tasks ! t))" by (rule converse_rtranclp_into_rtranclp [OF _ te]) simp
  have po: "?R\<^sup>*\<^sup>* (Polling k) (Running (tasks ! t))" for k by (rule converse_rtranclp_into_rtranclp [OF _ r]) simp
  have lp: "?R\<^sup>*\<^sup>* (Looping k) (Running (tasks ! t))" for k by (rule converse_rtranclp_into_rtranclp [OF _ po [of k]]) simp
  show ?thesis using assms r te lo wo po lp by (cases w) auto
qed

lemma run_writes:
  "i < length (workers s) \<Longrightarrow> workers s ! i = Running ws \<Longrightarrow>
   pool_steps exec tasks used sp s
     (s\<lparr>workers := (workers s)[i := Running []], memory := fold exec ws (memory s)\<rparr>)"
proof (induction ws arbitrary: s)
  case Nil
  then have "(workers s)[i := Running []] = workers s" by (metis list_update_id)
  then have "s\<lparr>workers := (workers s)[i := Running []], memory := fold exec [] (memory s)\<rparr> = s" by simp
  then show ?case by (metis rtranclp.rtrancl_refl)
next
  case (Cons w ws)
  let ?s = "s\<lparr>workers := (workers s)[i := Running ws], memory := exec w (memory s)\<rparr>"
  have "pool_steps exec tasks used sp ?s (s\<lparr>workers := (workers s)[i := Running []], memory := fold exec (w # ws) (memory s)\<rparr>)"
    using Cons.IH [of ?s] Cons.prems by simp
  with worker_write [OF Cons.prems, of exec tasks used] show ?case by (rule converse_rtranclp_into_rtranclp)
qed

lemma run_slot:
  assumes "sync_inv tasks used s" "main_at s \<notin> {Setting, Notifying}" "i < length (workers s)" "ctx_task s ! i = Some t"
  shows "\<exists>mem. pool_steps exec tasks used sp s
     (s\<lparr>workers := (workers s)[i := Looping 0], ctx_task := (ctx_task s)[i := None], memory := mem\<rparr>)"
proof -
  have "slot_ok False False (Some t) (workers s ! i)"
    using sync_inv_slot [OF assms(1,3)] assms(2,4) by simp
  from to_running [OF this, where tasks = tasks] obtain ws where
    p: "(\<lambda>w w'. worker_next False (map_option (\<lambda>t. tasks ! t) (Some t)) False w = Some w')\<^sup>*\<^sup>* (workers s ! i) (Running ws)" by blast
  let ?a = "s\<lparr>workers := (workers s)[i := Running ws]\<rparr>"
  let ?b = "s\<lparr>workers := (workers s)[i := Running []], memory := fold exec ws (memory s)\<rparr>"
  have 1: "pool_steps exec tasks used sp s ?a"
    using assms(2) by (intro worker_path [OF p assms(3,4)]) (auto simp: main_locks_def)
  have 2: "pool_steps exec tasks used sp ?a ?b"
    using run_writes [of i ?a ws exec tasks used sp] assms(3) by simp
  have "pool_step exec tasks used sp ?b (?b\<lparr>workers := (workers ?b)[i := Looping 0], ctx_task := (ctx_task ?b)[i := None]\<rparr>)"
    using assms(3) by (intro worker_done) simp_all
  from rtranclp.rtrancl_into_rtrancl [OF rtranclp_trans [OF 1 2] this]
  show ?thesis by (intro exI [of _ "fold exec ws (memory s)"]) (cases s, simp)
qed

definition main_part :: "('w, 's) sync_state \<Rightarrow> main_pc \<times> nat \<times> nat \<times> bool" where
  "main_part s = (main_at s, task_index s, scan s, running s)"

lemma filter_none_less:
  "i < length xs \<Longrightarrow> xs ! i = Some t \<Longrightarrow>
   length (filter (\<lambda>c. c \<noteq> None) (xs[i := None])) < length (filter (\<lambda>c. c \<noteq> None) xs)"
proof (induction xs arbitrary: i)
  case (Cons x xs)
  then show ?case by (cases i) auto
qed simp

lemma run_all_slots:
  assumes "sync_inv tasks used s" "main_at s = Scanning"
  shows "\<exists>s'. pool_steps exec tasks used sp s s' \<and> main_part s' = main_part s \<and> (\<forall>i < length (ctx_task s'). ctx_task s' ! i = None)"
  using assms
proof (induction "length (filter (\<lambda>c. c \<noteq> None) (ctx_task s))" arbitrary: s rule: less_induct)
  case less
  show ?case
  proof (cases "\<forall>i < length (ctx_task s). ctx_task s ! i = None")
    case True
    then show ?thesis by blast
  next
    case False
    then obtain i t where i: "i < length (ctx_task s)" "ctx_task s ! i = Some t" by auto
    then have iw: "i < length (workers s)" using less.prems by (simp add: sync_inv_def)
    obtain mem where st: "pool_steps exec tasks used sp s
       (s\<lparr>workers := (workers s)[i := Looping 0], ctx_task := (ctx_task s)[i := None], memory := mem\<rparr>)" (is "pool_steps _ _ _ _ _ ?s")
      using run_slot [OF less.prems(1) _ iw i(2)] less.prems(2) by auto
    have "length (filter (\<lambda>c. c \<noteq> None) ((ctx_task s)[i := None])) < length (filter (\<lambda>c. c \<noteq> None) (ctx_task s))"
      by (rule filter_none_less [OF i])
    then obtain s' where "pool_steps exec tasks used sp ?s s'" "main_part s' = main_part s"
        "\<forall>i < length (ctx_task s'). ctx_task s' ! i = None"
      using less.hyps [of ?s] sync_inv_steps [OF st less.prems(1)] less.prems(2) by (auto simp: main_part_def)
    with st show ?thesis by (meson rtranclp_trans)
  qed
qed

text \<open>
  The main thread completes an assignment that it has begun: a worker that holds the mutex goes to
  sleep and releases it.
\<close>

lemma release_mutex:
  assumes "sync_inv tasks used s" "main_at s = Acquiring"
  shows "\<exists>s'. pool_steps exec tasks used sp s s' \<and> main_part s' = main_part s \<and> \<not> holds_mutex (workers s' ! scan s')"
proof -
  have i: "scan s < length (workers s)" "ctx_task s ! scan s = None" using assms by (auto simp: sync_inv_def)
  let ?R = "\<lambda>w w'. worker_next False (map_option (\<lambda>t. tasks ! t) None) False w = Some w'"
  have b: "?R\<^sup>*\<^sup>* Blocking Asleep" by (intro r_into_rtranclp) simp
  have "?R\<^sup>*\<^sup>* Testing Asleep" by (rule converse_rtranclp_into_rtranclp [OF _ b]) simp
  with b have "\<exists>w. ?R\<^sup>*\<^sup>* (workers s ! scan s) w \<and> \<not> holds_mutex w"
    by (cases "holds_mutex (workers s ! scan s)") (auto elim!: holds_mutex.elims)
  then obtain w where w: "?R\<^sup>*\<^sup>* (workers s ! scan s) w" "\<not> holds_mutex w" by blast
  have "pool_steps exec tasks used sp s (s\<lparr>workers := (workers s)[scan s := w]\<rparr>)"
    using assms(2) by (intro worker_path [OF w(1) i]) (auto simp: main_locks_def)
  then show ?thesis using w(2) i by (intro exI [of _ "s\<lparr>workers := (workers s)[scan s := w]\<rparr>"]) (simp add: main_part_def)
qed

lemma finish_notify:
  assumes "main_at s = Notifying"
  shows "\<exists>s'. pool_steps exec tasks used sp s s' \<and> main_at s' = Scanning \<and> task_index s' = Suc (task_index s)"
  using main_notify [OF assms, of exec tasks used sp] by (intro exI conjI, rule r_into_rtranclp) auto

lemma finish_set:
  assumes "main_at s = Setting"
  shows "\<exists>s'. pool_steps exec tasks used sp s s' \<and> main_at s' = Scanning \<and> task_index s' = Suc (task_index s)"
proof -
  let ?s = "s\<lparr>ctx_task := (ctx_task s)[scan s := Some (task_index s)], main_at := Notifying\<rparr>"
  obtain s' where "pool_steps exec tasks used sp ?s s'" "main_at s' = Scanning" "task_index s' = Suc (task_index s)"
    using finish_notify [of ?s exec tasks used sp] by auto
  with main_set [OF assms, of exec tasks used sp] show ?thesis by (blast intro: converse_rtranclp_into_rtranclp)
qed

lemma finish_assign:
  assumes "sync_inv tasks used s" "main_at s \<in> {Acquiring, Setting, Notifying}"
  shows "\<exists>s'. pool_steps exec tasks used sp s s' \<and> main_at s' = Scanning \<and> task_index s' = Suc (task_index s)"
proof (cases "main_at s = Acquiring")
  case True
  from release_mutex [OF assms(1) True, of exec sp] obtain s1 where
    s1: "pool_steps exec tasks used sp s s1" "main_part s1 = main_part s" "\<not> holds_mutex (workers s1 ! scan s1)" by blast
  have "pool_step exec tasks used sp s1 (s1\<lparr>main_at := Setting\<rparr>)"
    using s1 True by (intro main_acquire) (auto simp: main_part_def)
  moreover obtain s' where "pool_steps exec tasks used sp (s1\<lparr>main_at := Setting\<rparr>) s'" "main_at s' = Scanning"
      "task_index s' = Suc (task_index s1)"
    using finish_set [of "s1\<lparr>main_at := Setting\<rparr>" exec tasks used sp] by auto
  ultimately have "pool_steps exec tasks used sp s1 s'" "main_at s' = Scanning" "task_index s' = Suc (task_index s)"
    using s1(2) by (auto simp: main_part_def intro: converse_rtranclp_into_rtranclp)
  then show ?thesis using s1(1) by (blast intro: rtranclp_trans)
next
  case False
  then show ?thesis using assms(2) finish_set [of s exec tasks used sp] finish_notify [of s exec tasks used sp] by auto
qed

text \<open>From every state of a run the main thread can come to return, without a spurious wake-up.\<close>

lemma can_return:
  assumes "sync_inv tasks used s"
  shows "\<exists>s'. pool_steps exec tasks used sp s s' \<and> main_at s' = Returned"
  using assms
proof (induction s rule: wf_induct [OF wf_measures [of
      "[\<lambda>s. length tasks - task_index s, \<lambda>s. if running s then 1 else 0, \<lambda>s. used - scan s]"]])
  case (1 s)
  have later: ?case if "pool_steps exec tasks used sp s s2" "(s2, s) \<in> measures [\<lambda>s. length tasks - task_index s,
      \<lambda>s. if running s then 1 else 0, \<lambda>s. used - scan s]" for s2
    using 1(1) that sync_inv_steps [OF that(1) 1(2)] by (blast intro: rtranclp_trans)
  have assign: ?case if "pool_steps exec tasks used sp s s1" "main_at s1 \<in> {Acquiring, Setting, Notifying}"
      "task_index s1 = task_index s" for s1
  proof -
    have inv: "sync_inv tasks used s1" using sync_inv_steps [OF that(1) 1(2)] .
    from finish_assign [OF inv that(2), of exec sp] obtain s2 where
      s2: "pool_steps exec tasks used sp s1 s2" "task_index s2 = Suc (task_index s1)" by blast
    have "task_index s1 < length tasks" using inv that(2) by (auto simp: sync_inv_def)
    then have "length tasks - task_index s2 < length tasks - task_index s" using s2(2) that(3) by linarith
    then show ?thesis by (intro later [OF rtranclp_trans [OF that(1) s2(1)]]) simp
  qed
  show ?case
  proof (cases "main_at s = Scanning")
    case False
    then show ?thesis using assign [of s] by (cases "main_at s") auto
  next
    case True
    obtain s1 where st: "pool_steps exec tasks used sp s s1" and main: "main_part s1 = main_part s"
      and empty: "\<forall>i < length (ctx_task s1). ctx_task s1 ! i = None"
      using run_all_slots [OF 1(2) True] by blast
    have inv: "sync_inv tasks used s1" using sync_inv_steps [OF st 1(2)] .
    have m: "main_at s1 = Scanning" "task_index s1 = task_index s" "scan s1 = scan s" "running s1 = running s"
      using main True by (simp_all add: main_part_def)
    have none: "ctx_task s1 ! scan s1 = None" if "scan s1 < used" using empty inv that by (auto simp: sync_inv_def)
    note go = rtranclp.rtrancl_into_rtrancl [OF st]
    consider "scan s < used" "task_index s < length tasks" | "scan s < used" "\<not> task_index s < length tasks"
      | "\<not> scan s < used" "running s" | "\<not> scan s < used" "\<not> running s" by blast
    then show ?thesis
    proof cases
      case 1
      then show ?thesis using none m by (intro assign [OF go [OF main_assign]]) auto
    next
      case 2
      then show ?thesis using none m by (intro later [OF go [OF main_idle]]) auto
    next
      case 3
      then show ?thesis using m by (intro later [OF go [OF main_again]]) auto
    next
      case 4
      then have "pool_step exec tasks used sp s1 (s1\<lparr>main_at := Returned\<rparr>)" using m by (intro main_return) auto
      from go [OF this] show ?thesis by (intro exI) auto
    qed
  qed
qed

text \<open>Every pool has a state in which a run can start.\<close>

lemma sync_start_exists: "\<exists>s :: ('w, 's) sync_state. sync_start tp mem s"
  by (intro exI [of _ "\<lparr>ctx_task = replicate (length (tp_contexts tp)) None,
     workers = map (\<lambda>c. if attended tp c then Looping 0 else Exited) (tp_contexts tp), main_at = Scanning,
     task_index = 0, scan = 0, running = False, memory = mem\<rparr>"]) (simp add: sync_start_def list_all2_conv_all_nth)

lemma spurious_steps: "pool_steps exec tasks used False s s' \<Longrightarrow> pool_steps exec tasks used True s s'"
proof (rule rtranclp_mono [THEN predicate2D])
  show "pool_step exec tasks used False \<le> pool_step exec tasks used True"
    by (auto intro: pool_step.intros elim!: pool_step.cases)
qed

lemma SyncRun_returns:
  fixes exec :: "'w \<Rightarrow> 's \<Rightarrow> 's"
  assumes "pool_reachable h tp"
  shows "\<exists>ret mem'. SyncRun exec tp tasks mem ret mem'"
proof (cases "length tasks < 2")
  case True
  then consider "tasks = []" | t r where "tasks = [(t, r)]"
    by (cases tasks) (auto simp: length_Suc_conv less_Suc_eq numeral_eq_Suc)
  then show ?thesis by cases (auto intro: no_tasks one_task)
next
  case False
  let ?tp = "grow_pool tp (length tasks)"
  let ?u = "used_threads (length (tp_contexts ?tp)) (length tasks)"
  from sync_start_exists [where 'w = 'w and mem = mem] obtain s0 :: "('w, 's) sync_state" where
    s0: "sync_start ?tp mem s0" by blast
  have "served ?tp" using grow_pool_served [OF pool_reachable_ok [OF assms]] False by simp
  have "sync_inv (map fst tasks) ?u s0" using \<open>served ?tp\<close> s0 by (rule sync_start_inv) (simp add: used_threads_def)
  from can_return [where exec = exec, OF this] obtain s where
    s: "pool_steps exec (map fst tasks) ?u True s0 s" "main_at s = Returned" by blast
  show ?thesis
  proof (cases "tp_contexts ?tp = []")
    case True
    with False show ?thesis by (intro exI [of _ mem] exI [of _ True] no_contexts) auto
  next
    case ne: False
    with s s0 False show ?thesis by (intro exI [of _ "memory s"] exI [of _ True] scheduled [of _ ?tp]) auto
  qed
qed

section \<open>Clearing the pool\<close>

text \<open>
  \<open>ClearThreadPool\<close> step by step, against workers whose slots are empty: it stores \<open>exit_run_\<close> without
  taking the context mutexes, notifies context after context, then joins thread after thread.
\<close>

datatype clear_pc = ClearStart | ClearNotify nat | ClearJoin nat | ClearReturned

record 'w clear_state =
  clear_exit :: bool
  clear_workers :: "'w worker list"
  clear_at :: clear_pc

inductive clear_step :: "'w clear_state \<Rightarrow> 'w clear_state \<Rightarrow> bool" where
  clear_store:
    "clear_at s = ClearStart \<Longrightarrow> clear_step s (s\<lparr>clear_exit := True, clear_at := ClearNotify 0\<rparr>)"
| clear_notify:
    "\<lbrakk>clear_at s = ClearNotify i; i < length (clear_workers s)\<rbrakk>
     \<Longrightarrow> clear_step s (s\<lparr>clear_workers := (clear_workers s)[i := notify_one (clear_workers s ! i)],
                         clear_at := ClearNotify (i + 1)\<rparr>)"
| clear_notified:
    "\<lbrakk>clear_at s = ClearNotify i; \<not> i < length (clear_workers s)\<rbrakk> \<Longrightarrow> clear_step s (s\<lparr>clear_at := ClearJoin 0\<rparr>)"
| clear_join:
    "\<lbrakk>clear_at s = ClearJoin i; i < length (clear_workers s); clear_workers s ! i = Exited\<rbrakk>
     \<Longrightarrow> clear_step s (s\<lparr>clear_at := ClearJoin (i + 1)\<rparr>)"
| clear_joined:
    "\<lbrakk>clear_at s = ClearJoin i; \<not> i < length (clear_workers s)\<rbrakk> \<Longrightarrow> clear_step s (s\<lparr>clear_at := ClearReturned\<rparr>)"
| clear_worker:
    "\<lbrakk>i < length (clear_workers s); worker_next (clear_exit s) None False (clear_workers s ! i) = Some w\<rbrakk>
     \<Longrightarrow> clear_step s (s\<lparr>clear_workers := (clear_workers s)[i := w]\<rparr>)"

definition clear_start :: "'w worker list \<Rightarrow> 'w clear_state" where
  "clear_start ws = \<lparr>clear_exit = False, clear_workers = ws, clear_at = ClearStart\<rparr>"

text \<open>When it returns every thread has exited, as \<open>ClearThreadPool\<close> on the pool says.\<close>

definition joined_inv :: "'w clear_state \<Rightarrow> bool" where
  "joined_inv s \<longleftrightarrow>
     (\<forall>j. clear_at s = ClearJoin j \<longrightarrow> j \<le> length (clear_workers s) \<and> (\<forall>i < j. clear_workers s ! i = Exited)) \<and>
     (clear_at s = ClearReturned \<longrightarrow> (\<forall>i < length (clear_workers s). clear_workers s ! i = Exited))"

lemma joined_inv_step: "clear_step s s' \<Longrightarrow> joined_inv s \<Longrightarrow> joined_inv s'"
  by (induction rule: clear_step.induct) (auto simp: joined_inv_def nth_list_update less_Suc_eq)

lemma clear_returned_exited:
  assumes "clear_step\<^sup>*\<^sup>* (clear_start ws) s" "clear_at s = ClearReturned" "i < length (clear_workers s)"
  shows "clear_workers s ! i = Exited"
proof -
  have "joined_inv (clear_start ws)" by (simp add: joined_inv_def clear_start_def)
  with assms(1) have "joined_inv s" by (induction rule: rtranclp_induct) (blast intro: joined_inv_step)+
  with assms(2,3) show ?thesis by (simp add: joined_inv_def)
qed

text \<open>A polling worker comes to the point between its failed test and its sleep.\<close>

abbreviation unclear_next :: "'w worker \<Rightarrow> 'w worker \<Rightarrow> bool" where
  "unclear_next w w' \<equiv> worker_next False None False w = Some w'"

lemma locking_blocks: "unclear_next\<^sup>*\<^sup>* Locking Blocking"
  by (rule converse_rtranclp_into_rtranclp [of _ _ Testing], simp, rule r_into_rtranclp) simp

lemma looping_blocks: "unclear_next\<^sup>*\<^sup>* (Looping k) (Blocking :: 'w worker)"
proof (induction "kYieldThreshold - k" arbitrary: k)
  case 0
  then have "unclear_next (Polling k) (Locking :: 'w worker)" by simp
  from converse_rtranclp_into_rtranclp [of unclear_next, OF this locking_blocks]
  have "unclear_next\<^sup>*\<^sup>* (Polling k) (Blocking :: 'w worker)" .
  then show ?case by (intro converse_rtranclp_into_rtranclp [of unclear_next "Looping k" "Polling k"]) simp_all
next
  case (Suc n)
  then have n: "\<not> kYieldThreshold < k + 1" "n = kYieldThreshold - (k + 1)" by simp_all
  then have "unclear_next (Polling k) (Looping (k + 1) :: 'w worker)" by simp
  from converse_rtranclp_into_rtranclp [of unclear_next, OF this Suc(1) [OF n(2)]]
  have "unclear_next\<^sup>*\<^sup>* (Polling k) (Blocking :: 'w worker)" .
  then show ?case by (intro converse_rtranclp_into_rtranclp [of unclear_next "Looping k" "Polling k"]) simp_all
qed

lemma awake_blocks:
  assumes "idle w" "w \<noteq> Asleep"
  shows "unclear_next\<^sup>*\<^sup>* w Blocking"
proof -
  have t: "unclear_next\<^sup>*\<^sup>* Testing Blocking" by (rule r_into_rtranclp) simp
  have w: "unclear_next\<^sup>*\<^sup>* Woken Blocking" by (rule converse_rtranclp_into_rtranclp [OF _ t]) simp
  have p: "unclear_next\<^sup>*\<^sup>* (Polling k) Blocking" for k
  proof (cases "kYieldThreshold < k + 1")
    case True
    then show ?thesis by (intro converse_rtranclp_into_rtranclp [OF _ locking_blocks]) simp
  next
    case False
    then show ?thesis by (intro converse_rtranclp_into_rtranclp [OF _ looping_blocks [of "k + 1"]]) simp
  qed
  show ?thesis using assms t w p looping_blocks locking_blocks by (cases w) auto
qed

lemma clear_path:
  assumes "unclear_next\<^sup>*\<^sup>* w w'" "i < length ws" "ws ! i = w"
  shows "clear_step\<^sup>*\<^sup>* (clear_start ws) (clear_start (ws[i := w']))"
  using assms(1)
proof (induction rule: rtranclp_induct)
  case base
  then show ?case using assms(3) by (metis list_update_id rtranclp.rtrancl_refl)
next
  case (step y z)
  have "clear_step (clear_start (ws[i := y]))
     (clear_start (ws[i := y])\<lparr>clear_workers := (clear_workers (clear_start (ws[i := y])))[i := z]\<rparr>)"
    using step(2) assms(2) by (intro clear_worker) (simp_all add: clear_start_def)
  then show ?case using step(3) by (auto simp: clear_start_def intro: rtranclp.rtrancl_into_rtrancl)
qed

lemma notify_all:
  assumes "j \<le> length ws" "i < length ws" "ws ! i = Blocking"
  shows "\<exists>ws'. length ws' = length ws \<and> ws' ! i = Blocking \<and>
    clear_step\<^sup>*\<^sup>* \<lparr>clear_exit = True, clear_workers = ws, clear_at = ClearNotify j\<rparr>
      \<lparr>clear_exit = True, clear_workers = ws', clear_at = ClearJoin 0\<rparr>"
  using assms
proof (induction "length ws - j" arbitrary: j ws)
  case 0
  then have "clear_step \<lparr>clear_exit = True, clear_workers = ws, clear_at = ClearNotify j\<rparr>
      (\<lparr>clear_exit = True, clear_workers = ws, clear_at = ClearNotify j\<rparr>\<lparr>clear_at := ClearJoin 0\<rparr>)"
    by (intro clear_notified [of _ j]) simp_all
  with 0 show ?case by (intro exI [of _ ws]) auto
next
  case (Suc n)
  let ?ws = "ws[j := notify_one (ws ! j)]"
  have j: "j < length ws" using Suc(2) by simp
  have b: "?ws ! i = Blocking" using Suc.prems by (cases "i = j") (simp_all add: notify_one_def)
  have "n = length ?ws - (j + 1)" using Suc(2) by simp
  from Suc(1) [OF this _ _ b] j Suc.prems(2) obtain ws' where ws': "length ws' = length ws" "ws' ! i = Blocking"
    "clear_step\<^sup>*\<^sup>* \<lparr>clear_exit = True, clear_workers = ?ws, clear_at = ClearNotify (j + 1)\<rparr>
      \<lparr>clear_exit = True, clear_workers = ws', clear_at = ClearJoin 0\<rparr>" by auto
  have "clear_step \<lparr>clear_exit = True, clear_workers = ws, clear_at = ClearNotify j\<rparr>
      \<lparr>clear_exit = True, clear_workers = ?ws, clear_at = ClearNotify (j + 1)\<rparr>"
    using clear_notify [of "\<lparr>clear_exit = True, clear_workers = ws, clear_at = ClearNotify j\<rparr>" j] j by simp
  with ws' show ?case by (blast intro: converse_rtranclp_into_rtranclp)
qed

text \<open>A joining main thread and a worker asleep behind it: nobody is left to wake the worker up.\<close>

definition hung :: "nat \<Rightarrow> 'w clear_state \<Rightarrow> bool" where
  "hung i s \<longleftrightarrow> i < length (clear_workers s) \<and> clear_workers s ! i = Asleep \<and> (\<exists>j \<le> i. clear_at s = ClearJoin j)"

lemma hung_step: "clear_step s s' \<Longrightarrow> hung i s \<Longrightarrow> hung i s'"
  by (induction rule: clear_step.induct) (auto simp: hung_def nth_list_update le_less Suc_le_eq)

lemma hung_steps: "clear_step\<^sup>*\<^sup>* s s' \<Longrightarrow> hung i s \<Longrightarrow> hung i s'"
  by (induction rule: rtranclp_induct) (auto intro: hung_step)

lemma blocking_hangs:
  assumes "i < length ws" "ws ! i = Blocking"
  shows "\<exists>s. clear_step\<^sup>*\<^sup>* (clear_start ws) s \<and> hung i s"
proof -
  obtain ws' where ws': "length ws' = length ws" "ws' ! i = Blocking"
    "clear_step\<^sup>*\<^sup>* \<lparr>clear_exit = True, clear_workers = ws, clear_at = ClearNotify 0\<rparr>
      \<lparr>clear_exit = True, clear_workers = ws', clear_at = ClearJoin 0\<rparr>" (is "clear_step\<^sup>*\<^sup>* _ ?j")
    using notify_all [of 0 ws i] assms by blast
  have "clear_step (clear_start ws) \<lparr>clear_exit = True, clear_workers = ws, clear_at = ClearNotify 0\<rparr>"
    using clear_store [of "clear_start ws"] by (simp add: clear_start_def)
  from converse_rtranclp_into_rtranclp [of clear_step, OF this ws'(3)] have st: "clear_step\<^sup>*\<^sup>* (clear_start ws) ?j" .
  have "clear_step ?j (?j\<lparr>clear_workers := (clear_workers ?j)[i := Asleep]\<rparr>)"
    using ws' assms by (intro clear_worker) simp_all
  from rtranclp.rtrancl_into_rtrancl [OF st this] show ?thesis
    using ws' assms by (intro exI conjI) (auto simp: hung_def)
qed

section \<open>Properties\<close>

text \<open>
  C25. When \<open>SyncRun\<close> returns, every write of every task has been made exactly once: on every pool that
  constructor, runs, clears and forks lead to, with \<open>hardware_concurrency()\<close> not 0 or at most one
  task, and for tasks whose writes commute, the memory is the one that running the tasks one after
  the other gives, whatever the interleaving of the main thread and the workers was. The result is
  true, also when a task of several failed; only of a single task the status is returned.
\<close>

theorem SyncRun_runs_every_task:
  assumes "pool_reachable hardware_concurrency tp"
    and "SyncRun exec tp tasks mem ret mem'"
    and "length tasks \<le> 1 \<or> 0 < hardware_concurrency"
    and "commuting exec (concat (map fst tasks))"
  shows "mem' = fold exec (concat (map fst tasks)) mem \<and> ret = (length tasks = 1 \<longrightarrow> snd (hd tasks))"
  using SyncRun_sequential [OF assms(2,1,3,4)] .

theorem SyncRun_runs_every_task_witness:
  "\<exists>ret mem'. SyncRun (\<lambda>w m. w + m) (ThreadPool0 4) [([1], True), ([2, 3], False), ([4 :: nat], True)] 0 ret mem' \<and>
     mem' = (10 :: nat) \<and> ret"
proof -
  have p: "pool_reachable 4 (ThreadPool0 4)" by (rule pool_reachable.constructed)
  obtain ret mem' where r: "SyncRun (\<lambda>w m. w + m) (ThreadPool0 4) [([1], True), ([2, 3], False), ([4 :: nat], True)] (0 :: nat) ret mem'"
    using SyncRun_returns [OF p, of "\<lambda>w m. w + m" "[([1], True), ([2, 3], False), ([4], True)]" "0 :: nat"] by blast
  from SyncRun_runs_every_task [OF p r] have "mem' = 10" "ret"
    by (simp_all add: commuting_def fun_eq_iff)
  with r show ?thesis by blast
qed

text \<open>
  C26. The scheduling loop cannot get stuck and loses no wake-up. From a pool that constructor, runs,
  clears and forks lead to, grown for at least two tasks, whatever its workers are doing when the
  run starts (polling, locking, asleep on their condition variable): from every state that the run
  reaches, with spurious wake-ups or not, a state in which \<open>SyncRun\<close> has returned is reachable in
  which nobody but \<open>notify_one\<close> wakes a worker; no worker dereferences a null task; and after the
  return every slot is empty and every worker idle, as the next run expects.
\<close>

theorem SyncRun_can_always_return:
  assumes "pool_reachable hardware_concurrency tp" and "2 \<le> task_num" and "tp' = grow_pool tp task_num"
    and "length tasks = task_num" and "used = used_threads (length (tp_contexts tp')) task_num"
    and "sync_start tp' mem s0" and "pool_steps exec tasks used True s0 s"
  shows "(\<exists>s'. pool_steps exec tasks used False s s' \<and> main_at s' = Returned) \<and> Crashed \<notin> set (workers s) \<and>
    (main_at s = Returned \<and> 0 < hardware_concurrency \<longrightarrow>
       (\<forall>i < length (tp_contexts tp'). ctx_task s ! i = None \<and> idle (workers s ! i)))"
proof -
  note g = grow_pool_served [OF pool_reachable_ok [OF assms(1)] assms(2), folded assms(3)]
  have u: "used \<le> length (tp_contexts tp')" using assms(5) by (simp add: used_threads_def)
  have i0: "sync_inv tasks used s0" using sync_start_inv [OF _ assms(6) u] g by blast
  have inv: "sync_inv tasks used s" using sync_inv_steps [OF assms(7) i0] .
  have "length (ctx_task s) = length (ctx_task s0)" using assms(7)
    by (induction rule: rtranclp_induct) (auto elim!: pool_step.cases)
  then have len: "length (ctx_task s) = length (tp_contexts tp')" using assms(6) by (simp add: sync_start_def)
  have "Crashed \<notin> set (workers s)"
  proof
    assume "Crashed \<in> set (workers s)"
    then obtain i where i: "i < length (workers s)" "workers s ! i = Crashed" by (auto simp: in_set_conv_nth)
    with sync_inv_slot [OF inv i(1)] show False by (cases "ctx_task s ! i") auto
  qed
  moreover have "0 < used" if "0 < hardware_concurrency"
    using that g assms(2,5) by (auto simp: used_threads_def)
  ultimately show ?thesis using can_return [OF inv, of exec False] returned_slots [OF inv] len by auto
qed

theorem SyncRun_can_always_return_witness:
  "\<exists>s'. pool_steps (\<lambda>w m. w + m) [[1], [2 :: nat]] 2 False
     \<lparr>ctx_task = [Some 0, None], workers = [Asleep, Blocking], main_at = Notifying, task_index = 0, scan = 0,
      running = False, memory = 0 :: nat\<rparr> s' \<and> main_at s' = Returned"
proof -
  let ?s = "\<lparr>ctx_task = [None, None], workers = [Asleep, Blocking], main_at = Scanning, task_index = 0, scan = 0,
      running = False, memory = 0 :: nat\<rparr> :: (nat, nat) sync_state"
  let ?t = "\<lparr>ctx_task = [Some 0, None], workers = [Asleep, Blocking], main_at = Notifying, task_index = 0, scan = 0,
      running = False, memory = 0 :: nat\<rparr> :: (nat, nat) sync_state"
  have c: "tp_contexts (grow_pool (ThreadPool0 4) 2) = [Some 0, Some 1]" by code_simp
  have a: "tp_alive (grow_pool (ThreadPool0 4) 2) = [(1, 1), (0, 0)]" by code_simp
  have s: "sync_start (grow_pool (ThreadPool0 4) 2) 0 ?s" by (simp add: sync_start_def c a attended_def)
  have "pool_step (\<lambda>w m. w + m) [[1], [2]] 2 True ?s (?s\<lparr>main_at := Acquiring\<rparr>)" by (rule main_assign) simp_all
  moreover have "pool_step (\<lambda>w m. w + m) [[1], [2]] 2 True (?s\<lparr>main_at := Acquiring\<rparr>) (?s\<lparr>main_at := Acquiring\<rparr>\<lparr>main_at := Setting\<rparr>)"
    by (rule main_acquire) simp_all
  moreover have "pool_step (\<lambda>w m. w + m) [[1], [2]] 2 True (?s\<lparr>main_at := Setting\<rparr>) ?t"
    using main_set [of "?s\<lparr>main_at := Setting\<rparr>" "\<lambda>w m. w + m" "[[1], [2]]" 2 True] by simp
  ultimately have "pool_steps (\<lambda>w m. w + m) [[1], [2]] 2 True ?s ?t" by (simp add: converse_rtranclp_into_rtranclp)
  from SyncRun_can_always_return [OF pool_reachable.constructed [of 4] _ refl _ _ s this]
  show ?thesis by (simp add: c used_threads_def)
qed

text \<open>
  C28. \<open>ClearThreadPool\<close> can hang. It stores \<open>exit_run_\<close> without taking the context mutex: whenever some
  worker without a task is not yet asleep, there is a schedule in which this worker tests the flag
  before the store, is notified before it sleeps, and then sleeps; from there on no sequence of
  steps without a spurious wake-up lets \<open>ClearThreadPool\<close> return, since it waits in \<open>join\<close>.
\<close>

theorem ClearThreadPool_can_hang:
  assumes "i < length ws" and "idle (ws ! i)" and "ws ! i \<noteq> Asleep"
  shows "\<exists>s. clear_step\<^sup>*\<^sup>* (clear_start ws) s \<and> (\<forall>s'. clear_step\<^sup>*\<^sup>* s s' \<longrightarrow> clear_at s' \<noteq> ClearReturned)"
proof -
  have 1: "clear_step\<^sup>*\<^sup>* (clear_start ws) (clear_start (ws[i := Blocking]))"
    using clear_path [OF awake_blocks [OF assms(2,3)] assms(1)] by simp
  obtain s where s: "clear_step\<^sup>*\<^sup>* (clear_start (ws[i := Blocking])) s" "hung i s"
    using blocking_hangs [of i "ws[i := Blocking]"] assms(1) by auto
  have "clear_at s' \<noteq> ClearReturned" if "clear_step\<^sup>*\<^sup>* s s'" for s'
    using hung_steps [OF that s(2)] by (auto simp: hung_def)
  with rtranclp_trans [OF 1 s(1)] show ?thesis by blast
qed

theorem ClearThreadPool_can_hang_witness:
  "\<exists>s. clear_step\<^sup>*\<^sup>* (clear_start [Asleep, Looping 0 :: nat worker]) s \<and>
     (\<forall>s'. clear_step\<^sup>*\<^sup>* s s' \<longrightarrow> clear_at s' \<noteq> ClearReturned)"
  by (rule ClearThreadPool_can_hang [of 1]) simp_all

end
