(* ===== verification/Random_Gen.thy ===== *)
theory Random_Gen
  imports Philox Thread_Pool
begin

text \<open>
  The parallel random number generation of \<^verbatim>\<open>testing/random.h\<close>: the distributions, the sequential
  \<open>GenerateRandoms\<close>, the partition of a buffer into tasks and \<open>GenerateRandomsParallel\<close>, which runs
  the tasks on the thread pool. A distribution object is state (\<open>'d\<close>) together with its call operator,
  which draws from a \<^typ>\<open>philox\<close> generator; the floating point functions from the numbers drawn to the
  numbers returned are parameters. A buffer is a list, a task writes its elements at an offset.
\<close>

section \<open>Distributions\<close>

type_synonym ('d, 'a) distribution = "'d \<Rightarrow> philox \<Rightarrow> 'a \<times> 'd \<times> philox"

text \<open>\<open>UniformDistribution::operator()\<close>, \<open>to_unit\<close> being the float function of the number drawn.\<close>

definition UniformDistribution :: "(uint32 \<Rightarrow> 'a) \<Rightarrow> (unit, 'a) distribution" where
  "UniformDistribution to_unit d g = (let (x, g) = draw g in (to_unit x, d, g))"

text \<open>
  \<open>NormalDistribution::operator()\<close>: \<open>has_next_\<close> and \<open>next_\<close> are the state, \<open>box_muller\<close> maps the two
  numbers drawn to the number returned and the number kept for the next call.
\<close>

definition NormalDistribution :: "(uint32 \<Rightarrow> uint32 \<Rightarrow> 'a \<times> 'a) \<Rightarrow> (bool \<times> 'a, 'a) distribution" where
  "NormalDistribution box_muller d g =
     (let (has_next, next_value) = d in
      if has_next then (next_value, (False, next_value), g)
      else
        let (u1, g) = draw g;
            (u2, g) = draw g;
            (z1, z2) = box_muller u1 u2
        in (z1, (True, z2), g))"

text \<open>\<open>TruncatedNormal::operator()\<close>: the inverse CDF of a uniform number.\<close>

definition TruncatedNormal :: "(uint32 \<Rightarrow> 'a) \<Rightarrow> ('a \<Rightarrow> 'b) \<Rightarrow> (unit, 'b) distribution" where
  "TruncatedNormal to_unit inverse_cdf d g =
     (let (u, d, g) = UniformDistribution to_unit d g in (inverse_cdf u, d, g))"

definition ConstantDistribution :: "'a \<Rightarrow> (unit, 'a) distribution" where
  "ConstantDistribution value d g = (value, d, g)"

section \<open>Generation\<close>

fun generate :: "('d, 'a) distribution \<Rightarrow> nat \<Rightarrow> 'd \<Rightarrow> philox \<Rightarrow> 'a list" where
  "generate dis 0 d gen = []"
| "generate dis (Suc n) d gen = (let (x, d, gen) = dis d gen in x # generate dis n d gen)"

text \<open>
  The writes of \<open>GenerateRandoms(seed, skip, buf, size)\<close>; \<open>buf\<close> is the offset of the task's buffer in
  the whole one.
\<close>

definition GenerateRandoms ::
    "('d, 'a) distribution \<Rightarrow> 'd \<Rightarrow> size_t \<Rightarrow> size_t \<times> nat \<times> size_t \<Rightarrow> (nat \<times> 'a) list" where
  "GenerateRandoms dis d0 seed task =
     (let (skip, buf, size) = task;
          gen = discard skip (Philox1 seed)
      in zip [buf ..< buf + unat size] (generate dis (unat size) d0 gen))"

definition write_elem :: "nat \<times> 'a \<Rightarrow> 'a list \<Rightarrow> 'a list" where
  "write_elem w buf = buf[fst w := snd w]"

definition ComputeTaskNumSize :: "size_t \<Rightarrow> size_t \<Rightarrow> size_t \<times> size_t" where
  "ComputeTaskNumSize total_size thread_num =
     (let min_parallel_size = 1024 in
      if thread_num = 0 \<or> total_size \<le> min_parallel_size then (1, total_size)
      else
        let block_size = 4;
            block_count = (total_size + block_size - 1) div block_size
        in if block_count \<le> thread_num then (block_count, block_size)
           else
             let blocks_per_thread = (block_count + thread_num - 1) div thread_num;
                 task_num = (block_count + blocks_per_thread - 1) div blocks_per_thread;
                 batch_size = blocks_per_thread * block_size
             in (task_num, batch_size))"

text \<open>The loop that prepares the tasks: \<open>n\<close> tasks are left, the next is number \<open>i\<close>.\<close>

fun prepare_tasks ::
    "nat \<Rightarrow> size_t \<Rightarrow> size_t \<Rightarrow> size_t \<Rightarrow> size_t \<Rightarrow> size_t \<Rightarrow> nat \<Rightarrow> (size_t \<times> nat \<times> size_t) list" where
  "prepare_tasks 0 i task_num batch_size buf_size skip_num task_buf = []"
| "prepare_tasks (Suc n) i task_num batch_size buf_size skip_num task_buf =
     (let task_size = (if i = task_num - 1 then buf_size - (task_num - 1) * batch_size else batch_size)
      in (skip_num, task_buf, task_size) #
         prepare_tasks n (i + 1) task_num batch_size buf_size (skip_num + task_size) (task_buf + unat task_size))"

text \<open>
  \<open>GenerateRandomsParallel\<close> turns the buffer \<open>buf\<close> into \<open>buf'\<close>; \<open>rd\<close> is what \<open>std::random_device\<close>
  delivers for the seed 0.
\<close>

definition GenerateRandomsParallel ::
    "('d, 'a) distribution \<Rightarrow> 'd \<Rightarrow> uint32 \<Rightarrow> thread_pool \<Rightarrow> size_t \<Rightarrow> size_t \<Rightarrow> 'a list \<Rightarrow> 'a list \<Rightarrow> bool" where
  "GenerateRandomsParallel dis d0 rd thread_pool input_seed buf_size buf buf' \<longleftrightarrow>
     (let (task_num, batch_size) = ComputeTaskNumSize buf_size (tp_max_threads thread_pool);
          seed = (if input_seed = 0 then ucast rd else input_seed)
      in if task_num = 1
         then buf' = fold write_elem (GenerateRandoms dis d0 seed (0, 0, buf_size)) buf
         else \<exists>ret. SyncRun write_elem thread_pool
                (map (\<lambda>task. (GenerateRandoms dis d0 seed task, True))
                  (prepare_tasks (unat task_num) 0 task_num batch_size buf_size 0 0)) buf ret buf')"

lemma map_upt_shift: "map f [k ..< k + m] = map (\<lambda>i. f (k + i)) [0..<m]"
  by (induction m) simp_all

lemma zip_self_map: "zip xs (map f xs) = map (\<lambda>x. (x, f x)) xs"
  by (induction xs) simp_all

section \<open>Distributions as functions of the stream of draws\<close>

text \<open>
  A distribution whose values are a function of the numbers drawn, such that restarting it behind a
  multiple of four numbers continues the sequence.
\<close>

locale stream_distribution =
  fixes dis :: "('d, 'a) distribution" and d0 :: 'd and value_at :: "(nat \<Rightarrow> uint32) \<Rightarrow> nat \<Rightarrow> 'a"
  assumes generate_values: "philox_wf g \<Longrightarrow> generate dis n d0 g = map (value_at (out g)) [0..<n]"
    and value_shift: "value_at (\<lambda>i. s (4 * k + i)) j = value_at s (4 * k + j)"
begin

lemma generate_skip:
  assumes "philox_wf g" "unat (phx_index g) + unat n < 2 ^ 64" "unat n = 4 * k"
  shows "generate dis m d0 (discard n g) = map (value_at (out g)) [4 * k ..< 4 * k + m]"
proof -
  have "out (discard n g) = (\<lambda>i. out g (4 * k + i))" using discard_out [OF assms(1,2)] assms(3) by auto
  then have "generate dis m d0 (discard n g) = map (\<lambda>j. value_at (out g) (4 * k + j)) [0..<m]"
    using generate_values [OF discard_wf [OF assms(1)]] by (simp add: value_shift)
  then show ?thesis by (simp add: map_upt_shift)
qed

end

lemma Philox1_wf [simp]: "philox_wf (Philox1 seed)"
  by (simp add: philox_wf_def Philox1_def kCounterNum_def)

lemma Philox1_index [simp]: "phx_index (Philox1 seed) = 4"
  by (simp add: Philox1_def kCounterNum_def)

lemma generate_uniform: "philox_wf g \<Longrightarrow> generate (UniformDistribution f) n d g = map (\<lambda>i. f (out g i)) [0..<n]"
proof (induction n arbitrary: g)
  case (Suc n)
  obtain x g' where d: "draw g = (x, g')" by fastforce
  show ?case
    using Suc.IH [OF draw_out(1) [OF Suc.prems d]] draw_out(2,3) [OF Suc.prems d]
    by (simp add: d UniformDistribution_def map_upt_Suc del: upt_Suc)
qed simp

lemma generate_truncated: "generate (TruncatedNormal f h) n d g = map h (generate (UniformDistribution f) n d g)"
  by (induction n arbitrary: d g) (simp_all add: TruncatedNormal_def split: prod.split)

definition normal_value :: "(uint32 \<Rightarrow> uint32 \<Rightarrow> 'a \<times> 'a) \<Rightarrow> (nat \<Rightarrow> uint32) \<Rightarrow> nat \<Rightarrow> 'a" where
  "normal_value bm s i = (if even i then fst (bm (s i) (s (i + 1))) else snd (bm (s (i - 1)) (s i)))"

lemma generate_normal:
  "philox_wf g \<Longrightarrow> generate (NormalDistribution bm) n (False, z) g = map (normal_value bm (out g)) [0..<n]"
proof (induction n arbitrary: g z rule: less_induct)
  case (less n)
  obtain x g1 where d1: "draw g = (x, g1)" by fastforce
  obtain y g2 where d2: "draw g1 = (y, g2)" by fastforce
  have wf: "philox_wf g1" "philox_wf g2" using draw_out(1) d1 d2 less.prems by blast+
  have xy: "x = out g 0" "y = out g 1" and o: "\<And>i. out g2 i = out g (i + 2)"
    using draw_out(2,3) [OF less.prems d1] draw_out(2,3) [OF wf(1) d2] by simp_all
  have shift: "normal_value bm (out g2) i = normal_value bm (out g) (i + 2)" for i
    by (cases i) (auto simp: normal_value_def o)
  have v: "normal_value bm (out g) 0 = fst (bm x y)" "normal_value bm (out g) (Suc 0) = snd (bm x y)"
    by (simp_all add: normal_value_def xy)
  have step: "NormalDistribution bm (False, z) g = (fst (bm x y), (True, snd (bm x y)), g2)"
    "NormalDistribution bm (True, z') g2 = (z', (False, z'), g2)" for z'
    by (simp_all add: NormalDistribution_def d1 d2 split_beta)
  consider "n = 0" | "n = 1" | m where "n = Suc (Suc m)" by (metis One_nat_def not0_implies_Suc)
  then show ?case
  proof cases
    case (3 m)
    have "generate (NormalDistribution bm) m (False, snd (bm x y)) g2 = map (normal_value bm (out g)) [2..<n]"
      using less.IH [of m g2] wf shift 3 map_upt_shift [of "normal_value bm (out g)" 2 m] by (simp del: upt_Suc)
    then show ?thesis using 3 v step by (simp add: upt_conv_Cons numeral_2_eq_2 del: upt_Suc)
  qed (use v step in simp_all)
qed

lemma generate_constant: "generate (ConstantDistribution v) n d g = map (\<lambda>i. v) [0..<n]"
  by (induction n arbitrary: d g) (simp_all add: ConstantDistribution_def map_upt_Suc del: upt_Suc)

interpretation uniform: stream_distribution "UniformDistribution f" "()" "\<lambda>s i. f (s i)"
  by unfold_locales (simp_all add: generate_uniform)

interpretation truncated: stream_distribution "TruncatedNormal f h" "()" "\<lambda>s i. h (f (s i))"
  by unfold_locales (simp_all add: generate_truncated generate_uniform)

interpretation normal: stream_distribution "NormalDistribution bm" "(False, z)" "normal_value bm"
proof unfold_locales
  show "normal_value bm (\<lambda>i. s (4 * k + i)) j = normal_value bm s (4 * k + j)" for s k j
    by (cases j) (simp_all add: normal_value_def)
qed (simp add: generate_normal)

interpretation constant_dis: stream_distribution "ConstantDistribution v" "()" "\<lambda>s i. v"
  by unfold_locales (simp_all add: generate_constant)

section \<open>The partition of the buffer\<close>

lemma ceil_div:
  fixes a b :: nat
  assumes "0 < b" "0 < a"
  shows "((a + b - 1) div b - 1) * b < a" "a \<le> (a + b - 1) div b * b" "0 < (a + b - 1) div b"
proof -
  let ?q = "(a + b - 1) div b"
  have q: "?q * b + (a + b - 1) mod b = a + b - 1" by simp
  have m: "(a + b - 1) mod b < b" using assms(1) by simp
  show "0 < ?q" using assms by (simp add: div_greater_zero_iff)
  show "a \<le> ?q * b" using q m by linarith
  have "?q * b < a + b" using q assms by linarith
  then show "(?q - 1) * b < a" using assms(1,2) by (simp add: diff_mult_distrib)
qed

lemma ceil_div_le: "0 < b \<Longrightarrow> a \<le> c * b \<Longrightarrow> (a + b - 1) div b \<le> (c :: nat)"
  by (simp add: div_le_dividend less_Suc_eq_le [symmetric] div_less_iff_less_mult)

text \<open>The word arithmetic of the partition is exact up to \<open>2 ^ 60\<close> elements.\<close>

lemma unat_ceil:
  fixes a b :: size_t
  assumes "unat a + unat b < 2 ^ 64" "0 < unat b"
  shows "unat ((a + b - 1) div b) = (unat a + unat b - 1) div unat b"
proof -
  have "unat (a + b - 1) = unat (a + b) - 1"
    using assms by (subst unat64_sub) (simp_all add: word_le_nat_alt unat64_add)
  with assms show ?thesis by (simp add: unat_div unat64_add)
qed

definition partition_ok :: "size_t \<Rightarrow> size_t \<Rightarrow> size_t \<Rightarrow> bool" where
  "partition_ok task_num batch total_size \<longleftrightarrow>
     0 < unat task_num \<and> (unat task_num - 1) * unat batch < unat total_size \<and>
     unat total_size \<le> unat task_num * unat batch \<and> unat task_num * unat batch \<le> 2 ^ 62"

lemma partition_blocks:
  fixes bc q tn total :: nat
  assumes "0 < bc" "0 < q" "q \<le> bc" "tn = (bc + q - 1) div q" "(bc - 1) * 4 < total" "total \<le> bc * 4"
  shows "0 < tn" "(tn - 1) * (q * 4) < total" "total \<le> tn * (q * 4)" "tn * (q * 4) \<le> 8 * bc"
proof -
  note c = ceil_div [OF assms(2,1), folded assms(4)]
  show "0 < tn" by (rule c)
  have "(tn - 1) * q \<le> bc - 1" using c(1) by linarith
  then have "(tn - 1) * q * 4 \<le> (bc - 1) * 4" by simp
  then show "(tn - 1) * (q * 4) < total" using assms(5) by (simp add: mult.assoc)
  have "bc * 4 \<le> tn * q * 4" using c(2) by simp
  then show "total \<le> tn * (q * 4)" using assms(6) by (simp add: mult.assoc)
  have "tn * q = (tn - 1) * q + q" using c(3) by (cases tn) simp_all
  then have "tn * q \<le> 2 * bc" using c(1) assms(3) by linarith
  then show "tn * (q * 4) \<le> 8 * bc" by (simp add: mult.commute)
qed

lemma ComputeTaskNumSize_partition:
  assumes r: "ComputeTaskNumSize total_size threads = (task_num, batch)"
    and bound: "unat total_size \<le> 2 ^ 60" and pos: "0 < total_size"
  shows "partition_ok task_num batch total_size \<and>
    (task_num = 1 \<or> unat batch mod 4 = 0 \<and> unat task_num \<le> unat threads)"
proof (cases "threads = 0 \<or> total_size \<le> 1024")
  case True
  then have "task_num = 1" "batch = total_size" using r by (auto simp: ComputeTaskNumSize_def)
  then show ?thesis using pos bound by (simp add: partition_ok_def word_less_nat_alt)
next
  case False
  define bc where "bc = (total_size + 4 - 1) div 4"
  have t0: "0 < unat total_size" "0 < unat threads"
    using pos False by (simp_all add: word_less_nat_alt word_unat_eq_iff)
  have bc: "unat bc = (unat total_size + 4 - 1) div 4"
    using unat_ceil [of total_size 4] bound by (simp add: bc_def)
  note c = ceil_div [of 4 "unat total_size", OF zero_less_numeral t0(1), folded bc]
  have bc60: "4 * (unat bc - 1) < 2 ^ 60" using c(1) bound by (simp add: mult.commute)
  show ?thesis
  proof (cases "bc \<le> threads")
    case True
    then have "task_num = bc" "batch = 4" using r False by (auto simp: ComputeTaskNumSize_def bc_def Let_def)
    then show ?thesis using c bc60 True by (auto simp: partition_ok_def word_le_nat_alt)
  next
    case gt: False
    define q where "q = (bc + threads - 1) div threads"
    have lt: "unat threads < unat bc" using gt by (simp add: word_le_nat_alt)
    have q: "unat q = (unat bc + unat threads - 1) div unat threads"
      unfolding q_def using lt bc60 t0 by (intro unat_ceil) simp_all
    note cq = ceil_div [OF t0(2) c(3), folded q]
    have qle: "unat q \<le> unat bc"
      unfolding q using t0 by (intro ceil_div_le) simp_all
    have tn: "task_num = (bc + q - 1) div q" and b: "batch = q * 4"
      using r False gt by (auto simp: ComputeTaskNumSize_def bc_def q_def Let_def)
    have tn': "unat task_num = (unat bc + unat q - 1) div unat q"
      unfolding tn using qle bc60 cq(3) by (intro unat_ceil) simp_all
    have b': "unat batch = unat q * 4"
      unfolding b using qle bc60 by (simp add: unat_word_ariths)
    note pb = partition_blocks [OF c(3) cq(3) qle tn' c(1,2)]
    have "unat task_num \<le> unat threads"
      unfolding tn' using cq(2,3) by (intro ceil_div_le) (simp_all add: mult.commute)
    then show ?thesis using pb bc60 by (simp add: partition_ok_def b')
  qed
qed

text \<open>The prepared tasks, in natural numbers: task \<open>j\<close> starts at \<open>j * batch\<close>.\<close>

lemma prepare_tasks_eq:
  assumes "partition_ok tn b total_size" "unat i + n = unat tn" "unat skip_num = unat i * unat b" "buf = unat i * unat b"
  shows "map (\<lambda>(s, o1, z). (unat s, o1, unat z)) (prepare_tasks n i tn b total_size skip_num buf) =
    map (\<lambda>j. (j * unat b, j * unat b, min (unat b) (unat total_size - j * unat b))) [unat i..<unat tn]"
  using assms(2-4)
proof (induction n arbitrary: i skip_num buf)
  case (Suc n)
  have po: "0 < unat tn" "(unat tn - 1) * unat b < unat total_size" "unat total_size \<le> unat tn * unat b"
    "unat tn * unat b \<le> 2 ^ 62" using assms(1) by (simp_all add: partition_ok_def)
  have i: "unat i < unat tn" using Suc.prems by simp
  have tn1: "unat (tn - 1) = unat tn - 1" using po(1) by (simp add: unat64_sub word_le_nat_alt)
  have le: "(unat tn - 1) * unat b \<le> unat tn * unat b" "unat i * unat b + unat b \<le> unat tn * unat b"
    using mult_le_mono1 [of "Suc (unat i)" "unat tn" "unat b"] i by (simp_all add: add.commute)
  have ub: "unat ((tn - 1) * b) = (unat tn - 1) * unat b"
    using order_le_less_trans [OF order_trans [OF le(1) po(4)], of "2 ^ 64"]
    by (simp add: unat_word_ariths tn1 del: unat_1)
  have last: "(i = tn - 1) = (unat i = unat tn - 1)" using tn1 by (simp add: word_unat_eq_iff)
  let ?z = "if i = tn - 1 then total_size - (tn - 1) * b else b"
  have z: "unat ?z = min (unat b) (unat total_size - unat i * unat b)"
  proof (cases "i = tn - 1")
    case True
    have "unat (total_size - (tn - 1) * b) = unat total_size - (unat tn - 1) * unat b"
      using po(2) by (subst unat64_sub) (simp_all add: word_le_nat_alt ub)
    moreover have "unat total_size \<le> unat b + (unat tn - 1) * unat b" using po(1,3) by (cases "unat tn") simp_all
    ultimately show ?thesis using True last by simp
  next
    case False
    then have "Suc (unat i) \<le> unat tn - 1" using i last by linarith
    then have "Suc (unat i) * unat b \<le> (unat tn - 1) * unat b" by (rule mult_le_mono1)
    then show ?thesis using False po(2) by simp
  qed
  show ?case
  proof (cases n)
    case 0
    then have "unat tn = Suc (unat i)" using Suc.prems by simp
    then have "[unat i..<unat tn] = [unat i]" by simp
    then show ?thesis using z Suc.prems 0 by (simp add: Let_def)
  next
    case (Suc n')
    then have ne: "i \<noteq> tn - 1" using Suc.prems last by auto
    have i1: "unat (i + 1) = Suc (unat i)" using i unat64_bound [of tn] unat64_add [of i 1] by simp
    have s1: "unat (skip_num + b) = unat (i + 1) * unat b"
      using Suc.prems le(2) po(4) by (subst unat64_add) (simp_all add: i1)
    have IH: "map (\<lambda>(s, o1, z). (unat s, o1, unat z)) (prepare_tasks n (i + 1) tn b total_size (skip_num + b) (buf + unat b)) =
      map (\<lambda>j. (j * unat b, j * unat b, min (unat b) (unat total_size - j * unat b))) [unat (i + 1)..<unat tn]"
      using Suc.prems by (intro Suc.IH) (simp_all add: i1 s1)
    have "unat b = min (unat b) (unat total_size - unat i * unat b)" using z ne by simp
    then show ?thesis using IH ne Suc.prems i
      by (simp add: Let_def i1 upt_conv_Cons)
  qed
qed simp

lemma segments:
  fixes b total_num :: nat
  assumes "(n - 1) * b < total_num" "total_num \<le> n * b" "k < n"
  shows "concat (map (\<lambda>j. map F [j * b ..< j * b + min b (total_num - j * b)]) [k..<n]) = map F [k * b ..< total_num]"
  using assms(3)
proof (induction "n - k" arbitrary: k)
  case (Suc m)
  show ?case
  proof (cases "Suc k < n")
    case True
    have "Suc k * b \<le> (n - 1) * b" using True by (intro mult_le_mono1) simp
    then have le: "k * b + b \<le> total_num" using assms(1) by simp
    have "[k * b ..< total_num] = [k * b ..< k * b + b] @ [k * b + b ..< total_num]"
      using le by (metis le_add1 le_add_diff_inverse upt_add_eq_append)
    moreover have "concat (map (\<lambda>j. map F [j * b ..< j * b + min b (total_num - j * b)]) [Suc k..<n]) = map F [Suc k * b ..< total_num]"
      using Suc True by simp
    ultimately show ?thesis using Suc.prems le by (simp add: upt_conv_Cons add.commute)
  next
    case False
    then have "n = Suc k" using Suc.prems by simp
    then have "k * b + min b (total_num - k * b) = total_num" using assms unfolding min_def by simp linarith
    then show ?thesis using \<open>n = Suc k\<close> by simp
  qed
qed simp

lemma fold_writes: "length vs + k \<le> length buf \<Longrightarrow>
  fold write_elem (zip [k ..< k + length vs] vs) buf = take k buf @ vs @ drop (k + length vs) buf"
proof (induction vs arbitrary: k buf)
  case (Cons v vs)
  have "[k ..< k + length (v # vs)] = k # [Suc k ..< Suc k + length vs]" by (simp add: upt_conv_Cons del: upt_Suc)
  then show ?case using Cons.IH [of "Suc k" "buf[k := v]"] Cons.prems
    by (simp add: write_elem_def take_Suc_conv_app_nth)
qed simp

lemma writes_commute:
  assumes "distinct (map fst ws)"
  shows "commuting write_elem ws"
  unfolding commuting_def
proof (intro ballI)
  fix x y assume "x \<in> set ws" "y \<in> set ws"
  with assms have "x = y \<or> fst x \<noteq> fst y" by (metis eq_key_imp_eq_value prod.collapse)
  then show "write_elem x \<circ> write_elem y = write_elem y \<circ> write_elem x"
    by (auto simp: fun_eq_iff write_elem_def list_update_swap)
qed

section \<open>Parallel and sequential generation agree\<close>

context stream_distribution
begin

lemma task_writes:
  assumes "unat s = off" "4 dvd off" "off < 2 ^ 63"
  shows "GenerateRandoms dis d0 seed (s, off, z) =
    map (\<lambda>i. (i, value_at (out (Philox1 seed)) i)) [off ..< off + unat z]"
proof -
  obtain k where k: "off = 4 * k" using assms(2) by blast
  have "generate dis (unat z) d0 (discard s (Philox1 seed)) = map (value_at (out (Philox1 seed))) [off ..< off + unat z]"
    using generate_skip [of "Philox1 seed" s k "unat z"] assms k by simp
  then show ?thesis by (simp add: GenerateRandoms_def zip_self_map)
qed

lemma parallel_writes:
  assumes part: "partition_ok tn b n" and b4: "4 dvd unat b"
  shows "concat (map (GenerateRandoms dis d0 seed) (prepare_tasks (unat tn) 0 tn b n 0 0)) =
    map (\<lambda>i. (i, value_at (out (Philox1 seed)) i)) [0 ..< unat n]"
proof -
  let ?ts = "prepare_tasks (unat tn) 0 tn b n 0 0"
  let ?F = "\<lambda>i. (i, value_at (out (Philox1 seed)) i)"
  let ?nat = "\<lambda>(s :: size_t, o1 :: nat, z :: size_t). (unat s, o1, unat z)"
  have eq: "map ?nat ?ts = map (\<lambda>j. (j * unat b, j * unat b, min (unat b) (unat n - j * unat b))) [0..<unat tn]"
    using prepare_tasks_eq [OF part, of 0 "unat tn" 0 0] by simp
  have po: "0 < unat tn" "(unat tn - 1) * unat b < unat n" "unat n \<le> unat tn * unat b" "unat tn * unat b \<le> 2 ^ 62"
    using part by (simp_all add: partition_ok_def)
  have "map (GenerateRandoms dis d0 seed) ?ts = map (\<lambda>(s, o1, z). map ?F [o1 ..< o1 + z]) (map ?nat ?ts)"
  proof (simp, intro ballI)
    fix x assume x: "x \<in> set ?ts"
    obtain s off z where xe: "x = (s, off, z)" by (cases x) auto
    from x have "?nat x \<in> set (map ?nat ?ts)" by simp
    then obtain j where j: "j < unat tn" "unat s = j * unat b" "off = j * unat b" unfolding eq xe by auto
    have "j * unat b \<le> unat tn * unat b" using j by simp
    from order_le_less_trans [OF order_trans [OF this po(4)], of "2 ^ 63"] have "off < 2 ^ 63" using j by simp
    then show "GenerateRandoms dis d0 seed x = (case ?nat x of (s, o1, z) \<Rightarrow> map ?F [o1 ..< o1 + z])"
      using task_writes [of s off seed z] j b4 by (simp add: xe)
  qed
  also have "\<dots> = map (\<lambda>j. map ?F [j * unat b ..< j * unat b + min (unat b) (unat n - j * unat b)]) [0..<unat tn]"
    unfolding eq by simp
  finally show ?thesis using segments [OF po(2,3,1), of ?F] by simp
qed

lemma parallel_is_sequential:
  assumes run: "GenerateRandomsParallel dis d0 rd tp input_seed n buf buf'"
    and buf: "length buf = unat n" "unat n \<le> 2 ^ 60" and pool: "pool_reachable h tp"
  shows "buf' = generate dis (unat n) d0 (Philox1 (if input_seed = 0 then ucast rd else input_seed))"
proof -
  let ?seed = "if input_seed = 0 then ucast rd else input_seed"
  let ?g = "Philox1 ?seed"
  let ?F = "\<lambda>i. (i, value_at (out ?g) i)"
  have vals: "generate dis (unat n) d0 ?g = map (value_at (out ?g)) [0..<unat n]" by (simp add: generate_values)
  have fold: "fold write_elem (map ?F [0..<unat n]) buf = map (value_at (out ?g)) [0..<unat n]"
    using fold_writes [of "map (value_at (out ?g)) [0..<unat n]" 0 buf] buf(1) by (simp add: zip_self_map del: fold_map)
  obtain tn b where p: "ComputeTaskNumSize n (tp_max_threads tp) = (tn, b)" by fastforce
  show ?thesis
  proof (cases "tn = 1")
    case True
    then have "buf' = fold write_elem (GenerateRandoms dis d0 ?seed (0, 0, n)) buf"
      using run p by (simp add: GenerateRandomsParallel_def)
    then show ?thesis using task_writes [of 0 0 ?seed n] fold vals by simp
  next
    case False
    then have pos: "0 < n" using p by (auto simp: ComputeTaskNumSize_def Let_def word_gt_0 split: if_splits)
    note part = ComputeTaskNumSize_partition [OF p buf(2) pos]
    let ?tasks = "map (GenerateRandoms dis d0 ?seed) (prepare_tasks (unat tn) 0 tn b n 0 0)"
    have w: "concat ?tasks = map ?F [0..<unat n]"
      using part False by (intro parallel_writes) auto
    let ?run = "map (\<lambda>task. (GenerateRandoms dis d0 ?seed task, True)) (prepare_tasks (unat tn) 0 tn b n 0 0)"
    obtain ret where s: "SyncRun write_elem tp ?run buf ret buf'"
      using run p False by (auto simp: GenerateRandomsParallel_def)
    have ft: "map fst ?run = ?tasks" by simp
    have "tp_max_threads tp = h" using pool_reachable_ok [OF pool] by (simp add: tp_ok_def)
    then have "0 < h" using part False by (auto simp: partition_ok_def word_gt_0)
    moreover have "commuting write_elem (concat ?tasks)" unfolding w by (intro writes_commute) (simp add: comp_def)
    ultimately show ?thesis using SyncRun_sequential [OF s pool] w fold vals unfolding ft by simp
  qed
qed

end

context stream_distribution
begin

lemma parallel_returns:
  assumes "pool_reachable h tp"
  shows "\<exists>buf'. GenerateRandomsParallel dis d0 rd tp input_seed n buf buf'"
proof -
  obtain tn b where p: "ComputeTaskNumSize n (tp_max_threads tp) = (tn, b)" by fastforce
  show ?thesis by (cases "tn = 1") (auto simp: GenerateRandomsParallel_def p ex_comm [of "\<lambda>buf' ret. SyncRun _ _ _ _ ret buf'"] SyncRun_returns [OF assms])
qed

lemma parallel_iff_sequential:
  assumes "length buf = unat n" "unat n \<le> 2 ^ 60" "pool_reachable h tp"
  shows "GenerateRandomsParallel dis d0 rd tp input_seed n buf buf' \<longleftrightarrow>
    buf' = generate dis (unat n) d0 (Philox1 (if input_seed = 0 then ucast rd else input_seed))"
  using parallel_returns [OF assms(3), of rd input_seed n buf] parallel_is_sequential [OF _ assms] by blast

end

section \<open>Entry points\<close>

text \<open>\<open>RandomUniform\<close>, \<open>RandomNormal\<close> and \<open>TruncatedNormal\<close> of \<^verbatim>\<open>testing/init_random.cc\<close>.\<close>

definition RandomUniform ::
    "(uint32 \<Rightarrow> 'a) \<Rightarrow> uint32 \<Rightarrow> thread_pool \<Rightarrow> size_t \<Rightarrow> size_t \<Rightarrow> 'a list \<Rightarrow> 'a list \<Rightarrow> bool" where
  "RandomUniform to_unit rd thread_pool seed buf_size buf buf' \<longleftrightarrow>
     GenerateRandomsParallel (UniformDistribution to_unit) () rd thread_pool seed buf_size buf buf'"

definition RandomNormal ::
    "(uint32 \<Rightarrow> uint32 \<Rightarrow> 'a \<times> 'a) \<Rightarrow> 'a \<Rightarrow> uint32 \<Rightarrow> thread_pool \<Rightarrow> size_t \<Rightarrow> size_t \<Rightarrow> 'a list \<Rightarrow> 'a list \<Rightarrow> bool" where
  "RandomNormal box_muller zero rd thread_pool seed buf_size buf buf' \<longleftrightarrow>
     GenerateRandomsParallel (NormalDistribution box_muller) (False, zero) rd thread_pool seed buf_size buf buf'"

definition RandomTruncatedNormal ::
    "(uint32 \<Rightarrow> 'a) \<Rightarrow> ('a \<Rightarrow> 'b) \<Rightarrow> uint32 \<Rightarrow> thread_pool \<Rightarrow> size_t \<Rightarrow> size_t \<Rightarrow> 'b list \<Rightarrow> 'b list \<Rightarrow> bool" where
  "RandomTruncatedNormal to_unit inverse_cdf rd thread_pool seed buf_size buf buf' \<longleftrightarrow>
     GenerateRandomsParallel (TruncatedNormal to_unit inverse_cdf) () rd thread_pool seed buf_size buf buf'"

lemma RandomTruncatedNormal_sequential:
  assumes "length buf = unat n" "unat n \<le> 2 ^ 60" "pool_reachable hardware_concurrency tp"
  shows "RandomTruncatedNormal f h rd tp seed n buf buf' \<longleftrightarrow>
    buf' = generate (TruncatedNormal f h) (unat n) () (Philox1 (if seed = 0 then ucast rd else seed))"
  unfolding RandomTruncatedNormal_def by (rule truncated.parallel_iff_sequential [OF assms])

section \<open>Properties\<close>

text \<open>
  C23. \<open>discard\<close> is the repeated call: the numbers drawn after discarding \<open>n\<close> are those that follow
  the first \<open>n\<close> numbers of the same generator, as long as the position within the block plus \<open>n\<close>
  does not wrap around in 64 bits.
\<close>

theorem discard_drops_draws:
  assumes "philox_wf g" and "unat (phx_index g) + unat n < 2 ^ 64"
  shows "draws m (discard n g) = drop (unat n) (draws (unat n + m) g)"
proof -
  have "draws m (discard n g) = map (out g) [unat n ..< unat n + m]"
    using draws_out [OF discard_wf [OF assms(1)]] discard_out [OF assms] by (simp add: map_upt_shift)
  then show ?thesis by (simp add: draws_out [OF assms(1)] drop_map)
qed

theorem discard_drops_draws_witness:
  "draws 3 (discard 10 (Philox1 42)) = drop (unat (10 :: size_t)) (draws (unat (10 :: size_t) + 3) (Philox1 42))"
  by (rule discard_drops_draws) simp_all

text \<open>
  C24. Uniform random numbers do not depend on the threads: \<open>RandomUniform\<close> returns, and what it
  leaves in the buffer is exactly what one sequential generator with the same seed produces, for
  every \<open>hardware_concurrency\<close>, every pool that constructor, runs, clears and forks lead to, and every
  interleaving of its threads.
\<close>

theorem RandomUniform_sequential:
  assumes "length buf = unat buf_size" and "unat buf_size \<le> 2 ^ 60" and "pool_reachable hardware_concurrency thread_pool"
  shows "RandomUniform to_unit rd thread_pool seed buf_size buf buf' \<longleftrightarrow>
    buf' = generate (UniformDistribution to_unit) (unat buf_size) () (Philox1 (if seed = 0 then ucast rd else seed))"
  unfolding RandomUniform_def by (rule uniform.parallel_iff_sequential [OF assms])

theorem RandomUniform_sequential_witness:
  "RandomUniform unat 7 (ThreadPool0 8) 5 2000 (replicate 2000 0)
     (generate (UniformDistribution unat) (unat (2000 :: size_t)) () (Philox1 (if (5 :: size_t) = 0 then ucast (7 :: uint32) else 5)))"
  by (subst RandomUniform_sequential [OF _ _ pool_reachable.constructed]) simp_all

text \<open>
  The same for normally distributed numbers, whose distribution produces two values from two
  draws and keeps one for the next call: every task starts at an even position of the sequence, so
  no pair is torn apart.
\<close>

theorem RandomNormal_sequential:
  assumes "length buf = unat buf_size" and "unat buf_size \<le> 2 ^ 60" and "pool_reachable hardware_concurrency thread_pool"
  shows "RandomNormal box_muller zero rd thread_pool seed buf_size buf buf' \<longleftrightarrow>
    buf' = generate (NormalDistribution box_muller) (unat buf_size) (False, zero) (Philox1 (if seed = 0 then ucast rd else seed))"
  unfolding RandomNormal_def by (rule normal.parallel_iff_sequential [OF assms])

theorem RandomNormal_sequential_witness:
  "RandomNormal (\<lambda>u v. (unat u, unat v)) 0 7 (ThreadPool0 3) 0 1025 (replicate 1025 0)
     (generate (NormalDistribution (\<lambda>u v. (unat u, unat v))) (unat (1025 :: size_t)) (False, 0)
       (Philox1 (if (0 :: size_t) = 0 then ucast (7 :: uint32) else 0)))"
  by (subst RandomNormal_sequential [OF _ _ pool_reachable.constructed]) simp_all

end
