(* ===== verification/Robin_Hood.thy ===== *)
theory Robin_Hood
  imports Prelude "HOL-Library.Multiset"
begin

text \<open>
  \<open>RobinHoodHashMap\<close> of \<^verbatim>\<open>libc/map.h\<close>: an open-addressing table with linear probing whose entries
  carry a probe distance. The hash function is the parameter \<open>hasher\<close>, the default-constructed key
  and value of an empty entry are \<open>d\<close>. The array has \<open>capacity_\<close> entries, so the capacity is the
  length of the table. The probing loops count their steps; \<open>None\<close> is a loop that did not end within
  as many steps as the table has entries (one more for a search), and the theorems show that this
  does not happen. The load factor test \<open>size_ / capacity_ >= 0.75\<close> compares exactly.
\<close>

section \<open>State and operations\<close>

record ('k, 'v) entry =
  e_key :: 'k
  e_value :: 'v
  probe_distance :: int
  occupied :: bool

record ('k, 'v) rh_map =
  table :: "('k, 'v) entry list"
  size_of :: nat

definition Entry0 :: "'k \<times> 'v \<Rightarrow> ('k, 'v) entry" where
  "Entry0 d = \<lparr>e_key = fst d, e_value = snd d, probe_distance = - 1, occupied = False\<rparr>"

definition Entry :: "'k \<Rightarrow> 'v \<Rightarrow> int \<Rightarrow> ('k, 'v) entry" where
  "Entry k v dist = \<lparr>e_key = k, e_value = v, probe_distance = dist, occupied = True\<rparr>"

definition capacity :: "('k, 'v) rh_map \<Rightarrow> nat" where
  "capacity m = length (table m)"

definition hash :: "('k \<Rightarrow> size_t) \<Rightarrow> ('k, 'v) rh_map \<Rightarrow> 'k \<Rightarrow> nat" where
  "hash hasher m k = unat (hasher k) mod capacity m"

definition next_index :: "('k, 'v) rh_map \<Rightarrow> nat \<Rightarrow> nat" where
  "next_index m idx = (idx + 1) mod capacity m"

text \<open>\<open>load_factor() >= max_load_factor_\<close>.\<close>

definition load_exceeded :: "('k, 'v) rh_map \<Rightarrow> bool" where
  "load_exceeded m \<longleftrightarrow> 3 * capacity m \<le> 4 * size_of m"

text \<open>
  The probing loop of \<open>insert\<close>. The two swaps exchange the table entry with the new entry and then
  the probe distance of the entry now in the table with \<open>current_probe\<close>.
\<close>

fun insert_loop ::
    "nat \<Rightarrow> 'k \<Rightarrow> 'v \<Rightarrow> ('k, 'v) entry \<Rightarrow> nat \<Rightarrow> int \<Rightarrow> ('k, 'v) rh_map \<Rightarrow> ('k, 'v) rh_map option" where
  "insert_loop 0 k v new_entry idx current_probe m = None"
| "insert_loop (Suc n) k v new_entry idx current_probe m =
     (let t = table m ! idx in
      if \<not> occupied t then Some (m\<lparr>table := (table m)[idx := new_entry], size_of := size_of m + 1\<rparr>)
      else if e_key t = k then Some (m\<lparr>table := (table m)[idx := t\<lparr>e_value := v\<rparr>]\<rparr>)
      else
        let (t, new_entry, current_probe) =
              (if probe_distance t < current_probe
               then (new_entry\<lparr>probe_distance := current_probe\<rparr>, t, probe_distance new_entry)
               else (t, new_entry, current_probe));
            m = m\<lparr>table := (table m)[idx := t]\<rparr>;
            current_probe = current_probe + 1
        in insert_loop n k v (new_entry\<lparr>probe_distance := current_probe\<rparr>) (next_index m idx) current_probe m)"

text \<open>
  \<open>insert\<close> and \<open>resize_table\<close> call each other; the first argument counts the nesting of the calls.
\<close>

fun rh_insert :: "nat \<Rightarrow> ('k \<Rightarrow> size_t) \<Rightarrow> 'k \<times> 'v \<Rightarrow> 'k \<Rightarrow> 'v \<Rightarrow> ('k, 'v) rh_map \<Rightarrow> ('k, 'v) rh_map option"
and resize_table :: "nat \<Rightarrow> ('k \<Rightarrow> size_t) \<Rightarrow> 'k \<times> 'v \<Rightarrow> nat \<Rightarrow> ('k, 'v) rh_map \<Rightarrow> ('k, 'v) rh_map option"
and migrate :: "nat \<Rightarrow> ('k \<Rightarrow> size_t) \<Rightarrow> 'k \<times> 'v \<Rightarrow> ('k, 'v) entry list \<Rightarrow> ('k, 'v) rh_map \<Rightarrow> ('k, 'v) rh_map option" where
  "rh_insert 0 hasher d k v m = None"
| "rh_insert (Suc n) hasher d k v m = do {
     m \<leftarrow> (if load_exceeded m then resize_table n hasher d (capacity m * 2) m else Some m);
     insert_loop (capacity m) k v (Entry k v 0) (hash hasher m k) 0 m }"
| "resize_table n hasher d new_capacity m =
     (if new_capacity \<le> capacity m then Some m
      else migrate n hasher d (table m) \<lparr>table = replicate new_capacity (Entry0 d), size_of = 0\<rparr>)"
| "migrate n hasher d [] m = Some m"
| "migrate n hasher d (e # es) m =
     (if occupied e then do { m \<leftarrow> rh_insert n hasher d (e_key e) (e_value e) m; migrate n hasher d es m }
      else migrate n hasher d es m)"

definition insert_kv :: "('k \<Rightarrow> size_t) \<Rightarrow> 'k \<times> 'v \<Rightarrow> 'k \<Rightarrow> 'v \<Rightarrow> ('k, 'v) rh_map \<Rightarrow> ('k, 'v) rh_map option" where
  "insert_kv hasher d k v m = rh_insert 2 hasher d k v m"

text \<open>The constructor throws for an empty table.\<close>

definition RobinHoodHashMap :: "('k \<Rightarrow> size_t) \<Rightarrow> 'k \<times> 'v \<Rightarrow> nat \<Rightarrow> ('k, 'v) rh_map option" where
  "RobinHoodHashMap hasher d initial_capacity =
     (if initial_capacity = 0 then None
      else resize_table 0 hasher d initial_capacity \<lparr>table = [], size_of = 0\<rparr>)"

text \<open>The outer option is the step count, the inner one the result of the search.\<close>

fun find_loop :: "nat \<Rightarrow> 'k \<Rightarrow> nat \<Rightarrow> int \<Rightarrow> ('k, 'v) rh_map \<Rightarrow> nat option option" where
  "find_loop 0 k idx current_probe m = None"
| "find_loop (Suc n) k idx current_probe m =
     (let t = table m ! idx in
      if \<not> occupied t then Some None
      else if e_key t = k then Some (Some idx)
      else if probe_distance t < current_probe then Some None
      else find_loop n k (next_index m idx) (current_probe + 1) m)"

definition find_kv :: "('k \<Rightarrow> size_t) \<Rightarrow> 'k \<Rightarrow> ('k, 'v) rh_map \<Rightarrow> 'v option option" where
  "find_kv hasher k m =
     map_option (map_option (\<lambda>i. e_value (table m ! i))) (find_loop (capacity m + 1) k (hash hasher m k) 0 m)"

text \<open>The backward shift of \<open>erase\<close>, and \<open>erase\<close>.\<close>

fun shift_back :: "nat \<Rightarrow> nat \<Rightarrow> nat \<Rightarrow> ('k, 'v) rh_map \<Rightarrow> ('k, 'v) rh_map option" where
  "shift_back 0 idx next_idx m = None"
| "shift_back (Suc n) idx next_idx m =
     (let t = table m ! next_idx in
      if occupied t \<and> 0 < probe_distance t
      then
        let ts = (table m)[idx := t\<lparr>probe_distance := probe_distance t - 1\<rparr>];
            ts = ts[next_idx := (ts ! next_idx)\<lparr>occupied := False\<rparr>]
        in shift_back n next_idx (next_index m next_idx) (m\<lparr>table := ts\<rparr>)
      else Some m)"

definition erase_kv :: "('k \<Rightarrow> size_t) \<Rightarrow> 'k \<Rightarrow> ('k, 'v) rh_map \<Rightarrow> (bool \<times> ('k, 'v) rh_map) option" where
  "erase_kv hasher k m = do {
     r \<leftarrow> find_loop (capacity m + 1) k (hash hasher m k) 0 m;
     (case r of
        None \<Rightarrow> Some (False, m)
      | Some idx \<Rightarrow> do {
          let m' = m\<lparr>table := (table m)[idx := (table m ! idx)\<lparr>occupied := False\<rparr>], size_of := size_of m - 1\<rparr>;
          m' \<leftarrow> shift_back (capacity m + 1) idx (next_index m idx) m';
          Some (True, m') }) }"

section \<open>Invariant\<close>

abbreviation occ_at :: "('k, 'v) entry list \<Rightarrow> nat \<Rightarrow> bool" where
  "occ_at tb i \<equiv> occupied (tb ! (i mod length tb))"

abbreviation dist_at :: "('k, 'v) entry list \<Rightarrow> nat \<Rightarrow> int" where
  "dist_at tb i \<equiv> probe_distance (tb ! (i mod length tb))"

definition entries :: "('k, 'v) entry list \<Rightarrow> ('k \<times> 'v) list" where
  "entries tb = map (\<lambda>e. (e_key e, e_value e)) (filter occupied tb)"

text \<open>
  A probe that starts at the home slot of a key passes the first \<open>t\<close> slots: they are occupied and
  their stored distance does not end the search.
\<close>

definition passes :: "('k, 'v) entry list \<Rightarrow> nat \<Rightarrow> nat \<Rightarrow> bool" where
  "passes tb h t \<longleftrightarrow> (\<forall>s < t. occ_at tb (h + s) \<and> int s \<le> dist_at tb (h + s))"

definition reached :: "('k \<Rightarrow> size_t) \<Rightarrow> ('k, 'v) entry list \<Rightarrow> 'k \<Rightarrow> nat \<Rightarrow> int \<Rightarrow> bool" where
  "reached hasher tb k i d \<longleftrightarrow>
     (\<exists>t < length tb. i = (unat (hasher k) + t) mod length tb \<and> int t \<le> d \<and> passes tb (unat (hasher k)) t)"

definition slots_ok :: "('k \<Rightarrow> size_t) \<Rightarrow> ('k, 'v) entry list \<Rightarrow> bool" where
  "slots_ok hasher tb \<longleftrightarrow> (\<forall>i < length tb. occupied (tb ! i) \<longrightarrow>
     reached hasher tb (e_key (tb ! i)) i (probe_distance (tb ! i)) \<and> probe_distance (tb ! i) < int (length tb))"

definition rh_inv :: "('k \<Rightarrow> size_t) \<Rightarrow> ('k, 'v) rh_map \<Rightarrow> bool" where
  "rh_inv hasher m \<longleftrightarrow> 0 < capacity m \<and> slots_ok hasher (table m) \<and>
     distinct (map fst (entries (table m))) \<and> size_of m = length (entries (table m))"

definition rh_lookup :: "('k, 'v) rh_map \<Rightarrow> 'k \<Rightarrow> 'v option" where
  "rh_lookup m = map_of (entries (table m))"

section \<open>Lemmas on tables\<close>

lemma entries_update:
  "i < length tb \<Longrightarrow> mset (entries (tb[i := e])) + mset (entries [tb ! i]) = mset (entries tb) + mset (entries [e])"
proof (induction tb arbitrary: i)
  case (Cons a tb)
  then show ?case by (cases i) (auto simp: entries_def)
qed simp

text \<open>Occupying slots and raising stored distances keeps probes passing.\<close>

definition raises :: "('k, 'v) entry list \<Rightarrow> ('k, 'v) entry list \<Rightarrow> bool" where
  "raises tb tb' \<longleftrightarrow> length tb' = length tb \<and>
     (\<forall>i < length tb. occupied (tb ! i) \<longrightarrow> occupied (tb' ! i) \<and> probe_distance (tb ! i) \<le> probe_distance (tb' ! i))"

lemma raises_passes: "raises tb tb' \<Longrightarrow> passes tb h t \<Longrightarrow> passes tb' h t"
proof (cases "tb = []")
  case False
  assume r: "raises tb tb'" and p: "passes tb h t"
  have "occ_at tb' (h + s) \<and> int s \<le> dist_at tb' (h + s)" if "s < t" for s
  proof -
    have "(h + s) mod length tb < length tb" using False by simp
    with r have "occ_at tb (h + s) \<Longrightarrow> occ_at tb' (h + s) \<and> dist_at tb (h + s) \<le> dist_at tb' (h + s)"
      by (simp add: raises_def)
    moreover have "occ_at tb (h + s)" "int s \<le> dist_at tb (h + s)" using p that by (simp_all add: passes_def)
    ultimately show ?thesis by simp
  qed
  then show ?thesis by (simp add: passes_def)
qed (simp add: raises_def)

lemma raises_reached: "raises tb tb' \<Longrightarrow> reached hasher tb k i d \<Longrightarrow> reached hasher tb' k i d"
  using raises_passes [of tb tb'] unfolding reached_def by (auto simp: raises_def)

lemma raises_update:
  "\<lbrakk>occupied (tb ! i) \<Longrightarrow> probe_distance (tb ! i) \<le> probe_distance e; occupied e; i < length tb\<rbrakk> \<Longrightarrow> raises tb (tb[i := e])"
  by (auto simp: raises_def nth_list_update)

lemma slots_ok_update:
  assumes "slots_ok hasher tb" "occupied e" "occupied (tb ! i) \<Longrightarrow> probe_distance (tb ! i) \<le> probe_distance e"
    "i < length tb" "reached hasher tb (e_key e) i (probe_distance e)" "probe_distance e < int (length tb)"
  shows "slots_ok hasher (tb[i := e])"
proof -
  have r: "raises tb (tb[i := e])" using assms(2-4) by (intro raises_update)
  show ?thesis
    using assms raises_reached [OF r] by (auto simp: slots_ok_def nth_list_update)
qed

lemma reached_next:
  assumes "reached hasher tb k i d" "occupied (tb ! i)" "d \<le> probe_distance (tb ! i)" "j < length tb" "\<not> occupied (tb ! j)"
  shows "reached hasher tb k ((i + 1) mod length tb) (d + 1)"
proof -
  obtain t where t: "t < length tb" "i = (unat (hasher k) + t) mod length tb" "int t \<le> d" "passes tb (unat (hasher k)) t"
    using assms(1) by (auto simp: reached_def)
  have p: "passes tb (unat (hasher k)) (Suc t)" using t assms(2,3) by (auto simp: passes_def less_Suc_eq)
  have "Suc t \<noteq> length tb"
  proof
    assume full: "Suc t = length tb"
    define s where "s = (j + length tb - unat (hasher k) mod length tb) mod length tb"
    have "s < Suc t" using full t(1) unfolding s_def by (metis mod_less_divisor not_less_zero neq0_conv)
    moreover have "(unat (hasher k) + s) mod length tb = j"
    proof -
      have "(unat (hasher k) + s) mod length tb = (unat (hasher k) mod length tb + (j + length tb - unat (hasher k) mod length tb)) mod length tb"
        by (simp add: s_def mod_add_left_eq mod_add_right_eq)
      also have "unat (hasher k) mod length tb + (j + length tb - unat (hasher k) mod length tb) = j + length tb"
        using mod_less_divisor [of "length tb" "unat (hasher k)"] t(1) by linarith
      finally show ?thesis using assms(4) by simp
    qed
    ultimately show False using p assms(5) by (metis passes_def)
  qed
  with p t show ?thesis by (auto simp: reached_def mod_Suc_eq intro!: exI [of _ "Suc t"])
qed

lemma reached_mono: "reached hasher tb k i d \<Longrightarrow> d \<le> d' \<Longrightarrow> reached hasher tb k i d'"
  unfolding reached_def by force

lemma reached_bound: "reached hasher tb k i d \<Longrightarrow> i < length tb"
  by (auto simp: reached_def intro: mod_less_divisor)

lemma entries_single [simp]:
  "occupied e \<Longrightarrow> entries [e] = [(e_key e, e_value e)]" "\<not> occupied e \<Longrightarrow> entries [e] = []"
  by (simp_all add: entries_def)

section \<open>Insertion\<close>

text \<open>The distance from a slot to the next free one.\<close>

definition free_after :: "('k, 'v) entry list \<Rightarrow> nat \<Rightarrow> nat \<Rightarrow> bool" where
  "free_after tb i D \<longleftrightarrow> \<not> occ_at tb (i + D) \<and> (\<forall>s < D. occ_at tb (i + s))"

lemma later_slot:
  assumes "i < n" "Suc s < n"
  shows "i \<noteq> Suc (i + s) mod n"
proof
  assume "i = Suc (i + s) mod n"
  then have "(i + Suc s) mod n = i mod n" using assms(1) by simp
  then have "n dvd Suc s" by (metis add_diff_cancel_left' mod_eq_dvd_iff_nat le_add1)
  then show False using assms(2) by (auto dest: dvd_imp_le)
qed

lemma next_slot: "(Suc i mod n + s) mod n = Suc (i + s) mod n"
  by (simp add: mod_add_left_eq)

lemma next_slot2: "Suc (Suc i mod n + s) mod n = Suc (Suc (i + s)) mod n"
  using next_slot [of i n "Suc s"] by simp

lemma free_after_next:
  assumes "free_after tb i (Suc D)" "i < length tb" "Suc D < length tb"
  shows "free_after (tb[i := e]) ((i + 1) mod length tb) D"
  using assms(1) later_slot [OF assms(2)] assms(3)
  by (auto simp: free_after_def next_slot nth_list_update_neq)

text \<open>
  The probing loop with an entry \<open>e\<close> in hand that belongs to the current slot or a later one, when no
  slot up to the next free one holds the key given to \<open>insert\<close>: the entry is added.
\<close>

lemma insert_loop_adds:
  assumes "slots_ok hasher (table m)" "free_after (table m) idx D" "p + int D < int (length (table m))" "D < n" "0 \<le> p"
    "\<forall>s < D. e_key (table m ! ((idx + s) mod length (table m))) \<noteq> k"
    "occupied e" "probe_distance e = p" "reached hasher (table m) (e_key e) idx p"
  shows "\<exists>m'. insert_loop n k v e idx p m = Some m' \<and> slots_ok hasher (table m') \<and>
    mset (entries (table m')) = add_mset (e_key e, e_value e) (mset (entries (table m))) \<and>
    size_of m' = size_of m + 1 \<and> length (table m') = length (table m)"
  using assms
proof (induction D arbitrary: n idx e p m)
  case 0
  have i: "idx < length (table m)" using reached_bound [OF 0(9)] .
  obtain n' where n: "n = Suc n'" using 0(4) by (cases n) auto
  have free: "\<not> occupied (table m ! idx)" using 0(2) i by (simp add: free_after_def)
  have "slots_ok hasher ((table m)[idx := e])"
    using slots_ok_update [OF 0(1,7) _ i] 0(3,8,9) free by simp
  moreover have "mset (entries ((table m)[idx := e])) = add_mset (e_key e, e_value e) (mset (entries (table m)))"
    using entries_update [OF i, of e] free 0(7) by simp
  ultimately show ?case using free by (simp add: n)
next
  case (Suc D)
  let ?tb = "table m"
  let ?t = "?tb ! idx"
  have i: "idx < length ?tb" using reached_bound [OF Suc(10)] .
  obtain n' where n: "n = Suc n'" using Suc(5) by (cases n) auto
  have occ: "occupied ?t" and key: "e_key ?t \<noteq> k" using Suc(3,7) i by (force simp: free_after_def)+
  have SD: "Suc D < length ?tb" using Suc(4,6) by linarith
  define j where "j = Suc (idx + D) mod length ?tb"
  have "j < length ?tb" unfolding j_def using i by (intro mod_less_divisor) auto
  moreover have "\<not> occupied (?tb ! j)" using Suc(3) by (simp add: j_def free_after_def)
  ultimately have j: "j < length ?tb" "\<not> occupied (?tb ! j)" "j \<noteq> idx" using occ by auto
  have keys: "\<forall>s < D. e_key (?tb[idx := x] ! ((Suc idx mod length ?tb + s) mod length ?tb)) \<noteq> k" for x
    using SD Suc(7) later_slot [OF i] by (auto simp: next_slot nth_list_update_neq)
  note free = free_after_next [OF Suc(3) i SD]
  show ?case
  proof (cases "probe_distance ?t < p")
    case True
    let ?m = "m\<lparr>table := ?tb[idx := e]\<rparr>"
    let ?e = "?t\<lparr>probe_distance := p + 1\<rparr>"
    have ok: "slots_ok hasher (?tb[idx := e])"
      using slots_ok_update [OF Suc(2,8) _ i] Suc(4,9,10) True by simp
    have r: "raises ?tb (?tb[idx := e])" using Suc(8,9) True i by (intro raises_update) auto
    have "reached hasher ?tb (e_key ?t) idx p"
      using Suc(2) occ i True reached_mono [of hasher ?tb "e_key ?t" idx "probe_distance ?t" p]
      by (auto simp: slots_ok_def)
    then have "reached hasher (?tb[idx := e]) (e_key ?t) (Suc idx mod length ?tb) (p + 1)"
      using reached_next [of hasher "?tb[idx := e]" "e_key ?t" idx p j] raises_reached [OF r] i j Suc(8,9) by simp
    then have "\<exists>m'. insert_loop n' k v ?e (Suc idx mod length ?tb) (p + 1) ?m = Some m' \<and> slots_ok hasher (table m') \<and>
      mset (entries (table m')) = add_mset (e_key ?e, e_value ?e) (mset (entries (table ?m))) \<and>
      size_of m' = size_of ?m + 1 \<and> length (table m') = length (table ?m)"
      using ok free keys Suc(4-6) occ n by (intro Suc.IH) auto
    moreover have "add_mset (e_key ?t, e_value ?t) (mset (entries (?tb[idx := e]))) = add_mset (e_key e, e_value e) (mset (entries ?tb))"
      using entries_update [OF i, of e] occ Suc(8) by simp
    moreover have upd: "e\<lparr>probe_distance := p\<rparr> = e" using Suc(9) by (cases e) simp
    ultimately show ?thesis using occ key True Suc(9)
      by (simp add: n upd Let_def next_index_def capacity_def)
  next
    case False
    let ?e = "e\<lparr>probe_distance := p + 1\<rparr>"
    have "reached hasher ?tb (e_key e) (Suc idx mod length ?tb) (p + 1)"
      using reached_next [OF Suc(10) occ _ j(1,2)] False by simp
    then have "\<exists>m'. insert_loop n' k v ?e (Suc idx mod length ?tb) (p + 1) m = Some m' \<and> slots_ok hasher (table m') \<and>
      mset (entries (table m')) = add_mset (e_key ?e, e_value ?e) (mset (entries (table m))) \<and>
      size_of m' = size_of m + 1 \<and> length (table m') = length (table m)"
      using Suc(2,4-6,8) free [of ?t] keys [of ?t] n by (intro Suc.IH) auto
    then show ?thesis using occ key False
      by (simp add: n Let_def next_index_def capacity_def)
  qed
qed

lemma unique_slot:
  "\<lbrakk>distinct (map fst (entries tb)); i < length tb; j < length tb; occupied (tb ! i); occupied (tb ! j);
    e_key (tb ! i) = e_key (tb ! j)\<rbrakk> \<Longrightarrow> i = j"
proof (induction tb arbitrary: i j)
  case (Cons a tb)
  have mem: "occupied (tb ! l) \<Longrightarrow> l < length tb \<Longrightarrow> e_key (tb ! l) \<in> fst ` set (entries tb)" for l
    by (force simp: entries_def)
  have ent: "entries (a # tb) = entries [a] @ entries tb" by (simp add: entries_def)
  show ?case
  proof (cases i; cases j)
    fix i' j' assume "i = Suc i'" "j = Suc j'"
    then show ?thesis using Cons.IH [of i' j'] Cons.prems by (simp add: ent)
  qed (use Cons.prems mem in \<open>force simp: ent\<close>)+
qed simp

lemma key_slot: "(k, v) \<in> set (entries tb) \<Longrightarrow> \<exists>i < length tb. occupied (tb ! i) \<and> e_key (tb ! i) = k \<and> e_value (tb ! i) = v"
  by (auto simp: entries_def in_set_conv_nth)

lemma slot_key: "i < length tb \<Longrightarrow> occupied (tb ! i) \<Longrightarrow> (e_key (tb ! i), e_value (tb ! i)) \<in> set (entries tb)"
  by (auto simp: entries_def)

text \<open>The probing loop updates the entry of a key that is present.\<close>

lemma insert_loop_updates:
  assumes "distinct (map fst (entries (table m)))" "occ_at (table m) (unat (hasher k) + t)"
    "e_key (table m ! ((unat (hasher k) + t) mod length (table m))) = k" "passes (table m) (unat (hasher k)) t"
    "t < length (table m)" "s \<le> t" "t - s < n" "idx = (unat (hasher k) + s) mod length (table m)"
  shows "insert_loop n k v e idx (int s) m =
    Some (m\<lparr>table := (table m)[(unat (hasher k) + t) mod length (table m) :=
      (table m ! ((unat (hasher k) + t) mod length (table m)))\<lparr>e_value := v\<rparr>]\<rparr>)"
  using assms(6-8)
proof (induction "t - s" arbitrary: s n idx e)
  case 0
  then obtain n' where "n = Suc n'" by (cases n) auto
  with 0 assms(2,3) show ?case by simp
next
  case (Suc d)
  then obtain n' where n: "n = Suc n'" by (cases n) auto
  let ?tb = "table m"
  have st: "s < t" using Suc.hyps by simp
  have len: "0 < length ?tb" using assms(5) by linarith
  have occ: "occupied (?tb ! idx)" and pd: "int s \<le> probe_distance (?tb ! idx)"
    using assms(4) st Suc.prems(3) by (simp_all add: passes_def)
  have "idx \<noteq> (unat (hasher k) + t) mod length ?tb"
  proof
    assume "idx = (unat (hasher k) + t) mod length ?tb"
    then have "length ?tb dvd (t - s)" using Suc.prems(3) st
      by (metis add_diff_cancel_left mod_eq_dvd_iff_nat nat_add_left_cancel_le less_imp_le)
    then show False using st assms(5) by (auto dest: dvd_imp_le)
  qed
  then have key: "e_key (?tb ! idx) \<noteq> k"
    using unique_slot [OF assms(1), of idx "(unat (hasher k) + t) mod length ?tb"] occ assms(2,3) len Suc.prems(3) by auto
  have "insert_loop n' k v (e\<lparr>probe_distance := int (Suc s)\<rparr>) (Suc idx mod length ?tb) (int (Suc s)) m =
    Some (m\<lparr>table := ?tb[(unat (hasher k) + t) mod length ?tb := (?tb ! ((unat (hasher k) + t) mod length ?tb))\<lparr>e_value := v\<rparr>]\<rparr>)"
    using Suc.hyps(2) Suc.prems st n by (intro Suc.hyps(1)) (simp_all add: mod_Suc_eq)
  then show ?case using occ pd key
    by (simp add: n Let_def next_index_def capacity_def add.commute)
qed

lemma free_exists:
  assumes "length (entries tb) < length tb" "i < length tb"
  shows "\<exists>D < length tb. free_after tb i D"
proof -
  obtain j where j: "j < length tb" "\<not> occupied (tb ! j)"
  proof -
    have "\<not> (\<forall>x \<in> set tb. occupied x)" using assms(1) by (metis entries_def filter_True length_map less_irrefl)
    then show ?thesis using that by (auto simp: in_set_conv_nth)
  qed
  let ?s = "(j + length tb - i) mod length tb"
  have "(i + ?s) mod length tb = j"
  proof -
    have "(i + ?s) mod length tb = (i + (j + length tb - i)) mod length tb" by (simp add: mod_add_right_eq)
    also have "i + (j + length tb - i) = j + length tb" using assms(2) by simp
    finally show ?thesis using j(1) by simp
  qed
  then have ex: "\<not> occ_at tb (i + ?s)" using j by simp
  define D where "D = (LEAST s. \<not> occ_at tb (i + s))"
  have "\<not> occ_at tb (i + D)" unfolding D_def using ex by (rule LeastI)
  moreover have "occ_at tb (i + s)" if "s < D" for s using not_less_Least [OF that [unfolded D_def]] by simp
  moreover have "D \<le> ?s" unfolding D_def using ex by (rule Least_le)
  moreover have "?s < length tb" using assms(2) by (intro mod_less_divisor) auto
  ultimately show ?thesis by (intro exI [of _ D]) (auto simp: free_after_def)
qed

lemma distinct_mset: "mset xs = mset ys \<Longrightarrow> distinct (map fst xs) = distinct (map fst ys)"
  by (rule mset_eq_imp_distinct_iff) simp

lemma map_of_mset:
  assumes "mset xs = mset ys" "distinct (map fst xs)"
  shows "map_of xs = map_of ys"
proof
  fix k
  have "distinct (map fst ys)" using assms(2) distinct_mset [OF assms(1)] by simp
  moreover have "set xs = set ys" using assms(1) by (rule mset_eq_setD)
  ultimately have "map_of xs k = Some v \<longleftrightarrow> map_of ys k = Some v" for v using assms(2) by (simp add: map_of_eq_Some_iff)
  then show "map_of xs k = map_of ys k" by (metis option.exhaust)
qed

lemma map_of_replace:
  assumes "k \<notin> fst ` set xs"
  shows "map_of (xs @ (k, v) # ys) = (map_of (xs @ (k, v0) # ys))(k \<mapsto> v)"
proof
  fix x
  have "map_of xs k = None" using assms by (simp add: map_of_eq_None_iff)
  then show "map_of (xs @ (k, v) # ys) x = ((map_of (xs @ (k, v0) # ys))(k \<mapsto> v)) x"
    by (cases "x = k") (simp_all add: map_add_def split: option.split)
qed

lemma entries_split:
  assumes "i < length tb"
  shows "entries tb = entries (take i tb) @ entries [tb ! i] @ entries (drop (Suc i) tb)"
    "entries (tb[i := e]) = entries (take i tb) @ entries [e] @ entries (drop (Suc i) tb)"
proof -
  have e: "entries (xs @ x # ys) = entries xs @ entries [x] @ entries ys"
    for xs ys :: "('a, 'b) entry list" and x by (simp add: entries_def)
  show "entries tb = entries (take i tb) @ entries [tb ! i] @ entries (drop (Suc i) tb)"
    using e [of "take i tb" "tb ! i" "drop (Suc i) tb"] id_take_nth_drop [OF assms] by simp
  show "entries (tb[i := e]) = entries (take i tb) @ entries [e] @ entries (drop (Suc i) tb)"
    using e [of "take i tb" e "drop (Suc i) tb"] by (simp only: upd_conv_take_nth_drop [OF assms])
qed

lemma capacity_simp [simp]: "capacity m = length (table m)"
  by (simp add: capacity_def)

lemma insert_slot:
  assumes inv: "rh_inv hasher m" and room: "size_of m < capacity m"
  shows "\<exists>m'. insert_loop (capacity m) k v (Entry k v 0) (hash hasher m k) 0 m = Some m' \<and> rh_inv hasher m' \<and>
    rh_lookup m' = (rh_lookup m)(k \<mapsto> v) \<and> capacity m' = capacity m \<and> size_of m' \<le> size_of m + 1"
proof -
  let ?tb = "table m"
  have len: "0 < length ?tb" and ok: "slots_ok hasher ?tb" and dist: "distinct (map fst (entries ?tb))"
    and size: "size_of m = length (entries ?tb)" using inv by (simp_all add: rh_inv_def)
  have h: "hash hasher m k < length ?tb" using len by (simp add: hash_def)
  show ?thesis
  proof (cases "k \<in> fst ` set (entries ?tb)")
    case True
    then obtain i where i: "i < length ?tb" "occupied (?tb ! i)" "e_key (?tb ! i) = k" using key_slot by force
    then obtain t where t: "t < length ?tb" "i = (unat (hasher k) + t) mod length ?tb" "passes ?tb (unat (hasher k)) t"
      using ok by (auto simp: slots_ok_def reached_def)
    let ?e = "(?tb ! i)\<lparr>e_value := v\<rparr>"
    have "insert_loop (capacity m) k v (Entry k v 0) (hash hasher m k) (int 0) m = Some (m\<lparr>table := ?tb[i := ?e]\<rparr>)"
      unfolding t(2) using i t dist by (intro insert_loop_updates) (simp_all add: hash_def)
    moreover have "slots_ok hasher (?tb[i := ?e])"
      using ok i by (intro slots_ok_update) (auto simp: slots_ok_def)
    moreover have "map fst (entries (?tb[i := ?e])) = map fst (entries ?tb)" "length (entries (?tb[i := ?e])) = length (entries ?tb)"
      using i by (simp_all add: entries_split [OF i(1)])
    moreover have "map_of (entries (?tb[i := ?e])) = (map_of (entries ?tb))(k \<mapsto> v)"
      using i dist map_of_replace [of k "entries (take i ?tb)" v "entries (drop (Suc i) ?tb)" "e_value (?tb ! i)"]
      by (simp add: entries_split [OF i(1)])
    ultimately show ?thesis using len dist size by (auto simp: rh_inv_def rh_lookup_def)
  next
    case False
    obtain D where D: "D < length ?tb" "free_after ?tb (hash hasher m k) D"
      using free_exists [OF _ h] room size by auto
    have r: "reached hasher ?tb k (hash hasher m k) 0"
      using len by (auto simp: reached_def passes_def hash_def intro!: exI [of _ 0])
    have "e_key (?tb ! ((hash hasher m k + s) mod length ?tb)) \<noteq> k" if "s < D" for s
      using slot_key [of "(hash hasher m k + s) mod length ?tb" ?tb] D(2) that False len by (force simp: free_after_def)
    then obtain m' where m': "insert_loop (capacity m) k v (Entry k v 0) (hash hasher m k) 0 m = Some m'"
      "slots_ok hasher (table m')" "mset (entries (table m')) = add_mset (k, v) (mset (entries ?tb))"
      "size_of m' = size_of m + 1" "length (table m') = length ?tb"
      using insert_loop_adds [OF ok D(2), of 0 "capacity m" k "Entry k v 0" v] D(1) r by (auto simp: Entry_def)
    have e: "mset (entries (table m')) = mset ((k, v) # entries ?tb)" using m'(3) by simp
    have "distinct (map fst (entries (table m')))" using distinct_mset [OF e] dist False by auto
    moreover from this have "map_of (entries (table m')) = (map_of (entries ?tb))(k \<mapsto> v)" using map_of_mset [OF e] by simp
    moreover have "length (entries (table m')) = Suc (length (entries ?tb))" using arg_cong [OF m'(3), of size] by simp
    ultimately show ?thesis using m' len size by (auto simp: rh_inv_def rh_lookup_def)
  qed
qed

lemma insert_no_resize:
  assumes "rh_inv hasher m" "\<not> load_exceeded m"
  shows "\<exists>m'. rh_insert (Suc n) hasher d k v m = Some m' \<and> rh_inv hasher m' \<and>
    rh_lookup m' = (rh_lookup m)(k \<mapsto> v) \<and> capacity m' = capacity m \<and> size_of m' \<le> size_of m + 1"
  using insert_slot [OF assms(1), of k v] assms by (auto simp: load_exceeded_def rh_inv_def)

lemma empty_table:
  assumes "0 < n"
  shows "rh_inv hasher \<lparr>table = replicate n (Entry0 d), size_of = 0\<rparr>"
    "rh_lookup \<lparr>table = replicate n (Entry0 d), size_of = 0\<rparr> = Map.empty"
  using assms by (simp_all add: rh_inv_def rh_lookup_def slots_ok_def entries_def Entry0_def)

lemma migrate_ok:
  assumes "rh_inv hasher m" "distinct (map fst (entries es))" "size_of m + length (entries es) \<le> B" "4 * B < 3 * capacity m"
  shows "\<exists>m'. migrate (Suc n) hasher d es m = Some m' \<and> rh_inv hasher m' \<and>
    rh_lookup m' = rh_lookup m ++ map_of (entries es) \<and> capacity m' = capacity m \<and>
    size_of m' \<le> size_of m + length (entries es)"
  using assms
proof (induction es arbitrary: m)
  case (Cons e es)
  show ?case
  proof (cases "occupied e")
    case True
    have en: "entries (e # es) = (e_key e, e_value e) # entries es" using True by (simp add: entries_def)
    have "\<not> load_exceeded m" using Cons.prems en by (simp add: load_exceeded_def)
    from insert_no_resize [OF Cons.prems(1) this, of n d "e_key e" "e_value e"] obtain m1 where
      m1: "rh_insert (Suc n) hasher d (e_key e) (e_value e) m = Some m1" "rh_inv hasher m1"
        "rh_lookup m1 = (rh_lookup m)(e_key e \<mapsto> e_value e)" "capacity m1 = capacity m" "size_of m1 \<le> size_of m + 1"
      by blast
    obtain m' where "migrate (Suc n) hasher d es m1 = Some m'" "rh_inv hasher m'"
        "rh_lookup m' = rh_lookup m1 ++ map_of (entries es)" "capacity m' = capacity m1"
        "size_of m' \<le> size_of m1 + length (entries es)"
      using Cons.IH [OF m1(2)] Cons.prems m1(4,5) en by auto
    moreover have "rh_lookup m ++ map_of (entries (e # es)) = (rh_lookup m)(e_key e \<mapsto> e_value e) ++ map_of (entries es)"
      using Cons.prems(2) by (simp add: en map_add_upd_left dom_map_of_conv_image_fst)
    moreover have "length (entries (e # es)) = Suc (length (entries es))" by (simp add: en)
    ultimately show ?thesis using True m1 by simp
  next
    case False
    then have "entries (e # es) = entries es" by (simp add: entries_def)
    then show ?thesis using Cons False by simp
  qed
qed (simp add: entries_def)

lemma insert_kv_ok:
  assumes "rh_inv hasher m"
  shows "\<exists>m'. insert_kv hasher d k v m = Some m' \<and> rh_inv hasher m' \<and> rh_lookup m' = (rh_lookup m)(k \<mapsto> v)"
proof (cases "load_exceeded m")
  case False
  then show ?thesis using insert_no_resize [OF assms False, of "Suc 0" d k v] by (auto simp: insert_kv_def numeral_2_eq_2)
next
  case True
  have len: "0 < length (table m)" and dist: "distinct (map fst (entries (table m)))" using assms by (simp_all add: rh_inv_def)
  have le: "length (entries (table m)) \<le> length (table m)" by (simp add: entries_def)
  let ?m0 = "\<lparr>table = replicate (capacity m * 2) (Entry0 d), size_of = 0\<rparr>"
  obtain m1 where m1: "migrate (Suc 0) hasher d (table m) ?m0 = Some m1" "rh_inv hasher m1" "rh_lookup m1 = rh_lookup m"
      "capacity m1 = 2 * capacity m" "size_of m1 \<le> length (entries (table m))"
    using migrate_ok [of hasher ?m0 "table m" "length (table m)" 0 d] empty_table(1) [of "capacity m * 2" hasher d]
      empty_table(2) [of "capacity m * 2" d] len dist le
    by (auto simp: rh_lookup_def)
  have "size_of m1 < capacity m1" using m1(4,5) le len unfolding capacity_def by linarith
  from insert_slot [OF m1(2) this, of k v] show ?thesis using True m1 len
    by (auto simp: insert_kv_def numeral_2_eq_2)
qed

lemma RobinHoodHashMap_ok:
  assumes "0 < n"
  shows "\<exists>m. RobinHoodHashMap hasher d n = Some m \<and> rh_inv hasher m \<and> rh_lookup m = Map.empty"
  using assms empty_table(1) [OF assms, of hasher d] empty_table(2) [OF assms, of d] by (simp add: RobinHoodHashMap_def)

section \<open>Search\<close>

lemma find_loop_hit:
  assumes "distinct (map fst (entries (table m)))" "occ_at (table m) (unat (hasher k) + t)"
    "e_key (table m ! ((unat (hasher k) + t) mod length (table m))) = k" "passes (table m) (unat (hasher k)) t"
    "t < length (table m)" "s \<le> t" "t - s < n" "idx = (unat (hasher k) + s) mod length (table m)"
  shows "find_loop n k idx (int s) m = Some (Some ((unat (hasher k) + t) mod length (table m)))"
  using assms(6-8)
proof (induction "t - s" arbitrary: s n idx)
  case 0
  then obtain n' where "n = Suc n'" by (cases n) auto
  with 0 assms(2,3) show ?case by simp
next
  case (Suc d)
  then obtain n' where n: "n = Suc n'" by (cases n) auto
  let ?tb = "table m"
  have st: "s < t" using Suc.hyps by simp
  have occ: "occupied (?tb ! idx)" and pd: "int s \<le> probe_distance (?tb ! idx)"
    using assms(4) st Suc.prems(3) by (simp_all add: passes_def)
  have key: "e_key (?tb ! idx) \<noteq> k \<or> idx = (unat (hasher k) + t) mod length ?tb"
    using unique_slot [OF assms(1), of idx "(unat (hasher k) + t) mod length ?tb"] occ assms(2,3,5) Suc.prems(3)
    by (metis mod_less_divisor neq0_conv not_less_zero)
  have "find_loop n' k (Suc idx mod length ?tb) (int (Suc s)) m = Some (Some ((unat (hasher k) + t) mod length ?tb))"
    using Suc.hyps(2) Suc.prems st n by (intro Suc.hyps(1)) (simp_all add: mod_Suc_eq)
  then show ?case using occ pd key assms(2,3)
    by (auto simp: n Let_def next_index_def add.commute)
qed

lemma find_loop_miss:
  assumes "\<And>i. i < length (table m) \<Longrightarrow> occupied (table m ! i) \<Longrightarrow>
      e_key (table m ! i) \<noteq> k \<and> probe_distance (table m ! i) < int (length (table m))"
    "idx < length (table m)" "p \<le> int (length (table m))" "int (length (table m)) < int n + p"
  shows "find_loop n k idx p m = Some None"
  using assms(2-4)
proof (induction n arbitrary: idx p)
  case (Suc n)
  have len: "0 < length (table m)" using Suc(2) by linarith
  then have "Suc idx mod length (table m) < length (table m)" by simp
  with Suc.IH [of "Suc idx mod length (table m)" "p + 1"] Suc.prems assms(1) [OF Suc(2)] show ?case
    by (auto simp: Let_def next_index_def)
qed simp

lemma find_kv_ok:
  assumes "rh_inv hasher m"
  shows "find_kv hasher k m = Some (rh_lookup m k)"
proof -
  let ?tb = "table m"
  have len: "0 < length ?tb" and ok: "slots_ok hasher ?tb" and dist: "distinct (map fst (entries ?tb))"
    using assms by (simp_all add: rh_inv_def)
  show ?thesis
  proof (cases "rh_lookup m k")
    case None
    then have "k \<notin> fst ` set (entries ?tb)" by (simp add: rh_lookup_def map_of_eq_None_iff)
    then have "e_key (?tb ! i) \<noteq> k \<and> probe_distance (?tb ! i) < int (length ?tb)" if "i < length ?tb" "occupied (?tb ! i)" for i
      using slot_key [OF that] ok that by (force simp: slots_ok_def)
    then have "find_loop (capacity m + 1) k (hash hasher m k) 0 m = Some None"
      using len by (intro find_loop_miss) (auto simp: hash_def)
    then show ?thesis by (simp add: find_kv_def None)
  next
    case (Some v)
    then have "(k, v) \<in> set (entries ?tb)" by (simp add: rh_lookup_def map_of_SomeD)
    then obtain i where i: "i < length ?tb" "occupied (?tb ! i)" "e_key (?tb ! i) = k" "e_value (?tb ! i) = v"
      using key_slot by force
    then obtain t where t: "t < length ?tb" "i = (unat (hasher k) + t) mod length ?tb" "passes ?tb (unat (hasher k)) t"
      using ok by (auto simp: slots_ok_def reached_def)
    have "find_loop (capacity m + 1) k (hash hasher m k) (int 0) m = Some (Some i)"
      unfolding t(2) using i t dist by (intro find_loop_hit) (simp_all add: hash_def)
    then show ?thesis by (simp add: find_kv_def Some i)
  qed
qed

section \<open>Erasure\<close>

text \<open>
  A table whose stored distances are exact, and one with a hole at slot \<open>x\<close> that probes may run over.
\<close>

definition passes_but :: "nat \<Rightarrow> ('k, 'v) entry list \<Rightarrow> nat \<Rightarrow> nat \<Rightarrow> bool" where
  "passes_but x tb h t \<longleftrightarrow>
     (\<forall>s < t. (h + s) mod length tb = x \<or> (occ_at tb (h + s) \<and> int s \<le> dist_at tb (h + s)))"

definition placed :: "('k \<Rightarrow> size_t) \<Rightarrow> ('k, 'v) entry list \<Rightarrow> nat \<Rightarrow> nat \<Rightarrow> bool" where
  "placed hasher tb i t \<longleftrightarrow> t < length tb \<and> i = (unat (hasher (e_key (tb ! i))) + t) mod length tb \<and>
     probe_distance (tb ! i) = int t"

definition exact :: "('k \<Rightarrow> size_t) \<Rightarrow> ('k, 'v) entry list \<Rightarrow> bool" where
  "exact hasher tb \<longleftrightarrow> (\<forall>i < length tb. occupied (tb ! i) \<longrightarrow>
     (\<exists>t. placed hasher tb i t \<and> passes tb (unat (hasher (e_key (tb ! i)))) t))"

definition exact_but :: "nat \<Rightarrow> ('k \<Rightarrow> size_t) \<Rightarrow> ('k, 'v) entry list \<Rightarrow> bool" where
  "exact_but x hasher tb \<longleftrightarrow> (\<forall>i < length tb. occupied (tb ! i) \<longrightarrow>
     (\<exists>t. placed hasher tb i t \<and> passes_but x tb (unat (hasher (e_key (tb ! i)))) t))"

lemma exact_slots_ok: "exact hasher tb \<Longrightarrow> slots_ok hasher tb"
  unfolding exact_def slots_ok_def reached_def placed_def by force

lemma mod_Suc_inj:
  assumes "Suc i mod n = Suc j mod n" "i < n" "j < n"
  shows "i = j"
proof -
  have "i = j + 0 \<or> i < j \<or> j < i" by linarith
  then show ?thesis
    using assms by (auto simp: mod_Suc split: if_splits)
qed

lemma mod_offset_inj: "(h + s) mod n = (h + t) mod n \<Longrightarrow> s < n \<Longrightarrow> t < n \<Longrightarrow> s = (t :: nat)"
proof (induction s t rule: linorder_wlog)
  case (le s t)
  have "n dvd t - s" using mod_eq_dvd_iff_nat [of "h + s" "h + t" n] le by simp
  then show ?case using le by (auto dest: dvd_imp_le)
qed simp

text \<open>The shift stops where the hole does no harm.\<close>

lemma exact_stop:
  assumes "exact_but x hasher tb" "x < length tb" "\<not> occupied (tb ! x)" "x \<noteq> Suc x mod length tb"
    "\<not> (occupied (tb ! (Suc x mod length tb)) \<and> 0 < probe_distance (tb ! (Suc x mod length tb)))"
  shows "exact hasher tb"
  unfolding exact_def
proof (intro allI impI)
  fix i assume i: "i < length tb" "occupied (tb ! i)"
  let ?h = "unat (hasher (e_key (tb ! i)))"
  obtain t where t: "placed hasher tb i t" "passes_but x tb ?h t" using assms(1) i by (auto simp: exact_but_def)
  have "(?h + s) mod length tb \<noteq> x" if "s < t" for s
  proof
    assume s: "(?h + s) mod length tb = x"
    then have nx: "(?h + Suc s) mod length tb = Suc x mod length tb" by (metis add_Suc_right mod_Suc_eq)
    show False
    proof (cases "Suc s = t")
      case True
      then have "i = Suc x mod length tb" using t(1) nx by (metis placed_def)
      then show False using assms(5) i t(1) that by (simp add: placed_def)
    next
      case False
      then have "Suc s < t" using that by simp
      then have "Suc x mod length tb = x \<or> (occupied (tb ! (Suc x mod length tb)) \<and> int (Suc s) \<le> probe_distance (tb ! (Suc x mod length tb)))"
        using t(2) nx unfolding passes_but_def by metis
      then show False using assms(4,5) by auto
    qed
  qed
  then have "passes tb ?h t" using t(2) by (auto simp: passes_def passes_but_def)
  with t(1) show "\<exists>t. placed hasher tb i t \<and> passes tb ?h t" by blast
qed

text \<open>One step of the shift moves the hole.\<close>

lemma exact_shift:
  fixes tb :: "('k, 'v) entry list"
  defines "nx x \<equiv> Suc x mod length tb"
  assumes ex: "exact_but x hasher tb" and x: "x < length tb" "\<not> occupied (tb ! x)" "x \<noteq> nx x"
    and e: "occupied (tb ! nx x)" "0 < probe_distance (tb ! nx x)"
  shows "exact_but (nx x) hasher
    (tb[x := (tb ! nx x)\<lparr>probe_distance := probe_distance (tb ! nx x) - 1\<rparr>, nx x := (tb ! nx x)\<lparr>occupied := False\<rparr>])"
proof -
  let ?y = "nx x"
  let ?tb = "tb[x := (tb ! ?y)\<lparr>probe_distance := probe_distance (tb ! ?y) - 1\<rparr>, ?y := (tb ! ?y)\<lparr>occupied := False\<rparr>]"
  have y: "?y < length tb" using x(1) unfolding nx_def by (intro mod_less_divisor) auto
  have nth: "?tb ! j = (if j = ?y then (tb ! ?y)\<lparr>occupied := False\<rparr>
      else if j = x then (tb ! ?y)\<lparr>probe_distance := probe_distance (tb ! ?y) - 1\<rparr> else tb ! j)" for j
    using x y by (auto simp: nth_list_update)
  have len: "length ?tb = length tb" by simp
  let ?hy = "unat (hasher (e_key (tb ! ?y)))"
  obtain ty where ty: "placed hasher tb ?y ty" "passes_but x tb ?hy ty" using ex y e by (auto simp: exact_but_def)
  have ty0: "0 < ty" "ty < length tb" "probe_distance (tb ! ?y) = int ty" using ty(1) e(2) by (simp_all add: placed_def)
  have xy: "(?hy + (ty - 1)) mod length tb = x"
  proof (rule mod_Suc_inj)
    show "Suc ((?hy + (ty - 1)) mod length tb) mod length tb = Suc x mod length tb"
      using ty(1) ty0(1) by (simp add: placed_def mod_Suc_eq nx_def)
  qed (use x y in \<open>auto intro: mod_less_divisor\<close>)
  have "\<exists>t. placed hasher ?tb i t \<and> passes_but ?y ?tb (unat (hasher (e_key (?tb ! i)))) t"
    if i: "i < length tb" "occupied (?tb ! i)" for i
  proof (cases "i = x")
    case True
    have "passes_but ?y ?tb ?hy (ty - 1)"
      unfolding passes_but_def len
    proof (intro allI impI)
      fix s assume s: "s < ty - 1"
      have "ty - 1 < length tb" "s < length tb" "s \<noteq> ty - 1" using s ty0 by linarith+
      then have "(?hy + s) mod length tb \<noteq> x" using mod_offset_inj [of ?hy s "length tb" "ty - 1"] xy by metis
      moreover have "(?hy + s) mod length tb = x \<or> (occ_at tb (?hy + s) \<and> int s \<le> dist_at tb (?hy + s))"
        using ty(2) s by (simp add: passes_but_def)
      ultimately show "(?hy + s) mod length tb = ?y \<or>
          (occupied (?tb ! ((?hy + s) mod length tb)) \<and> int s \<le> probe_distance (?tb ! ((?hy + s) mod length tb)))"
        by (simp add: nth)
    qed
    moreover have "placed hasher ?tb x (ty - 1)" using ty0 xy x by (simp add: placed_def nth less_imp_diff_less)
    ultimately show ?thesis using True x(3) by (auto simp: nth)
  next
    case False
    have iy: "i \<noteq> ?y" using i(2) by (auto simp: nth)
    let ?h = "unat (hasher (e_key (tb ! i)))"
    have ti: "?tb ! i = tb ! i" using False iy by (simp add: nth)
    then obtain t where t: "placed hasher tb i t" "passes_but x tb ?h t" using ex i by (auto simp: exact_but_def)
    have "passes_but ?y ?tb ?h t"
      unfolding passes_but_def len
    proof (intro allI impI)
      fix s assume s: "s < t"
      show "(?h + s) mod length tb = ?y \<or>
          (occupied (?tb ! ((?h + s) mod length tb)) \<and> int s \<le> probe_distance (?tb ! ((?h + s) mod length tb)))"
      proof (cases "(?h + s) mod length tb = x")
        case hole: True
        then have ny: "(?h + Suc s) mod length tb = ?y" by (metis add_Suc_right mod_Suc_eq nx_def)
        then have "Suc s \<noteq> t" using t(1) iy by (metis placed_def)
        then have "Suc s < t" using s by simp
        then have "?y = x \<or> int (Suc s) \<le> probe_distance (tb ! ?y)" using t(2) ny unfolding passes_but_def by metis
        then show ?thesis using hole x(3) e(1) by (simp add: nth)
      next
        case no: False
        have "(?h + s) mod length tb = x \<or> (occ_at tb (?h + s) \<and> int s \<le> dist_at tb (?h + s))"
          using t(2) s by (simp add: passes_but_def)
        then show ?thesis using no by (simp add: nth)
      qed
    qed
    then show ?thesis using t(1) by (auto simp: ti placed_def)
  qed
  then show ?thesis by (simp add: exact_but_def)
qed

lemma shift_back_exact:
  assumes "exact_but x hasher (table m)" "x < length (table m)" "\<not> occupied (table m ! x)"
    "free_after (table m) (Suc x mod length (table m)) D" "Suc D < length (table m)" "D < n"
  shows "\<exists>m'. shift_back n x (Suc x mod length (table m)) m = Some m' \<and> exact hasher (table m') \<and>
    mset (entries (table m')) = mset (entries (table m)) \<and> size_of m' = size_of m \<and> length (table m') = length (table m)"
  using assms
proof (induction D arbitrary: n x m)
  case 0
  then obtain n' where n: "n = Suc n'" by (cases n) auto
  have "Suc x mod length (table m) < length (table m)" using 0(2) by (intro mod_less_divisor) auto
  then have free: "\<not> occupied (table m ! (Suc x mod length (table m)))" using 0(4) by (simp add: free_after_def)
  have "exact hasher (table m)"
    using exact_stop [OF 0(1-3)] free later_slot [OF 0(2), of 0] 0(5) by simp
  then show ?case using free by (simp add: n)
next
  case (Suc D)
  then obtain n' where n: "n = Suc n'" by (cases n) auto
  let ?tb = "table m"
  let ?y = "Suc x mod length ?tb"
  have y: "?y < length ?tb" using Suc(3) by (intro mod_less_divisor) auto
  have ne: "x \<noteq> ?y" using later_slot [OF Suc(3), of 0] Suc(6) by simp
  show ?case
  proof (cases "occupied (?tb ! ?y) \<and> 0 < probe_distance (?tb ! ?y)")
    case False
    then show ?thesis using exact_stop [OF Suc(2-4) ne] by (auto simp: n Let_def)
  next
    case True
    let ?t1 = "?tb[x := (?tb ! ?y)\<lparr>probe_distance := probe_distance (?tb ! ?y) - 1\<rparr>]"
    let ?ts = "?t1[?y := (?tb ! ?y)\<lparr>occupied := False\<rparr>]"
    have len: "length ?ts = length ?tb" by simp
    have ex: "exact_but ?y hasher ?ts" using exact_shift [OF Suc(2-4) ne] True by simp
    have far: "x \<noteq> (?y + Suc s) mod length ?tb" if "s \<le> D" for s
      using later_slot [OF Suc(3), of "Suc s"] that Suc(6) by (simp add: next_slot2)
    have "free_after (?tb[?y := (?tb ! ?y)\<lparr>occupied := False\<rparr>]) (Suc ?y mod length ?tb) D"
      using free_after_next [OF Suc(5) y] Suc(6) by simp
    then have free: "free_after ?ts (Suc ?y mod length ?ts) D"
      using far ne by (auto simp: free_after_def next_slot list_update_swap [of x])
    have "\<exists>m'. shift_back n' ?y (Suc ?y mod length ?ts) (m\<lparr>table := ?ts\<rparr>) = Some m' \<and> exact hasher (table m') \<and>
      mset (entries (table m')) = mset (entries ?ts) \<and> size_of m' = size_of m \<and> length (table m') = length ?ts"
      using Suc.IH [of ?y "m\<lparr>table := ?ts\<rparr>" n'] ex y free Suc(6,7) n by simp
    moreover have "mset (entries ?ts) = mset (entries ?tb)"
    proof -
      have "mset (entries ?t1) = add_mset (e_key (?tb ! ?y), e_value (?tb ! ?y)) (mset (entries ?tb))"
        using entries_update [OF Suc(3), of "(?tb ! ?y)\<lparr>probe_distance := probe_distance (?tb ! ?y) - 1\<rparr>"] Suc(4) True by simp
      moreover have "add_mset (e_key (?tb ! ?y), e_value (?tb ! ?y)) (mset (entries ?ts)) = mset (entries ?t1)"
        using entries_update [of ?y ?t1 "(?tb ! ?y)\<lparr>occupied := False\<rparr>"] y ne True by simp
      ultimately show ?thesis by simp
    qed
    ultimately show ?thesis using True ne by (simp add: n Let_def next_index_def)
  qed
qed

lemma erase_kv_exact:
  assumes inv: "rh_inv hasher m" and ex: "exact hasher (table m)" and room: "size_of m < capacity m"
  shows "\<exists>m'. erase_kv hasher k m = Some (rh_lookup m k \<noteq> None, m') \<and> rh_inv hasher m' \<and> exact hasher (table m') \<and>
    rh_lookup m' = (rh_lookup m)(k := None)"
proof (cases "rh_lookup m k")
  case None
  then have "find_loop (capacity m + 1) k (hash hasher m k) 0 m = Some None"
    using find_kv_ok [OF inv, of k] by (auto simp: find_kv_def)
  then show ?thesis using None inv ex by (auto simp: erase_kv_def)
next
  case (Some v)
  let ?tb = "table m"
  have len: "0 < length ?tb" and dist: "distinct (map fst (entries ?tb))" and size: "size_of m = length (entries ?tb)"
    using inv by (simp_all add: rh_inv_def)
  have "(k, v) \<in> set (entries ?tb)" using Some by (simp add: rh_lookup_def map_of_SomeD)
  then obtain i where i: "i < length ?tb" "occupied (?tb ! i)" "e_key (?tb ! i) = k" "e_value (?tb ! i) = v"
    using key_slot by force
  then obtain t where t: "placed hasher ?tb i t" "passes ?tb (unat (hasher k)) t" using ex by (auto simp: exact_def)
  have it: "t < length ?tb" "i = (unat (hasher k) + t) mod length ?tb" using t(1) i(3) by (simp_all add: placed_def)
  have hit: "find_loop (capacity m + 1) k (hash hasher m k) (int 0) m = Some (Some i)"
    unfolding it(2) using i it t dist by (intro find_loop_hit) (simp_all add: hash_def)
  let ?tb' = "?tb[i := (?tb ! i)\<lparr>occupied := False\<rparr>]"
  let ?m = "m\<lparr>table := ?tb', size_of := size_of m - 1\<rparr>"
  have ent: "mset (entries ?tb) = add_mset (k, v) (mset (entries ?tb'))"
    using entries_update [OF i(1), of "(?tb ! i)\<lparr>occupied := False\<rparr>"] i by simp
  have "exact_but i hasher ?tb'"
    unfolding exact_but_def
  proof (intro allI impI)
    fix j assume j: "j < length ?tb'" "occupied (?tb' ! j)"
    then have ji: "j \<noteq> i" using i(1) by auto
    then have tj: "?tb' ! j = ?tb ! j" by simp
    then obtain u where "placed hasher ?tb j u" "passes ?tb (unat (hasher (e_key (?tb ! j)))) u"
      using ex j by (auto simp: exact_def)
    then show "\<exists>t. placed hasher ?tb' j t \<and> passes_but i ?tb' (unat (hasher (e_key (?tb' ! j)))) t"
      unfolding tj by (intro exI [of _ u]) (auto simp: placed_def tj passes_def passes_but_def nth_list_update_neq)
  qed
  moreover obtain D where D: "Suc D < length ?tb'" "free_after ?tb' (Suc i mod length ?tb') D"
  proof -
    have "Suc i mod length ?tb < length ?tb" using len by simp
    then obtain D where D: "D < length ?tb" "free_after ?tb (Suc i mod length ?tb) D"
      using free_exists [of ?tb] room size by auto
    have around: "(Suc i mod length ?tb + s) mod length ?tb = i" if "Suc s = length ?tb" for s
      using next_slot [of i "length ?tb" s] mod_add_self2 [of i "length ?tb"] i(1) that by (metis add_Suc_right mod_less)
    have "Suc D < length ?tb"
      using D around [of D] i(2) by (cases "Suc D = length ?tb") (auto simp: free_after_def)
    moreover from this have "free_after ?tb' (Suc i mod length ?tb') D"
      using D(2) later_slot [OF i(1)] by (auto simp: free_after_def next_slot)
    ultimately show ?thesis using that by simp
  qed
  ultimately obtain m' where m': "shift_back (capacity m + 1) i (Suc i mod length ?tb) ?m = Some m'" "exact hasher (table m')"
      "mset (entries (table m')) = mset (entries ?tb')" "size_of m' = size_of ?m" "length (table m') = length ?tb'"
    using shift_back_exact [of i hasher ?m D "capacity m + 1"] i by auto
  have e: "mset (entries ?tb) = mset ((k, v) # entries (table m'))" using ent m'(3) by simp
  have d: "distinct (map fst ((k, v) # entries (table m')))" using distinct_mset [OF e] dist by simp
  have "map_of (entries ?tb) = (map_of (entries (table m')))(k \<mapsto> v)" using map_of_mset [OF e dist] by simp
  moreover have "map_of (entries (table m')) k = None" using d by (simp add: map_of_eq_None_iff)
  ultimately have look: "rh_lookup m' = (rh_lookup m)(k := None)" by (auto simp: rh_lookup_def fun_eq_iff)
  have "length (entries ?tb) = Suc (length (entries (table m')))" using arg_cong [OF e, of size] by simp
  then have "rh_inv hasher m'" using m' d size len exact_slots_ok [OF m'(2)] by (simp add: rh_inv_def)
  then show ?thesis using m' look hit Some by (simp add: erase_kv_def next_index_def)
qed

section \<open>The map interface\<close>

text \<open>
  A map that is built by insertions: the operations return, and a search sees the updates. The
  client's view is a sequence of insertions followed by a search.
\<close>

fun insert_all :: "('k \<Rightarrow> 'v \<Rightarrow> 'm \<Rightarrow> 'm option) \<Rightarrow> ('k \<times> 'v) list \<Rightarrow> 'm \<Rightarrow> 'm option" where
  "insert_all ins [] m = Some m"
| "insert_all ins (kv # kvs) m = Option.bind (ins (fst kv) (snd kv) m) (insert_all ins kvs)"

locale insert_map =
  fixes make :: "nat \<Rightarrow> 'm option" and ins :: "'k \<Rightarrow> 'v \<Rightarrow> 'm \<Rightarrow> 'm option"
    and fnd :: "'k \<Rightarrow> 'm \<Rightarrow> 'v option option" and inv :: "'m \<Rightarrow> bool" and look :: "'m \<Rightarrow> 'k \<Rightarrow> 'v option"
  assumes make_ok: "0 < n \<Longrightarrow> \<exists>m. make n = Some m \<and> inv m \<and> look m = Map.empty"
    and ins_ok: "inv m \<Longrightarrow> \<exists>m'. ins k v m = Some m' \<and> inv m' \<and> look m' = (look m)(k \<mapsto> v)"
    and fnd_ok: "inv m \<Longrightarrow> fnd k m = Some (look m k)"
begin

lemma insert_all_ok: "inv m \<Longrightarrow> \<exists>m'. insert_all ins kvs m = Some m' \<and> inv m' \<and> look m' = look m ++ map_of (rev kvs)"
proof (induction kvs arbitrary: m)
  case (Cons kv kvs)
  obtain m1 where m1: "ins (fst kv) (snd kv) m = Some m1" "inv m1" "look m1 = (look m)(fst kv \<mapsto> snd kv)"
    using ins_ok [OF Cons.prems] by blast
  obtain m' where "insert_all ins kvs m1 = Some m'" "inv m'" "look m' = look m1 ++ map_of (rev kvs)"
    using Cons.IH [OF m1(2)] by blast
  then show ?case using m1 by (cases kv) simp
qed simp

lemma find_after_inserts:
  assumes "0 < n"
  shows "\<exists>m m'. make n = Some m \<and> insert_all ins kvs m = Some m' \<and> (\<forall>k. fnd k m' = Some (map_of (rev kvs) k))"
  using make_ok [OF assms] insert_all_ok [of _ kvs] fnd_ok by fastforce

end

interpretation rh: insert_map "RobinHoodHashMap hasher d" "insert_kv hasher d" "find_kv hasher" "rh_inv hasher" rh_lookup
  for hasher d
  by unfold_locales (simp_all add: RobinHoodHashMap_ok insert_kv_ok find_kv_ok)

section \<open>Properties\<close>

text \<open>
  C21. A map of positive initial capacity filled by any sequence of insertions, with growing of the
  table and displacement of entries included, finds for every key exactly the value inserted last
  for it, and nothing for a key that was never inserted; every operation returns.
\<close>

theorem insert_then_find:
  assumes "0 < initial_capacity"
  shows "\<exists>m m'. RobinHoodHashMap hasher d initial_capacity = Some m \<and>
    insert_all (insert_kv hasher d) kvs m = Some m' \<and> (\<forall>k. find_kv hasher k m' = Some (map_of (rev kvs) k))"
  using assms by (rule rh.find_after_inserts)

theorem insert_then_find_witness:
  "\<exists>m m'. RobinHoodHashMap (\<lambda>k :: size_t. k) (0, 0) 2 = Some m \<and>
    insert_all (insert_kv (\<lambda>k. k) (0, 0)) [(2, 20), (0, 10), (2, 30 :: nat)] m = Some m' \<and>
    (\<forall>k. find_kv (\<lambda>k. k) k m' = Some (map_of (rev [(2, 20), (0, 10), (2, 30)]) k))"
  by (rule insert_then_find) simp

text \<open>
  On a map whose stored distances are exact (no insertion has displaced an entry) and that has a
  free slot, \<open>erase\<close> returns whether the key was there, removes exactly that key and keeps the
  distances exact.
\<close>

theorem erase_removes_key:
  assumes "rh_inv hasher m" and "exact hasher (table m)" and "size_of m < capacity m"
  shows "\<exists>m'. erase_kv hasher k m = Some (rh_lookup m k \<noteq> None, m') \<and> exact hasher (table m') \<and>
    (\<forall>k'. find_kv hasher k' m' = Some (if k' = k then None else rh_lookup m k'))"
proof -
  obtain m' where m': "erase_kv hasher k m = Some (rh_lookup m k \<noteq> None, m')" "rh_inv hasher m'" "exact hasher (table m')"
      "rh_lookup m' = (rh_lookup m)(k := None)"
    using erase_kv_exact [OF assms] by blast
  have "find_kv hasher k' m' = Some (if k' = k then None else rh_lookup m k')" for k'
    using find_kv_ok [OF m'(2), of k'] m'(4) by simp
  with m' show ?thesis by blast
qed

definition three_entries :: "(size_t, nat) rh_map" where
  "three_entries = \<lparr>table = [Entry 0 5 0, Entry 4 6 1, Entry 8 7 2, Entry0 (0, 0)], size_of = 3\<rparr>"

lemma three_entries_exact: "rh_inv (\<lambda>k. k) three_entries" "exact (\<lambda>k. k) (table three_entries)"
proof -
  have i4: "i < 4 \<longleftrightarrow> i = 0 \<or> i = 1 \<or> i = 2 \<or> i = (3 :: nat)" for i by auto
  have e: "exact (\<lambda>k. k) (table three_entries)"
    unfolding exact_def
  proof (intro allI impI)
    fix i assume i: "i < length (table three_entries)" "occupied (table three_entries ! i)"
    then have "i = 0 \<or> i = 1 \<or> i = 2 \<or> i = 3" using i4 [of i] by (simp add: three_entries_def)
    then have "i = 0 \<or> i = 1 \<or> i = 2" using i(2) by (auto simp: three_entries_def Entry0_def)
    then show "\<exists>t. placed (\<lambda>k. k) (table three_entries) i t \<and>
        passes (table three_entries) (unat (e_key (table three_entries ! i))) t"
      by (intro exI [of _ i]) (auto simp: three_entries_def placed_def passes_def Entry_def less_2_cases_iff)
  qed
  then show "exact (\<lambda>k. k) (table three_entries)" .
  show "rh_inv (\<lambda>k. k) three_entries"
    using exact_slots_ok [OF e] by (simp add: rh_inv_def three_entries_def entries_def Entry_def Entry0_def)
qed

theorem erase_removes_key_witness:
  "\<exists>m'. erase_kv (\<lambda>k. k) 4 three_entries = Some (rh_lookup three_entries 4 \<noteq> None, m') \<and>
    exact (\<lambda>k. k) (table m') \<and>
    (\<forall>k'. find_kv (\<lambda>k. k) k' m' = Some (if k' = 4 then None else rh_lookup three_entries k'))"
  by (rule erase_removes_key) (simp_all add: three_entries_exact, simp add: three_entries_def)

text \<open>
  Erasing keys can lose a key that was not erased: when an insertion displaces an entry, the
  distance stored for it is too large, and two erasures before it shift it in front of its home
  slot, where a search does not look.
\<close>

definition erase_example :: "(size_t, nat) rh_map option" where
  "erase_example = do {
     m \<leftarrow> RobinHoodHashMap (\<lambda>k. k) (0, 0) 8;
     m \<leftarrow> insert_all (insert_kv (\<lambda>k. k) (0, 0)) [(2, 1), (0, 2), (8, 3), (16, 4)] m;
     (_, m) \<leftarrow> erase_kv (\<lambda>k. k) 16 m;
     (_, m) \<leftarrow> erase_kv (\<lambda>k. k) 8 m;
     Some m }"

lemma erase_loses_key:
  "map_option (\<lambda>m. ((2, 1) \<in> set (entries (table m)), find_kv (\<lambda>k. k) 2 m)) erase_example = Some (True, Some None)"
  by code_simp

end
