(* ===== verification/HQueue.thy ===== *)
theory HQueue
  imports Prelude
begin

text \<open>
  The bounded lock-free queue \<open>HQueue\<close> of \<^verbatim>\<open>nice/include/hqueue.h\<close>. Every access to an atomic is one
  step: \<open>hq_step\<close> runs a thread from one atomic access to the next, its program point
  (\<open>hq_pc\<close>) carrying the local variables that are still needed. Running a single thread to the end
  gives the sequential behaviour, and a schedule interleaves two threads. A \<open>T *\<close> is a value of the
  type \<open>'v\<close>; \<open>None\<close> is \<open>nullptr\<close>.
\<close>

section \<open>State\<close>

record hq_pointer =
  ptr_index :: int
  ptr_version :: uint32

record 'v hq_node =
  nd_next :: hq_pointer
  nd_value :: "'v option"
  nd_free :: bool

record 'v hqueue =
  qhead :: hq_pointer
  qtail :: hq_pointer
  hq_nodes :: "'v hq_node list"
  queue_size :: int
  free_index :: int

abbreviation hp :: "int \<Rightarrow> uint32 \<Rightarrow> hq_pointer" where
  "hp i v \<equiv> \<lparr>ptr_index = i, ptr_version = v\<rparr>"

definition HQueue0 :: "'v hqueue" where
  "HQueue0 = \<lparr>qhead = hp (- 1) 0, qtail = hp (- 1) 0, hq_nodes = [], queue_size = 0, free_index = 0\<rparr>"

definition IsInit :: "'v hqueue \<Rightarrow> bool" where
  "IsInit q \<longleftrightarrow> length (hq_nodes q) \<noteq> 0"

text \<open>\<open>Init\<close>; the allocation of a node does not fail. Node 0 is the dummy head.\<close>

definition Init :: "int \<Rightarrow> 'v hqueue \<Rightarrow> bool \<times> 'v hqueue" where
  "Init sz q =
     (if IsInit q \<or> sz \<le> 0 then (False, q)
      else
        let nodes = hq_nodes q @ replicate (nat sz) \<lparr>nd_next = hp (- 1) 0, nd_value = None, nd_free = True\<rparr> in
        (True, q\<lparr>qhead := hp 0 0, qtail := hp 0 0, hq_nodes := nodes[0 := (nodes ! 0)\<lparr>nd_free := False\<rparr>],
                 queue_size := sz, free_index := 1\<rparr>))"

definition Clean :: "'v hqueue \<Rightarrow> 'v hqueue" where
  "Clean q = q\<lparr>hq_nodes := []\<rparr>"

definition node_at :: "'v hqueue \<Rightarrow> int \<Rightarrow> 'v hq_node" where
  "node_at q i = hq_nodes q ! nat i"

definition upd_node :: "int \<Rightarrow> ('v hq_node \<Rightarrow> 'v hq_node) \<Rightarrow> 'v hqueue \<Rightarrow> 'v hqueue" where
  "upd_node i f q = q\<lparr>hq_nodes := (hq_nodes q)[nat i := f (node_at q i)]\<rparr>"

section \<open>Steps\<close>

text \<open>
  Program points of \<open>Enqueue\<close> (\<open>E_\<close>), \<open>Dequeue\<close> (\<open>D_\<close>) and \<open>Empty\<close> (\<open>M_\<close>), named after the next atomic
  access, and the results.
\<close>

datatype 'v hq_pc =
    E_start 'v
  | E_claim 'v int
  | E_reset 'v
  | E_rescan 'v int
  | E_claimed 'v int
  | E_value 'v int
  | E_next int
  | E_tail int
  | E_read_next int hq_pointer
  | E_check int hq_pointer hq_pointer
  | E_help int hq_pointer hq_pointer
  | E_link int hq_pointer hq_pointer
  | E_swing int hq_pointer
  | E_done bool
  | D_head
  | D_tail hq_pointer
  | D_read_next hq_pointer hq_pointer
  | D_check hq_pointer hq_pointer hq_pointer
  | D_help hq_pointer hq_pointer
  | D_value hq_pointer hq_pointer
  | D_move hq_pointer hq_pointer "'v option"
  | D_free hq_pointer "'v option"
  | D_done "'v option"
  | M_head
  | M_tail hq_pointer
  | M_read_next hq_pointer hq_pointer
  | M_check hq_pointer hq_pointer hq_pointer
  | M_done bool

text \<open>\<open>compare_exchange_strong\<close> on \<open>qtail\<close>, \<open>qhead\<close>, the link of a node and the flag of a node.\<close>

definition cas_tail :: "hq_pointer \<Rightarrow> hq_pointer \<Rightarrow> 'v hqueue \<Rightarrow> 'v hqueue" where
  "cas_tail expected desired q = (if qtail q = expected then q\<lparr>qtail := desired\<rparr> else q)"

fun hq_step :: "'v hq_pc \<Rightarrow> 'v hqueue \<Rightarrow> 'v hq_pc \<times> 'v hqueue" where
  "hq_step (E_start t) q = (E_claim t (free_index q), q)"
| "hq_step (E_claim t i) q =
     (if i < queue_size q
      then (if nd_free (node_at q i) then (E_claimed t i, upd_node i (nd_free_update (\<lambda>_. False)) q)
            else (E_claim t (i + 1), q))
      else (E_reset t, q))"
| "hq_step (E_reset t) q = (E_rescan t 1, q\<lparr>free_index := 1\<rparr>)"
| "hq_step (E_rescan t i) q =
     (if i < queue_size q
      then (if nd_free (node_at q i) then (E_claimed t i, upd_node i (nd_free_update (\<lambda>_. False)) q)
            else (E_rescan t (i + 1), q))
      else (E_done False, q))"
| "hq_step (E_claimed t i) q = (E_value t i, q\<lparr>free_index := i + 1\<rparr>)"
| "hq_step (E_value t i) q = (E_next i, upd_node i (nd_value_update (\<lambda>_. Some t)) q)"
| "hq_step (E_next i) q = (E_tail i, upd_node i (nd_next_update (\<lambda>_. hp (- 1) 0)) q)"
| "hq_step (E_tail i) q = (if ptr_index (qtail q) = - 1 then (E_tail i, q) else (E_read_next i (qtail q), q))"
| "hq_step (E_read_next i tail) q = (E_check i tail (nd_next (node_at q (ptr_index tail))), q)"
| "hq_step (E_check i tail nx) q =
     (if tail \<noteq> qtail q then (E_tail i, q)
      else if ptr_index nx \<noteq> - 1 then (E_help i tail nx, q)
      else (E_link i tail nx, q))"
| "hq_step (E_help i tail nx) q = (E_tail i, cas_tail tail (hp (ptr_index nx) (ptr_version tail + 1)) q)"
| "hq_step (E_link i tail nx) q =
     (if nd_next (node_at q (ptr_index tail)) = nx
      then (E_swing i tail, upd_node (ptr_index tail) (nd_next_update (\<lambda>_. hp i (ptr_version nx + 1))) q)
      else (E_tail i, q))"
| "hq_step (E_swing i tail) q = (E_done True, cas_tail tail (hp i (ptr_version tail + 1)) q)"
| "hq_step (E_done b) q = (E_done b, q)"
| "hq_step D_head q = (D_tail (qhead q), q)"
| "hq_step (D_tail head) q = (if ptr_index head = - 1 then (D_head, q) else (D_read_next head (qtail q), q))"
| "hq_step (D_read_next head tail) q = (D_check head tail (nd_next (node_at q (ptr_index head))), q)"
| "hq_step (D_check head tail nx) q =
     (if head \<noteq> qhead q then (D_head, q)
      else if ptr_index head = ptr_index tail
      then (if ptr_index nx = - 1 then (D_done None, q) else (D_help tail nx, q))
      else (if ptr_index nx = - 1 then (D_head, q) else (D_value head nx, q)))"
| "hq_step (D_help tail nx) q = (D_head, cas_tail tail (hp (ptr_index nx) (ptr_version tail + 1)) q)"
| "hq_step (D_value head nx) q = (D_move head nx (nd_value (node_at q (ptr_index nx))), q)"
| "hq_step (D_move head nx ret) q =
     (if qhead q = head then (D_free head ret, q\<lparr>qhead := hp (ptr_index nx) (ptr_version head + 1)\<rparr>)
      else (D_head, q))"
| "hq_step (D_free head ret) q = (D_done ret, upd_node (ptr_index head) (nd_free_update (\<lambda>_. True)) q)"
| "hq_step (D_done r) q = (D_done r, q)"
| "hq_step M_head q = (M_tail (qhead q), q)"
| "hq_step (M_tail head) q = (if ptr_index head < 0 then (M_done False, q) else (M_read_next head (qtail q), q))"
| "hq_step (M_read_next head tail) q = (M_check head tail (nd_next (node_at q (ptr_index head))), q)"
| "hq_step (M_check head tail nx) q =
     (M_done (head = qhead q \<and> ptr_index head = ptr_index tail \<and> ptr_index nx = - 1), q)"
| "hq_step (M_done b) q = (M_done b, q)"

text \<open>A thread that runs alone, and threads interleaved by a schedule of thread numbers.\<close>

fun run_alone :: "nat \<Rightarrow> 'v hq_pc \<times> 'v hqueue \<Rightarrow> 'v hq_pc \<times> 'v hqueue" where
  "run_alone 0 s = s"
| "run_alone (Suc n) s = run_alone n (hq_step (fst s) (snd s))"

fun interleave :: "nat list \<Rightarrow> 'v hq_pc list \<times> 'v hqueue \<Rightarrow> 'v hq_pc list \<times> 'v hqueue" where
  "interleave [] s = s"
| "interleave (i # is) s =
     (let (pc, q) = hq_step (fst s ! i) (snd s) in interleave is ((fst s)[i := pc], q))"

text \<open>The operations of a single thread. The steps allowed are enough for two scans of the nodes.\<close>

definition steps_for :: "'v hqueue \<Rightarrow> nat" where
  "steps_for q = 2 * length (hq_nodes q) + 20"

definition Enqueue :: "'v \<Rightarrow> 'v hqueue \<Rightarrow> (bool \<times> 'v hqueue) option" where
  "Enqueue t q = (case run_alone (steps_for q) (E_start t, q) of (E_done b, q) \<Rightarrow> Some (b, q) | _ \<Rightarrow> None)"

definition Dequeue :: "'v hqueue \<Rightarrow> ('v option \<times> 'v hqueue) option" where
  "Dequeue q = (case run_alone (steps_for q) (D_head, q) of (D_done r, q) \<Rightarrow> Some (r, q) | _ \<Rightarrow> None)"

definition Empty :: "'v hqueue \<Rightarrow> bool option" where
  "Empty q = (case run_alone (steps_for q) (M_head, q) of (M_done b, _) \<Rightarrow> Some b | _ \<Rightarrow> None)"

section \<open>The list a queue holds\<close>

text \<open>The nodes from the dummy head on, linked in order, with the values behind the dummy.\<close>

fun chain :: "'v hq_node list \<Rightarrow> nat list \<Rightarrow> 'v list \<Rightarrow> bool" where
  "chain ns [i] [] \<longleftrightarrow> ptr_index (nd_next (ns ! i)) = - 1"
| "chain ns (i # j # is) (x # xs) \<longleftrightarrow>
     ptr_index (nd_next (ns ! i)) = int j \<and> nd_value (ns ! j) = Some x \<and> chain ns (j # is) xs"
| "chain ns _ _ \<longleftrightarrow> False"

definition hq_shape :: "'v hqueue \<Rightarrow> nat list \<Rightarrow> 'v list \<Rightarrow> bool" where
  "hq_shape q is xs \<longleftrightarrow>
     chain (hq_nodes q) is xs \<and> distinct is \<and> set is \<subseteq> {..<length (hq_nodes q)} \<and>
     ptr_index (qhead q) = int (hd is) \<and> ptr_index (qtail q) = int (last is) \<and>
     queue_size q = int (length (hq_nodes q)) \<and> 1 \<le> free_index q \<and>
     (\<forall>i < length (hq_nodes q). nd_free (hq_nodes q ! i) \<longleftrightarrow> i \<notin> set is)"

lemma chain_length: "chain ns is xs \<Longrightarrow> length is = Suc (length xs)"
  by (induction ns "is" xs rule: chain.induct) auto

lemma chain_last: "chain ns is xs \<Longrightarrow> ptr_index (nd_next (ns ! last is)) = - 1"
  by (induction ns "is" xs rule: chain.induct) auto

lemma first_not_last: "distinct (i # j # js) \<Longrightarrow> i \<noteq> last (j # js)"
  by (metis distinct.simps(2) last_in_set list.distinct(1))

text \<open>What a chain depends on.\<close>

lemma chain_cong:
  "\<lbrakk>\<And>i. i \<in> set is \<Longrightarrow> ptr_index (nd_next (ns' ! i)) = ptr_index (nd_next (ns ! i)) \<and> nd_value (ns' ! i) = nd_value (ns ! i)\<rbrakk>
   \<Longrightarrow> chain ns' is xs = chain ns is xs"
  by (induction ns "is" xs rule: chain.induct) auto

lemma chain_append:
  "\<lbrakk>chain ns is xs; distinct is; j \<notin> set is;
    \<And>i. i \<in> set is \<Longrightarrow> nd_value (ns' ! i) = nd_value (ns ! i);
    \<And>i. i \<in> set is \<Longrightarrow> i \<noteq> last is \<Longrightarrow> ptr_index (nd_next (ns' ! i)) = ptr_index (nd_next (ns ! i));
    ptr_index (nd_next (ns' ! last is)) = int j; ptr_index (nd_next (ns' ! j)) = - 1; nd_value (ns' ! j) = Some x\<rbrakk>
   \<Longrightarrow> chain ns' (is @ [j]) (xs @ [x])"
proof (induction ns "is" xs rule: chain.induct)
  case (2 ns i k "is" y xs)
  have "i \<noteq> last (k # is)" using 2(3) by (rule first_not_last)
  then have "chain ns' ((k # is) @ [j]) (xs @ [x])" using 2 by (intro "2.IH") auto
  then show ?case using 2 \<open>i \<noteq> last (k # is)\<close> by simp
qed auto

section \<open>Runs of one thread\<close>

definition reaches :: "nat \<Rightarrow> 'v hq_pc \<times> 'v hqueue \<Rightarrow> 'v hq_pc \<times> 'v hqueue \<Rightarrow> bool" where
  "reaches n s s' \<longleftrightarrow> (\<exists>m \<le> n. run_alone m s = s')"

lemma run_alone_add: "run_alone (m + n) s = run_alone n (run_alone m s)"
  by (induction m arbitrary: s) auto

lemma reaches_refl: "reaches n s s"
  unfolding reaches_def by (intro exI [of _ 0]) simp

lemma reaches_step: "reaches n (hq_step pc q) s' \<Longrightarrow> reaches (Suc n) (pc, q) s'"
proof -
  assume "reaches n (hq_step pc q) s'"
  then obtain m where "m \<le> n" "run_alone m (hq_step pc q) = s'" by (auto simp: reaches_def)
  then show ?thesis unfolding reaches_def by (intro exI [of _ "Suc m"]) simp
qed

lemma reaches_trans: "reaches m s t \<Longrightarrow> reaches n t u \<Longrightarrow> reaches (m + n) s u"
proof -
  assume "reaches m s t" "reaches n t u"
  then obtain a b where "a \<le> m" "run_alone a s = t" "b \<le> n" "run_alone b t = u" by (auto simp: reaches_def)
  then show ?thesis unfolding reaches_def by (intro exI [of _ "a + b"]) (simp add: run_alone_add)
qed

lemma reaches_mono: "reaches m s t \<Longrightarrow> m \<le> n \<Longrightarrow> reaches n s t"
  unfolding reaches_def using order_trans by blast

definition finished :: "'v hq_pc \<Rightarrow> bool" where
  "finished pc \<longleftrightarrow> (\<forall>q. hq_step pc q = (pc, q))"

lemma finished_run:
  assumes "reaches n s (pc, q)" "finished pc"
  shows "run_alone n s = (pc, q)"
proof -
  have stay: "run_alone k (pc, q) = (pc, q)" for k using assms(2) by (induction k) (simp_all add: finished_def)
  obtain m where "m \<le> n" "run_alone m s = (pc, q)" using assms(1) by (auto simp: reaches_def)
  then show ?thesis using run_alone_add [of m "n - m" s] stay by simp
qed

lemma finished_done [simp]: "finished (E_done b)" "finished (D_done r)" "finished (M_done b)"
  by (simp_all add: finished_def)

text \<open>The two scans for a free node.\<close>

definition claim :: "int \<Rightarrow> 'v hqueue \<Rightarrow> 'v hqueue" where
  "claim i q = upd_node i (nd_free_update (\<lambda>_. False)) q"

lemma scan_nodes:
  assumes "scan = E_claim t \<and> stop = E_reset t \<or> scan = E_rescan t \<and> stop = E_done False" "0 \<le> i"
    "queue_size q = int (length (hq_nodes q))"
  shows "(\<exists>j. i \<le> j \<and> j < queue_size q \<and> nd_free (node_at q j) \<and>
       reaches (Suc (nat (queue_size q - i))) (scan i, q) (E_claimed t j, claim j q)) \<or>
    ((\<forall>j. i \<le> j \<and> j < queue_size q \<longrightarrow> \<not> nd_free (node_at q j)) \<and>
       reaches (Suc (nat (queue_size q - i))) (scan i, q) (stop, q))"
  using assms(2)
proof (induction "nat (queue_size q - i)" arbitrary: i)
  case 0
  then have "\<not> i < queue_size q" by simp
  with assms(1) have "hq_step (scan i) q = (stop, q)" by auto
  then show ?case using 0 reaches_step [of 0 "scan i" q "(stop, q)"] by (auto simp: reaches_refl)
next
  case (Suc n)
  then have lt: "i < queue_size q" by simp
  show ?case
  proof (cases "nd_free (node_at q i)")
    case True
    then have "hq_step (scan i) q = (E_claimed t i, claim i q)" using assms(1) lt by (auto simp: claim_def)
    then show ?thesis using True lt reaches_step [of "nat (queue_size q - i)" "scan i" q] by (auto simp: reaches_refl)
  next
    case False
    then have st: "hq_step (scan i) q = (scan (i + 1), q)" using assms(1) lt by auto
    have n: "Suc (nat (queue_size q - (i + 1))) = nat (queue_size q - i)" using lt by simp
    have step: "reaches (Suc (nat (queue_size q - i))) (scan i, q) s" if "reaches (nat (queue_size q - i)) (scan (i + 1), q) s" for s
      using reaches_step [of _ "scan i" q s] st that by simp
    have ext: "\<not> nd_free (node_at q j)" if "\<forall>j. i + 1 \<le> j \<and> j < queue_size q \<longrightarrow> \<not> nd_free (node_at q j)" "i \<le> j" "j < queue_size q" for j
      using that False by (cases "j = i") auto
    have "n = nat (queue_size q - (i + 1))" "0 \<le> i + 1" using Suc by simp_all
    from Suc.hyps(1) [OF this] show ?thesis unfolding n using step ext by (metis add_increasing2 linear not_le zless_add1_eq)
  qed
qed

lemma node_upd [simp]:
  "nat i < length (hq_nodes q) \<Longrightarrow> node_at (upd_node i f q) i = f (node_at q i)"
  "hq_nodes (upd_node i f q) = (hq_nodes q)[nat i := f (node_at q i)]"
  "qhead (upd_node i f q) = qhead q" "qtail (upd_node i f q) = qtail q"
  "queue_size (upd_node i f q) = queue_size q" "free_index (upd_node i f q) = free_index q"
  by (simp_all add: upd_node_def node_at_def)

text \<open>From a claimed node to the end of \<open>Enqueue\<close>.\<close>

lemma enqueue_claimed:
  assumes sh: "hq_shape q is xs" and j: "j < length (hq_nodes q)" "j \<notin> set is"
  shows "\<exists>q'. reaches 9 (E_claimed t (int j), claim (int j) q) (E_done True, q') \<and> hq_shape q' (is @ [j]) (xs @ [t])"
proof -
  let ?ns = "hq_nodes q"
  have ch: "chain ?ns is xs" and dist: "distinct is" and sub: "set is \<subseteq> {..<length ?ns}"
    and hd: "ptr_index (qhead q) = int (hd is)" and tail: "ptr_index (qtail q) = int (last is)"
    and size: "queue_size q = int (length ?ns)" and fr: "\<forall>i < length ?ns. nd_free (?ns ! i) \<longleftrightarrow> i \<notin> set is"
    using sh by (simp_all add: hq_shape_def)
  have ne: "is \<noteq> []" using chain_length [OF ch] by auto
  define l where "l = last is"
  have "l \<in> set is" unfolding l_def using ne by (rule last_in_set)
  then have l: "l \<in> set is" "l < length ?ns" "l \<noteq> j" using sub j(2) by auto
  let ?n = "(?ns ! j)\<lparr>nd_free := False, nd_value := Some t, nd_next := hp (- 1) 0\<rparr>"
  let ?q = "q\<lparr>free_index := int j + 1,
      hq_nodes := ?ns[j := ?n, l := (?ns ! l)\<lparr>nd_next := hp (int j) (ptr_version (nd_next (?ns ! l)) + 1)\<rparr>], qtail := hp (int j) (ptr_version (qtail q) + 1)\<rparr>"
  have nl: "ptr_index (nd_next (?ns ! l)) = - 1" using chain_last [OF ch] by (simp add: l_def)
  have "run_alone 9 (E_claimed t (int j), claim (int j) q) = (E_done True, ?q)"
    using j l tail nl by (simp add: numeral_eq_Suc claim_def upd_node_def node_at_def cas_tail_def l_def [symmetric])
  then have "reaches 9 (E_claimed t (int j), claim (int j) q) (E_done True, ?q)" unfolding reaches_def by blast
  moreover have "chain (hq_nodes ?q) (is @ [j]) (xs @ [t])"
    by (rule chain_append [OF ch dist j(2)]) (use j l in \<open>auto simp: nth_list_update l_def [symmetric]\<close>)
  then have "hq_shape ?q (is @ [j]) (xs @ [t])"
    using dist sub hd size fr j l ne by (auto simp: hq_shape_def nth_list_update)
  ultimately show ?thesis by blast
qed

definition free_node :: "'v hqueue \<Rightarrow> bool" where
  "free_node q \<longleftrightarrow> (\<exists>j \<in> {1..<length (hq_nodes q)}. nd_free (hq_nodes q ! j))"

lemma reaches_after:
  "reaches m (pc, q) s \<Longrightarrow> hq_step pc0 q0 = (pc, q) \<Longrightarrow> reaches (Suc m) (pc0, q0) s"
  using reaches_step [of m pc0 q0 s] by simp

lemma enqueue_found:
  assumes sh: "hq_shape q is xs" and r: "reaches n s (E_claimed t j, claim j q)"
    and j: "1 \<le> j" "j < queue_size q" "nd_free (node_at q j)"
  shows "free_node q \<and> (\<exists>q'. reaches (n + 9) s (E_done True, q') \<and>
    (\<exists>j \<in> {1..<length (hq_nodes q)} - set is. hq_shape q' (is @ [j]) (xs @ [t])))"
proof -
  have size: "queue_size q = int (length (hq_nodes q))"
    and fr: "\<forall>i < length (hq_nodes q). nd_free (hq_nodes q ! i) \<longleftrightarrow> i \<notin> set is"
    using sh by (simp_all add: hq_shape_def)
  have jn: "nat j \<in> {1..<length (hq_nodes q)}" "int (nat j) = j" using j size by auto
  then have jf: "nat j \<notin> set is" "nd_free (hq_nodes q ! nat j)" using fr j(3) by (auto simp: node_at_def)
  obtain q' where q': "reaches 9 (E_claimed t (int (nat j)), claim (int (nat j)) q) (E_done True, q')"
      "hq_shape q' (is @ [nat j]) (xs @ [t])"
    using enqueue_claimed [OF sh _ jf(1)] jn by auto
  have "reaches (n + 9) s (E_done True, q')" using reaches_trans [OF r] q'(1) jn(2) by simp
  moreover have "\<exists>j \<in> {1..<length (hq_nodes q)} - set is. hq_shape q' (is @ [j]) (xs @ [t])"
    using q'(2) jn(1) jf(1) by blast
  moreover have "free_node q" using jn(1) jf(2) by (auto simp: free_node_def)
  ultimately show ?thesis by blast
qed

lemma enqueue_run:
  assumes "hq_shape q is xs"
  shows "\<exists>q'. reaches (steps_for q) (E_start t, q) (E_done (free_node q), q') \<and>
    (if free_node q then \<exists>j \<in> {1..<length (hq_nodes q)} - set is. hq_shape q' (is @ [j]) (xs @ [t]) else hq_shape q' is xs)"
proof -
  let ?q1 = "q\<lparr>free_index := 1\<rparr>"
  let ?n = "Suc (nat (queue_size q - free_index q))"
  have size: "queue_size q = int (length (hq_nodes q))" and fi: "1 \<le> free_index q"
    using assms by (simp_all add: hq_shape_def)
  have sh1: "hq_shape ?q1 is xs" using assms by (simp add: hq_shape_def)
  have fn: "free_node ?q1 = free_node q" by (simp add: free_node_def)
  have node1: "node_at ?q1 j = node_at q j" for j by (simp add: node_at_def)
  have len: "?n \<le> length (hq_nodes q)" if "free_index q < queue_size q" using that fi size by simp
  have n: "?n \<le> length (hq_nodes q) + 1" using fi size by simp
  consider j where "1 \<le> j" "j < queue_size q" "nd_free (node_at q j)" "reaches ?n (E_claim t (free_index q), q) (E_claimed t j, claim j q)"
    | "reaches ?n (E_claim t (free_index q), q) (E_reset t, q)"
    using scan_nodes [of "E_claim t" t "E_reset t" "free_index q" q] fi size by (meson order_trans zero_le_one)
  then show ?thesis
  proof cases
    case (1 j)
    have "reaches (Suc ?n) (E_start t, q) (E_claimed t j, claim j q)" by (rule reaches_after [OF 1(4)]) simp
    from enqueue_found [OF assms this 1(1-3)] obtain q' where "free_node q" "reaches (Suc ?n + 9) (E_start t, q) (E_done True, q')"
        "\<exists>j \<in> {1..<length (hq_nodes q)} - set is. hq_shape q' (is @ [j]) (xs @ [t])" by blast
    moreover from this(2) have "reaches (steps_for q) (E_start t, q) (E_done True, q')"
      by (rule reaches_mono) (use n in \<open>simp add: steps_for_def\<close>)
    ultimately show ?thesis by (intro exI [of _ q']) simp
  next
    case 2
    have "reaches (Suc ?n) (E_start t, q) (E_reset t, q)" by (rule reaches_after [OF 2]) simp
    from reaches_trans [OF this reaches_after [OF reaches_refl [of 0]]]
    have r: "reaches (?n + 2) (E_start t, q) (E_rescan t 1, ?q1)" by simp
    let ?m = "Suc (nat (queue_size q - 1))"
    have m: "?n + 2 + ?m + 9 \<le> steps_for q" using n size by (simp add: steps_for_def)
    consider j where "1 \<le> j" "j < queue_size q" "nd_free (node_at q j)" "reaches ?m (E_rescan t 1, ?q1) (E_claimed t j, claim j ?q1)"
      | "\<forall>j. 1 \<le> j \<and> j < queue_size q \<longrightarrow> \<not> nd_free (node_at q j)" "reaches ?m (E_rescan t 1, ?q1) (E_done False, ?q1)"
      using scan_nodes [of "E_rescan t" t "E_done False" 1 ?q1] size node1 by auto
    then show ?thesis
    proof cases
      case (1 j)
      then have j: "1 \<le> j" "j < queue_size ?q1" "nd_free (node_at ?q1 j)" by (simp_all add: node1)
      from enqueue_found [OF sh1 reaches_trans [OF r 1(4)] j] obtain q' where "free_node ?q1"
          "reaches (?n + 2 + ?m + 9) (E_start t, q) (E_done True, q')"
          "\<exists>j \<in> {1..<length (hq_nodes ?q1)} - set is. hq_shape q' (is @ [j]) (xs @ [t])" by blast
      then show ?thesis using reaches_mono [OF _ m] fn by (intro exI [of _ q']) simp
    next
      case none: 2
      have "\<not> nd_free (hq_nodes q ! j)" if "j \<in> {1..<length (hq_nodes q)}" for j
        using none(1) [rule_format, of "int j"] that size by (simp add: node_at_def)
      then have "\<not> free_node q" by (auto simp: free_node_def)
      moreover have "reaches (steps_for q) (E_start t, q) (E_done False, ?q1)"
        using reaches_mono [OF reaches_trans [OF r none(2)], of "steps_for q"] m by linarith
      ultimately show ?thesis using sh1 by auto
    qed
  qed
qed

lemma Enqueue_ok:
  assumes "hq_shape q is xs"
  shows "\<exists>q'. Enqueue t q = Some (free_node q, q') \<and>
    (if free_node q then \<exists>j \<in> {1..<length (hq_nodes q)} - set is. hq_shape q' (is @ [j]) (xs @ [t]) else hq_shape q' is xs)"
  using enqueue_run [OF assms, of t] finished_run [of "steps_for q" "(E_start t, q)"]
  by (auto simp: Enqueue_def)

lemma dequeue_run:
  assumes "hq_shape q is xs"
  shows "\<exists>q'. reaches (steps_for q) (D_head, q) (D_done (hd_opt xs None), q') \<and>
    hq_shape q' (if xs = [] then is else tl is) (tl xs) \<and> length (hq_nodes q') = length (hq_nodes q)"
proof -
  let ?ns = "hq_nodes q"
  have ch: "chain ?ns is xs" and dist: "distinct is" and sub: "set is \<subseteq> {..<length ?ns}"
    and hd: "ptr_index (qhead q) = int (hd is)" and tail: "ptr_index (qtail q) = int (last is)"
    and size: "queue_size q = int (length ?ns)" and fr: "\<forall>i < length ?ns. nd_free (?ns ! i) \<longleftrightarrow> i \<notin> set is"
    and fi: "1 \<le> free_index q"
    using assms by (simp_all add: hq_shape_def)
  have steps: "reaches (steps_for q) s s'" if "run_alone m s = s'" "m \<le> 7" for s s' m
    using that by (auto simp: reaches_def steps_for_def intro!: exI [of _ m])
  show ?thesis
  proof (cases xs)
    case Nil
    then obtain i where i: "is = [i]" using chain_length [OF ch] by (auto simp: length_Suc_conv)
    have "run_alone 4 (D_head, q) = (D_done None, q)"
      using hd tail ch Nil i by (simp add: numeral_eq_Suc node_at_def)
    from steps [OF this] show ?thesis using Nil assms by (intro exI [of _ q]) simp
  next
    case (Cons x ys)
    then obtain i j js where i: "is = i # j # js" using chain_length [OF ch] by (auto simp: length_Suc_conv)
    have nx: "ptr_index (nd_next (?ns ! i)) = int j" "nd_value (?ns ! j) = Some x" "chain ?ns (j # js) ys"
      using ch Cons i by simp_all
    have ij: "i \<notin> set (j # js)" "i < length ?ns" "i \<noteq> last (j # js)"
      using dist sub i first_not_last [of i j js] by simp_all
    let ?q = "q\<lparr>qhead := hp (int j) (ptr_version (qhead q) + 1), hq_nodes := ?ns[i := (?ns ! i)\<lparr>nd_free := True\<rparr>]\<rparr>"
    have "run_alone 7 (D_head, q) = (D_done (Some x), ?q)"
      using hd tail nx i ij by (simp add: numeral_eq_Suc node_at_def upd_node_def)
    moreover have "chain (hq_nodes ?q) (j # js) ys" using nx(3) ij by (subst chain_cong) (auto simp: nth_list_update)
    then have "hq_shape ?q (j # js) ys"
      using dist sub tail size fr fi i ij by (auto simp: hq_shape_def nth_list_update)
    ultimately show ?thesis using steps [of 7 "(D_head, q)"] Cons i by (intro exI [of _ ?q]) simp
  qed
qed

lemma Dequeue_ok:
  assumes "hq_shape q is xs"
  shows "\<exists>q'. Dequeue q = Some (hd_opt xs None, q') \<and> hq_shape q' (if xs = [] then is else tl is) (tl xs) \<and>
    length (hq_nodes q') = length (hq_nodes q)"
  using dequeue_run [OF assms] finished_run [of "steps_for q" "(D_head, q)"] by (auto simp: Dequeue_def)

lemma Empty_ok:
  assumes "hq_shape q is xs"
  shows "Empty q = Some (xs = [])"
proof -
  let ?ns = "hq_nodes q"
  have ch: "chain ?ns is xs" and dist: "distinct is"
    and hd: "ptr_index (qhead q) = int (hd is)" and tail: "ptr_index (qtail q) = int (last is)"
    using assms by (simp_all add: hq_shape_def)
  have ht: "hd is = last is \<longleftrightarrow> xs = []"
  proof (cases xs)
    case (Cons x ys)
    then obtain i j js where i: "is = i # j # js" using chain_length [OF ch] by (auto simp: length_Suc_conv)
    then show ?thesis using dist Cons first_not_last [of i j js] by simp
  next
    case Nil
    then show ?thesis using chain_length [OF ch] by (auto simp: length_Suc_conv)
  qed
  have nx: "xs = [] \<Longrightarrow> ptr_index (nd_next (?ns ! hd is)) = - 1" using chain_last [OF ch] ht by simp
  have "run_alone 4 (M_head, q) = (M_done (xs = []), q)"
    using hd tail ht nx by (auto simp: numeral_eq_Suc node_at_def)
  then have "reaches (steps_for q) (M_head, q) (M_done (xs = []), q)"
    by (auto simp: reaches_def steps_for_def intro!: exI [of _ 4])
  then show ?thesis using finished_run [of "steps_for q" "(M_head, q)"] by (simp add: Empty_def)
qed

section \<open>The queue interface\<close>

datatype 'v queue_op = Enq 'v | Deq
datatype 'v queue_out = Accepted bool | Got "'v option"

text \<open>
  The outputs of a first-in first-out queue of \<open>n\<close> nodes. One node is the dummy in front of the
  elements. Node 0, the first dummy, is never searched for a free node: once an element has been
  taken it is lost, and the queue holds one element less than before.
\<close>

fun accepts :: "nat \<Rightarrow> bool \<Rightarrow> 'v list \<Rightarrow> bool" where
  "accepts n taken xs \<longleftrightarrow> length xs + (if taken then 2 else 1) < n"

fun fifo_ok :: "nat \<Rightarrow> bool \<Rightarrow> 'v list \<Rightarrow> ('v queue_op \<times> 'v queue_out) list \<Rightarrow> bool" where
  "fifo_ok n taken xs [] \<longleftrightarrow> True"
| "fifo_ok n taken xs ((Enq x, Accepted b) # r) \<longleftrightarrow>
     b = accepts n taken xs \<and> fifo_ok n taken (if b then xs @ [x] else xs) r"
| "fifo_ok n taken xs ((Deq, Got v) # r) \<longleftrightarrow>
     v = hd_opt xs None \<and> fifo_ok n (taken \<or> xs \<noteq> []) (tl xs) r"
| "fifo_ok n taken xs _ \<longleftrightarrow> False"

fun queue_run ::
    "('v \<Rightarrow> 'q \<Rightarrow> (bool \<times> 'q) option) \<Rightarrow> ('q \<Rightarrow> ('v option \<times> 'q) option) \<Rightarrow> 'v queue_op list \<Rightarrow> 'q \<Rightarrow>
      ('v queue_out list \<times> 'q) option" where
  "queue_run enq deq [] q = Some ([], q)"
| "queue_run enq deq (Enq x # ops) q = do {
     (b, q) \<leftarrow> enq x q; (outs, q) \<leftarrow> queue_run enq deq ops q; Some (Accepted b # outs, q) }"
| "queue_run enq deq (Deq # ops) q = do {
     (v, q) \<leftarrow> deq q; (outs, q) \<leftarrow> queue_run enq deq ops q; Some (Got v # outs, q) }"

locale bounded_queue =
  fixes enq :: "'v \<Rightarrow> 'q \<Rightarrow> (bool \<times> 'q) option" and deq :: "'q \<Rightarrow> ('v option \<times> 'q) option"
    and rep :: "nat \<Rightarrow> bool \<Rightarrow> 'q \<Rightarrow> 'v list \<Rightarrow> bool"
  assumes enq_ok: "rep n taken q xs \<Longrightarrow>
      \<exists>q'. enq x q = Some (accepts n taken xs, q') \<and> rep n taken q' (if accepts n taken xs then xs @ [x] else xs)"
    and deq_ok: "rep n taken q xs \<Longrightarrow> \<exists>q'. deq q = Some (hd_opt xs None, q') \<and> rep n (taken \<or> xs \<noteq> []) q' (tl xs)"
begin

lemma queue_run_fifo:
  "rep n taken q xs \<Longrightarrow>
   \<exists>outs q'. queue_run enq deq ops q = Some (outs, q') \<and> length outs = length ops \<and> fifo_ok n taken xs (zip ops outs)"
proof (induction ops arbitrary: q xs taken)
  case (Cons p ops)
  show ?case
  proof (cases p)
    case (Enq x)
    obtain q1 where 1: "enq x q = Some (accepts n taken xs, q1)" "rep n taken q1 (if accepts n taken xs then xs @ [x] else xs)"
      using enq_ok [OF Cons.prems] by blast
    from Cons.IH [OF 1(2)] 1(1) Enq show ?thesis by (auto simp del: accepts.simps)
  next
    case Deq
    obtain q1 where 1: "deq q = Some (hd_opt xs None, q1)" "rep n (taken \<or> xs \<noteq> []) q1 (tl xs)" using deq_ok [OF Cons.prems] by blast
    from Cons.IH [OF 1(2)] 1(1) Deq show ?thesis by auto
  qed
qed simp

end

text \<open>Node 0 is in the queue as its first dummy until the first element is taken.\<close>

definition hq_holds :: "nat \<Rightarrow> bool \<Rightarrow> 'v hqueue \<Rightarrow> 'v list \<Rightarrow> bool" where
  "hq_holds n taken q xs \<longleftrightarrow>
     (\<exists>is. hq_shape q is xs \<and> length (hq_nodes q) = n \<and> 0 \<notin> set (tl is) \<and> (taken \<longleftrightarrow> hd is \<noteq> 0))"

lemma superset_card: "finite B \<Longrightarrow> A \<subseteq> B \<Longrightarrow> B \<subseteq> A \<longleftrightarrow> card A = card B"
  by (metis card_subset_eq subset_antisym order_refl)

lemma shape_room:
  assumes "hq_shape q is xs" "0 \<notin> set (tl is)"
  shows "free_node q \<longleftrightarrow> accepts (length (hq_nodes q)) (hd is \<noteq> 0) xs"
proof -
  let ?n = "length (hq_nodes q)"
  have ch: "chain (hq_nodes q) is xs" and dist: "distinct is" and sub: "set is \<subseteq> {..<?n}"
    and fr: "\<forall>i < ?n. nd_free (hq_nodes q ! i) \<longleftrightarrow> i \<notin> set is"
    using assms(1) by (simp_all add: hq_shape_def)
  obtain k ks where is_k: "is = k # ks" using chain_length [OF ch] by (cases "is") auto
  have card: "card (set is) = Suc (length xs)" using dist chain_length [OF ch] by (simp add: distinct_card)
  have free: "free_node q \<longleftrightarrow> \<not> {1..<?n} \<subseteq> set is" using fr by (auto simp: free_node_def)
  have pos: "0 < ?n" using sub is_k by auto
  show ?thesis
  proof (cases "k = 0")
    case True
    have lt: "{..<?n} = insert 0 {1..<?n}" using pos by auto
    have "0 \<in> set is" using is_k True by simp
    then have "{1..<?n} \<subseteq> set is \<longleftrightarrow> {..<?n} \<subseteq> set is" unfolding lt by blast
    also have "\<dots> \<longleftrightarrow> Suc (length xs) = ?n" using superset_card [OF finite_lessThan sub] card by simp
    finally show ?thesis using free True is_k card_mono [OF _ sub] card by auto
  next
    case False
    then have "0 \<notin> set is" using is_k assms(2) by simp
    then have s1: "set is \<subseteq> {1..<?n}" using sub by (auto simp: subset_iff Suc_le_eq) (metis not_gr0)
    have "{1..<?n} \<subseteq> set is \<longleftrightarrow> Suc (length xs) = ?n - 1"
      using superset_card [OF finite_atLeastLessThan s1] card by simp
    then show ?thesis using free False is_k card_mono [OF _ s1] card by auto
  qed
qed

lemma Enqueue_length:
  assumes "hq_shape q is xs" "Enqueue t q = Some (b, q')"
  shows "length (hq_nodes q') = length (hq_nodes q)"
proof -
  have step: "length (hq_nodes (snd (hq_step pc q))) = length (hq_nodes q)" for pc and q :: "'a hqueue"
    by (cases "(pc, q)" rule: hq_step.cases) (simp_all add: cas_tail_def)
  have "length (hq_nodes (snd (run_alone n s))) = length (hq_nodes (snd s))" for n and s :: "'a hq_pc \<times> 'a hqueue"
    by (induction n arbitrary: s) (simp_all add: step)
  from this [of "steps_for q" "(E_start t, q)"] show ?thesis
    using assms(2) by (auto simp: Enqueue_def split: prod.splits hq_pc.splits)
qed

interpretation hq: bounded_queue Enqueue Dequeue hq_holds
proof
  fix n :: nat and taken and q :: "'a hqueue" and xs x
  assume "hq_holds n taken q xs"
  then obtain "is" where sh: "hq_shape q is xs" and n: "length (hq_nodes q) = n" and z: "0 \<notin> set (tl is)" "taken \<longleftrightarrow> hd is \<noteq> 0"
    by (auto simp: hq_holds_def)
  obtain q' where q': "Enqueue x q = Some (free_node q, q')"
      "if free_node q then \<exists>j \<in> {1..<length (hq_nodes q)} - set is. hq_shape q' (is @ [j]) (xs @ [x]) else hq_shape q' is xs"
    using Enqueue_ok [OF sh] by blast
  have len: "length (hq_nodes q') = n" using Enqueue_length [OF sh q'(1)] n by simp
  have fn: "free_node q = accepts n taken xs" using shape_room [OF sh z(1)] n z(2) by simp
  have ne: "is \<noteq> []" using sh by (auto simp: hq_shape_def)
  have "hq_holds n taken q' (if free_node q then xs @ [x] else xs)"
  proof (cases "free_node q")
    case True
    then obtain j where j: "1 \<le> j" "hq_shape q' (is @ [j]) (xs @ [x])" using q'(2) by auto
    then show ?thesis using True z len ne by (auto simp: hq_holds_def intro!: exI [of _ "is @ [j]"])
  next
    case False
    then show ?thesis using q'(2) z len by (auto simp: hq_holds_def)
  qed
  then show "\<exists>q'. Enqueue x q = Some (accepts n taken xs, q') \<and> hq_holds n taken q' (if accepts n taken xs then xs @ [x] else xs)"
    using q'(1) fn by (simp del: accepts.simps)
next
  fix n :: nat and taken and q :: "'a hqueue" and xs
  assume "hq_holds n taken q xs"
  then obtain "is" where sh: "hq_shape q is xs" and n: "length (hq_nodes q) = n" and z: "0 \<notin> set (tl is)" "taken \<longleftrightarrow> hd is \<noteq> 0"
    by (auto simp: hq_holds_def)
  have "0 \<notin> set (tl (tl is)) \<and> hd (tl is) \<noteq> 0" if taken: "xs \<noteq> []"
  proof -
    have "chain (hq_nodes q) is xs" using sh by (simp add: hq_shape_def)
    from chain_length [OF this] obtain i j js where "is = i # j # js" using taken
      by (cases xs) (auto simp: length_Suc_conv)
    then show ?thesis using z(1) by auto
  qed
  then show "\<exists>q'. Dequeue q = Some (hd_opt xs None, q') \<and> hq_holds n (taken \<or> xs \<noteq> []) q' (tl xs)"
    using Dequeue_ok [OF sh] n z by (cases "xs = []") (auto simp: hq_holds_def)
qed

lemma Init_holds:
  assumes "0 < sz"
  shows "fst (Init sz HQueue0)" "hq_holds (nat sz) False (snd (Init sz HQueue0)) []"
proof -
  obtain n where n: "nat sz = Suc n" using assms by (cases "nat sz") auto
  have "hq_shape (snd (Init sz HQueue0)) [0] []"
    using assms n by (auto simp: Init_def IsInit_def HQueue0_def hq_shape_def Let_def nth_Cons split: nat.split)
  then show "hq_holds (nat sz) False (snd (Init sz HQueue0)) []"
    using assms by (auto simp: hq_holds_def Init_def IsInit_def HQueue0_def Let_def intro!: exI [of _ "[0]"])
  show "fst (Init sz HQueue0)" using assms by (simp add: Init_def IsInit_def HQueue0_def Let_def)
qed

section \<open>Properties\<close>

text \<open>
  C22. Used by one thread, an initialised queue of \<open>sz\<close> nodes is a bounded first-in first-out queue:
  every operation returns, \<open>Dequeue\<close> gives the oldest element not yet taken (or \<open>nullptr\<close> when there is
  none), and \<open>Enqueue\<close> accepts exactly when fewer than \<open>sz - 1\<close> elements are queued, or fewer than
  \<open>sz - 2\<close> once an element has been taken: node 0 is the first dummy and is never used again after it.
\<close>

theorem queue_is_fifo:
  assumes "0 < sz"
  shows "\<exists>outs q'. queue_run Enqueue Dequeue ops (snd (Init sz HQueue0)) = Some (outs, q') \<and>
    length outs = length ops \<and> fifo_ok (nat sz) False [] (zip ops outs)"
  by (rule hq.queue_run_fifo [OF Init_holds(2) [OF assms]])

theorem queue_is_fifo_witness:
  "\<exists>outs q'. queue_run Enqueue Dequeue [Enq (1 :: nat), Enq 2, Deq, Enq 3, Deq, Deq] (snd (Init 3 HQueue0)) = Some (outs, q') \<and>
    length outs = length [Enq (1 :: nat), Enq 2, Deq, Enq 3, Deq, Deq] \<and>
    fifo_ok (nat 3) False [] (zip [Enq 1, Enq 2, Deq, Enq 3, Deq, Deq] outs)"
  by (rule queue_is_fifo) simp

text \<open>
  Two threads can break the queue: a node that is dequeued and claimed again has its link reset to
  the value an interrupted \<open>Enqueue\<close> still expects, so that \<open>Enqueue\<close> links its element to a node that
  is not in the queue and returns true, and the same thread's following \<open>Dequeue\<close> returns
  \<open>nullptr\<close> although nobody has taken the element. One schedule of this kind:
\<close>

definition used_queue :: "nat hqueue" where
  "used_queue = snd (run_alone 20 (D_head, snd (run_alone 20 (E_start 7, snd (Init 4 HQueue0)))))"

definition broken_schedule :: "nat hq_pc list \<times> nat hqueue" where
  "broken_schedule =
     (let (pcs, q) = interleave (replicate 8 0 @ replicate 11 1) ([E_start 1, E_start 2], used_queue);
          (pcs, q) = interleave (replicate 7 1) (pcs[1 := D_head], q);
          (pcs, q) = interleave (replicate 9 1 @ replicate 2 0) (pcs[1 := E_start 3], q)
      in (pcs, q))"

lemma enqueued_element_invisible:
  "fst broken_schedule ! 0 = E_done True \<and> fst (run_alone 4 (D_head, snd broken_schedule)) = D_done None"
  by code_simp

end
