(* ===== verification/Best_Fit.thy ===== *)
theory Best_Fit
  imports Mem_Sizes
begin

text \<open>
  The pool \<open>DynamicMemPoolBestFit\<close> of \<^verbatim>\<open>application/src/mem_dynamic_allocator.cpp\<close>: blocks obtained from
  the device are divided into buffers, the idle buffers of a stream are found by size in a multimap,
  and freed buffers are combined with their neighbours.

  A block owns its buffers: \<open>block_bufs\<close> is \<open>block_all_mem_buf_map_\<close> in address order, whose keys are the
  \<open>device_addr_\<close> of the buffers. A buffer pointer held by an idle or eager-free multimap is the device
  address of the buffer. The virtual functions of the device are the record \<open>bf_device\<close>. Operations
  return \<open>None\<close> where the source dereferences a null pointer or an end iterator, where
  \<open>std::map::at\<close> throws, and where the loop of \<open>CalMemBlockAllocSize\<close> does not end.
\<close>

section \<open>Data\<close>

datatype DynamicMemBufStatus = MemBufIdle | MemBufUsed | MemBufEagerFree

datatype AllocatorType = AtWeight | AtConstantValue | AtKernelOutput | AtGraphOutput | AtOther

definition kMinimumAllocMem :: size_t where "kMinimumAllocMem = push_bit 20 10"
definition kDefaultMempoolBlockSize :: size_t where "kDefaultMempoolBlockSize = scast (push_bit 31 1 :: 32 word)"

record DynamicMemBuf =
  buf_addr :: device_ptr
  buf_status :: DynamicMemBufStatus
  buf_size :: size_t
  allocator_name :: string
  alloc_kind :: AllocatorType

record AllocatorDebugInfo =
  dbg_name :: string
  dbg_type :: AllocatorType

record DynamicMemBlock =
  block_bufs :: "DynamicMemBuf list"
  block_base :: device_ptr
  block_size :: size_t
  block_stream :: uint32

record DeviceState =
  total_mem :: size_t
  total_used_mem :: size_t
  total_idle_mem :: size_t
  total_eager_free_mem :: size_t
  used_mem_peak :: size_t

type_synonym SizeMapMemBuf = "(size_t \<times> device_ptr) list"

record MemStatusManager =
  mng_unit_size :: size_t
  mps :: DeviceState
  mem_block_list :: "DynamicMemBlock list"
  mem_blocks :: "(uint32 \<times> device_ptr list) list"
  idle_mem_bufs :: "(uint32 \<times> SizeMapMemBuf) list"
  eager_free_mem_bufs :: "(uint32 \<times> SizeMapMemBuf) list"

record DynamicMemPoolBestFit =
  persistent_mem :: MemStatusManager
  common_mem :: MemStatusManager
  config_unit_size :: size_t
  is_trigger_eager_free :: bool
  init_recycle_memory :: bool
  mem_bufs :: "device_ptr list"

text \<open>The virtual functions: sizes of the device, allocation (size and address), eager free.\<close>

record bf_device =
  free_mem_size :: size_t
  total_mem_size :: size_t
  eager_threshold :: size_t
  AllocDeviceMem :: "size_t \<Rightarrow> size_t \<times> device_ptr"
  IsEnableEagerFree :: bool
  AllocDeviceMemByEagerFree :: "size_t \<Rightarrow> size_t \<times> device_ptr"
  FreeDeviceMemByEagerFree :: "device_ptr \<Rightarrow> size_t \<Rightarrow> size_t"

text \<open>The implementations of the base class, \<open>addr\<close> being what \<open>malloc\<close> returns; the threshold is not used.\<close>

definition base_device :: "device_ptr \<Rightarrow> bf_device" where
  "base_device addr = \<lparr>free_mem_size = - 1, total_mem_size = - 1, eager_threshold = 0,
     AllocDeviceMem = (\<lambda>sz. (sz, addr)), IsEnableEagerFree = False,
     AllocDeviceMemByEagerFree = (\<lambda>_. (0, 0)), FreeDeviceMemByEagerFree = (\<lambda>_ _. 0)\<rparr>"

definition DeviceState0 :: DeviceState where
  "DeviceState0 = \<lparr>total_mem = 0, total_used_mem = 0, total_idle_mem = 0, total_eager_free_mem = 0, used_mem_peak = 0\<rparr>"

definition MemStatusManager0 :: MemStatusManager where
  "MemStatusManager0 = \<lparr>mng_unit_size = kDynamicMemAllocUnitSize, mps = DeviceState0, mem_block_list = [],
     mem_blocks = [], idle_mem_bufs = [], eager_free_mem_bufs = []\<rparr>"

definition DynamicMemPoolBestFit0 :: DynamicMemPoolBestFit where
  "DynamicMemPoolBestFit0 = \<lparr>persistent_mem = MemStatusManager0, common_mem = MemStatusManager0,
     config_unit_size = kDynamicMemAllocUnitSize, is_trigger_eager_free = False,
     init_recycle_memory = False, mem_bufs = []\<rparr>"

section \<open>Containers\<close>

text \<open>\<open>std::map<uint32_t, _>\<close> in key order: store a value under a key.\<close>

fun smap_set :: "uint32 \<Rightarrow> 'a \<Rightarrow> (uint32 \<times> 'a) list \<Rightarrow> (uint32 \<times> 'a) list" where
  "smap_set k v [] = [(k, v)]"
| "smap_set k v ((k', v') # m) =
     (if k < k' then (k, v) # (k', v') # m else if k = k' then (k, v) # m else (k', v') # smap_set k v m)"

text \<open>\<open>std::multimap::emplace\<close> puts a new entry behind those with the same key.\<close>

fun mm_emplace :: "size_t \<Rightarrow> device_ptr \<Rightarrow> SizeMapMemBuf \<Rightarrow> SizeMapMemBuf" where
  "mm_emplace s a [] = [(s, a)]"
| "mm_emplace s a ((s', a') # m) = (if s < s' then (s, a) # (s', a') # m else (s', a') # mm_emplace s a m)"

text \<open>\<open>std::map::emplace\<close> of a buffer under its address keeps a buffer that is already there.\<close>

fun buf_emplace :: "DynamicMemBuf \<Rightarrow> DynamicMemBuf list \<Rightarrow> DynamicMemBuf list" where
  "buf_emplace b [] = [b]"
| "buf_emplace b (c # cs) =
     (if buf_addr b < buf_addr c then b # c # cs
      else if buf_addr b = buf_addr c then c # cs
      else c # buf_emplace b cs)"

definition buf_find :: "device_ptr \<Rightarrow> DynamicMemBuf list \<Rightarrow> DynamicMemBuf option" where
  "buf_find a bs = List.find (\<lambda>b. buf_addr b = a) bs"

definition buf_erase :: "device_ptr \<Rightarrow> DynamicMemBuf list \<Rightarrow> DynamicMemBuf list" where
  "buf_erase a bs = filter (\<lambda>b. buf_addr b \<noteq> a) bs"

definition buf_modify :: "device_ptr \<Rightarrow> (DynamicMemBuf \<Rightarrow> DynamicMemBuf) \<Rightarrow> DynamicMemBuf list \<Rightarrow> DynamicMemBuf list" where
  "buf_modify a f bs = map (\<lambda>b. if buf_addr b = a then f b else b) bs"

section \<open>MemStatusManager\<close>

definition Empty_mng :: "MemStatusManager \<Rightarrow> bool" where
  "Empty_mng m \<longleftrightarrow> mem_block_list m = []"

text \<open>\<open>DoAddMemBlock\<close> inserts in address order, behind equal addresses; once for the blocks, once for the addresses per stream.\<close>

fun DoAddMemBlock :: "('b \<Rightarrow> device_ptr) \<Rightarrow> 'b \<Rightarrow> 'b list \<Rightarrow> 'b list" where
  "DoAddMemBlock base b [] = [b]"
| "DoAddMemBlock base b (c # cs) = (if base b < base c then b # c # cs else c # DoAddMemBlock base b cs)"

definition AddMemBlock :: "DynamicMemBlock \<Rightarrow> uint32 \<Rightarrow> MemStatusManager \<Rightarrow> MemStatusManager" where
  "AddMemBlock b stream_id m =
     (let bs = (case map_of (mem_blocks m) stream_id of
                  Some l \<Rightarrow> DoAddMemBlock (\<lambda>a. a) (block_base b) l
                | None \<Rightarrow> [block_base b])
      in m\<lparr>mem_blocks := smap_set stream_id bs (mem_blocks m),
           mem_block_list := DoAddMemBlock block_base b (mem_block_list m)\<rparr>)"

definition AddMemBuf :: "DynamicMemBuf \<Rightarrow> uint32 \<Rightarrow> (uint32 \<times> SizeMapMemBuf) list \<Rightarrow> (uint32 \<times> SizeMapMemBuf) list" where
  "AddMemBuf b stream_id container =
     (case map_of container stream_id of
        Some mm \<Rightarrow> smap_set stream_id (mm_emplace (buf_size b) (buf_addr b) mm) container
      | None \<Rightarrow> smap_set stream_id [(buf_size b, buf_addr b)] container)"

definition AddIdleMemBuf :: "DynamicMemBuf \<Rightarrow> uint32 \<Rightarrow> MemStatusManager \<Rightarrow> MemStatusManager" where
  "AddIdleMemBuf b stream_id m = m\<lparr>idle_mem_bufs := AddMemBuf b stream_id (idle_mem_bufs m)\<rparr>"

definition AddEagerFreeMemBuf :: "DynamicMemBuf \<Rightarrow> uint32 \<Rightarrow> MemStatusManager \<Rightarrow> MemStatusManager" where
  "AddEagerFreeMemBuf b stream_id m = m\<lparr>eager_free_mem_bufs := AddMemBuf b stream_id (eager_free_mem_bufs m)\<rparr>"

text \<open>\<open>RemoveDeviceMem\<close>: \<open>at\<close> throws without the stream; otherwise whether an entry was removed.\<close>

definition RemoveDeviceMem ::
    "size_t \<Rightarrow> device_ptr \<Rightarrow> uint32 \<Rightarrow> (uint32 \<times> SizeMapMemBuf) list \<Rightarrow> (bool \<times> (uint32 \<times> SizeMapMemBuf) list) option" where
  "RemoveDeviceMem sz a stream_id container = do {
     mm \<leftarrow> map_of container stream_id;
     if (sz, a) \<in> set mm then Some (True, smap_set stream_id (remove1 (sz, a) mm) container)
     else Some (False, container) }"

definition GetOrCreateSizeMapMemBuf :: "uint32 \<Rightarrow> (uint32 \<times> SizeMapMemBuf) list \<Rightarrow> SizeMapMemBuf \<times> (uint32 \<times> SizeMapMemBuf) list" where
  "GetOrCreateSizeMapMemBuf stream_id container =
     (case map_of container stream_id of
        Some mm \<Rightarrow> (mm, container)
      | None \<Rightarrow> ([], smap_set stream_id [] container))"

definition Clear_mng :: "MemStatusManager \<Rightarrow> MemStatusManager" where
  "Clear_mng m = m\<lparr>mem_blocks := [], mem_block_list := [], idle_mem_bufs := [], eager_free_mem_bufs := []\<rparr>"

section \<open>Access to the managers\<close>

definition get_mng :: "bool \<Rightarrow> DynamicMemPoolBestFit \<Rightarrow> MemStatusManager" where
  "get_mng from_persistent_mem p = (if from_persistent_mem then persistent_mem p else common_mem p)"

definition set_mng :: "bool \<Rightarrow> MemStatusManager \<Rightarrow> DynamicMemPoolBestFit \<Rightarrow> DynamicMemPoolBestFit" where
  "set_mng from_persistent_mem m p =
     (if from_persistent_mem then p\<lparr>persistent_mem := m\<rparr> else p\<lparr>common_mem := m\<rparr>)"

text \<open>The statistics of the pool.\<close>

definition bf_TotalMemStatistics :: "DynamicMemPoolBestFit \<Rightarrow> size_t" where
  "bf_TotalMemStatistics p = total_mem (mps (common_mem p)) + total_mem (mps (persistent_mem p))"
definition bf_TotalUsedMemStatistics :: "DynamicMemPoolBestFit \<Rightarrow> size_t" where
  "bf_TotalUsedMemStatistics p = total_used_mem (mps (common_mem p)) + total_used_mem (mps (persistent_mem p))"
definition bf_TotalIdleMemStatistics :: "DynamicMemPoolBestFit \<Rightarrow> size_t" where
  "bf_TotalIdleMemStatistics p = total_idle_mem (mps (common_mem p)) + total_idle_mem (mps (persistent_mem p))"
definition bf_TotalEagerFreeMemStatistics :: "DynamicMemPoolBestFit \<Rightarrow> size_t" where
  "bf_TotalEagerFreeMemStatistics p = total_eager_free_mem (mps (common_mem p)) + total_eager_free_mem (mps (persistent_mem p))"
definition bf_UsedMemPeakStatistics :: "DynamicMemPoolBestFit \<Rightarrow> size_t" where
  "bf_UsedMemPeakStatistics p = used_mem_peak (mps (common_mem p)) + used_mem_peak (mps (persistent_mem p))"

definition bf_MemAllocUnitSize :: "bool \<Rightarrow> DynamicMemPoolBestFit \<Rightarrow> size_t" where
  "bf_MemAllocUnitSize from_persistent_mem p =
     (if from_persistent_mem then mng_unit_size (persistent_mem p) else mng_unit_size (common_mem p))"

definition bf_SetMemAllocUintSize :: "size_t \<Rightarrow> size_t \<Rightarrow> DynamicMemPoolBestFit \<Rightarrow> DynamicMemPoolBestFit" where
  "bf_SetMemAllocUintSize common_size persist_size p =
     p\<lparr>persistent_mem := (persistent_mem p)\<lparr>mng_unit_size := persist_size\<rparr>,
       common_mem := (common_mem p)\<lparr>mng_unit_size := common_size\<rparr>, config_unit_size := common_size\<rparr>"

definition SetMemPoolBlockSize :: "size_t \<Rightarrow> DynamicMemPoolBestFit \<Rightarrow> DynamicMemPoolBestFit" where
  "SetMemPoolBlockSize available_device_mem_size p =
     bf_SetMemAllocUintSize kDefaultMempoolBlockSize kDynamicMemAllocUnitSize p"

definition GetMinUsedMemoryAddr :: "DynamicMemPoolBestFit \<Rightarrow> device_ptr" where
  "GetMinUsedMemoryAddr p = (case mem_bufs p of [] \<Rightarrow> 0 | a # _ \<Rightarrow> a)"

section \<open>Finding blocks and buffers\<close>

text \<open>\<open>upper_bound\<close> in the ordered block list, one step back.\<close>

definition CmpMemBlock :: "device_ptr \<Rightarrow> DynamicMemBlock \<Rightarrow> bool" where
  "CmpMemBlock a b \<longleftrightarrow> a < block_base b"

definition FindMemBlock :: "device_ptr \<Rightarrow> MemStatusManager \<Rightarrow> DynamicMemBlock option" where
  "FindMemBlock a m = last_opt (takeWhile (\<lambda>b. \<not> CmpMemBlock a b) (mem_block_list m)) None"

definition put_block :: "DynamicMemBlock \<Rightarrow> MemStatusManager \<Rightarrow> MemStatusManager" where
  "put_block b m = m\<lparr>mem_block_list := map (\<lambda>c. if block_base c = block_base b then b else c) (mem_block_list m)\<rparr>"

text \<open>\<open>FindByStrictAddr\<close>: the manager (whether persistent), the block and the buffer at the address.\<close>

definition FindByStrictAddr :: "device_ptr \<Rightarrow> DynamicMemPoolBestFit \<Rightarrow> (bool \<times> DynamicMemBlock \<times> DynamicMemBuf) option" where
  "FindByStrictAddr a p =
     (let find_in = (\<lambda>pers. do {
            b \<leftarrow> FindMemBlock a (get_mng pers p);
            buf \<leftarrow> buf_find a (block_bufs b);
            Some (pers, b, buf) })
      in case find_in False of Some r \<Rightarrow> Some r | None \<Rightarrow> find_in True)"

definition FindMemBufByKeepAddr :: "device_ptr \<Rightarrow> DynamicMemBlock \<Rightarrow> DynamicMemBuf option" where
  "FindMemBufByKeepAddr a b = last_opt (takeWhile (\<lambda>c. buf_addr c \<le> a) (block_bufs b)) None"

definition FindByKeepAddr :: "device_ptr \<Rightarrow> DynamicMemPoolBestFit \<Rightarrow> (bool \<times> DynamicMemBlock \<times> DynamicMemBuf) option" where
  "FindByKeepAddr a p =
     (let find_in = (\<lambda>pers. do {
            b \<leftarrow> FindMemBlock a (get_mng pers p);
            buf \<leftarrow> FindMemBufByKeepAddr a b;
            if buf_addr buf \<le> a \<and> a - buf_addr buf \<le> buf_size buf then Some (pers, b, buf) else None })
      in case find_in False of Some r \<Rightarrow> Some r | None \<Rightarrow> find_in True)"

text \<open>\<open>EraseMemBufByStatus\<close>; a missing entry is only logged.\<close>

definition EraseMemBufByStatus ::
    "size_t \<Rightarrow> device_ptr \<Rightarrow> DynamicMemBufStatus \<Rightarrow> uint32 \<Rightarrow> MemStatusManager \<Rightarrow> MemStatusManager option" where
  "EraseMemBufByStatus sz a target_status stream_id m =
     (if target_status = MemBufIdle
      then do { (_, c) \<leftarrow> RemoveDeviceMem sz a stream_id (idle_mem_bufs m); Some (m\<lparr>idle_mem_bufs := c\<rparr>) }
      else do { (_, c) \<leftarrow> RemoveDeviceMem sz a stream_id (eager_free_mem_bufs m); Some (m\<lparr>eager_free_mem_bufs := c\<rparr>) })"

section \<open>Dividing a buffer\<close>

definition bf_AlignMemorySize :: "size_t \<Rightarrow> size_t" where
  "bf_AlignMemorySize sz =
     (if sz = 0 then kDynamicMemAlignSize
      else ((sz + kDynamicMemAlignSize - 1) div kDynamicMemAlignSize) * kDynamicMemAlignSize)"

definition IsSplit :: "size_t \<Rightarrow> size_t \<Rightarrow> bool" where
  "IsSplit tensor_size mem_buf_size \<longleftrightarrow> kDynamicMemAlignSize \<le> mem_buf_size - tensor_size"

text \<open>\<open>SplitMemBuf\<close> of the buffer at address \<open>a\<close> of the given manager.\<close>

definition SplitMemBuf :: "size_t \<Rightarrow> device_ptr \<Rightarrow> MemStatusManager \<Rightarrow> MemStatusManager option" where
  "SplitMemBuf sz a m = do {
     b \<leftarrow> FindMemBlock a m;
     buf \<leftarrow> buf_find a (block_bufs b);
     let newbuf_size = buf_size buf - sz;
     let newbuf = \<lparr>buf_addr = a + sz, buf_status = buf_status buf, buf_size = newbuf_size,
                   allocator_name = [], alloc_kind = AtOther\<rparr>;
     let m = put_block (b\<lparr>block_bufs := buf_emplace newbuf (buf_modify a (buf_size_update (\<lambda>_. sz)) (block_bufs b))\<rparr>) m;
     Some (case buf_status newbuf of
             MemBufIdle \<Rightarrow> AddIdleMemBuf newbuf (block_stream b) m
           | MemBufEagerFree \<Rightarrow> AddEagerFreeMemBuf newbuf (block_stream b) m
           | MemBufUsed \<Rightarrow> m) }"

text \<open>Take \<open>n\<close> more bytes into use and raise the peak.\<close>

definition add_used :: "size_t \<Rightarrow> DeviceState \<Rightarrow> DeviceState" where
  "add_used n d =
     (let used = total_used_mem d + n in
      d\<lparr>total_used_mem := used, used_mem_peak := (if used_mem_peak d < used then used else used_mem_peak d)\<rparr>)"

definition upd_buf :: "device_ptr \<Rightarrow> (DynamicMemBuf \<Rightarrow> DynamicMemBuf) \<Rightarrow> MemStatusManager \<Rightarrow> MemStatusManager option" where
  "upd_buf a f m = do {
     b \<leftarrow> FindMemBlock a m;
     buf \<leftarrow> buf_find a (block_bufs b);
     Some (put_block (b\<lparr>block_bufs := buf_modify a f (block_bufs b)\<rparr>) m) }"

definition get_buf :: "device_ptr \<Rightarrow> MemStatusManager \<Rightarrow> DynamicMemBuf option" where
  "get_buf a m = do { b \<leftarrow> FindMemBlock a m; buf_find a (block_bufs b) }"

section \<open>Allocation\<close>

text \<open>
  \<open>FindMemBufInSpecifiedMng\<close>: the smallest buffer of the stream that is large enough; address 0 means
  that there is none. A buffer of another status than the target is only reported.
\<close>

definition FindMemBufInSpecifiedMng ::
    "AllocatorDebugInfo \<Rightarrow> size_t \<Rightarrow> bool \<Rightarrow> DynamicMemBufStatus \<Rightarrow> uint32 \<Rightarrow> DynamicMemPoolBestFit \<Rightarrow>
      (device_ptr \<times> DynamicMemPoolBestFit) option" where
  "FindMemBufInSpecifiedMng dbg sz from_persistent_mem target_status stream_id p =
     (let m = get_mng from_persistent_mem p;
          (mm, m) = (if target_status = MemBufIdle
                     then (let (mm, c) = GetOrCreateSizeMapMemBuf stream_id (idle_mem_bufs m) in (mm, m\<lparr>idle_mem_bufs := c\<rparr>))
                     else (let (mm, c) = GetOrCreateSizeMapMemBuf stream_id (eager_free_mem_bufs m) in (mm, m\<lparr>eager_free_mem_bufs := c\<rparr>)))
      in case List.find (\<lambda>e. sz \<le> fst e) mm of
           None \<Rightarrow> Some (0, set_mng from_persistent_mem m p)
         | Some (s, a) \<Rightarrow> do {
             m \<leftarrow> upd_buf a (\<lambda>b. b\<lparr>allocator_name := dbg_name dbg, alloc_kind := dbg_type dbg\<rparr>) m;
             let m = (if target_status = MemBufIdle
                      then m\<lparr>idle_mem_bufs := smap_set stream_id (remove1 (s, a) mm) (idle_mem_bufs m)\<rparr>
                      else m\<lparr>eager_free_mem_bufs := smap_set stream_id (remove1 (s, a) mm) (eager_free_mem_bufs m)\<rparr>);
             buf \<leftarrow> get_buf a m;
             m \<leftarrow> (if IsSplit sz (buf_size buf) then SplitMemBuf sz a m else Some m);
             m \<leftarrow> upd_buf a (buf_status_update (\<lambda>_. MemBufUsed)) m;
             buf \<leftarrow> get_buf a m;
             let m = m\<lparr>mps := add_used (buf_size buf) (mps m)\<rparr>;
             let m = (case target_status of
                        MemBufIdle \<Rightarrow> m\<lparr>mps := (mps m)\<lparr>total_idle_mem := total_idle_mem (mps m) - buf_size buf\<rparr>\<rparr>
                      | MemBufEagerFree \<Rightarrow> m\<lparr>mps := (mps m)\<lparr>total_eager_free_mem := total_eager_free_mem (mps m) - buf_size buf\<rparr>\<rparr>
                      | MemBufUsed \<Rightarrow> m);
             Some (a, set_mng from_persistent_mem m p) })"

definition FindMemBufByStatus ::
    "AllocatorDebugInfo \<Rightarrow> size_t \<Rightarrow> bool \<Rightarrow> DynamicMemBufStatus \<Rightarrow> uint32 \<Rightarrow> DynamicMemPoolBestFit \<Rightarrow>
      (device_ptr \<times> DynamicMemPoolBestFit) option" where
  "FindMemBufByStatus dbg sz from_persistent_mem target_status stream_id p = do {
     (a, p) \<leftarrow> FindMemBufInSpecifiedMng dbg sz from_persistent_mem target_status stream_id p;
     if a = 0 \<and> from_persistent_mem \<and> mem_block_list (persistent_mem p) \<noteq> []
     then FindMemBufInSpecifiedMng dbg sz (\<not> from_persistent_mem) target_status stream_id p
     else Some (a, p) }"

definition FindAvailableMemBuf ::
    "bf_device \<Rightarrow> AllocatorDebugInfo \<Rightarrow> size_t \<Rightarrow> bool \<Rightarrow> uint32 \<Rightarrow> DynamicMemPoolBestFit \<Rightarrow>
      (device_ptr \<times> DynamicMemPoolBestFit) option" where
  "FindAvailableMemBuf dev dbg sz from_persistent_mem stream_id p = do {
     (a, p) \<leftarrow> FindMemBufByStatus dbg sz from_persistent_mem MemBufIdle stream_id p;
     if a = 0 \<and> is_trigger_eager_free p \<and> bf_TotalUsedMemStatistics p + bf_TotalIdleMemStatistics p + sz \<le> eager_threshold dev
     then FindMemBufByStatus dbg sz from_persistent_mem MemBufEagerFree stream_id p
     else Some (a, p) }"

definition CreateMemBlockAndMemBuf ::
    "AllocatorDebugInfo \<Rightarrow> size_t \<Rightarrow> bool \<Rightarrow> device_ptr \<Rightarrow> size_t \<Rightarrow> DynamicMemBufStatus \<Rightarrow> uint32 \<Rightarrow>
      DynamicMemPoolBestFit \<Rightarrow> (device_ptr \<times> DynamicMemPoolBestFit) option" where
  "CreateMemBlockAndMemBuf dbg sz from_persistent_mem source_addr src_size mem_buf_status stream_id p = do {
     let buf = \<lparr>buf_addr = source_addr, buf_status = mem_buf_status, buf_size = src_size,
                allocator_name = dbg_name dbg, alloc_kind = dbg_type dbg\<rparr>;
     let b = \<lparr>block_bufs = [buf], block_base = source_addr, block_size = src_size, block_stream = stream_id\<rparr>;
     let m = AddMemBlock b stream_id (get_mng from_persistent_mem p);
     m \<leftarrow> (if IsSplit sz src_size then SplitMemBuf sz source_addr m else Some m);
     m \<leftarrow> upd_buf source_addr (buf_status_update (\<lambda>_. MemBufUsed)) m;
     buf \<leftarrow> get_buf source_addr m;
     let m = m\<lparr>mps := add_used (buf_size buf) ((mps m)\<lparr>total_mem := total_mem (mps m) + src_size\<rparr>)\<rparr>;
     Some (source_addr, set_mng from_persistent_mem m p) }"

definition bf_CalMemBlockAllocSize :: "bf_device \<Rightarrow> size_t \<Rightarrow> bool \<Rightarrow> DynamicMemPoolBestFit \<Rightarrow> size_t option" where
  "bf_CalMemBlockAllocSize dev sz from_persistent_mem p =
     (if free_mem_size dev < sz then Some 0
      else if free_mem_size dev < kMinimumAllocMem then Some 0
      else map_option (\<lambda>n. min n (free_mem_size dev)) (grow_double (bf_MemAllocUnitSize from_persistent_mem p) sz))"

section \<open>Release and combination\<close>

definition put_back_mem_buf :: "DynamicMemBuf \<Rightarrow> DynamicMemBufStatus \<Rightarrow> uint32 \<Rightarrow> MemStatusManager \<Rightarrow> MemStatusManager" where
  "put_back_mem_buf buf target_status stream_id m =
     (case target_status of
        MemBufIdle \<Rightarrow>
          (let m = AddIdleMemBuf buf stream_id m
           in m\<lparr>mps := (mps m)\<lparr>total_idle_mem := total_idle_mem (mps m) + buf_size buf\<rparr>\<rparr>)
      | MemBufEagerFree \<Rightarrow>
          (let m = AddEagerFreeMemBuf buf stream_id m
           in m\<lparr>mps := (mps m)\<lparr>total_eager_free_mem := total_eager_free_mem (mps m) + buf_size buf\<rparr>\<rparr>)
      | MemBufUsed \<Rightarrow> m)"

text \<open>
  \<open>CombineMemBuf\<close>: the buffers before and behind the one at the address are those next to it in the
  block's map. A buffer of another status than the origin is only reported, as is a statistic that
  is too small.
\<close>

definition CombineMemBuf ::
    "device_ptr \<Rightarrow> DynamicMemBufStatus \<Rightarrow> DynamicMemBufStatus \<Rightarrow> DynamicMemPoolBestFit \<Rightarrow> DynamicMemPoolBestFit option" where
  "CombineMemBuf a origin_status target_status p =
     (case FindByStrictAddr a p of
        None \<Rightarrow> Some p
      | Some (pers, b, buf) \<Rightarrow> do {
          let m = get_mng pers p;
          let before = takeWhile (\<lambda>c. buf_addr c \<noteq> a) (block_bufs b);
          let behind = tl (dropWhile (\<lambda>c. buf_addr c \<noteq> a) (block_bufs b));
          let buf = buf\<lparr>buf_status := target_status\<rparr>;
          let m = (case origin_status of
                     MemBufUsed \<Rightarrow> m\<lparr>mps := (mps m)\<lparr>total_used_mem := total_used_mem (mps m) - buf_size buf\<rparr>\<rparr>
                   | MemBufIdle \<Rightarrow> m\<lparr>mps := (mps m)\<lparr>total_idle_mem := total_idle_mem (mps m) - buf_size buf\<rparr>\<rparr>
                   | MemBufEagerFree \<Rightarrow> m);
          (buf, behind, m) \<leftarrow>
            (case behind of
               nx # rest \<Rightarrow>
                 if buf_status nx = target_status
                 then do {
                   m \<leftarrow> EraseMemBufByStatus (buf_size nx) (buf_addr nx) target_status (block_stream b) m;
                   Some (buf\<lparr>buf_size := buf_size buf + buf_size nx\<rparr>, rest, m) }
                 else Some (buf, behind, m)
             | [] \<Rightarrow> Some (buf, behind, m));
          (buf, before, m) \<leftarrow>
            (if before \<noteq> [] \<and> buf_status (last before) = target_status
             then do {
               let pv = last before;
               m \<leftarrow> EraseMemBufByStatus (buf_size pv) (buf_addr pv) target_status (block_stream b) m;
               Some (pv\<lparr>buf_size := buf_size pv + buf_size buf\<rparr>, butlast before, m) }
             else Some (buf, before, m));
          let m = put_block (b\<lparr>block_bufs := before @ buf # behind\<rparr>) m;
          Some (set_mng pers (put_back_mem_buf buf target_status (block_stream b) m) p) })"

definition bf_FreeTensorMem :: "device_ptr \<Rightarrow> DynamicMemPoolBestFit \<Rightarrow> DynamicMemPoolBestFit option" where
  "bf_FreeTensorMem a p = CombineMemBuf a MemBufUsed MemBufIdle p"

section \<open>Eager free\<close>

text \<open>
  \<open>FreeIdleMemsByEagerFree\<close>: every idle buffer is given back to the device and becomes eager-free; the
  idle map that is iterated is not changed by this and is cleared at the end.
\<close>

fun eager_free_bufs :: "bf_device \<Rightarrow> SizeMapMemBuf \<Rightarrow> DynamicMemPoolBestFit \<Rightarrow> (size_t \<times> DynamicMemPoolBestFit) option" where
  "eager_free_bufs dev [] p = Some (0, p)"
| "eager_free_bufs dev ((sz, a) # mm) p = do {
     p \<leftarrow> CombineMemBuf a MemBufIdle MemBufEagerFree p;
     (n, p) \<leftarrow> eager_free_bufs dev mm p;
     Some (FreeDeviceMemByEagerFree dev a sz + n, p) }"

definition eager_free_mng :: "bf_device \<Rightarrow> bool \<Rightarrow> DynamicMemPoolBestFit \<Rightarrow> (size_t \<times> DynamicMemPoolBestFit) option" where
  "eager_free_mng dev pers p = do {
     (n, p) \<leftarrow> eager_free_bufs dev (concat (map snd (idle_mem_bufs (get_mng pers p)))) p;
     Some (n, set_mng pers ((get_mng pers p)\<lparr>idle_mem_bufs := []\<rparr>) p) }"

definition bf_FreeIdleMemsByEagerFree :: "bf_device \<Rightarrow> DynamicMemPoolBestFit \<Rightarrow> (size_t \<times> DynamicMemPoolBestFit) option" where
  "bf_FreeIdleMemsByEagerFree dev p = do {
     (persistent_real_free_size, p) \<leftarrow> eager_free_mng dev True p;
     (common_real_free_size, p) \<leftarrow> eager_free_mng dev False p;
     Some (persistent_real_free_size + common_real_free_size, p) }"

definition AddMemBlockAndMemBufByEagerFree ::
    "bf_device \<Rightarrow> AllocatorDebugInfo \<Rightarrow> size_t \<Rightarrow> bool \<Rightarrow> uint32 \<Rightarrow> DynamicMemPoolBestFit \<Rightarrow>
      (device_ptr \<times> DynamicMemPoolBestFit) option" where
  "AddMemBlockAndMemBufByEagerFree dev dbg sz from_persistent_mem stream_id p =
     (if total_mem_size dev < bf_TotalUsedMemStatistics p + sz then Some (0, p)
      else do {
        (_, p) \<leftarrow> bf_FreeIdleMemsByEagerFree dev p;
        (a, p) \<leftarrow> FindMemBufByStatus dbg sz from_persistent_mem MemBufEagerFree stream_id p;
        if a \<noteq> 0 then Some (a, p)
        else
          let alloc_size = total_mem_size dev;
              (real_alloc_size, device_addr) = AllocDeviceMemByEagerFree dev alloc_size
          in if real_alloc_size < alloc_size then Some (0, p)
             else CreateMemBlockAndMemBuf dbg sz from_persistent_mem device_addr real_alloc_size MemBufEagerFree stream_id p })"

definition AddMemBlockAndMemBuf ::
    "bf_device \<Rightarrow> AllocatorDebugInfo \<Rightarrow> size_t \<Rightarrow> bool \<Rightarrow> bool \<Rightarrow> uint32 \<Rightarrow> DynamicMemPoolBestFit \<Rightarrow>
      (device_ptr \<times> DynamicMemPoolBestFit) option" where
  "AddMemBlockAndMemBuf dev dbg sz from_persistent_mem need_recycle stream_id p =
     (let from_persistent_mem =
            (if from_persistent_mem \<and> \<not> need_recycle \<and> \<not> Empty_mng (persistent_mem p) then False else from_persistent_mem)
      in if is_trigger_eager_free p
         then AddMemBlockAndMemBufByEagerFree dev dbg sz from_persistent_mem stream_id p
         else do {
           alloc_mem_size \<leftarrow> bf_CalMemBlockAllocSize dev sz from_persistent_mem p;
           if alloc_mem_size = 0 then do {
             (a, p) \<leftarrow> FindAvailableMemBuf dev dbg sz (\<not> from_persistent_mem) stream_id p;
             if a \<noteq> 0 then Some (a, p)
             else if IsEnableEagerFree dev
             then AddMemBlockAndMemBufByEagerFree dev dbg sz from_persistent_mem stream_id (p\<lparr>is_trigger_eager_free := True\<rparr>)
             else Some (0, p) }
           else
             let (real_alloc_size, device_addr) = AllocDeviceMem dev alloc_mem_size in
             if real_alloc_size < sz then Some (0, p)
             else
               let p = p\<lparr>common_mem := (common_mem p)\<lparr>mng_unit_size := config_unit_size p\<rparr>\<rparr> in
               CreateMemBlockAndMemBuf dbg sz from_persistent_mem device_addr real_alloc_size MemBufIdle stream_id p })"

definition kDefaultStreamIndex :: uint32 where "kDefaultStreamIndex = 0"

definition bf_AllocTensorMem ::
    "bf_device \<Rightarrow> AllocatorDebugInfo \<Rightarrow> size_t \<Rightarrow> bool \<Rightarrow> bool \<Rightarrow> uint32 \<Rightarrow> DynamicMemPoolBestFit \<Rightarrow>
      (device_ptr \<times> DynamicMemPoolBestFit) option" where
  "bf_AllocTensorMem dev dbg sz from_persistent_mem need_recycle stream_id p = do {
     let stream_id = (if stream_id = - 1 then kDefaultStreamIndex else stream_id);
     let align_size = bf_AlignMemorySize sz;
     (a, p) \<leftarrow> FindAvailableMemBuf dev dbg align_size from_persistent_mem stream_id p;
     let (a, p) = (if need_recycle \<and> \<not> init_recycle_memory p then (0, p\<lparr>init_recycle_memory := True\<rparr>) else (a, p));
     if a = 0 then AddMemBlockAndMemBuf dev dbg align_size from_persistent_mem need_recycle stream_id p
     else Some (a, p) }"

section \<open>Continuous allocation, partial release, destruction\<close>

text \<open>\<open>std::accumulate\<close> with the initial value \<open>0\<close> adds into an \<open>int\<close>, and the sum is converted to \<open>size_t\<close>.\<close>

definition accumulate_int :: "size_t list \<Rightarrow> size_t" where
  "accumulate_int sizes = scast (foldl (\<lambda>acc n. ucast (scast acc + n :: size_t)) (0 :: 32 word) sizes)"

fun continuous_bufs :: "AllocatorDebugInfo \<Rightarrow> device_ptr \<Rightarrow> size_t list \<Rightarrow> DynamicMemBuf list" where
  "continuous_bufs dbg a [] = []"
| "continuous_bufs dbg a (n # ns) =
     \<lparr>buf_addr = a, buf_status = MemBufUsed, buf_size = n, allocator_name = dbg_name dbg, alloc_kind = dbg_type dbg\<rparr>
     # continuous_bufs dbg (a + n) ns"

definition bf_AllocContinuousTensorMem ::
    "bf_device \<Rightarrow> AllocatorDebugInfo \<Rightarrow> size_t list \<Rightarrow> uint32 \<Rightarrow> DynamicMemPoolBestFit \<Rightarrow>
      (device_ptr list \<times> DynamicMemPoolBestFit) option" where
  "bf_AllocContinuousTensorMem dev dbg sizes stream_id p = do {
     let total_size = accumulate_int sizes;
     (a, p) \<leftarrow> bf_AllocTensorMem dev dbg total_size False False stream_id p;
     if a = 0 then Some ([], p)
     else do {
       (pers, b) \<leftarrow> (case FindMemBlock a (common_mem p) of
                      Some b \<Rightarrow> Some (False, b)
                    | None \<Rightarrow> map_option (Pair True) (FindMemBlock a (persistent_mem p)));
       buf \<leftarrow> buf_find a (block_bufs b);
       let rest_size = buf_size buf - total_size;
       let bs = continuous_bufs dbg a sizes;
       let bufs = foldl (\<lambda>l c. buf_emplace c l) (buf_erase a (block_bufs b)) bs;
       if bs = [] then None
       else do {
         let bufs = buf_modify (buf_addr (last bs)) (\<lambda>c. c\<lparr>buf_size := buf_size c + rest_size\<rparr>) bufs;
         Some (map buf_addr bs, set_mng pers (put_block (b\<lparr>block_bufs := bufs\<rparr>) (get_mng pers p)) p) } } }"

text \<open>\<open>KeepTensorMemByAddr\<close> takes part of an idle buffer back into use.\<close>

definition KeepTensorMemByAddr ::
    "AllocatorDebugInfo \<Rightarrow> device_ptr \<Rightarrow> size_t \<Rightarrow> DynamicMemPoolBestFit \<Rightarrow> DynamicMemPoolBestFit option" where
  "KeepTensorMemByAddr dbg a sz p = do {
     (pers, b, buf) \<leftarrow> FindByKeepAddr a p;
     let m = get_mng pers p;
     let split_left_size = a - buf_addr buf;
     let split_right_size = buf_size buf - split_left_size - sz;
     m \<leftarrow> EraseMemBufByStatus (buf_size buf) (buf_addr buf) (buf_status buf) (block_stream b) m;
     let (bufs, m) =
       (if split_left_size = 0
        then (buf_modify (buf_addr buf)
               (\<lambda>c. c\<lparr>buf_status := MemBufUsed, buf_size := sz, allocator_name := dbg_name dbg, alloc_kind := dbg_type dbg\<rparr>)
               (block_bufs b), m)
        else
          (let bufs = buf_modify (buf_addr buf) (\<lambda>c. c\<lparr>buf_size := split_left_size\<rparr>) (block_bufs b);
               m = AddIdleMemBuf (buf\<lparr>buf_size := split_left_size\<rparr>) (block_stream b) m
           in (buf_emplace \<lparr>buf_addr = a, buf_status = MemBufUsed, buf_size = sz, allocator_name = dbg_name dbg,
                            alloc_kind = dbg_type dbg\<rparr> bufs, m)));
     let (bufs, m) =
       (if 0 < split_right_size
        then (let right = \<lparr>buf_addr = a + sz, buf_status = MemBufIdle, buf_size = split_right_size,
                           allocator_name = [], alloc_kind = AtOther\<rparr>
              in (buf_emplace right bufs, AddIdleMemBuf right (block_stream b) m))
        else (bufs, m));
     let m = put_block (b\<lparr>block_bufs := bufs\<rparr>) m;
     let m = m\<lparr>mps := add_used sz (mps m)\<rparr>;
     let m = m\<lparr>mps := (mps m)\<lparr>total_idle_mem := total_idle_mem (mps m) - sz\<rparr>\<rparr>;
     Some (set_mng pers m p) }"

text \<open>\<open>FreePartTensorMems\<close>; the sizes are as many as the addresses.\<close>

fun free_all :: "device_ptr list \<Rightarrow> DynamicMemPoolBestFit \<Rightarrow> DynamicMemPoolBestFit option" where
  "free_all [] p = Some p"
| "free_all (a # as) p = do { p \<leftarrow> bf_FreeTensorMem a p; free_all as p }"

fun bf_keep_all :: "AllocatorDebugInfo \<Rightarrow> (device_ptr \<times> size_t) list \<Rightarrow> DynamicMemPoolBestFit \<Rightarrow> DynamicMemPoolBestFit option" where
  "bf_keep_all dbg [] p = Some p"
| "bf_keep_all dbg ((a, sz) # ks) p = do { p \<leftarrow> KeepTensorMemByAddr dbg a sz p; bf_keep_all dbg ks p }"

definition bf_FreePartTensorMems ::
    "AllocatorDebugInfo \<Rightarrow> device_ptr list \<Rightarrow> device_ptr list \<Rightarrow> size_t list \<Rightarrow> DynamicMemPoolBestFit \<Rightarrow>
      DynamicMemPoolBestFit option" where
  "bf_FreePartTensorMems dbg free_addrs keep_addrs keep_addr_sizes p = do {
     p \<leftarrow> free_all free_addrs p;
     if length keep_addr_sizes < length keep_addrs then None
     else bf_keep_all dbg (zip keep_addrs keep_addr_sizes) p }"

text \<open>The destructor.\<close>

definition destroy_pool :: "DynamicMemPoolBestFit \<Rightarrow> DynamicMemPoolBestFit" where
  "destroy_pool p = p\<lparr>persistent_mem := Clear_mng (persistent_mem p), common_mem := Clear_mng (common_mem p)\<rparr>"

text \<open>\<open>ReleaseDeviceRes\<close>: the blocks given back to the device, common ones first, and the emptied pool.\<close>

definition bf_ReleaseDeviceRes :: "DynamicMemPoolBestFit \<Rightarrow> device_ptr list \<times> DynamicMemPoolBestFit" where
  "bf_ReleaseDeviceRes p =
     (let freed = (\<lambda>m. filter (\<lambda>a. a \<noteq> 0) (map block_base (mem_block_list m)))
      in (freed (common_mem p) @ freed (persistent_mem p),
          p\<lparr>common_mem := Clear_mng (common_mem p), persistent_mem := Clear_mng (persistent_mem p)\<rparr>))"

declare grow_double.simps [code]

end
