(* ===== verification/Best_Fit_Opt.thy ===== *)
theory Best_Fit_Opt
  imports Best_Fit
begin

text \<open>
  The pool \<open>DynamicMemPoolBestFitOpt\<close> of \<^verbatim>\<open>application/src/mem_optimized_allocator.cpp\<close>, a variant of
  \<open>DynamicMemPoolBestFit\<close> that keeps the maps of the streams in vectors of 128 elements, holds buffers by raw
  pointers, gives every buffer a pointer to its block, aligns with a mask and splits less often.

  Buffers, blocks, statistics and devices are the records of the other pool; \<open>mem_block_ptr_\<close> of a buffer is
  the block that owns it. A raw pointer to a buffer is the device address of the buffer, which stands for
  the buffer as long as the buffer is not deleted: \<open>opt_delete\<close> is \<open>None\<close> when an entry of the map that the
  operation works on would be left pointing to the deleted buffer, as after a double free. So every entry
  that is read later belongs to a buffer that exists. Operations also return \<open>None\<close> where the source
  indexes a vector beyond its end, dereferences a null pointer or an end iterator, or does not return.
\<close>

section \<open>Data\<close>

record opt_manager =
  o_unit_size :: size_t
  o_mps :: DeviceState
  o_block_list :: "DynamicMemBlock list"
  o_blocks :: "device_ptr list list"
  o_idle :: "SizeMapMemBuf list"
  o_eager :: "SizeMapMemBuf list"

record DynamicMemPoolBestFitOpt =
  o_persistent :: opt_manager
  o_common :: opt_manager
  o_config_unit_size :: size_t
  o_trigger_eager_free :: bool
  min_tensor_size :: size_t
  o_init_recycle :: bool
  o_mem_bufs :: "device_ptr list"

definition opt_manager0 :: opt_manager where
  "opt_manager0 = \<lparr>o_unit_size = kDynamicMemAllocUnitSize, o_mps = DeviceState0, o_block_list = [],
     o_blocks = replicate 128 [], o_idle = replicate 128 [], o_eager = replicate 128 []\<rparr>"

definition DynamicMemPoolBestFitOpt0 :: DynamicMemPoolBestFitOpt where
  "DynamicMemPoolBestFitOpt0 = \<lparr>o_persistent = opt_manager0, o_common = opt_manager0,
     o_config_unit_size = kDynamicMemAllocUnitSize, o_trigger_eager_free = False, min_tensor_size = push_bit 10 1,
     o_init_recycle = False, o_mem_bufs = []\<rparr>"

text \<open>\<open>operator[]\<close> of a vector, for reading and for updating an element.\<close>

definition vec_at :: "'a list \<Rightarrow> uint32 \<Rightarrow> 'a option" where
  "vec_at v i = (if unat i < length v then Some (v ! unat i) else None)"

definition vec_upd :: "uint32 \<Rightarrow> ('a \<Rightarrow> 'a) \<Rightarrow> 'a list \<Rightarrow> 'a list option" where
  "vec_upd i f v = (if unat i < length v then Some (v[unat i := f (v ! unat i)]) else None)"

section \<open>The manager\<close>

definition opt_AddMemBlock :: "DynamicMemBlock \<Rightarrow> uint32 \<Rightarrow> opt_manager \<Rightarrow> opt_manager option" where
  "opt_AddMemBlock b stream_id m = do {
     bs \<leftarrow> vec_upd stream_id (\<lambda>l. l @ [block_base b]) (o_blocks m);
     Some (m\<lparr>o_block_list := DoAddMemBlock block_base b (o_block_list m), o_blocks := bs\<rparr>) }"

text \<open>
  \<open>RemoveDeviceMem\<close>: whether an entry was removed, and the container. It reads the addresses of the buffers
  of this size through the pointers of the entries and removes the entry, not the buffer.
\<close>

definition opt_RemoveDeviceMem ::
    "size_t \<Rightarrow> device_ptr \<Rightarrow> uint32 \<Rightarrow> SizeMapMemBuf list \<Rightarrow> (bool \<times> SizeMapMemBuf list) option" where
  "opt_RemoveDeviceMem sz a stream_id container = do {
     mm \<leftarrow> vec_at container stream_id;
     if (sz, a) \<in> set mm then map_option (Pair True) (vec_upd stream_id (remove1 (sz, a)) container)
     else Some (False, container) }"

text \<open>\<open>delete\<close> of the buffer at \<open>a\<close>, while the map of buffers of the given status is worked on.\<close>

definition opt_delete :: "DynamicMemBufStatus \<Rightarrow> device_ptr \<Rightarrow> opt_manager \<Rightarrow> opt_manager option" where
  "opt_delete target_status a m =
     (if a \<in> snd ` set (concat (if target_status = MemBufIdle then o_idle m else o_eager m)) then None else Some m)"

definition opt_Clear :: "opt_manager \<Rightarrow> opt_manager" where
  "opt_Clear m = m\<lparr>o_block_list := [], o_blocks := [], o_idle := [], o_eager := []\<rparr>"

definition opt_add_idle :: "DynamicMemBuf \<Rightarrow> uint32 \<Rightarrow> opt_manager \<Rightarrow> opt_manager option" where
  "opt_add_idle buf stream_id m =
     map_option (\<lambda>v. m\<lparr>o_idle := v\<rparr>) (vec_upd stream_id (mm_emplace (buf_size buf) (buf_addr buf)) (o_idle m))"

definition opt_add_eager :: "DynamicMemBuf \<Rightarrow> uint32 \<Rightarrow> opt_manager \<Rightarrow> opt_manager option" where
  "opt_add_eager buf stream_id m =
     map_option (\<lambda>v. m\<lparr>o_eager := v\<rparr>) (vec_upd stream_id (mm_emplace (buf_size buf) (buf_addr buf)) (o_eager m))"

section \<open>Access to the managers\<close>

definition opt_mng :: "bool \<Rightarrow> DynamicMemPoolBestFitOpt \<Rightarrow> opt_manager" where
  "opt_mng from_persistent_mem p = (if from_persistent_mem then o_persistent p else o_common p)"

definition opt_set_mng :: "bool \<Rightarrow> opt_manager \<Rightarrow> DynamicMemPoolBestFitOpt \<Rightarrow> DynamicMemPoolBestFitOpt" where
  "opt_set_mng from_persistent_mem m p =
     (if from_persistent_mem then p\<lparr>o_persistent := m\<rparr> else p\<lparr>o_common := m\<rparr>)"

definition opt_TotalMemStatistics :: "DynamicMemPoolBestFitOpt \<Rightarrow> size_t" where
  "opt_TotalMemStatistics p = total_mem (o_mps (o_common p)) + total_mem (o_mps (o_persistent p))"
definition opt_TotalUsedMemStatistics :: "DynamicMemPoolBestFitOpt \<Rightarrow> size_t" where
  "opt_TotalUsedMemStatistics p = total_used_mem (o_mps (o_common p)) + total_used_mem (o_mps (o_persistent p))"
definition opt_TotalIdleMemStatistics :: "DynamicMemPoolBestFitOpt \<Rightarrow> size_t" where
  "opt_TotalIdleMemStatistics p = total_idle_mem (o_mps (o_common p)) + total_idle_mem (o_mps (o_persistent p))"
definition opt_TotalEagerFreeMemStatistics :: "DynamicMemPoolBestFitOpt \<Rightarrow> size_t" where
  "opt_TotalEagerFreeMemStatistics p = total_eager_free_mem (o_mps (o_common p)) + total_eager_free_mem (o_mps (o_persistent p))"
definition opt_UsedMemPeakStatistics :: "DynamicMemPoolBestFitOpt \<Rightarrow> size_t" where
  "opt_UsedMemPeakStatistics p = used_mem_peak (o_mps (o_common p)) + used_mem_peak (o_mps (o_persistent p))"

definition opt_MemAllocUnitSize :: "bool \<Rightarrow> DynamicMemPoolBestFitOpt \<Rightarrow> size_t" where
  "opt_MemAllocUnitSize from_persistent_mem p =
     (if from_persistent_mem then o_unit_size (o_persistent p) else o_unit_size (o_common p))"

definition opt_SetMemAllocUintSize :: "size_t \<Rightarrow> size_t \<Rightarrow> DynamicMemPoolBestFitOpt \<Rightarrow> DynamicMemPoolBestFitOpt" where
  "opt_SetMemAllocUintSize common_size persist_size p =
     p\<lparr>o_persistent := (o_persistent p)\<lparr>o_unit_size := persist_size\<rparr>,
       o_common := (o_common p)\<lparr>o_unit_size := common_size\<rparr>, o_config_unit_size := common_size\<rparr>"

definition opt_SetMemPoolBlockSize :: "size_t \<Rightarrow> DynamicMemPoolBestFitOpt \<Rightarrow> DynamicMemPoolBestFitOpt" where
  "opt_SetMemPoolBlockSize available_device_mem_size p =
     opt_SetMemAllocUintSize (scast (push_bit 31 1 :: 32 word)) kDynamicMemAllocUnitSize p"

definition opt_GetMinUsedMemoryAddr :: "DynamicMemPoolBestFitOpt \<Rightarrow> device_ptr" where
  "opt_GetMinUsedMemoryAddr p = (case o_mem_bufs p of [] \<Rightarrow> 0 | a # _ \<Rightarrow> a)"

section \<open>Blocks and buffers\<close>

definition opt_CmpMemBlock :: "device_ptr \<Rightarrow> DynamicMemBlock \<Rightarrow> bool" where
  "opt_CmpMemBlock a b \<longleftrightarrow> a < block_base b"

definition opt_FindMemBlock :: "device_ptr \<Rightarrow> opt_manager \<Rightarrow> DynamicMemBlock option" where
  "opt_FindMemBlock a m = last_opt (takeWhile (\<lambda>b. \<not> opt_CmpMemBlock a b) (o_block_list m)) None"

definition opt_put_block :: "DynamicMemBlock \<Rightarrow> opt_manager \<Rightarrow> opt_manager" where
  "opt_put_block b m = m\<lparr>o_block_list := map (\<lambda>c. if block_base c = block_base b then b else c) (o_block_list m)\<rparr>"

text \<open>The block a buffer points to, its buffer, and a change of the buffer.\<close>

definition owner_block :: "device_ptr \<Rightarrow> opt_manager \<Rightarrow> DynamicMemBlock option" where
  "owner_block a m = List.find (\<lambda>b. buf_find a (block_bufs b) \<noteq> None) (o_block_list m)"

definition opt_get_buf :: "device_ptr \<Rightarrow> opt_manager \<Rightarrow> DynamicMemBuf option" where
  "opt_get_buf a m = do { b \<leftarrow> owner_block a m; buf_find a (block_bufs b) }"

definition opt_upd_buf :: "device_ptr \<Rightarrow> (DynamicMemBuf \<Rightarrow> DynamicMemBuf) \<Rightarrow> opt_manager \<Rightarrow> opt_manager option" where
  "opt_upd_buf a f m = do {
     b \<leftarrow> owner_block a m;
     buf \<leftarrow> buf_find a (block_bufs b);
     Some (opt_put_block (b\<lparr>block_bufs := buf_modify a f (block_bufs b)\<rparr>) m) }"

definition opt_AlignMemorySize :: "size_t \<Rightarrow> size_t" where
  "opt_AlignMemorySize sz =
     (if sz \<noteq> 0 then and (sz + kDynamicMemAlignSize - 1) (not (kDynamicMemAlignSize - 1)) else kDynamicMemAlignSize)"

definition opt_IsSplit :: "size_t \<Rightarrow> size_t \<Rightarrow> DynamicMemPoolBestFitOpt \<Rightarrow> bool" where
  "opt_IsSplit tensor_size mem_buf_size p \<longleftrightarrow> min_tensor_size p \<le> mem_buf_size - tensor_size"

definition opt_SplitMemBuf :: "size_t \<Rightarrow> device_ptr \<Rightarrow> uint32 \<Rightarrow> opt_manager \<Rightarrow> opt_manager option" where
  "opt_SplitMemBuf sz a stream_id m = do {
     b \<leftarrow> owner_block a m;
     buf \<leftarrow> buf_find a (block_bufs b);
     let newbuf = \<lparr>buf_addr = a + sz, buf_status = buf_status buf, buf_size = buf_size buf - sz,
                   allocator_name = [], alloc_kind = AtOther\<rparr>;
     let m = opt_put_block (b\<lparr>block_bufs := buf_emplace newbuf (buf_modify a (buf_size_update (\<lambda>_. sz)) (block_bufs b))\<rparr>) m;
     case buf_status newbuf of
       MemBufIdle \<Rightarrow> opt_add_idle newbuf stream_id m
     | MemBufEagerFree \<Rightarrow> opt_add_eager newbuf stream_id m
     | MemBufUsed \<Rightarrow> Some m }"

section \<open>Allocation\<close>

definition opt_FindMemBufInSpecifiedMng ::
    "AllocatorDebugInfo \<Rightarrow> size_t \<Rightarrow> bool \<Rightarrow> DynamicMemBufStatus \<Rightarrow> uint32 \<Rightarrow> DynamicMemPoolBestFitOpt \<Rightarrow>
      (device_ptr \<times> DynamicMemPoolBestFitOpt) option" where
  "opt_FindMemBufInSpecifiedMng dbg sz from_persistent_mem target_status stream_id p = do {
     let m = opt_mng from_persistent_mem p;
     mm \<leftarrow> vec_at (if target_status = MemBufIdle then o_idle m else o_eager m) stream_id;
     case List.find (\<lambda>e. sz \<le> fst e) mm of
       None \<Rightarrow> Some (0, p)
     | Some (s, a) \<Rightarrow> do {
         m \<leftarrow> opt_upd_buf a (\<lambda>b. b\<lparr>allocator_name := dbg_name dbg, alloc_kind := dbg_type dbg\<rparr>) m;
         let m = (if target_status = MemBufIdle
                  then m\<lparr>o_idle := (o_idle m)[unat stream_id := remove1 (s, a) mm]\<rparr>
                  else m\<lparr>o_eager := (o_eager m)[unat stream_id := remove1 (s, a) mm]\<rparr>);
         buf \<leftarrow> opt_get_buf a m;
         m \<leftarrow> (if opt_IsSplit sz (buf_size buf) p then opt_SplitMemBuf sz a stream_id m else Some m);
         m \<leftarrow> opt_upd_buf a (buf_status_update (\<lambda>_. MemBufUsed)) m;
         buf \<leftarrow> opt_get_buf a m;
         let m = m\<lparr>o_mps := add_used (buf_size buf) (o_mps m)\<rparr>;
         let m = (case target_status of
                    MemBufIdle \<Rightarrow> m\<lparr>o_mps := (o_mps m)\<lparr>total_idle_mem := total_idle_mem (o_mps m) - buf_size buf\<rparr>\<rparr>
                  | MemBufEagerFree \<Rightarrow> m\<lparr>o_mps := (o_mps m)\<lparr>total_eager_free_mem := total_eager_free_mem (o_mps m) - buf_size buf\<rparr>\<rparr>
                  | MemBufUsed \<Rightarrow> m);
         Some (a, opt_set_mng from_persistent_mem m p) } }"

definition opt_FindMemBufByStatus ::
    "AllocatorDebugInfo \<Rightarrow> size_t \<Rightarrow> bool \<Rightarrow> DynamicMemBufStatus \<Rightarrow> uint32 \<Rightarrow> DynamicMemPoolBestFitOpt \<Rightarrow>
      (device_ptr \<times> DynamicMemPoolBestFitOpt) option" where
  "opt_FindMemBufByStatus dbg sz from_persistent_mem target_status stream_id p = do {
     (a, p) \<leftarrow> opt_FindMemBufInSpecifiedMng dbg sz from_persistent_mem target_status stream_id p;
     if a = 0 \<and> from_persistent_mem \<and> o_block_list (o_persistent p) \<noteq> []
     then opt_FindMemBufInSpecifiedMng dbg sz (\<not> from_persistent_mem) target_status stream_id p
     else Some (a, p) }"

definition opt_FindAvailableMemBuf ::
    "bf_device \<Rightarrow> AllocatorDebugInfo \<Rightarrow> size_t \<Rightarrow> bool \<Rightarrow> uint32 \<Rightarrow> DynamicMemPoolBestFitOpt \<Rightarrow>
      (device_ptr \<times> DynamicMemPoolBestFitOpt) option" where
  "opt_FindAvailableMemBuf dev dbg sz from_persistent_mem stream_id p = do {
     (a, p) \<leftarrow> opt_FindMemBufByStatus dbg sz from_persistent_mem MemBufIdle stream_id p;
     if a = 0 \<and> o_trigger_eager_free p \<and> opt_TotalUsedMemStatistics p + opt_TotalIdleMemStatistics p + sz \<le> eager_threshold dev
     then opt_FindMemBufByStatus dbg sz from_persistent_mem MemBufEagerFree stream_id p
     else Some (a, p) }"

text \<open>A new block is split only when it has at least twice the requested size.\<close>

definition opt_CreateMemBlockAndMemBuf ::
    "AllocatorDebugInfo \<Rightarrow> size_t \<Rightarrow> bool \<Rightarrow> device_ptr \<Rightarrow> size_t \<Rightarrow> DynamicMemBufStatus \<Rightarrow> uint32 \<Rightarrow>
      DynamicMemPoolBestFitOpt \<Rightarrow> (device_ptr \<times> DynamicMemPoolBestFitOpt) option" where
  "opt_CreateMemBlockAndMemBuf dbg sz from_persistent_mem source_addr src_size mem_buf_status stream_id p = do {
     let buf = \<lparr>buf_addr = source_addr, buf_status = mem_buf_status, buf_size = src_size,
                allocator_name = dbg_name dbg, alloc_kind = dbg_type dbg\<rparr>;
     let b = \<lparr>block_bufs = [buf], block_base = source_addr, block_size = src_size, block_stream = stream_id\<rparr>;
     m \<leftarrow> opt_AddMemBlock b stream_id (opt_mng from_persistent_mem p);
     m \<leftarrow> (if push_bit 1 sz \<le> src_size then opt_SplitMemBuf sz source_addr stream_id m else Some m);
     m \<leftarrow> opt_upd_buf source_addr (buf_status_update (\<lambda>_. MemBufUsed)) m;
     buf \<leftarrow> opt_get_buf source_addr m;
     let m = m\<lparr>o_mps := add_used (buf_size buf) ((o_mps m)\<lparr>total_mem := total_mem (o_mps m) + src_size\<rparr>)\<rparr>;
     Some (source_addr, opt_set_mng from_persistent_mem m p) }"

definition opt_CalMemBlockAllocSize :: "bf_device \<Rightarrow> size_t \<Rightarrow> bool \<Rightarrow> DynamicMemPoolBestFitOpt \<Rightarrow> size_t option" where
  "opt_CalMemBlockAllocSize dev sz from_persistent_mem p =
     (if free_mem_size dev < sz then Some 0
      else if free_mem_size dev < kMinimumAllocMem then Some 0
      else map_option (\<lambda>n. min n (free_mem_size dev)) (grow_double (opt_MemAllocUnitSize from_persistent_mem p) sz))"

section \<open>Release and combination\<close>

definition opt_EraseMemBufByStatus ::
    "size_t \<Rightarrow> device_ptr \<Rightarrow> DynamicMemBufStatus \<Rightarrow> uint32 \<Rightarrow> opt_manager \<Rightarrow> opt_manager option" where
  "opt_EraseMemBufByStatus sz a target_status stream_id m =
     (if target_status = MemBufIdle
      then do { (_, c) \<leftarrow> opt_RemoveDeviceMem sz a stream_id (o_idle m); Some (m\<lparr>o_idle := c\<rparr>) }
      else do { (_, c) \<leftarrow> opt_RemoveDeviceMem sz a stream_id (o_eager m); Some (m\<lparr>o_eager := c\<rparr>) })"

text \<open>The buffer goes into the map of its block's stream.\<close>

definition opt_put_back :: "DynamicMemBuf \<Rightarrow> DynamicMemBufStatus \<Rightarrow> uint32 \<Rightarrow> opt_manager \<Rightarrow> opt_manager option" where
  "opt_put_back buf target_status stream_id m =
     (case target_status of
        MemBufIdle \<Rightarrow> do {
          m \<leftarrow> opt_add_idle buf stream_id m;
          Some (m\<lparr>o_mps := (o_mps m)\<lparr>total_idle_mem := total_idle_mem (o_mps m) + buf_size buf\<rparr>\<rparr>) }
      | MemBufEagerFree \<Rightarrow> do {
          m \<leftarrow> opt_add_eager buf stream_id m;
          Some (m\<lparr>o_mps := (o_mps m)\<lparr>total_eager_free_mem := total_eager_free_mem (o_mps m) + buf_size buf\<rparr>\<rparr>) }
      | MemBufUsed \<Rightarrow> Some m)"

text \<open>\<open>CombineMemBufForward\<close>: \<open>before\<close> and \<open>behind\<close> are the buffers around \<open>buf\<close> in the block.\<close>

definition CombineMemBufForward ::
    "DynamicMemBuf list \<Rightarrow> DynamicMemBuf \<Rightarrow> DynamicMemBuf list \<Rightarrow> DynamicMemBlock \<Rightarrow> DynamicMemBufStatus \<Rightarrow> opt_manager \<Rightarrow> opt_manager option" where
  "CombineMemBufForward before buf behind b target_status m =
     (if before \<noteq> [] \<and> buf_status (last before) = target_status
      then do {
        let pv = last before;
        m \<leftarrow> opt_EraseMemBufByStatus (buf_size pv) (buf_addr pv) target_status (block_stream b) m;
        let pv = pv\<lparr>buf_size := buf_size pv + buf_size buf\<rparr>;
        let m = opt_put_block (b\<lparr>block_bufs := butlast before @ pv # behind\<rparr>) m;
        m \<leftarrow> opt_delete target_status (buf_addr buf) m;
        opt_put_back pv target_status (block_stream b) m }
      else do {
        let m = opt_put_block (b\<lparr>block_bufs := before @ buf # behind\<rparr>) m;
        opt_put_back buf target_status (block_stream b) m })"

text \<open>The search at the start of \<open>CombineMemBuf\<close>: the common pool, then the persistent one.\<close>

definition opt_find_addr :: "device_ptr \<Rightarrow> DynamicMemPoolBestFitOpt \<Rightarrow> (bool \<times> DynamicMemBlock \<times> DynamicMemBuf) option" where
  "opt_find_addr a p =
     (let find_in = (\<lambda>pers. do {
            b \<leftarrow> opt_FindMemBlock a (opt_mng pers p);
            buf \<leftarrow> buf_find a (block_bufs b);
            Some (pers, b, buf) })
      in case find_in False of Some r \<Rightarrow> Some r | None \<Rightarrow> find_in True)"

definition opt_CombineMemBuf ::
    "device_ptr \<Rightarrow> DynamicMemBufStatus \<Rightarrow> DynamicMemBufStatus \<Rightarrow> DynamicMemPoolBestFitOpt \<Rightarrow> DynamicMemPoolBestFitOpt option" where
  "opt_CombineMemBuf a origin_status target_status p =
     (case opt_find_addr a p of
        None \<Rightarrow> Some p
      | Some (pers, b, buf) \<Rightarrow> do {
          let m = opt_mng pers p;
          let before = takeWhile (\<lambda>c. buf_addr c \<noteq> a) (block_bufs b);
          let behind = tl (dropWhile (\<lambda>c. buf_addr c \<noteq> a) (block_bufs b));
          let buf = buf\<lparr>buf_status := target_status\<rparr>;
          let m = (case origin_status of
                     MemBufUsed \<Rightarrow> m\<lparr>o_mps := (o_mps m)\<lparr>total_used_mem := total_used_mem (o_mps m) - buf_size buf\<rparr>\<rparr>
                   | MemBufIdle \<Rightarrow> m\<lparr>o_mps := (o_mps m)\<lparr>total_idle_mem := total_idle_mem (o_mps m) - buf_size buf\<rparr>\<rparr>
                   | MemBufEagerFree \<Rightarrow> m);
          (buf, behind, m) \<leftarrow>
            (case behind of
               nx # rest \<Rightarrow>
                 if buf_status nx = target_status
                 then do {
                   m \<leftarrow> opt_EraseMemBufByStatus (buf_size nx) (buf_addr nx) target_status (block_stream b) m;
                   m \<leftarrow> opt_delete target_status (buf_addr nx) m;
                   Some (buf\<lparr>buf_size := buf_size buf + buf_size nx\<rparr>, rest, m) }
                 else Some (buf, behind, m)
             | [] \<Rightarrow> Some (buf, behind, m));
          m \<leftarrow> CombineMemBufForward before buf behind b target_status m;
          Some (opt_set_mng pers m p) })"

definition opt_FreeTensorMem :: "device_ptr \<Rightarrow> DynamicMemPoolBestFitOpt \<Rightarrow> DynamicMemPoolBestFitOpt option" where
  "opt_FreeTensorMem a p = opt_CombineMemBuf a MemBufUsed MemBufIdle p"

section \<open>Eager free and new blocks\<close>

fun opt_eager_free_bufs :: "bf_device \<Rightarrow> SizeMapMemBuf \<Rightarrow> DynamicMemPoolBestFitOpt \<Rightarrow> (size_t \<times> DynamicMemPoolBestFitOpt) option" where
  "opt_eager_free_bufs dev [] p = Some (0, p)"
| "opt_eager_free_bufs dev ((sz, a) # mm) p = do {
     p \<leftarrow> opt_CombineMemBuf a MemBufIdle MemBufEagerFree p;
     (n, p) \<leftarrow> opt_eager_free_bufs dev mm p;
     Some (FreeDeviceMemByEagerFree dev a sz + n, p) }"

text \<open>\<open>clear\<close> removes the maps of all streams from the vector.\<close>

definition opt_eager_free_mng :: "bf_device \<Rightarrow> bool \<Rightarrow> DynamicMemPoolBestFitOpt \<Rightarrow> (size_t \<times> DynamicMemPoolBestFitOpt) option" where
  "opt_eager_free_mng dev pers p = do {
     (n, p) \<leftarrow> opt_eager_free_bufs dev (concat (o_idle (opt_mng pers p))) p;
     Some (n, opt_set_mng pers ((opt_mng pers p)\<lparr>o_idle := []\<rparr>) p) }"

definition opt_FreeIdleMemsByEagerFree :: "bf_device \<Rightarrow> DynamicMemPoolBestFitOpt \<Rightarrow> (size_t \<times> DynamicMemPoolBestFitOpt) option" where
  "opt_FreeIdleMemsByEagerFree dev p = do {
     (persistent_real_free_size, p) \<leftarrow> opt_eager_free_mng dev True p;
     (common_real_free_size, p) \<leftarrow> opt_eager_free_mng dev False p;
     Some (persistent_real_free_size + common_real_free_size, p) }"

definition opt_AddMemBlockAndMemBufByEagerFree ::
    "bf_device \<Rightarrow> AllocatorDebugInfo \<Rightarrow> size_t \<Rightarrow> bool \<Rightarrow> uint32 \<Rightarrow> DynamicMemPoolBestFitOpt \<Rightarrow>
      (device_ptr \<times> DynamicMemPoolBestFitOpt) option" where
  "opt_AddMemBlockAndMemBufByEagerFree dev dbg sz from_persistent_mem stream_id p =
     (if total_mem_size dev < opt_TotalUsedMemStatistics p + sz then Some (0, p)
      else do {
        (_, p) \<leftarrow> opt_FreeIdleMemsByEagerFree dev p;
        (a, p) \<leftarrow> opt_FindMemBufByStatus dbg sz from_persistent_mem MemBufEagerFree stream_id p;
        if a \<noteq> 0 then Some (a, p)
        else
          let alloc_size = total_mem_size dev;
              (real_alloc_size, device_addr) = AllocDeviceMemByEagerFree dev alloc_size
          in if real_alloc_size < alloc_size then Some (0, p)
             else opt_CreateMemBlockAndMemBuf dbg sz from_persistent_mem device_addr real_alloc_size MemBufEagerFree stream_id p })"

definition opt_AddMemBlockAndMemBuf ::
    "bf_device \<Rightarrow> AllocatorDebugInfo \<Rightarrow> size_t \<Rightarrow> bool \<Rightarrow> bool \<Rightarrow> uint32 \<Rightarrow> DynamicMemPoolBestFitOpt \<Rightarrow>
      (device_ptr \<times> DynamicMemPoolBestFitOpt) option" where
  "opt_AddMemBlockAndMemBuf dev dbg sz from_persistent_mem need_recycle stream_id p =
     (let from_persistent_mem =
            (if from_persistent_mem \<and> \<not> need_recycle \<and> o_block_list (o_persistent p) \<noteq> [] then False else from_persistent_mem)
      in if o_trigger_eager_free p
         then opt_AddMemBlockAndMemBufByEagerFree dev dbg sz from_persistent_mem stream_id p
         else do {
           alloc_mem_size \<leftarrow> opt_CalMemBlockAllocSize dev sz from_persistent_mem p;
           if alloc_mem_size = 0 then do {
             (a, p) \<leftarrow> opt_FindAvailableMemBuf dev dbg sz (\<not> from_persistent_mem) stream_id p;
             if a \<noteq> 0 then Some (a, p)
             else if IsEnableEagerFree dev
             then opt_AddMemBlockAndMemBufByEagerFree dev dbg sz from_persistent_mem stream_id (p\<lparr>o_trigger_eager_free := True\<rparr>)
             else Some (0, p) }
           else
             let (real_alloc_size, device_addr) = AllocDeviceMem dev alloc_mem_size in
             if real_alloc_size < sz then Some (0, p)
             else
               let p = p\<lparr>o_common := (o_common p)\<lparr>o_unit_size := o_config_unit_size p\<rparr>\<rparr> in
               opt_CreateMemBlockAndMemBuf dbg sz from_persistent_mem device_addr real_alloc_size MemBufIdle stream_id p })"

definition opt_AllocTensorMem ::
    "bf_device \<Rightarrow> AllocatorDebugInfo \<Rightarrow> size_t \<Rightarrow> bool \<Rightarrow> bool \<Rightarrow> uint32 \<Rightarrow> DynamicMemPoolBestFitOpt \<Rightarrow>
      (device_ptr \<times> DynamicMemPoolBestFitOpt) option" where
  "opt_AllocTensorMem dev dbg sz from_persistent_mem need_recycle stream_id p = do {
     let align_size = opt_AlignMemorySize sz;
     (a, p) \<leftarrow> opt_FindAvailableMemBuf dev dbg align_size from_persistent_mem stream_id p;
     let (a, p) = (if need_recycle \<and> \<not> o_init_recycle p then (0, p\<lparr>o_init_recycle := True\<rparr>) else (a, p));
     if a = 0 then opt_AddMemBlockAndMemBuf dev dbg align_size from_persistent_mem need_recycle stream_id p
     else Some (a, p) }"

section \<open>Continuous allocation, partial release, destruction\<close>

definition opt_AllocContinuousTensorMem ::
    "bf_device \<Rightarrow> AllocatorDebugInfo \<Rightarrow> size_t list \<Rightarrow> uint32 \<Rightarrow> DynamicMemPoolBestFitOpt \<Rightarrow>
      (device_ptr list \<times> DynamicMemPoolBestFitOpt) option" where
  "opt_AllocContinuousTensorMem dev dbg sizes stream_id p = do {
     let total_size = accumulate_int sizes;
     (a, p) \<leftarrow> opt_AllocTensorMem dev dbg total_size False False stream_id p;
     if a = 0 then Some ([], p)
     else do {
       (pers, b) \<leftarrow> (case opt_FindMemBlock a (o_common p) of
                      Some b \<Rightarrow> Some (False, b)
                    | None \<Rightarrow> map_option (Pair True) (opt_FindMemBlock a (o_persistent p)));
       buf \<leftarrow> buf_find a (block_bufs b);
       let rest_size = buf_size buf - total_size;
       _ \<leftarrow> opt_delete MemBufIdle a (opt_mng pers p);
       let bs = continuous_bufs dbg a sizes;
       let bufs = foldl (\<lambda>l c. buf_emplace c l) (buf_erase a (block_bufs b)) bs;
       if bs = [] then None
       else do {
         let bufs = buf_modify (buf_addr (last bs)) (\<lambda>c. c\<lparr>buf_size := buf_size c + rest_size\<rparr>) bufs;
         Some (map buf_addr bs, opt_set_mng pers (opt_put_block (b\<lparr>block_bufs := bufs\<rparr>) (opt_mng pers p)) p) } } }"

definition opt_FindMemBufByKeepAddr :: "device_ptr \<Rightarrow> DynamicMemBlock \<Rightarrow> DynamicMemBuf option" where
  "opt_FindMemBufByKeepAddr a b = last_opt (takeWhile (\<lambda>c. buf_addr c \<le> a) (block_bufs b)) None"

definition opt_FindByKeepAddr :: "device_ptr \<Rightarrow> DynamicMemPoolBestFitOpt \<Rightarrow> (bool \<times> DynamicMemBlock \<times> DynamicMemBuf) option" where
  "opt_FindByKeepAddr a p =
     (let find_in = (\<lambda>pers. do {
            b \<leftarrow> opt_FindMemBlock a (opt_mng pers p);
            buf \<leftarrow> opt_FindMemBufByKeepAddr a b;
            if buf_addr buf \<le> a \<and> a - buf_addr buf \<le> buf_size buf then Some (pers, b, buf) else None })
      in case find_in False of Some r \<Rightarrow> Some r | None \<Rightarrow> find_in True)"

definition opt_KeepTensorMemByAddr ::
    "AllocatorDebugInfo \<Rightarrow> device_ptr \<Rightarrow> size_t \<Rightarrow> DynamicMemPoolBestFitOpt \<Rightarrow> DynamicMemPoolBestFitOpt option" where
  "opt_KeepTensorMemByAddr dbg a sz p = do {
     (pers, b, buf) \<leftarrow> opt_FindByKeepAddr a p;
     let m = opt_mng pers p;
     let split_left_size = a - buf_addr buf;
     let split_right_size = buf_size buf - split_left_size - sz;
     m \<leftarrow> opt_EraseMemBufByStatus (buf_size buf) (buf_addr buf) (buf_status buf) (block_stream b) m;
     (bufs, m) \<leftarrow>
       (if split_left_size = 0
        then Some (buf_modify (buf_addr buf)
               (\<lambda>c. c\<lparr>buf_status := MemBufUsed, buf_size := sz, allocator_name := dbg_name dbg, alloc_kind := dbg_type dbg\<rparr>)
               (block_bufs b), m)
        else do {
          let bufs = buf_modify (buf_addr buf) (\<lambda>c. c\<lparr>buf_size := split_left_size\<rparr>) (block_bufs b);
          m \<leftarrow> opt_add_idle (buf\<lparr>buf_size := split_left_size\<rparr>) (block_stream b) m;
          Some (buf_emplace \<lparr>buf_addr = a, buf_status = MemBufUsed, buf_size = sz, allocator_name = dbg_name dbg,
                             alloc_kind = dbg_type dbg\<rparr> bufs, m) });
     (bufs, m) \<leftarrow>
       (if 0 < split_right_size
        then do {
          let right = \<lparr>buf_addr = a + sz, buf_status = MemBufIdle, buf_size = split_right_size,
                       allocator_name = [], alloc_kind = AtOther\<rparr>;
          m \<leftarrow> opt_add_idle right (block_stream b) m;
          Some (buf_emplace right bufs, m) }
        else Some (bufs, m));
     let m = opt_put_block (b\<lparr>block_bufs := bufs\<rparr>) m;
     let m = m\<lparr>o_mps := add_used sz (o_mps m)\<rparr>;
     let m = m\<lparr>o_mps := (o_mps m)\<lparr>total_idle_mem := total_idle_mem (o_mps m) - sz\<rparr>\<rparr>;
     Some (opt_set_mng pers m p) }"

fun opt_free_all :: "device_ptr list \<Rightarrow> DynamicMemPoolBestFitOpt \<Rightarrow> DynamicMemPoolBestFitOpt option" where
  "opt_free_all [] p = Some p"
| "opt_free_all (a # as) p = do { p \<leftarrow> opt_FreeTensorMem a p; opt_free_all as p }"

fun opt_keep_all :: "AllocatorDebugInfo \<Rightarrow> (device_ptr \<times> size_t) list \<Rightarrow> DynamicMemPoolBestFitOpt \<Rightarrow> DynamicMemPoolBestFitOpt option" where
  "opt_keep_all dbg [] p = Some p"
| "opt_keep_all dbg ((a, sz) # ks) p = do { p \<leftarrow> opt_KeepTensorMemByAddr dbg a sz p; opt_keep_all dbg ks p }"

definition opt_FreePartTensorMems ::
    "AllocatorDebugInfo \<Rightarrow> device_ptr list \<Rightarrow> device_ptr list \<Rightarrow> size_t list \<Rightarrow> DynamicMemPoolBestFitOpt \<Rightarrow>
      DynamicMemPoolBestFitOpt option" where
  "opt_FreePartTensorMems dbg free_addrs keep_addrs keep_addr_sizes p = do {
     p \<leftarrow> opt_free_all free_addrs p;
     if length keep_addr_sizes < length keep_addrs then None
     else opt_keep_all dbg (zip keep_addrs keep_addr_sizes) p }"

definition opt_destroy_pool :: "DynamicMemPoolBestFitOpt \<Rightarrow> DynamicMemPoolBestFitOpt" where
  "opt_destroy_pool p = p\<lparr>o_persistent := opt_Clear (o_persistent p), o_common := opt_Clear (o_common p)\<rparr>"

definition opt_ReleaseDeviceRes :: "DynamicMemPoolBestFitOpt \<Rightarrow> device_ptr list \<times> DynamicMemPoolBestFitOpt" where
  "opt_ReleaseDeviceRes p =
     (let freed = (\<lambda>m. filter (\<lambda>a. a \<noteq> 0) (map block_base (o_block_list m)))
      in (freed (o_common p) @ freed (o_persistent p),
          p\<lparr>o_persistent := opt_Clear (o_persistent p), o_common := opt_Clear (o_common p)\<rparr>))"

end
