(* ===== verification/Best_Fit_Inv.thy ===== *)
theory Best_Fit_Inv
  imports Best_Fit "HOL-Library.Multiset"
begin

text \<open>
  The invariant of the best-fit pool while eager free is off. The buffers of a block tile it, the
  blocks of a manager are ordered and disjoint, the idle multimap of a stream holds exactly the idle
  buffers of the blocks of that stream in order of size, and the bytes counted as used are those of
  the used buffers.
\<close>

section \<open>Tilings\<close>

fun buf_tiles :: "nat \<Rightarrow> DynamicMemBuf list \<Rightarrow> nat \<Rightarrow> bool" where
  "buf_tiles a [] e \<longleftrightarrow> a = e"
| "buf_tiles a (c # cs) e \<longleftrightarrow> unat (buf_addr c) = a \<and> 0 < unat (buf_size c) \<and> buf_tiles (a + unat (buf_size c)) cs e"

abbreviation buf_end :: "DynamicMemBuf \<Rightarrow> nat" where
  "buf_end c \<equiv> unat (buf_addr c) + unat (buf_size c)"

abbreviation block_end :: "DynamicMemBlock \<Rightarrow> nat" where
  "block_end b \<equiv> unat (block_base b) + unat (block_size b)"

definition block_ok :: "DynamicMemBlock \<Rightarrow> bool" where
  "block_ok b \<longleftrightarrow> buf_tiles (unat (block_base b)) (block_bufs b) (block_end b) \<and> 0 < unat (block_base b) \<and>
     0 < unat (block_size b) \<and> block_end b < 2 ^ 64 \<and> (\<forall>c \<in> set (block_bufs b). buf_status c \<noteq> MemBufEagerFree)"

definition blocks_ok :: "DynamicMemBlock list \<Rightarrow> bool" where
  "blocks_ok bs \<longleftrightarrow> (\<forall>b \<in> set bs. block_ok b) \<and> sorted_wrt (\<lambda>b c. block_end b \<le> unat (block_base c)) bs"

lemma buf_tiles_append: "buf_tiles a (xs @ ys) e \<longleftrightarrow> (\<exists>m. buf_tiles a xs m \<and> buf_tiles m ys e)"
  by (induction xs arbitrary: a) auto

lemma buf_tiles_le: "buf_tiles a xs e \<Longrightarrow> a \<le> e"
  by (induction xs arbitrary: a) (auto intro: order_trans [OF le_add1])

lemma buf_tiles_mem: "buf_tiles a xs e \<Longrightarrow> c \<in> set xs \<Longrightarrow> a \<le> unat (buf_addr c) \<and> buf_end c \<le> e \<and> 0 < unat (buf_size c)"
proof (induction xs arbitrary: a)
  case (Cons x xs)
  then show ?case using buf_tiles_le [of "a + unat (buf_size x)" xs e] by force
qed simp

lemma buf_tiles_unique: "buf_tiles a xs e \<Longrightarrow> buf_tiles a xs e' \<Longrightarrow> e = e'"
  by (induction xs arbitrary: a) auto

lemma buf_tiles_split:
  assumes "buf_tiles a (xs @ c # ys) e"
  shows "buf_tiles a xs (unat (buf_addr c))" "buf_tiles (buf_end c) ys e" "0 < unat (buf_size c)"
    "x \<in> set xs \<Longrightarrow> buf_end x \<le> unat (buf_addr c)" "y \<in> set ys \<Longrightarrow> buf_end c \<le> unat (buf_addr y)"
    "a \<le> unat (buf_addr c)" "buf_end c \<le> e"
  using assms by (auto simp: buf_tiles_append dest: buf_tiles_mem buf_tiles_le)

text \<open>The buffer at an address.\<close>

lemma bufs_at:
  assumes "buf_tiles a (xs @ c # ys) e"
  shows "buf_find (buf_addr c) (xs @ c # ys) = Some c" "buf_modify (buf_addr c) f (xs @ c # ys) = xs @ f c # ys"
    "takeWhile (\<lambda>x. buf_addr x \<noteq> buf_addr c) (xs @ c # ys) = xs"
    "dropWhile (\<lambda>x. buf_addr x \<noteq> buf_addr c) (xs @ c # ys) = c # ys"
proof -
  have pre: "buf_addr x \<noteq> buf_addr c" if "x \<in> set xs" for x
    using buf_tiles_split(4) [OF assms that] buf_tiles_mem [OF buf_tiles_split(1) [OF assms] that] by auto
  have post: "buf_addr y \<noteq> buf_addr c" if "y \<in> set ys" for y
    using buf_tiles_split(3,5) [OF assms] that by fastforce
  show "buf_find (buf_addr c) (xs @ c # ys) = Some c"
    unfolding buf_find_def using pre by (induction xs) auto
  show "buf_modify (buf_addr c) f (xs @ c # ys) = xs @ f c # ys"
    using pre post by (auto simp: buf_modify_def intro: map_idI)
  show "takeWhile (\<lambda>x. buf_addr x \<noteq> buf_addr c) (xs @ c # ys) = xs"
    "dropWhile (\<lambda>x. buf_addr x \<noteq> buf_addr c) (xs @ c # ys) = c # ys"
    using pre by (simp_all add: takeWhile_append2 dropWhile_append2)
qed

lemma buf_emplace_at:
  assumes "\<And>x. x \<in> set xs \<Longrightarrow> buf_addr x < buf_addr n" "\<And>y. y \<in> set ys \<Longrightarrow> buf_addr n < buf_addr y"
  shows "buf_emplace n (xs @ ys) = xs @ n # ys"
  using assms
proof (induction xs)
  case Nil
  then show ?case by (cases ys) auto
next
  case (Cons x xs)
  then have "buf_addr x < buf_addr n" by simp
  then have "\<not> buf_addr n < buf_addr x" "buf_addr n \<noteq> buf_addr x" by auto
  with Cons show ?case by simp
qed

section \<open>Blocks\<close>

lemma blocks_append:
  "blocks_ok (xs @ ys) \<longleftrightarrow> blocks_ok xs \<and> blocks_ok ys \<and> (\<forall>x \<in> set xs. \<forall>y \<in> set ys. block_end x \<le> unat (block_base y))"
  by (auto simp: blocks_ok_def sorted_wrt_append)

lemma blocks_replace:
  assumes "blocks_ok (pre @ b # post)" "block_ok b'" "block_base b' = block_base b" "block_size b' = block_size b"
  shows "blocks_ok (pre @ b' # post)"
  using assms by (auto simp: blocks_ok_def sorted_wrt_append)

lemma block_size_pos: "blocks_ok bs \<Longrightarrow> b \<in> set bs \<Longrightarrow> unat (block_base b) < block_end b"
  by (auto simp: blocks_ok_def block_ok_def)

lemma FindMemBlock_at:
  assumes "blocks_ok (mem_block_list m)" "mem_block_list m = pre @ b # post"
    "unat (block_base b) \<le> unat a" "unat a < block_end b"
  shows "FindMemBlock a m = Some b"
proof -
  have pre: "\<not> CmpMemBlock a x" if "x \<in> set pre" for x
    using assms that by (force simp: blocks_ok_def sorted_wrt_append word_less_nat_alt CmpMemBlock_def)
  have post: "takeWhile (\<lambda>b. \<not> CmpMemBlock a b) post = []"
    using assms by (cases post) (auto simp: blocks_ok_def sorted_wrt_append word_less_nat_alt CmpMemBlock_def)
  have "takeWhile (\<lambda>b. \<not> CmpMemBlock a b) (pre @ b # post) = pre @ [b]"
    using pre post assms(3) by (simp add: takeWhile_append2 word_less_nat_alt CmpMemBlock_def)
  then show ?thesis by (simp add: FindMemBlock_def assms(2))
qed

lemma blocks_distinct:
  assumes "blocks_ok (pre @ b # post)"
  shows "x \<in> set pre \<Longrightarrow> block_base x \<noteq> block_base b" "x \<in> set post \<Longrightarrow> block_base x \<noteq> block_base b"
  using assms block_size_pos [OF assms] by (force simp: blocks_ok_def sorted_wrt_append)+

lemma put_block_at:
  assumes "blocks_ok (mem_block_list m)" "mem_block_list m = pre @ b # post" "block_base b' = block_base b"
  shows "put_block b' m = m\<lparr>mem_block_list := pre @ b' # post\<rparr>"
proof -
  note d = blocks_distinct [OF assms(1) [unfolded assms(2)]]
  have "map (\<lambda>c. if block_base c = block_base b then b' else c) pre = pre"
    "map (\<lambda>c. if block_base c = block_base b then b' else c) post = post"
    using d by (auto intro: map_idI)
  then show ?thesis by (simp add: put_block_def assms(2,3))
qed

text \<open>A buffer \<open>c\<close> of the block \<open>b\<close> in a list of blocks.\<close>

definition at_buf ::
    "DynamicMemBlock list \<Rightarrow> DynamicMemBlock list \<Rightarrow> DynamicMemBlock \<Rightarrow> DynamicMemBlock list \<Rightarrow>
      DynamicMemBuf list \<Rightarrow> DynamicMemBuf \<Rightarrow> DynamicMemBuf list \<Rightarrow> bool" where
  "at_buf bl pre b post xs c ys \<longleftrightarrow> blocks_ok bl \<and> bl = pre @ b # post \<and> block_bufs b = xs @ c # ys"

lemma at_bufD:
  assumes "at_buf bl pre b post xs c ys"
  shows "blocks_ok bl" "bl = pre @ b # post" "block_bufs b = xs @ c # ys" "block_ok b"
    "buf_tiles (unat (block_base b)) (xs @ c # ys) (block_end b)"
    "unat (block_base b) \<le> unat (buf_addr c)" "buf_end c \<le> block_end b" "block_end b < 2 ^ 64" "0 < unat (buf_size c)"
    "0 < unat (buf_addr c)"
proof -
  show 1: "blocks_ok bl" "bl = pre @ b # post" "block_bufs b = xs @ c # ys"
    using assms unfolding at_buf_def by blast+
  then show 2: "block_ok b" by (auto simp: blocks_ok_def)
  then show t: "buf_tiles (unat (block_base b)) (xs @ c # ys) (block_end b)" using 1 by (simp add: block_ok_def)
  show 3: "unat (block_base b) \<le> unat (buf_addr c)" "buf_end c \<le> block_end b" "0 < unat (buf_size c)"
    using buf_tiles_split [OF t] by blast+
  show "block_end b < 2 ^ 64" using 2 by (simp add: block_ok_def)
  have "0 < unat (block_base b)" using 2 by (simp add: block_ok_def)
  then show "0 < unat (buf_addr c)" using 3(1) by linarith
qed

lemma FindMemBlock_buf:
  assumes "at_buf (mem_block_list m) pre b post xs c ys"
  shows "FindMemBlock (buf_addr c) m = Some b"
  using at_bufD(6,7,9) [OF assms] by (intro FindMemBlock_at [OF at_bufD(1,2) [OF assms]]) auto

lemma get_buf_at: "at_buf (mem_block_list m) pre b post xs c ys \<Longrightarrow> get_buf (buf_addr c) m = Some c"
  by (simp add: get_buf_def FindMemBlock_buf at_bufD(3) bufs_at(1) [OF at_bufD(5)])

lemma upd_buf_at:
  assumes "at_buf (mem_block_list m) pre b post xs c ys"
  shows "upd_buf (buf_addr c) f m = Some (m\<lparr>mem_block_list := pre @ b\<lparr>block_bufs := xs @ f c # ys\<rparr> # post\<rparr>)"
  using put_block_at [OF at_bufD(1,2) [OF assms], of "b\<lparr>block_bufs := xs @ f c # ys\<rparr>"]
  by (simp add: upd_buf_def FindMemBlock_buf [OF assms] at_bufD(3) [OF assms] bufs_at [OF at_bufD(5) [OF assms]])

text \<open>Other buffers in place of a part of a block.\<close>

lemma buf_tiles_replace:
  assumes "buf_tiles a (xs @ old @ ys) e" "buf_tiles s old t" "buf_tiles s new t" "old \<noteq> []"
  shows "buf_tiles a (xs @ new @ ys) e"
proof -
  obtain u v where "buf_tiles a xs u" "buf_tiles u old v" "buf_tiles v ys e" using assms(1) by (auto simp: buf_tiles_append)
  moreover have "u = s \<and> v = t"
    using assms(2,4) \<open>buf_tiles u old v\<close> by (cases old) (auto dest: buf_tiles_unique)
  ultimately show ?thesis using assms(3) by (auto simp: buf_tiles_append)
qed

lemma block_replace:
  assumes "block_ok b" "block_bufs b = xs @ old @ ys" "buf_tiles s old t" "buf_tiles s new t" "old \<noteq> []"
    "\<forall>c \<in> set new. buf_status c \<noteq> MemBufEagerFree"
  shows "block_ok (b\<lparr>block_bufs := xs @ new @ ys\<rparr>)"
  using assms buf_tiles_replace [of "unat (block_base b)" xs old ys "block_end b" s t new] by (auto simp: block_ok_def)

lemma blocks_replace_bufs:
  assumes "blocks_ok (pre @ b # post)" "block_bufs b = xs @ old @ ys" "buf_tiles s old t" "buf_tiles s new t" "old \<noteq> []"
    "\<forall>c \<in> set new. buf_status c \<noteq> MemBufEagerFree"
  shows "blocks_ok (pre @ b\<lparr>block_bufs := xs @ new @ ys\<rparr> # post)"
  using assms by (intro blocks_replace [OF assms(1)] block_replace [OF _ assms(2-6)]) (auto simp: blocks_ok_def)

section \<open>Idle and used buffers\<close>

abbreviation idle_entry :: "DynamicMemBuf \<Rightarrow> size_t \<times> device_ptr" where
  "idle_entry c \<equiv> (buf_size c, buf_addr c)"

abbreviation used_entry :: "DynamicMemBuf \<Rightarrow> device_ptr \<times> size_t" where
  "used_entry c \<equiv> (buf_addr c, buf_size c)"

definition idles :: "DynamicMemBuf list \<Rightarrow> (size_t \<times> device_ptr) multiset" where
  "idles cs = mset (map idle_entry (filter (\<lambda>c. buf_status c = MemBufIdle) cs))"

definition useds :: "DynamicMemBuf list \<Rightarrow> (device_ptr \<times> size_t) multiset" where
  "useds cs = mset (map used_entry (filter (\<lambda>c. buf_status c = MemBufUsed) cs))"

definition idle_bufs :: "uint32 \<Rightarrow> DynamicMemBlock list \<Rightarrow> (size_t \<times> device_ptr) multiset" where
  "idle_bufs s bl = idles (concat (map block_bufs (filter (\<lambda>b. block_stream b = s) bl)))"

definition used_bufs :: "DynamicMemBlock list \<Rightarrow> (device_ptr \<times> size_t) multiset" where
  "used_bufs bl = useds (concat (map block_bufs bl))"

definition idle_of :: "(uint32 \<times> SizeMapMemBuf) list \<Rightarrow> uint32 \<Rightarrow> SizeMapMemBuf" where
  "idle_of c s = (case map_of c s of None \<Rightarrow> [] | Some mm \<Rightarrow> mm)"

definition mng_ok :: "MemStatusManager \<Rightarrow> bool" where
  "mng_ok m \<longleftrightarrow> blocks_ok (mem_block_list m) \<and>
     (\<forall>s. mset (idle_of (idle_mem_bufs m) s) = idle_bufs s (mem_block_list m) \<and> sorted (map fst (idle_of (idle_mem_bufs m) s))) \<and>
     total_used_mem (mps m) = (\<Sum>u \<in># used_bufs (mem_block_list m). snd u)"

lemma idles_simps [simp]:
  "idles [] = {#}" "idles (xs @ ys) = idles xs + idles ys"
  "idles (c # cs) = (if buf_status c = MemBufIdle then {#idle_entry c#} else {#}) + idles cs"
  by (simp_all add: idles_def)

lemma useds_simps [simp]:
  "useds [] = {#}" "useds (xs @ ys) = useds xs + useds ys"
  "useds (c # cs) = (if buf_status c = MemBufUsed then {#used_entry c#} else {#}) + useds cs"
  by (simp_all add: useds_def)

lemma idle_bufs_simps [simp]:
  "idle_bufs s [] = {#}" "idle_bufs s (xs @ ys) = idle_bufs s xs + idle_bufs s ys"
  "idle_bufs s (b # bl) = (if block_stream b = s then idles (block_bufs b) else {#}) + idle_bufs s bl"
  by (simp_all add: idle_bufs_def)

lemma used_bufs_simps [simp]:
  "used_bufs [] = {#}" "used_bufs (xs @ ys) = used_bufs xs + used_bufs ys"
  "used_bufs (b # bl) = useds (block_bufs b) + used_bufs bl"
  by (simp_all add: used_bufs_def)

lemma map_of_smap_set [simp]: "map_of (smap_set k v m) = (map_of m)(k \<mapsto> v)"
  by (induction k v m rule: smap_set.induct) (auto simp: fun_eq_iff)

lemma idle_of_smap_set [simp]: "idle_of (smap_set k v m) s = (if s = k then v else idle_of m s)"
  by (simp add: idle_of_def)

lemma idle_of_AddMemBuf [simp]:
  "idle_of (AddMemBuf c k m) s = (if s = k then mm_emplace (buf_size c) (buf_addr c) (idle_of m k) else idle_of m s)"
  by (simp add: AddMemBuf_def idle_of_def split: option.split)

lemma mset_mm_emplace [simp]: "mset (mm_emplace s a mm) = add_mset (s, a) (mset mm)"
  by (induction s a mm rule: mm_emplace.induct) auto

lemma sorted_mm_emplace: "sorted (map fst mm) \<Longrightarrow> sorted (map fst (mm_emplace s a mm))"
proof (induction s a mm rule: mm_emplace.induct)
  case (2 s a s' a' mm)
  have "set (mm_emplace s a mm) = insert (s, a) (set mm)"
    by (metis mset_mm_emplace set_mset_add_mset_insert set_mset_mset)
  with 2 show ?case by auto
qed simp

text \<open>An idle entry of a stream belongs to an idle buffer.\<close>

lemma idle_entry_buf:
  assumes "mng_ok m" "(n, a) \<in> set (idle_of (idle_mem_bufs m) s)"
  obtains pre b post xs c ys where "at_buf (mem_block_list m) pre b post xs c ys" "block_stream b = s"
    "buf_status c = MemBufIdle" "buf_size c = n" "buf_addr c = a"
proof -
  have "(n, a) \<in># idle_bufs s (mem_block_list m)"
    using assms by (metis mng_ok_def set_mset_mset)
  then obtain b c where b: "b \<in> set (mem_block_list m)" "block_stream b = s" and c: "c \<in> set (block_bufs b)"
    "buf_status c = MemBufIdle" "buf_size c = n" "buf_addr c = a"
    by (auto simp: idle_bufs_def idles_def)
  obtain pre post where "mem_block_list m = pre @ b # post" using b(1) by (meson split_list)
  moreover obtain xs ys where "block_bufs b = xs @ c # ys" using c(1) by (meson split_list)
  moreover have "blocks_ok (mem_block_list m)" using assms(1) by (simp add: mng_ok_def)
  ultimately show thesis using that b(2) c(2-4) unfolding at_buf_def by blast
qed

text \<open>
  The invariant after the buffers \<open>old\<close> of a block have been replaced by \<open>new\<close>: the idle map of the stream
  follows, and so does the used size.
\<close>

lemma mng_ok_replace:
  assumes ok: "mng_ok m" and bl: "mem_block_list m = pre @ b # post" "block_bufs b = xs @ old @ ys"
    and t: "buf_tiles s old t" "buf_tiles s new t" "old \<noteq> []" "\<forall>c \<in> set new. buf_status c \<noteq> MemBufEagerFree"
    and bl': "mem_block_list m' = pre @ b\<lparr>block_bufs := xs @ new @ ys\<rparr> # post"
    and other: "\<And>k. k \<noteq> block_stream b \<Longrightarrow> idle_of (idle_mem_bufs m') k = idle_of (idle_mem_bufs m) k"
    and idle: "mset (idle_of (idle_mem_bufs m') (block_stream b)) + idles old =
      mset (idle_of (idle_mem_bufs m) (block_stream b)) + idles new"
    and srt: "sorted (map fst (idle_of (idle_mem_bufs m') (block_stream b)))"
    and used: "total_used_mem (mps m') + (\<Sum>u \<in># useds old. snd u) = total_used_mem (mps m) + (\<Sum>u \<in># useds new. snd u)"
  shows "mng_ok m'" "used_bufs (mem_block_list m') + useds old = used_bufs (mem_block_list m) + useds new"
proof -
  have u: "used_bufs (mem_block_list m') + useds old = used_bufs (mem_block_list m) + useds new"
    by (simp add: bl bl')
  then show "used_bufs (mem_block_list m') + useds old = used_bufs (mem_block_list m) + useds new" .
  have blk: "blocks_ok (mem_block_list m')"
    unfolding bl' by (rule blocks_replace_bufs [OF _ bl(2) t]) (use ok bl(1) in \<open>simp add: mng_ok_def\<close>)
  have idle_m: "mset (idle_of (idle_mem_bufs m) k) = idle_bufs k (mem_block_list m)" for k
    using ok by (simp add: mng_ok_def)
  have i: "mset (idle_of (idle_mem_bufs m') k) = idle_bufs k (mem_block_list m') \<and> sorted (map fst (idle_of (idle_mem_bufs m') k))" for k
  proof (cases "k = block_stream b")
    case True
    have "mset (idle_of (idle_mem_bufs m') k) + idles old = idle_bufs k (mem_block_list m') + idles old"
      using idle idle_m [of k] by (simp add: bl bl' True)
    then show ?thesis using srt True by simp
  next
    case False
    then show ?thesis using ok by (simp add: other mng_ok_def bl bl')
  qed
  have "(\<Sum>x \<in># used_bufs (mem_block_list m'). snd x) + (\<Sum>x \<in># useds old. snd x) =
      (\<Sum>x \<in># used_bufs (mem_block_list m). snd x) + (\<Sum>x \<in># useds new. snd x)"
    using arg_cong [OF u, of "\<lambda>M. \<Sum>x \<in># M. snd x"] by simp
  moreover have "total_used_mem (mps m) = (\<Sum>x \<in># used_bufs (mem_block_list m). snd x)"
    using ok by (simp add: mng_ok_def)
  ultimately have "total_used_mem (mps m') = (\<Sum>x \<in># used_bufs (mem_block_list m'). snd x)"
    using used by (metis add_right_cancel)
  with blk i show "mng_ok m'" by (simp add: mng_ok_def)
qed

text \<open>A buffer is divided in two.\<close>

lemma unat_split:
  assumes "at_buf bl pre b post xs c ys" "sz < buf_size c" "0 < sz"
  shows "unat (buf_addr c + sz) = unat (buf_addr c) + unat sz" "unat (buf_size c - sz) = unat (buf_size c) - unat sz"
    "0 < unat (buf_size c - sz)"
proof -
  have "unat sz < unat (buf_size c)" using assms(2) by (simp add: word_less_nat_alt)
  moreover have "unat (buf_addr c) + unat (buf_size c) < 2 ^ 64" using at_bufD(7,8) [OF assms(1)] by linarith
  ultimately show "unat (buf_addr c + sz) = unat (buf_addr c) + unat sz" by (intro unat_add_lem [THEN iffD1]) simp
  show *: "unat (buf_size c - sz) = unat (buf_size c) - unat sz" using assms(2) by (simp add: unat_sub)
  show "0 < unat (buf_size c - sz)" unfolding * using \<open>unat sz < unat (buf_size c)\<close> by simp
qed

definition rest_buf :: "size_t \<Rightarrow> DynamicMemBuf \<Rightarrow> DynamicMemBuf" where
  "rest_buf sz c = \<lparr>buf_addr = buf_addr c + sz, buf_status = MemBufIdle, buf_size = buf_size c - sz,
     allocator_name = [], alloc_kind = AtOther\<rparr>"

lemma split_bufs:
  assumes at: "at_buf bl pre b post xs c ys" and c: "sz < buf_size c" "0 < sz"
  shows "buf_emplace (rest_buf sz c) (xs @ c\<lparr>buf_size := sz\<rparr> # ys) = xs @ c\<lparr>buf_size := sz\<rparr> # rest_buf sz c # ys"
proof -
  note d = at_bufD [OF at] and u = unat_split [OF at c]
  have sz: "unat sz < unat (buf_size c)" "0 < unat sz" using c by (simp_all add: word_less_nat_alt)
  show ?thesis
    using buf_emplace_at [of "xs @ [c\<lparr>buf_size := sz\<rparr>]" "rest_buf sz c" ys]
      buf_tiles_split(4,5) [OF d(5)] u sz buf_tiles_mem [OF buf_tiles_split(1) [OF d(5)]]
    by (force simp: rest_buf_def word_less_nat_alt)
qed

lemma SplitMemBuf_at:
  assumes at: "at_buf (mem_block_list m) pre b post xs c ys" and c: "buf_status c = MemBufIdle" "sz < buf_size c" "0 < sz"
  shows "SplitMemBuf sz (buf_addr c) m =
    Some (m\<lparr>mem_block_list := pre @ b\<lparr>block_bufs := xs @ c\<lparr>buf_size := sz\<rparr> # rest_buf sz c # ys\<rparr> # post,
            idle_mem_bufs := AddMemBuf (rest_buf sz c) (block_stream b) (idle_mem_bufs m)\<rparr>)"
  using put_block_at [OF at_bufD(1,2) [OF at], of "b\<lparr>block_bufs := xs @ c\<lparr>buf_size := sz\<rparr> # rest_buf sz c # ys\<rparr>"] split_bufs [OF at c(2,3)]
  by (simp add: SplitMemBuf_def FindMemBlock_buf [OF at] at_bufD(3) [OF at] bufs_at [OF at_bufD(5) [OF at]] c(1) rest_buf_def
      AddIdleMemBuf_def Let_def)

lemma at_buf_replace:
  assumes at: "at_buf bl pre b post xs c ys" and t: "buf_tiles (unat (buf_addr c)) (c' # new) (buf_end c)"
    and st: "\<forall>x \<in> set (c' # new). buf_status x \<noteq> MemBufEagerFree"
  shows "at_buf (pre @ b\<lparr>block_bufs := xs @ c' # new @ ys\<rparr> # post) pre (b\<lparr>block_bufs := xs @ c' # new @ ys\<rparr>) post xs c' (new @ ys)"
proof -
  note d = at_bufD [OF at]
  have "blocks_ok (pre @ b\<lparr>block_bufs := xs @ (c' # new) @ ys\<rparr> # post)"
    by (rule blocks_replace_bufs [of pre b post xs "[c]" ys "unat (buf_addr c)" "buf_end c"]) (use d t st in simp_all)
  then show ?thesis by (simp add: at_buf_def)
qed

section \<open>Taking an idle buffer\<close>

definition block_ranges :: "MemStatusManager \<Rightarrow> (device_ptr \<times> size_t) list" where
  "block_ranges m = map (\<lambda>b. (block_base b, block_size b)) (mem_block_list m)"

text \<open>
  An idle buffer of the stream is taken for \<open>sz\<close> bytes: the smallest one that is large enough, and of those of
  equal size the one that came first; \<open>a = 0\<close> when there is none. \<open>split\<close> says which sizes are divided.
\<close>

definition taken :: "(size_t \<Rightarrow> bool) \<Rightarrow> size_t \<Rightarrow> uint32 \<Rightarrow> MemStatusManager \<Rightarrow> device_ptr \<Rightarrow> MemStatusManager \<Rightarrow> bool" where
  "taken split sz s m a m' \<longleftrightarrow> mng_ok m' \<and> block_ranges m' = block_ranges m \<and> mng_unit_size m' = mng_unit_size m \<and>
     (if a = 0
      then used_bufs (mem_block_list m') = used_bufs (mem_block_list m) \<and> (\<forall>(n, _) \<in># idle_bufs s (mem_block_list m). n < sz)
      else \<exists>n. (n, a) \<in># idle_bufs s (mem_block_list m) \<and> sz \<le> n \<and>
        (\<forall>(k, _) \<in># idle_bufs s (mem_block_list m). sz \<le> k \<longrightarrow> n \<le> k) \<and>
        used_bufs (mem_block_list m') = add_mset (a, if split n then sz else n) (used_bufs (mem_block_list m)))"

lemma GetOrCreate_idle:
  "GetOrCreateSizeMapMemBuf s c = (mm, c') \<Longrightarrow> mm = idle_of c s \<and> (\<forall>k. idle_of c' k = idle_of c k)"
  by (auto simp: GetOrCreateSizeMapMemBuf_def idle_of_def split: option.splits if_splits)

lemma find_first_fit:
  assumes "sorted (map fst mm)" "List.find (\<lambda>e. sz \<le> fst e) mm = Some (n, a)"
  shows "(n, a) \<in> set mm" "sz \<le> (n :: size_t)" "\<forall>(k, _) \<in> set mm. sz \<le> k \<longrightarrow> n \<le> k"
  using assms by (induction mm) (auto split: if_splits)

lemma IsSplit_less:
  assumes "sz \<le> n" "IsSplit sz n"
  shows "sz < n"
  using assms by (auto simp: IsSplit_def kDynamicMemAlignSize_def order_less_le)

lemma divide_buf_run:
  assumes at: "at_buf (mem_block_list m) pre b post xs c ys" and c: "buf_status c = MemBufIdle" "sz \<le> buf_size c" "0 < sz"
  shows "do {
      m \<leftarrow> (if IsSplit sz (buf_size c) then SplitMemBuf sz (buf_addr c) m else Some m);
      m \<leftarrow> upd_buf (buf_addr c) (buf_status_update (\<lambda>_. MemBufUsed)) m;
      buf \<leftarrow> get_buf (buf_addr c) m;
      Some (buf, m) } =
    Some ((if IsSplit sz (buf_size c) then c\<lparr>buf_size := sz\<rparr> else c)\<lparr>buf_status := MemBufUsed\<rparr>,
      if IsSplit sz (buf_size c)
      then m\<lparr>mem_block_list := pre @ b\<lparr>block_bufs := xs @ c\<lparr>buf_size := sz, buf_status := MemBufUsed\<rparr> # rest_buf sz c # ys\<rparr> # post,
             idle_mem_bufs := AddMemBuf (rest_buf sz c) (block_stream b) (idle_mem_bufs m)\<rparr>
      else m\<lparr>mem_block_list := pre @ b\<lparr>block_bufs := xs @ c\<lparr>buf_status := MemBufUsed\<rparr> # ys\<rparr> # post\<rparr>)"
proof (cases "IsSplit sz (buf_size c)")
  case True
  then have lt: "sz < buf_size c" using IsSplit_less c(2) by blast
  define m1 where "m1 = m\<lparr>mem_block_list := pre @ b\<lparr>block_bufs := xs @ c\<lparr>buf_size := sz\<rparr> # rest_buf sz c # ys\<rparr> # post,
      idle_mem_bufs := AddMemBuf (rest_buf sz c) (block_stream b) (idle_mem_bufs m)\<rparr>"
  have "SplitMemBuf sz (buf_addr c) m = Some m1"
    unfolding m1_def by (rule SplitMemBuf_at [OF at c(1) lt c(3)])
  moreover have t: "buf_tiles (unat (buf_addr c)) (x # [rest_buf sz c]) (buf_end c)"
    if "buf_addr x = buf_addr c" "buf_size x = sz" for x
    using unat_split [OF at lt c(3)] lt c(3) that by (simp add: rest_buf_def word_less_nat_alt)
  have at1: "at_buf (mem_block_list m1) pre (b\<lparr>block_bufs := xs @ c\<lparr>buf_size := sz\<rparr> # rest_buf sz c # ys\<rparr>) post xs (c\<lparr>buf_size := sz\<rparr>) (rest_buf sz c # ys)"
    using at_buf_replace [OF at t [of "c\<lparr>buf_size := sz\<rparr>"]] c(1) by (simp add: m1_def rest_buf_def)
  have at2: "at_buf (mem_block_list (m1\<lparr>mem_block_list := pre @ b\<lparr>block_bufs := xs @ c\<lparr>buf_size := sz, buf_status := MemBufUsed\<rparr> # rest_buf sz c # ys\<rparr> # post\<rparr>))
      pre (b\<lparr>block_bufs := xs @ c\<lparr>buf_size := sz, buf_status := MemBufUsed\<rparr> # rest_buf sz c # ys\<rparr>) post xs
      (c\<lparr>buf_size := sz, buf_status := MemBufUsed\<rparr>) (rest_buf sz c # ys)"
    using at_buf_replace [OF at t [of "c\<lparr>buf_size := sz, buf_status := MemBufUsed\<rparr>"]] c(1) by (simp add: rest_buf_def)
  show ?thesis
    using True calculation upd_buf_at [OF at1, of "buf_status_update (\<lambda>_. MemBufUsed)"] get_buf_at [OF at2]
    by (simp add: m1_def)
next
  case False
  have "at_buf (mem_block_list (m\<lparr>mem_block_list := pre @ b\<lparr>block_bufs := xs @ c\<lparr>buf_status := MemBufUsed\<rparr> # ys\<rparr> # post\<rparr>))
      pre (b\<lparr>block_bufs := xs @ c\<lparr>buf_status := MemBufUsed\<rparr> # ys\<rparr>) post xs (c\<lparr>buf_status := MemBufUsed\<rparr>) ys"
    using at_buf_replace [OF at, of "c\<lparr>buf_status := MemBufUsed\<rparr>" "[]"] at_bufD(9) [OF at] by simp
  from get_buf_at [OF this] show ?thesis
    using False upd_buf_at [OF at, of "buf_status_update (\<lambda>_. MemBufUsed)"] by simp
qed

text \<open>The buffers in place of the one taken, and the idle map of its stream afterwards.\<close>

definition parts :: "bool \<Rightarrow> size_t \<Rightarrow> DynamicMemBuf \<Rightarrow> DynamicMemBuf list" where
  "parts sp sz c = (if sp then [c\<lparr>buf_size := sz, buf_status := MemBufUsed\<rparr>, rest_buf sz c] else [c\<lparr>buf_status := MemBufUsed\<rparr>])"

lemma parts_tiles:
  assumes "at_buf bl pre b post xs c ys" "sp \<longrightarrow> sz < buf_size c" "0 < sz"
  shows "buf_tiles (unat (buf_addr c)) (parts sp sz c) (buf_end c)"
proof (cases sp)
  case True
  then have lt: "sz < buf_size c" using assms(2) by blast
  then show ?thesis using True unat_split [OF assms(1) lt assms(3)] assms(3)
    by (simp add: parts_def rest_buf_def word_less_nat_alt)
next
  case False
  then show ?thesis using at_bufD(9) [OF assms(1)] by (simp add: parts_def)
qed

lemma parts_simps:
  "\<forall>x \<in> set (parts sp sz c). buf_status x \<noteq> MemBufEagerFree"
  "useds (parts sp sz c) = {#(buf_addr c, if sp then sz else buf_size c)#}"
  "idles (parts sp sz c) = (if sp then {#idle_entry (rest_buf sz c)#} else {#})"
  by (simp_all add: parts_def rest_buf_def)

lemma divide_buf_parts:
  assumes "at_buf (mem_block_list m) pre b post xs c ys" "buf_status c = MemBufIdle" "sz \<le> buf_size c" "0 < sz"
  obtains m1 m2 buf where
    "(if IsSplit sz (buf_size c) then SplitMemBuf sz (buf_addr c) m else Some m) = Some m1"
    "upd_buf (buf_addr c) (buf_status_update (\<lambda>_. MemBufUsed)) m1 = Some m2"
    "get_buf (buf_addr c) m2 = Some buf" "buf_size buf = (if IsSplit sz (buf_size c) then sz else buf_size c)"
    "mem_block_list m2 = pre @ b\<lparr>block_bufs := xs @ parts (IsSplit sz (buf_size c)) sz c @ ys\<rparr> # post"
    "idle_mem_bufs m2 = (if IsSplit sz (buf_size c) then AddMemBuf (rest_buf sz c) (block_stream b) (idle_mem_bufs m) else idle_mem_bufs m)"
    "mps m2 = mps m" "mng_unit_size m2 = mng_unit_size m"
proof -
  note r = divide_buf_run [OF assms]
  then obtain m1 m2 buf where *:
    "(if IsSplit sz (buf_size c) then SplitMemBuf sz (buf_addr c) m else Some m) = Some m1"
    "upd_buf (buf_addr c) (buf_status_update (\<lambda>_. MemBufUsed)) m1 = Some m2" "get_buf (buf_addr c) m2 = Some buf"
    by (auto simp: bind_eq_Some_conv)
  have eq: "buf = (if IsSplit sz (buf_size c) then c\<lparr>buf_size := sz\<rparr> else c)\<lparr>buf_status := MemBufUsed\<rparr>"
    "m2 = (if IsSplit sz (buf_size c)
      then m\<lparr>mem_block_list := pre @ b\<lparr>block_bufs := xs @ c\<lparr>buf_size := sz, buf_status := MemBufUsed\<rparr> # rest_buf sz c # ys\<rparr> # post,
             idle_mem_bufs := AddMemBuf (rest_buf sz c) (block_stream b) (idle_mem_bufs m)\<rparr>
      else m\<lparr>mem_block_list := pre @ b\<lparr>block_bufs := xs @ c\<lparr>buf_status := MemBufUsed\<rparr> # ys\<rparr> # post\<rparr>)"
    using r by (simp_all add: * del: if_split)
  show thesis by (rule that [OF *]) (simp_all add: eq parts_def)
qed

lemma taken_parts:
  assumes ok: "mng_ok m" and at: "at_buf (mem_block_list m) pre b post xs c ys"
    and c: "buf_status c = MemBufIdle" "sz \<le> buf_size c" "0 < sz" "split (buf_size c) \<longrightarrow> sz < buf_size c" and nc: "buf_size nc = buf_size c" "buf_addr nc = buf_addr c"
    and best: "\<forall>(k, _) \<in># idle_bufs (block_stream b) (mem_block_list m). sz \<le> k \<longrightarrow> buf_size c \<le> k"
    and idle: "\<And>k. idle_of idle k = (if k = block_stream b then remove1 (idle_entry c) (idle_of (idle_mem_bufs m) k) else idle_of (idle_mem_bufs m) k)"
    and m': "mem_block_list m' = pre @ b\<lparr>block_bufs := xs @ parts (split (buf_size c)) sz nc @ ys\<rparr> # post" "mng_unit_size m' = mng_unit_size m"
      "idle_mem_bufs m' = (if split (buf_size c) then AddMemBuf (rest_buf sz nc) (block_stream b) idle else idle)"
      "total_used_mem (mps m') = total_used_mem (mps m) + (if split (buf_size c) then sz else buf_size c)"
  shows "taken split sz (block_stream b) m (buf_addr c) m'"
proof -
  note d = at_bufD [OF at]
  have in_idle: "idle_entry c \<in># mset (idle_of (idle_mem_bufs m) (block_stream b))"
    using ok c(1) d(2,3) by (simp add: mng_ok_def)
  have srt: "sorted (map fst (idle_of (idle_mem_bufs m) (block_stream b)))" using ok by (simp add: mng_ok_def)
  have tc1: "buf_tiles (unat (buf_addr c)) (parts (split (buf_size c)) sz nc) (buf_end c)"
    using parts_tiles [OF at c(4,3)] nc by (auto simp: parts_def rest_buf_def)
  have r: "mng_ok m'" "used_bufs (mem_block_list m') + useds [c] = used_bufs (mem_block_list m) + useds (parts (split (buf_size c)) sz nc)"
  proof (rule_tac [!] mng_ok_replace [OF ok d(2), of xs "[c]" ys "unat (buf_addr c)" "buf_end c" "parts (split (buf_size c)) sz nc" m'])
  qed (use d c nc tc1 m' parts_simps [of "split (buf_size c)" sz nc] idle in_idle srt in
      \<open>auto intro!: sorted_mm_emplace sorted_map_remove1 simp: rest_buf_def\<close>)
  have "block_ranges m' = block_ranges m" by (simp add: block_ranges_def m' d(2))
  moreover have "buf_addr c \<noteq> 0" using d(10) by (simp add: unat_gt_0)
  moreover have "idle_entry c \<in># idle_bufs (block_stream b) (mem_block_list m)" using c(1) d(2,3) by simp
  moreover have "used_bufs (mem_block_list m') = add_mset (buf_addr c, if split (buf_size c) then sz else buf_size c) (used_bufs (mem_block_list m))"
    using r(2) c(1) nc parts_simps(2) [of "split (buf_size c)" sz nc] by simp
  ultimately show ?thesis using r(1) m'(2) c(2) best unfolding taken_def by (simp del: if_split) blast
qed

lemma FindMemBufInSpecifiedMng_ok:
  assumes ok: "mng_ok (get_mng pers p)" and sz: "0 < sz"
  shows "\<exists>a m'. FindMemBufInSpecifiedMng dbg sz pers MemBufIdle s p = Some (a, set_mng pers m' p) \<and> taken (IsSplit sz) sz s (get_mng pers p) a m'"
proof -
  define m where "m = get_mng pers p"
  obtain mm c' where g: "GetOrCreateSizeMapMemBuf s (idle_mem_bufs m) = (mm, c')" by fastforce
  note g' = GetOrCreate_idle [OF g]
  have okm: "mng_ok m" using ok by (simp add: m_def)
  have mm: "mset mm = idle_bufs s (mem_block_list m)" "sorted (map fst mm)" using okm g' by (simp_all add: mng_ok_def)
  show ?thesis
  proof (cases "List.find (\<lambda>e. sz \<le> fst e) mm")
    case None
    have "n < sz" if "(n, x) \<in># idle_bufs s (mem_block_list m)" for n x
      using that None unfolding mm(1) [symmetric] by (fastforce simp: find_None_iff)
    moreover have "mng_ok (m\<lparr>idle_mem_bufs := c'\<rparr>)" using okm g' by (simp add: mng_ok_def)
    ultimately have "taken (IsSplit sz) sz s m 0 (m\<lparr>idle_mem_bufs := c'\<rparr>)" by (auto simp: taken_def block_ranges_def)
    then show ?thesis using None g by (auto simp: FindMemBufInSpecifiedMng_def m_def [symmetric])
  next
    case (Some e)
    then obtain n a where e: "e = (n, a)" by fastforce
    note f = find_first_fit [OF mm(2) Some [unfolded e]]
    have "(n, a) \<in> set (idle_of (idle_mem_bufs m) s)" using f(1) g' by simp
    then obtain pre b post xs c ys where at: "at_buf (mem_block_list m) pre b post xs c ys" and c: "block_stream b = s"
      "buf_status c = MemBufIdle" "buf_size c = n" "buf_addr c = a"
      by (rule idle_entry_buf [OF okm])
    define c1 where "c1 = c\<lparr>allocator_name := dbg_name dbg, alloc_kind := dbg_type dbg\<rparr>"
    define m1 where "m1 = m\<lparr>mem_block_list := pre @ b\<lparr>block_bufs := xs @ c1 # ys\<rparr> # post,
        idle_mem_bufs := smap_set s (remove1 (n, a) mm) c'\<rparr>"
    have u: "upd_buf a (\<lambda>b. b\<lparr>allocator_name := dbg_name dbg, alloc_kind := dbg_type dbg\<rparr>) (m\<lparr>idle_mem_bufs := c'\<rparr>) =
        Some (m\<lparr>mem_block_list := pre @ b\<lparr>block_bufs := xs @ c1 # ys\<rparr> # post, idle_mem_bufs := c'\<rparr>)"
      using upd_buf_at [of "m\<lparr>idle_mem_bufs := c'\<rparr>" pre b post xs c ys] at c(4) by (simp add: c1_def)
    have at1: "at_buf (mem_block_list m1) pre (b\<lparr>block_bufs := xs @ c1 # ys\<rparr>) post xs c1 ys"
      using at_buf_replace [OF at, of c1 "[]"] at_bufD(9) [OF at] c by (simp add: c1_def m1_def)
    have c1: "buf_status c1 = MemBufIdle" "buf_size c1 = n" "buf_addr c1 = a" "sz \<le> buf_size c1"
      using c f by (simp_all add: c1_def)
    have bs: "block_stream (b\<lparr>block_bufs := xs @ c1 # ys\<rparr>) = s" using c(1) by simp
    obtain m2 m3 buf where run: "(if IsSplit sz n then SplitMemBuf sz a m1 else Some m1) = Some m2"
      "upd_buf a (buf_status_update (\<lambda>_. MemBufUsed)) m2 = Some m3" "get_buf a m3 = Some buf"
      "buf_size buf = (if IsSplit sz n then sz else n)" "mem_block_list m3 = pre @ b\<lparr>block_bufs := xs @ parts (IsSplit sz n) sz c1 @ ys\<rparr> # post"
      "idle_mem_bufs m3 = (if IsSplit sz n then AddMemBuf (rest_buf sz c1) s (idle_mem_bufs m1) else idle_mem_bufs m1)"
      "mps m3 = mps m1" "mng_unit_size m3 = mng_unit_size m1"
      by (rule divide_buf_parts [OF at1 c1(1,4) sz, unfolded c1(2,3) bs]) simp
    define m4 where "m4 = m3\<lparr>mps := (add_used (buf_size buf) (mps m3))\<lparr>total_idle_mem := total_idle_mem (add_used (buf_size buf) (mps m3)) - buf_size buf\<rparr>\<rparr>"
    have "FindMemBufInSpecifiedMng dbg sz pers MemBufIdle s p = Some (a, set_mng pers m4 p)"
      using Some e g u run(1-3) get_buf_at [OF at1] c1(2,3)
      by (cases "IsSplit sz n") (simp_all add: FindMemBufInSpecifiedMng_def m_def [symmetric] m1_def [symmetric] m4_def Let_def)
    moreover have "\<forall>(k, _) \<in># idle_bufs (block_stream b) (mem_block_list m). sz \<le> k \<longrightarrow> buf_size c \<le> k"
      unfolding c mm(1) [symmetric] using f(3) by simp
    then have "taken (IsSplit sz) sz (block_stream b) m (buf_addr c) m4"
      using c c1 f(2) sz g' run
      by (intro taken_parts [OF okm at c(2), where split = "IsSplit sz" and nc = c1 and idle = "smap_set s (remove1 (n, a) mm) c'"])
        (simp_all add: m1_def m4_def add_used_def Let_def IsSplit_less)
    ultimately show ?thesis using c by (auto simp: m_def [symmetric])
  qed
qed

section \<open>A new block\<close>

definition apart :: "DynamicMemBlock \<Rightarrow> DynamicMemBlock \<Rightarrow> bool" where
  "apart b x \<longleftrightarrow> block_end x \<le> unat (block_base b) \<or> block_end b \<le> unat (block_base x)"

lemma DoAddMemBlock_at:
  assumes "blocks_ok bl" "block_ok b" "\<forall>x \<in> set bl. apart b x"
  obtains pre post where "bl = pre @ post" "DoAddMemBlock block_base b bl = pre @ b # post" "blocks_ok (pre @ b # post)"
proof -
  have pos: "0 < unat (block_size b)" using assms(2) by (simp add: block_ok_def)
  have "\<exists>pre post. bl = pre @ post \<and> DoAddMemBlock block_base b bl = pre @ b # post \<and> blocks_ok (pre @ b # post)"
    using assms(1,3)
  proof (induction bl)
    case Nil
    then show ?case using assms(2) by (auto simp: blocks_ok_def)
  next
    case (Cons x bl)
    show ?case
    proof (cases "block_base b < block_base x")
      case True
      then have "block_end b \<le> unat (block_base x)"
        using Cons.prems block_size_pos [OF Cons.prems(1), of x] by (auto simp: apart_def word_less_nat_alt)
      moreover have "\<forall>y \<in> set bl. unat (block_base x) \<le> unat (block_base y)"
        using Cons.prems(1) by (auto simp: blocks_ok_def)
      ultimately have "blocks_ok ([] @ b # x # bl)"
        using Cons.prems(1) assms(2) by (auto simp: blocks_ok_def intro: order_trans)
      moreover have "DoAddMemBlock block_base b (x # bl) = [] @ b # x # bl" using True by simp
      ultimately show ?thesis by blast
    next
      case False
      then have le: "block_end x \<le> unat (block_base b)" using Cons.prems pos by (auto simp: apart_def word_less_nat_alt)
      obtain pre post where ih: "bl = pre @ post" "DoAddMemBlock block_base b bl = pre @ b # post" "blocks_ok (pre @ b # post)"
        using Cons by (auto simp: blocks_ok_def)
      have "blocks_ok ((x # pre) @ b # post)"
        using ih Cons.prems(1) le by (auto simp: blocks_ok_def sorted_wrt_append)
      then show ?thesis using ih False by (intro exI [of _ "x # pre"] exI [of _ post]) auto
    qed
  qed
  then show thesis using that by blast
qed

definition new_buf :: "AllocatorDebugInfo \<Rightarrow> device_ptr \<Rightarrow> size_t \<Rightarrow> DynamicMemBuf" where
  "new_buf dbg a n = \<lparr>buf_addr = a, buf_status = MemBufIdle, buf_size = n, allocator_name = dbg_name dbg, alloc_kind = dbg_type dbg\<rparr>"

definition new_block :: "AllocatorDebugInfo \<Rightarrow> device_ptr \<Rightarrow> size_t \<Rightarrow> uint32 \<Rightarrow> DynamicMemBlock" where
  "new_block dbg a n s = \<lparr>block_bufs = [new_buf dbg a n], block_base = a, block_size = n, block_stream = s\<rparr>"

lemma new_block_simps [simp]:
  "block_bufs (new_block dbg a n s) = [new_buf dbg a n]" "block_base (new_block dbg a n s) = a"
  "block_size (new_block dbg a n s) = n" "block_stream (new_block dbg a n s) = s"
  "buf_addr (new_buf dbg a n) = a" "buf_size (new_buf dbg a n) = n" "buf_status (new_buf dbg a n) = MemBufIdle"
  by (simp_all add: new_block_def new_buf_def)

lemma new_block_at:
  assumes ok: "mng_ok m" and a: "a \<noteq> 0" "unat a + unat n < 2 ^ 64" "0 < n"
    and apart: "\<forall>(b, k) \<in> set (block_ranges m). unat b + unat k \<le> unat a \<or> unat a + unat n \<le> unat b"
  obtains pre post where "mem_block_list m = pre @ post"
    "DoAddMemBlock block_base (new_block dbg a n s) (mem_block_list m) = pre @ new_block dbg a n s # post"
    "at_buf (pre @ new_block dbg a n s # post) pre (new_block dbg a n s) post [] (new_buf dbg a n) []"
proof -
  have "block_ok (new_block dbg a n s)" using a by (simp add: block_ok_def unat_gt_0)
  moreover have "\<forall>x \<in> set (mem_block_list m). apart (new_block dbg a n s) x"
    using apart by (auto simp: apart_def block_ranges_def)
  moreover have "blocks_ok (mem_block_list m)" using ok by (simp add: mng_ok_def)
  ultimately obtain pre post where "mem_block_list m = pre @ post"
    "DoAddMemBlock block_base (new_block dbg a n s) (mem_block_list m) = pre @ new_block dbg a n s # post"
    "blocks_ok (pre @ new_block dbg a n s # post)"
    using DoAddMemBlock_at by metis
  then show thesis by (intro that) (simp_all add: at_buf_def)
qed

text \<open>The manager with a new block whose first part is in use.\<close>

definition added :: "bool \<Rightarrow> size_t \<Rightarrow> device_ptr \<Rightarrow> size_t \<Rightarrow> MemStatusManager \<Rightarrow> MemStatusManager \<Rightarrow> bool" where
  "added sp sz a n m m' \<longleftrightarrow> mng_ok m' \<and> mng_unit_size m' = mng_unit_size m \<and>
     used_bufs (mem_block_list m') = add_mset (a, if sp then sz else n) (used_bufs (mem_block_list m)) \<and>
     set (block_ranges m') = insert (a, n) (set (block_ranges m))"

lemma added_parts:
  assumes ok: "mng_ok m" and at: "at_buf (pre @ new_block dbg a n s # post) pre (new_block dbg a n s) post [] (new_buf dbg a n) []"
    and bl: "mem_block_list m = pre @ post" and sz: "0 < sz" "sp \<longrightarrow> sz < n"
    and m': "mem_block_list m' = pre @ (new_block dbg a n s)\<lparr>block_bufs := parts sp sz (new_buf dbg a n)\<rparr> # post" "mng_unit_size m' = mng_unit_size m"
      "idle_mem_bufs m' = (if sp then AddMemBuf (rest_buf sz (new_buf dbg a n)) s (idle_mem_bufs m) else idle_mem_bufs m)"
      "total_used_mem (mps m') = total_used_mem (mps m) + (if sp then sz else n)"
  shows "added sp sz a n m m'"
proof -
  have u: "used_bufs (mem_block_list m') = add_mset (a, if sp then sz else n) (used_bufs (mem_block_list m))"
    using parts_simps(2) [of sp sz "new_buf dbg a n"] by (simp add: m' bl)
  have "buf_tiles (unat a) (parts sp sz (new_buf dbg a n)) (unat a + unat n)"
    using parts_tiles [OF at _ sz(1), of sp] sz(2) by simp
  then have "blocks_ok (mem_block_list m')"
    using blocks_replace_bufs [OF at_bufD(1) [OF at], of "[]" "[new_buf dbg a n]" "[]" "unat a" "unat a + unat n" "parts sp sz (new_buf dbg a n)"]
      at_bufD(9) [OF at] parts_simps(1) by (simp add: m')
  moreover have "mset (idle_of (idle_mem_bufs m') k) = idle_bufs k (mem_block_list m') \<and> sorted (map fst (idle_of (idle_mem_bufs m') k))" for k
    using ok parts_simps(3) [of sp sz "new_buf dbg a n"]
    by (auto simp: m' bl mng_ok_def rest_buf_def intro!: sorted_mm_emplace)
  moreover have "total_used_mem (mps m') = (\<Sum>r \<in># used_bufs (mem_block_list m'). snd r)"
    using ok unfolding u m'(4) by (simp add: mng_ok_def)
  moreover have "set (block_ranges m') = insert (a, n) (set (block_ranges m))" by (auto simp: block_ranges_def m' bl)
  ultimately show ?thesis using u m'(2) by (simp add: added_def mng_ok_def)
qed

lemma CreateMemBlockAndMemBuf_ok:
  assumes ok: "mng_ok (get_mng pers p)" and a: "a \<noteq> 0" "unat a + unat n < 2 ^ 64" and sz: "0 < sz" "sz \<le> n"
    and apart: "\<forall>(b, k) \<in> set (block_ranges (get_mng pers p)). unat b + unat k \<le> unat a \<or> unat a + unat n \<le> unat b"
  shows "\<exists>m'. CreateMemBlockAndMemBuf dbg sz pers a n MemBufIdle s p = Some (a, set_mng pers m' p) \<and>
    added (IsSplit sz n) sz a n (get_mng pers p) m'"
proof -
  define m where "m = get_mng pers p"
  have okm: "mng_ok m" using ok by (simp add: m_def)
  have n: "0 < n" using sz by (auto simp: word_less_nat_alt word_le_nat_alt)
  let ?c = "new_buf dbg a n" and ?b = "new_block dbg a n s"
  obtain pre post where pp: "mem_block_list m = pre @ post" "DoAddMemBlock block_base ?b (mem_block_list m) = pre @ ?b # post"
    "at_buf (pre @ ?b # post) pre ?b post [] ?c []"
    using new_block_at [OF okm a n, of dbg s] apart by (auto simp: m_def)
  define m1 where "m1 = AddMemBlock ?b s m"
  have m1: "mem_block_list m1 = pre @ ?b # post" "idle_mem_bufs m1 = idle_mem_bufs m" "mps m1 = mps m" "mng_unit_size m1 = mng_unit_size m"
    using pp(2) by (simp_all add: m1_def AddMemBlock_def Let_def)
  have at: "at_buf (mem_block_list m1) pre ?b post [] ?c []" using pp(3) by (simp add: m1)
  obtain m2 m3 buf where run: "(if IsSplit sz n then SplitMemBuf sz a m1 else Some m1) = Some m2"
    "upd_buf a (buf_status_update (\<lambda>_. MemBufUsed)) m2 = Some m3" "get_buf a m3 = Some buf"
    "buf_size buf = (if IsSplit sz n then sz else n)" "mem_block_list m3 = pre @ ?b\<lparr>block_bufs := parts (IsSplit sz n) sz ?c\<rparr> # post"
    "idle_mem_bufs m3 = (if IsSplit sz n then AddMemBuf (rest_buf sz ?c) s (idle_mem_bufs m) else idle_mem_bufs m)"
    "mps m3 = mps m" "mng_unit_size m3 = mng_unit_size m"
    by (rule divide_buf_parts [OF at _ _ sz(1), unfolded new_block_simps]) (simp_all add: m1 sz)
  define m4 where "m4 = m3\<lparr>mps := add_used (buf_size buf) ((mps m3)\<lparr>total_mem := total_mem (mps m3) + n\<rparr>)\<rparr>"
  have "CreateMemBlockAndMemBuf dbg sz pers a n MemBufIdle s p = Some (a, set_mng pers m4 p)"
    using run(1-3) by (cases "IsSplit sz n")
      (simp_all add: CreateMemBlockAndMemBuf_def m_def [symmetric] new_buf_def [symmetric] new_block_def [symmetric] m1_def [symmetric] m4_def Let_def)
  moreover have "added (IsSplit sz n) sz a n m m4"
    by (rule added_parts [OF okm pp(3,1) sz(1)]) (use run sz IsSplit_less in \<open>simp_all add: m4_def add_used_def Let_def\<close>)
  ultimately show ?thesis by (auto simp: m_def)
qed

end
