(* ===== verification/Range_Pool.thy ===== *)
theory Range_Pool
  imports Prelude "HOL-Library.Multiset"
begin

text \<open>
  The contract of a pool that hands out ranges of device memory, stated as a locale, and what a client of
  such a pool may rely on. The held ranges of a pool are a multiset of addresses with their sizes.
\<close>

abbreviation disjoint_ranges :: "device_ptr \<times> size_t \<Rightarrow> device_ptr \<times> size_t \<Rightarrow> bool" where
  "disjoint_ranges x y \<equiv> unat (fst x) + unat (snd x) \<le> unat (fst y) \<or> unat (fst y) + unat (snd y) \<le> unat (fst x)"

text \<open>Any two entries do not overlap; equal entries count as two.\<close>

definition apart_all :: "(device_ptr \<times> size_t) multiset \<Rightarrow> bool" where
  "apart_all M \<longleftrightarrow> (\<forall>x y. {#x, y#} \<subseteq># M \<longrightarrow> disjoint_ranges x y)"

lemma apart_all_empty [simp]: "apart_all {#}"
  by (simp add: apart_all_def)

lemma apart_all_single [simp]: "apart_all {#x#}"
  by (auto simp: apart_all_def insert_subset_eq_iff)

lemma apart_all_add:
  assumes "apart_all A" "apart_all B" "\<And>x y. x \<in># A \<Longrightarrow> y \<in># B \<Longrightarrow> disjoint_ranges x y"
  shows "apart_all (A + B)"
  unfolding apart_all_def
proof (intro allI impI)
  fix x y assume "{#x, y#} \<subseteq># A + B"
  then have x: "x \<in># A + B" and y: "y \<in># A + B - {#x#}" by (auto simp: insert_subset_eq_iff)
  show "disjoint_ranges x y"
  proof (cases "x \<in># A")
    case True
    then have "A + B - {#x#} = (A - {#x#}) + B" by simp
    then consider "y \<in># A - {#x#}" | "y \<in># B" using y by fastforce
    then show ?thesis
    proof cases
      case 1
      then have "{#x, y#} \<subseteq># A" using True by (simp add: insert_subset_eq_iff)
      then show ?thesis using assms(1) by (simp add: apart_all_def)
    qed (use assms(3) True in blast)
  next
    case False
    then have xB: "x \<in># B" using x by simp
    then have "A + B - {#x#} = A + (B - {#x#})" by simp
    then consider "y \<in># A" | "y \<in># B - {#x#}" using y by fastforce
    then show ?thesis
    proof cases
      case 2
      then have "{#x, y#} \<subseteq># B" using xB by (simp add: insert_subset_eq_iff)
      then show ?thesis using assms(2) by (simp add: apart_all_def)
    qed (use assms(3) [of y x] xB in auto)
  qed
qed

text \<open>
  A client asks for ranges and releases the ones it holds. \<open>legal r p\<close> is what the request and its device
  have to satisfy in the state in which it is made; address 0 is a request that was refused.
\<close>

inductive client_reach ::
    "('r \<Rightarrow> 'p \<Rightarrow> (device_ptr \<times> 'p) option) \<Rightarrow> (device_ptr \<Rightarrow> 'p \<Rightarrow> 'p option) \<Rightarrow> ('r \<Rightarrow> 'p \<Rightarrow> bool) \<Rightarrow> 'p \<Rightarrow>
      device_ptr list \<Rightarrow> 'p \<Rightarrow> bool"
  for alloc :: "'r \<Rightarrow> 'p \<Rightarrow> (device_ptr \<times> 'p) option" and free :: "device_ptr \<Rightarrow> 'p \<Rightarrow> 'p option"
    and legal :: "'r \<Rightarrow> 'p \<Rightarrow> bool" and start :: 'p where
  client_start: "client_reach alloc free legal start [] start"
| client_alloc: "\<lbrakk>client_reach alloc free legal start hs p; legal r p; alloc r p = Some (a, p')\<rbrakk>
     \<Longrightarrow> client_reach alloc free legal start (if a = 0 then hs else a # hs) p'"
| client_free: "\<lbrakk>client_reach alloc free legal start hs p; a \<in> set hs; free a p = Some p'\<rbrakk>
     \<Longrightarrow> client_reach alloc free legal start (remove1 a hs) p'"

locale range_pool =
  fixes alloc :: "'r \<Rightarrow> 'p \<Rightarrow> (device_ptr \<times> 'p) option" and free :: "device_ptr \<Rightarrow> 'p \<Rightarrow> 'p option"
    and legal :: "'r \<Rightarrow> 'p \<Rightarrow> bool" and start :: 'p
    and ok :: "'p \<Rightarrow> bool" and held :: "'p \<Rightarrow> (device_ptr \<times> size_t) multiset" and fits :: "'r \<Rightarrow> size_t \<Rightarrow> bool"
  assumes start_ok: "ok start" "held start = {#}"
    and held_apart: "ok p \<Longrightarrow> apart_all (held p)"
    and alloc_law: "ok p \<Longrightarrow> legal r p \<Longrightarrow> \<exists>a p'. alloc r p = Some (a, p') \<and> ok p' \<and>
      (if a = 0 then held p' = held p else \<exists>n. fits r n \<and> held p' = add_mset (a, n) (held p))"
    and free_law: "ok p \<Longrightarrow> (a, n) \<in># held p \<Longrightarrow> \<exists>p'. free a p = Some p' \<and> ok p' \<and> held p = add_mset (a, n) (held p')"
begin

lemma client_ok: "client_reach alloc free legal start hs p \<Longrightarrow> ok p \<and> image_mset fst (held p) = mset hs"
proof (induction rule: client_reach.induct)
  case client_start
  then show ?case by (simp add: start_ok)
next
  case (client_alloc hs p r a p')
  then show ?case using alloc_law [of p r] by (auto split: if_splits)
next
  case (client_free hs p a p')
  then have "a \<in># image_mset fst (held p)" by simp
  then obtain n where n: "(a, n) \<in># held p" by auto
  have ih: "ok p" "image_mset fst (held p) = mset hs" using client_free.IH by simp_all
  have p': "ok p'" "held p = add_mset (a, n) (held p')" using free_law [OF ih(1) n] client_free.hyps(3) by auto
  have "mset (remove1 a hs) = mset hs - {#a#}" by simp
  also have "\<dots> = image_mset fst (held p')" by (simp add: p'(2) flip: ih(2))
  finally show ?case using p'(1) by simp
qed

lemma client_apart: "client_reach alloc free legal start hs p \<Longrightarrow> apart_all (held p)"
  using client_ok held_apart by blast

lemma client_request:
  assumes "client_reach alloc free legal start hs p" "legal r p"
  shows "\<exists>a p'. alloc r p = Some (a, p') \<and> (if a = 0 then held p' = held p else \<exists>n. fits r n \<and> held p' = add_mset (a, n) (held p))"
  using alloc_law client_ok assms by blast

lemma client_release:
  assumes "client_reach alloc free legal start hs p" "a \<in> set hs"
  shows "\<exists>n p'. free a p = Some p' \<and> held p = add_mset (a, n) (held p')"
proof -
  have "a \<in># image_mset fst (held p)" using client_ok [OF assms(1)] assms(2) by simp
  then obtain n where "(a, n) \<in># held p" by auto
  then show ?thesis using free_law client_ok [OF assms(1)] by blast
qed

end

end
