(* ===== verification/Best_Fit_Ops.thy ===== *)
theory Best_Fit_Ops
  imports Best_Fit_Inv Range_Pool
begin

text \<open>
  The operations of the best-fit pool on the invariant: release with combination of neighbours, then the
  pool of two managers and its reachable states.
\<close>

section \<open>Release\<close>

lemma erase_idle:
  assumes "idle_entry x \<in> set (idle_of (idle_mem_bufs m) s)"
  shows "EraseMemBufByStatus (buf_size x) (buf_addr x) MemBufIdle s m =
    Some (m\<lparr>idle_mem_bufs := smap_set s (remove1 (idle_entry x) (idle_of (idle_mem_bufs m) s)) (idle_mem_bufs m)\<rparr>)"
  using assms by (cases "map_of (idle_mem_bufs m) s") (auto simp: EraseMemBufByStatus_def RemoveDeviceMem_def idle_of_def)

text \<open>A manager that differs only in the idle map of a stream, which lost the entries of the buffers \<open>N\<close>.\<close>

definition erased :: "DynamicMemBuf list \<Rightarrow> uint32 \<Rightarrow> MemStatusManager \<Rightarrow> MemStatusManager \<Rightarrow> bool" where
  "erased N s m m' \<longleftrightarrow> (\<exists>idle. m' = m\<lparr>idle_mem_bufs := idle\<rparr> \<and> (\<forall>k. k \<noteq> s \<longrightarrow> idle_of idle k = idle_of (idle_mem_bufs m) k) \<and>
     mset (idle_of idle s) + idles N = mset (idle_of (idle_mem_bufs m) s) \<and>
     (sorted (map fst (idle_of (idle_mem_bufs m) s)) \<longrightarrow> sorted (map fst (idle_of idle s))))"

lemma erased_none: "erased [] s m m"
  unfolding erased_def by (rule exI [of _ "idle_mem_bufs m"]) simp

lemma erased_one:
  assumes "idle_entry x \<in> set (idle_of (idle_mem_bufs m) s)" "buf_status x = MemBufIdle"
  shows "\<exists>m'. EraseMemBufByStatus (buf_size x) (buf_addr x) MemBufIdle s m = Some m' \<and> erased [x] s m m'"
  using assms by (simp add: erase_idle) (auto simp: erased_def intro!: sorted_map_remove1)

lemma erased_trans: "erased M s m m1 \<Longrightarrow> erased N s m1 m2 \<Longrightarrow> erased (N @ M) s m m2"
  by (auto simp: erased_def ac_simps)

text \<open>A buffer together with the buffers \<open>N\<close> behind it.\<close>

lemma buf_tiles_join:
  assumes "buf_tiles a (c # N) e" "e < 2 ^ 64" "length N \<le> 1" "buf_addr d = buf_addr c"
    "buf_size d = (case N of [] \<Rightarrow> buf_size c | x # _ \<Rightarrow> buf_size c + buf_size x)"
  shows "buf_tiles a [d] e"
proof (cases N)
  case Nil
  then show ?thesis using assms by simp
next
  case (Cons x N')
  then have "unat (buf_size c + buf_size x) = unat (buf_size c) + unat (buf_size x)"
    using assms by (intro unat_add_lem [THEN iffD1]) auto
  then show ?thesis using assms Cons by auto
qed

lemma combine_next:
  assumes idle: "\<And>x. x \<in> set ys \<Longrightarrow> buf_status x = MemBufIdle \<Longrightarrow> idle_entry x \<in> set (idle_of (idle_mem_bufs m) s)"
  obtains N rest d m' where
    "(case ys of
        nx # rest \<Rightarrow>
          if buf_status nx = MemBufIdle
          then do { m \<leftarrow> EraseMemBufByStatus (buf_size nx) (buf_addr nx) MemBufIdle s m; Some (c\<lparr>buf_size := buf_size c + buf_size nx\<rparr>, rest, m) }
          else Some (c, ys, m)
      | [] \<Rightarrow> Some (c, ys, m)) = Some (d, rest, m')"
    "ys = N @ rest" "length N \<le> 1" "\<forall>x \<in> set N. buf_status x = MemBufIdle" "erased N s m m'" "buf_addr d = buf_addr c"
    "buf_status d = buf_status c" "buf_size d = (case N of [] \<Rightarrow> buf_size c | x # _ \<Rightarrow> buf_size c + buf_size x)"
proof (cases "ys \<noteq> [] \<and> buf_status (hd ys) = MemBufIdle")
  case True
  then obtain nx rest where ys: "ys = nx # rest" "buf_status nx = MemBufIdle" by (cases ys) auto
  obtain m' where "EraseMemBufByStatus (buf_size nx) (buf_addr nx) MemBufIdle s m = Some m'" "erased [nx] s m m'"
    using erased_one [OF idle [of nx] ys(2)] ys by auto
  then show thesis using ys by (intro that [of "c\<lparr>buf_size := buf_size c + buf_size nx\<rparr>" rest m' "[nx]"]) auto
next
  case False
  then show thesis by (intro that [of c ys m "[]"]) (auto simp: erased_none split: list.split)
qed

lemma combine_prev:
  assumes idle: "\<And>x. x \<in> set xs \<Longrightarrow> buf_status x = MemBufIdle \<Longrightarrow> idle_entry x \<in> set (idle_of (idle_mem_bufs m) s)"
    and c: "buf_status c = MemBufIdle"
  obtains P rest d m' where
    "(if xs \<noteq> [] \<and> buf_status (last xs) = MemBufIdle
      then do {
        let pv = last xs;
        m \<leftarrow> EraseMemBufByStatus (buf_size pv) (buf_addr pv) MemBufIdle s m;
        Some (pv\<lparr>buf_size := buf_size pv + buf_size c\<rparr>, butlast xs, m) }
      else Some (c, xs, m)) = Some (d, rest, m')"
    "xs = rest @ P" "length P \<le> 1" "\<forall>x \<in> set P. buf_status x = MemBufIdle" "erased P s m m'"
    "buf_status d = MemBufIdle" "P = [] \<longrightarrow> d = c"
    "\<forall>x. P = [x] \<longrightarrow> buf_addr d = buf_addr x \<and> buf_size d = buf_size x + buf_size c"
proof (cases "xs \<noteq> [] \<and> buf_status (last xs) = MemBufIdle")
  case True
  obtain m' where "EraseMemBufByStatus (buf_size (last xs)) (buf_addr (last xs)) MemBufIdle s m = Some m'" "erased [last xs] s m m'"
    using erased_one [OF idle [of "last xs"]] True by auto
  then show thesis using True
    by (intro that [of "(last xs)\<lparr>buf_size := buf_size (last xs) + buf_size c\<rparr>" "butlast xs" m' "[last xs]"]) (auto simp: Let_def)
next
  case False
  then show thesis using c by (intro that [of c xs m "[]"]) (auto simp: erased_none)
qed

lemma buf_tiles_join_both:
  assumes t: "buf_tiles u (P @ c # N) v" "v < 2 ^ 64" "length N \<le> 1" "length P \<le> 1" and d1: "buf_addr d1 = buf_addr c"
    "buf_size d1 = (case N of [] \<Rightarrow> buf_size c | x # _ \<Rightarrow> buf_size c + buf_size x)"
    and d: "P = [] \<Longrightarrow> d = d1" "\<And>x. P = [x] \<Longrightarrow> buf_addr d = buf_addr x \<and> buf_size d = buf_size x + buf_size d1"
  shows "buf_tiles u [d] v"
proof -
  obtain w where w: "buf_tiles u P w" "buf_tiles w (c # N) v" using t(1) by (auto simp: buf_tiles_append)
  have j: "buf_tiles w [d1] v" by (rule buf_tiles_join [OF w(2) t(2,3) d1])
  show ?thesis
  proof (cases P)
    case Nil
    then show ?thesis using w j d(1) by simp
  next
    case (Cons x P')
    then have "buf_tiles u (x # [d1]) v" "P = [x]" using w j t(4) by auto
    then show ?thesis using buf_tiles_join [of u x "[d1]" v d] t(2) d(2) by simp
  qed
qed

text \<open>The manager after the buffers \<open>P @ c # N\<close> of a block have become one idle buffer \<open>d\<close>.\<close>

lemma combined_ok:
  assumes okm: "mng_ok m" and at: "at_buf (mem_block_list m) pre b post (rest @ P) c (N @ ys)" and c: "buf_status c = MemBufUsed"
    and er: "erased (P @ N) (block_stream b) (m\<lparr>mps := (mps m)\<lparr>total_used_mem := total_used_mem (mps m) - buf_size c\<rparr>\<rparr>) m2"
    and t: "\<And>u v. buf_tiles u (P @ c # N) v \<Longrightarrow> v < 2 ^ 64 \<Longrightarrow> buf_tiles u [d] v"
    and st: "buf_status d = MemBufIdle" "\<forall>x \<in> set P. buf_status x = MemBufIdle" "\<forall>x \<in> set N. buf_status x = MemBufIdle"
  defines "m' \<equiv> put_back_mem_buf d MemBufIdle (block_stream b) (put_block (b\<lparr>block_bufs := rest @ d # ys\<rparr>) m2)"
  shows "mng_ok m'" "used_bufs (mem_block_list m) = add_mset (used_entry c) (used_bufs (mem_block_list m'))"
    "block_ranges m' = block_ranges m" "mng_unit_size m' = mng_unit_size m"
proof -
  note d = at_bufD [OF at]
  obtain idle where m2: "m2 = m\<lparr>mps := (mps m)\<lparr>total_used_mem := total_used_mem (mps m) - buf_size c\<rparr>, idle_mem_bufs := idle\<rparr>"
    and i: "\<forall>k. k \<noteq> block_stream b \<longrightarrow> idle_of idle k = idle_of (idle_mem_bufs m) k"
      "mset (idle_of idle (block_stream b)) + idles (P @ N) = mset (idle_of (idle_mem_bufs m) (block_stream b))"
      "sorted (map fst (idle_of idle (block_stream b)))"
    using er okm by (auto simp: erased_def mng_ok_def)
  have "put_block (b\<lparr>block_bufs := rest @ d # ys\<rparr>) m2 = m2\<lparr>mem_block_list := pre @ b\<lparr>block_bufs := rest @ d # ys\<rparr> # post\<rparr>"
    by (rule put_block_at) (use d m2 in simp_all)
  then have m': "mem_block_list m' = pre @ b\<lparr>block_bufs := rest @ [d] @ ys\<rparr> # post" "mng_unit_size m' = mng_unit_size m"
    "idle_mem_bufs m' = AddMemBuf d (block_stream b) idle" "total_used_mem (mps m') = total_used_mem (mps m) - buf_size c"
    by (simp_all add: m'_def put_back_mem_buf_def AddIdleMemBuf_def m2 Let_def)
  obtain u v where uv: "buf_tiles u (P @ c # N) v" "v \<le> block_end b"
  proof -
    have "buf_tiles (unat (block_base b)) (rest @ (P @ c # N) @ ys) (block_end b)" using d(5) by simp
    then obtain u v where "buf_tiles u (P @ c # N) v" "buf_tiles v ys (block_end b)" unfolding buf_tiles_append by blast
    then show thesis using that buf_tiles_le by blast
  qed
  have td: "buf_tiles u [d] v" using t [OF uv(1)] uv(2) d(8) by linarith
  have none: "useds P = {#}" "useds N = {#}" using st by (auto simp: useds_def filter_empty_conv)
  have bb: "block_bufs b = rest @ (P @ c # N) @ ys" using d(3) by simp
  have r: "mng_ok m'" "used_bufs (mem_block_list m') + useds (P @ c # N) = used_bufs (mem_block_list m) + useds [d]"
    using mng_ok_replace [OF okm d(2) bb uv(1) td _ _ m'(1)] i st(1) c none
    by (auto simp: m' ac_simps intro: sorted_mm_emplace)
  then show "mng_ok m'" "used_bufs (mem_block_list m) = add_mset (used_entry c) (used_bufs (mem_block_list m'))"
    using none c st(1) by simp_all
  show "block_ranges m' = block_ranges m" "mng_unit_size m' = mng_unit_size m" by (simp_all add: block_ranges_def m' d(2))
qed

lemma CombineMemBuf_used:
  assumes "FindByStrictAddr (buf_addr c) p = Some (pers, b, c)" "block_bufs b = xs @ c # ys" "buf_tiles u (xs @ c # ys) v"
  shows "CombineMemBuf (buf_addr c) MemBufUsed MemBufIdle p =
    (let m = get_mng pers p; s = block_stream b; c0 = c\<lparr>buf_status := MemBufIdle\<rparr>;
         m0 = m\<lparr>mps := (mps m)\<lparr>total_used_mem := total_used_mem (mps m) - buf_size c\<rparr>\<rparr>
     in do {
       (d1, ys', m1) \<leftarrow>
         (case ys of
            nx # rest \<Rightarrow>
              if buf_status nx = MemBufIdle
              then do { m \<leftarrow> EraseMemBufByStatus (buf_size nx) (buf_addr nx) MemBufIdle s m0; Some (c0\<lparr>buf_size := buf_size c0 + buf_size nx\<rparr>, rest, m) }
              else Some (c0, ys, m0)
          | [] \<Rightarrow> Some (c0, ys, m0));
       (d2, xs', m2) \<leftarrow>
         (if xs \<noteq> [] \<and> buf_status (last xs) = MemBufIdle
          then do {
            let pv = last xs;
            m \<leftarrow> EraseMemBufByStatus (buf_size pv) (buf_addr pv) MemBufIdle s m1;
            Some (pv\<lparr>buf_size := buf_size pv + buf_size d1\<rparr>, butlast xs, m) }
          else Some (d1, xs, m1));
       Some (set_mng pers (put_back_mem_buf d2 MemBufIdle s (put_block (b\<lparr>block_bufs := xs' @ d2 # ys'\<rparr>) m2)) p) })"
  by (simp add: CombineMemBuf_def assms(1,2) bufs_at(3,4) [OF assms(3)] Let_def cong: if_cong list.case_cong)

lemma CombineMemBuf_ok:
  assumes ok: "mng_ok (get_mng pers p)" and at: "at_buf (mem_block_list (get_mng pers p)) pre b post xs c ys"
    and c: "buf_status c = MemBufUsed" and found: "FindByStrictAddr (buf_addr c) p = Some (pers, b, c)"
  shows "\<exists>m'. CombineMemBuf (buf_addr c) MemBufUsed MemBufIdle p = Some (set_mng pers m' p) \<and> mng_ok m' \<and>
    used_bufs (mem_block_list (get_mng pers p)) = add_mset (used_entry c) (used_bufs (mem_block_list m')) \<and>
    block_ranges m' = block_ranges (get_mng pers p) \<and> mng_unit_size m' = mng_unit_size (get_mng pers p)"
proof -
  define m where "m = get_mng pers p"
  have okm: "mng_ok m" and atm: "at_buf (mem_block_list m) pre b post xs c ys" using ok at by (simp_all add: m_def)
  note d = at_bufD [OF atm]
  define s where "s = block_stream b"
  define c0 where "c0 = c\<lparr>buf_status := MemBufIdle\<rparr>"
  define m0 where "m0 = m\<lparr>mps := (mps m)\<lparr>total_used_mem := total_used_mem (mps m) - buf_size c\<rparr>\<rparr>"
  have idle0: "mset (idle_of (idle_mem_bufs m0) s) = idle_bufs s pre + idles xs + idles ys + idle_bufs s post"
    using okm c d(2,3) by (simp add: mng_ok_def m0_def s_def)
  have e0: "idle_entry x \<in> set (idle_of (idle_mem_bufs m0) s)" if "x \<in> set ys" "buf_status x = MemBufIdle" for x
    unfolding set_mset_mset [symmetric] idle0 using that by (auto simp: idles_def)
  obtain N ys' d1 m1 where nx:
    "(case ys of
        nx # rest \<Rightarrow>
          if buf_status nx = MemBufIdle
          then do { m \<leftarrow> EraseMemBufByStatus (buf_size nx) (buf_addr nx) MemBufIdle s m0; Some (c0\<lparr>buf_size := buf_size c0 + buf_size nx\<rparr>, rest, m) }
          else Some (c0, ys, m0)
      | [] \<Rightarrow> Some (c0, ys, m0)) = Some (d1, ys', m1)"
    and N: "ys = N @ ys'" "length N \<le> 1" "\<forall>x \<in> set N. buf_status x = MemBufIdle" "erased N s m0 m1" "buf_addr d1 = buf_addr c0"
    "buf_status d1 = buf_status c0" "buf_size d1 = (case N of [] \<Rightarrow> buf_size c0 | x # _ \<Rightarrow> buf_size c0 + buf_size x)"
    by (rule combine_next [where c = c0, OF e0])
  have "mset (idle_of (idle_mem_bufs m1) s) + idles N = idle_bufs s pre + idles xs + idles ys' + idle_bufs s post + idles N"
    using N(1,4) idle0 by (auto simp: erased_def)
  then have idle1: "mset (idle_of (idle_mem_bufs m1) s) = idle_bufs s pre + idles xs + idles ys' + idle_bufs s post" by simp
  have e1: "idle_entry x \<in> set (idle_of (idle_mem_bufs m1) s)" if "x \<in> set xs" "buf_status x = MemBufIdle" for x
    unfolding set_mset_mset [symmetric] idle1 using that by (auto simp: idles_def)
  have d1: "buf_status d1 = MemBufIdle" using N by (simp add: c0_def)
  obtain P xs' d2 m2 where pv:
    "(if xs \<noteq> [] \<and> buf_status (last xs) = MemBufIdle
      then do {
        let pv = last xs;
        m \<leftarrow> EraseMemBufByStatus (buf_size pv) (buf_addr pv) MemBufIdle s m1;
        Some (pv\<lparr>buf_size := buf_size pv + buf_size d1\<rparr>, butlast xs, m) }
      else Some (d1, xs, m1)) = Some (d2, xs', m2)"
    and P: "xs = xs' @ P" "length P \<le> 1" "\<forall>x \<in> set P. buf_status x = MemBufIdle" "erased P s m1 m2"
    "buf_status d2 = MemBufIdle" "P = [] \<longrightarrow> d2 = d1"
    "\<forall>x. P = [x] \<longrightarrow> buf_addr d2 = buf_addr x \<and> buf_size d2 = buf_size x + buf_size d1"
    by (rule combine_prev [OF e1 d1])
  define m' where "m' = put_back_mem_buf d2 MemBufIdle (block_stream b) (put_block (b\<lparr>block_bufs := xs' @ d2 # ys'\<rparr>) m2)"
  have "CombineMemBuf (buf_addr c) MemBufUsed MemBufIdle p = Some (set_mng pers m' p)"
    unfolding CombineMemBuf_used [OF found d(3,5)] Let_def m_def [symmetric] s_def [symmetric] c0_def [symmetric] m0_def [symmetric]
      nx Option.bind.simps prod.case pv [unfolded Let_def] m'_def by (simp add: s_def)
  moreover have "buf_tiles u [d2] v" if "buf_tiles u (P @ c # N) v" "v < 2 ^ 64" for u v
    by (rule buf_tiles_join_both [OF that N(2) P(2), of d1]) (use N P in \<open>simp_all add: c0_def split: list.splits\<close>)
  then have "mng_ok m'" "used_bufs (mem_block_list m) = add_mset (used_entry c) (used_bufs (mem_block_list m'))"
    "block_ranges m' = block_ranges m" "mng_unit_size m' = mng_unit_size m"
    unfolding m'_def
    by (intro combined_ok [OF okm atm [unfolded N(1) P(1)] c _ _ P(5,3) N(3)]; use erased_trans [OF N(4) P(4)] in \<open>simp add: m0_def s_def\<close>)+
  ultimately show ?thesis by (auto simp: m_def)
qed

section \<open>The pool of two managers\<close>

definition bf_ranges :: "DynamicMemPoolBestFit \<Rightarrow> (device_ptr \<times> size_t) set" where
  "bf_ranges p = set (block_ranges (common_mem p)) \<union> set (block_ranges (persistent_mem p))"

definition bf_used :: "DynamicMemPoolBestFit \<Rightarrow> (device_ptr \<times> size_t) multiset" where
  "bf_used p = used_bufs (mem_block_list (common_mem p)) + used_bufs (mem_block_list (persistent_mem p))"

definition bf_ok :: "DynamicMemPoolBestFit \<Rightarrow> bool" where
  "bf_ok p \<longleftrightarrow> mng_ok (common_mem p) \<and> mng_ok (persistent_mem p) \<and>
     (\<forall>x \<in> set (block_ranges (common_mem p)). \<forall>y \<in> set (block_ranges (persistent_mem p)). disjoint_ranges x y) \<and>
     \<not> is_trigger_eager_free p \<and> 0 < mng_unit_size (common_mem p) \<and> 0 < mng_unit_size (persistent_mem p) \<and> 0 < config_unit_size p"

text \<open>
  What the pool needs of the device for one call that asks for \<open>sz\<close> bytes: eager free is off, and for the
  size of the block that the pool may ask for, the memory is not null, does not wrap and was not handed
  out before.
\<close>

definition fresh_block :: "bf_device \<Rightarrow> size_t \<Rightarrow> DynamicMemPoolBestFit \<Rightarrow> bool" where
  "fresh_block dev n p \<longleftrightarrow>
     (case AllocDeviceMem dev n of (r, a) \<Rightarrow>
        0 < r \<longrightarrow> a \<noteq> 0 \<and> unat a + unat r < 2 ^ 64 \<and> (\<forall>x \<in> bf_ranges p. disjoint_ranges x (a, r)))"

definition fresh_device :: "bf_device \<Rightarrow> size_t \<Rightarrow> DynamicMemPoolBestFit \<Rightarrow> bool" where
  "fresh_device dev sz p \<longleftrightarrow> \<not> IsEnableEagerFree dev \<and>
     (\<forall>from_persistent_mem n. bf_CalMemBlockAllocSize dev sz from_persistent_mem p = Some n \<longrightarrow> n \<noteq> 0 \<longrightarrow> fresh_block dev n p)"

lemma get_set_mng [simp]:
  "get_mng q (set_mng q m p) = m" "get_mng q (set_mng (\<not> q) m p) = get_mng q p" "get_mng (\<not> q) (set_mng q m p) = get_mng (\<not> q) p"
  "is_trigger_eager_free (set_mng q m p) = is_trigger_eager_free p" "config_unit_size (set_mng q m p) = config_unit_size p"
  "init_recycle_memory (set_mng q m p) = init_recycle_memory p"
  by (cases q; simp add: get_mng_def set_mng_def)+

lemma bf_ok_mng: "bf_ok p \<Longrightarrow> mng_ok (get_mng q p)"
  by (simp add: bf_ok_def get_mng_def)

lemma bf_used_mng: "bf_used p = used_bufs (mem_block_list (get_mng q p)) + used_bufs (mem_block_list (get_mng (\<not> q) p))"
  by (cases q) (simp_all add: bf_used_def get_mng_def)

lemma bf_ranges_mng: "bf_ranges p = set (block_ranges (get_mng q p)) \<union> set (block_ranges (get_mng (\<not> q) p))"
  by (cases q) (auto simp: bf_ranges_def get_mng_def)

lemma bf_ok_set_mng:
  assumes "bf_ok p" "mng_ok m" "0 < mng_unit_size m"
    "\<forall>x \<in> set (block_ranges m). \<forall>y \<in> set (block_ranges (get_mng (\<not> q) p)). disjoint_ranges x y"
  shows "bf_ok (set_mng q m p)"
  using assms by (cases q) (auto simp: bf_ok_def get_mng_def set_mng_def)

lemma bf_ok_apart:
  assumes "bf_ok p" "x \<in> set (block_ranges (get_mng q p))" "y \<in> set (block_ranges (get_mng (\<not> q) p))"
  shows "disjoint_ranges x y"
  using assms by (cases q) (auto simp: bf_ok_def get_mng_def)

lemma bf_ok_unit: "bf_ok p \<Longrightarrow> 0 < mng_unit_size (get_mng q p)"
  by (simp add: bf_ok_def get_mng_def)

lemma bf_ok_same_ranges:
  assumes "bf_ok p" "mng_ok m" "mng_unit_size m = mng_unit_size (get_mng q p)" "block_ranges m = block_ranges (get_mng q p)"
  shows "bf_ok (set_mng q m p)"
  using assms bf_ok_apart [OF assms(1), of _ q] bf_ok_unit [OF assms(1), of q] by (intro bf_ok_set_mng) auto

subsection \<open>Finding a buffer by its address\<close>

lemma FindMemBlock_mem: "FindMemBlock a m = Some b \<Longrightarrow> b \<in> set (mem_block_list m)"
  by (auto simp: FindMemBlock_def last_opt_def split: if_splits dest: set_takeWhileD [OF last_in_set])

lemma buf_in_block:
  assumes "blocks_ok bl" "b \<in> set bl" "c \<in> set (block_bufs b)"
  shows "unat (block_base b) \<le> unat (buf_addr c)" "buf_end c \<le> block_end b" "0 < unat (buf_size c)"
  using assms buf_tiles_mem [of "unat (block_base b)" "block_bufs b" "block_end b" c] by (auto simp: blocks_ok_def block_ok_def)

lemma FindByStrictAddr_at:
  assumes ok: "bf_ok p" and at: "at_buf (mem_block_list (get_mng q p)) pre b post xs c ys"
  shows "FindByStrictAddr (buf_addr c) p = Some (q, b, c)"
proof -
  note d = at_bufD [OF at]
  have here: "FindMemBlock (buf_addr c) (get_mng q p) = Some b" "buf_find (buf_addr c) (block_bufs b) = Some c"
    using FindMemBlock_buf [OF at] bufs_at(1) [OF d(5)] d(3) by simp_all
  have there: "buf_find (buf_addr c) (block_bufs b') = None" if b': "FindMemBlock (buf_addr c) (get_mng (\<not> q) p) = Some b'" for b'
  proof (rule ccontr)
    assume "buf_find (buf_addr c) (block_bufs b') \<noteq> None"
    then obtain c' where c': "c' \<in> set (block_bufs b')" "buf_addr c' = buf_addr c"
      by (auto simp: buf_find_def find_None_iff)
    have ok': "blocks_ok (mem_block_list (get_mng (\<not> q) p))" using bf_ok_mng [OF ok, of "\<not> q"] by (simp add: mng_ok_def)
    note bb = buf_in_block [OF ok' FindMemBlock_mem [OF b'] c'(1)]
    have "disjoint_ranges (block_base b, block_size b) (block_base b', block_size b')"
      using FindMemBlock_mem [OF b'] d(2) by (intro bf_ok_apart [OF ok, of _ q]) (auto simp: block_ranges_def)
    then show False using bb d(6,7,9) c'(2) by auto
  qed
  show ?thesis
  proof (cases q)
    case True
    then show ?thesis using here there
      by (cases "FindMemBlock (buf_addr c) (get_mng (\<not> q) p)") (auto simp: FindByStrictAddr_def Let_def)
  next
    case False
    then show ?thesis using here by (simp add: FindByStrictAddr_def Let_def)
  qed
qed

lemma used_entry_buf:
  assumes "(a, n) \<in># used_bufs bl" "blocks_ok bl"
  obtains pre b post xs c ys where "at_buf bl pre b post xs c ys" "buf_status c = MemBufUsed" "buf_size c = n" "buf_addr c = a"
proof -
  obtain b c where b: "b \<in> set bl" and c: "c \<in> set (block_bufs b)" "buf_status c = MemBufUsed" "buf_size c = n" "buf_addr c = a"
    using assms(1) by (auto simp: used_bufs_def useds_def)
  obtain pre post where "bl = pre @ b # post" using b by (meson split_list)
  moreover obtain xs ys where "block_bufs b = xs @ c # ys" using c(1) by (meson split_list)
  ultimately show thesis using that c(2-4) assms(2) unfolding at_buf_def by blast
qed

lemma bf_FreeTensorMem_ok:
  assumes ok: "bf_ok p" and held: "(a, n) \<in># bf_used p"
  shows "\<exists>p'. bf_FreeTensorMem a p = Some p' \<and> bf_ok p' \<and> bf_used p = add_mset (a, n) (bf_used p') \<and> bf_ranges p' = bf_ranges p"
proof -
  obtain q where q: "(a, n) \<in># used_bufs (mem_block_list (get_mng q p))" using held by (auto simp: bf_used_mng [of p True])
  have okm: "mng_ok (get_mng q p)" by (rule bf_ok_mng [OF ok])
  then have blk: "blocks_ok (mem_block_list (get_mng q p))" by (simp add: mng_ok_def)
  obtain pre b post xs c ys where at: "at_buf (mem_block_list (get_mng q p)) pre b post xs c ys"
    and c: "buf_status c = MemBufUsed" "buf_size c = n" "buf_addr c = a"
    by (rule used_entry_buf [OF q blk])
  obtain m' where m': "CombineMemBuf a MemBufUsed MemBufIdle p = Some (set_mng q m' p)" "mng_ok m'"
    "used_bufs (mem_block_list (get_mng q p)) = add_mset (a, n) (used_bufs (mem_block_list m'))"
    "block_ranges m' = block_ranges (get_mng q p)" "mng_unit_size m' = mng_unit_size (get_mng q p)"
    using CombineMemBuf_ok [OF okm at c(1) FindByStrictAddr_at [OF ok at]] c by auto
  have "bf_ok (set_mng q m' p)" by (rule bf_ok_same_ranges [OF ok m'(2,5,4)])
  moreover have "bf_used p = add_mset (a, n) (bf_used (set_mng q m' p))"
    using m'(3) by (simp add: bf_used_mng [of _ q])
  moreover have "bf_ranges (set_mng q m' p) = bf_ranges p" using m'(4) by (simp add: bf_ranges_mng [of _ q])
  ultimately show ?thesis using m'(1) by (simp add: bf_FreeTensorMem_def)
qed

section \<open>Allocation\<close>

text \<open>A call that asked for \<open>sz\<close> bytes and returned \<open>a\<close>.\<close>

definition bf_took :: "size_t \<Rightarrow> DynamicMemPoolBestFit \<Rightarrow> device_ptr \<Rightarrow> DynamicMemPoolBestFit \<Rightarrow> bool" where
  "bf_took sz p a p' \<longleftrightarrow> bf_ok p' \<and> init_recycle_memory p' = init_recycle_memory p \<and>
     (if a = 0 then bf_used p' = bf_used p \<and> bf_ranges p' = bf_ranges p
      else \<exists>n. sz \<le> n \<and> unat n < unat sz + 512 \<and> bf_used p' = add_mset (a, n) (bf_used p))"

text \<open>What a search for an idle buffer leaves as it is.\<close>

definition same_frame :: "DynamicMemPoolBestFit \<Rightarrow> DynamicMemPoolBestFit \<Rightarrow> bool" where
  "same_frame p p' \<longleftrightarrow> bf_ranges p' = bf_ranges p \<and> init_recycle_memory p' = init_recycle_memory p \<and>
     (\<forall>q. mng_unit_size (get_mng q p') = mng_unit_size (get_mng q p))"

lemma same_frame_trans: "same_frame p p1 \<Longrightarrow> same_frame p1 p2 \<Longrightarrow> same_frame p p2"
  by (simp add: same_frame_def)

lemma same_frame_mng:
  assumes "taken split sz s (get_mng q p) a m"
  shows "same_frame p (set_mng q m p)"
proof -
  have "mng_unit_size (get_mng k (set_mng q m p)) = mng_unit_size (get_mng k p)" for k
    using assms by (cases "k = q") (auto simp: taken_def get_mng_def set_mng_def)
  then show ?thesis using assms by (simp add: same_frame_def taken_def bf_ranges_mng [of _ q])
qed

lemma bf_unit_size: "bf_MemAllocUnitSize q p = mng_unit_size (get_mng q p)"
  by (simp add: bf_MemAllocUnitSize_def get_mng_def)

lemma same_frame_alloc_size: "same_frame p p' \<Longrightarrow> bf_CalMemBlockAllocSize dev sz q p' = bf_CalMemBlockAllocSize dev sz q p"
  unfolding bf_CalMemBlockAllocSize_def bf_unit_size by (simp add: same_frame_def)

lemma fresh_device_frame: "fresh_device dev sz p \<Longrightarrow> same_frame p p' \<Longrightarrow> fresh_device dev sz p'"
  by (simp add: fresh_device_def same_frame_alloc_size) (simp add: fresh_block_def same_frame_def)

lemma IsSplit_bound:
  assumes "sz \<le> n"
  shows "sz \<le> (if IsSplit sz n then sz else n)" "unat (if IsSplit sz n then sz else n) < unat sz + 512"
proof -
  show "sz \<le> (if IsSplit sz n then sz else n)" using assms by simp
  have "unat (n - sz) = unat n - unat sz" using assms by (simp add: unat_sub)
  then show "unat (if IsSplit sz n then sz else n) < unat sz + 512"
    by (auto simp: IsSplit_def kDynamicMemAlignSize_def word_le_nat_alt)
qed

lemma took_mng:
  assumes ok: "bf_ok p" and t: "taken (IsSplit sz) sz s (get_mng q p) a m"
  shows "bf_took sz p a (set_mng q m p)"
proof -
  have "bf_ok (set_mng q m p)" using t by (intro bf_ok_same_ranges [OF ok]) (simp_all add: taken_def)
  moreover have "bf_ranges (set_mng q m p) = bf_ranges p" using t by (simp add: taken_def bf_ranges_mng [of _ q])
  moreover have "bf_used (set_mng q m p) = used_bufs (mem_block_list m) + used_bufs (mem_block_list (get_mng (\<not> q) p))"
    by (simp add: bf_used_mng [of _ q])
  ultimately show ?thesis using t IsSplit_bound [of sz]
    by (fastforce simp: bf_took_def taken_def bf_used_mng [of p q] simp del: if_split split: if_split_asm)
qed

lemma took_trans:
  assumes "bf_took sz p 0 p1" "bf_took sz p1 a p2"
  shows "bf_took sz p a p2"
  using assms by (auto simp: bf_took_def)

lemma FindMemBufByStatus_ok:
  assumes "bf_ok p" "0 < sz"
  shows "\<exists>a p'. FindMemBufByStatus dbg sz q MemBufIdle s p = Some (a, p') \<and> bf_took sz p a p' \<and> same_frame p p'"
proof -
  obtain a m where 1: "FindMemBufInSpecifiedMng dbg sz q MemBufIdle s p = Some (a, set_mng q m p)" "taken (IsSplit sz) sz s (get_mng q p) a m"
    using FindMemBufInSpecifiedMng_ok [OF bf_ok_mng [OF assms(1)] assms(2)] by blast
  define p1 where "p1 = set_mng q m p"
  have t1: "bf_took sz p a p1" using took_mng [OF assms(1) 1(2)] by (simp add: p1_def)
  have f1: "same_frame p p1" unfolding p1_def by (rule same_frame_mng [OF 1(2)])
  show ?thesis
  proof (cases "a = 0 \<and> q \<and> mem_block_list (persistent_mem p1) \<noteq> []")
    case True
    have "bf_ok p1" using t1 by (simp add: bf_took_def)
    then obtain a2 m2 where 2: "FindMemBufInSpecifiedMng dbg sz (\<not> q) MemBufIdle s p1 = Some (a2, set_mng (\<not> q) m2 p1)"
      "taken (IsSplit sz) sz s (get_mng (\<not> q) p1) a2 m2"
      using FindMemBufInSpecifiedMng_ok [OF bf_ok_mng assms(2)] by blast
    have "bf_took sz p a2 (set_mng (\<not> q) m2 p1)"
      using took_trans [OF _ took_mng [OF \<open>bf_ok p1\<close> 2(2)]] t1 True by simp
    moreover have "FindMemBufByStatus dbg sz q MemBufIdle s p = Some (a2, set_mng (\<not> q) m2 p1)"
      unfolding FindMemBufByStatus_def 1(1) p1_def [symmetric] using 2(1) True by simp
    ultimately show ?thesis using same_frame_trans [OF f1 same_frame_mng [OF 2(2)]] by blast
  next
    case False
    then have "FindMemBufByStatus dbg sz q MemBufIdle s p = Some (a, p1)"
      unfolding FindMemBufByStatus_def 1(1) p1_def [symmetric] by auto
    with t1 f1 show ?thesis by blast
  qed
qed

lemma FindAvailableMemBuf_ok:
  assumes "bf_ok p" "0 < sz"
  shows "\<exists>a p'. FindAvailableMemBuf dev dbg sz q s p = Some (a, p') \<and> bf_took sz p a p' \<and> same_frame p p'"
proof -
  obtain a p' where *: "FindMemBufByStatus dbg sz q MemBufIdle s p = Some (a, p')" "bf_took sz p a p'" "same_frame p p'"
    using FindMemBufByStatus_ok [OF assms] by blast
  then have "\<not> is_trigger_eager_free p'" by (simp add: bf_took_def bf_ok_def)
  with * show ?thesis by (simp add: FindAvailableMemBuf_def)
qed

lemma bf_CalMemBlockAllocSize_ok:
  assumes "bf_ok p" "sz \<le> 2 ^ 63"
  shows "\<exists>n. bf_CalMemBlockAllocSize dev sz q p = Some n"
proof -
  have "0 < bf_MemAllocUnitSize q p" using bf_ok_unit [OF assms(1), of q] by (cases q) (simp_all add: bf_MemAllocUnitSize_def get_mng_def)
  then show ?thesis using grow_double_returns [OF _ assms(2)] by (fastforce simp: bf_CalMemBlockAllocSize_def)
qed

lemma new_block_took:
  assumes ok: "bf_ok p" and dev: "fresh_block dev n p" "AllocDeviceMem dev n = (r, a)" and sz: "0 < sz" "sz \<le> r"
  shows "\<exists>p'. CreateMemBlockAndMemBuf dbg sz q a r MemBufIdle s p = Some (a, p') \<and> bf_took sz p a p' \<and> a \<noteq> 0"
proof -
  have "0 < r" using sz by (auto simp: word_less_nat_alt word_le_nat_alt)
  then have a: "a \<noteq> 0" "unat a + unat r < 2 ^ 64" and dis: "\<forall>x \<in> bf_ranges p. disjoint_ranges x (a, r)"
    using dev by (auto simp: fresh_block_def)
  have "\<forall>(b, k) \<in> set (block_ranges (get_mng q p)). unat b + unat k \<le> unat a \<or> unat a + unat r \<le> unat b"
  proof clarify
    fix b k assume "(b, k) \<in> set (block_ranges (get_mng q p))" "\<not> unat a + unat r \<le> unat b"
    moreover then have "(b, k) \<in> bf_ranges p" by (simp add: bf_ranges_mng [of p q])
    ultimately show "unat b + unat k \<le> unat a" using dis by fastforce
  qed
  then obtain m where m: "CreateMemBlockAndMemBuf dbg sz q a r MemBufIdle s p = Some (a, set_mng q m p)" "mng_ok m"
    "used_bufs (mem_block_list m) = add_mset (a, if IsSplit sz r then sz else r) (used_bufs (mem_block_list (get_mng q p)))"
    "set (block_ranges m) = insert (a, r) (set (block_ranges (get_mng q p)))" "mng_unit_size m = mng_unit_size (get_mng q p)"
    using CreateMemBlockAndMemBuf_ok [OF bf_ok_mng [OF ok] a sz, of q dbg s] unfolding added_def by blast
  have "bf_ok (set_mng q m p)"
    using m(2,4,5) dis bf_ok_unit [OF ok, of q] bf_ok_apart [OF ok, of _ q]
    by (intro bf_ok_set_mng [OF ok]) (auto simp: bf_ranges_mng [of p q])
  moreover have "bf_used (set_mng q m p) = add_mset (a, if IsSplit sz r then sz else r) (bf_used p)"
    using m(3) by (simp add: bf_used_mng [of _ q])
  ultimately have "bf_took sz p a (set_mng q m p)"
    using a(1) IsSplit_bound [OF sz(2)] unfolding bf_took_def by auto
  with m(1) a(1) show ?thesis by blast
qed

lemma reset_unit_took:
  assumes "bf_ok p"
  shows "bf_took sz p 0 (p\<lparr>common_mem := (common_mem p)\<lparr>mng_unit_size := config_unit_size p\<rparr>\<rparr>)"
  using assms by (simp add: bf_took_def bf_ok_def mng_ok_def block_ranges_def bf_used_def bf_ranges_def)

lemma AddMemBlockAndMemBuf_ok:
  assumes ok: "bf_ok p" and dev: "fresh_device dev sz p" and sz: "0 < sz" "sz \<le> 2 ^ 63"
  shows "\<exists>a p'. AddMemBlockAndMemBuf dev dbg sz q need_recycle s p = Some (a, p') \<and> bf_took sz p a p'"
proof -
  define q' where "q' = (if q \<and> \<not> need_recycle \<and> \<not> Empty_mng (persistent_mem p) then False else q)"
  have off: "\<not> is_trigger_eager_free p" "\<not> IsEnableEagerFree dev" using ok dev by (simp_all add: bf_ok_def fresh_device_def)
  obtain n where n: "bf_CalMemBlockAllocSize dev sz q' p = Some n" using bf_CalMemBlockAllocSize_ok [OF ok sz(2)] by blast
  have failed: "bf_took sz p 0 p" using ok by (simp add: bf_took_def)
  show ?thesis
  proof (cases "n = 0")
    case True
    obtain a p' where "FindAvailableMemBuf dev dbg sz (\<not> q') s p = Some (a, p')" "bf_took sz p a p'"
      using FindAvailableMemBuf_ok [OF ok sz(1)] by blast
    then show ?thesis using True off n by (auto simp: AddMemBlockAndMemBuf_def q'_def [symmetric] Let_def)
  next
    case False
    obtain r a where ra: "AllocDeviceMem dev n = (r, a)" by fastforce
    show ?thesis
    proof (cases "r < sz")
      case True
      then show ?thesis using False ra failed off n by (simp add: AddMemBlockAndMemBuf_def q'_def [symmetric])
    next
      case r: False
      define p1 where "p1 = p\<lparr>common_mem := (common_mem p)\<lparr>mng_unit_size := config_unit_size p\<rparr>\<rparr>"
      have t: "bf_took sz p 0 p1" unfolding p1_def by (rule reset_unit_took [OF ok])
      then have p1: "bf_ok p1" "bf_ranges p1 = bf_ranges p" by (simp_all add: bf_took_def)
      have "fresh_block dev n p" using dev n False by (simp add: fresh_device_def)
      then have "fresh_block dev n p1" using p1(2) by (simp add: fresh_block_def)
      then obtain p' where "CreateMemBlockAndMemBuf dbg sz q' a r MemBufIdle s p1 = Some (a, p')" "bf_took sz p1 a p'"
        using new_block_took [OF p1(1) _ ra sz(1)] r by (metis not_less)
      then show ?thesis using False ra r took_trans [OF t] off n
        by (simp add: AddMemBlockAndMemBuf_def q'_def [symmetric] p1_def)
    qed
  qed
qed

lemma bf_AlignMemorySize_eq: "bf_AlignMemorySize = AlignMemorySize"
  by (simp add: fun_eq_iff bf_AlignMemorySize_def AlignMemorySize_def)

lemma aligned_request:
  assumes "unat sz \<le> 2 ^ 62"
  shows "0 < bf_AlignMemorySize sz" "bf_AlignMemorySize sz \<le> 2 ^ 63" "sz \<le> bf_AlignMemorySize sz"
  using unat_AlignMemorySize [of sz] assms
  by (auto simp: bf_AlignMemorySize_eq word_less_nat_alt word_le_nat_alt div_greater_zero_iff unat_gt_0 Suc_le_eq split: if_splits)

text \<open>
  The buffer that the search of a request finds, 0 without one. The first request of recycled memory
  drops this buffer and asks the device.
\<close>

definition bf_found ::
    "bf_device \<Rightarrow> AllocatorDebugInfo \<Rightarrow> size_t \<Rightarrow> bool \<Rightarrow> uint32 \<Rightarrow> DynamicMemPoolBestFit \<Rightarrow> device_ptr option" where
  "bf_found dev dbg sz from_persistent_mem stream_id p =
     map_option fst (FindAvailableMemBuf dev dbg (bf_AlignMemorySize sz) from_persistent_mem
       (if stream_id = - 1 then kDefaultStreamIndex else stream_id) p)"

lemma bf_ok_recycle [simp]:
  "bf_ok (p\<lparr>init_recycle_memory := v\<rparr>) = bf_ok p" "bf_used (p\<lparr>init_recycle_memory := v\<rparr>) = bf_used p"
  "fresh_device dev sz (p\<lparr>init_recycle_memory := v\<rparr>) = fresh_device dev sz p"
  by (simp_all add: bf_ok_def bf_used_def bf_ranges_def fresh_device_def fresh_block_def bf_CalMemBlockAllocSize_def bf_MemAllocUnitSize_def)

lemma bf_AllocTensorMem_split:
  assumes ok: "bf_ok p" and sz: "unat sz \<le> 2 ^ 62"
  obtains a p1 where "bf_found dev dbg sz q s p = Some a" "bf_took (bf_AlignMemorySize sz) p a p1" "same_frame p p1"
    "bf_AllocTensorMem dev dbg sz q need_recycle s p =
       (if need_recycle \<and> \<not> init_recycle_memory p
        then AddMemBlockAndMemBuf dev dbg (bf_AlignMemorySize sz) q need_recycle (if s = - 1 then kDefaultStreamIndex else s)
               (p1\<lparr>init_recycle_memory := True\<rparr>)
        else if a = 0
        then AddMemBlockAndMemBuf dev dbg (bf_AlignMemorySize sz) q need_recycle (if s = - 1 then kDefaultStreamIndex else s) p1
        else Some (a, p1))"
proof -
  obtain a p1 where *: "FindAvailableMemBuf dev dbg (bf_AlignMemorySize sz) q (if s = - 1 then kDefaultStreamIndex else s) p = Some (a, p1)"
    "bf_took (bf_AlignMemorySize sz) p a p1" "same_frame p p1"
    using FindAvailableMemBuf_ok [OF ok aligned_request(1) [OF sz]] by blast
  then have "init_recycle_memory p1 = init_recycle_memory p" by (simp add: same_frame_def)
  with * show thesis by (intro that [of a p1]) (auto simp: bf_found_def bf_AllocTensorMem_def Let_def)
qed

text \<open>What a request adds: no range, or one of the aligned size and less than 512 bytes more.\<close>

definition bf_gives :: "size_t \<Rightarrow> DynamicMemPoolBestFit \<Rightarrow> device_ptr \<Rightarrow> DynamicMemPoolBestFit \<Rightarrow> bool" where
  "bf_gives sz p a p' \<longleftrightarrow> bf_ok p' \<and>
     (if a = 0 then bf_used p' = bf_used p
      else \<exists>n. sz \<le> n \<and> unat n < unat sz + 512 \<and> bf_used p' = add_mset (a, n) (bf_used p))"

lemma took_gives: "bf_took sz p a p' \<Longrightarrow> bf_gives sz p a p'"
  by (auto simp: bf_took_def bf_gives_def)

lemma bf_AllocTensorMem_ok:
  assumes ok: "bf_ok p" and dev: "bf_found dev dbg sz q s p = Some 0 \<Longrightarrow> fresh_device dev (bf_AlignMemorySize sz) p"
    and sz: "unat sz \<le> 2 ^ 62" and recycled: "need_recycle \<longrightarrow> init_recycle_memory p \<or> bf_found dev dbg sz q s p = Some 0"
  shows "\<exists>a p'. bf_AllocTensorMem dev dbg sz q need_recycle s p = Some (a, p') \<and> bf_gives (bf_AlignMemorySize sz) p a p'"
proof -
  note al = aligned_request [OF sz]
  obtain a p1 where 1: "bf_found dev dbg sz q s p = Some a" "bf_took (bf_AlignMemorySize sz) p a p1" "same_frame p p1"
    "bf_AllocTensorMem dev dbg sz q need_recycle s p =
       (if need_recycle \<and> \<not> init_recycle_memory p
        then AddMemBlockAndMemBuf dev dbg (bf_AlignMemorySize sz) q need_recycle (if s = - 1 then kDefaultStreamIndex else s)
               (p1\<lparr>init_recycle_memory := True\<rparr>)
        else if a = 0
        then AddMemBlockAndMemBuf dev dbg (bf_AlignMemorySize sz) q need_recycle (if s = - 1 then kDefaultStreamIndex else s) p1
        else Some (a, p1))"
    by (rule bf_AllocTensorMem_split [OF ok sz])
  show ?thesis
  proof (cases "a = 0")
    case True
    define p2 where "p2 = (if need_recycle \<and> \<not> init_recycle_memory p then p1\<lparr>init_recycle_memory := True\<rparr> else p1)"
    have "bf_ok p2" "fresh_device dev (bf_AlignMemorySize sz) p2" "bf_used p2 = bf_used p"
      using 1(1,2) True dev fresh_device_frame [OF _ 1(3)] by (simp_all add: bf_took_def p2_def)
    then obtain a2 p3 where 3: "AddMemBlockAndMemBuf dev dbg (bf_AlignMemorySize sz) q need_recycle (if s = - 1 then kDefaultStreamIndex else s) p2 = Some (a2, p3)"
      "bf_took (bf_AlignMemorySize sz) p2 a2 p3"
      using AddMemBlockAndMemBuf_ok [OF _ _ al(1,2)] by blast
    have "bf_AllocTensorMem dev dbg sz q need_recycle s p = Some (a2, p3)" using 3(1) True unfolding 1(4) p2_def
      by (cases "need_recycle \<and> \<not> init_recycle_memory p") auto
    moreover have "bf_gives (bf_AlignMemorySize sz) p a2 p3"
      using took_gives [OF 3(2)] \<open>bf_used p2 = bf_used p\<close> by (auto simp: bf_gives_def split: if_splits)
    ultimately show ?thesis by blast
  next
    case False
    then have "bf_AllocTensorMem dev dbg sz q need_recycle s p = Some (a, p1)" using 1(1,4) recycled by auto
    then show ?thesis using took_gives [OF 1(2)] by blast
  qed
qed

text \<open>
  The first request of recycled memory that finds an idle buffer takes this buffer into use, drops it and
  asks the device: the buffer is used, and nobody has its address.
\<close>

lemma bf_AllocTensorMem_loses:
  assumes ok: "bf_ok p" and dev: "fresh_device dev (bf_AlignMemorySize sz) p" and sz: "unat sz \<le> 2 ^ 62"
    and first: "\<not> init_recycle_memory p" and found: "bf_found dev dbg sz q s p = Some b" "b \<noteq> 0"
  shows "\<exists>a p' n. bf_AllocTensorMem dev dbg sz q True s p = Some (a, p') \<and> bf_AlignMemorySize sz \<le> n \<and>
    (if a = 0 then bf_used p' = add_mset (b, n) (bf_used p)
     else \<exists>k. bf_AlignMemorySize sz \<le> k \<and> bf_used p' = add_mset (a, k) (add_mset (b, n) (bf_used p)))"
proof -
  note al = aligned_request [OF sz]
  obtain a p1 where 1: "bf_found dev dbg sz q s p = Some a" "bf_took (bf_AlignMemorySize sz) p a p1" "same_frame p p1"
    "bf_AllocTensorMem dev dbg sz q True s p =
       (if True \<and> \<not> init_recycle_memory p
        then AddMemBlockAndMemBuf dev dbg (bf_AlignMemorySize sz) q True (if s = - 1 then kDefaultStreamIndex else s)
               (p1\<lparr>init_recycle_memory := True\<rparr>)
        else if a = 0
        then AddMemBlockAndMemBuf dev dbg (bf_AlignMemorySize sz) q True (if s = - 1 then kDefaultStreamIndex else s) p1
        else Some (a, p1))"
    by (rule bf_AllocTensorMem_split [OF ok sz])
  have ab: "a = b" using 1(1) found(1) by simp
  obtain n where n: "bf_AlignMemorySize sz \<le> n" "bf_used p1 = add_mset (b, n) (bf_used p)"
    using 1(2) found(2) ab by (auto simp: bf_took_def)
  have "bf_ok (p1\<lparr>init_recycle_memory := True\<rparr>)" "fresh_device dev (bf_AlignMemorySize sz) (p1\<lparr>init_recycle_memory := True\<rparr>)"
    using 1(2) dev fresh_device_frame [OF _ 1(3)] by (simp_all add: bf_took_def)
  from AddMemBlockAndMemBuf_ok [OF this al(1,2)] obtain a2 p2 where 2: "AddMemBlockAndMemBuf dev dbg (bf_AlignMemorySize sz) q True (if s = - 1 then kDefaultStreamIndex else s)
       (p1\<lparr>init_recycle_memory := True\<rparr>) = Some (a2, p2)" "bf_took (bf_AlignMemorySize sz) (p1\<lparr>init_recycle_memory := True\<rparr>) a2 p2"
    by blast
  have "bf_AllocTensorMem dev dbg sz q True s p = Some (a2, p2)" using 2(1) first unfolding 1(4) by simp
  then show ?thesis using n 2(2) by (intro exI [of _ a2] exI [of _ p2] exI [of _ n]) (auto simp: bf_took_def)
qed

end
