(* ===== verification/Best_Fit_Opt_Ops.thy ===== *)
theory Best_Fit_Opt_Ops
  imports Best_Fit_Opt Best_Fit_Ops
begin

text \<open>
  The optimised pool seen as a \<open>DynamicMemPoolBestFit\<close>: the vectors become maps with the keys 0 to 127.
  \<open>CombineMemBuf\<close> is the same function under this abstraction wherever it leaves no pointer to a deleted
  buffer, which is the case for the release of a used buffer; the other operations keep the invariant of
  the abstraction.
\<close>

section \<open>Abstraction\<close>

fun enum_from :: "nat \<Rightarrow> 'a list \<Rightarrow> (uint32 \<times> 'a) list" where
  "enum_from k [] = []"
| "enum_from k (x # xs) = (of_nat k, x) # enum_from (Suc k) xs"

definition abs_mng :: "opt_manager \<Rightarrow> MemStatusManager" where
  "abs_mng m = \<lparr>mng_unit_size = o_unit_size m, mps = o_mps m, mem_block_list = o_block_list m, mem_blocks = [],
     idle_mem_bufs = enum_from 0 (o_idle m), eager_free_mem_bufs = enum_from 0 (o_eager m)\<rparr>"

definition abs_pool :: "DynamicMemPoolBestFitOpt \<Rightarrow> DynamicMemPoolBestFit" where
  "abs_pool p = \<lparr>persistent_mem = abs_mng (o_persistent p), common_mem = abs_mng (o_common p),
     config_unit_size = o_config_unit_size p, is_trigger_eager_free = o_trigger_eager_free p,
     init_recycle_memory = o_init_recycle p, mem_bufs = o_mem_bufs p\<rparr>"

text \<open>All streams have their maps, and every block belongs to one of the streams.\<close>

definition mng_wf :: "opt_manager \<Rightarrow> bool" where
  "mng_wf m \<longleftrightarrow> length (o_blocks m) = 128 \<and> length (o_idle m) = 128 \<and> length (o_eager m) = 128 \<and>
     (\<forall>b \<in> set (o_block_list m). unat (block_stream b) < 128)"

definition opt_wf :: "DynamicMemPoolBestFitOpt \<Rightarrow> bool" where
  "opt_wf p \<longleftrightarrow> mng_wf (o_common p) \<and> mng_wf (o_persistent p)"

lemma map_of_enum_from:
  "k + length v \<le> 2 ^ 32 \<Longrightarrow> map_of (enum_from k v) s = (if k \<le> unat s \<and> unat s < k + length v then Some (v ! (unat s - k)) else None)"
proof (induction v arbitrary: k)
  case (Cons x v)
  then have "unat (of_nat k :: uint32) = k" by (simp add: unat_of_nat)
  then have "of_nat k = s \<longleftrightarrow> unat s = k" by auto
  with Cons show ?case by (auto simp: nth_Cons' Suc_le_eq)
qed simp

lemma smap_set_enum_from:
  "k + length v \<le> 2 ^ 32 \<Longrightarrow> k \<le> unat s \<Longrightarrow> unat s < k + length v \<Longrightarrow>
   smap_set s x (enum_from k v) = enum_from k (v[unat s - k := x])"
proof (induction v arbitrary: k)
  case (Cons y v)
  then have k: "unat (of_nat k :: uint32) = k" by (simp add: unat_of_nat)
  then have "\<not> s < of_nat k" "s = of_nat k \<longleftrightarrow> unat s = k" using Cons.prems by (auto simp: word_less_nat_alt)
  moreover have "unat s - k = Suc (unat s - Suc k)" if "unat s \<noteq> k" using that Cons.prems by linarith
  ultimately show ?case using Cons by auto
qed simp

lemma abs_mng_simps [simp]:
  "mng_unit_size (abs_mng m) = o_unit_size m" "mps (abs_mng m) = o_mps m" "mem_block_list (abs_mng m) = o_block_list m"
  "abs_mng (m\<lparr>o_mps := d\<rparr>) = (abs_mng m)\<lparr>mps := d\<rparr>" "abs_mng (m\<lparr>o_block_list := bl\<rparr>) = (abs_mng m)\<lparr>mem_block_list := bl\<rparr>"
  "abs_mng (m\<lparr>o_unit_size := u\<rparr>) = (abs_mng m)\<lparr>mng_unit_size := u\<rparr>"
  by (simp_all add: abs_mng_def)

lemma abs_put_block [simp]: "abs_mng (opt_put_block b m) = put_block b (abs_mng m)"
  by (simp add: opt_put_block_def put_block_def)

lemma abs_get_set [simp]:
  "get_mng q (abs_pool p) = abs_mng (opt_mng q p)" "abs_pool (opt_set_mng q m p) = set_mng q (abs_mng m) (abs_pool p)"
  by (simp_all add: get_mng_def set_mng_def opt_mng_def opt_set_mng_def abs_pool_def)

lemma abs_FindMemBlock: "opt_FindMemBlock a m = FindMemBlock a (abs_mng m)"
  by (simp add: opt_FindMemBlock_def FindMemBlock_def opt_CmpMemBlock_def CmpMemBlock_def)

lemma abs_find_addr: "opt_find_addr a p = FindByStrictAddr a (abs_pool p)"
  by (simp add: opt_find_addr_def FindByStrictAddr_def abs_FindMemBlock)

lemma wf_mng: "opt_wf p \<Longrightarrow> mng_wf (opt_mng q p)" "opt_wf p \<Longrightarrow> mng_wf m \<Longrightarrow> opt_wf (opt_set_mng q m p)"
  by (auto simp: opt_wf_def opt_mng_def opt_set_mng_def)

lemma wf_simps [simp]:
  "mng_wf (m\<lparr>o_mps := d\<rparr>) = mng_wf m"
  "mng_wf m \<Longrightarrow> length v = 128 \<Longrightarrow> mng_wf (m\<lparr>o_idle := v\<rparr>)" "mng_wf m \<Longrightarrow> length v = 128 \<Longrightarrow> mng_wf (m\<lparr>o_eager := v\<rparr>)"
  "mng_wf m \<Longrightarrow> unat (block_stream b) < 128 \<Longrightarrow> mng_wf (opt_put_block b m)"
  by (auto simp: mng_wf_def opt_put_block_def)

lemma abs_vectors:
  assumes "length v = 128" "unat s < 128"
  shows "abs_mng (m\<lparr>o_idle := v[unat s := x]\<rparr>) = (abs_mng m)\<lparr>idle_mem_bufs := smap_set s x (enum_from 0 v)\<rparr>"
    "abs_mng (m\<lparr>o_eager := v[unat s := x]\<rparr>) = (abs_mng m)\<lparr>eager_free_mem_bufs := smap_set s x (enum_from 0 v)\<rparr>"
    "map_of (enum_from 0 v) s = Some (v ! unat s)"
  using assms by (simp_all add: abs_mng_def smap_set_enum_from map_of_enum_from)

section \<open>Operations on a manager\<close>

lemma abs_add:
  assumes "mng_wf m" "unat s < 128"
  shows "\<exists>m'. opt_add_idle c s m = Some m' \<and> mng_wf m' \<and> AddIdleMemBuf c s (abs_mng m) = abs_mng m'"
    "\<exists>m'. opt_add_eager c s m = Some m' \<and> mng_wf m' \<and> AddEagerFreeMemBuf c s (abs_mng m) = abs_mng m'"
proof -
  have len: "length (o_idle m) = 128" "length (o_eager m) = 128" using assms(1) by (simp_all add: mng_wf_def)
  note v = abs_vectors [OF len(1) assms(2)] abs_vectors [OF len(2) assms(2)]
  show "\<exists>m'. opt_add_idle c s m = Some m' \<and> mng_wf m' \<and> AddIdleMemBuf c s (abs_mng m) = abs_mng m'"
    using assms len v(1,3) by (simp add: opt_add_idle_def vec_upd_def AddIdleMemBuf_def AddMemBuf_def abs_mng_def)
  show "\<exists>m'. opt_add_eager c s m = Some m' \<and> mng_wf m' \<and> AddEagerFreeMemBuf c s (abs_mng m) = abs_mng m'"
    using assms len v(5,6) by (simp add: opt_add_eager_def vec_upd_def AddEagerFreeMemBuf_def AddMemBuf_def abs_mng_def)
qed

lemma abs_erase:
  assumes "mng_wf m" "unat s < 128"
  shows "\<exists>m'. opt_EraseMemBufByStatus sz a t s m = Some m' \<and> mng_wf m' \<and> EraseMemBufByStatus sz a t s (abs_mng m) = Some (abs_mng m')"
proof -
  have len: "length (o_idle m) = 128" "length (o_eager m) = 128" using assms(1) by (simp_all add: mng_wf_def)
  note v = abs_vectors [OF len(1) assms(2)] abs_vectors [OF len(2) assms(2)]
  have f: "idle_mem_bufs (abs_mng m) = enum_from 0 (o_idle m)" "eager_free_mem_bufs (abs_mng m) = enum_from 0 (o_eager m)"
    by (simp_all add: abs_mng_def)
  have same: "abs_mng m = (abs_mng m)\<lparr>idle_mem_bufs := enum_from 0 (o_idle m)\<rparr>" "abs_mng m = (abs_mng m)\<lparr>eager_free_mem_bufs := enum_from 0 (o_eager m)\<rparr>"
    by (simp_all add: abs_mng_def)
  show ?thesis
    using assms len v(1,3,5,6) same
    by (auto simp: opt_EraseMemBufByStatus_def EraseMemBufByStatus_def opt_RemoveDeviceMem_def RemoveDeviceMem_def vec_at_def vec_upd_def f)
qed

lemma abs_put_back:
  assumes "mng_wf m" "unat s < 128"
  shows "\<exists>m'. opt_put_back c t s m = Some m' \<and> mng_wf m' \<and> put_back_mem_buf c t s (abs_mng m) = abs_mng m'"
proof (cases t)
  case MemBufIdle
  then show ?thesis using abs_add(1) [OF assms, of c] by (auto simp: opt_put_back_def put_back_mem_buf_def Let_def)
next
  case MemBufEagerFree
  then show ?thesis using abs_add(2) [OF assms, of c] by (auto simp: opt_put_back_def put_back_mem_buf_def Let_def)
qed (use assms in \<open>simp add: opt_put_back_def put_back_mem_buf_def\<close>)

section \<open>Pointers to deleted buffers\<close>

definition unreferenced :: "DynamicMemBufStatus \<Rightarrow> device_ptr \<Rightarrow> opt_manager \<Rightarrow> bool" where
  "unreferenced t a m \<longleftrightarrow> a \<notin> snd ` set (concat (if t = MemBufIdle then o_idle m else o_eager m))"

lemma opt_delete_unreferenced: "unreferenced t a m \<Longrightarrow> opt_delete t a m = Some m"
  unfolding unreferenced_def opt_delete_def by simp

lemma unreferenced_put_block [simp]: "unreferenced t a (opt_put_block b m) = unreferenced t a m"
  by (simp add: unreferenced_def opt_put_block_def)

text \<open>Erasing an entry leaves no new pointers.\<close>

lemma in_concat_nth: "e \<in> set (concat v) \<longleftrightarrow> (\<exists>i < length v. e \<in> set (v ! i))"
  by (metis (no_types, lifting) UN_E UN_I in_set_conv_nth nth_mem set_concat)

lemma RemoveDeviceMem_subset:
  assumes "opt_RemoveDeviceMem sz a s v = Some (b, v')"
  shows "set (concat v') \<subseteq> set (concat v)"
proof
  fix e assume "e \<in> set (concat v')"
  then obtain i where i: "i < length v'" "e \<in> set (v' ! i)" unfolding in_concat_nth by blast
  have "length v' = length v \<and> set (v' ! i) \<subseteq> set (v ! i)"
    using assms i(1) by (auto simp: opt_RemoveDeviceMem_def vec_at_def vec_upd_def nth_list_update
        dest: set_remove1_subset [THEN subsetD] split: if_splits)
  then show "e \<in> set (concat v)" using i unfolding in_concat_nth by auto
qed

lemma erase_unreferenced:
  assumes "opt_EraseMemBufByStatus sz a' t s m = Some m'" "unreferenced t a m"
  shows "unreferenced t a m'"
proof (cases "t = MemBufIdle")
  case True
  then obtain x v where "opt_RemoveDeviceMem sz a' s (o_idle m) = Some (x, v)" "o_idle m' = v"
    using assms(1) by (auto simp: opt_EraseMemBufByStatus_def bind_eq_Some_conv)
  from RemoveDeviceMem_subset [OF this(1)] this(2) show ?thesis using assms(2) True unfolding unreferenced_def by auto
next
  case False
  then obtain x v where "opt_RemoveDeviceMem sz a' s (o_eager m) = Some (x, v)" "o_eager m' = v"
    using assms(1) by (auto simp: opt_EraseMemBufByStatus_def bind_eq_Some_conv)
  from RemoveDeviceMem_subset [OF this(1)] this(2) show ?thesis using assms(2) False unfolding unreferenced_def by auto
qed

text \<open>A buffer of a list of blocks is determined by its address, so no idle entry occurs twice.\<close>

lemma at_buf_unique:
  assumes "at_buf bl pre b post xs c ys" "at_buf bl pre' b' post' xs' c' ys'" "buf_addr c' = buf_addr c"
  shows "b' = b" "c' = c"
proof -
  define m where "m = MemStatusManager0\<lparr>mem_block_list := bl\<rparr>"
  have bl: "mem_block_list m = bl" by (simp add: m_def)
  note one = assms(1) [folded bl] and two = assms(2) [folded bl]
  show "b' = b" using FindMemBlock_buf [OF one] FindMemBlock_buf [OF two] assms(3) by simp
  show "c' = c" using get_buf_at [OF one] get_buf_at [OF two] assms(3) by simp
qed

lemma buf_tiles_distinct:
  fixes cs :: "DynamicMemBuf list" and u v :: nat
  shows "buf_tiles u cs v \<Longrightarrow> distinct (map buf_addr cs)"
proof (induction cs arbitrary: u)
  case (Cons c cs)
  have t: "buf_tiles (buf_end c) cs v" using Cons.prems by auto
  have "0 < unat (buf_size c)" using Cons.prems by auto
  then have "buf_addr c \<noteq> buf_addr x" if "x \<in> set cs" for x using buf_tiles_mem [OF t that] by auto
  then show ?case using Cons.IH [OF t] by auto
qed simp

lemma blocks_bufs_distinct: "blocks_ok bl \<Longrightarrow> distinct (map buf_addr (concat (map block_bufs bl)))"
proof (induction bl)
  case (Cons b bl)
  then have ok: "block_ok b" "blocks_ok bl" "\<forall>x \<in> set bl. block_end b \<le> unat (block_base x)"
    by (simp_all add: blocks_ok_def)
  have "buf_addr x \<noteq> buf_addr y" if x: "x \<in> set (block_bufs b)" and y: "y \<in> set (block_bufs b')" "b' \<in> set bl" for x y b'
    using buf_in_block [OF Cons.prems _ x] buf_in_block(1) [OF ok(2) y(2,1)] ok(3) y(2) by fastforce
  then show ?case using Cons.IH [OF ok(2)] buf_tiles_distinct ok(1) by (auto simp: block_ok_def)
qed simp

lemma idle_bufs_distinct:
  assumes "blocks_ok bl" "mset mm = idle_bufs s bl"
  shows "distinct mm"
proof -
  have "distinct (map buf_addr (concat (map block_bufs (filter (\<lambda>b. block_stream b = s) bl))))"
    using blocks_bufs_distinct [OF assms(1)] by (induction bl) auto
  then have "distinct (map idle_entry (filter (\<lambda>c. buf_status c = MemBufIdle) (concat (map block_bufs (filter (\<lambda>b. block_stream b = s) bl)))))"
    by (auto simp: distinct_map inj_on_def)
  then show ?thesis using mset_eq_imp_distinct_iff [OF assms(2) [unfolded idle_bufs_def idles_def]] by blast
qed

section \<open>CombineMemBuf is the same\<close>

text \<open>The part of \<open>CombineMemBuf\<close> behind the search of the buffer, on a manager.\<close>

definition combine_mng :: "DynamicMemBlock \<Rightarrow> DynamicMemBuf list \<Rightarrow> DynamicMemBuf \<Rightarrow> DynamicMemBuf list \<Rightarrow> DynamicMemBufStatus \<Rightarrow>
    MemStatusManager \<Rightarrow> MemStatusManager option" where
  "combine_mng b before buf behind t m = do {
     (buf, behind, m) \<leftarrow>
       (case behind of
          nx # rest \<Rightarrow>
            if buf_status nx = t
            then do { m \<leftarrow> EraseMemBufByStatus (buf_size nx) (buf_addr nx) t (block_stream b) m; Some (buf\<lparr>buf_size := buf_size buf + buf_size nx\<rparr>, rest, m) }
            else Some (buf, behind, m)
        | [] \<Rightarrow> Some (buf, behind, m));
     (buf, before, m) \<leftarrow>
       (if before \<noteq> [] \<and> buf_status (last before) = t
        then do {
          let pv = last before;
          m \<leftarrow> EraseMemBufByStatus (buf_size pv) (buf_addr pv) t (block_stream b) m;
          Some (pv\<lparr>buf_size := buf_size pv + buf_size buf\<rparr>, butlast before, m) }
        else Some (buf, before, m));
     Some (put_back_mem_buf buf t (block_stream b) (put_block (b\<lparr>block_bufs := before @ buf # behind\<rparr>) m)) }"

definition opt_combine_mng :: "DynamicMemBlock \<Rightarrow> DynamicMemBuf list \<Rightarrow> DynamicMemBuf \<Rightarrow> DynamicMemBuf list \<Rightarrow> DynamicMemBufStatus \<Rightarrow>
    opt_manager \<Rightarrow> opt_manager option" where
  "opt_combine_mng b before buf behind t m = do {
     (buf, behind, m) \<leftarrow>
       (case behind of
          nx # rest \<Rightarrow>
            if buf_status nx = t
            then do {
              m \<leftarrow> opt_EraseMemBufByStatus (buf_size nx) (buf_addr nx) t (block_stream b) m;
              m \<leftarrow> opt_delete t (buf_addr nx) m;
              Some (buf\<lparr>buf_size := buf_size buf + buf_size nx\<rparr>, rest, m) }
            else Some (buf, behind, m)
        | [] \<Rightarrow> Some (buf, behind, m));
     CombineMemBufForward before buf behind b t m }"

lemma CombineMemBuf_mng:
  "CombineMemBuf a st t p = (case FindByStrictAddr a p of
     None \<Rightarrow> Some p
   | Some (q, b, buf) \<Rightarrow> Option.bind
       (combine_mng b (takeWhile (\<lambda>c. buf_addr c \<noteq> a) (block_bufs b)) (buf\<lparr>buf_status := t\<rparr>) (tl (dropWhile (\<lambda>c. buf_addr c \<noteq> a) (block_bufs b))) t
         (case st of
            MemBufUsed \<Rightarrow> (get_mng q p)\<lparr>mps := (mps (get_mng q p))\<lparr>total_used_mem := total_used_mem (mps (get_mng q p)) - buf_size buf\<rparr>\<rparr>
          | MemBufIdle \<Rightarrow> (get_mng q p)\<lparr>mps := (mps (get_mng q p))\<lparr>total_idle_mem := total_idle_mem (mps (get_mng q p)) - buf_size buf\<rparr>\<rparr>
          | MemBufEagerFree \<Rightarrow> get_mng q p)) (\<lambda>m. Some (set_mng q m p)))"
  by (simp add: CombineMemBuf_def combine_mng_def Let_def split_def split: option.split cong: if_cong list.case_cong DynamicMemBufStatus.case_cong)

lemma opt_CombineMemBuf_mng:
  "opt_CombineMemBuf a st t p = (case opt_find_addr a p of
     None \<Rightarrow> Some p
   | Some (q, b, buf) \<Rightarrow> Option.bind
       (opt_combine_mng b (takeWhile (\<lambda>c. buf_addr c \<noteq> a) (block_bufs b)) (buf\<lparr>buf_status := t\<rparr>) (tl (dropWhile (\<lambda>c. buf_addr c \<noteq> a) (block_bufs b))) t
         (case st of
            MemBufUsed \<Rightarrow> (opt_mng q p)\<lparr>o_mps := (o_mps (opt_mng q p))\<lparr>total_used_mem := total_used_mem (o_mps (opt_mng q p)) - buf_size buf\<rparr>\<rparr>
          | MemBufIdle \<Rightarrow> (opt_mng q p)\<lparr>o_mps := (o_mps (opt_mng q p))\<lparr>total_idle_mem := total_idle_mem (o_mps (opt_mng q p)) - buf_size buf\<rparr>\<rparr>
          | MemBufEagerFree \<Rightarrow> opt_mng q p)) (\<lambda>m. Some (opt_set_mng q m p)))"
  by (simp add: opt_CombineMemBuf_def opt_combine_mng_def Let_def split_def split: option.split cong: if_cong list.case_cong DynamicMemBufStatus.case_cong)

lemma combine_mng_refines:
  assumes wf: "mng_wf m" and b: "unat (block_stream b) < 128"
    and nx: "\<And>nx rest m'. \<lbrakk>behind = nx # rest; buf_status nx = t;
        opt_EraseMemBufByStatus (buf_size nx) (buf_addr nx) t (block_stream b) m = Some m'\<rbrakk> \<Longrightarrow> unreferenced t (buf_addr nx) m'"
    and buf: "unreferenced t (buf_addr buf) m"
  shows "\<exists>m'. opt_combine_mng b before buf behind t m = Some m' \<and> mng_wf m' \<and> combine_mng b before buf behind t (abs_mng m) = Some (abs_mng m')"
proof -
  obtain buf1 behind1 m1 where next_opt:
    "(case behind of
        nx # rest \<Rightarrow>
          if buf_status nx = t
          then do {
            m \<leftarrow> opt_EraseMemBufByStatus (buf_size nx) (buf_addr nx) t (block_stream b) m;
            m \<leftarrow> opt_delete t (buf_addr nx) m;
            Some (buf\<lparr>buf_size := buf_size buf + buf_size nx\<rparr>, rest, m) }
          else Some (buf, behind, m)
      | [] \<Rightarrow> Some (buf, behind, m)) = Some (buf1, behind1, m1)"
    and next_bf: "(case behind of
        nx # rest \<Rightarrow>
          if buf_status nx = t
          then do { m \<leftarrow> EraseMemBufByStatus (buf_size nx) (buf_addr nx) t (block_stream b) (abs_mng m); Some (buf\<lparr>buf_size := buf_size buf + buf_size nx\<rparr>, rest, m) }
          else Some (buf, behind, abs_mng m)
      | [] \<Rightarrow> Some (buf, behind, abs_mng m)) = Some (buf1, behind1, abs_mng m1)"
    and wf1: "mng_wf m1" and buf1: "buf_addr buf1 = buf_addr buf" "unreferenced t (buf_addr buf) m1"
  proof (cases "behind \<noteq> [] \<and> buf_status (hd behind) = t")
    case True
    then obtain n r where n: "behind = n # r" "buf_status n = t" by (cases behind) auto
    obtain m' where m': "opt_EraseMemBufByStatus (buf_size n) (buf_addr n) t (block_stream b) m = Some m'" "mng_wf m'"
      "EraseMemBufByStatus (buf_size n) (buf_addr n) t (block_stream b) (abs_mng m) = Some (abs_mng m')"
      using abs_erase [OF wf b] by blast
    have "opt_delete t (buf_addr n) m' = Some m'" using nx [OF n m'(1)] by (simp add: opt_delete_unreferenced)
    then show thesis using n m' erase_unreferenced [OF m'(1) buf]
      by (intro that [of "buf\<lparr>buf_size := buf_size buf + buf_size n\<rparr>" r m']) simp_all
  next
    case False
    then show thesis using wf buf by (intro that [of buf behind m]) (auto split: list.split)
  qed
  have "\<exists>m'. CombineMemBufForward before buf1 behind1 b t m1 = Some m' \<and> mng_wf m' \<and>
      do {
        (buf, before, m) \<leftarrow>
          (if before \<noteq> [] \<and> buf_status (last before) = t
           then do {
             let pv = last before;
             m \<leftarrow> EraseMemBufByStatus (buf_size pv) (buf_addr pv) t (block_stream b) (abs_mng m1);
             Some (pv\<lparr>buf_size := buf_size pv + buf_size buf1\<rparr>, butlast before, m) }
           else Some (buf1, before, abs_mng m1));
        Some (put_back_mem_buf buf t (block_stream b) (put_block (b\<lparr>block_bufs := before @ buf # behind1\<rparr>) m)) } = Some (abs_mng m')"
  proof (cases "before \<noteq> [] \<and> buf_status (last before) = t")
    case True
    obtain m2 where m2: "opt_EraseMemBufByStatus (buf_size (last before)) (buf_addr (last before)) t (block_stream b) m1 = Some m2"
      "mng_wf m2" "EraseMemBufByStatus (buf_size (last before)) (buf_addr (last before)) t (block_stream b) (abs_mng m1) = Some (abs_mng m2)"
      using abs_erase [OF wf1 b] by blast
    let ?pv = "(last before)\<lparr>buf_size := buf_size (last before) + buf_size buf1\<rparr>"
    let ?m = "opt_put_block (b\<lparr>block_bufs := butlast before @ ?pv # behind1\<rparr>) m2"
    have "unreferenced t (buf_addr buf1) ?m" using erase_unreferenced [OF m2(1) buf1(2)] buf1(1) by simp
    then have del: "opt_delete t (buf_addr buf1) ?m = Some ?m" by (rule opt_delete_unreferenced)
    have "mng_wf (opt_put_block (b\<lparr>block_bufs := butlast before @ ?pv # behind1\<rparr>) m2)" using m2(2) b by simp
    then obtain m3 where "opt_put_back ?pv t (block_stream b) (opt_put_block (b\<lparr>block_bufs := butlast before @ ?pv # behind1\<rparr>) m2) = Some m3"
      "mng_wf m3" "put_back_mem_buf ?pv t (block_stream b) (abs_mng (opt_put_block (b\<lparr>block_bufs := butlast before @ ?pv # behind1\<rparr>) m2)) = abs_mng m3"
      using abs_put_back [OF _ b] by blast
    then show ?thesis using True m2 del by (simp add: CombineMemBufForward_def Let_def)
  next
    case False
    have "mng_wf (opt_put_block (b\<lparr>block_bufs := before @ buf1 # behind1\<rparr>) m1)" using wf1 b by simp
    then obtain m3 where "opt_put_back buf1 t (block_stream b) (opt_put_block (b\<lparr>block_bufs := before @ buf1 # behind1\<rparr>) m1) = Some m3"
      "mng_wf m3" "put_back_mem_buf buf1 t (block_stream b) (abs_mng (opt_put_block (b\<lparr>block_bufs := before @ buf1 # behind1\<rparr>) m1)) = abs_mng m3"
      using abs_put_back [OF _ b] by blast
    then show ?thesis unfolding CombineMemBufForward_def if_not_P [OF False] Let_def by simp
  qed
  then show ?thesis by (simp add: opt_combine_mng_def combine_mng_def next_opt next_bf)
qed

lemma found_block_mem: "FindByStrictAddr a p = Some (q, b, buf) \<Longrightarrow> b \<in> set (mem_block_list (get_mng q p))"
  by (auto simp: FindByStrictAddr_def Let_def bind_eq_Some_conv dest: FindMemBlock_mem split: option.splits)

text \<open>
  In a pool that keeps the invariant an idle buffer has exactly one entry in the idle maps, and a used
  buffer has none.
\<close>

lemma idle_entry_at:
  assumes wf: "mng_wf m" and ok: "mng_ok (abs_mng m)" and e: "e \<in> set (concat (o_idle m))" "snd e = buf_addr c"
    and at: "at_buf (o_block_list m) pre b post xs c ys"
  shows "e \<in> set (o_idle m ! unat (block_stream b)) \<and> buf_status c = MemBufIdle \<and> fst e = buf_size c \<and>
    (\<forall>i < 128. e \<in> set (o_idle m ! i) \<longrightarrow> i = unat (block_stream b))"
proof -
  have len: "length (o_idle m) = 128" using wf by (simp add: mng_wf_def)
  have at_i: "buf_status c = MemBufIdle \<and> fst e = buf_size c \<and> i = unat (block_stream b)" if i: "i < 128" "e \<in> set (o_idle m ! i)" for i
  proof -
    have u: "unat (of_nat i :: uint32) = i" using i(1) by (simp add: unat_of_nat)
    have "idle_of (idle_mem_bufs (abs_mng m)) (of_nat i) = o_idle m ! i"
      using abs_vectors(3) [OF len, of "of_nat i"] i(1) u by (simp add: idle_of_def abs_mng_def)
    then have "(fst e, snd e) \<in> set (idle_of (idle_mem_bufs (abs_mng m)) (of_nat i))" using i(2) by simp
    then obtain pre' b' post' xs' c' ys' where at': "at_buf (mem_block_list (abs_mng m)) pre' b' post' xs' c' ys'"
      and c': "block_stream b' = of_nat i" "buf_status c' = MemBufIdle" "buf_size c' = fst e" "buf_addr c' = snd e"
      by (rule idle_entry_buf [OF ok])
    have "b' = b" "c' = c" using at_buf_unique [OF at' [unfolded abs_mng_simps] at] c'(4) e(2) by simp_all
    then show ?thesis using c' u by auto
  qed
  obtain i where "i < 128" "e \<in> set (o_idle m ! i)" using e(1) len unfolding in_concat_nth by auto
  with at_i show ?thesis by blast
qed

lemma used_unreferenced:
  assumes "mng_wf m" "mng_ok (abs_mng m)" "at_buf (o_block_list m) pre b post xs c ys" "buf_status c = MemBufUsed"
  shows "unreferenced MemBufIdle (buf_addr c) m"
proof (rule ccontr)
  assume "\<not> unreferenced MemBufIdle (buf_addr c) m"
  then obtain e where "e \<in> set (concat (o_idle m))" "snd e = buf_addr c" by (auto simp: unreferenced_def simp del: set_concat)
  from idle_entry_at [OF assms(1,2) this assms(3)] assms(4) show False by simp
qed

lemma erased_unreferenced:
  assumes wf: "mng_wf m" and ok: "mng_ok (abs_mng m)" and at: "at_buf (o_block_list m) pre b post xs c ys"
    and er: "opt_EraseMemBufByStatus (buf_size c) (buf_addr c) MemBufIdle (block_stream b) m = Some m'"
  shows "unreferenced MemBufIdle (buf_addr c) m'"
proof (rule ccontr)
  let ?e = "(buf_size c, buf_addr c)" and ?s = "unat (block_stream b)"
  have len: "length (o_idle m) = 128" and s: "?s < 128" using wf at_bufD(2) [OF at] by (auto simp: mng_wf_def)
  have m': "o_idle m' = (o_idle m)[?s := remove1 ?e (o_idle m ! ?s)]"
    using er len s by (auto simp: opt_EraseMemBufByStatus_def opt_RemoveDeviceMem_def vec_at_def vec_upd_def bind_eq_Some_conv
        remove1_idem split: if_splits)
  assume "\<not> unreferenced MemBufIdle (buf_addr c) m'"
  then obtain e where e': "e \<in> set (concat (o_idle m'))" "snd e = buf_addr c" by (auto simp: unreferenced_def simp del: set_concat)
  then obtain i where i: "i < 128" "e \<in> set (o_idle m' ! i)" using len unfolding in_concat_nth by (auto simp: m')
  then have im: "e \<in> set (o_idle m ! i)"
    using len s by (cases "i = ?s") (auto simp: m' dest: set_remove1_subset [THEN subsetD])
  then have "e \<in> set (concat (o_idle m))" using i(1) len unfolding in_concat_nth by auto
  note u = idle_entry_at [OF wf ok this e'(2) at]
  then have is_s: "i = ?s" "e = ?e" using i(1) im e'(2) by (auto simp: prod_eq_iff)
  then have "?e \<in> set (remove1 ?e (o_idle m ! ?s))" using i len s by (simp add: m')
  moreover have "idle_of (idle_mem_bufs (abs_mng m)) (block_stream b) = o_idle m ! ?s"
    using abs_vectors(3) [OF len s] by (simp add: idle_of_def abs_mng_def)
  then have "mset (o_idle m ! ?s) = idle_bufs (block_stream b) (o_block_list m)" using ok by (metis abs_mng_simps(3) mng_ok_def)
  then have "distinct (o_idle m ! ?s)" by (rule idle_bufs_distinct [OF at_bufD(1) [OF at]])
  ultimately show False by simp
qed

lemma EraseMemBufByStatus_mps:
  "opt_EraseMemBufByStatus sz a st i (m\<lparr>o_mps := x\<rparr>) = map_option (o_mps_update (\<lambda>_. x)) (opt_EraseMemBufByStatus sz a st i m)"
  by (cases "opt_RemoveDeviceMem sz a i (o_idle m)"; cases "opt_RemoveDeviceMem sz a i (o_eager m)")
    (auto simp: opt_EraseMemBufByStatus_def)

lemma FreeTensorMem_refines:
  assumes "opt_wf p" and ok: "bf_ok (abs_pool p)" and held: "(a, n) \<in># bf_used (abs_pool p)"
  shows "\<exists>p'. opt_FreeTensorMem a p = Some p' \<and> opt_wf p' \<and> bf_FreeTensorMem a (abs_pool p) = Some (abs_pool p')"
proof -
  obtain q where q: "(a, n) \<in># used_bufs (mem_block_list (get_mng q (abs_pool p)))" using held by (auto simp: bf_used_mng [of _ True])
  have okm: "mng_ok (abs_mng (opt_mng q p))" using bf_ok_mng [OF ok, of q] by simp
  have wfm: "mng_wf (opt_mng q p)" by (rule wf_mng(1) [OF assms(1)])
  have blk: "blocks_ok (mem_block_list (get_mng q (abs_pool p)))" using okm by (simp add: mng_ok_def)
  obtain pre b post xs c ys where at0: "at_buf (mem_block_list (get_mng q (abs_pool p))) pre b post xs c ys"
    and c: "buf_status c = MemBufUsed" "buf_size c = n" "buf_addr c = a"
    by (rule used_entry_buf [OF q blk])
  have at: "at_buf (o_block_list (opt_mng q p)) pre b post xs c ys" using at0 by simp
  have found: "FindByStrictAddr a (abs_pool p) = Some (q, b, c)" using FindByStrictAddr_at [OF ok at0] c(3) by simp
  have b: "unat (block_stream b) < 128" using at_bufD(2) [OF at] wfm by (auto simp: mng_wf_def)
  have parts: "takeWhile (\<lambda>x. buf_addr x \<noteq> a) (block_bufs b) = xs" "tl (dropWhile (\<lambda>x. buf_addr x \<noteq> a) (block_bufs b)) = ys"
    using bufs_at [OF at_bufD(5) [OF at]] at_bufD(3) [OF at] c(3) by simp_all
  define m where "m = (opt_mng q p)\<lparr>o_mps := (o_mps (opt_mng q p))\<lparr>total_used_mem := total_used_mem (o_mps (opt_mng q p)) - buf_size c\<rparr>\<rparr>"
  have eq: "o_idle m = o_idle (opt_mng q p)" "o_block_list m = o_block_list (opt_mng q p)" by (simp_all add: m_def)
  have "mng_wf m" using wfm by (simp add: m_def)
  moreover have "unreferenced MemBufIdle (buf_addr (c\<lparr>buf_status := MemBufIdle\<rparr>)) m"
    using used_unreferenced [OF wfm okm at c(1)] by (simp add: unreferenced_def eq)
  moreover have "unreferenced MemBufIdle (buf_addr nx) m'" if nx: "ys = nx # rest"
    and er: "opt_EraseMemBufByStatus (buf_size nx) (buf_addr nx) MemBufIdle (block_stream b) m = Some m'" for nx rest m'
  proof -
    have atn: "at_buf (o_block_list (opt_mng q p)) pre b post (xs @ [c]) nx rest" using at nx by (auto simp: at_buf_def)
    obtain m1 where m1: "opt_EraseMemBufByStatus (buf_size nx) (buf_addr nx) MemBufIdle (block_stream b) (opt_mng q p) = Some m1" "o_idle m1 = o_idle m'"
      using er by (auto simp: m_def EraseMemBufByStatus_mps)
    from erased_unreferenced [OF wfm okm atn m1(1)] show ?thesis by (simp add: unreferenced_def m1(2))
  qed
  ultimately obtain m' where m': "opt_combine_mng b xs (c\<lparr>buf_status := MemBufIdle\<rparr>) ys MemBufIdle m = Some m'" "mng_wf m'"
    "combine_mng b xs (c\<lparr>buf_status := MemBufIdle\<rparr>) ys MemBufIdle (abs_mng m) = Some (abs_mng m')"
    using combine_mng_refines [OF _ b] by blast
  have am: "abs_mng m = (abs_mng (opt_mng q p))\<lparr>mps := (o_mps (opt_mng q p))\<lparr>total_used_mem := total_used_mem (o_mps (opt_mng q p)) - buf_size c\<rparr>\<rparr>"
    by (simp add: m_def)
  have "opt_FreeTensorMem a p = Some (opt_set_mng q m' p)"
    unfolding opt_FreeTensorMem_def opt_CombineMemBuf_mng abs_find_addr found option.case prod.case DynamicMemBufStatus.case parts
      m_def [symmetric] m'(1) by simp
  moreover have "bf_FreeTensorMem a (abs_pool p) = Some (abs_pool (opt_set_mng q m' p))"
    unfolding bf_FreeTensorMem_def CombineMemBuf_mng found option.case prod.case DynamicMemBufStatus.case parts abs_get_set abs_mng_simps
      am [symmetric] m'(3) by simp
  ultimately show ?thesis using wf_mng(2) [OF assms(1) m'(2)] by blast
qed

end
