(* ===== verification/Best_Fit_Opt_Alloc.thy ===== *)
theory Best_Fit_Opt_Alloc
  imports Best_Fit_Opt_Ops
begin

text \<open>Allocation in the optimised pool keeps the invariant of the abstraction.\<close>

section \<open>A buffer and its block\<close>

lemma owner_block_at:
  assumes at: "at_buf (o_block_list m) pre b post xs c ys"
  shows "owner_block (buf_addr c) m = Some b"
proof -
  note d = at_bufD [OF at]
  have other: "buf_find (buf_addr c) (block_bufs x) = None" if x: "x \<in> set pre" for x
  proof (rule ccontr)
    assume "buf_find (buf_addr c) (block_bufs x) \<noteq> None"
    then obtain c' where c': "c' \<in> set (block_bufs x)" "buf_addr c' = buf_addr c" by (auto simp: buf_find_def find_None_iff)
    have "x \<in> set (o_block_list m)" using x d(2) by simp
    then have "buf_end c' \<le> block_end x" "0 < unat (buf_size c')" using buf_in_block [OF d(1) _ c'(1)] by auto
    moreover have "block_end x \<le> unat (block_base b)" using d(1,2) x by (auto simp: blocks_append)
    ultimately show False using d(6) c'(2) by simp
  qed
  have "buf_find (buf_addr c) (block_bufs b) = Some c" using bufs_at(1) [OF d(5)] d(3) by simp
  then have "List.find (\<lambda>b. buf_find (buf_addr c) (block_bufs b) \<noteq> None) (pre @ b # post) = Some b"
    using other by (induction pre) auto
  then show ?thesis using d(2) by (simp add: owner_block_def)
qed

lemma opt_put_block_at:
  assumes "at_buf (o_block_list m) pre b post xs c ys" "block_base b' = block_base b"
  shows "opt_put_block b' m = m\<lparr>o_block_list := pre @ b' # post\<rparr>"
proof -
  have "mem_block_list (put_block b' (abs_mng m)) = pre @ b' # post"
    using put_block_at [of "abs_mng m" pre b post b'] at_bufD(1,2) [OF assms(1)] assms(2) by simp
  then show ?thesis by (simp add: opt_put_block_def put_block_def)
qed

lemma opt_get_buf_at: "at_buf (o_block_list m) pre b post xs c ys \<Longrightarrow> opt_get_buf (buf_addr c) m = Some c"
  by (simp add: opt_get_buf_def owner_block_at at_bufD(3) bufs_at(1) [OF at_bufD(5)])

lemma opt_upd_buf_at:
  assumes "at_buf (o_block_list m) pre b post xs c ys"
  shows "opt_upd_buf (buf_addr c) f m = Some (m\<lparr>o_block_list := pre @ b\<lparr>block_bufs := xs @ f c # ys\<rparr> # post\<rparr>)"
  using opt_put_block_at [OF assms, of "b\<lparr>block_bufs := xs @ f c # ys\<rparr>"]
  by (simp add: opt_upd_buf_def owner_block_at [OF assms] at_bufD(3) [OF assms] bufs_at [OF at_bufD(5) [OF assms]])

lemma opt_SplitMemBuf_at:
  assumes at: "at_buf (o_block_list m) pre b post xs c ys" and c: "buf_status c = MemBufIdle" "sz < buf_size c" "0 < sz"
    and s: "unat s < length (o_idle m)"
  shows "opt_SplitMemBuf sz (buf_addr c) s m =
    Some (m\<lparr>o_block_list := pre @ b\<lparr>block_bufs := xs @ c\<lparr>buf_size := sz\<rparr> # rest_buf sz c # ys\<rparr> # post,
            o_idle := (o_idle m)[unat s := mm_emplace (buf_size c - sz) (buf_addr c + sz) (o_idle m ! unat s)]\<rparr>)"
  using opt_put_block_at [OF at, of "b\<lparr>block_bufs := xs @ c\<lparr>buf_size := sz\<rparr> # rest_buf sz c # ys\<rparr>"] s split_bufs [OF at c(2,3)]
  by (simp add: opt_SplitMemBuf_def owner_block_at [OF at] at_bufD(3) [OF at] bufs_at [OF at_bufD(5) [OF at]] c(1)
      rest_buf_def opt_add_idle_def vec_upd_def Let_def)

section \<open>Dividing a buffer\<close>

lemma opt_divide_parts:
  assumes wf: "mng_wf m" and at: "at_buf (o_block_list m) pre b post xs c ys"
    and c: "buf_status c = MemBufIdle" "sp \<longrightarrow> sz < buf_size c" "0 < sz" and s: "unat s < 128"
  obtains m1 m2 buf where
    "(if sp then opt_SplitMemBuf sz (buf_addr c) s m else Some m) = Some m1"
    "opt_upd_buf (buf_addr c) (buf_status_update (\<lambda>_. MemBufUsed)) m1 = Some m2"
    "opt_get_buf (buf_addr c) m2 = Some buf" "buf_size buf = (if sp then sz else buf_size c)"
    "o_block_list m2 = pre @ b\<lparr>block_bufs := xs @ parts sp sz c @ ys\<rparr> # post"
    "idle_mem_bufs (abs_mng m2) = (if sp then AddMemBuf (rest_buf sz c) s (idle_mem_bufs (abs_mng m)) else idle_mem_bufs (abs_mng m))"
    "o_mps m2 = o_mps m" "o_unit_size m2 = o_unit_size m"
    "o_blocks m2 = o_blocks m" "length (o_idle m2) = 128" "o_eager m2 = o_eager m"
proof (cases sp)
  case True
  then have lt: "sz < buf_size c" using c(2) by blast
  have len: "length (o_idle m) = 128" using wf by (simp add: mng_wf_def)
  define v where "v = (o_idle m)[unat s := mm_emplace (buf_size c - sz) (buf_addr c + sz) (o_idle m ! unat s)]"
  define m1 where "m1 = m\<lparr>o_block_list := pre @ b\<lparr>block_bufs := xs @ c\<lparr>buf_size := sz\<rparr> # rest_buf sz c # ys\<rparr> # post, o_idle := v\<rparr>"
  define m2 where "m2 = m\<lparr>o_block_list := pre @ b\<lparr>block_bufs := xs @ c\<lparr>buf_size := sz, buf_status := MemBufUsed\<rparr> # rest_buf sz c # ys\<rparr> # post, o_idle := v\<rparr>"
  have t: "buf_tiles (unat (buf_addr c)) (x # [rest_buf sz c]) (buf_end c)" if "buf_addr x = buf_addr c" "buf_size x = sz" for x
    using unat_split [OF at lt c(3)] lt c(3) that by (simp add: rest_buf_def word_less_nat_alt)
  have at1: "at_buf (o_block_list m1) pre (b\<lparr>block_bufs := xs @ c\<lparr>buf_size := sz\<rparr> # rest_buf sz c # ys\<rparr>) post xs (c\<lparr>buf_size := sz\<rparr>) (rest_buf sz c # ys)"
    using at_buf_replace [OF at t [of "c\<lparr>buf_size := sz\<rparr>"]] c(1) by (simp add: m1_def rest_buf_def)
  have at2: "at_buf (o_block_list m2) pre (b\<lparr>block_bufs := xs @ c\<lparr>buf_size := sz, buf_status := MemBufUsed\<rparr> # rest_buf sz c # ys\<rparr>) post xs
      (c\<lparr>buf_size := sz, buf_status := MemBufUsed\<rparr>) (rest_buf sz c # ys)"
    using at_buf_replace [OF at t [of "c\<lparr>buf_size := sz, buf_status := MemBufUsed\<rparr>"]] c(1) by (simp add: rest_buf_def m2_def)
  have "opt_SplitMemBuf sz (buf_addr c) s m = Some m1"
    using opt_SplitMemBuf_at [OF at c(1) lt c(3), of s] s len by (simp add: m1_def v_def)
  moreover have "opt_upd_buf (buf_addr c) (buf_status_update (\<lambda>_. MemBufUsed)) m1 = Some m2"
    using opt_upd_buf_at [OF at1, of "buf_status_update (\<lambda>_. MemBufUsed)"] by (simp add: m1_def m2_def)
  moreover have "opt_get_buf (buf_addr c) m2 = Some (c\<lparr>buf_size := sz, buf_status := MemBufUsed\<rparr>)"
    using opt_get_buf_at [OF at2] by simp
  moreover have "idle_mem_bufs (abs_mng m2) = AddMemBuf (rest_buf sz c) s (idle_mem_bufs (abs_mng m))"
    using abs_vectors(1,3) [OF len s] s len
    by (simp add: abs_mng_def m2_def v_def AddMemBuf_def rest_buf_def)
  ultimately show thesis using True len
    by (intro that [of m1 m2 "c\<lparr>buf_size := sz, buf_status := MemBufUsed\<rparr>"]) (simp_all add: m2_def parts_def v_def)
next
  case False
  define m2 where "m2 = m\<lparr>o_block_list := pre @ b\<lparr>block_bufs := xs @ c\<lparr>buf_status := MemBufUsed\<rparr> # ys\<rparr> # post\<rparr>"
  have "at_buf (o_block_list m2) pre (b\<lparr>block_bufs := xs @ c\<lparr>buf_status := MemBufUsed\<rparr> # ys\<rparr>) post xs (c\<lparr>buf_status := MemBufUsed\<rparr>) ys"
    using at_buf_replace [OF at, of "c\<lparr>buf_status := MemBufUsed\<rparr>" "[]"] at_bufD(9) [OF at] by (simp add: m2_def)
  from opt_get_buf_at [OF this] show thesis
    using False opt_upd_buf_at [OF at, of "buf_status_update (\<lambda>_. MemBufUsed)"] wf
    by (intro that [of m m2 "c\<lparr>buf_status := MemBufUsed\<rparr>"]) (simp_all add: m2_def parts_def abs_mng_def mng_wf_def)
qed

section \<open>Taking an idle buffer\<close>

lemma opt_set_same [simp]: "opt_set_mng q (opt_mng q p) p = p"
  by (cases q) (simp_all add: opt_set_mng_def opt_mng_def)

lemma opt_FindMemBufInSpecifiedMng_ok:
  assumes wf: "mng_wf (opt_mng q p)" and ok: "mng_ok (abs_mng (opt_mng q p))" and sz: "0 < sz" and mt: "0 < min_tensor_size p"
    and s: "unat s < 128"
  shows "\<exists>a m'. opt_FindMemBufInSpecifiedMng dbg sz q MemBufIdle s p = Some (a, opt_set_mng q m' p) \<and> mng_wf m' \<and>
    taken (\<lambda>n. min_tensor_size p \<le> n - sz) sz s (abs_mng (opt_mng q p)) a (abs_mng m')"
proof -
  define m where "m = opt_mng q p"
  have wfm: "mng_wf m" and okm: "mng_ok (abs_mng m)" using wf ok by (simp_all add: m_def)
  have len: "length (o_idle m) = 128" using wfm by (simp add: mng_wf_def)
  define mm where "mm = o_idle m ! unat s"
  have va: "vec_at (o_idle m) s = Some mm" using len s by (simp add: vec_at_def mm_def)
  have io: "idle_of (idle_mem_bufs (abs_mng m)) s = mm" using abs_vectors(3) [OF len s] by (simp add: idle_of_def abs_mng_def mm_def)
  have mm: "mset mm = idle_bufs s (o_block_list m)" "sorted (map fst mm)" using okm io by (auto simp: mng_ok_def)
  show ?thesis
  proof (cases "List.find (\<lambda>e. sz \<le> fst e) mm")
    case None
    have "n < sz" if "(n, x) \<in># idle_bufs s (o_block_list m)" for n x
      using that None unfolding mm(1) [symmetric] by (fastforce simp: find_None_iff)
    then have "taken (\<lambda>n. min_tensor_size p \<le> n - sz) sz s (abs_mng m) 0 (abs_mng m)"
      using okm by (auto simp: taken_def)
    then show ?thesis using None va wfm
      by (intro exI [of _ 0] exI [of _ m]) (simp add: opt_FindMemBufInSpecifiedMng_def m_def [symmetric], simp add: m_def)
  next
    case (Some e)
    then obtain n a where e: "e = (n, a)" by fastforce
    note f = find_first_fit [OF mm(2) Some [unfolded e]]
    have "(n, a) \<in> set (idle_of (idle_mem_bufs (abs_mng m)) s)" using f(1) io by simp
    then obtain pre b post xs c ys where "at_buf (mem_block_list (abs_mng m)) pre b post xs c ys" and c: "block_stream b = s"
      "buf_status c = MemBufIdle" "buf_size c = n" "buf_addr c = a"
      by (rule idle_entry_buf [OF okm])
    then have at: "at_buf (o_block_list m) pre b post xs c ys" by simp
    define sp where "sp \<longleftrightarrow> min_tensor_size p \<le> n - sz"
    have lt: "sp \<longrightarrow> sz < n" using f(2) mt by (auto simp: sp_def order_less_le)
    define c1 where "c1 = c\<lparr>allocator_name := dbg_name dbg, alloc_kind := dbg_type dbg\<rparr>"
    define m1 where "m1 = m\<lparr>o_block_list := pre @ b\<lparr>block_bufs := xs @ c1 # ys\<rparr> # post, o_idle := (o_idle m)[unat s := remove1 (n, a) mm]\<rparr>"
    have u: "opt_upd_buf a (\<lambda>b. b\<lparr>allocator_name := dbg_name dbg, alloc_kind := dbg_type dbg\<rparr>) m =
        Some (m\<lparr>o_block_list := pre @ b\<lparr>block_bufs := xs @ c1 # ys\<rparr> # post\<rparr>)"
      using opt_upd_buf_at [OF at] c(4) by (simp add: c1_def)
    have at1: "at_buf (o_block_list m1) pre (b\<lparr>block_bufs := xs @ c1 # ys\<rparr>) post xs c1 ys"
      using at_buf_replace [OF at, of c1 "[]"] at_bufD(9) [OF at] c by (simp add: c1_def m1_def)
    have c1: "buf_status c1 = MemBufIdle" "buf_size c1 = n" "buf_addr c1 = a" using c by (simp_all add: c1_def)
    have wf1: "mng_wf m1" using wfm s c(1) at_bufD(2) [OF at] len by (auto simp: mng_wf_def m1_def)
    obtain m2 m3 buf where run: "(if sp then opt_SplitMemBuf sz a s m1 else Some m1) = Some m2"
      "opt_upd_buf a (buf_status_update (\<lambda>_. MemBufUsed)) m2 = Some m3" "opt_get_buf a m3 = Some buf"
      "buf_size buf = (if sp then sz else n)" "o_block_list m3 = pre @ b\<lparr>block_bufs := xs @ parts sp sz c1 @ ys\<rparr> # post"
      "idle_mem_bufs (abs_mng m3) = (if sp then AddMemBuf (rest_buf sz c1) s (idle_mem_bufs (abs_mng m1)) else idle_mem_bufs (abs_mng m1))"
      "o_mps m3 = o_mps m1" "o_unit_size m3 = o_unit_size m1" "o_blocks m3 = o_blocks m1" "length (o_idle m3) = 128" "o_eager m3 = o_eager m1"
      by (rule opt_divide_parts [OF wf1 at1 c1(1) _ sz s, unfolded c1(2,3), OF lt]) simp
    define m4 where "m4 = m3\<lparr>o_mps := (add_used (buf_size buf) (o_mps m3))\<lparr>total_idle_mem := total_idle_mem (add_used (buf_size buf) (o_mps m3)) - buf_size buf\<rparr>\<rparr>"
    have "opt_FindMemBufInSpecifiedMng dbg sz q MemBufIdle s p = Some (a, opt_set_mng q m4 p)"
      using Some e va u run(1-3) opt_get_buf_at [OF at1] c1
      by (cases sp) (simp_all add: opt_FindMemBufInSpecifiedMng_def opt_IsSplit_def m_def [symmetric] m1_def [symmetric] m4_def sp_def [symmetric] Let_def)
    moreover have "mng_wf m4"
      using wf1 run(5,9-11) wfm c(1) s at_bufD(2) [OF at] by (auto simp: mng_wf_def m4_def m1_def)
    moreover have best: "\<forall>(k, _) \<in># idle_bufs (block_stream b) (mem_block_list (abs_mng m)). sz \<le> k \<longrightarrow> buf_size c \<le> k"
      unfolding c abs_mng_simps mm(1) [symmetric] using f(3) by simp
    have i1: "idle_of (idle_mem_bufs (abs_mng m1)) k = (if k = s then remove1 (n, a) mm else idle_of (idle_mem_bufs (abs_mng m)) k)" for k
      using abs_vectors(1) [OF len s, where m = "m\<lparr>o_block_list := pre @ b\<lparr>block_bufs := xs @ c1 # ys\<rparr> # post\<rparr>"]
      by (simp add: m1_def abs_mng_def)
    have "taken (\<lambda>n. min_tensor_size p \<le> n - sz) sz (block_stream b) (abs_mng m) (buf_addr c) (abs_mng m4)"
      by (rule taken_parts [OF okm, of pre b post xs c ys sz _ c1 "idle_mem_bufs (abs_mng m1)"])
        (use at c c1 f(2) sz lt best i1 io run in \<open>simp_all add: m4_def add_used_def Let_def sp_def [symmetric] m1_def\<close>)
    ultimately show ?thesis using c by (auto simp: m_def [symmetric])
  qed
qed

section \<open>A new block\<close>

lemma double_size:
  assumes "unat sz < 2 ^ 63"
  shows "unat (push_bit 1 sz :: size_t) = 2 * unat sz"
proof -
  have "push_bit 1 sz = sz + sz" by (simp add: push_bit_eq_mult mult.commute)
  then show ?thesis using assms by (simp add: unat_word_ariths)
qed

lemma opt_CreateMemBlockAndMemBuf_ok:
  assumes wf: "mng_wf (opt_mng q p)" and ok: "mng_ok (abs_mng (opt_mng q p))" and a: "a \<noteq> 0" "unat a + unat n < 2 ^ 64"
    and sz: "0 < sz" "sz \<le> n" "unat sz < 2 ^ 63" and s: "unat s < 128"
    and apart: "\<forall>(b, k) \<in> set (block_ranges (abs_mng (opt_mng q p))). unat b + unat k \<le> unat a \<or> unat a + unat n \<le> unat b"
  shows "\<exists>m'. opt_CreateMemBlockAndMemBuf dbg sz q a n MemBufIdle s p = Some (a, opt_set_mng q m' p) \<and> mng_wf m' \<and>
    added (push_bit 1 sz \<le> n) sz a n (abs_mng (opt_mng q p)) (abs_mng m')"
proof -
  define m where "m = opt_mng q p"
  have wfm: "mng_wf m" and okm: "mng_ok (abs_mng m)" using wf ok by (simp_all add: m_def)
  have n: "0 < n" using sz by (auto simp: word_less_nat_alt word_le_nat_alt)
  define sp where "sp \<longleftrightarrow> push_bit 1 sz \<le> n"
  have lt: "sp \<longrightarrow> sz < n" using sz double_size [OF sz(3)] by (auto simp: sp_def word_le_nat_alt word_less_nat_alt)
  let ?c = "new_buf dbg a n" and ?b = "new_block dbg a n s"
  obtain pre post where pp: "mem_block_list (abs_mng m) = pre @ post" "DoAddMemBlock block_base ?b (mem_block_list (abs_mng m)) = pre @ ?b # post"
    "at_buf (pre @ ?b # post) pre ?b post [] ?c []"
    using new_block_at [OF okm a n, of dbg s] apart by (auto simp: m_def)
  define m1 where "m1 = m\<lparr>o_block_list := pre @ ?b # post, o_blocks := (o_blocks m)[unat s := o_blocks m ! unat s @ [a]]\<rparr>"
  have add: "opt_AddMemBlock ?b s m = Some m1"
    using pp(2) s wfm by (simp add: opt_AddMemBlock_def vec_upd_def m1_def mng_wf_def)
  have wf1: "mng_wf m1" using wfm s pp(1) by (auto simp: mng_wf_def m1_def)
  have at: "at_buf (o_block_list m1) pre ?b post [] ?c []" using pp(3) by (simp add: m1_def)
  obtain m2 m3 buf where run: "(if sp then opt_SplitMemBuf sz a s m1 else Some m1) = Some m2"
    "opt_upd_buf a (buf_status_update (\<lambda>_. MemBufUsed)) m2 = Some m3" "opt_get_buf a m3 = Some buf"
    "buf_size buf = (if sp then sz else n)" "o_block_list m3 = pre @ ?b\<lparr>block_bufs := parts sp sz ?c\<rparr> # post"
    "idle_mem_bufs (abs_mng m3) = (if sp then AddMemBuf (rest_buf sz ?c) s (idle_mem_bufs (abs_mng m1)) else idle_mem_bufs (abs_mng m1))"
    "o_mps m3 = o_mps m1" "o_unit_size m3 = o_unit_size m1" "o_blocks m3 = o_blocks m1" "length (o_idle m3) = 128" "o_eager m3 = o_eager m1"
    by (rule opt_divide_parts [OF wf1 at _ _ sz(1) s, unfolded new_block_simps, OF refl lt]) simp
  define m4 where "m4 = m3\<lparr>o_mps := add_used (buf_size buf) ((o_mps m3)\<lparr>total_mem := total_mem (o_mps m3) + n\<rparr>)\<rparr>"
  have "opt_CreateMemBlockAndMemBuf dbg sz q a n MemBufIdle s p = Some (a, opt_set_mng q m4 p)"
    unfolding opt_CreateMemBlockAndMemBuf_def Let_def m_def [symmetric] new_buf_def [symmetric] new_block_def [symmetric] sp_def [symmetric]
    using run(1-3) add by (cases sp) (simp_all add: m4_def)
  moreover have "mng_wf m4" using wf1 run(5,9-11) by (auto simp: mng_wf_def m4_def m1_def)
  moreover have "idle_mem_bufs (abs_mng m1) = idle_mem_bufs (abs_mng m)" by (simp add: m1_def abs_mng_def)
  then have "added sp sz a n (abs_mng m) (abs_mng m4)"
    by (intro added_parts [OF okm pp(3,1) sz(1) lt]) (use run in \<open>simp_all add: m4_def add_used_def Let_def m1_def\<close>)
  ultimately show ?thesis by (auto simp: m_def sp_def)
qed

section \<open>The pool\<close>

definition opt_ok :: "DynamicMemPoolBestFitOpt \<Rightarrow> bool" where
  "opt_ok p \<longleftrightarrow> opt_wf p \<and> bf_ok (abs_pool p) \<and> min_tensor_size p = 1024"

definition opt_took :: "size_t \<Rightarrow> DynamicMemPoolBestFitOpt \<Rightarrow> device_ptr \<Rightarrow> DynamicMemPoolBestFitOpt \<Rightarrow> bool" where
  "opt_took sz p a p' \<longleftrightarrow> opt_ok p' \<and> o_init_recycle p' = o_init_recycle p \<and>
     (if a = 0 then bf_used (abs_pool p') = bf_used (abs_pool p) \<and> bf_ranges (abs_pool p') = bf_ranges (abs_pool p)
      else \<exists>n. sz \<le> n \<and> unat n < unat sz + max 1024 (unat sz) \<and> bf_used (abs_pool p') = add_mset (a, n) (bf_used (abs_pool p)))"

lemma opt_set_fields [simp]:
  "min_tensor_size (opt_set_mng q m p) = min_tensor_size p" "o_init_recycle (opt_set_mng q m p) = o_init_recycle p"
  by (simp_all add: opt_set_mng_def)

lemma opt_ok_mng:
  assumes "opt_ok p"
  shows "mng_wf (opt_mng q p)" "mng_ok (abs_mng (opt_mng q p))" "0 < min_tensor_size p"
  using assms wf_mng(1) [of p q] bf_ok_mng [of "abs_pool p" q] by (simp_all add: opt_ok_def)

lemma opt_took_mng:
  assumes ok: "opt_ok p" and wf: "mng_wf m" and t: "taken (\<lambda>n. min_tensor_size p \<le> n - sz) sz s (abs_mng (opt_mng q p)) a (abs_mng m)"
  shows "opt_took sz p a (opt_set_mng q m p)"
proof -
  have p: "opt_wf p" "bf_ok (abs_pool p)" "min_tensor_size p = 1024" using ok by (simp_all add: opt_ok_def)
  have "bf_ok (set_mng q (abs_mng m) (abs_pool p))" using t by (intro bf_ok_same_ranges [OF p(2)]) (simp_all add: taken_def)
  then have "opt_ok (opt_set_mng q m p)" using wf_mng(2) [OF p(1) wf] p(3) by (simp add: opt_ok_def)
  moreover have "bf_ranges (abs_pool (opt_set_mng q m p)) = bf_ranges (abs_pool p)" using t by (simp add: taken_def bf_ranges_mng [of _ q])
  moreover have "bf_used (abs_pool (opt_set_mng q m p)) = used_bufs (o_block_list m) + used_bufs (o_block_list (opt_mng (\<not> q) p))"
    by (simp add: bf_used_mng [of _ q])
  moreover have "sz \<le> (if 1024 \<le> n - sz then sz else n) \<and> unat (if 1024 \<le> n - sz then sz else n) < unat sz + max 1024 (unat sz)"
    if "sz \<le> n" for n
    using that unat_sub [of sz n] by (auto simp: word_le_nat_alt)
  ultimately show ?thesis using t p(3)
    by (fastforce simp: opt_took_def taken_def bf_used_mng [of "abs_pool p" q] simp del: if_split split: if_split_asm)
qed

lemma opt_took_trans: "opt_took sz p 0 p1 \<Longrightarrow> opt_took sz p1 a p2 \<Longrightarrow> opt_took sz p a p2"
  by (auto simp: opt_took_def)

lemma opt_same_frame_mng:
  "taken split sz s (abs_mng (opt_mng q p)) a (abs_mng m) \<Longrightarrow> same_frame (abs_pool p) (abs_pool (opt_set_mng q m p))"
  using same_frame_mng [of split sz s q "abs_pool p" a "abs_mng m"] by simp

lemma opt_FindMemBufByStatus_ok:
  assumes ok: "opt_ok p" and sz: "0 < sz" and s: "unat s < 128"
  shows "\<exists>a p'. opt_FindMemBufByStatus dbg sz q MemBufIdle s p = Some (a, p') \<and> opt_took sz p a p' \<and> same_frame (abs_pool p) (abs_pool p')"
proof -
  obtain a m where 1: "opt_FindMemBufInSpecifiedMng dbg sz q MemBufIdle s p = Some (a, opt_set_mng q m p)" "mng_wf m"
    "taken (\<lambda>n. min_tensor_size p \<le> n - sz) sz s (abs_mng (opt_mng q p)) a (abs_mng m)"
    using opt_FindMemBufInSpecifiedMng_ok [OF opt_ok_mng(1,2) [OF ok] sz opt_ok_mng(3) [OF ok] s] by blast
  define p1 where "p1 = opt_set_mng q m p"
  have t1: "opt_took sz p a p1" using opt_took_mng [OF ok 1(2,3)] by (simp add: p1_def)
  have f1: "same_frame (abs_pool p) (abs_pool p1)" unfolding p1_def by (rule opt_same_frame_mng [OF 1(3)])
  show ?thesis
  proof (cases "a = 0 \<and> q \<and> o_block_list (o_persistent p1) \<noteq> []")
    case True
    have ok1: "opt_ok p1" using t1 by (simp add: opt_took_def)
    then obtain a2 m2 where 2: "opt_FindMemBufInSpecifiedMng dbg sz (\<not> q) MemBufIdle s p1 = Some (a2, opt_set_mng (\<not> q) m2 p1)" "mng_wf m2"
      "taken (\<lambda>n. min_tensor_size p1 \<le> n - sz) sz s (abs_mng (opt_mng (\<not> q) p1)) a2 (abs_mng m2)"
      using opt_FindMemBufInSpecifiedMng_ok [OF opt_ok_mng(1,2) [OF ok1] sz opt_ok_mng(3) [OF ok1] s] by blast
    have "opt_took sz p a2 (opt_set_mng (\<not> q) m2 p1)"
      using opt_took_trans [OF _ opt_took_mng [OF ok1 2(2,3)]] t1 True by simp
    moreover have "opt_FindMemBufByStatus dbg sz q MemBufIdle s p = Some (a2, opt_set_mng (\<not> q) m2 p1)"
      unfolding opt_FindMemBufByStatus_def 1(1) p1_def [symmetric] using 2(1) True by simp
    ultimately show ?thesis using same_frame_trans [OF f1 opt_same_frame_mng [OF 2(3)]] by blast
  next
    case False
    then have "opt_FindMemBufByStatus dbg sz q MemBufIdle s p = Some (a, p1)"
      unfolding opt_FindMemBufByStatus_def 1(1) p1_def [symmetric] by auto
    with t1 f1 show ?thesis by blast
  qed
qed

lemma opt_trigger_off: "opt_ok p \<Longrightarrow> \<not> o_trigger_eager_free p"
  by (simp add: opt_ok_def bf_ok_def abs_pool_def)

lemma opt_FindAvailableMemBuf_ok:
  assumes "opt_ok p" "0 < sz" "unat s < 128"
  shows "\<exists>a p'. opt_FindAvailableMemBuf dev dbg sz q s p = Some (a, p') \<and> opt_took sz p a p' \<and> same_frame (abs_pool p) (abs_pool p')"
proof -
  obtain a p' where *: "opt_FindMemBufByStatus dbg sz q MemBufIdle s p = Some (a, p')" "opt_took sz p a p'"
    "same_frame (abs_pool p) (abs_pool p')"
    using opt_FindMemBufByStatus_ok [OF assms] by blast
  then have "\<not> o_trigger_eager_free p'" using opt_trigger_off by (auto simp: opt_took_def)
  with * show ?thesis by (simp add: opt_FindAvailableMemBuf_def)
qed

lemma opt_AlignMemorySize_eq: "opt_AlignMemorySize sz = AlignMemorySize sz"
proof -
  have m: "kDynamicMemAlignSize - 1 = mask 9" by (simp add: kDynamicMemAlignSize_def mask_eq_exp_minus_1)
  have "and x (not (mask 9)) = x div 512 * 512" for x :: size_t
  proof -
    have "and x (not (mask 9)) = push_bit 9 (drop_bit 9 x)" by (rule bit_eqI) (auto simp: bit_simps)
    then show ?thesis by (simp add: push_bit_eq_mult drop_bit_eq_div)
  qed
  then show ?thesis unfolding opt_AlignMemorySize_def AlignMemorySize_def m by (simp add: kDynamicMemAlignSize_def)
qed

lemma opt_CalMemBlockAllocSize_eq: "opt_CalMemBlockAllocSize dev sz q p = bf_CalMemBlockAllocSize dev sz q (abs_pool p)"
proof -
  have "bf_MemAllocUnitSize q (abs_pool p) = opt_MemAllocUnitSize q p"
    by (simp add: bf_MemAllocUnitSize_def opt_MemAllocUnitSize_def abs_pool_def)
  then show ?thesis unfolding bf_CalMemBlockAllocSize_def opt_CalMemBlockAllocSize_def by (simp only:)
qed

lemma opt_new_block_took:
  assumes ok: "opt_ok p" and dev: "fresh_block dev n (abs_pool p)" "AllocDeviceMem dev n = (r, a)" and sz: "0 < sz" "sz \<le> r" "unat sz < 2 ^ 63"
    and s: "unat s < 128"
  shows "\<exists>p'. opt_CreateMemBlockAndMemBuf dbg sz q a r MemBufIdle s p = Some (a, p') \<and> opt_took sz p a p'"
proof -
  have p: "opt_wf p" "bf_ok (abs_pool p)" "min_tensor_size p = 1024" using ok by (simp_all add: opt_ok_def)
  have "0 < r" using sz by (auto simp: word_less_nat_alt word_le_nat_alt)
  then have a: "a \<noteq> 0" "unat a + unat r < 2 ^ 64" and dis: "\<forall>x \<in> bf_ranges (abs_pool p). disjoint_ranges x (a, r)"
    using dev by (auto simp: fresh_block_def)
  have "\<forall>(b, k) \<in> set (block_ranges (abs_mng (opt_mng q p))). unat b + unat k \<le> unat a \<or> unat a + unat r \<le> unat b"
  proof clarify
    fix b k assume "(b, k) \<in> set (block_ranges (abs_mng (opt_mng q p)))" "\<not> unat a + unat r \<le> unat b"
    moreover then have "(b, k) \<in> bf_ranges (abs_pool p)" by (simp add: bf_ranges_mng [of _ q])
    ultimately show "unat b + unat k \<le> unat a" using dis by fastforce
  qed
  then obtain m where m: "opt_CreateMemBlockAndMemBuf dbg sz q a r MemBufIdle s p = Some (a, opt_set_mng q m p)" "mng_wf m"
    "added (push_bit 1 sz \<le> r) sz a r (abs_mng (opt_mng q p)) (abs_mng m)"
    using opt_CreateMemBlockAndMemBuf_ok [OF opt_ok_mng(1,2) [OF ok] a sz s, of q dbg] by blast
  have "bf_ok (set_mng q (abs_mng m) (abs_pool p))"
    using m(3) dis bf_ok_unit [OF p(2), of q] bf_ok_apart [OF p(2), of _ q]
    by (intro bf_ok_set_mng [OF p(2)]) (auto simp: added_def bf_ranges_mng [of _ q])
  then have "opt_ok (opt_set_mng q m p)" using wf_mng(2) [OF p(1) m(2)] p(3) by (simp add: opt_ok_def)
  moreover have "bf_used (abs_pool (opt_set_mng q m p)) = add_mset (a, if push_bit 1 sz \<le> r then sz else r) (bf_used (abs_pool p))"
    using m(3) by (simp add: added_def bf_used_mng [of _ q] del: push_bit_eq_mult)
  moreover have "unat (if push_bit 1 sz \<le> r then sz else r) < unat sz + max 1024 (unat sz)"
    using double_size [OF sz(3)] by (auto simp: word_le_nat_alt not_le)
  ultimately have "opt_took sz p a (opt_set_mng q m p)" using a(1) sz(2) unfolding opt_took_def by auto
  with m(1) show ?thesis by blast
qed

lemma opt_reset_unit_took:
  assumes "opt_ok p"
  shows "opt_took sz p 0 (p\<lparr>o_common := (o_common p)\<lparr>o_unit_size := o_config_unit_size p\<rparr>\<rparr>)"
  using assms
  by (simp add: opt_took_def opt_ok_def opt_wf_def mng_wf_def bf_ok_def mng_ok_def block_ranges_def bf_used_def bf_ranges_def abs_pool_def abs_mng_def)

lemma opt_AddMemBlockAndMemBuf_ok:
  assumes ok: "opt_ok p" and dev: "fresh_device dev sz (abs_pool p)" and sz: "0 < sz" "unat sz < 2 ^ 63" and s: "unat s < 128"
  shows "\<exists>a p'. opt_AddMemBlockAndMemBuf dev dbg sz q need_recycle s p = Some (a, p') \<and> opt_took sz p a p'"
proof -
  define q' where "q' = (if q \<and> \<not> need_recycle \<and> o_block_list (o_persistent p) \<noteq> [] then False else q)"
  have off: "\<not> o_trigger_eager_free p" "\<not> IsEnableEagerFree dev" using opt_trigger_off [OF ok] dev by (simp_all add: fresh_device_def)
  have "sz \<le> 2 ^ 63" using sz(2) by (simp add: word_le_nat_alt)
  moreover have "bf_ok (abs_pool p)" using ok by (simp add: opt_ok_def)
  ultimately obtain n where nb: "bf_CalMemBlockAllocSize dev sz q' (abs_pool p) = Some n"
    using bf_CalMemBlockAllocSize_ok by blast
  then have n: "opt_CalMemBlockAllocSize dev sz q' p = Some n" by (simp add: opt_CalMemBlockAllocSize_eq)
  have failed: "opt_took sz p 0 p" using ok by (simp add: opt_took_def)
  show ?thesis
  proof (cases "n = 0")
    case True
    obtain a p' where "opt_FindAvailableMemBuf dev dbg sz (\<not> q') s p = Some (a, p')" "opt_took sz p a p'"
      using opt_FindAvailableMemBuf_ok [OF ok sz(1) s] by blast
    then show ?thesis using True off n by (auto simp: opt_AddMemBlockAndMemBuf_def q'_def [symmetric] Let_def)
  next
    case False
    obtain r a where ra: "AllocDeviceMem dev n = (r, a)" by fastforce
    show ?thesis
    proof (cases "r < sz")
      case True
      then show ?thesis using False ra failed off n by (simp add: opt_AddMemBlockAndMemBuf_def q'_def [symmetric])
    next
      case r: False
      define p1 where "p1 = p\<lparr>o_common := (o_common p)\<lparr>o_unit_size := o_config_unit_size p\<rparr>\<rparr>"
      have t: "opt_took sz p 0 p1" unfolding p1_def by (rule opt_reset_unit_took [OF ok])
      then have p1: "opt_ok p1" "bf_ranges (abs_pool p1) = bf_ranges (abs_pool p)" by (simp_all add: opt_took_def)
      have "fresh_block dev n (abs_pool p)" using dev nb False by (simp add: fresh_device_def)
      then have "fresh_block dev n (abs_pool p1)" using p1(2) by (simp add: fresh_block_def)
      then obtain p' where "opt_CreateMemBlockAndMemBuf dbg sz q' a r MemBufIdle s p1 = Some (a, p')" "opt_took sz p1 a p'"
        using opt_new_block_took [OF p1(1) _ ra sz(1) _ sz(2) s] r by (metis not_less)
      then show ?thesis using False ra r opt_took_trans [OF t] off n
        by (simp add: opt_AddMemBlockAndMemBuf_def q'_def [symmetric] p1_def)
    qed
  qed
qed

lemma opt_aligned_request:
  assumes "unat sz \<le> 2 ^ 62"
  shows "0 < opt_AlignMemorySize sz" "unat (opt_AlignMemorySize sz) < 2 ^ 63"
  using unat_AlignMemorySize [of sz] assms
  by (auto simp: opt_AlignMemorySize_eq word_less_nat_alt div_greater_zero_iff unat_gt_0 Suc_le_eq split: if_splits)

text \<open>The buffer that the search of a request finds, 0 without one.\<close>

definition opt_found ::
    "bf_device \<Rightarrow> AllocatorDebugInfo \<Rightarrow> size_t \<Rightarrow> bool \<Rightarrow> uint32 \<Rightarrow> DynamicMemPoolBestFitOpt \<Rightarrow> device_ptr option" where
  "opt_found dev dbg sz from_persistent_mem stream_id p =
     map_option fst (opt_FindAvailableMemBuf dev dbg (opt_AlignMemorySize sz) from_persistent_mem stream_id p)"

text \<open>What a request adds: no range, or one that is larger than the request by less than 1024 bytes or by less than the request.\<close>

definition opt_gives :: "size_t \<Rightarrow> DynamicMemPoolBestFitOpt \<Rightarrow> device_ptr \<Rightarrow> DynamicMemPoolBestFitOpt \<Rightarrow> bool" where
  "opt_gives sz p a p' \<longleftrightarrow> opt_ok p' \<and>
     (if a = 0 then bf_used (abs_pool p') = bf_used (abs_pool p)
      else \<exists>n. sz \<le> n \<and> unat n < unat sz + max 1024 (unat sz) \<and> bf_used (abs_pool p') = add_mset (a, n) (bf_used (abs_pool p)))"

lemma opt_took_gives: "opt_took sz p a p' \<Longrightarrow> opt_gives sz p a p'"
  by (auto simp: opt_took_def opt_gives_def)

lemma opt_ok_recycle [simp]:
  "opt_ok (p\<lparr>o_init_recycle := v\<rparr>) = opt_ok p" "bf_used (abs_pool (p\<lparr>o_init_recycle := v\<rparr>)) = bf_used (abs_pool p)"
  "fresh_device dev sz (abs_pool (p\<lparr>o_init_recycle := v\<rparr>)) = fresh_device dev sz (abs_pool p)"
proof -
  have a: "abs_pool (p\<lparr>o_init_recycle := v\<rparr>) = (abs_pool p)\<lparr>init_recycle_memory := v\<rparr>" by (simp add: abs_pool_def)
  show "opt_ok (p\<lparr>o_init_recycle := v\<rparr>) = opt_ok p" "bf_used (abs_pool (p\<lparr>o_init_recycle := v\<rparr>)) = bf_used (abs_pool p)"
    "fresh_device dev sz (abs_pool (p\<lparr>o_init_recycle := v\<rparr>)) = fresh_device dev sz (abs_pool p)"
    by (simp_all add: a opt_ok_def opt_wf_def)
qed

lemma opt_AllocTensorMem_ok:
  assumes ok: "opt_ok p" and dev: "opt_found dev dbg sz q s p = Some 0 \<Longrightarrow> fresh_device dev (opt_AlignMemorySize sz) (abs_pool p)"
    and sz: "unat sz \<le> 2 ^ 62" and s: "unat s < 128"
    and recycled: "need_recycle \<longrightarrow> o_init_recycle p \<or> opt_found dev dbg sz q s p = Some 0"
  shows "\<exists>a p'. opt_AllocTensorMem dev dbg sz q need_recycle s p = Some (a, p') \<and> opt_gives (opt_AlignMemorySize sz) p a p'"
proof -
  note al = opt_aligned_request [OF sz]
  obtain a p1 where 1: "opt_FindAvailableMemBuf dev dbg (opt_AlignMemorySize sz) q s p = Some (a, p1)"
    "opt_took (opt_AlignMemorySize sz) p a p1" "same_frame (abs_pool p) (abs_pool p1)"
    using opt_FindAvailableMemBuf_ok [OF ok al(1) s] by blast
  have found: "opt_found dev dbg sz q s p = Some a" using 1(1) by (simp add: opt_found_def)
  have init: "o_init_recycle p1 = o_init_recycle p" using 1(2) by (simp add: opt_took_def)
  show ?thesis
  proof (cases "a = 0")
    case True
    define p2 where "p2 = (if need_recycle \<and> \<not> o_init_recycle p then p1\<lparr>o_init_recycle := True\<rparr> else p1)"
    have "opt_ok p2" "fresh_device dev (opt_AlignMemorySize sz) (abs_pool p2)" and u: "bf_used (abs_pool p2) = bf_used (abs_pool p)"
      using 1(2) True found dev fresh_device_frame [OF _ 1(3)] by (simp_all add: opt_took_def p2_def)
    then obtain a2 p3 where 3: "opt_AddMemBlockAndMemBuf dev dbg (opt_AlignMemorySize sz) q need_recycle s p2 = Some (a2, p3)"
      "opt_took (opt_AlignMemorySize sz) p2 a2 p3"
      using opt_AddMemBlockAndMemBuf_ok [OF _ _ al s] by blast
    have "opt_AllocTensorMem dev dbg sz q need_recycle s p = Some (a2, p3)"
      using 3(1) True 1(1) init by (auto simp: opt_AllocTensorMem_def Let_def p2_def split: if_splits)
    moreover have "opt_gives (opt_AlignMemorySize sz) p a2 p3"
      using opt_took_gives [OF 3(2)] u by (auto simp: opt_gives_def split: if_splits)
    ultimately show ?thesis by blast
  next
    case False
    then have "opt_AllocTensorMem dev dbg sz q need_recycle s p = Some (a, p1)"
      using 1(1) found recycled init by (auto simp: opt_AllocTensorMem_def Let_def)
    then show ?thesis using opt_took_gives [OF 1(2)] by blast
  qed
qed

lemma opt_FreeTensorMem_ok:
  assumes ok: "opt_ok p" and held: "(a, n) \<in># bf_used (abs_pool p)"
  shows "\<exists>p'. opt_FreeTensorMem a p = Some p' \<and> opt_ok p' \<and> bf_used (abs_pool p) = add_mset (a, n) (bf_used (abs_pool p'))"
proof -
  have p: "opt_wf p" "bf_ok (abs_pool p)" "min_tensor_size p = 1024" using ok by (simp_all add: opt_ok_def)
  obtain p' where p': "opt_FreeTensorMem a p = Some p'" "opt_wf p'" "bf_FreeTensorMem a (abs_pool p) = Some (abs_pool p')"
    using FreeTensorMem_refines [OF p(1,2) held] by blast
  have "min_tensor_size p' = min_tensor_size p"
    using p'(1) by (auto simp: opt_FreeTensorMem_def opt_CombineMemBuf_mng bind_eq_Some_conv split: option.splits prod.splits)
  then show ?thesis using bf_FreeTensorMem_ok [OF p(2) held] p' p(3) by (auto simp: opt_ok_def)
qed

end
