(* ===== verification/Best_Fit_Theorems.thy ===== *)
theory Best_Fit_Theorems
  imports Best_Fit_Ops
begin

text \<open>
  What a client of \<open>DynamicMemPoolBestFit\<close> may rely on, from the interpretation of the contract of a pool
  of ranges on \<open>AllocTensorMem\<close> and \<open>FreeTensorMem\<close>, and the places where the statistics and the
  continuous allocation go wrong.
\<close>

section \<open>Held ranges are apart\<close>

lemma useds_in: "(a, n) \<in># useds cs \<Longrightarrow> \<exists>c \<in> set cs. buf_addr c = a \<and> buf_size c = n"
  by (auto simp: useds_def)

lemma useds_apart: "buf_tiles u cs v \<Longrightarrow> apart_all (useds cs)"
proof (induction cs arbitrary: u)
  case (Cons c cs)
  then have t: "buf_tiles (buf_end c) cs v" by auto
  have "disjoint_ranges (used_entry c) y" if "y \<in># useds cs" for y
    using that useds_in [of "fst y" "snd y" cs] buf_tiles_mem [OF t] by fastforce
  then show ?case using Cons.IH [OF t] apart_all_add [of "{#used_entry c#}" "useds cs"] by auto
qed simp

lemma used_bufs_in:
  "(a, n) \<in># used_bufs bl \<Longrightarrow> blocks_ok bl \<Longrightarrow>
   \<exists>b \<in> set bl. unat (block_base b) \<le> unat a \<and> unat a + unat n \<le> block_end b"
  by (fastforce simp: used_bufs_def dest!: useds_in dest: buf_in_block)

lemma used_bufs_apart: "blocks_ok bl \<Longrightarrow> apart_all (used_bufs bl)"
proof (induction bl)
  case (Cons b bl)
  then have ok: "block_ok b" "blocks_ok bl" "\<forall>x \<in> set bl. block_end b \<le> unat (block_base x)"
    by (simp_all add: blocks_ok_def)
  have "disjoint_ranges x y" if x: "x \<in># useds (block_bufs b)" and y: "y \<in># used_bufs bl" for x y
  proof -
    obtain c where "c \<in> set (block_bufs b)" "x = used_entry c" using useds_in [of "fst x" "snd x"] x by fastforce
    then have "unat (fst x) + unat (snd x) \<le> block_end b" using buf_in_block(2) [OF Cons.prems, of b c] by simp
    moreover obtain b' where "b' \<in> set bl" "unat (block_base b') \<le> unat (fst y)"
      using used_bufs_in [of "fst y" "snd y" bl] y ok(2) by auto
    ultimately show ?thesis using ok(3) by fastforce
  qed
  then show ?case using Cons.IH [OF ok(2)] useds_apart ok(1) by (auto simp: block_ok_def intro!: apart_all_add)
qed simp

lemma bf_used_apart:
  assumes "bf_ok p"
  shows "apart_all (bf_used p)"
proof -
  have ok: "blocks_ok (mem_block_list (common_mem p))" "blocks_ok (mem_block_list (persistent_mem p))"
    using assms by (simp_all add: bf_ok_def mng_ok_def)
  have "disjoint_ranges x y" if x: "x \<in># used_bufs (mem_block_list (common_mem p))" and y: "y \<in># used_bufs (mem_block_list (persistent_mem p))" for x y
  proof -
    obtain b where b: "b \<in> set (mem_block_list (common_mem p))" "unat (block_base b) \<le> unat (fst x)" "unat (fst x) + unat (snd x) \<le> block_end b"
      using used_bufs_in [of "fst x" "snd x"] x ok(1) by fastforce
    obtain c where c: "c \<in> set (mem_block_list (persistent_mem p))" "unat (block_base c) \<le> unat (fst y)" "unat (fst y) + unat (snd y) \<le> block_end c"
      using used_bufs_in [of "fst y" "snd y"] y ok(2) by fastforce
    have "disjoint_ranges (block_base b, block_size b) (block_base c, block_size c)"
      using assms b(1) c(1) by (auto simp: bf_ok_def block_ranges_def)
    then show ?thesis using b c by auto
  qed
  then show ?thesis unfolding bf_used_def using ok by (intro apart_all_add used_bufs_apart) auto
qed

section \<open>The contract\<close>

type_synonym bf_request = "bf_device \<times> AllocatorDebugInfo \<times> size_t \<times> bool \<times> bool \<times> uint32"

definition bf_alloc :: "bf_request \<Rightarrow> DynamicMemPoolBestFit \<Rightarrow> (device_ptr \<times> DynamicMemPoolBestFit) option" where
  "bf_alloc r p = (case r of (dev, dbg, sz, from_persistent_mem, need_recycle, stream_id) \<Rightarrow>
     bf_AllocTensorMem dev dbg sz from_persistent_mem need_recycle stream_id p)"

text \<open>
  A legal request: at most 2^62 bytes; when no idle buffer serves it, eager free is off at the device and
  the block that the pool asks for is fresh memory; and the first request of recycled memory finds no
  idle buffer.
\<close>

definition bf_legal :: "bf_request \<Rightarrow> DynamicMemPoolBestFit \<Rightarrow> bool" where
  "bf_legal r p = (case r of (dev, dbg, sz, from_persistent_mem, need_recycle, stream_id) \<Rightarrow>
     unat sz \<le> 2 ^ 62 \<and>
     (bf_found dev dbg sz from_persistent_mem stream_id p = Some 0 \<longrightarrow> fresh_device dev (bf_AlignMemorySize sz) p) \<and>
     (need_recycle \<longrightarrow> init_recycle_memory p \<or> bf_found dev dbg sz from_persistent_mem stream_id p = Some 0))"

definition bf_fits :: "bf_request \<Rightarrow> size_t \<Rightarrow> bool" where
  "bf_fits r n = (case r of (dev, dbg, sz, from_persistent_mem, need_recycle, stream_id) \<Rightarrow>
     bf_AlignMemorySize sz \<le> n \<and> unat n < unat (bf_AlignMemorySize sz) + 512)"

lemma bf_start_ok: "bf_ok DynamicMemPoolBestFit0" "bf_used DynamicMemPoolBestFit0 = {#}"
  by (simp_all add: bf_ok_def bf_used_def DynamicMemPoolBestFit0_def MemStatusManager0_def DeviceState0_def mng_ok_def
      blocks_ok_def block_ranges_def idle_of_def)

lemma bf_alloc_ok:
  assumes "bf_ok p" "bf_legal r p"
  shows "\<exists>a p'. bf_alloc r p = Some (a, p') \<and> bf_ok p' \<and>
    (if a = 0 then bf_used p' = bf_used p else \<exists>n. bf_fits r n \<and> bf_used p' = add_mset (a, n) (bf_used p))"
proof -
  obtain dev dbg sz q nr s where r: "r = (dev, dbg, sz, q, nr, s)" by (cases r)
  have l: "bf_found dev dbg sz q s p = Some 0 \<Longrightarrow> fresh_device dev (bf_AlignMemorySize sz) p" "unat sz \<le> 2 ^ 62"
    "nr \<longrightarrow> init_recycle_memory p \<or> bf_found dev dbg sz q s p = Some 0"
    using assms(2) by (simp_all add: bf_legal_def r)
  obtain a p' where "bf_AllocTensorMem dev dbg sz q nr s p = Some (a, p')" "bf_gives (bf_AlignMemorySize sz) p a p'"
    using bf_AllocTensorMem_ok [OF assms(1) l] by blast
  then show ?thesis by (auto simp: bf_alloc_def bf_fits_def bf_gives_def r)
qed

interpretation bf: range_pool bf_alloc bf_FreeTensorMem bf_legal DynamicMemPoolBestFit0 bf_ok bf_used bf_fits
proof
  show "bf_ok DynamicMemPoolBestFit0" "bf_used DynamicMemPoolBestFit0 = {#}" by (rule bf_start_ok)+
  show "apart_all (bf_used p)" if "bf_ok p" for p by (rule bf_used_apart [OF that])
  show "\<exists>a p'. bf_alloc r p = Some (a, p') \<and> bf_ok p' \<and>
      (if a = 0 then bf_used p' = bf_used p else \<exists>n. bf_fits r n \<and> bf_used p' = add_mset (a, n) (bf_used p))"
    if "bf_ok p" "bf_legal r p" for p r by (rule bf_alloc_ok [OF that])
  show "\<exists>p'. bf_FreeTensorMem a p = Some p' \<and> bf_ok p' \<and> bf_used p = add_mset (a, n) (bf_used p')"
    if "bf_ok p" "(a, n) \<in># bf_used p" for p a n
    using bf_FreeTensorMem_ok [OF that] by blast
qed

lemma bf_used_statistic: "bf_ok p \<Longrightarrow> bf_TotalUsedMemStatistics p = (\<Sum>r \<in># bf_used p. snd r)"
  by (simp add: bf_TotalUsedMemStatistics_def bf_ok_def mng_ok_def bf_used_def)

abbreviation bf_client :: "device_ptr list \<Rightarrow> DynamicMemPoolBestFit \<Rightarrow> bool" where
  "bf_client \<equiv> client_reach bf_alloc bf_FreeTensorMem bf_legal DynamicMemPoolBestFit0"

text \<open>
  A pool after one request of 1000 bytes, on the device of the base class, whose \<open>malloc\<close> returns an
  address at which a block of 1 GB ends before 2^64.
\<close>

definition example_device :: bf_device where
  "example_device = base_device 0x100000"

lemma base_device_fresh:
  assumes "addr \<noteq> 0" "bf_ranges p = {}"
    and "\<And>q n. bf_CalMemBlockAllocSize (base_device addr) sz q p = Some n \<Longrightarrow> unat addr + unat n < 2 ^ 64"
  shows "fresh_device (base_device addr) sz p"
  using assms by (auto simp: fresh_device_def fresh_block_def base_device_def)

definition example_debug :: AllocatorDebugInfo where
  "example_debug = \<lparr>dbg_name = ''weight'', dbg_type = AtWeight\<rparr>"

definition example_pool :: DynamicMemPoolBestFit where
  "example_pool = snd (the (bf_AllocTensorMem example_device example_debug 1000 False False 0 DynamicMemPoolBestFit0))"

lemma example_size: "bf_CalMemBlockAllocSize example_device (bf_AlignMemorySize 1000) q DynamicMemPoolBestFit0 = Some (2 ^ 30)"
proof -
  have "\<forall>q \<in> {True, False}. bf_CalMemBlockAllocSize example_device (bf_AlignMemorySize 1000) q DynamicMemPoolBestFit0 = Some (2 ^ 30)"
    by code_simp
  then show ?thesis by (cases q) simp_all
qed

lemma example_legal: "bf_legal (example_device, example_debug, 1000, False, False, 0) DynamicMemPoolBestFit0"
proof -
  have "bf_ranges DynamicMemPoolBestFit0 = {}"
    by (simp add: bf_ranges_def DynamicMemPoolBestFit0_def MemStatusManager0_def block_ranges_def)
  then have "fresh_device example_device (bf_AlignMemorySize 1000) DynamicMemPoolBestFit0"
    using example_size unfolding example_device_def by (intro base_device_fresh) auto
  then show ?thesis by (simp add: bf_legal_def)
qed

lemma example_alloc: "bf_AllocTensorMem example_device example_debug 1000 False False 0 DynamicMemPoolBestFit0 = Some (0x100000, example_pool)"
proof -
  have "map_option fst (bf_AllocTensorMem example_device example_debug 1000 False False 0 DynamicMemPoolBestFit0) = Some 0x100000"
    by code_simp
  then show ?thesis by (cases "bf_AllocTensorMem example_device example_debug 1000 False False 0 DynamicMemPoolBestFit0")
      (auto simp: example_pool_def)
qed

lemma example_client: "bf_client [0x100000] example_pool"
proof -
  have start: "bf_client [] DynamicMemPoolBestFit0" by (rule client_start)
  have "bf_alloc (example_device, example_debug, 1000, False, False, 0) DynamicMemPoolBestFit0 = Some (0x100000, example_pool)"
    by (simp add: bf_alloc_def example_alloc)
  from client_alloc [OF start example_legal this] show ?thesis by simp
qed

lemma example_blocks:
  "mem_block_list (common_mem example_pool) =
     [\<lparr>block_bufs =
         [\<lparr>buf_addr = 0x100000, buf_status = MemBufUsed, buf_size = 1024, allocator_name = ''weight'', alloc_kind = AtWeight\<rparr>,
          \<lparr>buf_addr = 0x100400, buf_status = MemBufIdle, buf_size = 2 ^ 30 - 1024, allocator_name = [], alloc_kind = AtOther\<rparr>],
       block_base = 0x100000, block_size = 2 ^ 30, block_stream = 0\<rparr>]"
  "mem_block_list (persistent_mem example_pool) = []"
  by code_simp+

section \<open>Properties\<close>

text \<open>
  C16. A client of the best-fit pool that starts with the empty pool, makes legal requests and frees only
  addresses it holds always gets an answer. A request fails and changes no held range, or it returns the
  start of a new range of at least the aligned size and less than 512 bytes more; a release takes away
  exactly the range at its address. The held addresses of the pool are those of the client, held ranges
  never overlap, and the statistic of used memory is their total size. Legal is a request of at most 2^62
  bytes that an idle buffer serves, or for which the device, without eager free, has a fresh block of the
  size the pool asks for (the device of the base class: \<open>malloc\<close> returns new memory); the first request
  of recycled memory must not find an idle buffer. Eager free is not covered.
\<close>

theorem best_fit_pool_contract:
  assumes "bf_client hs p"
  shows "image_mset fst (bf_used p) = mset hs \<and> apart_all (bf_used p) \<and> bf_TotalUsedMemStatistics p = (\<Sum>r \<in># bf_used p. snd r) \<and>
    (bf_legal (dev, dbg, sz, from_persistent_mem, need_recycle, stream_id) p \<longrightarrow>
      (\<exists>a p'. bf_AllocTensorMem dev dbg sz from_persistent_mem need_recycle stream_id p = Some (a, p') \<and>
        (if a = 0 then bf_used p' = bf_used p
         else \<exists>n. bf_AlignMemorySize sz \<le> n \<and> unat n < unat (bf_AlignMemorySize sz) + 512 \<and> bf_used p' = add_mset (a, n) (bf_used p)))) \<and>
    (a \<in> set hs \<longrightarrow> (\<exists>n p'. bf_FreeTensorMem a p = Some p' \<and> bf_used p = add_mset (a, n) (bf_used p')))"
  using bf.client_ok [OF assms] bf.client_release [OF assms, of a] bf.client_apart [OF assms] bf_used_statistic [of p]
    bf.client_request [OF assms, of "(dev, dbg, sz, from_persistent_mem, need_recycle, stream_id)", unfolded bf_alloc_def bf_fits_def prod.case conj_assoc]
  by blast

theorem best_fit_pool_contract_witness:
  "image_mset fst (bf_used example_pool) = {#0x100000#} \<and> bf_TotalUsedMemStatistics example_pool = 1024 \<and>
   (\<exists>n p'. bf_FreeTensorMem 0x100000 example_pool = Some p' \<and> bf_used example_pool = add_mset (0x100000, n) (bf_used p'))"
  using best_fit_pool_contract [OF example_client, where a = "0x100000"] by (simp add: bf_used_def example_blocks)

text \<open>
  C19. The first request of recycled memory loses a buffer: whenever an idle buffer of the stream is large
  enough, the request takes it into use, drops its address and asks the device for another block. After
  it the pool counts the buffer as used although no client holds its address, so it can never be freed.
\<close>

theorem first_recycle_loses_buffer:
  assumes "bf_client hs p" and "\<not> init_recycle_memory p" and "unat sz \<le> 2 ^ 62"
    and "bf_found dev dbg sz from_persistent_mem stream_id p = Some b" and "b \<noteq> 0"
    and "fresh_device dev (bf_AlignMemorySize sz) p"
  shows "\<exists>a p' n. bf_AllocTensorMem dev dbg sz from_persistent_mem True stream_id p = Some (a, p') \<and>
    (b, n) \<in># bf_used p' \<and> bf_AlignMemorySize sz \<le> n \<and>
    image_mset fst (bf_used p') = mset (b # (if a = 0 then hs else a # hs))"
proof -
  have ok: "bf_ok p" "image_mset fst (bf_used p) = mset hs" using bf.client_ok [OF assms(1)] by simp_all
  from bf_AllocTensorMem_loses [OF ok(1) assms(6,3,2,4,5)] obtain a p' n where
    *: "bf_AllocTensorMem dev dbg sz from_persistent_mem True stream_id p = Some (a, p')" "bf_AlignMemorySize sz \<le> n"
      "if a = 0 then bf_used p' = add_mset (b, n) (bf_used p)
       else \<exists>k. bf_AlignMemorySize sz \<le> k \<and> bf_used p' = add_mset (a, k) (add_mset (b, n) (bf_used p))" by blast
  then show ?thesis using ok(2) by (intro exI [of _ a] exI [of _ p'] exI [of _ n]) (auto split: if_splits)
qed

theorem first_recycle_loses_buffer_witness:
  "\<exists>a p' n. bf_AllocTensorMem (base_device 0x50000000) example_debug 2048 False True 0 example_pool = Some (a, p') \<and>
    (0x100400, n) \<in># bf_used p' \<and> 2048 \<le> n \<and> image_mset fst (bf_used p') = mset (0x100400 # (if a = 0 then [0x100000] else [a, 0x100000]))"
proof -
  have al: "bf_AlignMemorySize 2048 = 2048" by code_simp
  have f: "bf_found (base_device 0x50000000) example_debug 2048 False 0 example_pool = Some 0x100400" by code_simp
  have i: "\<not> init_recycle_memory example_pool" by code_simp
  have n: "\<forall>q \<in> {True, False}. bf_CalMemBlockAllocSize (base_device 0x50000000) 2048 q example_pool = Some (2 ^ 30)" by code_simp
  have "fresh_block (base_device 0x50000000) (2 ^ 30) example_pool"
    by (simp add: fresh_block_def base_device_def bf_ranges_def block_ranges_def example_blocks)
  moreover have "bf_CalMemBlockAllocSize (base_device 0x50000000) 2048 q example_pool = Some (2 ^ 30)" for q using n by (cases q) simp_all
  ultimately have "fresh_device (base_device 0x50000000) (bf_AlignMemorySize 2048) example_pool"
    by (simp add: fresh_device_def al base_device_def)
  from first_recycle_loses_buffer [OF example_client i _ f _ this] show ?thesis by (simp add: al)
qed

text \<open>
  The search for an idle buffer finds one whenever the stream has one that is large enough, and of those
  it takes a smallest: what is left over is split off from 512 bytes on.
\<close>

theorem best_fit_takes_smallest:
  assumes "bf_client hs p" "0 < sz" and idle: "idle = idle_bufs stream_id (mem_block_list (get_mng from_persistent_mem p))"
  shows "\<exists>a p'. FindMemBufInSpecifiedMng dbg sz from_persistent_mem MemBufIdle stream_id p = Some (a, p') \<and>
    (if a = 0 then \<forall>(n, _) \<in># idle. n < sz
     else \<exists>n. (n, a) \<in># idle \<and> sz \<le> n \<and> (\<forall>(k, _) \<in># idle. sz \<le> k \<longrightarrow> n \<le> k) \<and>
       bf_used p' = add_mset (a, if 512 \<le> n - sz then sz else n) (bf_used p))"
proof -
  have ok: "bf_ok p" using bf.client_ok [OF assms(1)] by simp
  obtain a m where *: "FindMemBufInSpecifiedMng dbg sz from_persistent_mem MemBufIdle stream_id p = Some (a, set_mng from_persistent_mem m p)"
    "taken (IsSplit sz) sz stream_id (get_mng from_persistent_mem p) a m"
    using FindMemBufInSpecifiedMng_ok [OF bf_ok_mng [OF ok] assms(2)] by blast
  then show ?thesis
    by (auto simp: taken_def idle bf_used_mng [of _ from_persistent_mem] IsSplit_def kDynamicMemAlignSize_def
        simp del: if_split split: if_split_asm)
qed

theorem best_fit_takes_smallest_witness:
  "\<exists>a p'. FindMemBufInSpecifiedMng example_debug 2048 False MemBufIdle 0 example_pool = Some (a, p') \<and>
    a = 0x100400 \<and> bf_used p' = {#(0x100400, 2048), (0x100000, 1024)#}"
proof -
  have u: "bf_used example_pool = {#(0x100000, 1024)#}" by (simp add: bf_used_def example_blocks)
  have i: "{#(2 ^ 30 - 1024, 0x100400)#} = idle_bufs 0 (mem_block_list (get_mng False example_pool))"
    by (simp add: get_mng_def example_blocks)
  show ?thesis
    using best_fit_takes_smallest [OF example_client _ i, of 2048 example_debug] by (auto simp: u word_le_nat_alt word_less_nat_alt split: if_splits)
qed

text \<open>
  The statistic of idle memory is wrong: after one request on an empty pool it is 0 although almost all of
  the new block is idle, and a second request served from this idle memory makes it wrap below 0.
\<close>

theorem best_fit_idle_statistic_wraps:
  "bf_TotalIdleMemStatistics example_pool = 0 \<and>
   bf_TotalMemStatistics example_pool - bf_TotalUsedMemStatistics example_pool = 2 ^ 30 - 1024 \<and>
   map_option (\<lambda>(a, p). (a, bf_TotalIdleMemStatistics p))
     (bf_AllocTensorMem example_device example_debug 3000 False False 0 example_pool) = Some (0x100400, - 3072)"
  by code_simp

text \<open>
  \<open>AllocContinuousTensorMem\<close> adds the sizes in an \<open>int\<close>: for one size of 4 GB it asks for 0 bytes, gets one
  granule, and enters a buffer of 2^32 + 512 bytes that reaches beyond the granule into idle memory.
\<close>

theorem best_fit_continuous_overflows:
  "map_option (\<lambda>(as, p). (as, map (map used_entry \<circ> block_bufs) (mem_block_list (common_mem p))))
     (bf_AllocContinuousTensorMem example_device example_debug [2 ^ 32] 0 DynamicMemPoolBestFit0) =
   Some ([0x100000], [[(0x100000, 2 ^ 32 + 512), (0x100200, 2 ^ 30 - 512)]])"
  by code_simp

end
