(* ===== verification/Best_Fit_Opt_Theorems.thy ===== *)
theory Best_Fit_Opt_Theorems
  imports Best_Fit_Opt_Alloc Best_Fit_Theorems
begin

text \<open>
  What a client of \<open>DynamicMemPoolBestFitOpt\<close> may rely on, from a second interpretation of the contract of a
  pool of ranges, and how it compares with \<open>DynamicMemPoolBestFit\<close>.
\<close>

section \<open>The contract\<close>

definition opt_alloc :: "bf_request \<Rightarrow> DynamicMemPoolBestFitOpt \<Rightarrow> (device_ptr \<times> DynamicMemPoolBestFitOpt) option" where
  "opt_alloc r p = (case r of (dev, dbg, sz, from_persistent_mem, need_recycle, stream_id) \<Rightarrow>
     opt_AllocTensorMem dev dbg sz from_persistent_mem need_recycle stream_id p)"

text \<open>A legal request is as for the other pool, on one of the 128 streams that have their maps.\<close>

definition opt_legal :: "bf_request \<Rightarrow> DynamicMemPoolBestFitOpt \<Rightarrow> bool" where
  "opt_legal r p = (case r of (dev, dbg, sz, from_persistent_mem, need_recycle, stream_id) \<Rightarrow>
     unat sz \<le> 2 ^ 62 \<and> unat stream_id < 128 \<and>
     (opt_found dev dbg sz from_persistent_mem stream_id p = Some 0 \<longrightarrow> fresh_device dev (opt_AlignMemorySize sz) (abs_pool p)) \<and>
     (need_recycle \<longrightarrow> o_init_recycle p \<or> opt_found dev dbg sz from_persistent_mem stream_id p = Some 0))"

definition opt_fits :: "bf_request \<Rightarrow> size_t \<Rightarrow> bool" where
  "opt_fits r n = (case r of (dev, dbg, sz, from_persistent_mem, need_recycle, stream_id) \<Rightarrow>
     opt_AlignMemorySize sz \<le> n \<and> unat n < unat (opt_AlignMemorySize sz) + max 1024 (unat (opt_AlignMemorySize sz)))"

lemma opt_alloc_ok:
  assumes "opt_ok p" "opt_legal r p"
  shows "\<exists>a p'. opt_alloc r p = Some (a, p') \<and> opt_ok p' \<and>
    (if a = 0 then bf_used (abs_pool p') = bf_used (abs_pool p)
     else \<exists>n. opt_fits r n \<and> bf_used (abs_pool p') = add_mset (a, n) (bf_used (abs_pool p)))"
proof -
  obtain dev dbg sz q nr s where r: "r = (dev, dbg, sz, q, nr, s)" by (cases r)
  have l: "opt_found dev dbg sz q s p = Some 0 \<Longrightarrow> fresh_device dev (opt_AlignMemorySize sz) (abs_pool p)" "unat sz \<le> 2 ^ 62"
    "unat s < 128" "nr \<longrightarrow> o_init_recycle p \<or> opt_found dev dbg sz q s p = Some 0"
    using assms(2) by (simp_all add: opt_legal_def r)
  obtain a p' where "opt_AllocTensorMem dev dbg sz q nr s p = Some (a, p')" "opt_gives (opt_AlignMemorySize sz) p a p'"
    using opt_AllocTensorMem_ok [OF assms(1) l] by blast
  then show ?thesis by (auto simp: opt_alloc_def opt_fits_def opt_gives_def r)
qed

lemma idle_of_empty: "idle_of (enum_from k (replicate n [])) s = []"
  by (induction n arbitrary: k) (auto simp: idle_of_def split: option.splits)

lemma opt_start_ok: "opt_ok DynamicMemPoolBestFitOpt0" "bf_used (abs_pool DynamicMemPoolBestFitOpt0) = {#}"
proof -
  have i: "idle_of (enum_from 0 (replicate 128 [])) s = []" for s by (rule idle_of_empty)
  show "opt_ok DynamicMemPoolBestFitOpt0" "bf_used (abs_pool DynamicMemPoolBestFitOpt0) = {#}"
    by (simp_all add: opt_ok_def opt_wf_def mng_wf_def bf_ok_def mng_ok_def blocks_ok_def block_ranges_def bf_used_def i
        DynamicMemPoolBestFitOpt0_def opt_manager0_def DeviceState0_def abs_pool_def abs_mng_def)
qed

interpretation opt: range_pool opt_alloc opt_FreeTensorMem opt_legal DynamicMemPoolBestFitOpt0 opt_ok "\<lambda>p. bf_used (abs_pool p)" opt_fits
proof
  show "opt_ok DynamicMemPoolBestFitOpt0" "bf_used (abs_pool DynamicMemPoolBestFitOpt0) = {#}" by (rule opt_start_ok)+
  show "apart_all (bf_used (abs_pool p))" if "opt_ok p" for p using that by (intro bf_used_apart) (simp add: opt_ok_def)
  show "\<exists>a p'. opt_alloc r p = Some (a, p') \<and> opt_ok p' \<and>
      (if a = 0 then bf_used (abs_pool p') = bf_used (abs_pool p)
       else \<exists>n. opt_fits r n \<and> bf_used (abs_pool p') = add_mset (a, n) (bf_used (abs_pool p)))"
    if "opt_ok p" "opt_legal r p" for p r by (rule opt_alloc_ok [OF that])
  show "\<exists>p'. opt_FreeTensorMem a p = Some p' \<and> opt_ok p' \<and> bf_used (abs_pool p) = add_mset (a, n) (bf_used (abs_pool p'))"
    if "opt_ok p" "(a, n) \<in># bf_used (abs_pool p)" for p a n by (rule opt_FreeTensorMem_ok [OF that])
qed

abbreviation opt_client :: "device_ptr list \<Rightarrow> DynamicMemPoolBestFitOpt \<Rightarrow> bool" where
  "opt_client \<equiv> client_reach opt_alloc opt_FreeTensorMem opt_legal DynamicMemPoolBestFitOpt0"

definition opt_example_pool :: DynamicMemPoolBestFitOpt where
  "opt_example_pool = snd (the (opt_AllocTensorMem example_device example_debug 1000 False False 5 DynamicMemPoolBestFitOpt0))"

lemma opt_example_legal: "opt_legal (example_device, example_debug, 1000, False, False, 5) DynamicMemPoolBestFitOpt0"
proof -
  have "bf_ranges (abs_pool DynamicMemPoolBestFitOpt0) = {}"
    by (simp add: bf_ranges_def DynamicMemPoolBestFitOpt0_def opt_manager0_def block_ranges_def abs_pool_def abs_mng_def)
  moreover have n: "\<forall>q \<in> {True, False}. opt_CalMemBlockAllocSize example_device (opt_AlignMemorySize 1000) q DynamicMemPoolBestFitOpt0 = Some (2 ^ 30)"
    by code_simp
  then have "bf_CalMemBlockAllocSize example_device (opt_AlignMemorySize 1000) q (abs_pool DynamicMemPoolBestFitOpt0) = Some (2 ^ 30)" for q
    by (cases q) (simp_all add: opt_CalMemBlockAllocSize_eq)
  ultimately have "fresh_device example_device (opt_AlignMemorySize 1000) (abs_pool DynamicMemPoolBestFitOpt0)"
    unfolding example_device_def by (intro base_device_fresh) auto
  then show ?thesis by (simp add: opt_legal_def)
qed

lemma opt_example_alloc: "opt_AllocTensorMem example_device example_debug 1000 False False 5 DynamicMemPoolBestFitOpt0 = Some (0x100000, opt_example_pool)"
proof -
  have "map_option fst (opt_AllocTensorMem example_device example_debug 1000 False False 5 DynamicMemPoolBestFitOpt0) = Some 0x100000"
    by code_simp
  then show ?thesis by (cases "opt_AllocTensorMem example_device example_debug 1000 False False 5 DynamicMemPoolBestFitOpt0")
      (auto simp: opt_example_pool_def)
qed

lemma opt_example_client: "opt_client [0x100000] opt_example_pool"
proof -
  have start: "opt_client [] DynamicMemPoolBestFitOpt0" by (rule client_start)
  have "opt_alloc (example_device, example_debug, 1000, False, False, 5) DynamicMemPoolBestFitOpt0 = Some (0x100000, opt_example_pool)"
    by (simp add: opt_alloc_def opt_example_alloc)
  from client_alloc [OF start opt_example_legal this] show ?thesis by simp
qed

section \<open>Properties\<close>

text \<open>
  C17. The optimised pool keeps the contract of the other pool for clients that start with the empty pool,
  make legal requests and free only addresses they hold: every request and release returns, held ranges never
  overlap, and the statistic of used memory is their total size. Legal is a request of at most 2^62 bytes on
  a stream below 128 that an idle buffer serves, or for which the device, without eager free, has a fresh
  block of the size the pool asks for; the first request of recycled memory must not find an idle buffer.
  The ranges may be larger than requested: by less than 1024 bytes, or by less than the request itself where
  a new block was not divided. Eager free is not covered.
\<close>

theorem optimised_pool_contract:
  assumes "opt_client hs p"
  shows "image_mset fst (bf_used (abs_pool p)) = mset hs \<and> apart_all (bf_used (abs_pool p)) \<and>
    opt_TotalUsedMemStatistics p = (\<Sum>r \<in># bf_used (abs_pool p). snd r) \<and>
    (opt_legal (dev, dbg, sz, from_persistent_mem, need_recycle, stream_id) p \<longrightarrow>
      (\<exists>a p'. opt_AllocTensorMem dev dbg sz from_persistent_mem need_recycle stream_id p = Some (a, p') \<and>
        (if a = 0 then bf_used (abs_pool p') = bf_used (abs_pool p)
         else \<exists>n. opt_AlignMemorySize sz \<le> n \<and> unat n < unat (opt_AlignMemorySize sz) + max 1024 (unat (opt_AlignMemorySize sz)) \<and>
           bf_used (abs_pool p') = add_mset (a, n) (bf_used (abs_pool p))))) \<and>
    (a \<in> set hs \<longrightarrow> (\<exists>n p'. opt_FreeTensorMem a p = Some p' \<and> bf_used (abs_pool p) = add_mset (a, n) (bf_used (abs_pool p'))))"
proof -
  have "opt_TotalUsedMemStatistics p = bf_TotalUsedMemStatistics (abs_pool p)"
    by (simp add: opt_TotalUsedMemStatistics_def bf_TotalUsedMemStatistics_def abs_pool_def)
  moreover have "bf_ok (abs_pool p)" using opt.client_ok [OF assms] by (simp add: opt_ok_def)
  ultimately show ?thesis
    using opt.client_ok [OF assms] opt.client_release [OF assms, of a] opt.client_apart [OF assms] bf_used_statistic [of "abs_pool p"]
      opt.client_request [OF assms, of "(dev, dbg, sz, from_persistent_mem, need_recycle, stream_id)", unfolded opt_alloc_def opt_fits_def prod.case conj_assoc]
    by (simp only:) blast
qed

theorem optimised_pool_contract_witness:
  "image_mset fst (bf_used (abs_pool opt_example_pool)) = {#0x100000#} \<and>
   (\<exists>n p'. opt_FreeTensorMem 0x100000 opt_example_pool = Some p' \<and>
     bf_used (abs_pool opt_example_pool) = add_mset (0x100000, n) (bf_used (abs_pool p')))"
  using optimised_pool_contract [OF opt_example_client, where a = "0x100000"] by simp

text \<open>
  C18. Releasing held memory is the same function in both pools: for every client of the optimised pool and
  every address it holds, \<open>FreeTensorMem\<close> returns, without reading or leaving a pointer to a deleted buffer,
  and commutes with the abstraction to the maps of the other pool. Alignment is the same too. Addresses
  that are not held, as in a double free, are not covered.
\<close>

theorem optimised_free_equivalent:
  assumes "opt_client hs p" "a \<in> set hs"
  shows "\<exists>p'. opt_FreeTensorMem a p = Some p' \<and> bf_FreeTensorMem a (abs_pool p) = Some (abs_pool p') \<and>
    opt_AlignMemorySize sz = bf_AlignMemorySize sz"
proof -
  have ok: "opt_wf p" "bf_ok (abs_pool p)" "image_mset fst (bf_used (abs_pool p)) = mset hs"
    using opt.client_ok [OF assms(1)] by (simp_all add: opt_ok_def)
  have "a \<in># image_mset fst (bf_used (abs_pool p))" using assms(2) ok(3) by simp
  then obtain n where "(a, n) \<in># bf_used (abs_pool p)" by auto
  from FreeTensorMem_refines [OF ok(1,2) this] show ?thesis by (auto simp: opt_AlignMemorySize_eq bf_AlignMemorySize_eq)
qed

theorem optimised_free_equivalent_witness:
  "\<exists>p'. opt_FreeTensorMem 0x100000 opt_example_pool = Some p' \<and> bf_FreeTensorMem 0x100000 (abs_pool opt_example_pool) = Some (abs_pool p') \<and>
    opt_AlignMemorySize 1000 = bf_AlignMemorySize 1000"
  using optimised_free_equivalent [OF opt_example_client, of "0x100000" 1000] by simp

text \<open>
  After \<open>ReleaseDeviceRes\<close> the optimised pool cannot be used again: \<open>Clear\<close> leaves the vectors of the
  streams without elements, and the next request, on any stream, indexes them beyond their end.
\<close>

theorem optimised_pool_dead_after_release:
  "opt_AllocTensorMem dev dbg sz from_persistent_mem need_recycle stream_id (snd (opt_ReleaseDeviceRes p)) = None"
  by (simp add: opt_AllocTensorMem_def opt_FindAvailableMemBuf_def opt_FindMemBufByStatus_def opt_FindMemBufInSpecifiedMng_def
      opt_ReleaseDeviceRes_def opt_Clear_def opt_mng_def vec_at_def Let_def)

text \<open>Eager free empties the vector of the idle maps in the same way.\<close>

lemma eager_free_breaks_idle_maps:
  assumes "opt_FreeIdleMemsByEagerFree dev p = Some (n, p')"
  shows "o_idle (o_common p') = [] \<and> opt_AllocTensorMem dev' dbg sz False need_recycle stream_id p' = None"
proof -
  have "o_idle (o_common p') = []"
    using assms by (auto simp: opt_FreeIdleMemsByEagerFree_def opt_eager_free_mng_def opt_set_mng_def bind_eq_Some_conv)
  then show ?thesis
    by (simp add: opt_AllocTensorMem_def opt_FindAvailableMemBuf_def opt_FindMemBufByStatus_def opt_FindMemBufInSpecifiedMng_def
        opt_mng_def vec_at_def Let_def)
qed

end
