(* ===== verification/Net_Message.thy ===== *)
theory Net_Message
  imports Prelude
begin

text \<open>
  The messages of \<open>src/net\<close> and their encoding: \<open>AID\<close> (\<open>aid.h\<close>), \<open>MessageBase\<close> (\<open>msg.h\<close>),
  \<open>MessageHeader\<close>, \<open>FillMessageHeader\<close> and \<open>GetMessageSize\<close> (\<open>constants.h\<close>). A \<open>std::string\<close> is a list
  of characters; its size, like the size of every object that is in memory, is a number. The length
  fields of the header are 32-bit words, stored in memory with the least significant byte first.
  The encoding of the header is shown to be invertible.
\<close>

section \<open>Constants\<close>

definition RPC_MAGICID :: string where "RPC_MAGICID = ''RPC0''"
definition MAX_KMSG_FROM_LEN :: nat where "MAX_KMSG_FROM_LEN = 1024"
definition MAX_KMSG_TO_LEN :: nat where "MAX_KMSG_TO_LEN = 1024"
definition MAX_KMSG_NAME_LEN :: nat where "MAX_KMSG_NAME_LEN = 1024"
definition MAX_KMSG_BODY_LEN :: nat where "MAX_KMSG_BODY_LEN = 1073741824"
definition SENDMSG_QUEUELEN :: nat where "SENDMSG_QUEUELEN = 1024"

datatype ParseType = kTcpMsg | kHttpReq | kHttpRsp | kUnknown

datatype State = kMsgHeader | kBody

datatype ConnectionState = kInit | kConnecting | kConnected | kDisconnecting | kClose

section \<open>Actor ids and messages\<close>

text \<open>
  The constructor of an \<open>AID\<close> ends with \<open>SetUnfixUrl\<close>, which is declared in \<open>aid.h\<close> and implemented
  outside the repository: it is the parameter \<open>unfix\<close>, a function of the url.
\<close>

record AID =
  aid_name :: string
  aid_url :: string

definition make_AID :: "(string \<Rightarrow> string) \<Rightarrow> string \<Rightarrow> string \<Rightarrow> AID" where
  "make_AID unfix tmpName sUrl = \<lparr>aid_name = tmpName, aid_url = unfix sUrl\<rparr>"

text \<open>The conversion of an \<open>AID\<close> to a string.\<close>

definition aid_string :: "AID \<Rightarrow> string" where
  "aid_string a = aid_name a @ ''@'' @ aid_url a"

datatype message_type = KMSG | KUDP | KHTTP | KASYNC | KLOCAL | KEXIT | KTERMINATE

text \<open>
  \<open>msg_data\<close> is the memory the raw pointer \<open>data\<close> points to, \<open>None\<close> for the null pointer; \<open>msg_size\<close> is the
  \<open>size\<close> that goes with it.
\<close>

record MessageBase =
  msg_from :: AID
  msg_to :: AID
  msg_name :: string
  msg_body :: string
  msg_data :: "string option"
  msg_size :: nat
  msg_type :: message_type
  func_id :: uint32

definition AID0 :: AID where
  "AID0 = \<lparr>aid_name = [], aid_url = []\<rparr>"

definition MessageBase0 :: MessageBase where
  "MessageBase0 = \<lparr>msg_from = AID0, msg_to = AID0, msg_name = [], msg_body = [], msg_data = None,
                   msg_size = 0, msg_type = KMSG, func_id = 0\<rparr>"

section \<open>Byte order\<close>

text \<open>The bytes of a word in memory, and the word in four bytes of memory.\<close>

definition u32_bytes :: "uint32 \<Rightarrow> string" where
  "u32_bytes w = [char_of (unat w), char_of (unat w div 2 ^ 8), char_of (unat w div 2 ^ 16), char_of (unat w div 2 ^ 24)]"

fun u32_of_bytes :: "string \<Rightarrow> uint32" where
  "u32_of_bytes (a # b # c # d # _) =
     of_nat (of_char a + 2 ^ 8 * of_char b + 2 ^ 16 * of_char c + 2 ^ 24 * of_char d)"
| "u32_of_bytes _ = 0"

definition htonl :: "uint32 \<Rightarrow> uint32" where
  "htonl w = u32_of_bytes (rev (u32_bytes w))"

definition ntohl :: "uint32 \<Rightarrow> uint32" where
  "ntohl w = u32_of_bytes (rev (u32_bytes w))"

lemma length_u32_bytes [simp]: "length (u32_bytes w) = 4"
  by (simp add: u32_bytes_def)

lemma base_256:
  fixes n :: nat
  assumes "n < 2 ^ 32"
  shows "n mod 256 + 256 * (n div 256 mod 256) + 65536 * (n div 65536 mod 256)
    + 16777216 * (n div 16777216 mod 256) = n"
proof -
  define q1 q2 q3 where q: "q1 = n div 256" "q2 = q1 div 256" "q3 = q2 div 256"
  have eqs: "n div 65536 = q2" "n div 16777216 = q3"
    by (simp_all add: q div_mult2_eq [symmetric])
  have "q3 < 256" using assms by (simp add: eqs [symmetric] less_mult_imp_div_less)
  then have m: "q3 mod 256 = q3" by simp
  have "n = n mod 256 + 256 * q1" "q1 = q1 mod 256 + 256 * q2" "q2 = q2 mod 256 + 256 * q3"
    unfolding q by (simp_all only: mod_mult_div_eq)
  moreover define r0 r1 r2 where "r0 = n mod 256" "r1 = q1 mod 256" "r2 = q2 mod 256"
  ultimately show ?thesis unfolding eqs m q(1) [symmetric] by simp
qed

lemma u32_of_u32_bytes [simp]: "u32_of_bytes (u32_bytes w) = w"
proof -
  have "unat w < 2 ^ 32" using unsigned_less [of w, where ?'a = nat] by simp
  note n = base_256 [OF this]
  have "u32_of_bytes (u32_bytes w) = of_nat (unat w mod 256 + 256 * (unat w div 256 mod 256)
      + 65536 * (unat w div 65536 mod 256) + 16777216 * (unat w div 16777216 mod 256))"
    by (simp add: u32_bytes_def del: of_nat_mod)
  then show ?thesis unfolding n by simp
qed

lemma of_char_less: "(of_char c :: nat) < 256"
  using of_char_mod_256 [of c] by (metis mod_less_divisor zero_less_numeral)

lemma u32_bytes_of_bytes:
  assumes "length s = 4"
  shows "u32_bytes (u32_of_bytes s) = s"
proof -
  obtain a b c d where s: "s = [a, b, c, d]" using assms by (auto simp: length_Suc_conv eval_nat_numeral)
  define n where "n = of_char a + 256 * of_char b + 65536 * of_char c + 16777216 * (of_char d :: nat)"
  have lt: "(of_char a :: nat) < 256" "(of_char b :: nat) < 256" "(of_char c :: nat) < 256" "(of_char d :: nat) < 256"
    by (rule of_char_less)+
  then have "n < 4294967296" unfolding n_def by linarith
  then have "n < 2 ^ 32" by simp
  then have u: "unat (of_nat n :: uint32) = n" by (simp add: unsigned_of_nat take_bit_nat_eq_self)
  have digit: "(x + 256 * y) mod 256 = x" "(x + 256 * y) div 256 = y" if "x < 256" for x y :: nat
    using that by simp_all
  have n: "n = of_char a + 256 * (of_char b + 256 * (of_char c + 256 * of_char d))"
    by (simp add: n_def algebra_simps)
  have "n mod 256 = of_char a" "n div 256 = of_char b + 256 * (of_char c + 256 * of_char d)"
    unfolding n by (rule digit [OF lt(1)])+
  moreover from this have "n div 256 mod 256 = of_char b" "n div 256 div 256 = of_char c + 256 * of_char d"
    by (simp_all only: digit lt)
  moreover from this have "n div 256 div 256 mod 256 = of_char c" "n div 256 div 256 div 256 = of_char d"
    by (simp_all only: digit lt)
  moreover have "n div 65536 = n div 256 div 256" "n div 16777216 = n div 256 div 256 div 256"
    by (simp_all add: div_mult2_eq [symmetric])
  ultimately have "n mod 256 = of_char a" "n div 256 mod 256 = of_char b"
    "n div 65536 mod 256 = of_char c" "n div 16777216 mod 256 = of_char d" using lt by simp_all
  then have "char_of n = a" "char_of (n div 256) = b" "char_of (n div 65536) = c" "char_of (n div 16777216) = d"
    by (metis char_of_mod_256 char_of_char)+
  then show ?thesis using u by (simp add: s u32_bytes_def n_def [symmetric])
qed

lemma ntohl_htonl [simp]: "ntohl (htonl w) = w"
  by (simp add: ntohl_def htonl_def u32_bytes_of_bytes)

section \<open>The message header\<close>

record MessageHeader =
  magic :: string
  name_len :: uint32
  to_len :: uint32
  from_len :: uint32
  body_len :: uint32

definition MessageHeader0 :: MessageHeader where
  "MessageHeader0 = \<lparr>magic = RPC_MAGICID, name_len = 0, to_len = 0, from_len = 0, body_len = 0\<rparr>"

definition sizeof_MessageHeader :: nat where "sizeof_MessageHeader = 20"

text \<open>The memory of a \<open>MessageHeader\<close>: its fields one after the other.\<close>

definition header_bytes :: "MessageHeader \<Rightarrow> string" where
  "header_bytes h = magic h @ u32_bytes (name_len h) @ u32_bytes (to_len h) @ u32_bytes (from_len h) @ u32_bytes (body_len h)"

definition header_of_bytes :: "string \<Rightarrow> MessageHeader" where
  "header_of_bytes s = \<lparr>magic = take 4 s, name_len = u32_of_bytes (drop 4 s), to_len = u32_of_bytes (drop 8 s),
                        from_len = u32_of_bytes (drop 12 s), body_len = u32_of_bytes (drop 16 s)\<rparr>"

definition FillMessageHeader :: "MessageBase \<Rightarrow> MessageHeader \<Rightarrow> MessageHeader" where
  "FillMessageHeader message header =
     (let send_to = aid_string (msg_to message); send_from = aid_string (msg_from message) in
      header\<lparr>name_len := htonl (of_nat (length (msg_name message))),
             to_len := htonl (of_nat (length send_to)),
             from_len := htonl (of_nat (length send_from)),
             body_len := (case msg_data message of
                            Some _ \<Rightarrow> htonl (of_nat (msg_size message))
                          | None \<Rightarrow> htonl (of_nat (length (msg_body message))))\<rparr>)"

definition GetMessageSize :: "MessageBase \<Rightarrow> nat" where
  "GetMessageSize message =
     (let send_to = aid_string (msg_to message); send_from = aid_string (msg_from message) in
      length (msg_name message) + length send_to + length send_from + length (msg_body message) + sizeof_MessageHeader)"

lemma length_header_bytes: "length (magic h) = 4 \<Longrightarrow> length (header_bytes h) = sizeof_MessageHeader"
  by (simp add: header_bytes_def sizeof_MessageHeader_def)

lemma u32_of_u32_bytes_append [simp]: "u32_of_bytes (u32_bytes w @ s) = w"
proof -
  have "u32_of_bytes (u32_bytes w @ s) = u32_of_bytes (u32_bytes w)" by (simp add: u32_bytes_def)
  then show ?thesis by simp
qed

lemma header_of_header_bytes:
  assumes "length (magic h) = 4"
  shows "header_of_bytes (header_bytes h) = (h :: MessageHeader)"
  using assms by (cases h) (simp add: header_of_bytes_def header_bytes_def)

lemma u32_of_bytes_take:
  assumes "n \<ge> 4"
  shows "u32_of_bytes (take n s) = u32_of_bytes s"
proof -
  obtain k where "n = k + 4" using assms le_Suc_ex by (metis add.commute)
  then have "n = Suc (Suc (Suc (Suc k)))" by simp
  then show ?thesis by (cases s rule: u32_of_bytes.cases) simp_all
qed

lemma header_bytes_of_bytes:
  assumes "length s = sizeof_MessageHeader"
  shows "header_bytes (header_of_bytes s) = s"
proof -
  have part: "u32_bytes (u32_of_bytes (drop i s)) = take 4 (drop i s)" if "i + 4 \<le> 20" for i
    using that assms u32_bytes_of_bytes [of "take 4 (drop i s)"]
    by (simp add: u32_of_bytes_take sizeof_MessageHeader_def)
  have "s = take 4 s @ take 4 (drop 4 s) @ take 4 (drop 8 s) @ take 4 (drop 12 s) @ take 4 (drop 16 s)"
    using assms append_take_drop_id [of 4 s] append_take_drop_id [of 4 "drop 4 s"]
      append_take_drop_id [of 4 "drop 8 s"] append_take_drop_id [of 4 "drop 12 s"]
    by (simp add: sizeof_MessageHeader_def)
  then show ?thesis by (simp add: header_bytes_def header_of_bytes_def part)
qed

end
