(* ===== verification/Net_Socket.thy ===== *)
theory Net_Socket
  imports Net_Message
begin

text \<open>
  \<open>TCPSocketOperation\<close> (\<open>tcp_socket_operation.cc\<close>): the loops around \<open>recv\<close>, \<open>recvmsg\<close> and \<open>sendmsg\<close> on a
  non-blocking socket. What the operating system will do is part of the socket's state: the events
  that the next calls meet. A segment is data that arrives together; the empty segment is the end of
  the stream; when no event is left, nothing more arrives and every call fails with \<open>EAGAIN\<close>. Since the
  segments are arbitrary, so is the number of bytes a call returns. A loop that never ends is \<open>None\<close>.
\<close>

section \<open>The socket\<close>

datatype errno = errno_none | EAGAIN | ECONNRESET | ECONNABORTED | ENOTCONN | EPIPE | errno_other nat

datatype net_event = Segment string | Fault errno

text \<open>What the next calls of \<open>sendmsg\<close> meet: room for so many bytes, or an error.\<close>

datatype send_event = Accept nat | Refuse errno

record tcp_socket =
  incoming :: "net_event list"
  accepting :: "send_event list"
  outgoing :: string
  sys_errno :: errno

definition sys_recv :: "nat \<Rightarrow> tcp_socket \<Rightarrow> (errno + string) \<times> tcp_socket" where
  "sys_recv n s =
     (case incoming s of
        [] \<Rightarrow> (Inl EAGAIN, s\<lparr>sys_errno := EAGAIN\<rparr>)
      | Fault e # es \<Rightarrow> (Inl e, s\<lparr>incoming := es, sys_errno := e\<rparr>)
      | Segment bs # es \<Rightarrow>
          if n < length bs then (Inr (take n bs), s\<lparr>incoming := Segment (drop n bs) # es\<rparr>)
          else (Inr bs, s\<lparr>incoming := es\<rparr>))"

definition sys_peek :: "nat \<Rightarrow> tcp_socket \<Rightarrow> errno + string" where
  "sys_peek n s = fst (sys_recv n s)"

text \<open>
  A call with nothing to send needs no room: it returns 0, unless the connection has failed.
\<close>

definition sys_sendmsg :: "string list \<Rightarrow> tcp_socket \<Rightarrow> (errno + nat) \<times> tcp_socket" where
  "sys_sendmsg iov s =
     (if concat iov = [] then
        case accepting s of
          [] \<Rightarrow> (Inr 0, s)
        | Refuse e # es \<Rightarrow> if e = EAGAIN then (Inr 0, s\<lparr>accepting := es\<rparr>) else (Inl e, s\<lparr>accepting := es, sys_errno := e\<rparr>)
        | Accept k # es \<Rightarrow> (Inr 0, s\<lparr>accepting := es\<rparr>)
      else case accepting s of
        [] \<Rightarrow> (Inl EAGAIN, s\<lparr>sys_errno := EAGAIN\<rparr>)
      | Refuse e # es \<Rightarrow> (Inl e, s\<lparr>accepting := es, sys_errno := e\<rparr>)
      | Accept k # es \<Rightarrow>
          (Inr (min k (length (concat iov))), s\<lparr>accepting := es, outgoing := outgoing s @ take k (concat iov)\<rparr>))"

datatype io_ret = IO_RW_OK | IO_RW_ERROR

definition EAGAIN_RETRY :: nat where "EAGAIN_RETRY = 1024000"

definition connection_lost :: "errno \<Rightarrow> bool" where
  "connection_lost e \<longleftrightarrow> e \<in> {ECONNRESET, ECONNABORTED, ENOTCONN, EPIPE}"

section \<open>Receiving\<close>

text \<open>
  \<open>Receive\<close> returns the bytes it has stored from \<open>recvBuf\<close> on; \<open>ec\<close> is the connection's \<open>error_code\<close>.
\<close>

partial_function (option) Receive_loop ::
    "nat \<Rightarrow> string \<Rightarrow> errno \<Rightarrow> tcp_socket \<Rightarrow> (io_ret \<times> string \<times> errno \<times> tcp_socket) option" where
  "Receive_loop totalRecvLen got ec s =
     (if length got \<noteq> totalRecvLen then
        case sys_recv (totalRecvLen - length got) s of
          (Inr bs, s) \<Rightarrow>
            if bs \<noteq> [] then
              if length (got @ bs) = totalRecvLen then Some (IO_RW_OK, got @ bs, ec, s)
              else Receive_loop totalRecvLen (got @ bs) ec s
            else Some (IO_RW_ERROR, got, sys_errno s, s)
        | (Inl e, s) \<Rightarrow>
            if e = EAGAIN then Some (IO_RW_OK, got, ec, s)
            else if connection_lost e then Some (IO_RW_ERROR, got, e, s)
            else Some (IO_RW_OK, got, ec, s)
      else Some (IO_RW_OK, got, ec, s))"

definition Receive :: "nat \<Rightarrow> errno \<Rightarrow> tcp_socket \<Rightarrow> (io_ret \<times> string \<times> errno \<times> tcp_socket) option" where
  "Receive totalRecvLen ec s = Receive_loop totalRecvLen [] ec s"

text \<open>
  The scatter vector of \<open>recvmsg\<close> points into the name of the message, the strings \<open>recv_to\<close> and
  \<open>recv_from\<close> and the message's data: the four areas.
\<close>

datatype area = AName | ATo | AFrom | AData

record iovec =
  iov_area :: area
  iov_off :: nat
  iov_len :: nat

definition overwrite :: "nat \<Rightarrow> 'a list \<Rightarrow> 'a list \<Rightarrow> 'a list" where
  "overwrite off bs xs = take off xs @ bs @ drop (off + length bs) xs"

fun scatter :: "iovec list \<Rightarrow> string \<Rightarrow> (area \<Rightarrow> string) \<Rightarrow> area \<Rightarrow> string" where
  "scatter [] bs mem = mem"
| "scatter (v # vs) bs mem =
     scatter vs (drop (iov_len v) bs)
       (mem(iov_area v := overwrite (iov_off v) (take (iov_len v) bs) (mem (iov_area v))))"

definition iov_total :: "iovec list \<Rightarrow> nat" where
  "iov_total vs = sum_list (map iov_len vs)"

text \<open>The loop over the vector after a call that received a part: \<open>None\<close> when it runs to the end.\<close>

fun recv_advance :: "nat \<Rightarrow> nat \<Rightarrow> iovec list \<Rightarrow> iovec list option" where
  "recv_advance received_bytes tmpLen [] = None"
| "recv_advance received_bytes tmpLen (v # vs) =
     (if iov_len v + tmpLen \<le> received_bytes then recv_advance received_bytes (tmpLen + iov_len v) vs
      else Some (v\<lparr>iov_len := iov_len v - (received_bytes - tmpLen),
                   iov_off := iov_off v + received_bytes - tmpLen\<rparr> # vs))"

partial_function (option) ReceiveMessage_loop ::
    "nat \<Rightarrow> nat \<Rightarrow> iovec list \<Rightarrow> (area \<Rightarrow> string) \<Rightarrow> errno \<Rightarrow> tcp_socket \<Rightarrow>
     (io_ret \<times> nat \<times> iovec list \<times> (area \<Rightarrow> string) \<times> errno \<times> tcp_socket) option" where
  "ReceiveMessage_loop totalRecvLen recvLen iov mem ec s =
     (if recvLen < totalRecvLen then
        case sys_recv (iov_total iov) s of
          (Inr bs, s) \<Rightarrow>
            if bs \<noteq> [] then
              if recvLen + length bs = totalRecvLen
              then Some (IO_RW_OK, recvLen + length bs, [], scatter iov bs mem, ec, s)
              else ReceiveMessage_loop totalRecvLen (recvLen + length bs)
                     (case recv_advance (length bs) 0 iov of None \<Rightarrow> iov | Some iov' \<Rightarrow> iov')
                     (scatter iov bs mem) ec s
            else Some (IO_RW_ERROR, recvLen, iov, mem, ec, s)
        | (Inl e, s) \<Rightarrow>
            if e = EAGAIN then ReceiveMessage_loop totalRecvLen recvLen iov mem ec s
            else if connection_lost e then Some (IO_RW_ERROR, recvLen, iov, mem, e, s)
            else Some (IO_RW_OK, recvLen, iov, mem, ec, s)
      else Some (IO_RW_OK, recvLen, iov, mem, ec, s))"

definition ReceiveMessage_sock ::
    "nat \<Rightarrow> nat \<Rightarrow> iovec list \<Rightarrow> (area \<Rightarrow> string) \<Rightarrow> errno \<Rightarrow> tcp_socket \<Rightarrow>
     (io_ret \<times> nat \<times> iovec list \<times> (area \<Rightarrow> string) \<times> errno \<times> tcp_socket) option" where
  "ReceiveMessage_sock totalRecvLen recvLen iov mem ec s =
     (if totalRecvLen = 0 then Some (IO_RW_OK, recvLen, iov, mem, ec, s)
      else ReceiveMessage_loop totalRecvLen recvLen iov mem ec s)"

section \<open>Sending\<close>

text \<open>
  An element of the gather vector of \<open>sendmsg\<close> is the string it points to. The loop after a partial
  send tests with \<open><\<close> where the one above tests with \<open>\<le>\<close>; a vector that has been sent exactly stays in
  front with length 0.
\<close>

fun send_advance :: "nat \<Rightarrow> nat \<Rightarrow> string list \<Rightarrow> string list option" where
  "send_advance send_bytes tmpBytes [] = None"
| "send_advance send_bytes tmpBytes (v # vs) =
     (if length v + tmpBytes < send_bytes then send_advance send_bytes (tmpBytes + length v) vs
      else Some (drop (send_bytes - tmpBytes) v # vs))"

partial_function (option) SendMessage_loop ::
    "nat \<Rightarrow> nat \<Rightarrow> string list \<Rightarrow> nat \<Rightarrow> errno \<Rightarrow> tcp_socket \<Rightarrow>
     (io_ret \<times> nat \<times> string list \<times> errno \<times> tcp_socket) option" where
  "SendMessage_loop totalSendLen sendLen iov eagainCount ec s =
     (if sendLen \<noteq> totalSendLen then
        case sys_sendmsg iov s of
          (Inl e, s) \<Rightarrow>
            if e \<noteq> EAGAIN then Some (IO_RW_ERROR, sendLen, iov, e, s)
            else if eagainCount + 1 = EAGAIN_RETRY then Some (IO_RW_OK, 0, iov, ec, s)
            else SendMessage_loop totalSendLen sendLen iov (eagainCount + 1) ec s
        | (Inr send_bytes, s) \<Rightarrow>
            if sendLen + send_bytes = totalSendLen then Some (IO_RW_OK, sendLen + send_bytes, [], ec, s)
            else SendMessage_loop totalSendLen (sendLen + send_bytes)
                   (case send_advance send_bytes 0 iov of None \<Rightarrow> iov | Some iov' \<Rightarrow> iov') 0 ec s
      else Some (IO_RW_OK, sendLen, iov, ec, s))"

definition SendMessage ::
    "nat \<Rightarrow> string list \<Rightarrow> errno \<Rightarrow> tcp_socket \<Rightarrow>
     (io_ret \<times> nat \<times> string list \<times> errno \<times> tcp_socket) option" where
  "SendMessage totalSendLen iov ec s = SendMessage_loop totalSendLen 0 iov 0 ec s"

section \<open>What receiving gives on a quiet stream\<close>

text \<open>A stream on which only data arrives and calls find nothing to read; the data it carries.\<close>

fun quiet :: "net_event list \<Rightarrow> bool" where
  "quiet [] = True"
| "quiet (Segment bs # es) = (bs \<noteq> [] \<and> quiet es)"
| "quiet (Fault e # es) = (e = EAGAIN \<and> quiet es)"

fun data_of :: "net_event list \<Rightarrow> string" where
  "data_of [] = []"
| "data_of (Segment bs # es) = bs @ data_of es"
| "data_of (Fault e # es) = data_of es"

lemma sys_recv_quiet:
  assumes "quiet (incoming s)" "0 < n"
  obtains (data) bs es where "sys_recv n s = (Inr bs, s\<lparr>incoming := es\<rparr>)" "bs \<noteq> []" "length bs \<le> n" "quiet es"
      "data_of (incoming s) = bs @ data_of es" "length es \<le> length (incoming s)"
      "length bs < n \<longrightarrow> length es < length (incoming s)"
  | (empty) "sys_recv n s = (Inl EAGAIN, s\<lparr>sys_errno := EAGAIN\<rparr>)" "incoming s = []"
  | (wait) es where "sys_recv n s = (Inl EAGAIN, s\<lparr>incoming := es, sys_errno := EAGAIN\<rparr>)" "quiet es"
      "data_of (incoming s) = data_of es" "length es < length (incoming s)"
proof (cases "incoming s")
  case Nil
  then show thesis using empty by (simp add: sys_recv_def)
next
  case (Cons e es)
  show thesis
  proof (cases e)
    case (Segment bs)
    then have q: "bs \<noteq> []" "quiet es" using assms Cons by auto
    show thesis
    proof (cases "n < length bs")
      case True
      then show thesis using data [of "take n bs" "Segment (drop n bs) # es"] assms q Cons Segment
        by (simp add: sys_recv_def)
    next
      case False
      then show thesis using data [of bs es] q Cons Segment by (simp add: sys_recv_def)
    qed
  next
    case (Fault x)
    then show thesis using wait [of es] assms Cons by (simp add: sys_recv_def)
  qed
qed

text \<open>
  \<open>Receive\<close> returns, with the next bytes of the stream and no more than it was asked for; if it was
  given fewer although more are on the way, the stream has come closer to them.
\<close>

lemma Receive_loop_quiet:
  assumes "quiet (incoming s)" "length got \<le> n"
  shows "\<exists>more es e. Receive_loop n got ec s = Some (IO_RW_OK, got @ more, ec, s\<lparr>incoming := es, sys_errno := e\<rparr>) \<and>
    quiet es \<and> data_of (incoming s) = more @ data_of es \<and> length (got @ more) \<le> n \<and>
    length es \<le> length (incoming s) \<and>
    (length (got @ more) < n \<longrightarrow> es = [] \<or> length es < length (incoming s))"
  using assms
proof (induction "n - length got" arbitrary: got s rule: less_induct)
  case less
  show ?case
  proof (cases "length got = n")
    case True
    then show ?thesis using less.prems
      by (intro exI [of _ "[]"] exI [of _ "incoming s"] exI [of _ "sys_errno s"]) (simp add: Receive_loop.simps)
  next
    case False
    then have pos: "0 < n - length got" using less.prems by simp
    show ?thesis
    proof (cases rule: sys_recv_quiet [OF less.prems(1) pos])
      case (1 bs es)
      show ?thesis
      proof (cases "length (got @ bs) = n")
        case True
        then show ?thesis using 1 False
          by (intro exI [of _ bs] exI [of _ es] exI [of _ "sys_errno s"]) (simp add: Receive_loop.simps)
      next
        case len: False
        have step: "Receive_loop n got ec s = Receive_loop n (got @ bs) ec (s\<lparr>incoming := es\<rparr>)"
          using 1 False len by (subst Receive_loop.simps) simp
        have shorter: "length es < length (incoming s)" using 1(3,7) len pos by auto
        have "n - length (got @ bs) < n - length got" using 1(2) pos by (cases bs) auto
        moreover have "length (got @ bs) \<le> n" using 1(3) pos by simp
        ultimately obtain more es' e where
          "Receive_loop n (got @ bs) ec (s\<lparr>incoming := es\<rparr>)
             = Some (IO_RW_OK, (got @ bs) @ more, ec, s\<lparr>incoming := es', sys_errno := e\<rparr>)"
          "quiet es'" "data_of es = more @ data_of es'" "length ((got @ bs) @ more) \<le> n"
          "length es' \<le> length es"
          using less.hyps [of "got @ bs" "s\<lparr>incoming := es\<rparr>"] 1(4)
          by clarsimp
        then show ?thesis using 1(5) step shorter
          by (intro exI [of _ "bs @ more"] exI [of _ es'] exI [of _ e]) auto
      qed
    next
      case 2
      then show ?thesis using False less.prems
        by (intro exI [of _ "[]"] exI [of _ "[]"] exI [of _ EAGAIN])
          (simp add: Receive_loop.simps [of n got])
    next
      case (3 es)
      then show ?thesis using False less.prems
        by (intro exI [of _ "[]"] exI [of _ es] exI [of _ EAGAIN]) (simp add: Receive_loop.simps)
    qed
  qed
qed

text \<open>
  What a call of \<open>recvmsg\<close> stored, and the vector moved behind it: storing in two parts is storing at once.
\<close>

definition iov_ok :: "iovec list \<Rightarrow> (area \<Rightarrow> string) \<Rightarrow> bool" where
  "iov_ok vs mem \<longleftrightarrow> (\<forall>v \<in> set vs. iov_off v + iov_len v \<le> length (mem (iov_area v)))"

lemma iov_total_simps [simp]: "iov_total [] = 0" "iov_total (v # vs) = iov_len v + iov_total vs"
  by (simp_all add: iov_total_def)

lemma length_overwrite [simp]: "off + length bs \<le> length xs \<Longrightarrow> length (overwrite off bs xs) = length xs"
  by (simp add: overwrite_def)

lemma overwrite_Nil [simp]: "overwrite off [] xs = xs"
  by (simp add: overwrite_def)

lemma overwrite_overwrite:
  assumes "off + length bs \<le> length xs"
  shows "overwrite (off + length bs) cs (overwrite off bs xs) = overwrite off (bs @ cs) xs"
  using assms by (simp add: overwrite_def ac_simps)

lemma overwrite_all: "length bs = length xs \<Longrightarrow> overwrite 0 bs xs = bs"
  by (simp add: overwrite_def)

lemma scatter_Nil [simp]: "scatter vs [] mem = mem"
  by (induction vs arbitrary: mem) simp_all

lemma iov_ok_write:
  assumes "iov_ok (v # vs) mem"
  shows "iov_ok vs (mem(iov_area v := overwrite (iov_off v) (take (iov_len v) bs) (mem (iov_area v))))"
  using assms by (auto simp: iov_ok_def)

lemma scatter_append:
  assumes "length bs < iov_total vs" "iov_ok vs mem"
  shows "\<exists>vs'. recv_advance (t + length bs) t vs = Some vs' \<and> iov_total vs' = iov_total vs - length bs \<and>
    iov_ok vs' (scatter vs bs mem) \<and> (\<forall>cs. scatter vs' cs (scatter vs bs mem) = scatter vs (bs @ cs) mem)"
  using assms
proof (induction vs arbitrary: t bs mem)
  case Nil
  then show ?case by simp
next
  case (Cons v vs)
  let ?mem = "mem(iov_area v := overwrite (iov_off v) (take (iov_len v) bs) (mem (iov_area v)))"
  show ?case
  proof (cases "iov_len v \<le> length bs")
    case True
    define ds where "ds = drop (iov_len v) bs"
    have bs: "length bs = iov_len v + length ds" using True by (simp add: ds_def)
    have "length ds < iov_total vs" using Cons.prems bs by simp
    from Cons.IH [OF this iov_ok_write [OF Cons.prems(2), of bs], of "t + iov_len v"] obtain vs' where
      "recv_advance (t + iov_len v + length ds) (t + iov_len v) vs = Some vs'"
      "iov_total vs' = iov_total vs - length ds" "iov_ok vs' (scatter vs ds ?mem)"
      "\<forall>cs. scatter vs' cs (scatter vs ds ?mem) = scatter vs (ds @ cs) ?mem" by blast
    moreover have "drop (iov_len v) (bs @ cs) = ds @ cs" "take (iov_len v) (bs @ cs) = take (iov_len v) bs" for cs
      using True by (simp_all add: ds_def)
    ultimately show ?thesis using True bs by (simp add: ds_def [symmetric] ac_simps del: take_append drop_append)
  next
    case False
    let ?v = "v\<lparr>iov_len := iov_len v - length bs, iov_off := iov_off v + length bs\<rparr>"
    have fits: "iov_off v + iov_len v \<le> length (mem (iov_area v))" using Cons.prems by (simp add: iov_ok_def)
    have "iov_ok (?v # vs) ?mem" using Cons.prems False by (auto simp: iov_ok_def)
    moreover have "scatter (?v # vs) cs ?mem = scatter (v # vs) (bs @ cs) mem" for cs
    proof -
      have "overwrite (iov_off v + length bs) (take (iov_len v - length bs) cs) (overwrite (iov_off v) bs (mem (iov_area v)))
          = overwrite (iov_off v) (take (iov_len v) (bs @ cs)) (mem (iov_area v))"
        using False fits by (simp add: overwrite_overwrite)
      then show ?thesis using False by simp
    qed
    moreover have "scatter (v # vs) bs mem = ?mem" using False by simp
    moreover have "recv_advance (t + length bs) t (v # vs) = Some (?v # vs)" using False by simp
    moreover have "iov_total (?v # vs) = iov_total (v # vs) - length bs" using False by simp
    ultimately show ?thesis by metis
  qed
qed

lemma ReceiveMessage_loop_quiet:
  assumes "quiet (incoming s)" "recvLen < n" "iov_total iov = n - recvLen" "iov_ok iov mem"
    and "n - recvLen \<le> length (data_of (incoming s))"
  shows "\<exists>es e. ReceiveMessage_loop n recvLen iov mem ec s
      = Some (IO_RW_OK, n, [], scatter iov (take (n - recvLen) (data_of (incoming s))) mem, ec,
              s\<lparr>incoming := es, sys_errno := e\<rparr>) \<and>
    quiet es \<and> data_of es = drop (n - recvLen) (data_of (incoming s))"
  using assms
proof (induction "(n - recvLen) + length (incoming s)" arbitrary: recvLen iov mem s rule: less_induct)
  case less
  then have pos: "0 < iov_total iov" by simp
  show ?case
  proof (cases rule: sys_recv_quiet [OF less.prems(1) pos])
    case (1 bs es)
    show ?thesis
    proof (cases "recvLen + length bs = n")
      case True
      then show ?thesis using 1 less.prems(2)
        by (intro exI [of _ es] exI [of _ "sys_errno s"]) (simp add: ReceiveMessage_loop.simps flip: True)
    next
      case False
      then have lt: "length bs < iov_total iov" "recvLen + length bs < n" using 1(3) less.prems(2,3) by auto
      from scatter_append [OF lt(1) less.prems(4), of 0] obtain vs' where
        vs': "recv_advance (length bs) 0 iov = Some vs'" "iov_total vs' = iov_total iov - length bs"
          "iov_ok vs' (scatter iov bs mem)"
          "\<And>cs. scatter vs' cs (scatter iov bs mem) = scatter iov (bs @ cs) mem" by auto
      have step: "ReceiveMessage_loop n recvLen iov mem ec s
          = ReceiveMessage_loop n (recvLen + length bs) vs' (scatter iov bs mem) ec (s\<lparr>incoming := es\<rparr>)"
        using 1 False less.prems(2) vs'(1) by (subst ReceiveMessage_loop.simps) simp
      have "0 < length bs" using 1(2) by simp
      then have "(n - (recvLen + length bs)) + length es < (n - recvLen) + length (incoming s)"
        using lt(2) 1(6) by linarith
      moreover have "n - (recvLen + length bs) \<le> length (data_of es)" using less.prems(5) 1(5) by simp
      moreover note less.hyps [of "recvLen + length bs" "s\<lparr>incoming := es\<rparr>" vs' "scatter iov bs mem"]
        1(4) lt(2) vs'(2,3) less.prems(3)
      ultimately obtain es' e where
        "ReceiveMessage_loop n (recvLen + length bs) vs' (scatter iov bs mem) ec (s\<lparr>incoming := es\<rparr>)
          = Some (IO_RW_OK, n, [], scatter vs' (take (n - (recvLen + length bs)) (data_of es)) (scatter iov bs mem), ec,
                  s\<lparr>incoming := es', sys_errno := e\<rparr>)"
        "quiet es'" "data_of es' = drop (n - (recvLen + length bs)) (data_of es)"
        by clarsimp
      then show ?thesis using 1(5) step vs'(4) lt(2)
        by (intro exI [of _ es'] exI [of _ e]) simp
    qed
  next
    case 2
    then show ?thesis using less.prems by simp
  next
    case (3 es)
    have step: "ReceiveMessage_loop n recvLen iov mem ec s
        = ReceiveMessage_loop n recvLen iov mem ec (s\<lparr>incoming := es, sys_errno := EAGAIN\<rparr>)"
      using 3 less.prems(2) by (subst ReceiveMessage_loop.simps) simp
    then show ?thesis
      using less.hyps [of recvLen "s\<lparr>incoming := es, sys_errno := EAGAIN\<rparr>" iov mem] 3 less.prems by simp
  qed
qed

section \<open>What sending gives\<close>

text \<open>
  The socket takes \<open>n\<close> bytes before it has refused \<open>EAGAIN_RETRY\<close> times in a row, \<open>c\<close> of them so far.
\<close>

fun drains :: "nat \<Rightarrow> nat \<Rightarrow> send_event list \<Rightarrow> bool" where
  "drains n c [] = (n = 0)"
| "drains n c (Accept k # es) = (n = 0 \<or> drains (n - k) 0 es)"
| "drains n c (Refuse e # es) = (n = 0 \<or> e = EAGAIN \<and> Suc c \<noteq> EAGAIN_RETRY \<and> drains n (Suc c) es)"

text \<open>The events that are left then.\<close>

fun script_after :: "nat \<Rightarrow> send_event list \<Rightarrow> send_event list" where
  "script_after n [] = []"
| "script_after n (Accept k # es) = (if n = 0 then Accept k # es else script_after (n - k) es)"
| "script_after n (Refuse e # es) = (if n = 0 then Refuse e # es else script_after n es)"

lemma script_after_0 [simp]: "script_after 0 es = es"
  by (cases es rule: script_after.cases [of "(0, es)" for es, simplified]) simp_all

lemma send_advance_concat:
  assumes "k \<le> length (concat iov)" "iov \<noteq> []"
  shows "\<exists>iov'. send_advance (t + k) t iov = Some iov' \<and> concat iov' = drop k (concat iov)"
  using assms
proof (induction iov arbitrary: t k)
  case Nil
  then show ?case by simp
next
  case (Cons v vs)
  show ?case
  proof (cases "length v < k")
    case True
    then have "k - length v \<le> length (concat vs)" "vs \<noteq> []" using Cons.prems by auto
    from Cons.IH [OF this, of "t + length v"] show ?thesis using True by (simp add: ac_simps)
  next
    case False
    then show ?thesis by simp
  qed
qed

lemma SendMessage_loop_done: "SendMessage_loop n n iov c ec s = Some (IO_RW_OK, n, iov, ec, s)"
  by (subst SendMessage_loop.simps) simp

lemma SendMessage_loop_drains:
  assumes "drains (length (concat iov)) c (accepting s)" "sendLen + length (concat iov) = n"
  shows "\<exists>iov' e. SendMessage_loop n sendLen iov c ec s
    = Some (IO_RW_OK, n, iov', ec, s\<lparr>accepting := script_after (length (concat iov)) (accepting s), outgoing := outgoing s @ concat iov, sys_errno := e\<rparr>)"
  using assms
proof (induction "length (concat iov)" c "accepting s" arbitrary: iov s sendLen rule: drains.induct)
  case (1 c)
  then have "concat iov = []" by (cases "accepting s") auto
  moreover from this have "sendLen = n" using 1(3) by (simp only: list.size add_0_right)
  ultimately show ?case
    by (intro exI [of _ iov] exI [of _ "sys_errno s"]) (simp add: SendMessage_loop_done del: concat_eq_Nil_conv)
next
  case (2 c k es)
  show ?case
  proof (cases "concat iov = []")
    case True
    then have "sendLen = n" using 2(4) by (simp only: list.size add_0_right)
    then show ?thesis using True
      by (intro exI [of _ iov] exI [of _ "sys_errno s"]) (simp add: SendMessage_loop_done del: concat_eq_Nil_conv)
  next
    case False
    let ?k = "min k (length (concat iov))"
    let ?s = "s\<lparr>accepting := es, outgoing := outgoing s @ take k (concat iov)\<rparr>"
    have ne: "iov \<noteq> []" using False by auto
    have neq: "sendLen \<noteq> n" using False 2(4) by (auto simp del: concat_eq_Nil_conv)
    have sys: "sys_sendmsg iov s = (Inr ?k, ?s)" using False 2(2)[symmetric] by (simp add: sys_sendmsg_def del: concat_eq_Nil_conv)
    show ?thesis
    proof (cases "sendLen + ?k = n")
      case True
      then have "length (concat iov) \<le> k" using 2(4) by linarith
      moreover from this have "script_after (length (concat iov)) (accepting s) = es"
        using False 2(2)[symmetric] by (auto simp del: concat_eq_Nil_conv)
      ultimately show ?thesis using True sys neq
        by (subst SendMessage_loop.simps, intro exI [of _ "[]"] exI [of _ "sys_errno s"]) simp
    next
      case part: False
      then have k: "k < length (concat iov)" using 2(4) by linarith
      obtain iov' where iov': "send_advance ?k 0 iov = Some iov'" "concat iov' = drop k (concat iov)"
        using send_advance_concat [of ?k iov 0] ne k by auto
      have step: "SendMessage_loop n sendLen iov c ec s = SendMessage_loop n (sendLen + ?k) iov' 0 ec ?s"
        using sys neq part iov'(1) by (subst SendMessage_loop.simps) simp
      have len: "length (concat iov) - k = length (concat iov')" using iov'(2) by simp
      moreover have "drains (length (concat iov')) 0 (accepting ?s)"
        using 2(2) [symmetric] 2(3) k len by (auto simp del: concat_eq_Nil_conv length_0_conv)
      moreover have "sendLen + ?k + length (concat iov') = n" using 2(4) k len by linarith
      moreover have "es = accepting ?s" by simp
      ultimately obtain iov'' e where "SendMessage_loop n (sendLen + ?k) iov' 0 ec ?s
        = Some (IO_RW_OK, n, iov'', ec, ?s\<lparr>accepting := script_after (length (concat iov')) (accepting ?s),
            outgoing := outgoing ?s @ concat iov', sys_errno := e\<rparr>)"
        using 2(1) [of iov' ?s "sendLen + ?k"] False by (metis length_0_conv)
      moreover have "script_after (length (concat iov)) (accepting s) = script_after (length (concat iov')) es"
        using False 2(2)[symmetric] iov'(2) by (simp del: concat_eq_Nil_conv)
      ultimately show ?thesis using step iov'(2) by (intro exI [of _ iov''] exI [of _ e]) simp
    qed
  qed
next
  case (3 c x es)
  show ?case
  proof (cases "concat iov = []")
    case True
    then have "sendLen = n" using 3(4) by (simp only: list.size add_0_right)
    then show ?thesis using True
      by (intro exI [of _ iov] exI [of _ "sys_errno s"]) (simp add: SendMessage_loop_done del: concat_eq_Nil_conv)
  next
    case False
    let ?s = "s\<lparr>accepting := es, sys_errno := EAGAIN\<rparr>"
    have neq: "sendLen \<noteq> n" using False 3(4) by (auto simp del: concat_eq_Nil_conv)
    have x: "x = EAGAIN" "Suc c \<noteq> EAGAIN_RETRY" "drains (length (concat iov)) (Suc c) es"
      using 3(2)[symmetric] 3(3) False by (auto simp del: concat_eq_Nil_conv)
    have "sys_sendmsg iov s = (Inl EAGAIN, ?s)" using False 3(2)[symmetric] x(1) by (simp add: sys_sendmsg_def del: concat_eq_Nil_conv)
    then have step: "SendMessage_loop n sendLen iov c ec s = SendMessage_loop n sendLen iov (Suc c) ec ?s"
      using neq x by (subst SendMessage_loop.simps) simp
    from 3(1) [OF refl, of ?s sendLen] x(3) 3(4)
    obtain iov'' e where "SendMessage_loop n sendLen iov (Suc c) ec ?s
      = Some (IO_RW_OK, n, iov'', ec, ?s\<lparr>accepting := script_after (length (concat iov)) es, outgoing := outgoing ?s @ concat iov, sys_errno := e\<rparr>)"
      by auto
    moreover have "script_after (length (concat iov)) (accepting s) = script_after (length (concat iov)) es"
      using False 3(2)[symmetric] by (simp del: concat_eq_Nil_conv)
    ultimately show ?thesis using step by (intro exI [of _ iov''] exI [of _ e]) simp
  qed
qed

text \<open>The socket refuses for a while: nothing happens but the count.\<close>

lemma SendMessage_loop_refuse:
  assumes "sendLen \<noteq> n" "concat iov \<noteq> []" "c + k < EAGAIN_RETRY" "accepting s = replicate k (Refuse EAGAIN) @ es"
  shows "\<exists>e. SendMessage_loop n sendLen iov c ec s = SendMessage_loop n sendLen iov (c + k) ec (s\<lparr>accepting := es, sys_errno := e\<rparr>)"
  using assms
proof (induction k arbitrary: c s)
  case 0
  then have "s\<lparr>accepting := es, sys_errno := sys_errno s\<rparr> = s" by simp
  then show ?case by (metis add_0_right)
next
  case (Suc k)
  let ?s = "s\<lparr>accepting := replicate k (Refuse EAGAIN) @ es, sys_errno := EAGAIN\<rparr>"
  have "sys_sendmsg iov s = (Inl EAGAIN, ?s)"
    using Suc.prems by (simp add: sys_sendmsg_def del: concat_eq_Nil_conv)
  then have "SendMessage_loop n sendLen iov c ec s = SendMessage_loop n sendLen iov (Suc c) ec ?s"
    using Suc.prems by (subst SendMessage_loop.simps) simp
  moreover obtain e where "SendMessage_loop n sendLen iov (Suc c) ec ?s
      = SendMessage_loop n sendLen iov (Suc c + k) ec (?s\<lparr>accepting := es, sys_errno := e\<rparr>)"
    using Suc.IH [of "Suc c" ?s] Suc.prems by fastforce
  ultimately show ?case by auto
qed

text \<open>
  After \<open>EAGAIN_RETRY\<close> refusals in a row the loop gives up: it returns success and the length 0, also
  when an earlier call has sent a part.
\<close>

lemma SendMessage_loop_gives_up:
  assumes "sendLen \<noteq> n" "concat iov \<noteq> []" "accepting s = replicate EAGAIN_RETRY (Refuse EAGAIN) @ es"
  shows "\<exists>e. SendMessage_loop n sendLen iov 0 ec s = Some (IO_RW_OK, 0, iov, ec, s\<lparr>accepting := es, sys_errno := e\<rparr>)"
proof -
  define k where "k = EAGAIN_RETRY - 1"
  have k: "EAGAIN_RETRY = Suc k" by (simp add: k_def EAGAIN_RETRY_def)
  have "replicate EAGAIN_RETRY (Refuse EAGAIN) = replicate k (Refuse EAGAIN) @ [Refuse EAGAIN]"
    unfolding k by (simp add: replicate_append_same)
  then have acc: "accepting s = replicate k (Refuse EAGAIN) @ Refuse EAGAIN # es" using assms(3) by simp
  obtain e where e: "SendMessage_loop n sendLen iov 0 ec s
      = SendMessage_loop n sendLen iov k ec (s\<lparr>accepting := Refuse EAGAIN # es, sys_errno := e\<rparr>)" (is "_ = SendMessage_loop _ _ _ _ _ ?s")
    using SendMessage_loop_refuse [OF assms(1,2) _ acc, of 0 ec] k by auto
  have "sys_sendmsg iov ?s = (Inl EAGAIN, s\<lparr>accepting := es, sys_errno := EAGAIN\<rparr>)"
    using assms(2) by (simp add: sys_sendmsg_def del: concat_eq_Nil_conv)
  then have "SendMessage_loop n sendLen iov k ec ?s = Some (IO_RW_OK, 0, iov, ec, s\<lparr>accepting := es, sys_errno := EAGAIN\<rparr>)"
    using assms(1) k by (subst SendMessage_loop.simps) simp
  then show ?thesis using e by auto
qed

text \<open>
  With nothing left to send and the total not reached, the loop never ends on a connection that does
  not fail: calls that are refused are refused with \<open>EAGAIN\<close> only.
\<close>

definition healthy :: "send_event list \<Rightarrow> bool" where
  "healthy es \<longleftrightarrow> list_all (\<lambda>e. case e of Accept k \<Rightarrow> True | Refuse x \<Rightarrow> x = EAGAIN) es"

lemma sys_sendmsg_empty:
  assumes "concat iov = []" "healthy (accepting s)"
  shows "\<exists>s'. sys_sendmsg iov s = (Inr 0, s') \<and> healthy (accepting s')"
  using assms by (cases "accepting s") (auto simp: sys_sendmsg_def healthy_def split: send_event.splits)

lemma SendMessage_loop_stuck:
  assumes "sendLen \<noteq> n" "concat iov = []" "healthy (accepting s)"
  shows "SendMessage_loop n sendLen iov c ec s = None"
proof (rule ccontr)
  let ?done = "\<lambda>n l iov s. l = n \<or> concat iov \<noteq> [] \<or> \<not> healthy (accepting s)"
  assume "SendMessage_loop n sendLen iov c ec s \<noteq> None"
  then obtain r where r: "SendMessage_loop n sendLen iov c ec s = Some r" by blast
  have "?done n sendLen iov s"
  proof (rule SendMessage_loop.raw_induct [where P = "\<lambda>n l iov c ec s r. ?done n l iov s", OF _ r], goal_cases)
    case (1 f n l iov c ec s r)
    show ?case
    proof (rule ccontr)
      assume *: "\<not> ?done n l iov s"
      then have empty: "concat iov = []" by simp
      obtain s' where s': "sys_sendmsg iov s = (Inr 0, s')" "healthy (accepting s')" using sys_sendmsg_empty * by blast
      then have "f n l (case send_advance 0 0 iov of None \<Rightarrow> iov | Some iov' \<Rightarrow> iov') 0 ec s' = Some r"
        using 1(2) * by simp
      moreover have "concat (case send_advance 0 0 iov of None \<Rightarrow> iov | Some iov' \<Rightarrow> iov') = []"
        using empty by (cases iov) simp_all
      ultimately show False using 1(1) * s'(2) by metis
    qed
  qed
  then show False using assms by simp
qed

end
