(* ===== verification/Net_Connection.thy ===== *)
theory Net_Connection
  imports Net_Socket
begin

text \<open>
  \<open>Connection\<close> (\<open>connection.h\<close>, \<open>connection.cc\<close>): a message is sent as the header and four strings, and read
  back by a state machine that first collects the header and then scatters the rest into the new
  message. The socket operation is \<open>TCPSocketOperation\<close>. The registration at the event loop and the logs
  are left out. \<open>handled\<close> lists the calls of the message handler, in order. A result \<open>None\<close> is a loop that does
  not end, an exception or a null pointer that is followed.
\<close>

section \<open>State\<close>

record SendMetrics =
  accum_msg_count :: nat
  max_msg_size :: nat
  metrics_error_code :: errno
  last_succ_msg_name :: string
  last_fail_msg_name :: string
  last_send_msg_name :: string

definition SendMetrics0 :: SendMetrics where
  "SendMetrics0 = \<lparr>accum_msg_count = 0, max_msg_size = 0, metrics_error_code = errno_none,
                   last_succ_msg_name = [], last_fail_msg_name = [], last_send_msg_name = []\<rparr>"

definition UpdateMax :: "nat \<Rightarrow> SendMetrics \<Rightarrow> SendMetrics" where
  "UpdateMax sz m =
     (let m = m\<lparr>accum_msg_count := accum_msg_count m + 1\<rparr> in
      if max_msg_size m < sz then m\<lparr>max_msg_size := sz\<rparr> else m)"

definition UpdateError :: "bool \<Rightarrow> errno \<Rightarrow> SendMetrics \<Rightarrow> SendMetrics" where
  "UpdateError fail err m =
     (if fail then m\<lparr>last_fail_msg_name := last_send_msg_name m, metrics_error_code := err\<rparr>
      else m\<lparr>last_succ_msg_name := last_send_msg_name m\<rparr>)"

definition Reset :: "SendMetrics \<Rightarrow> SendMetrics" where
  "Reset m = SendMetrics0"

text \<open>
  What the connection uses of code outside the repository: \<open>AID::SetUnfixUrl\<close>, the checked conversion
  \<open>UlongToUint\<close> (\<open>None\<close> is its exception) and the separator of protocol and address in a url.
\<close>

record net_ext =
  set_unfix_url :: "string \<Rightarrow> string"
  UlongToUint :: "nat \<Rightarrow> nat option"
  URL_PROTOCOL_IP_SEPARATOR :: string

record Connection =
  socket_fd :: int
  deleted :: bool
  is_remote :: bool
  source :: string
  destination :: string
  peer :: string
  conn_state :: ConnectionState
  send_metrics :: "SendMetrics option"
  send_message :: "MessageBase option"
  recv_message :: "MessageBase option"
  recv_state :: State
  total_recv_len :: nat
  total_send_len :: nat
  recv_len :: nat
  send_to :: string
  send_from :: string
  recv_to :: string
  recv_from :: string
  send_msg_header :: MessageHeader
  recv_msg_header :: MessageHeader
  recv_io_vec :: "iovec list"
  send_io_vec :: "string list"
  recv_message_type :: ParseType
  message_handler :: "(MessageBase \<Rightarrow> MessageBase option) option"
  send_message_queue :: "MessageBase list"
  output_buffer_size :: "64 word"
  error_code :: errno
  allocate_cb :: "(nat \<Rightarrow> string option) option"
  free_cb :: "(string \<Rightarrow> bool) option"
  advertise_addr :: string
  conn_socket :: tcp_socket
  handled :: "MessageBase list"

definition Connection0 :: "tcp_socket \<Rightarrow> Connection" where
  "Connection0 s =
     \<lparr>socket_fd = -1, deleted = False, is_remote = False, source = [], destination = [], peer = [],
      conn_state = kInit, send_metrics = Some SendMetrics0, send_message = None, recv_message = None,
      recv_state = kMsgHeader, total_recv_len = 0, total_send_len = 0, recv_len = 0,
      send_to = [], send_from = [], recv_to = [], recv_from = [],
      send_msg_header = MessageHeader0, recv_msg_header = MessageHeader0, recv_io_vec = [], send_io_vec = [],
      recv_message_type = kTcpMsg, message_handler = None, send_message_queue = [], output_buffer_size = 0,
      error_code = errno_none, allocate_cb = None, free_cb = None, advertise_addr = [],
      conn_socket = s, handled = []\<rparr>"

section \<open>Helpers\<close>

text \<open>\<open>std::string::resize\<close> and \<open>std::string::find\<close>.\<close>

definition resize :: "nat \<Rightarrow> string \<Rightarrow> string" where
  "resize n s = take n s @ replicate (n - length s) (CHR 0x00)"

fun find_char :: "char \<Rightarrow> string \<Rightarrow> nat option" where
  "find_char c [] = None"
| "find_char c (x # xs) = (if x = c then Some 0 else map_option Suc (find_char c xs))"

fun find_string :: "string \<Rightarrow> string \<Rightarrow> nat option" where
  "find_string p [] = (if p = [] then Some 0 else None)"
| "find_string p (x # xs) =
     (if take (length p) (x # xs) = p then Some 0 else map_option Suc (find_string p xs))"

fun hex_string :: "nat \<Rightarrow> string" where
  "hex_string n = (if n < 16 then [''0123456789abcdef'' ! n] else hex_string (n div 16) @ [''0123456789abcdef'' ! (n mod 16)])"

definition GetMessageBaseRealDataSize :: "MessageBase \<Rightarrow> nat" where
  "GetMessageBaseRealDataSize msg =
     (case msg_data msg of
        Some _ \<Rightarrow> msg_size msg
      | None \<Rightarrow> if msg_body msg \<noteq> [] then length (msg_body msg) else 0)"

text \<open>The memory at the pointer that \<open>GetMessageBaseRealData\<close> returns, as long as the size says.\<close>

definition GetMessageBaseRealData :: "MessageBase \<Rightarrow> string" where
  "GetMessageBaseRealData msg =
     (case msg_data msg of
        Some d \<Rightarrow> take (GetMessageBaseRealDataSize msg) d
      | None \<Rightarrow> if msg_body msg \<noteq> [] then msg_body msg else [])"

definition FreeMessageMemory :: "MessageBase option \<Rightarrow> Connection \<Rightarrow> bool" where
  "FreeMessageMemory msg c =
     (case msg of
        None \<Rightarrow> False
      | Some m \<Rightarrow>
          (case msg_data m of
             None \<Rightarrow> True
           | Some d \<Rightarrow> (case free_cb c of None \<Rightarrow> False | Some f \<Rightarrow> f d)))"

section \<open>Sending\<close>

definition crlf :: string where "crlf = [CHR 0x0D, CHR 0x0A]"

definition GenerateHttpMessage :: "MessageBase \<Rightarrow> Connection \<Rightarrow> string" where
  "GenerateHttpMessage msg c =
     (let postLineBegin = ''POST /'';
          postLineEnd = '' HTTP/1.1'' @ crlf;
          postLine = (if aid_name (msg_to msg) \<noteq> []
                      then postLineBegin @ aid_name (msg_to msg) @ ''/'' @ msg_name msg @ postLineEnd
                      else postLineBegin @ msg_name msg @ postLineEnd);
          userAgentLine = ''User-Agent: libprocess/'' @ aid_name (msg_from msg) @ ''@'' @ advertise_addr c @ crlf;
          fromLine = ''Libprocess-From: '' @ aid_name (msg_from msg) @ ''@'' @ advertise_addr c @ crlf;
          connectLine = ''Connection: Keep-Alive'' @ crlf;
          hostLine = ''Host: '' @ crlf
      in if 0 < length (msg_body msg) then
           let bodyLine = hex_string (length (msg_body msg)) @ crlf @ msg_body msg in
           postLine @ userAgentLine @ fromLine @ connectLine @ hostLine
             @ ''Transfer-Encoding: chunked'' @ crlf @ crlf @ bodyLine @ crlf @ ''0'' @ crlf @ crlf
         else postLine @ userAgentLine @ fromLine @ connectLine @ hostLine @ crlf)"

definition FillSendMessage ::
    "net_ext \<Rightarrow> MessageBase \<Rightarrow> string \<Rightarrow> bool \<Rightarrow> Connection \<Rightarrow> Connection option" where
  "FillSendMessage X msg advertiseUrl isHttpKmsg c =
     (case send_metrics c of
        None \<Rightarrow> Some c
      | Some metrics \<Rightarrow>
          if msg_type msg \<noteq> KMSG then Some c
          else if \<not> isHttpKmsg then do {
            let c = c\<lparr>send_to := aid_string (msg_to msg), send_from := aid_string (msg_from msg)\<rparr>;
            let c = c\<lparr>send_msg_header := FillMessageHeader msg (send_msg_header c)\<rparr>;
            let real_data_size = GetMessageBaseRealDataSize msg;
            header_size \<leftarrow> UlongToUint X sizeof_MessageHeader;
            Some (c\<lparr>send_io_vec := [header_bytes (send_msg_header c), msg_name msg, send_to c, send_from c,
                                    GetMessageBaseRealData msg],
                    total_send_len := header_size + length (msg_name msg) + length (send_to c)
                                      + length (send_from c) + real_data_size,
                    send_message := Some msg,
                    send_metrics := Some ((UpdateMax real_data_size metrics)\<lparr>last_send_msg_name := msg_name msg\<rparr>)\<rparr>) }
          else do {
            let c = (if advertise_addr c = [] then
                       (case find_string (URL_PROTOCOL_IP_SEPARATOR X) advertiseUrl of
                          None \<Rightarrow> c\<lparr>advertise_addr := advertiseUrl\<rparr>
                        | Some idx \<Rightarrow> c\<lparr>advertise_addr := drop (idx + length (URL_PROTOCOL_IP_SEPARATOR X)) advertiseUrl\<rparr>)
                     else c);
            let msg = msg\<lparr>msg_body := GenerateHttpMessage msg c\<rparr>;
            let real_data_size = GetMessageBaseRealDataSize msg;
            total_len \<leftarrow> UlongToUint X real_data_size;
            Some (c\<lparr>send_io_vec := [GetMessageBaseRealData msg], total_send_len := total_len, send_message := Some msg,
                    send_metrics := Some ((UpdateMax real_data_size metrics)\<lparr>last_send_msg_name := msg_name msg\<rparr>)\<rparr>) })"

partial_function (option) Flush_loop :: "net_ext \<Rightarrow> nat \<Rightarrow> Connection \<Rightarrow> (nat \<times> Connection) option" where
  "Flush_loop X total_send_bytes c =
     (if send_message_queue c \<noteq> [] \<or> total_send_len c \<noteq> 0 then do {
        c \<leftarrow> (if total_send_len c = 0
               then map_option (\<lambda>c. c\<lparr>send_message_queue := tl (send_message_queue c)\<rparr>)
                      (FillSendMessage X (hd (send_message_queue c)) (source c) False c)
               else Some c);
        (retval, sendLen, iov, ec, s) \<leftarrow> SendMessage (total_send_len c) (send_io_vec c) (error_code c) (conn_socket c);
        let c = c\<lparr>send_io_vec := iov, error_code := ec, conn_socket := s\<rparr>;
        if retval = IO_RW_OK \<and> 0 < sendLen then do {
          let c = c\<lparr>total_send_len := total_send_len c - sendLen\<rparr>;
          if total_send_len c = 0 then do {
            metrics \<leftarrow> send_metrics c;
            let real_data_size = (case send_message c of None \<Rightarrow> 0 | Some m \<Rightarrow> GetMessageBaseRealDataSize m);
            Some (total_send_bytes + real_data_size,
                  c\<lparr>send_metrics := Some (UpdateError False errno_none metrics),
                    output_buffer_size := output_buffer_size c - of_nat real_data_size,
                    send_message := None\<rparr>) }
          else Flush_loop X total_send_bytes c }
        else if retval = IO_RW_OK \<and> sendLen = 0 then Flush_loop X total_send_bytes c
        else do {
          metrics \<leftarrow> send_metrics c;
          Some (total_send_bytes,
                c\<lparr>send_metrics := Some (UpdateError True (error_code c) metrics), conn_state := kDisconnecting\<rparr>) } }
      else Some (total_send_bytes, c))"

definition Flush :: "net_ext \<Rightarrow> Connection \<Rightarrow> (nat \<times> Connection) option" where
  "Flush X c = Flush_loop X 0 c"

section \<open>Receiving\<close>

definition ReorderHeader :: "MessageHeader \<Rightarrow> MessageHeader" where
  "ReorderHeader header =
     header\<lparr>name_len := ntohl (name_len header), to_len := ntohl (to_len header),
            from_len := ntohl (from_len header), body_len := ntohl (body_len header)\<rparr>"

definition FillRecvMessage :: "Connection \<Rightarrow> Connection" where
  "FillRecvMessage c =
     (let recvNameLen = unat (name_len (recv_msg_header c));
          recvToLen = unat (to_len (recv_msg_header c));
          recvFromLen = unat (from_len (recv_msg_header c));
          recvBodyLen = unat (body_len (recv_msg_header c))
      in if MAX_KMSG_NAME_LEN < recvNameLen \<or> MAX_KMSG_TO_LEN < recvToLen \<or> MAX_KMSG_FROM_LEN < recvFromLen
            \<or> MAX_KMSG_BODY_LEN < recvBodyLen
         then c\<lparr>conn_state := kDisconnecting\<rparr>
         else
           let msg = MessageBase0\<lparr>msg_name := resize recvNameLen []\<rparr>;
               c = c\<lparr>recv_to := resize recvToLen (recv_to c), recv_from := resize recvFromLen (recv_from c)\<rparr>;
               msg = (case allocate_cb c of
                        Some f \<Rightarrow> msg\<lparr>msg_data := f recvBodyLen, msg_size := recvBodyLen\<rparr>
                      | None \<Rightarrow> msg\<lparr>msg_body := resize recvBodyLen []\<rparr>);
               real_data_size = GetMessageBaseRealDataSize msg
           in c\<lparr>recv_io_vec := [\<lparr>iov_area = AName, iov_off = 0, iov_len = length (msg_name msg)\<rparr>,
                               \<lparr>iov_area = ATo, iov_off = 0, iov_len = length (recv_to c)\<rparr>,
                               \<lparr>iov_area = AFrom, iov_off = 0, iov_len = length (recv_from c)\<rparr>,
                               \<lparr>iov_area = AData, iov_off = 0, iov_len = real_data_size\<rparr>],
               total_recv_len := length (msg_name msg) + length (recv_to c) + length (recv_from c) + real_data_size,
               recv_message := Some msg\<rparr>)"

text \<open>The four areas of the connection that the scatter vector points into.\<close>

definition areas_of :: "MessageBase \<Rightarrow> Connection \<Rightarrow> area \<Rightarrow> string" where
  "areas_of msg c a =
     (case a of
        AName \<Rightarrow> msg_name msg
      | ATo \<Rightarrow> recv_to c
      | AFrom \<Rightarrow> recv_from c
      | AData \<Rightarrow> (case msg_data msg of Some d \<Rightarrow> d | None \<Rightarrow> msg_body msg))"

definition set_areas :: "(area \<Rightarrow> string) \<Rightarrow> MessageBase \<Rightarrow> Connection \<Rightarrow> Connection" where
  "set_areas mem msg c =
     c\<lparr>recv_to := mem ATo, recv_from := mem AFrom,
       recv_message := Some (case msg_data msg of
         Some _ \<Rightarrow> msg\<lparr>msg_name := mem AName, msg_data := Some (mem AData)\<rparr>
       | None \<Rightarrow> msg\<lparr>msg_name := mem AName, msg_body := mem AData\<rparr>)\<rparr>"

text \<open>A separator that is not found is \<open>npos\<close>: the name is the whole string, and so is the url behind \<open>npos + 1 = 0\<close>.\<close>

definition split_name :: "string \<Rightarrow> string" where
  "split_name s = (case find_char (CHR ''@'') s of Some i \<Rightarrow> take i s | None \<Rightarrow> s)"

definition split_url :: "string \<Rightarrow> string" where
  "split_url s = (case find_char (CHR ''@'') s of Some i \<Rightarrow> drop (i + 1) s | None \<Rightarrow> s)"

definition SetUrlForRecvMessage :: "net_ext \<Rightarrow> Connection \<Rightarrow> (bool \<times> Connection) option" where
  "SetUrlForRecvMessage X c =
     (if find_char (CHR ''@'') (recv_from c) = None \<and> find_char (CHR ''@'') (recv_to c) = None then Some (False, c)
      else do {
        msg \<leftarrow> recv_message c;
        Some (True, c\<lparr>recv_message := Some (msg\<lparr>
          msg_from := make_AID (set_unfix_url X) (split_name (recv_from c)) (split_url (recv_from c)),
          msg_to := make_AID (set_unfix_url X) (split_name (recv_to c)) (split_url (recv_to c))\<rparr>)\<rparr>) })"

definition parse_body :: "net_ext \<Rightarrow> Connection \<Rightarrow> (bool \<times> Connection) option" where
  "parse_body X c = do {
     msg \<leftarrow> recv_message c;
     (retval, recvLen, iov, mem, ec, s) \<leftarrow>
       ReceiveMessage_sock (total_recv_len c) 0 (recv_io_vec c) (areas_of msg c) (error_code c) (conn_socket c);
     let c = set_areas mem msg (c\<lparr>recv_io_vec := iov, error_code := ec, conn_socket := s\<rparr>);
     if recvLen \<noteq> total_recv_len c then
       if retval \<noteq> IO_RW_OK then Some (False, c\<lparr>conn_state := kDisconnecting\<rparr>)
       else Some (False, c\<lparr>total_recv_len := total_recv_len c - recvLen\<rparr>)
     else do {
       (ok, c) \<leftarrow> SetUrlForRecvMessage X c;
       if \<not> ok then Some (False, c) else Some (True, c\<lparr>recv_state := kMsgHeader\<rparr>) } }"

definition ParseMessage :: "net_ext \<Rightarrow> Connection \<Rightarrow> (bool \<times> Connection) option" where
  "ParseMessage X c =
     (case recv_state c of
        kMsgHeader \<Rightarrow> do {
          (retval, got, ec, s) \<leftarrow> Receive (sizeof_MessageHeader - recv_len c) (error_code c) (conn_socket c);
          let c = c\<lparr>error_code := ec, conn_socket := s,
                    recv_msg_header := header_of_bytes (overwrite (recv_len c) got (header_bytes (recv_msg_header c)))\<rparr>;
          if retval \<noteq> IO_RW_OK then Some (False, c\<lparr>conn_state := kDisconnecting, recv_len := recv_len c + length got\<rparr>)
          else if length got + recv_len c \<noteq> sizeof_MessageHeader then Some (False, c\<lparr>recv_len := recv_len c + length got\<rparr>)
          else do {
            let c = c\<lparr>recv_len := 0\<rparr>;
            if take (length RPC_MAGICID) (magic (recv_msg_header c)) \<noteq> RPC_MAGICID
            then Some (False, c\<lparr>conn_state := kDisconnecting\<rparr>)
            else do {
              let c = FillRecvMessage (c\<lparr>recv_msg_header := ReorderHeader (recv_msg_header c)\<rparr>);
              if conn_state c = kDisconnecting then Some (False, c)
              else parse_body X (c\<lparr>recv_state := kBody\<rparr>) } } }
      | kBody \<Rightarrow> parse_body X c)"

definition ReceiveMessage :: "net_ext \<Rightarrow> Connection \<Rightarrow> (int \<times> Connection) option" where
  "ReceiveMessage X c = do {
     (ok, c) \<leftarrow> ParseMessage X c;
     if \<not> ok then Some (if conn_state c = kDisconnecting then (-1, c) else (0, c))
     else (case message_handler c of
        None \<Rightarrow> Some (1, c)
      | Some handler \<Rightarrow> do {
          msg \<leftarrow> recv_message c;
          let c = c\<lparr>handled := handled c @ [msg]\<rparr>;
          (case handler msg of
             None \<Rightarrow> Some (1, c)
           | Some result \<Rightarrow> do {
               c \<leftarrow> FillSendMessage X result '''' False c;
               (_, c) \<leftarrow> Flush X c;
               Some (1, c) }) }) }"

definition CheckMessageType :: "Connection \<Rightarrow> Connection" where
  "CheckMessageType c =
     (if recv_message_type c \<noteq> kUnknown then c
      else case sys_peek (length RPC_MAGICID) (conn_socket c) of
        Inl e \<Rightarrow> c
      | Inr magic_id \<Rightarrow>
          if length magic_id < length RPC_MAGICID then
            if magic_id = [] then c\<lparr>conn_state := kDisconnecting\<rparr> else c
          else if magic_id = RPC_MAGICID then c\<lparr>recv_state := kMsgHeader, recv_message_type := kTcpMsg\<rparr>
          else c)"

text \<open>\<open>Close\<close> drops what is queued and closes the socket.\<close>

definition Close :: "Connection \<Rightarrow> Connection" where
  "Close c =
     (let c = (if total_send_len c \<noteq> 0 \<and> send_message c \<noteq> None then c\<lparr>send_message := None\<rparr> else c)
      in c\<lparr>send_message_queue := [], socket_fd := -1, send_metrics := None\<rparr>)"

section \<open>What \<open>TCPComm\<close> does with one connection\<close>

text \<open>
  \<open>TCPComm::ReceiveMessage\<close>, and the callback for read events, which handles up to three messages.
\<close>

definition comm_ReceiveMessage :: "net_ext \<Rightarrow> Connection \<Rightarrow> (int \<times> Connection) option" where
  "comm_ReceiveMessage X c =
     (let c = CheckMessageType c in
      case recv_message_type c of kTcpMsg \<Rightarrow> ReceiveMessage X c | _ \<Rightarrow> Some (0, c))"

fun read_loop :: "net_ext \<Rightarrow> nat \<Rightarrow> Connection \<Rightarrow> Connection option" where
  "read_loop X 0 c = Some c"
| "read_loop X (Suc n) c = do {
     (retval, c) \<leftarrow> comm_ReceiveMessage X c;
     if 0 < retval then read_loop X n c else Some c }"

definition ReadCallBack :: "net_ext \<Rightarrow> Connection \<Rightarrow> Connection option" where
  "ReadCallBack X c = (let max_recv_count = 3 in read_loop X max_recv_count c)"

text \<open>The part of \<open>TCPComm::Send\<close> under the connection's lock; a message that is not sent is deleted.\<close>

definition send_on :: "net_ext \<Rightarrow> string \<Rightarrow> MessageBase \<Rightarrow> Connection \<Rightarrow> (bool \<times> nat option \<times> Connection) option" where
  "send_on X url msg c =
     (if SENDMSG_QUEUELEN \<le> length (send_message_queue c) then Some (False, None, c)
      else if conn_state c \<noteq> kConnected then Some (False, None, c)
      else do {
        c \<leftarrow> (if total_send_len c = 0 then FillSendMessage X msg url False c
               else Some (c\<lparr>send_message_queue := send_message_queue c @ [msg]\<rparr>));
        (bytes, c) \<leftarrow> Flush X c;
        Some (True, Some bytes, c) })"

end
