(* ===== verification/Net_Delivery.thy ===== *)
theory Net_Delivery
  imports Net_Connection
begin

text \<open>
  What goes over the wire and what comes out of it. \<open>wire\<close> is the encoding of a message; sending a message
  appends it to the bytes of the socket, and reading a stream that carries encodings gives the messages,
  however the bytes are cut into segments.
\<close>

section \<open>The encoding of a message\<close>

definition wire :: "MessageBase \<Rightarrow> string" where
  "wire m = header_bytes (FillMessageHeader m MessageHeader0) @ msg_name m @ aid_string (msg_to m)
            @ aid_string (msg_from m) @ GetMessageBaseRealData m"

text \<open>
  A message that the receiver's limits admit, with as much data as its size says and names without the
  separator of name and url.
\<close>

definition sendable :: "MessageBase \<Rightarrow> bool" where
  "sendable m \<longleftrightarrow> msg_type m = KMSG \<and> length (msg_name m) \<le> MAX_KMSG_NAME_LEN \<and>
     length (aid_string (msg_to m)) \<le> MAX_KMSG_TO_LEN \<and> length (aid_string (msg_from m)) \<le> MAX_KMSG_FROM_LEN \<and>
     GetMessageBaseRealDataSize m \<le> MAX_KMSG_BODY_LEN \<and>
     CHR ''@'' \<notin> set (aid_name (msg_to m)) \<and> CHR ''@'' \<notin> set (aid_name (msg_from m)) \<and>
     (case msg_data m of None \<Rightarrow> True | Some d \<Rightarrow> msg_size m \<le> length d)"

text \<open>The message that the receiver makes of it; the data is in \<open>data\<close> if it has a callback that allocates it.\<close>

definition received :: "net_ext \<Rightarrow> bool \<Rightarrow> MessageBase \<Rightarrow> MessageBase" where
  "received X allocates m =
     (let m' = MessageBase0\<lparr>msg_from := make_AID (set_unfix_url X) (aid_name (msg_from m)) (aid_url (msg_from m)),
                           msg_to := make_AID (set_unfix_url X) (aid_name (msg_to m)) (aid_url (msg_to m)),
                           msg_name := msg_name m\<rparr>
      in if allocates then m'\<lparr>msg_data := Some (GetMessageBaseRealData m), msg_size := GetMessageBaseRealDataSize m\<rparr>
         else m'\<lparr>msg_body := GetMessageBaseRealData m\<rparr>)"

lemma length_RealData:
  assumes "case msg_data m of None \<Rightarrow> True | Some d \<Rightarrow> msg_size m \<le> length d"
  shows "length (GetMessageBaseRealData m) = GetMessageBaseRealDataSize m"
  using assms by (auto simp: GetMessageBaseRealData_def GetMessageBaseRealDataSize_def split: option.splits)

lemma magic_simps [simp]:
  "length RPC_MAGICID = 4" "magic MessageHeader0 = RPC_MAGICID"
  "magic (FillMessageHeader m h) = magic h" "magic (ReorderHeader h) = magic h"
  by (simp_all add: RPC_MAGICID_def MessageHeader0_def FillMessageHeader_def ReorderHeader_def Let_def)

lemma unat_of_nat32 [simp]: "n < 2 ^ 32 \<Longrightarrow> unat (of_nat n :: uint32) = n"
  by (simp add: unsigned_of_nat take_bit_nat_eq_self)

text \<open>The receiver's header after the byte order has been restored has the sender's lengths.\<close>

lemma ReorderHeader_FillMessageHeader:
  assumes "sendable m"
  defines "h \<equiv> ReorderHeader (FillMessageHeader m MessageHeader0)"
  shows "unat (name_len h) = length (msg_name m)" "unat (to_len h) = length (aid_string (msg_to m))"
    "unat (from_len h) = length (aid_string (msg_from m))" "unat (body_len h) = GetMessageBaseRealDataSize m"
  using assms
  by (auto simp: sendable_def ReorderHeader_def FillMessageHeader_def Let_def GetMessageBaseRealDataSize_def
      MAX_KMSG_NAME_LEN_def MAX_KMSG_TO_LEN_def MAX_KMSG_FROM_LEN_def MAX_KMSG_BODY_LEN_def split: option.splits)

lemma length_wire:
  assumes "sendable m"
  shows "length (wire m) = sizeof_MessageHeader + length (msg_name m) + length (aid_string (msg_to m))
    + length (aid_string (msg_from m)) + GetMessageBaseRealDataSize m"
  using assms length_RealData [of m] by (simp add: wire_def length_header_bytes sendable_def)

section \<open>Sending\<close>

definition ready_to_send :: "net_ext \<Rightarrow> Connection \<Rightarrow> bool" where
  "ready_to_send X c \<longleftrightarrow> UlongToUint X sizeof_MessageHeader = Some sizeof_MessageHeader \<and>
     send_metrics c \<noteq> None \<and> magic (send_msg_header c) = RPC_MAGICID \<and> total_send_len c = 0 \<and> send_message_queue c = []"

lemma header_bytes_FillMessageHeader:
  assumes "magic h = RPC_MAGICID"
  shows "header_bytes (FillMessageHeader m h) = header_bytes (FillMessageHeader m MessageHeader0)"
  using assms by (simp add: header_bytes_def FillMessageHeader_def Let_def)

text \<open>
  A message is sent whole: \<open>FillSendMessage\<close> and \<open>Flush\<close> put its encoding behind the bytes sent so far.
\<close>

lemma Flush_sends:
  assumes "ready_to_send X c" "sendable m" "drains (length (wire m)) 0 (accepting (conn_socket c))"
  shows "\<exists>c1 c' e. FillSendMessage X m url False c = Some c1 \<and> Flush X c1 = Some (GetMessageBaseRealDataSize m, c') \<and>
    conn_socket c' = (conn_socket c)\<lparr>accepting := script_after (length (wire m)) (accepting (conn_socket c)), outgoing := outgoing (conn_socket c) @ wire m, sys_errno := e\<rparr> \<and>
    ready_to_send X c' \<and> send_message c' = None \<and> conn_state c' = conn_state c"
proof -
  obtain metrics where metrics: "send_metrics c = Some metrics" using assms(1) by (auto simp: ready_to_send_def)
  let ?iov = "[header_bytes (FillMessageHeader m (send_msg_header c)), msg_name m, aid_string (msg_to m),
    aid_string (msg_from m), GetMessageBaseRealData m]"
  have iov: "concat ?iov = wire m"
    using assms(1) by (simp add: ready_to_send_def wire_def header_bytes_FillMessageHeader [of "send_msg_header c"])
  have len: "length (wire m) = sizeof_MessageHeader + length (msg_name m) + length (aid_string (msg_to m))
    + length (aid_string (msg_from m)) + GetMessageBaseRealDataSize m" by (rule length_wire [OF assms(2)])
  obtain c1 where c1: "FillSendMessage X m url False c = Some c1" "send_io_vec c1 = ?iov"
    "total_send_len c1 = length (wire m)" "send_message c1 = Some m" "send_metrics c1 \<noteq> None"
    "send_message_queue c1 = []" "conn_socket c1 = conn_socket c" "conn_state c1 = conn_state c"
    "magic (send_msg_header c1) = RPC_MAGICID"
    using assms(1,2) metrics len by (auto simp: FillSendMessage_def Let_def ready_to_send_def sendable_def)
  define es where "es = script_after (length (wire m)) (accepting (conn_socket c))"
  obtain iov' e where send: "SendMessage (length (wire m)) ?iov (error_code c1) (conn_socket c)
    = Some (IO_RW_OK, length (wire m), iov', error_code c1,
        (conn_socket c)\<lparr>accepting := es, outgoing := outgoing (conn_socket c) @ wire m, sys_errno := e\<rparr>)"
    using SendMessage_loop_drains [of ?iov 0 "conn_socket c" 0 "length (wire m)" "error_code c1"] assms(3)
    unfolding SendMessage_def iov es_def by auto
  have pos: "0 < length (wire m)" using len by (simp add: sizeof_MessageHeader_def)
  obtain metrics1 where metrics1: "send_metrics c1 = Some metrics1" using c1(5) by blast
  have "Flush X c1 = Some (GetMessageBaseRealDataSize m, c1\<lparr>send_io_vec := iov',
      conn_socket := (conn_socket c)\<lparr>accepting := es, outgoing := outgoing (conn_socket c) @ wire m, sys_errno := e\<rparr>,
      total_send_len := 0, send_metrics := Some (UpdateError False errno_none metrics1),
      output_buffer_size := output_buffer_size c1 - of_nat (GetMessageBaseRealDataSize m), send_message := None\<rparr>)"
    unfolding Flush_def using c1(2-8) send pos metrics1 by (subst Flush_loop.simps) (simp add: Let_def)
  then show ?thesis using c1 assms(1) unfolding es_def by (auto simp: ready_to_send_def)
qed

text \<open>The sockets that take messages of the lengths \<open>ns\<close> one after the other.\<close>

fun roomy :: "nat list \<Rightarrow> send_event list \<Rightarrow> bool" where
  "roomy [] es = True"
| "roomy (n # ns) es = (drains n 0 es \<and> roomy ns (script_after n es))"

fun send_all :: "net_ext \<Rightarrow> string \<Rightarrow> MessageBase list \<Rightarrow> Connection \<Rightarrow> (bool list \<times> Connection) option" where
  "send_all X url [] c = Some ([], c)"
| "send_all X url (m # ms) c = do {
     (ok, _, c) \<leftarrow> send_on X url m c;
     (oks, c) \<leftarrow> send_all X url ms c;
     Some (ok # oks, c) }"

lemma send_all_wire:
  assumes "ready_to_send X c" "conn_state c = kConnected" "\<forall>m \<in> set ms. sendable m"
    and "roomy (map (length \<circ> wire) ms) (accepting (conn_socket c))"
  shows "\<exists>c'. send_all X url ms c = Some (replicate (length ms) True, c') \<and> ready_to_send X c' \<and> conn_state c' = kConnected \<and>
    outgoing (conn_socket c') = outgoing (conn_socket c) @ concat (map wire ms)"
  using assms
proof (induction ms arbitrary: c)
  case Nil
  then show ?case by simp
next
  case (Cons m ms)
  have drain: "drains (length (wire m)) 0 (accepting (conn_socket c))" and m: "sendable m" using Cons.prems by simp_all
  from Flush_sends [OF Cons.prems(1) m drain, of url] obtain c1 c' e where
    c': "FillSendMessage X m url False c = Some c1" "Flush X c1 = Some (GetMessageBaseRealDataSize m, c')"
    "conn_socket c' = (conn_socket c)\<lparr>accepting := script_after (length (wire m)) (accepting (conn_socket c)),
       outgoing := outgoing (conn_socket c) @ wire m, sys_errno := e\<rparr>"
    "ready_to_send X c'" "conn_state c' = conn_state c" by blast
  have "send_on X url m c = Some (True, Some (GetMessageBaseRealDataSize m), c')"
    using c'(1,2) Cons.prems(1,2) by (simp add: send_on_def ready_to_send_def SENDMSG_QUEUELEN_def)
  moreover obtain c'' where "send_all X url ms c' = Some (replicate (length ms) True, c'')" "ready_to_send X c''"
    "conn_state c'' = kConnected" "outgoing (conn_socket c'') = outgoing (conn_socket c') @ concat (map wire ms)"
    using Cons.IH [OF c'(4)] Cons.prems c'(3,5) by auto
  ultimately show ?case using c'(3) by simp
qed

section \<open>Receiving\<close>

text \<open>
  The callback that allocates gives as much memory as it is asked for.
\<close>

definition alloc_ok :: "Connection \<Rightarrow> bool" where
  "alloc_ok c \<longleftrightarrow> (case allocate_cb c of None \<Rightarrow> True | Some f \<Rightarrow> (\<forall>n. \<exists>d. f n = Some d \<and> length d = n))"

text \<open>The connection waits for a header, of which the bytes \<open>got\<close> have arrived.\<close>

definition reading :: "Connection \<Rightarrow> string \<Rightarrow> bool" where
  "reading c got \<longleftrightarrow> recv_state c = kMsgHeader \<and> recv_len c = length got \<and> length got < sizeof_MessageHeader \<and>
     length (magic (recv_msg_header c)) = 4 \<and> take (length got) (header_bytes (recv_msg_header c)) = got \<and>
     conn_state c \<noteq> kDisconnecting \<and> quiet (incoming (conn_socket c)) \<and> alloc_ok c"

text \<open>What reading leaves as it is.\<close>

definition same_link :: "Connection \<Rightarrow> Connection \<Rightarrow> bool" where
  "same_link c c' \<longleftrightarrow> conn_state c' = conn_state c \<and> allocate_cb c' = allocate_cb c \<and>
     message_handler c' = message_handler c \<and> recv_message_type c' = recv_message_type c"

lemma length_resize [simp]: "length (resize n s) = n"
  by (simp add: resize_def)

lemma find_char_None: "find_char c s = None \<longleftrightarrow> c \<notin> set s"
  by (induction s) auto

lemma find_char_append: "c \<notin> set xs \<Longrightarrow> find_char c (xs @ c # ys) = Some (length xs)"
  by (induction xs) auto

lemma split_aid_string:
  assumes "CHR ''@'' \<notin> set (aid_name a)"
  shows "split_name (aid_string a) = aid_name a" "split_url (aid_string a) = aid_url a"
  using assms by (simp_all add: split_name_def split_url_def aid_string_def find_char_append)

lemma at_in_aid_string: "CHR ''@'' \<in> set (aid_string a)"
  by (simp add: aid_string_def)

lemma scatter_areas:
  assumes "length N = length (mem AName)" "length T = length (mem ATo)"
    "length F = length (mem AFrom)" "length B = length (mem AData)"
  shows "scatter [\<lparr>iov_area = AName, iov_off = 0, iov_len = length N\<rparr>, \<lparr>iov_area = ATo, iov_off = 0, iov_len = length T\<rparr>,
      \<lparr>iov_area = AFrom, iov_off = 0, iov_len = length F\<rparr>, \<lparr>iov_area = AData, iov_off = 0, iov_len = length B\<rparr>]
      (N @ T @ F @ B) mem
    = (\<lambda>a. case a of AName \<Rightarrow> N | ATo \<Rightarrow> T | AFrom \<Rightarrow> F | AData \<Rightarrow> B)"
  using assms by (auto simp: overwrite_all fun_eq_iff split: area.splits)

text \<open>
  \<open>c'\<close> is the connection \<open>c\<close> after a header was read: it has a new message \<open>msg\<close> with room for the rest of \<open>m\<close>.
\<close>

definition room_for :: "MessageBase \<Rightarrow> Connection \<Rightarrow> MessageBase \<Rightarrow> Connection \<Rightarrow> bool" where
  "room_for m c msg c' \<longleftrightarrow> recv_message c' = Some msg \<and> same_link c c' \<and> handled c' = handled c \<and> conn_socket c' = conn_socket c \<and>
     recv_len c' = recv_len c \<and> recv_msg_header c' = recv_msg_header c \<and>
     total_recv_len c' = length (msg_name m) + length (aid_string (msg_to m))
       + length (aid_string (msg_from m)) + GetMessageBaseRealDataSize m \<and>
     recv_io_vec c' = [\<lparr>iov_area = AName, iov_off = 0, iov_len = length (msg_name m)\<rparr>,
       \<lparr>iov_area = ATo, iov_off = 0, iov_len = length (aid_string (msg_to m))\<rparr>,
       \<lparr>iov_area = AFrom, iov_off = 0, iov_len = length (aid_string (msg_from m))\<rparr>,
       \<lparr>iov_area = AData, iov_off = 0, iov_len = GetMessageBaseRealDataSize m\<rparr>] \<and>
     length (areas_of msg c' AName) = length (msg_name m) \<and>
     length (areas_of msg c' ATo) = length (aid_string (msg_to m)) \<and>
     length (areas_of msg c' AFrom) = length (aid_string (msg_from m)) \<and>
     length (areas_of msg c' AData) = GetMessageBaseRealDataSize m \<and>
     (\<forall>mem. recv_message (set_areas mem msg c') = Some (if allocate_cb c \<noteq> None
        then MessageBase0\<lparr>msg_name := mem AName, msg_data := Some (mem AData), msg_size := GetMessageBaseRealDataSize m\<rparr>
        else MessageBase0\<lparr>msg_name := mem AName, msg_body := mem AData\<rparr>))"

lemma FillRecvMessage_ready:
  assumes "sendable m" "alloc_ok c" "recv_msg_header c = ReorderHeader (FillMessageHeader m MessageHeader0)"
  shows "\<exists>msg. room_for m c msg (FillRecvMessage c)"
proof -
  note lens = ReorderHeader_FillMessageHeader [OF assms(1)]
  have fits: "length (msg_name m) \<le> MAX_KMSG_NAME_LEN" "length (aid_string (msg_to m)) \<le> MAX_KMSG_TO_LEN"
    "length (aid_string (msg_from m)) \<le> MAX_KMSG_FROM_LEN" "GetMessageBaseRealDataSize m \<le> MAX_KMSG_BODY_LEN"
    using assms(1) by (simp_all add: sendable_def)
  define n where "n = GetMessageBaseRealDataSize m"
  define msg where "msg = (case allocate_cb c of
      Some f \<Rightarrow> MessageBase0\<lparr>msg_name := resize (length (msg_name m)) [], msg_data := f n, msg_size := n\<rparr>
    | None \<Rightarrow> MessageBase0\<lparr>msg_name := resize (length (msg_name m)) [], msg_body := resize n []\<rparr>)"
  have data: "GetMessageBaseRealDataSize msg = n" "msg_name msg = resize (length (msg_name m)) []"
    "length (case msg_data msg of Some d \<Rightarrow> d | None \<Rightarrow> msg_body msg) = n"
    "msg_data msg \<noteq> None \<longleftrightarrow> allocate_cb c \<noteq> None"
    using assms(2)
    by (auto simp: msg_def alloc_ok_def GetMessageBaseRealDataSize_def MessageBase0_def resize_def
        split: option.splits dest: spec [of _ n])
  have Fill: "FillRecvMessage c = c\<lparr>recv_to := resize (length (aid_string (msg_to m))) (recv_to c),
      recv_from := resize (length (aid_string (msg_from m))) (recv_from c),
      recv_io_vec := [\<lparr>iov_area = AName, iov_off = 0, iov_len = length (msg_name m)\<rparr>,
        \<lparr>iov_area = ATo, iov_off = 0, iov_len = length (aid_string (msg_to m))\<rparr>,
        \<lparr>iov_area = AFrom, iov_off = 0, iov_len = length (aid_string (msg_from m))\<rparr>,
        \<lparr>iov_area = AData, iov_off = 0, iov_len = n\<rparr>],
      total_recv_len := length (msg_name m) + length (aid_string (msg_to m)) + length (aid_string (msg_from m)) + n,
      recv_message := Some msg\<rparr>"
    using fits data(1,2) unfolding FillRecvMessage_def assms(3) lens
    by (simp add: n_def [symmetric] msg_def Let_def split: option.splits)
  have "room_for m c msg (FillRecvMessage c)"
    using data unfolding room_for_def
    by (auto simp: Fill same_link_def areas_of_def set_areas_def n_def [symmetric] msg_def split: option.splits)
  then show ?thesis by blast
qed

text \<open>Reading the rest of the message behind the header.\<close>

lemma parse_body_done:
  assumes "recv_message c = Some msg" "total_recv_len c = n" "0 < n"
    and "ReceiveMessage_loop n 0 (recv_io_vec c) (areas_of msg c) (error_code c) (conn_socket c)
      = Some (IO_RW_OK, n, iov, mem, ec, s)"
    and "SetUrlForRecvMessage X (set_areas mem msg (c\<lparr>recv_io_vec := iov, error_code := ec, conn_socket := s\<rparr>)) = Some (True, c2)"
  shows "parse_body X c = Some (True, c2\<lparr>recv_state := kMsgHeader\<rparr>)"
proof -
  have "total_recv_len (set_areas mem msg (c\<lparr>recv_io_vec := iov, error_code := ec, conn_socket := s\<rparr>)) = n"
    using assms(2) by (simp add: set_areas_def)
  then show ?thesis using assms by (simp add: parse_body_def ReceiveMessage_sock_def Let_def)
qed

lemma parse_body_receives:
  assumes "sendable m" "alloc_ok c" "recv_msg_header c = ReorderHeader (FillMessageHeader m MessageHeader0)"
    and "quiet (incoming (conn_socket c))" "conn_state c \<noteq> kDisconnecting" "recv_len c = 0"
    and "data_of (incoming (conn_socket c)) = msg_name m @ aid_string (msg_to m) @ aid_string (msg_from m)
      @ GetMessageBaseRealData m @ rest"
  shows "\<exists>c'. parse_body X ((FillRecvMessage c)\<lparr>recv_state := kBody\<rparr>) = Some (True, c') \<and> reading c' [] \<and>
    recv_message c' = Some (received X (allocate_cb c \<noteq> None) m) \<and> same_link c c' \<and>
    handled c' = handled c \<and> data_of (incoming (conn_socket c')) = rest"
proof -
  let ?c = "(FillRecvMessage c)\<lparr>recv_state := kBody\<rparr>"
  let ?N = "msg_name m" let ?T = "aid_string (msg_to m)" let ?F = "aid_string (msg_from m)"
  let ?B = "GetMessageBaseRealData m"
  let ?P = "?N @ ?T @ ?F @ ?B"
  obtain msg where "room_for m c msg (FillRecvMessage c)" using FillRecvMessage_ready [OF assms(1-3)] by blast
  note msg = this [unfolded room_for_def]
  have size: "GetMessageBaseRealDataSize m = length ?B"
    using assms(1) by (simp add: sendable_def length_RealData)
  have names: "CHR ''@'' \<notin> set (aid_name (msg_to m))" "CHR ''@'' \<notin> set (aid_name (msg_from m))"
    using assms(1) by (simp_all add: sendable_def)
  have total: "total_recv_len ?c = length ?P" by (simp add: msg size)
  have rmsg: "recv_message ?c = Some msg" using msg by simp
  have pos: "0 < length ?P" by (simp add: aid_string_def)
  let ?mem = "areas_of msg ?c"
  have mem: "areas_of msg ?c = areas_of msg (FillRecvMessage c)" by (simp add: areas_of_def fun_eq_iff split: area.splits)
  have "iov_ok (recv_io_vec ?c) ?mem" using msg by (simp add: iov_ok_def mem)
  moreover have "iov_total (recv_io_vec ?c) = length ?P" using msg size by simp
  moreover have "quiet (incoming (conn_socket ?c))" using assms(4) msg by simp
  moreover have data: "data_of (incoming (conn_socket ?c)) = ?P @ rest" using assms(7) msg by simp
  ultimately obtain es e where recv: "ReceiveMessage_loop (length ?P) 0 (recv_io_vec ?c) ?mem (error_code ?c) (conn_socket ?c)
      = Some (IO_RW_OK, length ?P, [], scatter (recv_io_vec ?c) ?P ?mem, error_code ?c,
              (conn_socket ?c)\<lparr>incoming := es, sys_errno := e\<rparr>)" "quiet es" "data_of es = rest"
    using ReceiveMessage_loop_quiet [of "conn_socket ?c" 0 "length ?P" "recv_io_vec ?c" ?mem "error_code ?c"] pos
    by auto
  define mem' where "mem' = scatter (recv_io_vec ?c) ?P ?mem"
  have mem': "mem' = (\<lambda>a. case a of AName \<Rightarrow> ?N | ATo \<Rightarrow> ?T | AFrom \<Rightarrow> ?F | AData \<Rightarrow> ?B)"
    unfolding mem'_def using scatter_areas [of ?N ?mem ?T ?F ?B] msg size by (simp add: mem)
  define c2 where "c2 = set_areas mem' msg (?c\<lparr>recv_io_vec := [], error_code := error_code ?c,
    conn_socket := (conn_socket ?c)\<lparr>incoming := es, sys_errno := e\<rparr>\<rparr>)"
  have c2: "recv_message c2 = recv_message (set_areas mem' msg (FillRecvMessage c))" "recv_to c2 = ?T" "recv_from c2 = ?F"
    "total_recv_len c2 = length ?P" "conn_socket c2 = (conn_socket c)\<lparr>incoming := es, sys_errno := e\<rparr>"
    "same_link c c2" "handled c2 = handled c" "recv_len c2 = 0" "recv_msg_header c2 = recv_msg_header c"
    using msg total assms(6) by (simp_all add: c2_def set_areas_def mem' same_link_def)
  define c3 where "c3 = c2\<lparr>recv_message := Some (received X (allocate_cb c \<noteq> None) m), recv_state := kMsgHeader\<rparr>"
  have "SetUrlForRecvMessage X c2 = Some (True, c2\<lparr>recv_message := Some (received X (allocate_cb c \<noteq> None) m)\<rparr>)"
    unfolding SetUrlForRecvMessage_def c2(1-3) mem' split_aid_string [OF names(1)] split_aid_string [OF names(2)]
    using msg by (auto simp: find_char_None at_in_aid_string received_def size Let_def)
  then have "parse_body X ?c = Some (True, c3)"
    unfolding c3_def c2_def mem'_def
    using parse_body_done [OF rmsg total pos recv(1)] by simp
  moreover have "reading c3 []"
    using c2(5-9) recv(2) assms(2,3,5) by (simp add: c3_def reading_def same_link_def alloc_ok_def sizeof_MessageHeader_def)
  moreover have "same_link c c3" using c2(6) by (simp add: c3_def same_link_def)
  ultimately show ?thesis using c2(5,7) recv(3) by (intro exI [of _ c3]) (simp add: c3_def)
qed

text \<open>
  A call of \<open>ParseMessage\<close> while a message is on its way: either it has to wait, then the stream has come
  closer to the message, or it has the message.
\<close>

lemma ParseMessage_step:
  assumes "reading c got" "sendable m" "got @ data_of (incoming (conn_socket c)) = wire m @ rest"
  shows "(\<exists>c' got'. ParseMessage X c = Some (False, c') \<and> reading c' got' \<and> same_link c c' \<and> handled c' = handled c \<and>
      got' @ data_of (incoming (conn_socket c')) = wire m @ rest \<and>
      length (incoming (conn_socket c')) < length (incoming (conn_socket c))) \<or>
    (\<exists>c'. ParseMessage X c = Some (True, c') \<and> reading c' [] \<and> same_link c c' \<and> handled c' = handled c \<and>
      recv_message c' = Some (received X (allocate_cb c \<noteq> None) m) \<and> data_of (incoming (conn_socket c')) = rest)"
proof -
  let ?h = "header_bytes (recv_msg_header c)"
  have c: "recv_state c = kMsgHeader" "recv_len c = length got" "length got < sizeof_MessageHeader"
    "take (length got) ?h = got" "quiet (incoming (conn_socket c))" "length ?h = sizeof_MessageHeader"
    "conn_state c \<noteq> kDisconnecting" "alloc_ok c"
    using assms(1) by (simp_all add: reading_def length_header_bytes)
  obtain more es e where recv: "Receive (sizeof_MessageHeader - length got) (error_code c) (conn_socket c)
      = Some (IO_RW_OK, more, error_code c, (conn_socket c)\<lparr>incoming := es, sys_errno := e\<rparr>)"
    "quiet es" "data_of (incoming (conn_socket c)) = more @ data_of es" "length more \<le> sizeof_MessageHeader - length got"
    "length more < sizeof_MessageHeader - length got \<longrightarrow> es = [] \<or> length es < length (incoming (conn_socket c))"
    using Receive_loop_quiet [OF c(5), of "[]" "sizeof_MessageHeader - length got" "error_code c"]
    unfolding Receive_def by clarsimp
  define h where "h = header_of_bytes (overwrite (length got) more ?h)"
  have over: "overwrite (length got) more ?h = got @ more @ drop (length got + length more) ?h"
    using c(4) by (simp add: overwrite_def)
  have lenover: "length (overwrite (length got) more ?h) = sizeof_MessageHeader"
    using recv(4) c(3,6) by (intro trans [OF length_overwrite]) auto
  have h: "header_bytes h = got @ more @ drop (length got + length more) ?h"
    using header_bytes_of_bytes [OF lenover] by (simp add: h_def over)
  have magic: "length (magic h) = 4" using lenover by (simp add: h_def header_of_bytes_def sizeof_MessageHeader_def)
  define c1 where "c1 = c\<lparr>error_code := error_code c, conn_socket := (conn_socket c)\<lparr>incoming := es, sys_errno := e\<rparr>,
    recv_msg_header := h\<rparr>"
  show ?thesis
  proof (cases "length more + length got = sizeof_MessageHeader")
    case False
    let ?c' = "c1\<lparr>recv_len := length got + length more\<rparr>"
    have parse: "ParseMessage X c = Some (False, ?c')"
      using c(1,2) recv(1) False by (simp add: ParseMessage_def h_def c1_def Let_def)
    have lt: "length (got @ more) < sizeof_MessageHeader" using False recv(4) c(3) by auto
    have "es \<noteq> []"
    proof
      assume "es = []"
      then have "got @ more = wire m @ rest" using assms(3) recv(3) by simp
      then have "length (got @ more) = length (wire m @ rest)" by simp
      then show False using lt length_wire [OF assms(2)] by simp
    qed
    then have "length es < length (incoming (conn_socket c))" using recv(5) lt by auto
    moreover have "reading ?c' (got @ more)"
      using lt h magic c(1,7,8) recv(2) by (simp add: c1_def reading_def alloc_ok_def)
    moreover have "same_link c ?c'" "handled ?c' = handled c" by (simp_all add: c1_def same_link_def)
    moreover have "(got @ more) @ data_of (incoming (conn_socket ?c')) = wire m @ rest"
      using assms(3) recv(3) by (simp add: c1_def)
    ultimately show ?thesis using parse by (intro disjI1 exI [of _ ?c'] exI [of _ "got @ more"]) (simp add: c1_def)
  next
    case True
    let ?H = "header_bytes (FillMessageHeader m MessageHeader0)"
    have all: "(got @ more) @ data_of es = wire m @ rest" using assms(3) recv(3) by simp
    then have "take sizeof_MessageHeader ((got @ more) @ data_of es) = take sizeof_MessageHeader (wire m @ rest)" by simp
    then have "got @ more = take sizeof_MessageHeader (wire m @ rest)"
      using True by (simp add: add.commute)
    then have gm: "got @ more = ?H" by (simp add: wire_def length_header_bytes)
    then have "header_bytes h = ?H" using h True c(6) by (simp add: add.commute)
    then have "header_of_bytes (header_bytes h) = header_of_bytes ?H" by (rule arg_cong)
    then have "h = FillMessageHeader m MessageHeader0"
      unfolding header_of_header_bytes [OF magic]
      by (subst (asm) header_of_header_bytes) simp_all
    then have hdr: "ReorderHeader h = ReorderHeader (FillMessageHeader m MessageHeader0)"
      "take (length RPC_MAGICID) (magic h) = RPC_MAGICID" by simp_all
    let ?c2 = "c1\<lparr>recv_len := 0, recv_msg_header := ReorderHeader h\<rparr>"
    have rest: "data_of (incoming (conn_socket ?c2)) = msg_name m @ aid_string (msg_to m) @ aid_string (msg_from m)
        @ GetMessageBaseRealData m @ rest"
      using all unfolding gm by (simp add: c1_def wire_def)
    have fill: "conn_state (FillRecvMessage ?c2) \<noteq> kDisconnecting"
      using FillRecvMessage_ready [OF assms(2), of ?c2] c(7,8) hdr(1)
      by (auto simp: room_for_def same_link_def c1_def alloc_ok_def)
    have "ParseMessage X c = parse_body X ((FillRecvMessage ?c2)\<lparr>recv_state := kBody\<rparr>)"
      using c(1,2) recv(1) True hdr(2) fill by (simp add: ParseMessage_def h_def [symmetric] c1_def Let_def)
    moreover obtain c' where "parse_body X ((FillRecvMessage ?c2)\<lparr>recv_state := kBody\<rparr>) = Some (True, c')"
      "reading c' []" "recv_message c' = Some (received X (allocate_cb ?c2 \<noteq> None) m)" "same_link ?c2 c'"
      "handled c' = handled ?c2" "data_of (incoming (conn_socket c')) = rest"
      using parse_body_receives [OF assms(2) _ _ _ _ _ rest, of X] c(7,8) recv(2) hdr(1)
      by (auto simp: c1_def alloc_ok_def)
    ultimately show ?thesis by (intro disjI2 exI [of _ c']) (auto simp: same_link_def c1_def)
  qed
qed

lemma ParseMessage_idle:
  assumes "reading c []" "data_of (incoming (conn_socket c)) = []"
  shows "\<exists>c'. ParseMessage X c = Some (False, c') \<and> reading c' [] \<and> same_link c c' \<and> handled c' = handled c \<and>
    data_of (incoming (conn_socket c')) = []"
proof -
  have c: "recv_state c = kMsgHeader" "recv_len c = 0" "quiet (incoming (conn_socket c))"
    "conn_state c \<noteq> kDisconnecting" "alloc_ok c" "length (magic (recv_msg_header c)) = 4"
    using assms(1) by (simp_all add: reading_def)
  obtain es e where recv: "Receive sizeof_MessageHeader (error_code c) (conn_socket c)
      = Some (IO_RW_OK, [], error_code c, (conn_socket c)\<lparr>incoming := es, sys_errno := e\<rparr>)"
    "quiet es" "data_of es = []"
    using Receive_loop_quiet [OF c(3), of "[]" sizeof_MessageHeader "error_code c"] assms(2)
    unfolding Receive_def by clarsimp
  let ?c' = "c\<lparr>conn_socket := (conn_socket c)\<lparr>incoming := es, sys_errno := e\<rparr>\<rparr>"
  have "ParseMessage X c = Some (False, ?c')"
    using c recv(1) by (simp add: ParseMessage_def Let_def header_of_header_bytes sizeof_MessageHeader_def)
  then show ?thesis using c recv(2,3)
    by (intro exI [of _ ?c']) (simp add: reading_def same_link_def alloc_ok_def sizeof_MessageHeader_def)
qed

section \<open>Reading a stream of messages\<close>

text \<open>The handler takes every message and does not answer.\<close>

definition listening :: "Connection \<Rightarrow> bool" where
  "listening c \<longleftrightarrow> message_handler c = Some (\<lambda>_. None) \<and> recv_message_type c = kTcpMsg"

lemma comm_ReceiveMessage_listening:
  assumes "listening c" "ParseMessage X c = Some (ok, c')" "same_link c c'" "ok \<longrightarrow> recv_message c' = Some msg"
    and "conn_state c' \<noteq> kDisconnecting"
  shows "comm_ReceiveMessage X c = Some (if ok then (1, c'\<lparr>handled := handled c' @ [msg]\<rparr>) else (0, c'))"
  using assms by (simp add: comm_ReceiveMessage_def CheckMessageType_def listening_def ReceiveMessage_def same_link_def)

lemma reading_handled [simp]: "reading (c\<lparr>handled := hs\<rparr>) got = reading c got"
  by (simp add: reading_def alloc_ok_def)

lemma read_loop_progress:
  assumes "reading c got" "listening c" "\<forall>m \<in> set ms. sendable m"
    and "got @ data_of (incoming (conn_socket c)) = concat (map wire ms)"
  shows "\<exists>ms1 ms2 got' c'. read_loop X n c = Some c' \<and> ms = ms1 @ ms2 \<and> reading c' got' \<and> same_link c c' \<and>
    got' @ data_of (incoming (conn_socket c')) = concat (map wire ms2) \<and>
    handled c' = handled c @ map (received X (allocate_cb c \<noteq> None)) ms1 \<and>
    (0 < n \<longrightarrow> ms \<noteq> [] \<longrightarrow> ms1 \<noteq> [] \<or> length (incoming (conn_socket c')) < length (incoming (conn_socket c)))"
  using assms
proof (induction n arbitrary: c got ms)
  case 0
  then show ?case by (intro exI [of _ "[]"] exI [of _ ms] exI [of _ got] exI [of _ c]) (simp add: same_link_def)
next
  case (Suc n)
  show ?case
  proof (cases ms)
    case Nil
    then have "got = []" "data_of (incoming (conn_socket c)) = []" using Suc.prems(4) by simp_all
    then obtain c' where c': "ParseMessage X c = Some (False, c')" "reading c' []" "same_link c c'" "handled c' = handled c"
      "data_of (incoming (conn_socket c')) = []"
      using ParseMessage_idle [of c] Suc.prems(1) by blast
    have "comm_ReceiveMessage X c = Some (0, c')"
      using comm_ReceiveMessage_listening [OF Suc.prems(2) c'(1,3)] c'(2) by (simp add: reading_def)
    then show ?thesis using Nil c'
      by (intro exI [of _ "[]"] exI [of _ "[]"] exI [of _ "[]"] exI [of _ c']) simp
  next
    case (Cons m ms')
    then have m: "sendable m" "got @ data_of (incoming (conn_socket c)) = wire m @ concat (map wire ms')"
      using Suc.prems(3,4) by simp_all
    from ParseMessage_step [OF Suc.prems(1) m, of X] show ?thesis
    proof (elim disjE exE conjE, goal_cases)
      case (1 c' got')
      have "comm_ReceiveMessage X c = Some (0, c')"
        using comm_ReceiveMessage_listening [OF Suc.prems(2) 1(1,3)] 1(2) by (simp add: reading_def)
      then show ?case using Cons 1
        by (intro exI [of _ "[]"] exI [of _ ms] exI [of _ got'] exI [of _ c']) simp
    next
      case (2 c')
      let ?m = "received X (allocate_cb c \<noteq> None) m"
      let ?c = "c'\<lparr>handled := handled c' @ [?m]\<rparr>"
      have step: "comm_ReceiveMessage X c = Some (1, ?c)"
        using comm_ReceiveMessage_listening [OF Suc.prems(2) 2(1,3)] 2(2,5) by (simp add: reading_def)
      have "listening ?c" using Suc.prems(2) 2(3) by (simp add: listening_def same_link_def)
      moreover have "\<forall>m \<in> set ms'. sendable m" using Suc.prems(3) Cons by simp
      moreover have "[] @ data_of (incoming (conn_socket ?c)) = concat (map wire ms')" using 2(6) by simp
      ultimately obtain ms1 ms2 got' c'' where c'': "read_loop X n ?c = Some c''" "ms' = ms1 @ ms2" "reading c'' got'"
        "same_link ?c c''" "got' @ data_of (incoming (conn_socket c'')) = concat (map wire ms2)"
        "handled c'' = handled ?c @ map (received X (allocate_cb ?c \<noteq> None)) ms1"
        using Suc.IH [of ?c "[]" ms'] 2(2) by auto
      then show ?case using Cons step 2(3,4)
        by (intro exI [of _ "m # ms1"] exI [of _ ms2] exI [of _ got'] exI [of _ c'']) (simp add: same_link_def)
    qed
  qed
qed

text \<open>Read events arrive as long as there is something to read; the callback handles each.\<close>

fun read_events :: "net_ext \<Rightarrow> nat \<Rightarrow> Connection \<Rightarrow> Connection option" where
  "read_events X 0 c = Some c"
| "read_events X (Suc k) c = do { c \<leftarrow> ReadCallBack X c; read_events X k c }"

lemma read_events_deliver:
  assumes "reading c got" "listening c" "\<forall>m \<in> set ms. sendable m"
    and "got @ data_of (incoming (conn_socket c)) = concat (map wire ms)"
  shows "\<exists>k c'. read_events X k c = Some c' \<and> reading c' [] \<and> same_link c c' \<and>
    data_of (incoming (conn_socket c')) = [] \<and>
    handled c' = handled c @ map (received X (allocate_cb c \<noteq> None)) ms"
  using assms
proof (induction "(length ms, length (incoming (conn_socket c)))" arbitrary: c got ms
    rule: wf_induct_rule [OF wf_lex_prod [OF wf_less_than wf_less_than]])
  case 1
  show ?case
  proof (cases "ms = []")
    case True
    then show ?thesis using 1(2,5) by (intro exI [of _ 0] exI [of _ c]) (simp add: same_link_def)
  next
    case False
    obtain ms1 ms2 got' c' where c': "read_loop X 3 c = Some c'" "ms = ms1 @ ms2" "reading c' got'" "same_link c c'"
      "got' @ data_of (incoming (conn_socket c')) = concat (map wire ms2)"
      "handled c' = handled c @ map (received X (allocate_cb c \<noteq> None)) ms1"
      "ms1 \<noteq> [] \<or> length (incoming (conn_socket c')) < length (incoming (conn_socket c))"
      using read_loop_progress [OF 1(2-5), of X 3] False by auto
    have "((length ms2, length (incoming (conn_socket c'))), length ms, length (incoming (conn_socket c)))
        \<in> less_than <*lex*> less_than"
      using c'(2,7) by (cases ms1) simp_all
    moreover have "listening c'" using 1(3) c'(4) by (simp add: listening_def same_link_def)
    moreover have "\<forall>m \<in> set ms2. sendable m" using 1(4) c'(2) by simp
    ultimately obtain k c'' where "read_events X k c' = Some c''" "reading c'' []" "same_link c' c''"
      "data_of (incoming (conn_socket c'')) = []"
      "handled c'' = handled c' @ map (received X (allocate_cb c' \<noteq> None)) ms2"
      using 1(1) [OF _ c'(3) _ _ c'(5)] by blast
    then show ?thesis using c'
      by (intro exI [of _ "Suc k"] exI [of _ c'']) (simp add: ReadCallBack_def same_link_def)
  qed
qed

end
