(* ===== verification/Net_Pool.thy ===== *)
theory Net_Pool
  imports Net_Connection
begin

text \<open>
  \<open>ConnectionPool\<close> (\<open>connection_pool.h\<close>, \<open>connection_pool.cc\<close>) and what \<open>TCPComm\<close> does with it (\<open>tcp_comm.cc\<close>):
  the connections are objects on a heap and the pool's maps hold pointers to them. Following a pointer
  to a deleted connection is \<open>None\<close>. The pool's and the communicator's locks make each operation one step.
\<close>

section \<open>State\<close>

text \<open>\<open>delete_callback\<close> is the number of a function, \<open>None\<close> if there is none; \<open>callbacks\<close> lists its calls.\<close>

record ConnectionInfo =
  info_socket_fd :: int
  info_from :: string
  info_to :: string
  delete_callback :: "nat option"

record ConnectionPool =
  double_link :: bool
  local_conns :: "(string \<times> ptr) list"
  remote_conns :: "(string \<times> ptr) list"
  connections :: "(string \<times> ptr) list"
  conn_infos :: "(int \<times> ConnectionInfo list) list"
  conn_heap :: "ptr \<Rightarrow> Connection option"
  callbacks :: "(nat \<times> string \<times> string) list"

definition ConnectionPool0 :: ConnectionPool where
  "ConnectionPool0 = \<lparr>double_link = False, local_conns = [], remote_conns = [], connections = [], conn_infos = [],
                      conn_heap = (\<lambda>_. None), callbacks = []\<rparr>"

section \<open>Connection infos\<close>

definition SetLinkPattern :: "bool \<Rightarrow> ConnectionPool \<Rightarrow> ConnectionPool" where
  "SetLinkPattern linkPattern P = P\<lparr>double_link := linkPattern\<rparr>"

definition FindConnInfo :: "int \<Rightarrow> string \<Rightarrow> ConnectionPool \<Rightarrow> ConnectionInfo option" where
  "FindConnInfo fd dst_url P =
     (case map_of (conn_infos P) fd of
        None \<Rightarrow> None
      | Some infos \<Rightarrow> List.find (\<lambda>linkInfo. info_to linkInfo = dst_url) infos)"

definition AddConnInfo :: "int \<Rightarrow> string \<Rightarrow> nat option \<Rightarrow> ConnectionPool \<Rightarrow> ConnectionPool" where
  "AddConnInfo fd dst_url callback P =
     (case FindConnInfo fd dst_url P of
        Some _ \<Rightarrow> P
      | None \<Rightarrow>
          let linker = \<lparr>info_socket_fd = fd, info_from = [], info_to = dst_url, delete_callback = callback\<rparr> in
          P\<lparr>conn_infos := al_set fd (linker # (case map_of (conn_infos P) fd of None \<Rightarrow> [] | Some infos \<Rightarrow> infos)) (conn_infos P)\<rparr>)"

definition DeleteConnInfo_fd :: "int \<Rightarrow> ConnectionPool \<Rightarrow> ConnectionPool" where
  "DeleteConnInfo_fd fd P =
     (case map_of (conn_infos P) fd of
        None \<Rightarrow> P
      | Some infos \<Rightarrow>
          P\<lparr>callbacks := callbacks P @ concat (map (\<lambda>linkInfo.
               (case delete_callback linkInfo of None \<Rightarrow> [] | Some f \<Rightarrow> [(f, info_to linkInfo, info_from linkInfo)])) infos),
            conn_infos := al_erase fd (conn_infos P)\<rparr>)"

definition DeleteConnInfo :: "ptr \<Rightarrow> ConnectionPool \<Rightarrow> ConnectionPool option" where
  "DeleteConnInfo p P = do {
     c \<leftarrow> conn_heap P p;
     let fd = socket_fd c;
     if double_link P then Some (DeleteConnInfo_fd fd P)
     else Some (DeleteConnInfo_fd fd (P\<lparr>conn_heap := (conn_heap P)(p \<mapsto> c\<lparr>deleted := True\<rparr>)\<rparr>)) }"

definition DeleteAllConnInfos :: "ConnectionPool \<Rightarrow> ConnectionPool" where
  "DeleteAllConnInfos P = P\<lparr>conn_infos := []\<rparr>"

definition ReverseConnInfo :: "int \<Rightarrow> int \<Rightarrow> ConnectionPool \<Rightarrow> bool \<times> ConnectionPool" where
  "ReverseConnInfo fromFd toFd P =
     (case map_of (conn_infos P) fromFd of
        None \<Rightarrow> (False, P)
      | Some infos \<Rightarrow> (True, P\<lparr>conn_infos := al_set toFd infos (al_erase fromFd (conn_infos P))\<rparr>))"

section \<open>Connections\<close>

definition FindConnection :: "string \<Rightarrow> ConnectionPool \<Rightarrow> ptr option" where
  "FindConnection dst_url P = map_of (connections P) dst_url"

definition CloseConnection :: "ptr \<Rightarrow> ConnectionPool \<Rightarrow> ConnectionPool option" where
  "CloseConnection p P = do {
     c \<leftarrow> conn_heap P p;
     P \<leftarrow> (if \<not> deleted c then DeleteConnInfo p P else Some P);
     c \<leftarrow> conn_heap P p;
     let P = P\<lparr>conn_heap := (conn_heap P)(p \<mapsto> Close c)\<rparr>;
     Some (P\<lparr>conn_heap := (conn_heap P)(p := None)\<rparr>) }"

definition DeleteConnection :: "string \<Rightarrow> ConnectionPool \<Rightarrow> ConnectionPool option" where
  "DeleteConnection dst_url P =
     (case FindConnection dst_url P of
        None \<Rightarrow> Some P
      | Some p \<Rightarrow> CloseConnection p (P\<lparr>connections := al_erase dst_url (connections P)\<rparr>))"

definition AddConnection :: "ptr \<Rightarrow> ConnectionPool \<Rightarrow> ConnectionPool option" where
  "AddConnection p P = do {
     c \<leftarrow> conn_heap P p;
     P \<leftarrow> (case FindConnection (destination c) P of
              None \<Rightarrow> Some P
            | Some q \<Rightarrow> CloseConnection q P);
     c \<leftarrow> conn_heap P p;
     Some (P\<lparr>connections := al_emplace (destination c) p (connections P)\<rparr>) }"

fun delete_links :: "(string \<times> ptr) list \<Rightarrow> (ptr \<Rightarrow> Connection option) \<Rightarrow> (ptr \<Rightarrow> Connection option) option" where
  "delete_links [] h = Some h"
| "delete_links ((_, p) # links) h = do { _ \<leftarrow> h p; delete_links links (h(p := None)) }"

fun reset_metrics :: "(string \<times> ptr) list \<Rightarrow> (ptr \<Rightarrow> Connection option) \<Rightarrow> (ptr \<Rightarrow> Connection option) option" where
  "reset_metrics [] h = Some h"
| "reset_metrics ((_, p) # links) h = do {
     c \<leftarrow> h p;
     metrics \<leftarrow> send_metrics c;
     reset_metrics links (h(p \<mapsto> c\<lparr>send_metrics := Some (Reset metrics)\<rparr>)) }"

definition ResetAllConnMetrics :: "ConnectionPool \<Rightarrow> ConnectionPool option" where
  "ResetAllConnMetrics P = do {
     h \<leftarrow> reset_metrics (local_conns P) (conn_heap P);
     h \<leftarrow> reset_metrics (remote_conns P) h;
     Some (P\<lparr>conn_heap := h\<rparr>) }"

definition Finalize_pool :: "ConnectionPool \<Rightarrow> ConnectionPool option" where
  "Finalize_pool P = do {
     h \<leftarrow> delete_links (local_conns P) (conn_heap P);
     h \<leftarrow> delete_links (remote_conns P) h;
     Some (DeleteAllConnInfos (P\<lparr>local_conns := [], remote_conns := [], conn_heap := h\<rparr>)) }"

section \<open>\<open>TCPComm\<close>\<close>

text \<open>An operation on the connection behind a pointer.\<close>

definition on_conn :: "ptr \<Rightarrow> (Connection \<Rightarrow> ('a \<times> Connection) option) \<Rightarrow> ConnectionPool \<Rightarrow> ('a \<times> ConnectionPool) option" where
  "on_conn p f P = do {
     c \<leftarrow> conn_heap P p;
     (r, c) \<leftarrow> f c;
     Some (r, P\<lparr>conn_heap := (conn_heap P)(p \<mapsto> c)\<rparr>) }"

definition Send :: "net_ext \<Rightarrow> string \<Rightarrow> MessageBase \<Rightarrow> ConnectionPool \<Rightarrow> ((bool \<times> nat option) \<times> ConnectionPool) option" where
  "Send X url msg P =
     (case FindConnection (aid_url (msg_to msg)) P of
        None \<Rightarrow> Some ((False, None), P)
      | Some p \<Rightarrow> on_conn p (\<lambda>c. map_option (\<lambda>(ok, bytes, c). ((ok, bytes), c)) (send_on X url msg c)) P)"

definition comm_Flush :: "net_ext \<Rightarrow> string \<Rightarrow> ConnectionPool \<Rightarrow> (bool \<times> ConnectionPool) option" where
  "comm_Flush X dst_url P =
     (case FindConnection dst_url P of
        None \<Rightarrow> Some (False, P)
      | Some p \<Rightarrow> map_option (\<lambda>(_, P). (True, P)) (on_conn p (Flush X) P))"

definition IsConnected :: "string \<Rightarrow> ConnectionPool \<Rightarrow> bool option" where
  "IsConnected dst_url P =
     (case FindConnection dst_url P of
        None \<Rightarrow> Some False
      | Some p \<Rightarrow> do { c \<leftarrow> conn_heap P p; Some (conn_state c = kConnected) })"

text \<open>
  \<open>pending\<close>: tasks are still queued at an event loop after the last retry. The guard of the connection's
  mutex lives until the end of the block: it unlocks \<open>conn_owned_mutex_\<close> after the deletion.
\<close>

definition Disconnect :: "bool \<Rightarrow> string \<Rightarrow> ConnectionPool \<Rightarrow> (bool \<times> ConnectionPool) option" where
  "Disconnect pending dst_url P =
     (if pending then Some (False, P)
      else case FindConnection dst_url P of
        None \<Rightarrow> Some (True, P)
      | Some p \<Rightarrow> do {
          _ \<leftarrow> conn_heap P p;
          P' \<leftarrow> DeleteConnection dst_url P;
          _ \<leftarrow> conn_heap P' p;
          Some (True, P') })"

definition WriteCallBack :: "net_ext \<Rightarrow> ptr \<Rightarrow> ConnectionPool \<Rightarrow> ConnectionPool option" where
  "WriteCallBack X p P = do {
     c \<leftarrow> conn_heap P p;
     if conn_state c = kConnected then map_option snd (on_conn p (Flush X) P) else Some P }"

definition EventCallBack :: "net_ext \<Rightarrow> ptr \<Rightarrow> ConnectionPool \<Rightarrow> ConnectionPool option" where
  "EventCallBack X p P = do {
     c \<leftarrow> conn_heap P p;
     if conn_state c = kConnected then map_option snd (on_conn p (Flush X) P)
     else if conn_state c = kDisconnecting then
       (case FindConnection (destination c) P of
          None \<Rightarrow> DeleteConnection (destination c) P
        | Some q \<Rightarrow> do {
            current_conn \<leftarrow> conn_heap P q;
            if source current_conn \<noteq> source c then Some P
            else DeleteConnection (destination c) P })
     else Some P }"

text \<open>The events of epoll that the handler tells apart.\<close>

record epoll_events =
  EPOLLIN :: bool
  EPOLLOUT :: bool
  hup_or_err :: bool

text \<open>
  \<open>SocketEventHandler\<close>, with the callbacks that \<open>OnAccept\<close> and \<open>Connect\<close> install. The guard of
  \<open>conn_owned_mutex_\<close> is released at the end of the function: it is a member of the connection.
\<close>

definition SocketEventHandler :: "net_ext \<Rightarrow> int \<Rightarrow> epoll_events \<Rightarrow> ptr \<Rightarrow> ConnectionPool \<Rightarrow> ConnectionPool option" where
  "SocketEventHandler X fd events p P = do {
     c \<leftarrow> conn_heap P p;
     if fd \<noteq> socket_fd c then EventCallBack X p (P\<lparr>conn_heap := (conn_heap P)(p \<mapsto> c\<lparr>conn_state := kDisconnecting\<rparr>)\<rparr>)
     else do {
       P \<leftarrow> (if EPOLLOUT events then WriteCallBack X p P else Some P);
       P \<leftarrow> (if EPOLLIN events
              then map_option snd (on_conn p (\<lambda>c. map_option (\<lambda>c. ((), c)) (ReadCallBack X c)) P) else Some P);
       c \<leftarrow> conn_heap P p;
       P \<leftarrow> (if conn_state c = kDisconnecting \<or> hup_or_err events
              then EventCallBack X p (P\<lparr>conn_heap := (conn_heap P)(p \<mapsto> c\<lparr>conn_state := kDisconnecting\<rparr>)\<rparr>)
              else Some P);
       _ \<leftarrow> conn_heap P p;
       Some P } }"

end
