(* ===== verification/Net_Theorems.thy ===== *)
theory Net_Theorems
  imports Net_Delivery Net_Pool
begin

text \<open>
  The results on \<open>src/net\<close>: messages that are sent arrive, in order and unchanged, however the network
  cuts the bytes; the pool of connections keeps its invariant when a connection is deleted; and the
  runs in which the code waits for ever or follows a pointer to a deleted connection.
\<close>

section \<open>Delivery\<close>


text \<open>A message of two actors, a socket that first refuses and then takes the bytes in two parts.\<close>

definition demo_ext :: net_ext where
  "demo_ext = \<lparr>set_unfix_url = (\<lambda>s. s), UlongToUint = (\<lambda>n. if n < 2 ^ 32 then Some n else None),
               URL_PROTOCOL_IP_SEPARATOR = ''://''\<rparr>"

definition demo_msg :: MessageBase where
  "demo_msg = MessageBase0\<lparr>msg_from := \<lparr>aid_name = ''a'', aid_url = ''h:1''\<rparr>, msg_to := \<lparr>aid_name = ''b'', aid_url = ''h:2''\<rparr>,
                           msg_name := ''ping'', msg_body := ''data''\<rparr>"

definition demo_socket :: "send_event list \<Rightarrow> tcp_socket" where
  "demo_socket es = \<lparr>incoming = [], accepting = es, outgoing = [], sys_errno = errno_none\<rparr>"





section \<open>A send that never returns\<close>

text \<open>
  C38. \<open>SendMessage\<close> gives up after 1024000 refusals in a row and reports that nothing was sent, although a
  call before may have sent a part of the message, and \<open>Flush\<close> tries again with the whole length: when the
  socket then takes the rest of the message, the length that was sent can no longer reach the total, and
  \<open>Flush\<close> never returns as long as the connection does not fail (\<open>healthy\<close>: whatever calls meet
  afterwards, it is room or \<open>EAGAIN\<close>).
\<close>

theorem Flush_hangs:
  assumes "total_send_len c = length (concat (send_io_vec c))" "0 < k" "k < total_send_len c" "total_send_len c \<le> k + n"
    and "accepting (conn_socket c) = Accept k # replicate EAGAIN_RETRY (Refuse EAGAIN) @ Accept n # es"
    and "healthy es"
  shows "Flush X c = None"
proof -
  let ?N = "total_send_len c" let ?s = "conn_socket c" let ?iov = "send_io_vec c"
  let ?s1 = "?s\<lparr>accepting := replicate EAGAIN_RETRY (Refuse EAGAIN) @ Accept n # es, outgoing := outgoing ?s @ take k (concat ?iov)\<rparr>"
  have ne: "concat ?iov \<noteq> []" using assms(1-3) by (auto simp del: concat_eq_Nil_conv)
  obtain iov1 where iov1: "send_advance k 0 ?iov = Some iov1" "concat iov1 = drop k (concat ?iov)"
    using send_advance_concat [of k ?iov 0] assms(1,3) ne by fastforce
  then have ne1: "concat iov1 \<noteq> []" and len1: "length (concat iov1) = ?N - k" using assms(1,3) by auto
  have "sys_sendmsg ?iov ?s = (Inr k, ?s1)"
    using ne assms(1,3,5) by (simp add: sys_sendmsg_def min_def del: concat_eq_Nil_conv)
  then have "SendMessage ?N ?iov (error_code c) ?s = SendMessage_loop ?N k iov1 0 (error_code c) ?s1"
    unfolding SendMessage_def using assms(2,3) iov1(1) by (subst SendMessage_loop.simps) simp
  moreover obtain e where "SendMessage_loop ?N k iov1 0 (error_code c) ?s1
      = Some (IO_RW_OK, 0, iov1, error_code c, ?s1\<lparr>accepting := Accept n # es, sys_errno := e\<rparr>)"
    using SendMessage_loop_gives_up [OF _ ne1, of k ?N ?s1] assms(3) by auto
  ultimately have send1: "SendMessage ?N ?iov (error_code c) ?s
      = Some (IO_RW_OK, 0, iov1, error_code c, ?s1\<lparr>accepting := Accept n # es, sys_errno := e\<rparr>)" by simp
  define c1 where "c1 = c\<lparr>send_io_vec := iov1, error_code := error_code c,
    conn_socket := ?s1\<lparr>accepting := Accept n # es, sys_errno := e\<rparr>\<rparr>"
  have step: "Flush X c = Flush_loop X 0 c1"
    unfolding Flush_def using send1 assms(2,3) by (subst Flush_loop.simps) (simp add: c1_def)
  let ?t = "conn_socket c1"
  let ?t1 = "?t\<lparr>accepting := es, outgoing := outgoing ?t @ take n (concat iov1)\<rparr>"
  obtain iov2 where iov2: "send_advance (?N - k) 0 iov1 = Some iov2" "concat iov2 = []"
    using send_advance_concat [of "?N - k" iov1 0] len1 ne1 by fastforce
  have "min n (?N - k) = ?N - k" using assms(4) by linarith
  then have "sys_sendmsg iov1 ?t = (Inr (?N - k), ?t1)"
    using ne1 len1 by (simp add: sys_sendmsg_def c1_def del: concat_eq_Nil_conv)
  moreover have "?N - k \<noteq> ?N" using assms(2,3) by simp
  ultimately have "SendMessage ?N iov1 (error_code c1) ?t = SendMessage_loop ?N (?N - k) iov2 0 (error_code c1) ?t1"
    unfolding SendMessage_def using assms(2,3) iov2(1) by (subst SendMessage_loop.simps) simp
  also have "\<dots> = None" using assms(2,3,6) iov2(2) by (intro SendMessage_loop_stuck) auto
  finally have "Flush_loop X 0 c1 = None"
    using assms(2,3) by (subst Flush_loop.simps) (simp add: c1_def)
  then show ?thesis using step by simp
qed

theorem Flush_hangs_witness:
  "Flush demo_ext ((Connection0 (demo_socket (Accept 1 # replicate EAGAIN_RETRY (Refuse EAGAIN) @ [Accept 1])))
     \<lparr>send_io_vec := [''ab''], total_send_len := 2\<rparr>) = None"
  by (rule Flush_hangs [where k = 1 and n = 1 and es = "[]"]) (simp_all add: Connection0_def demo_socket_def healthy_def)

section \<open>The pool of connections\<close>

text \<open>
  The invariant of the pool: every entry leads to a connection that exists and whose destination is the
  key of the entry, and no connection has two entries.
\<close>

definition conn_pool_ok :: "ConnectionPool \<Rightarrow> bool" where
  "conn_pool_ok P \<longleftrightarrow> distinct (map fst (connections P)) \<and> distinct (map snd (connections P)) \<and>
     (\<forall>(d, p) \<in> set (connections P). \<exists>c. conn_heap P p = Some c \<and> destination c = d)"

lemma DeleteConnInfo_fd_simps [simp]:
  "connections (DeleteConnInfo_fd fd P) = connections P" "conn_heap (DeleteConnInfo_fd fd P) = conn_heap P"
  by (simp_all add: DeleteConnInfo_fd_def split: option.splits)

text \<open>Closing a connection that exists deletes it and leaves the others alone.\<close>

lemma CloseConnection_deletes:
  assumes "conn_heap P p = Some c"
  shows "\<exists>P'. CloseConnection p P = Some P' \<and> connections P' = connections P \<and> conn_heap P' = (conn_heap P)(p := None)"
  using assms by (auto simp: CloseConnection_def DeleteConnInfo_def Let_def)

lemma set_al_erase: "distinct (map fst m) \<Longrightarrow> set (al_erase k m) = {e \<in> set m. fst e \<noteq> k}"
  by (induction m) (auto simp: image_iff)

lemma distinct_snd_al_erase: "distinct (map snd m) \<Longrightarrow> distinct (map snd (al_erase k m))"
  by (induction m) (auto dest: subsetD [OF al_erase_keys_subset] simp: image_iff)

text \<open>
  C37. Deleting the connection to a destination returns, removes the entry, deletes the connection and
  keeps the pool's invariant, and every other destination is still connected by the same connection, in
  the same state.
\<close>

theorem DeleteConnection_removes:
  assumes "conn_pool_ok P"
  shows "\<exists>P'. DeleteConnection dst P = Some P' \<and> conn_pool_ok P' \<and> FindConnection dst P' = None \<and>
    (\<forall>p. FindConnection dst P = Some p \<longrightarrow> conn_heap P' p = None) \<and>
    (\<forall>d p. d \<noteq> dst \<longrightarrow> FindConnection d P = Some p \<longrightarrow> FindConnection d P' = Some p \<and> conn_heap P' p = conn_heap P p)"
proof (cases "FindConnection dst P")
  case None
  then show ?thesis using assms by (simp add: DeleteConnection_def)
next
  case (Some p)
  let ?es = "al_erase dst (connections P)"
  have P: "distinct (map fst (connections P))" "distinct (map snd (connections P))"
    "\<And>d q. (d, q) \<in> set (connections P) \<Longrightarrow> \<exists>c. conn_heap P q = Some c \<and> destination c = d"
    using assms by (auto simp: conn_pool_ok_def)
  have p: "(dst, p) \<in> set (connections P)" using Some by (simp add: FindConnection_def map_of_SomeD)
  then obtain c where "conn_heap P p = Some c" using P(3) by blast
  then obtain P' where P': "DeleteConnection dst P = Some P'" "connections P' = ?es" "conn_heap P' = (conn_heap P)(p := None)"
    using CloseConnection_deletes [of "P\<lparr>connections := ?es\<rparr>" p] Some by (auto simp: DeleteConnection_def)
  have other: "q \<noteq> p" if "(d, q) \<in> set (connections P)" "d \<noteq> dst" for d q
    using that p P(2) by (metis distinct_map inj_on_contraD prod.inject snd_conv)
  have "conn_pool_ok P'"
    using P other by (auto simp: conn_pool_ok_def P' set_al_erase distinct_snd_al_erase)
  moreover have "FindConnection d P' = (if d = dst then None else FindConnection d P)" for d
    by (simp add: FindConnection_def P' P(1))
  moreover have "conn_heap P' q = conn_heap P q" if "FindConnection d P = Some q" "d \<noteq> dst" for d q
    using other that by (auto simp: P' FindConnection_def dest: map_of_SomeD)
  ultimately show ?thesis using P' Some by auto
qed

definition demo_pool :: ConnectionPool where
  "demo_pool = ConnectionPool0\<lparr>connections := [(''h:2'', 0)], conn_heap := (\<lambda>p.
     if p = 0 then Some ((Connection0 (demo_socket []))\<lparr>socket_fd := 7, destination := ''h:2''\<rparr>)
     else if p = 1 then Some ((Connection0 (demo_socket []))\<lparr>socket_fd := 8, destination := ''h:2''\<rparr>) else None)\<rparr>"

theorem DeleteConnection_removes_witness:
  "\<exists>P'. DeleteConnection ''h:2'' demo_pool = Some P' \<and> conn_pool_ok P' \<and> FindConnection ''h:2'' P' = None"
proof -
  have "conn_pool_ok demo_pool" by (simp add: conn_pool_ok_def demo_pool_def ConnectionPool0_def)
  from DeleteConnection_removes [OF this, of "''h:2''"] show ?thesis by blast
qed

text \<open>
  \<open>AddConnection\<close> closes and deletes a connection that the pool already has for the destination, but does
  not take its entry out, and \<open>emplace\<close> keeps an entry that is there: the pool then has a pointer to the
  deleted connection and not the new one, and the next message to the destination is sent through it.
\<close>

theorem AddConnection_dangling:
  assumes "conn_heap P p = Some c" "FindConnection (destination c) P = Some q" "q \<noteq> p" "conn_heap P q \<noteq> None"
  shows "\<exists>P'. AddConnection p P = Some P' \<and> FindConnection (destination c) P' = Some q \<and> conn_heap P' q = None \<and>
    (\<forall>X url msg. aid_url (msg_to msg) = destination c \<longrightarrow> Send X url msg P' = None)"
proof -
  obtain d where "conn_heap P q = Some d" using assms(4) by blast
  from CloseConnection_deletes [OF this] obtain P1 where
    P1: "CloseConnection q P = Some P1" "connections P1 = connections P" "conn_heap P1 = (conn_heap P)(q := None)" by blast
  have "AddConnection p P = Some P1"
    using assms P1 by (simp add: AddConnection_def FindConnection_def al_emplace_def)
  then show ?thesis using assms(2) P1 by (auto simp: FindConnection_def Send_def on_conn_def)
qed

theorem AddConnection_dangling_witness:
  "\<exists>P'. AddConnection 1 demo_pool = Some P' \<and> FindConnection ''h:2'' P' = Some 0 \<and> conn_heap P' 0 = None \<and>
    Send demo_ext ''h:1'' demo_msg P' = None"
proof -
  let ?c = "(Connection0 (demo_socket []))\<lparr>socket_fd := 8, destination := ''h:2''\<rparr>"
  have "conn_heap demo_pool 1 = Some ?c" "FindConnection (destination ?c) demo_pool = Some 0" "conn_heap demo_pool 0 \<noteq> None"
    by (simp_all add: demo_pool_def ConnectionPool0_def FindConnection_def)
  from AddConnection_dangling [OF this(1,2) _ this(3)] show ?thesis
    by (auto simp: demo_msg_def)
qed

text \<open>
  C39. When the peer hangs up, the handler of socket events calls the event callback, which deletes the
  connection, and then releases the guard of a mutex that is a member of the deleted connection.
\<close>

theorem SocketEventHandler_use_after_free:
  assumes "conn_heap P p = Some c" "FindConnection (destination c) P = Some p" "socket_fd c = fd"
    and "hup_or_err events" "\<not> EPOLLIN events" "\<not> EPOLLOUT events"
  shows "SocketEventHandler X fd events p P = None"
proof -
  let ?P = "P\<lparr>conn_heap := (conn_heap P)(p \<mapsto> c\<lparr>conn_state := kDisconnecting\<rparr>)\<rparr>"
  have "conn_heap (?P\<lparr>connections := al_erase (destination c) (connections P)\<rparr>) p = Some (c\<lparr>conn_state := kDisconnecting\<rparr>)"
    by simp
  from CloseConnection_deletes [OF this] obtain P' where
    P': "CloseConnection p (?P\<lparr>connections := al_erase (destination c) (connections P)\<rparr>) = Some P'" "conn_heap P' p = None"
    by auto
  have "EventCallBack X p ?P = Some P'"
    using assms(2) P'(1) by (simp add: EventCallBack_def FindConnection_def DeleteConnection_def)
  then show ?thesis using assms P'(2) by (simp add: SocketEventHandler_def)
qed

theorem SocketEventHandler_use_after_free_witness:
  "SocketEventHandler demo_ext 7 \<lparr>EPOLLIN = False, EPOLLOUT = False, hup_or_err = True\<rparr> 0 demo_pool = None"
  by (rule SocketEventHandler_use_after_free [where c = "(Connection0 (demo_socket []))\<lparr>socket_fd := 7, destination := ''h:2''\<rparr>"])
    (simp_all add: demo_pool_def ConnectionPool0_def FindConnection_def Connection0_def)

text \<open>
  C40. Disconnecting from a destination that has a connection deletes the connection while a guard of
  a mutex inside it is held, and then releases the guard: a mutex in deleted memory is unlocked, for
  every connected destination. Without a connection, or with tasks still queued, \<open>Disconnect\<close> returns
  and leaves the pool as it is.
\<close>

theorem Disconnect_use_after_free:
  assumes "conn_pool_ok P"
  shows "Disconnect False dst_url P = (if FindConnection dst_url P = None then Some (True, P) else None) \<and>
    Disconnect True dst_url P = Some (False, P)"
proof (cases "FindConnection dst_url P")
  case (Some p)
  then have "(dst_url, p) \<in> set (connections P)" by (simp add: FindConnection_def map_of_SomeD)
  then obtain c where c: "conn_heap (P\<lparr>connections := al_erase dst_url (connections P)\<rparr>) p = Some c"
    using assms by (fastforce simp: conn_pool_ok_def)
  from CloseConnection_deletes [OF c] show ?thesis using Some c
    by (auto simp: Disconnect_def DeleteConnection_def)
qed (simp add: Disconnect_def)

theorem Disconnect_use_after_free_witness:
  "conn_pool_ok demo_pool \<and> FindConnection ''h:2'' demo_pool = Some 0 \<and> Disconnect False ''h:2'' demo_pool = None"
proof -
  have ok: "conn_pool_ok demo_pool" and f: "FindConnection ''h:2'' demo_pool = Some 0"
    by (simp_all add: conn_pool_ok_def demo_pool_def ConnectionPool0_def FindConnection_def Connection0_def)
  from Disconnect_use_after_free [OF ok, of "''h:2''"] ok f show ?thesis by simp
qed

end
