(* ===== verification/Net_Event_Loop.thy ===== *)
theory Net_Event_Loop
  imports Prelude
begin

unbundle bit_operations_syntax

text \<open>
  \<open>EventLoop\<close> and \<open>EventLoopGroup\<close> (\<open>event_loop.h/.cc\<close>, \<open>event_loop_group.cc\<close>): the table of events, which the
  kernel refers to by the address of the \<open>Event\<close>, the events that are deleted while a batch is handled,
  and the choice of a loop of a group. An \<open>Event\<close> is an object on a heap; following or freeing a pointer
  to a freed one is \<open>None\<close>. The epoll set is the kernel's: adding a descriptor that is registered, and
  removing or changing one that is not, fails with -1.
\<close>

section \<open>Events\<close>

record ('h, 'd) Event =
  ev_fd :: int
  ev_data :: 'd
  ev_handler :: 'h

record ('h, 'd) EventLoop =
  events_tab :: "(int \<times> ptr) list"
  deleted_events :: "(int \<times> ptr list) list"
  epoll_set :: "(int \<times> uint32 \<times> ptr) list"
  ev_heap :: "ptr \<Rightarrow> ('h, 'd) Event option"
  next_ev :: ptr
  is_stop :: bool

definition EventLoop0 :: "('h, 'd) EventLoop" where
  "EventLoop0 = \<lparr>events_tab = [], deleted_events = [], epoll_set = [], ev_heap = (\<lambda>_. None), next_ev = 1, is_stop = False\<rparr>"

datatype rpc_ret = RPC_OK | RPC_ERROR

definition epoll_add :: "int \<Rightarrow> uint32 \<Rightarrow> ptr \<Rightarrow> ('h, 'd) EventLoop \<Rightarrow> int \<times> ('h, 'd) EventLoop" where
  "epoll_add fd evmask p s =
     (if map_of (epoll_set s) fd \<noteq> None then (-1, s) else (0, s\<lparr>epoll_set := al_set fd (evmask, p) (epoll_set s)\<rparr>))"

definition epoll_mod :: "int \<Rightarrow> uint32 \<Rightarrow> ptr \<Rightarrow> ('h, 'd) EventLoop \<Rightarrow> int \<times> ('h, 'd) EventLoop" where
  "epoll_mod fd evmask p s =
     (if map_of (epoll_set s) fd = None then (-1, s) else (0, s\<lparr>epoll_set := al_set fd (evmask, p) (epoll_set s)\<rparr>))"

definition epoll_del :: "int \<Rightarrow> ('h, 'd) EventLoop \<Rightarrow> int \<times> ('h, 'd) EventLoop" where
  "epoll_del fd s =
     (if map_of (epoll_set s) fd = None then (-1, s) else (0, s\<lparr>epoll_set := al_erase fd (epoll_set s)\<rparr>))"

definition FindEvent :: "int \<Rightarrow> ('h, 'd) EventLoop \<Rightarrow> ptr option" where
  "FindEvent fd s = map_of (events_tab s) fd"

definition DeleteEvent :: "int \<Rightarrow> ('h, 'd) EventLoop \<Rightarrow> ('h, 'd) EventLoop option" where
  "DeleteEvent fd s =
     (case map_of (events_tab s) fd of
        None \<Rightarrow> Some s
      | Some p \<Rightarrow> do {
          _ \<leftarrow> ev_heap s p;
          Some (s\<lparr>ev_heap := (ev_heap s)(p := None), events_tab := al_erase fd (events_tab s)\<rparr>) })"

definition AddEvent :: "ptr \<Rightarrow> ('h, 'd) EventLoop \<Rightarrow> ('h, 'd) EventLoop option" where
  "AddEvent p s = do {
     e \<leftarrow> ev_heap s p;
     s \<leftarrow> DeleteEvent (ev_fd e) s;
     Some (s\<lparr>events_tab := al_emplace (ev_fd e) p (events_tab s)\<rparr>) }"

text \<open>The failure of \<open>epoll_ctl\<close> is looked for with \<open>ret > 0\<close>.\<close>

definition SetEventHandler ::
    "int \<Rightarrow> uint32 \<Rightarrow> 'h \<Rightarrow> 'd \<Rightarrow> ('h, 'd) EventLoop \<Rightarrow> (rpc_ret \<times> ('h, 'd) EventLoop) option" where
  "SetEventHandler fd evmask handler data s = do {
     let evdata = next_ev s;
     let s = s\<lparr>ev_heap := (ev_heap s)(evdata \<mapsto> \<lparr>ev_fd = fd, ev_data = data, ev_handler = handler\<rparr>), next_ev := next_ev s + 1\<rparr>;
     s \<leftarrow> AddEvent evdata s;
     let (ret, s) = epoll_add fd evmask evdata s;
     if 0 < ret then do { s \<leftarrow> DeleteEvent fd s; Some (RPC_ERROR, s) } else Some (RPC_OK, s) }"

definition AddDeletedEvent :: "ptr \<Rightarrow> ('h, 'd) EventLoop \<Rightarrow> ('h, 'd) EventLoop option" where
  "AddDeletedEvent p s = do {
     e \<leftarrow> ev_heap s p;
     (case map_of (deleted_events s) (ev_fd e) of
        None \<Rightarrow> Some (s\<lparr>deleted_events := al_set (ev_fd e) [p] (deleted_events s)\<rparr>)
      | Some delete_event_list \<Rightarrow>
          if p \<in> set delete_event_list then Some s
          else Some (s\<lparr>deleted_events := al_set (ev_fd e) (delete_event_list @ [p]) (deleted_events s)\<rparr>)) }"

definition DeleteEpollEvent :: "int \<Rightarrow> ('h, 'd) EventLoop \<Rightarrow> (rpc_ret \<times> ('h, 'd) EventLoop) option" where
  "DeleteEpollEvent fd s =
     (case FindEvent fd s of
        None \<Rightarrow> Some (RPC_ERROR, s)
      | Some tev \<Rightarrow> do {
          e \<leftarrow> ev_heap s tev;
          let s = s\<lparr>events_tab := al_erase (ev_fd e) (events_tab s)\<rparr>;
          s \<leftarrow> AddDeletedEvent tev s;
          let (ret, s) = epoll_del fd s;
          Some (if ret < 0 then RPC_ERROR else RPC_OK, s) })"

definition UpdateEpollEvent :: "int \<Rightarrow> uint32 \<Rightarrow> ('h, 'd) EventLoop \<Rightarrow> rpc_ret \<times> ('h, 'd) EventLoop" where
  "UpdateEpollEvent fd evmask s =
     (case FindEvent fd s of
        None \<Rightarrow> (RPC_ERROR, s)
      | Some tev \<Rightarrow>
          let (ret, s) = epoll_mod fd evmask tev s in (if ret \<noteq> 0 then RPC_ERROR else RPC_OK, s))"

text \<open>\<open>RemoveDeletedEvents\<close> frees the events of all lists.\<close>

fun free_events :: "ptr list \<Rightarrow> (ptr \<Rightarrow> ('h, 'd) Event option) \<Rightarrow> (ptr \<Rightarrow> ('h, 'd) Event option) option" where
  "free_events [] h = Some h"
| "free_events (p # ps) h = (case h p of None \<Rightarrow> None | Some _ \<Rightarrow> free_events ps (h(p := None)))"

definition RemoveDeletedEvents :: "('h, 'd) EventLoop \<Rightarrow> ('h, 'd) EventLoop option" where
  "RemoveDeletedEvents s = do {
     h \<leftarrow> free_events (concat (map snd (deleted_events s))) (ev_heap s);
     Some (s\<lparr>ev_heap := h, deleted_events := []\<rparr>) }"

definition FindDeletedEvent :: "ptr \<Rightarrow> ('h, 'd) EventLoop \<Rightarrow> bool option" where
  "FindDeletedEvent p s = do {
     e \<leftarrow> ev_heap s p;
     Some (case map_of (deleted_events s) (ev_fd e) of None \<Rightarrow> False | Some l \<Rightarrow> p \<in> set l) }"

text \<open>
  What a handler does to the loop is a sequence of these operations; which one is a function of the
  handler, the descriptor, the events and the data it was registered with, and of the state.
\<close>

datatype ('h, 'd) el_op = ElSet int uint32 'h 'd | ElDelete int | ElUpdate int uint32 | ElStop

fun el_exec :: "('h, 'd) el_op \<Rightarrow> ('h, 'd) EventLoop \<Rightarrow> ('h, 'd) EventLoop option" where
  "el_exec (ElSet fd evmask h d) s = map_option snd (SetEventHandler fd evmask h d s)"
| "el_exec (ElDelete fd) s = map_option snd (DeleteEpollEvent fd s)"
| "el_exec (ElUpdate fd evmask) s = Some (snd (UpdateEpollEvent fd evmask s))"
| "el_exec ElStop s = Some (s\<lparr>is_stop := True\<rparr>)"

fun el_execs :: "('h, 'd) el_op list \<Rightarrow> ('h, 'd) EventLoop \<Rightarrow> ('h, 'd) EventLoop option" where
  "el_execs [] s = Some s"
| "el_execs (op # ops) s = do { s \<leftarrow> el_exec op s; el_execs ops s }"

type_synonym ('h, 'd) handler_fun = "'h \<Rightarrow> int \<Rightarrow> uint32 \<Rightarrow> 'd \<Rightarrow> ('h, 'd) EventLoop \<Rightarrow> ('h, 'd) el_op list"

fun HandleEvent :: "('h, 'd) handler_fun \<Rightarrow> (uint32 \<times> ptr) list \<Rightarrow> ('h, 'd) EventLoop \<Rightarrow> ('h, 'd) EventLoop option" where
  "HandleEvent run [] s = Some s"
| "HandleEvent run ((evmask, tev) # evs) s =
     (if tev = 0 then HandleEvent run evs s
      else do {
        found \<leftarrow> FindDeletedEvent tev s;
        if found then HandleEvent run evs s
        else do {
          e \<leftarrow> ev_heap s tev;
          s \<leftarrow> el_execs (run (ev_handler e) (ev_fd e) evmask (ev_data e) s) s;
          HandleEvent run evs s } })"

text \<open>
  \<open>EventLoopRun\<close> over the outcomes of \<open>epoll_wait\<close>: an error, an interruption, a timeout (0 events) or the
  descriptors that are ready, for which the kernel reports the address it has with each of them. The
  result has the code \<open>EventLoopRun\<close> returns, or none while it waits again.
\<close>

datatype wait_result = WaitError | WaitIntr | WaitTimeout | WaitEvents "(int \<times> uint32) list"

definition epoll_report :: "('h, 'd) EventLoop \<Rightarrow> (int \<times> uint32) list \<Rightarrow> (uint32 \<times> ptr) list" where
  "epoll_report s fds = List.map_filter (\<lambda>(fd, m). map_option (\<lambda>(_, p). (m, p)) (map_of (epoll_set s) fd)) fds"

definition remove_if_stopped :: "('h, 'd) EventLoop \<Rightarrow> ('h, 'd) EventLoop option" where
  "remove_if_stopped s = (if is_stop s then RemoveDeletedEvents s else Some s)"

fun EventLoopRun :: "('h, 'd) handler_fun \<Rightarrow> wait_result list \<Rightarrow> ('h, 'd) EventLoop \<Rightarrow> (rpc_ret option \<times> ('h, 'd) EventLoop) option" where
  "EventLoopRun run ws s =
     (if is_stop s then Some (Some RPC_OK, s\<lparr>is_stop := False\<rparr>)
      else do {
        s \<leftarrow> RemoveDeletedEvents s;
        (case ws of
           [] \<Rightarrow> Some (None, s)
         | WaitError # ws' \<Rightarrow> Some (Some RPC_ERROR, s)
         | WaitIntr # ws' \<Rightarrow> EventLoopRun run ws' s
         | WaitTimeout # ws' \<Rightarrow> do {
             s \<leftarrow> remove_if_stopped (s\<lparr>is_stop := True\<rparr>);
             EventLoopRun run ws' s }
         | WaitEvents fds # ws' \<Rightarrow> do {
             s \<leftarrow> HandleEvent run (epoll_report s fds) s;
             s \<leftarrow> remove_if_stopped s;
             EventLoopRun run ws' s }) })"

section \<open>Invariant\<close>

text \<open>
  Every event of the table is allocated and has the descriptor it is entered under, the kernel knows
  only events of the table, and the deleted events are allocated, not in the table and listed once.
\<close>

definition el_inv ::
    "(int \<Rightarrow> ptr option) \<Rightarrow> (int \<Rightarrow> (uint32 \<times> ptr) option) \<Rightarrow> (int \<Rightarrow> ptr list option) \<Rightarrow> (ptr \<Rightarrow> ('h, 'd) Event option) \<Rightarrow> ptr \<Rightarrow> bool" where
  "el_inv T K D H n \<longleftrightarrow>
     (\<forall>fd p. T fd = Some p \<longrightarrow> (\<exists>e. H p = Some e \<and> ev_fd e = fd)) \<and>
     (\<forall>fd m p. K fd = Some (m, p) \<longrightarrow> T fd = Some p) \<and>
     (\<forall>fd ps. D fd = Some ps \<longrightarrow> distinct ps \<and> (\<forall>p\<in>set ps. (\<exists>e. H p = Some e \<and> ev_fd e = fd) \<and> T fd \<noteq> Some p)) \<and>
     (\<forall>p. H p \<noteq> None \<longrightarrow> 0 < p \<and> p < n) \<and> 0 < n"

definition el_ok :: "('h, 'd) EventLoop \<Rightarrow> bool" where
  "el_ok s \<longleftrightarrow> distinct (map fst (events_tab s)) \<and> distinct (map fst (deleted_events s)) \<and> distinct (map fst (epoll_set s)) \<and>
     el_inv (map_of (events_tab s)) (map_of (epoll_set s)) (map_of (deleted_events s)) (ev_heap s) (next_ev s)"

text \<open>The operations that keep it: a descriptor is registered only while it is not.\<close>

fun legal_op :: "('h, 'd) EventLoop \<Rightarrow> ('h, 'd) el_op \<Rightarrow> bool" where
  "legal_op s (ElSet fd evmask h d) = (map_of (events_tab s) fd = None)"
| "legal_op s op = True"

fun legal_ops :: "('h, 'd) EventLoop \<Rightarrow> ('h, 'd) el_op list \<Rightarrow> bool" where
  "legal_ops s [] = True"
| "legal_ops s (op # ops) = (legal_op s op \<and> (case el_exec op s of None \<Rightarrow> True | Some s' \<Rightarrow> legal_ops s' ops))"

text \<open>The four changes of the tables.\<close>

lemma el_inv_add:
  assumes "el_inv T K D H n" "T fd = None" "ev_fd e = fd"
  shows "el_inv (T(fd \<mapsto> n)) (K(fd \<mapsto> (m, n))) D (H(n \<mapsto> e)) (Suc n)" "H n = None" "K fd = None"
proof -
  show new: "H n = None" using assms(1) unfolding el_inv_def by (metis less_irrefl)
  show "K fd = None" using assms unfolding el_inv_def by (metis option.distinct(1) prod.exhaust option.exhaust)
  have "\<And>fd p. T fd = Some p \<Longrightarrow> p \<noteq> n" "\<And>fd ps. D fd = Some ps \<Longrightarrow> n \<notin> set ps"
    using assms(1) new unfolding el_inv_def by (metis option.distinct(1))+
  then show "el_inv (T(fd \<mapsto> n)) (K(fd \<mapsto> (m, n))) D (H(n \<mapsto> e)) (Suc n)"
    using assms unfolding el_inv_def by (intro conjI allI impI) (auto simp: less_Suc_eq split: if_splits)
qed

lemma el_inv_delete:
  assumes "el_inv T K D H n" "T fd = Some p"
  shows "el_inv (T(fd := None)) (K(fd := None)) (D(fd \<mapsto> (case D fd of None \<Rightarrow> [] | Some l \<Rightarrow> l) @ [p])) H n"
  using assms unfolding el_inv_def by (intro conjI allI impI) (auto split: if_splits option.splits)

lemma el_inv_mod:
  "el_inv T K D H n \<Longrightarrow> T fd = Some p \<Longrightarrow> el_inv T (K(fd \<mapsto> (m, p))) D H n"
  unfolding el_inv_def by auto

lemma el_inv_free:
  assumes "el_inv T K D H n"
  shows "el_inv T K Map.empty (\<lambda>p. if \<exists>fd ps. D fd = Some ps \<and> p \<in> set ps then None else H p) n"
proof -
  have "\<not> (\<exists>fd ps. D fd = Some ps \<and> p \<in> set ps)" if "T fd = Some p" for fd p
    using assms that unfolding el_inv_def by (metis option.inject)
  then show ?thesis using assms unfolding el_inv_def by (intro conjI allI impI) (auto split: if_splits)
qed

lemma el_ok_init: "el_ok EventLoop0"
  by (simp add: el_ok_def EventLoop0_def el_inv_def)

section \<open>The operations keep the invariant and free nothing that is reported\<close>

definition keeps_live :: "('h, 'd) EventLoop \<Rightarrow> ('h, 'd) EventLoop \<Rightarrow> bool" where
  "keeps_live s s' \<longleftrightarrow> (\<forall>p. ev_heap s p \<noteq> None \<longrightarrow> ev_heap s' p \<noteq> None)"

lemma SetEventHandler_ok:
  assumes "el_ok s" "map_of (events_tab s) fd = None"
  shows "\<exists>s'. SetEventHandler fd evmask h d s = Some (RPC_OK, s') \<and> el_ok s' \<and> keeps_live s s' \<and>
    map_of (events_tab s') fd = Some (next_ev s) \<and> map_of (epoll_set s') fd = Some (evmask, next_ev s)"
proof -
  let ?p = "next_ev s" let ?e = "\<lparr>ev_fd = fd, ev_data = d, ev_handler = h\<rparr>"
  have i: "el_inv (map_of (events_tab s)) (map_of (epoll_set s)) (map_of (deleted_events s)) (ev_heap s) ?p"
    using assms(1) by (simp add: el_ok_def)
  note inv = el_inv_add(1) [where e = ?e and m = evmask and fd = fd, OF i assms(2)]
    el_inv_add(3) [where e = ?e and fd = fd, OF i assms(2)]
  define s' where "s' = s\<lparr>ev_heap := (ev_heap s)(?p \<mapsto> ?e), next_ev := ?p + 1,
    events_tab := al_emplace fd ?p (events_tab s), epoll_set := al_set fd (evmask, ?p) (epoll_set s)\<rparr>"
  have "SetEventHandler fd evmask h d s = Some (RPC_OK, s')"
    using assms inv(2) by (simp add: SetEventHandler_def AddEvent_def DeleteEvent_def epoll_add_def s'_def Let_def el_ok_def)
  moreover have "el_ok s'" using assms inv(1) by (simp add: el_ok_def s'_def)
  ultimately show ?thesis using assms(2) by (auto simp: s'_def keeps_live_def)
qed

lemma DeleteEpollEvent_ok:
  assumes "el_ok s"
  shows "\<exists>r s'. DeleteEpollEvent fd s = Some (r, s') \<and> el_ok s' \<and> keeps_live s s' \<and> map_of (events_tab s') fd = None"
proof (cases "map_of (events_tab s) fd")
  case None
  then show ?thesis using assms by (simp add: DeleteEpollEvent_def FindEvent_def keeps_live_def)
next
  case (Some p)
  then obtain e where e: "ev_heap s p = Some e" "ev_fd e = fd" using assms unfolding el_ok_def el_inv_def by blast
  let ?l = "case map_of (deleted_events s) fd of None \<Rightarrow> [] | Some l \<Rightarrow> l"
  have p: "p \<notin> set ?l" using assms Some unfolding el_ok_def el_inv_def by (auto split: option.splits)
  define s' where "s' = s\<lparr>events_tab := al_erase fd (events_tab s), deleted_events := al_set fd (?l @ [p]) (deleted_events s),
    epoll_set := (if map_of (epoll_set s) fd = None then epoll_set s else al_erase fd (epoll_set s))\<rparr>"
  have "\<exists>r. DeleteEpollEvent fd s = Some (r, s')"
    using Some e p by (auto simp: DeleteEpollEvent_def FindEvent_def AddDeletedEvent_def epoll_del_def Let_def s'_def split: option.splits)
  note del = this
  have "map_of (epoll_set s') = (map_of (epoll_set s))(fd := None)"
    using assms by (auto simp: s'_def el_ok_def fun_eq_iff)
  moreover have "el_inv (map_of (events_tab s)) (map_of (epoll_set s)) (map_of (deleted_events s)) (ev_heap s) (next_ev s)"
    using assms by (simp add: el_ok_def)
  note el_inv_delete [where fd = fd, OF this Some]
  ultimately have "el_ok s'" using assms by (simp add: el_ok_def s'_def)
  with del show ?thesis using assms by (auto simp: s'_def keeps_live_def el_ok_def)
qed

lemma UpdateEpollEvent_ok:
  assumes "el_ok s"
  shows "el_ok (snd (UpdateEpollEvent fd evmask s)) \<and> keeps_live s (snd (UpdateEpollEvent fd evmask s))"
proof (cases "map_of (events_tab s) fd = None \<or> map_of (epoll_set s) fd = None")
  case True
  then show ?thesis using assms by (auto simp: UpdateEpollEvent_def FindEvent_def epoll_mod_def keeps_live_def split: option.splits)
next
  case False
  then obtain p where p: "map_of (events_tab s) fd = Some p" by auto
  have inv: "el_inv (map_of (events_tab s)) (map_of (epoll_set s)) (map_of (deleted_events s)) (ev_heap s) (next_ev s)"
    using assms by (simp add: el_ok_def)
  have "snd (UpdateEpollEvent fd evmask s) = s\<lparr>epoll_set := al_set fd (evmask, p) (epoll_set s)\<rparr>"
    using False p by (auto simp: UpdateEpollEvent_def FindEvent_def epoll_mod_def simp del: map_of_eq_Some_iff)
  then show ?thesis using assms el_inv_mod [where fd = fd and m = evmask, OF inv p] by (simp add: el_ok_def keeps_live_def)
qed

lemma el_exec_ok:
  assumes "el_ok s" "legal_op s op"
  shows "\<exists>s'. el_exec op s = Some s' \<and> el_ok s' \<and> keeps_live s s'"
proof (cases op)
  case (ElSet fd evmask h d)
  then show ?thesis using SetEventHandler_ok [OF assms(1), of fd evmask h d] assms(2) by auto
next
  case (ElDelete fd)
  then show ?thesis using DeleteEpollEvent_ok [OF assms(1), of fd] by auto
next
  case (ElUpdate fd evmask)
  then show ?thesis using UpdateEpollEvent_ok [OF assms(1)] by simp
next
  case ElStop
  then show ?thesis using assms by (simp add: el_ok_def keeps_live_def)
qed

lemma el_execs_ok:
  assumes "el_ok s" "legal_ops s ops"
  shows "\<exists>s'. el_execs ops s = Some s' \<and> el_ok s' \<and> keeps_live s s'"
  using assms
proof (induction ops arbitrary: s)
  case Nil
  then show ?case by (simp add: keeps_live_def)
next
  case (Cons op ops)
  from Cons.prems obtain s1 where s1: "el_exec op s = Some s1" "el_ok s1" "keeps_live s s1"
    using el_exec_ok [of s op] by auto
  then have "legal_ops s1 ops" using Cons.prems by simp
  from Cons.IH [OF s1(2) this] s1 show ?case by (auto simp: keeps_live_def)
qed

lemma free_events_ok:
  "distinct ps \<Longrightarrow> \<forall>p\<in>set ps. h p \<noteq> None \<Longrightarrow> free_events ps h = Some (\<lambda>p. if p \<in> set ps then None else h p)"
proof (induction ps arbitrary: h)
  case (Cons p ps)
  then have "free_events ps (h(p := None)) = Some (\<lambda>q. if q \<in> set ps then None else (h(p := None)) q)"
    by (intro Cons.IH) auto
  then show ?case using Cons.prems(2) by (auto simp: fun_eq_iff)
qed simp

lemma RemoveDeletedEvents_ok:
  assumes "el_ok s"
  shows "\<exists>s'. RemoveDeletedEvents s = Some s' \<and> el_ok s' \<and> events_tab s' = events_tab s \<and> epoll_set s' = epoll_set s \<and>
    is_stop s' = is_stop s"
proof -
  let ?ps = "concat (map snd (deleted_events s))"
  have keys: "distinct (map fst (deleted_events s))" using assms by (simp add: el_ok_def)
  have el: "distinct ps \<and> (\<forall>p\<in>set ps. \<exists>e. ev_heap s p = Some e \<and> ev_fd e = fd)" if "(fd, ps) \<in> set (deleted_events s)" for fd ps
    using assms keys that unfolding el_ok_def el_inv_def by (metis map_of_is_SomeI)
  have "distinct (concat (map snd xs))" if "distinct (map fst xs)" "set xs \<subseteq> set (deleted_events s)" for xs
    using that
  proof (induction xs)
    case (Cons x xs)
    obtain fd ps where x: "x = (fd, ps)" by (cases x)
    have "p \<notin> set ps'" if "p \<in> set ps" "(fd', ps') \<in> set xs" for p fd' ps'
    proof
      assume "p \<in> set ps'"
      moreover have "(fd, ps) \<in> set (deleted_events s)" "(fd', ps') \<in> set (deleted_events s)"
        using that(2) Cons.prems(2) x by auto
      ultimately have "fd' = fd" using that(1) el by (metis option.inject)
      then show False using Cons.prems(1) that(2) x by (auto simp: image_iff)
    qed
    then show ?case using Cons el [of fd ps] x by auto
  qed simp
  then have d: "distinct ?ps" using keys by blast
  have "\<forall>p\<in>set ?ps. ev_heap s p \<noteq> None" using el by fastforce
  from free_events_ok [OF d this]
  have "RemoveDeletedEvents s = Some (s\<lparr>ev_heap := (\<lambda>p. if p \<in> set ?ps then None else ev_heap s p), deleted_events := []\<rparr>)"
    by (simp add: RemoveDeletedEvents_def)
  moreover have "(p \<in> set ?ps) = (\<exists>fd ps. map_of (deleted_events s) fd = Some ps \<and> p \<in> set ps)" for p
    using keys by (auto simp: image_iff) (metis map_of_is_SomeI, metis map_of_SomeD prod.collapse snd_conv)
  then have "(\<lambda>p. if p \<in> set ?ps then None else ev_heap s p) =
      (\<lambda>p. if \<exists>fd ps. map_of (deleted_events s) fd = Some ps \<and> p \<in> set ps then None else ev_heap s p)" by presburger
  ultimately show ?thesis using assms el_inv_free unfolding el_ok_def by fastforce
qed

section \<open>The loop\<close>

definition run_ok :: "('h, 'd) handler_fun \<Rightarrow> bool" where
  "run_ok run \<longleftrightarrow> (\<forall>h fd m d s. el_ok s \<longrightarrow> legal_ops s (run h fd m d s))"

lemma HandleEvent_ok:
  assumes "run_ok run" "el_ok s" "\<forall>(m, p)\<in>set evs. ev_heap s p \<noteq> None"
  shows "\<exists>s'. HandleEvent run evs s = Some s' \<and> el_ok s'"
  using assms(2,3)
proof (induction evs arbitrary: s)
  case Nil
  then show ?case by simp
next
  case (Cons ev evs)
  obtain m p where ev: "ev = (m, p)" by (cases ev)
  with Cons.prems obtain e where e: "ev_heap s p = Some e" by auto
  have "p \<noteq> 0" using Cons.prems(1) e unfolding el_ok_def el_inv_def by (metis less_irrefl option.distinct(1))
  obtain s1 where s1: "el_execs (run (ev_handler e) (ev_fd e) m (ev_data e) s) s = Some s1" "el_ok s1" "keeps_live s s1"
    using assms(1) el_execs_ok [OF Cons.prems(1)] Cons.prems(1) unfolding run_ok_def by blast
  have "\<forall>(m, p)\<in>set evs. ev_heap s1 p \<noteq> None" using Cons.prems(2) s1(3) unfolding keeps_live_def by auto
  from Cons.IH [OF s1(2) this] Cons.IH [OF Cons.prems(1)] Cons.prems(2)
  show ?case using ev e s1(1) \<open>p \<noteq> 0\<close> by (auto simp: FindDeletedEvent_def)
qed

lemma epoll_report_live:
  "el_ok s \<Longrightarrow> \<forall>(m, p)\<in>set (epoll_report s fds). ev_heap s p \<noteq> None"
proof (induction fds)
  case (Cons f fds)
  obtain fd m where f: "f = (fd, m)" by (cases f)
  have "ev_heap s p \<noteq> None" if "map_of (epoll_set s) fd = Some (m', p)" for m' p
    using Cons.prems that unfolding el_ok_def el_inv_def by (metis option.distinct(1))
  then show ?case using Cons f
    by (auto simp: epoll_report_def List.map_filter_simps split: option.splits simp del: map_of_eq_Some_iff)
qed (simp add: epoll_report_def List.map_filter_simps)

lemma stopped_ok: "el_ok s \<Longrightarrow> el_ok (s\<lparr>is_stop := b\<rparr>)"
  by (simp add: el_ok_def)

lemma remove_if_stopped_ok:
  "el_ok s \<Longrightarrow> \<exists>s'. remove_if_stopped s = Some s' \<and> el_ok s'"
  using RemoveDeletedEvents_ok [of s] by (auto simp: remove_if_stopped_def)

declare EventLoopRun.simps [simp del]

text \<open>
  C30. As long as handlers register a descriptor only while it is not registered, the loop never follows
  a pointer to a freed event and never frees an event twice, whatever handlers delete, change, register
  again or stop while a batch is handled, and whatever \<open>epoll_wait\<close> returns.
\<close>

theorem EventLoopRun_safe:
  assumes "run_ok run" "el_ok s"
  shows "\<exists>r s'. EventLoopRun run ws s = Some (r, s') \<and> el_ok s'"
  using assms(2)
proof (induction ws arbitrary: s)
  case Nil
  show ?case using RemoveDeletedEvents_ok [OF Nil] stopped_ok [OF Nil]
    by (subst EventLoopRun.simps) auto
next
  case (Cons w ws)
  obtain s1 where s1: "RemoveDeletedEvents s = Some s1" "el_ok s1" using RemoveDeletedEvents_ok [OF Cons.prems] by blast
  obtain s2 where s2: "remove_if_stopped (s1\<lparr>is_stop := True\<rparr>) = Some s2" "el_ok s2"
    using remove_if_stopped_ok [OF stopped_ok [OF s1(2)]] by blast
  have s4: "\<exists>s3 s4. HandleEvent run (epoll_report s1 fds) s1 = Some s3 \<and> remove_if_stopped s3 = Some s4 \<and> el_ok s4" for fds
    using HandleEvent_ok [OF assms(1) s1(2) epoll_report_live [OF s1(2)], of fds] remove_if_stopped_ok by blast
  show ?case
  proof (cases "is_stop s")
    case True
    then show ?thesis using stopped_ok [OF Cons.prems] by (subst EventLoopRun.simps) simp
  next
    case False
    then show ?thesis
    proof (cases w)
      case (WaitEvents fds)
      then show ?thesis using False s1(1) s4 [of fds] Cons.IH by (subst EventLoopRun.simps) auto
    qed (use s1 s2 Cons.IH in \<open>simp_all add: EventLoopRun.simps [of run "_ # ws" s]\<close>)
  qed
qed

text \<open>Two registered descriptors; the handler of the first deletes the second, and registers it again.\<close>

definition demo_run :: "(nat, nat) handler_fun" where
  "demo_run h fd m d s = (if h = 1 then [ElDelete 8, ElSet 8 1 2 0] else [ElStop])"

definition demo_loop :: "(nat, nat) EventLoop" where
  "demo_loop = \<lparr>events_tab = [(7, 1), (8, 2)], deleted_events = [], epoll_set = [(7, 1, 1), (8, 1, 2)],
     ev_heap = [1 \<mapsto> \<lparr>ev_fd = 7, ev_data = 0, ev_handler = 1\<rparr>, 2 \<mapsto> \<lparr>ev_fd = 8, ev_data = 0, ev_handler = 2\<rparr>],
     next_ev = 3, is_stop = False\<rparr>"

lemma demo_loop_ok: "el_ok demo_loop"
  by (auto simp: el_ok_def el_inv_def demo_loop_def split: if_splits)

lemma demo_run_ok: "run_ok demo_run"
  unfolding run_ok_def
proof (intro allI impI)
  fix h fd m d and s :: "(nat, nat) EventLoop" assume "el_ok s"
  obtain s1 where s1: "el_exec (ElDelete 8) s = Some s1" "map_of (events_tab s1) 8 = None"
    using DeleteEpollEvent_ok [OF \<open>el_ok s\<close>, of 8] by auto
  then show "legal_ops s (demo_run h fd m d s)" by (auto simp: demo_run_def split: option.splits)
qed

theorem EventLoopRun_safe_witness:
  "\<exists>r s'. EventLoopRun demo_run [WaitIntr, WaitEvents [(7, 1), (8, 1)], WaitEvents [(8, 1)], WaitTimeout] demo_loop = Some (r, s') \<and> el_ok s'"
  by (rule EventLoopRun_safe [OF demo_run_ok demo_loop_ok])

text \<open>
  C33. A registered descriptor must not be registered again: \<open>epoll_ctl\<close> then fails with -1, which the
  test \<open>ret > 0\<close> takes for a success, and the kernel keeps the address of the event \<open>AddEvent\<close> has freed.
  \<open>SetEventHandler\<close> returns \<open>RPC_OK\<close>, and when the descriptor is ready the loop uses the freed event.
\<close>

theorem SetEventHandler_twice:
  assumes "el_ok s" "map_of (epoll_set s) fd = Some (m, p)" "deleted_events s = []" "\<not> is_stop s"
  shows "\<exists>s'. SetEventHandler fd m' h d s = Some (RPC_OK, s') \<and> epoll_set s' = epoll_set s \<and> ev_heap s' p = None \<and>
    EventLoopRun run (WaitEvents [(fd, ev)] # ws) s' = None"
proof -
  let ?q = "next_ev s" let ?e = "\<lparr>ev_fd = fd, ev_data = d, ev_handler = h\<rparr>"
  have p: "map_of (events_tab s) fd = Some p" using assms(1,2) unfolding el_ok_def el_inv_def by blast
  then obtain e where e: "ev_heap s p = Some e" "0 < p" "p < ?q" using assms(1) unfolding el_ok_def el_inv_def by (metis option.distinct(1))
  define s' where "s' = s\<lparr>ev_heap := (ev_heap s)(?q \<mapsto> ?e, p := None), next_ev := ?q + 1,
    events_tab := al_emplace fd ?q (al_erase fd (events_tab s))\<rparr>"
  have "SetEventHandler fd m' h d s = Some (RPC_OK, s')"
    using assms(2) p e by (simp add: SetEventHandler_def AddEvent_def DeleteEvent_def epoll_add_def s'_def Let_def)
  moreover have "RemoveDeletedEvents s' = Some s'"
    using assms(3) by (simp add: s'_def RemoveDeletedEvents_def)
  then have "EventLoopRun run (WaitEvents [(fd, ev)] # ws) s' = None"
    using assms(2,4) e(2)
    by (subst EventLoopRun.simps) (simp add: epoll_report_def s'_def List.map_filter_simps FindDeletedEvent_def)
  ultimately show ?thesis by (auto simp: s'_def)
qed

theorem SetEventHandler_twice_witness:
  "\<exists>s'. SetEventHandler 7 1 5 0 demo_loop = Some (RPC_OK, s') \<and> epoll_set s' = epoll_set demo_loop \<and> ev_heap s' 1 = None \<and>
    EventLoopRun demo_run (WaitEvents [(7, 1)] # []) s' = None"
  by (rule SetEventHandler_twice [OF demo_loop_ok, where m = 1]) (simp_all add: demo_loop_def)

end
