(* ===== verification/Net_Task_Queue.thy ===== *)
theory Net_Task_Queue
  imports Prelude
begin

unbundle bit_operations_syntax

text \<open>
  The task queue of an \<open>EventLoop\<close> (\<open>AddTask\<close>, \<open>QueueReadyCallback\<close>, \<open>RemainingTaskNum\<close> of \<open>event_loop.cc\<close>) as steps of
  the threads that add tasks and of the loop's thread, and the choice of a loop by \<open>EventLoopGroup\<close>
  (\<open>event_loop_group.cc\<close>). A step is one critical section, one access to the eventfd or one call of a
  task. The eventfd is the kernel's counter: \<open>write\<close> of 1 adds 1, and fails at its maximum because the
  descriptor does not block; \<open>read\<close> returns the counter and clears it, and fails at 0; the descriptor is
  readable while the counter is not 0.
\<close>

section \<open>Tasks\<close>

datatype 't loop_pc = LoopWait | LoopRead | LoopRun "'t list"

record ('tid, 't) TaskQueue =
  task_queue :: "'t list"
  task_queue_event_fd :: nat
  pending_write :: "'tid list"
  loop_pc :: "'t loop_pc"
  tasks_added :: "'t list"
  tasks_run :: "'t list"

definition TaskQueue0 :: "('tid, 't) TaskQueue" where
  "TaskQueue0 = \<lparr>task_queue = [], task_queue_event_fd = 0, pending_write = [], loop_pc = LoopWait, tasks_added = [], tasks_run = []\<rparr>"

definition eventfd_max :: nat where
  "eventfd_max = 2 ^ 64 - 2"

text \<open>
  \<open>AddTask\<close> up to \<open>unlock\<close>, with the size it returns; the thread that found the queue empty then writes.
  A thread that has a write to do is not in another \<open>AddTask\<close>.
\<close>

definition AddTask_push :: "'tid \<Rightarrow> 't \<Rightarrow> ('tid, 't) TaskQueue \<Rightarrow> nat \<times> ('tid, 't) TaskQueue" where
  "AddTask_push i task s =
     (let q = task_queue s @ [task]; result = length q in
      (result, s\<lparr>task_queue := q, tasks_added := tasks_added s @ [task],
                 pending_write := (if result = 1 then i # pending_write s else pending_write s)\<rparr>))"

definition AddTask_write :: "'tid \<Rightarrow> ('tid, 't) TaskQueue \<Rightarrow> ('tid, 't) TaskQueue" where
  "AddTask_write i s =
     s\<lparr>task_queue_event_fd := (if task_queue_event_fd s < eventfd_max then task_queue_event_fd s + 1 else task_queue_event_fd s),
       pending_write := remove1 i (pending_write s)\<rparr>"

definition RemainingTaskNum :: "('tid, 't) TaskQueue \<Rightarrow> nat" where
  "RemainingTaskNum s = length (task_queue s)"

text \<open>\<open>QueueReadyCallback\<close>: the read, the swap with an empty queue, and the calls of the tasks.\<close>

definition callback_read :: "('tid, 't) TaskQueue \<Rightarrow> ('tid, 't) TaskQueue" where
  "callback_read s =
     (if task_queue_event_fd s = 0 then s\<lparr>loop_pc := LoopWait\<rparr>
      else s\<lparr>task_queue_event_fd := 0, loop_pc := LoopRead\<rparr>)"

definition callback_swap :: "('tid, 't) TaskQueue \<Rightarrow> ('tid, 't) TaskQueue" where
  "callback_swap s = s\<lparr>task_queue := [], loop_pc := LoopRun (task_queue s)\<rparr>"

definition callback_call :: "'t list \<Rightarrow> ('tid, 't) TaskQueue \<Rightarrow> ('tid, 't) TaskQueue" where
  "callback_call q s =
     (case q of [] \<Rightarrow> s\<lparr>loop_pc := LoopWait\<rparr>
      | t # q' \<Rightarrow> s\<lparr>tasks_run := tasks_run s @ [t], loop_pc := LoopRun q'\<rparr>)"

text \<open>\<open>loop_step\<close> is the next step of the loop's thread, none while the eventfd is not readable.\<close>

definition loop_step :: "('tid, 't) TaskQueue \<Rightarrow> ('tid, 't) TaskQueue option" where
  "loop_step s =
     (case loop_pc s of
        LoopWait \<Rightarrow> if 0 < task_queue_event_fd s then Some (callback_read s) else None
      | LoopRead \<Rightarrow> Some (callback_swap s)
      | LoopRun q \<Rightarrow> Some (callback_call q s))"

inductive tq_step :: "('tid, 't) TaskQueue \<Rightarrow> ('tid, 't) TaskQueue \<Rightarrow> bool" where
  tq_push: "i \<notin> set (pending_write s) \<Longrightarrow> tq_step s (snd (AddTask_push i task s))"
| tq_write: "i \<in> set (pending_write s) \<Longrightarrow> tq_step s (AddTask_write i s)"
| tq_loop: "loop_step s = Some s' \<Longrightarrow> tq_step s s'"

inductive tq_reach :: "('tid, 't) TaskQueue \<Rightarrow> bool" where
  tq_init: "tq_reach TaskQueue0"
| tq_next: "tq_reach s \<Longrightarrow> tq_step s s' \<Longrightarrow> tq_reach s'"

fun running :: "'t loop_pc \<Rightarrow> 't list" where
  "running (LoopRun q) = q"
| "running _ = []"

text \<open>
  The tasks added are those run, those being run and those queued, in this order; and a queue that is
  not empty has a wake-up on its way.
\<close>

definition tq_inv :: "('tid, 't) TaskQueue \<Rightarrow> bool" where
  "tq_inv s \<longleftrightarrow> tasks_added s = tasks_run s @ running (loop_pc s) @ task_queue s \<and>
     (task_queue s \<noteq> [] \<longrightarrow> 0 < task_queue_event_fd s \<or> pending_write s \<noteq> [] \<or> loop_pc s = LoopRead) \<and>
     distinct (pending_write s)"

lemma tq_step_inv:
  assumes "tq_step s s'" "tq_inv s"
  shows "tq_inv s'"
  using assms(1)
proof cases
  case (tq_push i task)
  then show ?thesis using assms(2) by (auto simp: tq_inv_def AddTask_push_def Let_def)
next
  case (tq_write i)
  then show ?thesis using assms(2) by (auto simp: tq_inv_def AddTask_write_def eventfd_max_def)
next
  case tq_loop
  then show ?thesis using assms(2)
    by (auto simp: tq_inv_def loop_step_def callback_read_def callback_swap_def callback_call_def
        split: loop_pc.splits if_splits list.splits)
qed

lemma tq_reach_inv: "tq_reach s \<Longrightarrow> tq_inv s"
proof (induction rule: tq_reach.induct)
  case tq_init
  then show ?case by (simp add: tq_inv_def TaskQueue0_def)
next
  case (tq_next s s')
  then show ?case using tq_step_inv by blast
qed

text \<open>What the threads still have to do, while no task is added.\<close>

definition tq_work :: "('tid, 't) TaskQueue \<Rightarrow> nat" where
  "tq_work s = 4 * length (pending_write s) + length (task_queue s) + (if 0 < task_queue_event_fd s then 3 else 0) +
     (case loop_pc s of LoopWait \<Rightarrow> 0 | LoopRead \<Rightarrow> 2 | LoopRun q \<Rightarrow> Suc (length q))"

lemma loop_step_work: "loop_step s = Some s' \<Longrightarrow> tq_work s' < tq_work s"
  by (auto simp: tq_work_def loop_step_def callback_read_def callback_swap_def callback_call_def
      split: loop_pc.splits if_splits list.splits)

lemma write_work: "i \<in> set (pending_write s) \<Longrightarrow> tq_work (AddTask_write i s) < tq_work s"
  using length_pos_if_in_set [of i "pending_write s"] by (cases "length (pending_write s)") (auto simp: tq_work_def AddTask_write_def length_remove1)

text \<open>A run without new tasks: the steps of the loop and the writes of the threads that still have one.\<close>

inductive drain :: "('tid, 't) TaskQueue \<Rightarrow> ('tid, 't) TaskQueue \<Rightarrow> bool" where
  drain_write: "i \<in> set (pending_write s) \<Longrightarrow> drain s (AddTask_write i s)"
| drain_loop: "loop_step s = Some s' \<Longrightarrow> drain s s'"

lemma drain_step: "drain s s' \<Longrightarrow> tq_step s s' \<and> tq_work s' < tq_work s \<and> tasks_added s' = tasks_added s"
proof (induction rule: drain.induct)
  case (drain_write i s)
  then show ?case using tq_write [of i s] write_work [of i s] by (simp add: AddTask_write_def)
next
  case (drain_loop s s')
  have "tasks_added s' = tasks_added s" using drain_loop
    by (auto simp: loop_step_def callback_read_def callback_swap_def callback_call_def split: loop_pc.splits if_splits list.splits)
  then show ?case using tq_loop loop_step_work drain_loop by blast
qed

lemma drain_end:
  assumes "tq_inv s" "\<nexists>s'. drain s s'"
  shows "tasks_run s = tasks_added s"
proof -
  have "pending_write s = []" using assms(2) drain_write by (metis list.set_intros(1) neq_Nil_conv)
  moreover have "loop_step s = None" using assms(2) by (cases "loop_step s") (auto intro: drain_loop)
  ultimately show ?thesis using assms(1) by (auto simp: tq_inv_def loop_step_def split: loop_pc.splits if_splits)
qed

text \<open>
  C31. No task is lost and no wake-up is missed, although \<open>AddTask\<close> writes the eventfd only when it found
  the queue empty, and after it has released the lock: whatever the interleaving, the tasks run so far
  are a prefix of the tasks added, in the order of the critical sections, and as soon as no task is
  added any more every run of the threads ends, with all tasks run.
\<close>

theorem task_queue_runs_all:
  assumes "tq_reach s"
  shows "(\<exists>rest. tasks_added s = tasks_run s @ rest) \<and> wf {(s2, s1). drain s1 s2} \<and>
    (\<forall>s'. drain\<^sup>*\<^sup>* s s' \<longrightarrow> (\<nexists>s''. drain s' s'') \<longrightarrow> tasks_run s' = tasks_added s)"
proof (intro conjI allI impI)
  show "\<exists>rest. tasks_added s = tasks_run s @ rest" using tq_reach_inv [OF assms] by (auto simp: tq_inv_def)
  show "wf {(s2, s1). drain s1 s2}" by (rule wf_subset [OF wf_measure [of tq_work]]) (auto dest: drain_step)
  fix s' assume run: "drain\<^sup>*\<^sup>* s s'" and fin: "\<nexists>s''. drain s' s''"
  from run have "tq_inv s' \<and> tasks_added s' = tasks_added s"
  proof (induction rule: rtranclp_induct)
    case base
    then show ?case using tq_reach_inv [OF assms] by simp
  next
    case (step s1 s2)
    then show ?case using drain_step [OF step.hyps(2)] tq_step_inv [of s1 s2] by simp
  qed
  then show "tasks_run s' = tasks_added s" using drain_end [OF _ fin] by simp
qed

text \<open>
  The window between the lock and the write: thread 1 has added a task but not written, thread 2 adds
  a second one and writes nothing, and a wake-up of an earlier task is on its way.
\<close>

definition tq_demo :: "(nat, nat) TaskQueue" where
  "tq_demo = \<lparr>task_queue = [10, 11], task_queue_event_fd = 0, pending_write = [1], loop_pc = LoopWait, tasks_added = [10, 11], tasks_run = []\<rparr>"

lemma tq_demo_reach: "tq_reach tq_demo"
proof -
  let ?s1 = "snd (AddTask_push 1 10 TaskQueue0) :: (nat, nat) TaskQueue" let ?s2 = "snd (AddTask_push 2 11 ?s1)"
  have "tq_reach ?s1" by (rule tq_next [OF tq_init tq_push]) (simp add: TaskQueue0_def)
  then have "tq_reach ?s2" by (rule tq_next [OF _ tq_push]) (simp add: TaskQueue0_def AddTask_push_def Let_def)
  moreover have "?s2 = tq_demo" by (simp add: tq_demo_def TaskQueue0_def AddTask_push_def Let_def)
  ultimately show ?thesis by simp
qed

lemma drain_chain:
  "loop_step s = Some s1 \<Longrightarrow> drain\<^sup>*\<^sup>* s1 t \<Longrightarrow> drain\<^sup>*\<^sup>* s t"
  by (rule converse_rtranclp_into_rtranclp) (auto intro: drain_loop)

lemma drain_demo:
  "drain\<^sup>*\<^sup>* tq_demo (tq_demo\<lparr>task_queue := [], pending_write := [], tasks_run := [10, 11]\<rparr>)"
  "\<not> drain (tq_demo\<lparr>task_queue := [], pending_write := [], tasks_run := [10, 11]\<rparr>) s"
proof -
  let ?f = "\<lambda>q n pc r. tq_demo\<lparr>task_queue := q, task_queue_event_fd := n, pending_write := [], loop_pc := pc, tasks_run := r\<rparr>"
  have "drain tq_demo (?f [10, 11] 1 LoopWait [])"
    using drain_write [of 1 tq_demo] by (simp add: tq_demo_def AddTask_write_def eventfd_max_def)
  moreover have "loop_step (?f [10, 11] 1 LoopWait []) = Some (?f [10, 11] 0 LoopRead [])"
    "loop_step (?f [10, 11] 0 LoopRead []) = Some (?f [] 0 (LoopRun [10, 11]) [])"
    "loop_step (?f [] 0 (LoopRun [10, 11]) []) = Some (?f [] 0 (LoopRun [11]) [10])"
    "loop_step (?f [] 0 (LoopRun [11]) [10]) = Some (?f [] 0 (LoopRun []) [10, 11])"
    "loop_step (?f [] 0 (LoopRun []) [10, 11]) = Some (?f [] 0 LoopWait [10, 11])"
    by (simp_all add: loop_step_def callback_read_def callback_swap_def callback_call_def)
  ultimately have "drain\<^sup>*\<^sup>* tq_demo (?f [] 0 LoopWait [10, 11])"
    by (meson drain_chain converse_rtranclp_into_rtranclp rtranclp.rtrancl_refl)
  then show "drain\<^sup>*\<^sup>* tq_demo (tq_demo\<lparr>task_queue := [], pending_write := [], tasks_run := [10, 11]\<rparr>)"
    by (simp add: tq_demo_def)
  show "\<not> drain (tq_demo\<lparr>task_queue := [], pending_write := [], tasks_run := [10, 11]\<rparr>) s"
    by (auto elim!: drain.cases simp: tq_demo_def loop_step_def)
qed

theorem task_queue_runs_all_witness:
  "tasks_run (tq_demo\<lparr>task_queue := [], pending_write := [], tasks_run := [10, 11]\<rparr>) = tasks_added tq_demo \<and>
   wf {(s2, s1). drain s1 (s2 :: (nat, nat) TaskQueue)}"
  using task_queue_runs_all [OF tq_demo_reach] drain_demo by blast

section \<open>The loops of a group\<close>

text \<open>\<open>int ret = size\<close> keeps the low 32 bits, \<open>>>\<close> on an \<open>int\<close> copies its sign, and \<open>ret + kOffset_1\<close> is a \<open>size_t\<close>.\<close>

definition smear :: "nat \<Rightarrow> 32 word \<Rightarrow> 32 word" where
  "smear k ret = ret OR signed_drop_bit k ret"

definition CalcFloorSize :: "64 word \<Rightarrow> 64 word" where
  "CalcFloorSize sz =
     (let ret = (ucast sz :: 32 word); ret = smear 1 ret; ret = smear 2 ret; ret = smear 4 ret; ret = smear 8 ret; ret = smear 16 ret in
      drop_bit 1 ((scast ret :: 64 word) + 1))"

definition kEventLoopGroupDefaultSize :: "64 word" where
  "kEventLoopGroupDefaultSize = 8"

text \<open>\<open>hardware\<close> is \<open>std::thread::hardware_concurrency\<close>; the exception is \<open>None\<close>.\<close>

definition DeterminateGroupSize :: "32 word \<Rightarrow> 64 word \<Rightarrow> 64 word option" where
  "DeterminateGroupSize hardware group_size =
     (let group_size = (if group_size = 0 then kEventLoopGroupDefaultSize else group_size); sz = CalcFloorSize group_size in
      if ucast hardware < sz then None else Some (if 2 < sz then sz else 2))"

definition group_index :: "64 word \<Rightarrow> 32 word \<Rightarrow> 64 word" where
  "group_index group_size fd = (scast fd :: 64 word) AND (group_size - 1)"

lemma bit_smear:
  assumes "\<not> bit r 31"
  shows "bit (smear k r) i \<longleftrightarrow> bit r i \<or> bit r (i + k)"
proof -
  have "\<not> bit r j" if "31 \<le> j" for j
    using assms that bit_imp_le_length [of r j] by (cases "j = 31") auto
  then show ?thesis
    by (auto simp: smear_def bit_or_iff bit_signed_drop_bit_iff add.commute dest: bit_imp_le_length)
qed

text \<open>\<open>ret\<close> has every bit below the highest bit of the argument.\<close>

lemma smear_step:
  fixes x y :: "32 word"
  assumes "\<not> bit x 31" "\<And>i. bit y i \<longleftrightarrow> (\<exists>d<k. bit x (i + d))" "0 < k"
  shows "bit (smear k y) i \<longleftrightarrow> (\<exists>d<2 * k. bit x (i + d))"
proof -
  have x: "\<not> bit x j" if "31 \<le> j" for j
    using assms(1) that bit_imp_le_length [of x j] by (cases "j = 31") auto
  have "\<not> bit y 31" using assms(2) x by simp
  then have "bit (smear k y) i \<longleftrightarrow> (\<exists>d<k. bit x (i + d)) \<or> (\<exists>d<k. bit x (i + (k + d)))"
    by (simp add: bit_smear assms(2) add.assoc)
  also have "\<dots> \<longleftrightarrow> (\<exists>d<2 * k. bit x (i + d))"
  proof
    assume "(\<exists>d<k. bit x (i + d)) \<or> (\<exists>d<k. bit x (i + (k + d)))"
    then show "\<exists>d<2 * k. bit x (i + d)"
    proof
      assume "\<exists>d<k. bit x (i + (k + d))"
      then obtain d where "d < k" "bit x (i + (k + d))" by blast
      then show ?thesis by (intro exI [of _ "k + d"]) simp
    next
      assume "\<exists>d<k. bit x (i + d)"
      then obtain d where "d < k" "bit x (i + d)" by blast
      then show ?thesis by (intro exI [of _ d]) simp
    qed
  next
    assume "\<exists>d<2 * k. bit x (i + d)"
    then obtain d where "d < 2 * k" "bit x (i + d)" by blast
    then show "(\<exists>d<k. bit x (i + d)) \<or> (\<exists>d<k. bit x (i + (k + d)))"
    proof (cases "d < k")
      case False
      with \<open>d < 2 * k\<close> \<open>bit x (i + d)\<close> have "d - k < k \<and> bit x (i + (k + (d - k)))" by simp
      then show ?thesis by blast
    qed blast
  qed
  finally show ?thesis .
qed

lemma smear_all:
  assumes "\<not> bit x 31"
  shows "bit (smear 16 (smear 8 (smear 4 (smear 2 (smear 1 x))))) i \<longleftrightarrow> (\<exists>d. bit x (i + d))"
proof -
  have 1: "bit (smear 1 x) i \<longleftrightarrow> (\<exists>d<2. bit x (i + d))" for i
    using smear_step [OF assms, of x 1 i] by (simp add: less_Suc_eq)
  have 2: "bit (smear 2 (smear 1 x)) i \<longleftrightarrow> (\<exists>d<4. bit x (i + d))" for i
    using smear_step [OF assms 1] by simp
  have 4: "bit (smear 4 (smear 2 (smear 1 x))) i \<longleftrightarrow> (\<exists>d<8. bit x (i + d))" for i
    using smear_step [OF assms 2] by simp
  have 8: "bit (smear 8 (smear 4 (smear 2 (smear 1 x)))) i \<longleftrightarrow> (\<exists>d<16. bit x (i + d))" for i
    using smear_step [OF assms 4] by simp
  have "bit (smear 16 (smear 8 (smear 4 (smear 2 (smear 1 x))))) i \<longleftrightarrow> (\<exists>d<32. bit x (i + d))"
    using smear_step [OF assms 8] by simp
  also have "\<dots> \<longleftrightarrow> (\<exists>d. bit x (i + d))"
  proof
    assume "\<exists>d. bit x (i + d)"
    then obtain d where "bit x (i + d)" by blast
    then have "d < 32" using bit_imp_le_length [of x "i + d"] by simp
    with \<open>bit x (i + d)\<close> show "\<exists>d<32. bit x (i + d)" by blast
  qed blast
  finally show ?thesis .
qed

lemma highest_bit:
  fixes x :: "32 word"
  assumes "x \<noteq> 0" "\<not> bit x 31"
  shows "\<exists>m\<le>30. 2 ^ m \<le> unat x \<and> unat x < 2 ^ Suc m \<and> (\<forall>i. (\<exists>d. bit x (i + d)) \<longleftrightarrow> i \<le> m)"
proof -
  have "1 \<le> unat x" using assms(1) by (simp add: Suc_le_eq unat_gt_0)
  then obtain m where m: "2 ^ m \<le> unat x" "unat x < 2 ^ Suc m" using ex_power_ivl1 [of 2 "unat x"] by auto
  have b: "bit x i \<longleftrightarrow> odd (unat x div 2 ^ i)" for i
    by (simp add: bit_unsigned_iff flip: bit_iff_odd)
  have "unat x div 2 ^ m = 1" using m by (intro div_nat_eqI) simp_all
  then have top: "bit x m" using b by simp
  then have "m \<le> 30" using assms(2) bit_imp_le_length [OF top] by (cases "m = 31") auto
  moreover have "\<not> bit x i" if "m < i" for i
  proof -
    have "unat x < 2 ^ i" using m(2) that power_increasing [of "Suc m" i "2 :: nat"] by (simp add: Suc_le_eq)
    then show ?thesis using b by simp
  qed
  then have "(\<exists>d. bit x (i + d)) \<longleftrightarrow> i \<le> m" for i
    using top by (metis le_add1 le_trans not_less le_iff_add)
  ultimately show ?thesis using m by blast
qed

lemma bit_scast_32: "bit (scast (r :: 32 word) :: 64 word) i \<longleftrightarrow> i < 64 \<and> bit r (min 31 i)"
  by (auto simp: bit_signed_iff possible_bit_def min_def dest: bit_imp_le_length)

lemma drop_bit_exp: "m < 63 \<Longrightarrow> drop_bit 1 ((2 :: 64 word) ^ Suc m) = 2 ^ m"
  by (rule bit_eqI) (auto simp: bit_drop_bit_eq bit_exp_iff possible_bit_def simp del: power_Suc)

lemma CalcFloorSize_positive:
  assumes "(ucast sz :: 32 word) \<noteq> 0" "\<not> bit (ucast sz :: 32 word) 31"
  shows "\<exists>m\<le>30. CalcFloorSize sz = 2 ^ m \<and> 2 ^ m \<le> unat (ucast sz :: 32 word) \<and> unat (ucast sz :: 32 word) < 2 ^ Suc m"
proof -
  define x :: "32 word" where "x = ucast sz"
  obtain m where m: "m \<le> 30" "2 ^ m \<le> unat x" "unat x < 2 ^ Suc m" "\<And>i. (\<exists>d. bit x (i + d)) \<longleftrightarrow> i \<le> m"
    using highest_bit assms unfolding x_def by blast
  define r where "r = smear 16 (smear 8 (smear 4 (smear 2 (smear 1 x))))"
  have r: "bit r i \<longleftrightarrow> i \<le> m" for i using smear_all [of x i] assms(2) m(4) by (simp add: x_def r_def)
  have "(scast r :: 64 word) = mask (Suc m)"
    by (rule bit_eqI) (use m(1) in \<open>auto simp: bit_scast_32 r bit_mask_iff possible_bit_def min_def\<close>)
  then have "(scast r :: 64 word) + 1 = 2 ^ Suc m" by (simp add: mask_eq_exp_minus_1)
  then have "CalcFloorSize sz = 2 ^ m"
    using drop_bit_exp [of m] m(1) by (simp add: CalcFloorSize_def Let_def x_def r_def)
  then show ?thesis using m by (auto simp: x_def)
qed

text \<open>A negative \<open>ret\<close> becomes -1, and the size 0.\<close>

lemma smear_negative:
  assumes "\<forall>i. 31 - j \<le> i \<longrightarrow> i < 32 \<longrightarrow> bit (r :: 32 word) i"
  shows "\<forall>i. 31 - (j + k) \<le> i \<longrightarrow> i < 32 \<longrightarrow> bit (smear k r) i"
proof (intro allI impI)
  fix i :: nat assume "31 - (j + k) \<le> i" "i < 32"
  then show "bit (smear k r) i"
    using assms by (auto simp: smear_def bit_or_iff bit_signed_drop_bit_iff)
qed

lemma CalcFloorSize_negative:
  assumes "bit (ucast sz :: 32 word) 31"
  shows "CalcFloorSize sz = 0"
proof -
  define x :: "32 word" where "x = ucast sz"
  have "\<forall>i. 31 - 0 \<le> i \<longrightarrow> i < 32 \<longrightarrow> bit x i" 
  proof (intro allI impI)
    fix i :: nat assume "31 - 0 \<le> i" "i < 32"
    then have "i = 31" by simp
    then show "bit x i" using assms by (simp add: x_def)
  qed
  note smear_negative [OF smear_negative [OF smear_negative [OF smear_negative [OF smear_negative [OF this]]]], of 1 2 4 8 16]
  then have "smear 16 (smear 8 (smear 4 (smear 2 (smear 1 x)))) = - 1" by (intro bit_eqI) (simp add: possible_bit_def)
  then show ?thesis by (simp add: CalcFloorSize_def Let_def x_def)
qed

lemma CalcFloorSize_0: "(ucast sz :: 32 word) = 0 \<Longrightarrow> CalcFloorSize sz = 0"
  by (simp add: CalcFloorSize_def Let_def smear_def)

lemma unat_exp_64: "m < 64 \<Longrightarrow> unat ((2 :: 64 word) ^ m) = 2 ^ m"
proof -
  assume "m < 64"
  then have "(2 :: nat) ^ m < 2 ^ 64" by (rule power_strict_increasing) simp
  then have "unat (word_of_nat (2 ^ m) :: 64 word) = 2 ^ m" by (simp only: unat_of_nat) (simp add: take_bit_eq_mod)
  then show ?thesis by simp
qed

lemma group_index_less:
  assumes "m < 64"
  shows "group_index (2 ^ m) fd < 2 ^ m"
proof -
  have "group_index (2 ^ m) fd = take_bit m (scast fd)"
    by (simp add: group_index_def take_bit_eq_mask mask_eq_exp_minus_1)
  moreover have "unat ((2 :: 64 word) ^ m) = 2 ^ m" using assms by (rule unat_exp_64)
  ultimately show ?thesis by (simp add: word_less_nat_alt unsigned_take_bit_eq)
qed

text \<open>
  C32. The size of a group is always a power of two of at least 2, also for a size that does not fit an
  \<open>int\<close>, so that the index \<open>fd & (group_size - 1)\<close> is within the group for every descriptor and the events
  of a descriptor stay in one loop; for a size from 2 that fits an \<open>int\<close> it is the largest power of two
  up to the size.
\<close>

theorem event_loop_group_index:
  assumes "DeterminateGroupSize hardware group_size = Some g"
  shows "(\<exists>m. 1 \<le> m \<and> m \<le> 30 \<and> g = 2 ^ m) \<and> (\<forall>fd. group_index g fd < g) \<and>
    (2 \<le> unat group_size \<longrightarrow> unat group_size < 2 ^ 31 \<longrightarrow> unat g \<le> unat group_size \<and> unat group_size < 2 * unat g)"
proof -
  define n where "n = (if group_size = 0 then kEventLoopGroupDefaultSize else group_size)"
  have g: "g = (if 2 < CalcFloorSize n then CalcFloorSize n else 2)"
    using assms by (auto simp: DeterminateGroupSize_def Let_def n_def split: if_splits)
  have "\<exists>m. 1 \<le> m \<and> m \<le> 30 \<and> g = 2 ^ m"
  proof (cases "CalcFloorSize n = 0")
    case True
    then show ?thesis using g by (intro exI [of _ 1]) simp
  next
    case False
    then obtain m where m: "m \<le> 30" "CalcFloorSize n = 2 ^ m"
      using CalcFloorSize_0 CalcFloorSize_negative CalcFloorSize_positive by metis
    then show ?thesis using g by (cases "2 < (2 :: 64 word) ^ m") (cases "m = 0", auto intro: exI [of _ m] exI [of _ "1 :: nat"])
  qed
  moreover from this have "group_index g fd < g" for fd using group_index_less by auto
  moreover have "unat g \<le> unat group_size \<and> unat group_size < 2 * unat g" if "2 \<le> unat group_size" "unat group_size < 2 ^ 31"
  proof -
    have n: "n = group_size" using that(1) by (auto simp: n_def)
    have u: "unat (ucast n :: 32 word) = unat n" using that(2) by (simp add: n unsigned_ucast_eq take_bit_nat_eq_self)
    have "(ucast n :: 32 word) \<noteq> 0" using u n that(1) by auto
    moreover have "\<not> bit (ucast n :: 32 word) 31"
    proof
      assume "bit (ucast n :: 32 word) 31"
      then have "bit (unat (ucast n :: 32 word)) 31" by (simp add: bit_unsigned_iff)
      then show False using that(2) u n by (simp add: bit_iff_odd)
    qed
    ultimately obtain m where m: "m \<le> 30" "CalcFloorSize n = 2 ^ m" "2 ^ m \<le> unat n" "unat n < 2 ^ Suc m"
      using CalcFloorSize_positive [of n] u by metis
    have "m \<noteq> 0" using m(4) that(1) n by (cases m) auto
    then have "(2 :: nat) ^ 1 \<le> 2 ^ m" by (intro power_increasing) auto
    then have "g = 2 ^ m" using g m(1,2) unat_exp_64 [of m] by (auto simp: word_less_nat_alt intro!: word_unat_eq_iff [THEN iffD2])
    then show ?thesis using m n unat_exp_64 [of m] by simp
  qed
  ultimately show ?thesis by blast
qed

theorem event_loop_group_index_witness:
  "DeterminateGroupSize 16 11 = Some 8 \<and> group_index 8 13 < 8 \<and> unat (8 :: 64 word) \<le> unat (11 :: 64 word)"
proof -
  have d: "DeterminateGroupSize 16 11 = Some 8" by code_simp
  show ?thesis using event_loop_group_index [OF d] d by simp
qed

end
