(* ===== verification/Net_Client_Server.thy ===== *)
theory Net_Client_Server
  imports Prelude "HOL-Library.Sublist"
begin

text \<open>
  \<open>TCPClient\<close> and \<open>TCPServer\<close> (\<open>tcp_client.cc\<close>, \<open>tcp_server.cc\<close>): the retries of \<open>Connect\<close>, the bounded wait of
  \<open>Disconnect\<close>, the exchange of a reply between the loop's thread and \<open>ReceiveSync\<close>, and the search for a
  free port. \<open>TCPComm\<close> is a parameter: its state \<open>'c\<close> and its operations \<open>connect\<close> and \<open>disconnect\<close>, the answers
  of \<open>IsConnected\<close> in time, and the result of \<open>StartServerSocket\<close> for a port.
\<close>

section \<open>TCPClient\<close>

text \<open>The timeout in seconds, \<open>None\<close> for an environment variable that is empty.\<close>

definition kDefaultReceiveMsgTimeOut :: int where
  "kDefaultReceiveMsgTimeOut = 15"

definition receive_timeout :: "int option \<Rightarrow> 64 word" where
  "receive_timeout env =
     (let t = (case env of None \<Rightarrow> kDefaultReceiveMsgTimeOut | Some t \<Rightarrow> t) in if t < 0 then - 1 else word_of_int t)"

fun Connect :: "('c \<Rightarrow> bool \<times> 'c) \<Rightarrow> ('c \<Rightarrow> bool \<times> 'c) \<Rightarrow> nat \<Rightarrow> 'c \<Rightarrow> bool \<times> 'c" where
  "Connect connect disconnect 0 c = (False, c)"
| "Connect connect disconnect (Suc retry_count) c =
     (let (ok, c) = connect c in
      if ok then (True, c)
      else let (ok, c) = disconnect c in
        if \<not> ok then (False, c) else Connect connect disconnect retry_count c)"

lemma unat_minus_100: "100 < (t :: 64 word) \<Longrightarrow> unat (t - 100) = unat t - 100"
  by (simp add: unat_sub order_less_imp_le)

text \<open>\<open>connected i\<close> is what \<open>IsConnected\<close> answers at the poll \<open>i\<close>; a poll is followed by 100 ms of sleep.\<close>

function wait_disconnected :: "(nat \<Rightarrow> bool) \<Rightarrow> nat \<Rightarrow> 64 word \<Rightarrow> bool" where
  "wait_disconnected connected i timeout_in_ms =
     (if \<not> connected i then True
      else if 100 < timeout_in_ms then wait_disconnected connected (Suc i) (timeout_in_ms - 100)
      else False)"
  by auto

termination
  by (relation "measure (\<lambda>(_, _, t). unat t)") (auto simp: unat_minus_100 word_less_nat_alt)

declare wait_disconnected.simps [simp del]

definition client_Disconnect :: "('c \<Rightarrow> bool \<times> 'c) \<Rightarrow> (nat \<Rightarrow> bool) \<Rightarrow> 64 word \<Rightarrow> 'c \<Rightarrow> bool \<times> 'c" where
  "client_Disconnect disconnect connected timeout_in_sec c =
     (let (ok, c) = disconnect c in
      if \<not> ok then (False, c) else (wait_disconnected connected 0 (timeout_in_sec * 1000), c))"

lemma Connect_retries:
  assumes "fst (Connect connect disconnect n c)"
  shows "\<exists>k<n. \<exists>c'. fst (connect c') \<and> Connect connect disconnect n c = connect c'"
  using assms
proof (induction n arbitrary: c)
  case (Suc n)
  show ?case
  proof (cases "fst (connect c)")
    case True
    then show ?thesis by (intro exI [of _ 0]) (auto simp: Let_def split_beta prod_eq_iff intro!: exI [of _ c])
  next
    case False
    then have "fst (disconnect (snd (connect c)))" "Connect connect disconnect (Suc n) c = Connect connect disconnect n (snd (disconnect (snd (connect c))))"
      using Suc.prems by (auto simp: Let_def split_beta split: if_splits)
    then show ?thesis using Suc.IH Suc.prems by (metis less_Suc_eq)
  qed
qed simp

text \<open>
  The wait of \<open>Disconnect\<close> asks at the times 0, 100 ms, ... below the timeout, at least once, and returns
  true exactly when one of the answers is that the connection is gone.
\<close>

lemma wait_disconnected_polls:
  "wait_disconnected connected i t \<longleftrightarrow> (\<exists>k. (k = 0 \<or> k * 100 < unat t) \<and> \<not> connected (i + k))"
proof (induction connected i t rule: wait_disconnected.induct)
  case (1 connected i t)
  show ?case
  proof (cases "connected i \<and> 100 < t")
    case True
    have t: "100 < unat t" "unat (t - 100) = unat t - 100" using True unat_minus_100 by (auto simp: word_less_nat_alt)
    have "wait_disconnected connected i t = wait_disconnected connected (Suc i) (t - 100)"
      using True by (simp add: wait_disconnected.simps [of connected i t])
    also have "\<dots> \<longleftrightarrow> (\<exists>k. (k = 0 \<or> k * 100 < unat t - 100) \<and> \<not> connected (Suc i + k))" using 1 True t by simp
    also have "\<dots> \<longleftrightarrow> (\<exists>k. (Suc k) * 100 < unat t \<and> \<not> connected (i + Suc k))"
      using t(1) by (intro iff_exI) auto
    also have "\<dots> \<longleftrightarrow> (\<exists>k. (k = 0 \<or> k * 100 < unat t) \<and> \<not> connected (i + k))"
      using True by (metis add_0_right not0_implies_Suc old.nat.distinct(2))
    finally show ?thesis .
  next
    case False
    show ?thesis
    proof (cases "connected i")
      case True
      then have "unat t \<le> 100" using False by (simp add: word_less_nat_alt not_less)
      then have "\<not> (k = 0 \<or> k * 100 < unat t) \<or> k = 0" for k by (cases k) auto
      then show ?thesis using True False wait_disconnected.simps [of connected i t] by (metis add_0_right)
    qed (auto simp: wait_disconnected.simps [of connected i t] intro: exI [of _ "0 :: nat"])
  qed
qed

section \<open>ReceiveSync\<close>

text \<open>
  \<open>ReceiveSync\<close> runs in the caller's thread and the message handler of \<open>Initialize\<close> in the loop's. The mutex
  is free only while the caller is outside \<open>ReceiveSync\<close> or inside \<open>wait_for\<close>, and only then can the handler
  store. The two logs record the messages the loop has handed to the handler and those returned.
\<close>

datatype sync_pc = SyncIdle | SyncWait

record 'm TCPClient =
  received_message :: "'m option"
  sync_pc :: sync_pc
  handling :: "'m option"
  arrived :: "'m list"
  returned :: "'m list"

definition TCPClient0 :: "'m TCPClient" where
  "TCPClient0 = \<lparr>received_message = None, sync_pc = SyncIdle, handling = None, arrived = [], returned = []\<rparr>"

inductive client_step :: "'m TCPClient \<Rightarrow> 'm TCPClient \<Rightarrow> bool" where
  sync_send: "sync_pc c = SyncIdle \<Longrightarrow> client_step c (c\<lparr>received_message := None, sync_pc := SyncWait\<rparr>)"
| sync_send_fails: "sync_pc c = SyncIdle \<Longrightarrow> client_step c (c\<lparr>received_message := None\<rparr>)"
| sync_return: "sync_pc c = SyncWait \<Longrightarrow> received_message c = Some m \<Longrightarrow>
    client_step c (c\<lparr>sync_pc := SyncIdle, returned := returned c @ [m]\<rparr>)"
| sync_timeout: "sync_pc c = SyncWait \<Longrightarrow> received_message c = None \<Longrightarrow> client_step c (c\<lparr>sync_pc := SyncIdle\<rparr>)"
| handler_called: "handling c = None \<Longrightarrow> client_step c (c\<lparr>handling := Some m, arrived := arrived c @ [m]\<rparr>)"
| handler_stores: "handling c = Some m \<Longrightarrow> received_message c = None \<Longrightarrow>
    client_step c (c\<lparr>received_message := Some m, handling := None\<rparr>)"

definition tcp_client_reach :: "'m TCPClient \<Rightarrow> bool" where
  "tcp_client_reach = client_step\<^sup>*\<^sup>* TCPClient0"

fun option_list :: "'m option \<Rightarrow> 'm list" where
  "option_list None = []"
| "option_list (Some m) = [m]"

definition in_flight :: "'m TCPClient \<Rightarrow> 'm list" where
  "in_flight c = (if sync_pc c = SyncWait then option_list (received_message c) else []) @ option_list (handling c)"

definition client_inv :: "'m TCPClient \<Rightarrow> bool" where
  "client_inv c \<longleftrightarrow> (\<exists>pre. subseq (returned c) pre \<and> arrived c = pre @ in_flight c)"

lemma client_step_inv:
  assumes "client_step c c'" "client_inv c"
  shows "client_inv c'"
proof -
  obtain pre where pre: "subseq (returned c) pre" "arrived c = pre @ in_flight c" using assms(2) by (auto simp: client_inv_def)
  have app: "subseq (returned c) (pre @ [m])" "subseq (returned c @ [m]) (pre @ [m])" for m
    using pre(1) list_emb_append_mono [OF pre(1), of "[m]" "[m]"] by (auto intro: list_emb_append2 simp: list_emb_prefix)
  from assms(1) show ?thesis
  proof cases
    case (sync_return m)
    then show ?thesis unfolding client_inv_def using pre app(2) [of m] by (intro exI [of _ "pre @ [m]"]) (simp add: in_flight_def)
  next
    case (handler_stores m)
    show ?thesis
    proof (cases "sync_pc c")
      case SyncIdle
      then show ?thesis unfolding client_inv_def using handler_stores pre app(1) [of m] by (intro exI [of _ "pre @ [m]"]) (simp add: in_flight_def)
    next
      case SyncWait
      then show ?thesis unfolding client_inv_def using handler_stores pre by (intro exI [of _ pre]) (simp add: in_flight_def)
    qed
  qed (use pre in \<open>auto simp: client_inv_def in_flight_def intro!: exI [of _ pre]\<close>)
qed

text \<open>\<open>ReceiveSync\<close> returns messages in the order they arrived and none twice, though not always all.\<close>

lemma ReceiveSync_in_order:
  assumes "tcp_client_reach c"
  shows "subseq (returned c) (arrived c)"
proof -
  have "client_step\<^sup>*\<^sup>* TCPClient0 c" using assms by (simp add: tcp_client_reach_def)
  then have "client_inv c"
  proof (induction rule: rtranclp_induct)
    case base
    then show ?case by (simp add: client_inv_def TCPClient0_def in_flight_def)
  next
    case (step c c')
    then show ?case using client_step_inv by blast
  qed
  then show ?thesis by (auto simp: client_inv_def intro: subseq_order.trans)
qed

text \<open>
  The message that was returned is not cleared: until the next \<open>ReceiveSync\<close> a further message keeps the
  handler, and with it the thread of the event loop, in its sleep.
\<close>

lemma handler_blocked:
  assumes "sync_pc c = SyncIdle" "received_message c = Some m" "handling c = Some m'" "client_step c c'"
  shows "sync_pc c' = SyncWait \<or> received_message c' = None"
  using assms(4) by cases (use assms(1-3) in auto)

section \<open>TCPServer\<close>

datatype port_result = PortException | PortStarted uint32 | PortFailed uint32

definition kAddressInUseError :: int where
  "kAddressInUseError = -2"

text \<open>\<open>None\<close> is a search that never ends.\<close>

partial_function (option) search_port :: "(uint32 \<Rightarrow> int) \<Rightarrow> uint32 \<Rightarrow> uint32 \<Rightarrow> uint32 \<Rightarrow> port_result option" where
  "search_port start_server port_from port_to current_port =
     (if port_to < port_from then Some PortException
      else let result = start_server current_port in
        if result = kAddressInUseError then
          (if port_to < current_port + 1 then Some PortException else search_port start_server port_from port_to (current_port + 1))
        else if result = -1 then Some (PortFailed current_port)
        else Some (PortStarted current_port))"

declare search_port.simps [code]

definition StartSocketWithinPortRange :: "(uint32 \<Rightarrow> int) \<Rightarrow> uint32 \<times> uint32 \<Rightarrow> port_result option" where
  "StartSocketWithinPortRange start_server port_range =
     search_port start_server (fst port_range) (snd port_range) (fst port_range)"

text \<open>
  The search ends for every range below the largest 32-bit number: it stops at the first port of the
  range that is not in use, or throws when the range is empty or all its ports are in use.
\<close>

lemma search_port_ends:
  assumes "port_to < 2 ^ 32 - 1" "cur \<le> port_to" "port_from \<le> port_to"
  shows "\<exists>r. search_port start_server port_from port_to cur = Some r \<and>
    (case r of
       PortException \<Rightarrow> (\<forall>p. cur \<le> p \<longrightarrow> p \<le> port_to \<longrightarrow> start_server p = kAddressInUseError)
     | PortStarted q \<Rightarrow> cur \<le> q \<and> q \<le> port_to \<and> start_server q \<noteq> kAddressInUseError \<and> start_server q \<noteq> -1
     | PortFailed q \<Rightarrow> cur \<le> q \<and> q \<le> port_to \<and> start_server q = -1) \<and>
    (\<forall>q. r = PortStarted q \<or> r = PortFailed q \<longrightarrow> (\<forall>p. cur \<le> p \<longrightarrow> p < q \<longrightarrow> start_server p = kAddressInUseError))"
  using assms
proof (induction "unat port_to - unat cur" arbitrary: cur rule: less_induct)
  case less
  have nf: "\<not> port_to < port_from" using less.prems(3) by simp
  have cur: "unat cur \<le> unat port_to" "unat port_to < 2 ^ 32 - 1" using less.prems by (simp_all add: word_less_nat_alt word_le_nat_alt)
  then have u: "unat (cur + 1) = unat cur + 1" by (simp add: unat_word_ariths)
  show ?case
  proof (cases "start_server cur = kAddressInUseError")
    case False
    then show ?thesis using nf less.prems(2)
      by (cases "start_server cur = -1") (auto simp: search_port.simps [of start_server port_from port_to cur] Let_def)
  next
    case True
    have only: "p = cur \<or> cur + 1 \<le> p" if "cur \<le> p" for p using that u by (auto simp: word_le_nat_alt word_unat_eq_iff)
    show ?thesis
    proof (cases "port_to < cur + 1")
      case l: True
      have "p = cur" if "cur \<le> p" "p \<le> port_to" for p using only [OF that(1)] l that(2) by (metis leD order.trans)
      then show ?thesis using nf True l by (auto simp: search_port.simps [of start_server port_from port_to cur] Let_def)
    next
      case False
      have "unat port_to - unat (cur + 1) < unat port_to - unat cur" using False u by (simp add: word_less_nat_alt)
      moreover have "cur + 1 \<le> port_to" using False by simp
      ultimately
      obtain r where r: "search_port start_server port_from port_to (cur + 1) = Some r"
        "case r of PortException \<Rightarrow> (\<forall>p. cur + 1 \<le> p \<longrightarrow> p \<le> port_to \<longrightarrow> start_server p = kAddressInUseError)
         | PortStarted q \<Rightarrow> cur + 1 \<le> q \<and> q \<le> port_to \<and> start_server q \<noteq> kAddressInUseError \<and> start_server q \<noteq> -1
         | PortFailed q \<Rightarrow> cur + 1 \<le> q \<and> q \<le> port_to \<and> start_server q = -1"
        "\<forall>q. r = PortStarted q \<or> r = PortFailed q \<longrightarrow> (\<forall>p. cur + 1 \<le> p \<longrightarrow> p < q \<longrightarrow> start_server p = kAddressInUseError)"
        using less.hyps [OF _ less.prems(1) _ less.prems(3)] by blast
      have le: "cur \<le> q" if "cur + 1 \<le> q" for q using that u by (simp add: word_le_nat_alt)
      have "search_port start_server port_from port_to cur = Some r"
        using nf True False r(1) by (simp add: search_port.simps [of start_server port_from port_to cur] Let_def)
      then show ?thesis using r(2,3) only True le by (cases r) (simp_all, metis+)
    qed
  qed
qed

end
