(* ===== verification/Concurrent_Queue.thy ===== *)
theory Concurrent_Queue
  imports Prelude
begin

text \<open>
  The queue of \<open>src/libc/concurrent_queue.h/.cc\<close>: a linked list with a dummy node, one mutex for the head
  and one for the tail, and a condition variable for consumers that find it empty. The operations run
  in any number of threads; a step is one access to shared memory or one call of the pthread library,
  and what is read under a mutex that all writers hold is read in one step. The theory shows that in
  every interleaving the queue is a fifo and never touches memory it has freed, and that a wake-up can
  be lost.
\<close>

section \<open>State\<close>

record 'a cq_node =
  cq_data :: 'a
  cq_next :: "ptr option"

text \<open>
  Where a thread is: in \<open>concurrent_queue_enqueue\<close> with the new node and the data, or in a dequeue that
  blocks or only tries. \<open>Waiting\<close> is inside \<open>pthread_cond_wait\<close>, \<open>DeqRelock\<close> at its end.
\<close>

datatype 'a cq_pc =
    Idle
  | EnqLock ptr 'a | EnqLink ptr 'a | EnqTail ptr 'a | EnqUnlock | EnqSignal
  | DeqLock bool | DeqTest bool | DeqWait | Waiting | DeqRelock | TryUnlock
  | DeqTake | DeqHead ptr ptr 'a | DeqUnlock ptr 'a | DeqFree ptr 'a

text \<open>
  \<open>enq_log\<close> and \<open>deq_log\<close> record the data linked into the queue and taken out of it, in order; \<open>crashed\<close> is set
  when a thread follows a pointer to memory that is not allocated, or frees it.
\<close>

record 'a ConcurrentQueue =
  cq_nodes :: "ptr \<Rightarrow> 'a cq_node option"
  cq_head :: ptr
  cq_tail :: ptr
  head_mutex :: "nat option"
  tail_mutex :: "nat option"
  cq_pcs :: "nat \<Rightarrow> 'a cq_pc"
  enq_log :: "'a list"
  deq_log :: "'a list"
  crashed :: bool

text \<open>\<open>concurrent_queue_init\<close>, with the dummy at address 0 and the data NULL of the dummy as \<open>null\<close>.\<close>

definition concurrent_queue_init :: "'a \<Rightarrow> 'a ConcurrentQueue" where
  "concurrent_queue_init null =
     \<lparr>cq_nodes = [0 \<mapsto> \<lparr>cq_data = null, cq_next = None\<rparr>], cq_head = 0, cq_tail = 0, head_mutex = None, tail_mutex = None,
      cq_pcs = (\<lambda>_. Idle), enq_log = [], deq_log = [], crashed = False\<rparr>"

section \<open>Steps\<close>

definition at_pc :: "nat \<Rightarrow> 'a cq_pc \<Rightarrow> 'a ConcurrentQueue \<Rightarrow> 'a ConcurrentQueue" where
  "at_pc t pc s = s\<lparr>cq_pcs := (cq_pcs s)(t := pc)\<rparr>"

text \<open>\<open>q->tail->next = node\<close>.\<close>

definition link_node :: "nat \<Rightarrow> ptr \<Rightarrow> 'a \<Rightarrow> 'a ConcurrentQueue \<Rightarrow> 'a ConcurrentQueue" where
  "link_node t n d s =
     (case cq_nodes s (cq_tail s) of
        None \<Rightarrow> s\<lparr>crashed := True\<rparr>
      | Some x \<Rightarrow> at_pc t (EnqTail n d)
          (s\<lparr>cq_nodes := (cq_nodes s)(cq_tail s \<mapsto> x\<lparr>cq_next := Some n\<rparr>), enq_log := enq_log s @ [d]\<rparr>))"

text \<open>The test \<open>q->head->next == NULL\<close> of both dequeue operations.\<close>

definition test_empty :: "nat \<Rightarrow> bool \<Rightarrow> 'a ConcurrentQueue \<Rightarrow> 'a ConcurrentQueue" where
  "test_empty t blocking s =
     (case cq_nodes s (cq_head s) of
        None \<Rightarrow> s\<lparr>crashed := True\<rparr>
      | Some x \<Rightarrow>
          at_pc t (case cq_next x of None \<Rightarrow> (if blocking then DeqWait else TryUnlock) | Some _ \<Rightarrow> DeqTake) s)"

text \<open>\<open>dummy = q->head; result_node = dummy->next; result = result_node->data\<close>.\<close>

definition take_result :: "nat \<Rightarrow> 'a ConcurrentQueue \<Rightarrow> 'a ConcurrentQueue" where
  "take_result t s =
     (case do { x \<leftarrow> cq_nodes s (cq_head s); r \<leftarrow> cq_next x; y \<leftarrow> cq_nodes s r; Some (r, cq_data y) } of
        None \<Rightarrow> s\<lparr>crashed := True\<rparr>
      | Some (r, v) \<Rightarrow> at_pc t (DeqHead (cq_head s) r v) s)"

text \<open>\<open>q->free_func(dummy)\<close>.\<close>

definition free_dummy :: "nat \<Rightarrow> ptr \<Rightarrow> 'a ConcurrentQueue \<Rightarrow> 'a ConcurrentQueue" where
  "free_dummy t p s =
     (case cq_nodes s p of
        None \<Rightarrow> s\<lparr>crashed := True\<rparr>
      | Some _ \<Rightarrow> at_pc t Idle (s\<lparr>cq_nodes := (cq_nodes s)(p := None)\<rparr>))"

text \<open>
  \<open>malloc_func\<close> returns memory that is not in use. \<open>pthread_cond_signal\<close> wakes one waiting thread, if there
  is one; the library may also wake a thread without a signal.
\<close>

inductive cq_step :: "'a ConcurrentQueue \<Rightarrow> 'a ConcurrentQueue \<Rightarrow> bool" where
  malloc: "\<lbrakk>cq_pcs s t = Idle; cq_nodes s n = None\<rbrakk> \<Longrightarrow>
     cq_step s (at_pc t (EnqLock n d) (s\<lparr>cq_nodes := (cq_nodes s)(n \<mapsto> \<lparr>cq_data = d, cq_next = None\<rparr>)\<rparr>))"
| lock_tail: "\<lbrakk>cq_pcs s t = EnqLock n d; tail_mutex s = None\<rbrakk> \<Longrightarrow>
     cq_step s (at_pc t (EnqLink n d) (s\<lparr>tail_mutex := Some t\<rparr>))"
| link: "cq_pcs s t = EnqLink n d \<Longrightarrow> cq_step s (link_node t n d s)"
| set_tail: "cq_pcs s t = EnqTail n d \<Longrightarrow> cq_step s (at_pc t EnqUnlock (s\<lparr>cq_tail := n\<rparr>))"
| unlock_tail: "cq_pcs s t = EnqUnlock \<Longrightarrow> cq_step s (at_pc t EnqSignal (s\<lparr>tail_mutex := None\<rparr>))"
| signal: "\<lbrakk>cq_pcs s t = EnqSignal; cq_pcs s u = Waiting\<rbrakk> \<Longrightarrow> cq_step s (at_pc t Idle (at_pc u DeqRelock s))"
| signal_none: "\<lbrakk>cq_pcs s t = EnqSignal; \<forall>u. cq_pcs s u \<noteq> Waiting\<rbrakk> \<Longrightarrow> cq_step s (at_pc t Idle s)"
| start_dequeue: "cq_pcs s t = Idle \<Longrightarrow> cq_step s (at_pc t (DeqLock blocking) s)"
| lock_head: "\<lbrakk>cq_pcs s t = DeqLock blocking; head_mutex s = None\<rbrakk> \<Longrightarrow>
     cq_step s (at_pc t (DeqTest blocking) (s\<lparr>head_mutex := Some t\<rparr>))"
| test: "cq_pcs s t = DeqTest blocking \<Longrightarrow> cq_step s (test_empty t blocking s)"
| wait: "cq_pcs s t = DeqWait \<Longrightarrow> cq_step s (at_pc t Waiting (s\<lparr>head_mutex := None\<rparr>))"
| spurious: "cq_pcs s t = Waiting \<Longrightarrow> cq_step s (at_pc t DeqRelock s)"
| relock: "\<lbrakk>cq_pcs s t = DeqRelock; head_mutex s = None\<rbrakk> \<Longrightarrow>
     cq_step s (at_pc t (DeqTest True) (s\<lparr>head_mutex := Some t\<rparr>))"
| give_up: "cq_pcs s t = TryUnlock \<Longrightarrow> cq_step s (at_pc t Idle (s\<lparr>head_mutex := None\<rparr>))"
| take_node: "cq_pcs s t = DeqTake \<Longrightarrow> cq_step s (take_result t s)"
| set_head: "cq_pcs s t = DeqHead dummy r v \<Longrightarrow>
     cq_step s (at_pc t (DeqUnlock dummy v) (s\<lparr>cq_head := r, deq_log := deq_log s @ [v]\<rparr>))"
| unlock_head: "cq_pcs s t = DeqUnlock dummy v \<Longrightarrow> cq_step s (at_pc t (DeqFree dummy v) (s\<lparr>head_mutex := None\<rparr>))"
| free_dummy: "cq_pcs s t = DeqFree dummy v \<Longrightarrow> cq_step s (free_dummy t dummy s)"

definition cq_reach :: "'a ConcurrentQueue \<Rightarrow> bool" where
  "cq_reach s \<longleftrightarrow> (\<exists>null. cq_step\<^sup>*\<^sup>* (concurrent_queue_init null) s)"

text \<open>
  \<open>concurrent_queue_destroy\<close>, which holds both mutexes: it frees the nodes from the head on.
\<close>

partial_function (option) destroy_loop ::
    "(ptr \<Rightarrow> 'a cq_node option) \<Rightarrow> ptr option \<Rightarrow> (ptr \<Rightarrow> 'a cq_node option) option" where
  "destroy_loop h current =
     (case current of
        None \<Rightarrow> Some h
      | Some temp \<Rightarrow> (case h temp of None \<Rightarrow> None | Some x \<Rightarrow> destroy_loop (h(temp := None)) (cq_next x)))"

definition concurrent_queue_destroy :: "'a ConcurrentQueue \<Rightarrow> (ptr \<Rightarrow> 'a cq_node option) option" where
  "concurrent_queue_destroy s = destroy_loop (cq_nodes s) (Some (cq_head s))"

section \<open>Invariant\<close>

text \<open>The nodes behind \<open>p\<close>, linked up to one without a successor.\<close>

fun linked :: "(ptr \<Rightarrow> 'a cq_node option) \<Rightarrow> ptr \<Rightarrow> ptr list \<Rightarrow> bool" where
  "linked h p [] = (\<exists>x. h p = Some x \<and> cq_next x = None)"
| "linked h p (n # ns) = (\<exists>x. h p = Some x \<and> cq_next x = Some n \<and> linked h n ns)"

definition contents :: "(ptr \<Rightarrow> 'a cq_node option) \<Rightarrow> ptr list \<Rightarrow> 'a list" where
  "contents h ns = map (\<lambda>n. cq_data (the (h n))) ns"

text \<open>The node that only the thread knows: not yet in the list, or no longer.\<close>

fun private_node :: "'a cq_pc \<Rightarrow> ptr option" where
  "private_node (EnqLock n d) = Some n"
| "private_node (EnqLink n d) = Some n"
| "private_node (DeqUnlock p v) = Some p"
| "private_node (DeqFree p v) = Some p"
| "private_node pc = None"

fun holds_tail :: "'a cq_pc \<Rightarrow> bool" where
  "holds_tail (EnqLink n d) = True"
| "holds_tail (EnqTail n d) = True"
| "holds_tail EnqUnlock = True"
| "holds_tail pc = False"

fun holds_head :: "'a cq_pc \<Rightarrow> bool" where
  "holds_head (DeqTest b) = True"
| "holds_head DeqWait = True"
| "holds_head TryUnlock = True"
| "holds_head DeqTake = True"
| "holds_head (DeqHead p r v) = True"
| "holds_head (DeqUnlock p v) = True"
| "holds_head pc = False"

text \<open>What a thread at \<open>pc\<close> knows of a list \<open>p\<close>, \<open>ns\<close> in the memory \<open>h\<close>.\<close>

fun knows :: "(ptr \<Rightarrow> 'a cq_node option) \<Rightarrow> ptr \<Rightarrow> ptr list \<Rightarrow> 'a cq_pc \<Rightarrow> bool" where
  "knows h p ns (EnqLock n d) = (h n = Some \<lparr>cq_data = d, cq_next = None\<rparr>)"
| "knows h p ns (EnqLink n d) = (h n = Some \<lparr>cq_data = d, cq_next = None\<rparr>)"
| "knows h p ns (EnqTail n d) = (last (p # ns) = n)"
| "knows h p ns DeqTake = (ns \<noteq> [])"
| "knows h p ns (DeqHead dummy r v) = (dummy = p \<and> (\<exists>rs. ns = r # rs) \<and> v = cq_data (the (h r)))"
| "knows h p ns (DeqUnlock dummy v) = (h dummy \<noteq> None)"
| "knows h p ns (DeqFree dummy v) = (h dummy \<noteq> None)"
| "knows h p ns pc = True"

definition cq_inv :: "'a ConcurrentQueue \<Rightarrow> ptr list \<Rightarrow> bool" where
  "cq_inv s ns \<longleftrightarrow> \<not> crashed s \<and> linked (cq_nodes s) (cq_head s) ns \<and> distinct (cq_head s # ns) \<and>
     enq_log s = deq_log s @ contents (cq_nodes s) ns \<and>
     ((\<forall>t n d. cq_pcs s t \<noteq> EnqTail n d) \<longrightarrow> cq_tail s = last (cq_head s # ns)) \<and>
     (\<forall>t. tail_mutex s = Some t \<longleftrightarrow> holds_tail (cq_pcs s t)) \<and>
     (\<forall>t. head_mutex s = Some t \<longleftrightarrow> holds_head (cq_pcs s t)) \<and>
     (\<forall>t. knows (cq_nodes s) (cq_head s) ns (cq_pcs s t)) \<and>
     (\<forall>t p. private_node (cq_pcs s t) = Some p \<longrightarrow> p \<notin> set (cq_head s # ns)) \<and>
     (\<forall>t u p. private_node (cq_pcs s t) = Some p \<longrightarrow> private_node (cq_pcs s u) = Some p \<longrightarrow> t = u)"

lemma cq_inv_init: "cq_inv (concurrent_queue_init null) []"
  by (simp add: cq_inv_def concurrent_queue_init_def contents_def)

lemma no_EnqTail:
  "\<lbrakk>\<forall>u n d. (pcs(t := pc)) u \<noteq> EnqTail n d; \<forall>n d. pcs t \<noteq> EnqTail n d\<rbrakk> \<Longrightarrow> \<forall>u n d. pcs u \<noteq> EnqTail n d"
  by (metis fun_upd_apply)

text \<open>A step that only moves a thread on and passes a mutex.\<close>

lemma inv_move:
  assumes "cq_inv s ns" "knows (cq_nodes s) (cq_head s) ns pc" "private_node pc = None \<or> private_node pc = private_node (cq_pcs s t)"
    and "\<forall>n d. pc \<noteq> EnqTail n d" "\<forall>n d. cq_pcs s t \<noteq> EnqTail n d"
    and "\<forall>u. hm = Some u \<longleftrightarrow> holds_head (((cq_pcs s)(t := pc)) u)" "\<forall>u. tm = Some u \<longleftrightarrow> holds_tail (((cq_pcs s)(t := pc)) u)"
  shows "cq_inv (at_pc t pc (s\<lparr>head_mutex := hm, tail_mutex := tm\<rparr>)) ns"
proof -
  have tail: "cq_tail s = last (cq_head s # ns)" if "\<forall>u n d. ((cq_pcs s)(t := pc)) u \<noteq> EnqTail n d"
  proof -
    have "\<forall>u n d. cq_pcs s u \<noteq> EnqTail n d" by (rule no_EnqTail [OF that assms(5)])
    then show ?thesis using assms(1) by (simp add: cq_inv_def)
  qed
  let ?pcs = "(cq_pcs s)(t := pc)"
  have priv: "private_node (cq_pcs s u) = Some p" if "private_node (?pcs u) = Some p" for u p
    using assms(3) that by (auto split: if_splits)
  have "\<forall>u. knows (cq_nodes s) (cq_head s) ns (?pcs u)" using assms(1,2) by (simp add: cq_inv_def)
  moreover have "\<forall>u p. private_node (?pcs u) = Some p \<longrightarrow> p \<notin> set (cq_head s # ns)"
    using priv assms(1) unfolding cq_inv_def by blast
  moreover have "\<forall>u v p. private_node (?pcs u) = Some p \<longrightarrow> private_node (?pcs v) = Some p \<longrightarrow> u = v"
    using priv assms(1) unfolding cq_inv_def by blast
  moreover have "\<not> crashed s" "linked (cq_nodes s) (cq_head s) ns" "distinct (cq_head s # ns)"
    "enq_log s = deq_log s @ contents (cq_nodes s) ns"
    using assms(1) by (simp_all add: cq_inv_def)
  ultimately show ?thesis using assms(6,7) tail unfolding cq_inv_def at_pc_def by (simp del: fun_upd_apply)
qed

lemmas inv_move_none = inv_move [where hm = "head_mutex s" and tm = "tail_mutex s" and s = s for s, simplified]
lemmas inv_move_head = inv_move [where tm = "tail_mutex s" and s = s for s, simplified]
lemmas inv_move_tail = inv_move [where hm = "head_mutex s" and s = s for s, simplified]

lemma inv_mutex:
  assumes "cq_inv s ns"
  shows "head_mutex s = Some t \<longleftrightarrow> holds_head (cq_pcs s t)" "tail_mutex s = Some t \<longleftrightarrow> holds_tail (cq_pcs s t)"
  using assms by (simp_all add: cq_inv_def)

lemma holds_unique:
  assumes "cq_inv s ns"
  shows "\<lbrakk>holds_head (cq_pcs s t); holds_head (cq_pcs s u)\<rbrakk> \<Longrightarrow> u = t"
    "\<lbrakk>holds_tail (cq_pcs s t); holds_tail (cq_pcs s u)\<rbrakk> \<Longrightarrow> u = t"
  using assms unfolding cq_inv_def by (metis option.inject)+

section \<open>The list\<close>

lemma linked_other: "q \<notin> set (p # ns) \<Longrightarrow> linked (h(q := x)) p ns = linked h p ns"
  by (induction ns arbitrary: p) auto

lemma linked_alloc: "\<lbrakk>linked h p ns; q \<in> set (p # ns)\<rbrakk> \<Longrightarrow> h q \<noteq> None"
  by (induction ns arbitrary: p) auto

lemma linked_last: "linked h p ns \<Longrightarrow> \<exists>x. h (last (p # ns)) = Some x \<and> cq_next x = None"
  by (induction ns arbitrary: p) auto

lemma linked_snoc:
  assumes "linked h p ns" "distinct (p # ns)" "n \<notin> set (p # ns)" "h n = Some y" "cq_next y = None"
    and "last (p # ns) = l" "h l = Some x"
  shows "linked (h(l \<mapsto> x\<lparr>cq_next := Some n\<rparr>)) p (ns @ [n])"
  using assms
proof (induction ns arbitrary: p)
  case Nil
  then show ?case by auto
next
  case (Cons q ns)
  then have "p \<noteq> l" by (metis distinct.simps(2) last_ConsR last_in_set list.distinct(1))
  moreover have "last (q # ns) = l" "n \<notin> set (q # ns)" using Cons.prems by auto
  then have "linked (h(l \<mapsto> x\<lparr>cq_next := Some n\<rparr>)) q (ns @ [n])"
    using Cons.prems by (intro Cons.IH) auto
  ultimately show ?case using Cons.prems(1) by (auto simp add: fun_upd_other simp del: fun_upd_apply)
qed

lemma contents_other: "q \<notin> set ns \<Longrightarrow> contents (h(q := x)) ns = contents h ns"
  by (auto simp: contents_def)

lemma contents_next: "h l = Some x \<Longrightarrow> contents (h(l \<mapsto> x\<lparr>cq_next := v\<rparr>)) ns = contents h ns"
  by (auto simp: contents_def)

text \<open>What a thread knows stays true when a node that is not in the list and not its own changes.\<close>

lemma knows_other:
  assumes "knows h p ns pc" "q \<notin> set (p # ns)" "private_node pc \<noteq> Some q"
  shows "knows (h(q := x)) p ns pc"
  using assms by (cases pc) auto

lemma knows_private: "\<lbrakk>knows h p ns pc; private_node pc = Some q\<rbrakk> \<Longrightarrow> h q \<noteq> None"
  by (cases pc) auto

lemma inv_malloc:
  assumes "cq_inv s ns" "cq_pcs s t = Idle" "cq_nodes s n = None"
  shows "cq_inv (at_pc t (EnqLock n d) (s\<lparr>cq_nodes := (cq_nodes s)(n \<mapsto> \<lparr>cq_data = d, cq_next = None\<rparr>)\<rparr>)) ns"
proof -
  let ?pcs = "(cq_pcs s)(t := EnqLock n d)" let ?h = "(cq_nodes s)(n \<mapsto> \<lparr>cq_data = d, cq_next = None\<rparr>)"
  have new: "n \<notin> set (cq_head s # ns)" using assms(1,3) linked_alloc unfolding cq_inv_def by metis
  have priv: "private_node (cq_pcs s u) \<noteq> Some n" for u using assms(1,3) knows_private unfolding cq_inv_def by metis
  have "\<forall>u. knows ?h (cq_head s) ns (?pcs u)"
    using assms(1) new priv knows_other [where q = n] unfolding cq_inv_def by (metis fun_upd_apply knows.simps(1))
  moreover have "\<forall>u p. private_node (?pcs u) = Some p \<longrightarrow> p \<notin> set (cq_head s # ns)"
    using assms(1) new unfolding cq_inv_def by (metis fun_upd_apply option.inject private_node.simps(1))
  moreover have "\<forall>u v p. private_node (?pcs u) = Some p \<longrightarrow> private_node (?pcs v) = Some p \<longrightarrow> u = v"
    using assms(1) priv unfolding cq_inv_def by (metis fun_upd_apply option.inject private_node.simps(1))
  moreover have "\<forall>u. head_mutex s = Some u \<longleftrightarrow> holds_head (?pcs u)" "\<forall>u. tail_mutex s = Some u \<longleftrightarrow> holds_tail (?pcs u)"
    using assms(1,2) by (auto simp: cq_inv_def)
  moreover have "linked ?h (cq_head s) ns" "contents ?h ns = contents (cq_nodes s) ns"
    using assms(1) new unfolding cq_inv_def by (metis linked_other, metis contents_other list.set_intros(2))
  moreover have "cq_tail s = last (cq_head s # ns)" if "\<forall>u n d. ?pcs u \<noteq> EnqTail n d"
  proof -
    have "\<forall>u n d. cq_pcs s u \<noteq> EnqTail n d" by (rule no_EnqTail [OF that]) (simp add: assms(2))
    then show ?thesis using assms(1) by (simp add: cq_inv_def)
  qed
  ultimately show ?thesis using assms(1) unfolding cq_inv_def at_pc_def by (simp del: fun_upd_apply)
qed

lemma inv_link:
  assumes "cq_inv s ns" "cq_pcs s t = EnqLink n d"
  shows "cq_inv (link_node t n d s) (ns @ [n])"
proof -
  let ?pcs = "(cq_pcs s)(t := EnqTail n d)"
  define l where "l = last (cq_head s # ns)"
  have uniq: "cq_pcs s u \<noteq> EnqTail m e" for u m e
    using holds_unique(2) [OF assms(1), of t u] assms(2) by auto
  then have tail: "cq_tail s = l" using assms(1) by (simp add: cq_inv_def l_def)
  have n: "n \<notin> set (cq_head s # ns)" "cq_nodes s n = Some \<lparr>cq_data = d, cq_next = None\<rparr>"
    using assms unfolding cq_inv_def by (metis private_node.simps(2), metis knows.simps(2))
  have inv: "linked (cq_nodes s) (cq_head s) ns" "distinct (cq_head s # ns)" using assms(1) by (auto simp: cq_inv_def)
  obtain x where x: "cq_nodes s l = Some x" using linked_last [OF inv(1)] unfolding l_def by blast
  let ?h = "(cq_nodes s)(l \<mapsto> x\<lparr>cq_next := Some n\<rparr>)"
  have data: "cq_data (the (?h r)) = cq_data (the (cq_nodes s r))" for r using x by auto
  have l: "l \<in> set (cq_head s # ns)" unfolding l_def by (rule last_in_set) simp
  have knows: "knows ?h (cq_head s) (ns @ [n]) (cq_pcs s u)" for u
  proof -
    have "private_node (cq_pcs s u) \<noteq> Some l" using assms(1) l unfolding cq_inv_def by metis
    moreover have "knows (cq_nodes s) (cq_head s) ns (cq_pcs s u)" using assms(1) by (simp add: cq_inv_def)
    ultimately show ?thesis using uniq [of u] x by (cases "cq_pcs s u") auto
  qed
  have "\<forall>u. knows ?h (cq_head s) (ns @ [n]) (?pcs u)" using knows by simp
  moreover have "\<forall>u p. private_node (?pcs u) = Some p \<longrightarrow> p \<notin> set (cq_head s # ns @ [n])"
  proof (intro allI impI)
    fix u p assume p: "private_node (?pcs u) = Some p"
    then have "u \<noteq> t" "private_node (cq_pcs s u) = Some p" by (auto split: if_splits)
    then have "p \<noteq> n" "p \<notin> set (cq_head s # ns)" using assms unfolding cq_inv_def by (metis private_node.simps(2), metis)
    then show "p \<notin> set (cq_head s # ns @ [n])" by simp
  qed
  moreover have "\<forall>u v p. private_node (?pcs u) = Some p \<longrightarrow> private_node (?pcs v) = Some p \<longrightarrow> u = v"
    using assms(1) unfolding cq_inv_def by (auto split: if_splits)
  moreover have "\<forall>u. head_mutex s = Some u \<longleftrightarrow> holds_head (?pcs u)" "\<forall>u. tail_mutex s = Some u \<longleftrightarrow> holds_tail (?pcs u)"
    using assms(1,2) by (auto simp: cq_inv_def)
  moreover have "linked ?h (cq_head s) (ns @ [n])" using linked_snoc [OF inv n _ _ x] by (simp add: l_def)
  moreover have "contents ?h (ns @ [n]) = contents (cq_nodes s) ns @ [d]"
    using n x by (auto simp: contents_next, simp add: contents_def)
  moreover have "enq_log s = deq_log s @ contents (cq_nodes s) ns" "\<not> crashed s" using assms(1) by (simp_all add: cq_inv_def)
  moreover have "distinct (cq_head s # ns @ [n])" using inv(2) n(1) by auto
  moreover have "(\<forall>u m e. ?pcs u \<noteq> EnqTail m e) = False" by auto
  ultimately show ?thesis
    unfolding cq_inv_def link_node_def at_pc_def tail x
    by (simp del: fun_upd_apply not_all add: fun_upd_same)
qed

lemma inv_set_tail:
  assumes "cq_inv s ns" "cq_pcs s t = EnqTail n d"
  shows "cq_inv (at_pc t EnqUnlock (s\<lparr>cq_tail := n\<rparr>)) ns"
proof -
  let ?pcs = "(cq_pcs s)(t := EnqUnlock)"
  have "knows (cq_nodes s) (cq_head s) ns (EnqTail n d)" using assms unfolding cq_inv_def by metis
  then have "last (cq_head s # ns) = n" by simp
  moreover have "\<forall>u. knows (cq_nodes s) (cq_head s) ns (?pcs u)" using assms(1) by (simp add: cq_inv_def)
  moreover have "\<forall>u p. private_node (?pcs u) = Some p \<longrightarrow> p \<notin> set (cq_head s # ns)"
    using assms(1) unfolding cq_inv_def by (auto split: if_splits)
  moreover have "\<forall>u v p. private_node (?pcs u) = Some p \<longrightarrow> private_node (?pcs v) = Some p \<longrightarrow> u = v"
    using assms(1) unfolding cq_inv_def by (auto split: if_splits)
  moreover have "\<forall>u. head_mutex s = Some u \<longleftrightarrow> holds_head (?pcs u)" "\<forall>u. tail_mutex s = Some u \<longleftrightarrow> holds_tail (?pcs u)"
    using assms by (auto simp: cq_inv_def)
  ultimately show ?thesis using assms(1) unfolding cq_inv_def at_pc_def by (simp del: fun_upd_apply last.simps)
qed

lemma inv_set_head:
  assumes "cq_inv s ns" "cq_pcs s t = DeqHead dummy r v"
  shows "\<exists>rs. cq_inv (at_pc t (DeqUnlock dummy v) (s\<lparr>cq_head := r, deq_log := deq_log s @ [v]\<rparr>)) rs"
proof -
  let ?pcs = "(cq_pcs s)(t := DeqUnlock dummy v)"
  have "knows (cq_nodes s) (cq_head s) ns (DeqHead dummy r v)" using assms unfolding cq_inv_def by metis
  then obtain rs where rs: "dummy = cq_head s" "ns = r # rs" "v = cq_data (the (cq_nodes s r))" by auto
  have inv: "linked (cq_nodes s) (cq_head s) (r # rs)" "distinct (cq_head s # r # rs)" using assms(1) rs by (auto simp: cq_inv_def)
  have uniq: "\<not> holds_head (cq_pcs s u)" if "u \<noteq> t" for u
    using holds_unique(1) [OF assms(1), of t u] assms(2) that by auto
  have "knows (cq_nodes s) r rs (?pcs u)" for u
  proof (cases "u = t")
    case True
    then show ?thesis using inv(1) rs(1) by auto
  next
    case False
    have "knows (cq_nodes s) (cq_head s) ns (cq_pcs s u)" using assms(1) by (simp add: cq_inv_def)
    then show ?thesis using False uniq [OF False] rs(2) by (cases "cq_pcs s u") auto
  qed
  moreover have old: "\<forall>u p. private_node (cq_pcs s u) = Some p \<longrightarrow> p \<notin> set (cq_head s # r # rs)"
    using assms(1) rs(2) by (auto simp: cq_inv_def)
  then have "\<forall>u p. private_node (?pcs u) = Some p \<longrightarrow> p \<notin> set (r # rs)" using inv(2) rs(1) by auto
  moreover have "\<forall>u v p. private_node (?pcs u) = Some p \<longrightarrow> private_node (?pcs v) = Some p \<longrightarrow> u = v"
    using assms(1) old rs(1) unfolding cq_inv_def by (auto split: if_splits)
  moreover have "\<forall>u. head_mutex s = Some u \<longleftrightarrow> holds_head (?pcs u)" "\<forall>u. tail_mutex s = Some u \<longleftrightarrow> holds_tail (?pcs u)"
    using assms by (auto simp: cq_inv_def)
  moreover have "cq_tail s = last (r # rs)" if "\<forall>u n d. ?pcs u \<noteq> EnqTail n d"
  proof -
    have "\<forall>u n d. cq_pcs s u \<noteq> EnqTail n d" by (rule no_EnqTail [OF that]) (simp add: assms(2))
    then show ?thesis using assms(1) rs(2) by (simp add: cq_inv_def)
  qed
  moreover have "linked (cq_nodes s) r rs" "distinct (r # rs)" using inv by auto
  moreover have "enq_log s = (deq_log s @ [v]) @ contents (cq_nodes s) rs" "\<not> crashed s"
    using assms(1) rs by (auto simp: cq_inv_def contents_def)
  ultimately have "cq_inv (at_pc t (DeqUnlock dummy v) (s\<lparr>cq_head := r, deq_log := deq_log s @ [v]\<rparr>)) rs"
    unfolding cq_inv_def at_pc_def by (simp del: fun_upd_apply last.simps)
  then show ?thesis by blast
qed

lemma inv_free:
  assumes "cq_inv s ns" "cq_pcs s t = DeqFree dummy v"
  shows "cq_inv (free_dummy t dummy s) ns"
proof -
  let ?pcs = "(cq_pcs s)(t := Idle)" let ?h = "(cq_nodes s)(dummy := None)"
  have own: "private_node (cq_pcs s t) = Some dummy" using assms(2) by simp
  have dummy: "dummy \<notin> set (cq_head s # ns)" "cq_nodes s dummy \<noteq> None"
    using assms own unfolding cq_inv_def by (metis, metis knows_private)
  have "knows ?h (cq_head s) ns (?pcs u)" for u
  proof (cases "u = t")
    case False
    then have "private_node (cq_pcs s u) \<noteq> Some dummy" using assms(1) own unfolding cq_inv_def by metis
    moreover have "knows (cq_nodes s) (cq_head s) ns (cq_pcs s u)" using assms(1) by (simp add: cq_inv_def)
    ultimately have "knows ?h (cq_head s) ns (cq_pcs s u)" by (intro knows_other [OF _ dummy(1)])
    then show ?thesis using False by simp
  qed simp
  moreover have "\<forall>u p. private_node (?pcs u) = Some p \<longrightarrow> p \<notin> set (cq_head s # ns)"
    using assms(1) unfolding cq_inv_def by (auto split: if_splits)
  moreover have "\<forall>u v p. private_node (?pcs u) = Some p \<longrightarrow> private_node (?pcs v) = Some p \<longrightarrow> u = v"
    using assms(1) unfolding cq_inv_def by (auto split: if_splits)
  moreover have "\<forall>u. head_mutex s = Some u \<longleftrightarrow> holds_head (?pcs u)" "\<forall>u. tail_mutex s = Some u \<longleftrightarrow> holds_tail (?pcs u)"
    using assms by (auto simp: cq_inv_def)
  moreover have "cq_tail s = last (cq_head s # ns)" if "\<forall>u n d. ?pcs u \<noteq> EnqTail n d"
  proof -
    have "\<forall>u n d. cq_pcs s u \<noteq> EnqTail n d" by (rule no_EnqTail [OF that]) (simp add: assms(2))
    then show ?thesis using assms(1) by (simp add: cq_inv_def)
  qed
  moreover have "linked ?h (cq_head s) ns" "contents ?h ns = contents (cq_nodes s) ns"
    using assms(1) dummy(1) unfolding cq_inv_def by (metis linked_other, metis contents_other list.set_intros(2))
  ultimately have "cq_inv (at_pc t Idle (s\<lparr>cq_nodes := ?h\<rparr>)) ns"
    using assms(1) unfolding cq_inv_def at_pc_def by (simp del: fun_upd_apply last.simps)
  then show ?thesis using dummy(2) by (auto simp: free_dummy_def)
qed

text \<open>Every step keeps the invariant.\<close>

lemma inv_head_allocated: "cq_inv s ns \<Longrightarrow> \<exists>x. cq_nodes s (cq_head s) = Some x \<and> (cq_next x = None \<longleftrightarrow> ns = [])"
  by (cases ns) (auto simp: cq_inv_def)

lemma inv_test:
  assumes "cq_inv s ns" "cq_pcs s t = DeqTest blocking"
  shows "cq_inv (test_empty t blocking s) ns"
proof -
  obtain x where x: "cq_nodes s (cq_head s) = Some x" "cq_next x = None \<longleftrightarrow> ns = []"
    using inv_head_allocated [OF assms(1)] by auto
  define pc :: "'a cq_pc" where "pc = (case cq_next x of None \<Rightarrow> (if blocking then DeqWait else TryUnlock) | Some _ \<Rightarrow> DeqTake)"
  have "test_empty t blocking s = at_pc t pc s" by (simp add: test_empty_def x pc_def)
  moreover have "pc \<in> {DeqWait, TryUnlock, DeqTake}" "pc = DeqTake \<longrightarrow> ns \<noteq> []"
    using x(2) by (auto simp: pc_def split: option.splits)
  then have pc: "knows (cq_nodes s) (cq_head s) ns pc" "private_node pc = None" "\<forall>n d. pc \<noteq> EnqTail n d"
    "holds_head pc" "\<not> holds_tail pc" by auto
  have "cq_inv (at_pc t pc s) ns"
    by (rule inv_move_none [OF assms(1)]) (use pc assms(2) in \<open>simp_all add: inv_mutex [OF assms(1)]\<close>)
  ultimately show ?thesis by simp
qed

lemma inv_take:
  assumes "cq_inv s ns" "cq_pcs s t = DeqTake"
  shows "cq_inv (take_result t s) ns"
proof -
  have "knows (cq_nodes s) (cq_head s) ns DeqTake" using assms unfolding cq_inv_def by metis
  then obtain r rs where ns: "ns = r # rs" by (cases ns) auto
  then obtain x where x: "cq_nodes s (cq_head s) = Some x" "cq_next x = Some r" "linked (cq_nodes s) r rs"
    using assms(1) by (auto simp: cq_inv_def)
  then obtain y where y: "cq_nodes s r = Some y" using linked_alloc [of _ r rs r] by auto
  have "take_result t s = at_pc t (DeqHead (cq_head s) r (cq_data y)) s" using x y by (simp add: take_result_def)
  moreover have "cq_inv (at_pc t (DeqHead (cq_head s) r (cq_data y)) s) ns"
    using assms inv_mutex [OF assms(1)] ns y by (intro inv_move_none) auto
  ultimately show ?thesis by simp
qed

lemma cq_step_inv:
  assumes "cq_step s s'" "cq_inv s ns"
  shows "\<exists>ns'. cq_inv s' ns'"
  using assms
proof (cases rule: cq_step.cases)
  case (lock_tail t n d)
  then have "cq_inv (at_pc t (EnqLink n d) (s\<lparr>head_mutex := head_mutex s, tail_mutex := Some t\<rparr>)) ns"
    using assms(2) inv_mutex [OF assms(2)] by (intro inv_move) (auto simp: cq_inv_def dest!: spec [of _ t])
  then show ?thesis using lock_tail by auto
next
  case (unlock_tail t)
  then have "cq_inv (at_pc t EnqSignal (s\<lparr>head_mutex := head_mutex s, tail_mutex := None\<rparr>)) ns"
    using assms(2) inv_mutex [OF assms(2)] holds_unique(2) [OF assms(2), of t] by (intro inv_move) auto
  then show ?thesis using unlock_tail by auto
next
  case (signal t u)
  then have "cq_inv (at_pc u DeqRelock s) ns"
    using assms(2) inv_mutex [OF assms(2)] by (intro inv_move_none) auto
  then have "cq_inv (at_pc t Idle (at_pc u DeqRelock s)) ns"
    by (rule inv_move_none) (use signal inv_mutex [OF assms(2)] in \<open>auto simp: at_pc_def\<close>)
  then show ?thesis using signal by auto
next
  case (lock_head t blocking)
  then have "cq_inv (at_pc t (DeqTest blocking) (s\<lparr>head_mutex := Some t, tail_mutex := tail_mutex s\<rparr>)) ns"
    using assms(2) inv_mutex [OF assms(2)] by (intro inv_move) (auto simp: cq_inv_def dest!: spec [of _ t])
  then show ?thesis using lock_head by auto
next
  case (wait t)
  then have "cq_inv (at_pc t Waiting (s\<lparr>head_mutex := None, tail_mutex := tail_mutex s\<rparr>)) ns"
    using assms(2) inv_mutex [OF assms(2)] holds_unique(1) [OF assms(2), of t] by (intro inv_move) auto
  then show ?thesis using wait by auto
next
  case (relock t)
  then have "cq_inv (at_pc t (DeqTest True) (s\<lparr>head_mutex := Some t, tail_mutex := tail_mutex s\<rparr>)) ns"
    using assms(2) inv_mutex [OF assms(2)] by (intro inv_move) (auto simp: cq_inv_def dest!: spec [of _ t])
  then show ?thesis using relock by auto
next
  case (give_up t)
  then have "cq_inv (at_pc t Idle (s\<lparr>head_mutex := None, tail_mutex := tail_mutex s\<rparr>)) ns"
    using assms(2) inv_mutex [OF assms(2)] holds_unique(1) [OF assms(2), of t] by (intro inv_move) auto
  then show ?thesis using give_up by auto
next
  case (unlock_head t dummy v)
  have "knows (cq_nodes s) (cq_head s) ns (DeqUnlock dummy v)" using assms(2) unlock_head unfolding cq_inv_def by metis
  then have "cq_inv (at_pc t (DeqFree dummy v) (s\<lparr>head_mutex := None, tail_mutex := tail_mutex s\<rparr>)) ns"
    using assms(2) unlock_head inv_mutex [OF assms(2)] holds_unique(1) [OF assms(2), of t] by (intro inv_move) auto
  then show ?thesis using unlock_head by auto
next
  case (signal_none t)
  then have "cq_inv (at_pc t Idle s) ns"
    using assms(2) inv_mutex [OF assms(2)] by (intro inv_move_none) auto
  then show ?thesis using signal_none by auto
next
  case (start_dequeue t blocking)
  then have "cq_inv (at_pc t (DeqLock blocking) s) ns"
    using assms(2) inv_mutex [OF assms(2)] by (intro inv_move_none) auto
  then show ?thesis using start_dequeue by auto
next
  case (spurious t)
  then have "cq_inv (at_pc t DeqRelock s) ns"
    using assms(2) inv_mutex [OF assms(2)] by (intro inv_move_none) auto
  then show ?thesis using spurious by auto
qed (simp_all, (metis inv_malloc inv_link inv_set_tail inv_set_head inv_free inv_test inv_take assms(2))+)

lemma cq_reach_inv: "cq_reach s \<Longrightarrow> \<exists>ns. cq_inv s ns"
proof -
  have "\<exists>ns. cq_inv s ns" if "cq_step\<^sup>*\<^sup>* (concurrent_queue_init null) s" for null
    using that
  proof induction
    case base
    then show ?case using cq_inv_init by (rule exI)
  next
    case (step y z)
    then show ?case using cq_step_inv by (elim exE)
  qed
  then show "cq_reach s \<Longrightarrow> \<exists>ns. cq_inv s ns" by (auto simp: cq_reach_def)
qed

lemma destroy_loop_linked:
  assumes "linked h p ns" "distinct (p # ns)"
  shows "destroy_loop h (Some p) = Some (h |` (- set (p # ns)))"
  using assms
proof (induction ns arbitrary: h p)
  case Nil
  then obtain x where x: "h p = Some x" "cq_next x = None" by auto
  have "destroy_loop h (Some p) = destroy_loop (h(p := None)) None" using x by (subst destroy_loop.simps) simp
  also have "\<dots> = Some (h(p := None))" by (subst destroy_loop.simps) simp
  finally show ?case by (simp add: restrict_map_def fun_eq_iff)
next
  case (Cons q ns)
  then obtain x where x: "h p = Some x" "cq_next x = Some q" "linked h q ns" by auto
  have "linked (h(p := None)) q ns" using x(3) Cons.prems(2) linked_other [of p q ns h None] by simp
  then have "destroy_loop (h(p := None)) (Some q) = Some ((h(p := None)) |` (- set (q # ns)))"
    by (rule Cons.IH) (use Cons.prems(2) in simp)
  moreover have "destroy_loop h (Some p) = destroy_loop (h(p := None)) (Some q)"
    using x by (subst destroy_loop.simps) simp
  ultimately show ?case by (auto simp: restrict_map_def fun_eq_iff)
qed

section \<open>Results\<close>

text \<open>
  C29. In every interleaving of any number of producers and consumers, blocking or not, no thread ever
  touches memory that has been freed, what has been taken out of the queue is an initial part of what
  was put in, in the same order, and the rest is in the nodes behind the head; destroying the queue
  then frees the head and exactly these nodes.
\<close>

theorem concurrent_queue_fifo:
  assumes "cq_reach s"
  shows "\<exists>ns. \<not> crashed s \<and> linked (cq_nodes s) (cq_head s) ns \<and> enq_log s = deq_log s @ contents (cq_nodes s) ns \<and>
    concurrent_queue_destroy s = Some (cq_nodes s |` (- set (cq_head s # ns)))"
proof -
  obtain ns where "cq_inv s ns" using cq_reach_inv [OF assms] by blast
  then have "\<not> crashed s" "linked (cq_nodes s) (cq_head s) ns" "distinct (cq_head s # ns)"
    "enq_log s = deq_log s @ contents (cq_nodes s) ns" by (simp_all add: cq_inv_def)
  moreover from this have "concurrent_queue_destroy s = Some (cq_nodes s |` (- set (cq_head s # ns)))"
    unfolding concurrent_queue_destroy_def by (intro destroy_loop_linked)
  ultimately show ?thesis by blast
qed

text \<open>A run: consumer 0 finds the queue empty, producer 1 then puts 7 in, and the consumer goes to sleep.\<close>

definition demo_q :: "nat \<Rightarrow> nat ConcurrentQueue" where
  "demo_q k = (concurrent_queue_init 0)\<lparr>
     cq_nodes := (if k < 4 then [0 \<mapsto> \<lparr>cq_data = 0, cq_next = None\<rparr>]
                  else if k < 6 then [0 \<mapsto> \<lparr>cq_data = 0, cq_next = None\<rparr>, 1 \<mapsto> \<lparr>cq_data = 7, cq_next = None\<rparr>]
                  else [0 \<mapsto> \<lparr>cq_data = 0, cq_next = Some 1\<rparr>, 1 \<mapsto> \<lparr>cq_data = 7, cq_next = None\<rparr>]),
     cq_tail := (if k < 7 then 0 else 1),
     head_mutex := (if k < 2 \<or> 10 \<le> k then None else Some 0),
     tail_mutex := (if 5 \<le> k \<and> k < 8 then Some 1 else None),
     enq_log := (if k < 6 then [] else [7]),
     cq_pcs := (\<lambda>_. Idle)(
       0 := [Idle, DeqLock True, DeqTest True, DeqWait, DeqWait, DeqWait, DeqWait, DeqWait, DeqWait, DeqWait, Waiting] ! k,
       1 := [Idle, Idle, Idle, Idle, EnqLock 1 7, EnqLink 1 7, EnqTail 1 7, EnqUnlock, EnqSignal, Idle, Idle] ! k)\<rparr>"

lemmas demo_q_simps = demo_q_def concurrent_queue_init_def at_pc_def fun_upd_twist

lemma demo_q_steps:
  "cq_step (demo_q 0) (demo_q 1)" "cq_step (demo_q 1) (demo_q 2)" "cq_step (demo_q 2) (demo_q 3)"
  "cq_step (demo_q 3) (demo_q 4)" "cq_step (demo_q 4) (demo_q 5)" "cq_step (demo_q 5) (demo_q 6)"
  "cq_step (demo_q 6) (demo_q 7)" "cq_step (demo_q 7) (demo_q 8)" "cq_step (demo_q 8) (demo_q 9)"
  "cq_step (demo_q 9) (demo_q 10)"
proof -
  show "cq_step (demo_q 0) (demo_q 1)"
    using cq_step.start_dequeue [of "demo_q 0" 0 True] by (simp add: demo_q_simps)
  show "cq_step (demo_q 1) (demo_q 2)"
    using cq_step.lock_head [of "demo_q 1" 0 True] by (simp add: demo_q_simps)
  show "cq_step (demo_q 2) (demo_q 3)"
    using cq_step.test [of "demo_q 2" 0 True] by (simp add: demo_q_simps test_empty_def)
  show "cq_step (demo_q 3) (demo_q 4)"
    using cq_step.malloc [of "demo_q 3" 1 1 7] by (simp add: demo_q_simps)
  show "cq_step (demo_q 4) (demo_q 5)"
    using cq_step.lock_tail [of "demo_q 4" 1 1 7] by (simp add: demo_q_simps)
  show "cq_step (demo_q 5) (demo_q 6)"
    using cq_step.link [of "demo_q 5" 1 1 7] by (simp add: demo_q_simps link_node_def)
  show "cq_step (demo_q 6) (demo_q 7)"
    using cq_step.set_tail [of "demo_q 6" 1 1 7] by (simp add: demo_q_simps)
  show "cq_step (demo_q 7) (demo_q 8)"
    using cq_step.unlock_tail [of "demo_q 7" 1] by (simp add: demo_q_simps)
  show "cq_step (demo_q 8) (demo_q 9)"
    using cq_step.signal_none [of "demo_q 8" 1] by (simp add: demo_q_simps)
  show "cq_step (demo_q 9) (demo_q 10)"
    using cq_step.wait [of "demo_q 9" 0] by (simp add: demo_q_simps)
qed

lemma demo_q_reach: "cq_reach (demo_q 10)"
proof -
  have "demo_q 0 = concurrent_queue_init 0" by (simp add: demo_q_simps fun_eq_iff)
  moreover have "cq_step\<^sup>*\<^sup>* (demo_q 0) (demo_q 10)"
    using demo_q_steps by (meson rtranclp.rtrancl_refl rtranclp.rtrancl_into_rtrancl)
  ultimately show ?thesis unfolding cq_reach_def by metis
qed

theorem concurrent_queue_fifo_witness:
  "\<exists>ns. \<not> crashed (demo_q 10) \<and> linked (cq_nodes (demo_q 10)) (cq_head (demo_q 10)) ns \<and>
    enq_log (demo_q 10) = deq_log (demo_q 10) @ contents (cq_nodes (demo_q 10)) ns \<and>
    concurrent_queue_destroy (demo_q 10) = Some (cq_nodes (demo_q 10) |` (- set (cq_head (demo_q 10) # ns)))"
  using concurrent_queue_fifo [OF demo_q_reach] .

text \<open>
  C34. The producer signals the condition without holding the mutex of the consumers, so a signal that
  comes between a consumer's test and its wait is lost: there is a run in which a consumer waits while
  the queue has an element and no other thread is inside an operation; from there only a new operation
  or a spurious wake-up of the library can go on.
\<close>

theorem concurrent_queue_lost_wakeup:
  "\<exists>s :: nat ConcurrentQueue. cq_reach s \<and> cq_pcs s 0 = Waiting \<and> (\<forall>t. t \<noteq> 0 \<longrightarrow> cq_pcs s t = Idle) \<and>
    enq_log s = [7] \<and> deq_log s = [] \<and>
    (\<forall>s'. cq_step s s' \<longrightarrow> s' = at_pc 0 DeqRelock s \<or> (\<exists>t blocking. s' = at_pc t (DeqLock blocking) s) \<or>
       (\<exists>t n d. s' = at_pc t (EnqLock n d) (s\<lparr>cq_nodes := (cq_nodes s)(n \<mapsto> \<lparr>cq_data = d, cq_next = None\<rparr>)\<rparr>)))"
proof (intro exI [of _ "demo_q 10"] conjI allI impI)
  show "cq_reach (demo_q 10)" by (rule demo_q_reach)
  have idle: "cq_pcs (demo_q 10) t = (if t = 0 then Waiting else Idle)" for t by (simp add: demo_q_def)
  fix s' assume "cq_step (demo_q 10) s'"
  then show "s' = at_pc 0 DeqRelock (demo_q 10) \<or> (\<exists>t blocking. s' = at_pc t (DeqLock blocking) (demo_q 10)) \<or>
       (\<exists>t n d. s' = at_pc t (EnqLock n d) ((demo_q 10)\<lparr>cq_nodes := (cq_nodes (demo_q 10))(n \<mapsto> \<lparr>cq_data = d, cq_next = None\<rparr>)\<rparr>))"
  proof (cases rule: cq_step.cases)
    case (malloc t n d)
    then show ?thesis by (intro disjI2 exI)
  next
    case (start_dequeue t blocking)
    then show ?thesis by (intro disjI2 disjI1 exI)
  qed (auto simp: idle split: if_splits)
qed (simp_all add: demo_q_def concurrent_queue_init_def)

theorem concurrent_queue_lost_wakeup_witness:
  "\<exists>s :: nat ConcurrentQueue. cq_reach s \<and> cq_pcs s 0 = Waiting \<and> cq_pcs s 1 = Idle \<and> enq_log s = [7] \<and> deq_log s = []"
proof -
  from concurrent_queue_lost_wakeup obtain s :: "nat ConcurrentQueue" where
    "cq_reach s" "cq_pcs s 0 = Waiting" "\<forall>t. t \<noteq> 0 \<longrightarrow> cq_pcs s t = Idle" "enq_log s = [7]" "deq_log s = []" by metis
  moreover from this(3) have "cq_pcs s 1 = Idle" by simp
  ultimately show ?thesis by blast
qed

end
