(* ===== verification/Skip_List.thy ===== *)
theory Skip_List
  imports Prelude
begin

text \<open>
  The skip list of \<open>src/application/src/skiplist.h\<close>: nodes on a heap with one forward pointer per level,
  the search that descends from the highest level, insertion and deletion through the array \<open>update\<close>, and
  the text format of \<open>dump_file\<close>. An access through a null or freed pointer, or past the end of
  \<open>forward\<close> or \<open>update\<close>, is \<open>None\<close>. The theory shows that the list is a sorted map and that the search by
  levels finds what a search of the lowest level would, and where deletion and the backward links fail.
\<close>

section \<open>Nodes and list\<close>

record ('k, 'v) Node =
  node_key :: 'k
  node_value :: 'v
  node_level :: nat
  forward :: "ptr option list"
  prev_node :: "ptr option"

record ('k, 'v) SkipList =
  max_level :: nat
  skip_list_level :: nat
  header :: ptr
  element_count :: int
  nodes :: "ptr \<Rightarrow> ('k, 'v) Node option"

type_synonym ('k, 'v) node_heap = "ptr \<Rightarrow> ('k, 'v) Node option"

definition create_node :: "'k \<Rightarrow> 'v \<Rightarrow> nat \<Rightarrow> ('k, 'v) Node" where
  "create_node k v level = \<lparr>node_key = k, node_value = v, node_level = level, forward = replicate (level + 1) None, prev_node = None\<rparr>"

text \<open>\<open>k0\<close> and \<open>v0\<close> are the values of the default-initialised key and value of the header.\<close>

definition new_SkipList :: "'k \<Rightarrow> 'v \<Rightarrow> nat \<Rightarrow> ('k, 'v) SkipList" where
  "new_SkipList k0 v0 max_lvl =
     \<lparr>max_level = max_lvl, skip_list_level = 0, header = 0, element_count = 0, nodes = [0 \<mapsto> create_node k0 v0 max_lvl]\<rparr>"

definition get_forward :: "('k, 'v) node_heap \<Rightarrow> ptr \<Rightarrow> nat \<Rightarrow> ptr option option" where
  "get_forward h p i = do { n \<leftarrow> h p; if i < length (forward n) then Some (forward n ! i) else None }"

definition set_forward :: "ptr \<Rightarrow> nat \<Rightarrow> ptr option \<Rightarrow> ('k, 'v) node_heap \<Rightarrow> ('k, 'v) node_heap option" where
  "set_forward p i q h = do { n \<leftarrow> h p; if i < length (forward n) then Some (h(p \<mapsto> n\<lparr>forward := (forward n)[i := q]\<rparr>)) else None }"

definition set_prev :: "ptr \<Rightarrow> ptr option \<Rightarrow> ('k, 'v) node_heap \<Rightarrow> ('k, 'v) node_heap option" where
  "set_prev p q h = do { n \<leftarrow> h p; Some (h(p \<mapsto> n\<lparr>prev_node := q\<rparr>)) }"

text \<open>\<open>get_random_level\<close>, over the results of \<open>rand\<close>; the loop is not over while all of them are odd.\<close>

fun rand_loop :: "nat \<Rightarrow> int list \<Rightarrow> nat option" where
  "rand_loop k [] = None"
| "rand_loop k (r # rs) = (if r mod 2 \<noteq> 0 then rand_loop (k + 1) rs else Some k)"

definition get_random_level :: "int list \<Rightarrow> ('k, 'v) SkipList \<Rightarrow> nat option" where
  "get_random_level rs s = do { k \<leftarrow> rand_loop 1 rs; Some (if k < max_level s then k else max_level s) }"

section \<open>Search\<close>

partial_function (option) walk :: "(('k :: linorder), 'v) node_heap \<Rightarrow> nat \<Rightarrow> 'k \<Rightarrow> ptr \<Rightarrow> ptr option" where
  "walk h i key current = do {
     next \<leftarrow> get_forward h current i;
     (case next of
        None \<Rightarrow> Some current
      | Some q \<Rightarrow> do { n \<leftarrow> h q; if node_key n < key then walk h i key q else Some current }) }"

declare walk.simps [code]

text \<open>The loop over the levels, with the array \<open>update\<close>; \<open>search_element\<close> has the same loop without it.\<close>

fun descend :: "(('k :: linorder), 'v) node_heap \<Rightarrow> 'k \<Rightarrow> nat \<Rightarrow> ptr \<Rightarrow> ptr option list \<Rightarrow> (ptr \<times> ptr option list) option" where
  "descend h key i current upd = do {
     current \<leftarrow> walk h i key current;
     (if length upd \<le> i then None
      else case i of 0 \<Rightarrow> Some (current, upd[0 := Some current])
           | Suc j \<Rightarrow> descend h key j current (upd[i := Some current])) }"

fun descend_only :: "(('k :: linorder), 'v) node_heap \<Rightarrow> 'k \<Rightarrow> nat \<Rightarrow> ptr \<Rightarrow> ptr option" where
  "descend_only h key i current = do {
     current \<leftarrow> walk h i key current;
     (case i of 0 \<Rightarrow> Some current | Suc j \<Rightarrow> descend_only h key j current) }"

definition has_key :: "('k, 'v) node_heap \<Rightarrow> 'k \<Rightarrow> ptr option \<Rightarrow> bool option" where
  "has_key h key current = (case current of None \<Rightarrow> Some False | Some p \<Rightarrow> do { n \<leftarrow> h p; Some (node_key n = key) })"

definition search_element :: "'k \<Rightarrow> (('k :: linorder), 'v) SkipList \<Rightarrow> ptr option option" where
  "search_element key s = do {
     current \<leftarrow> descend_only (nodes s) key (skip_list_level s) (header s);
     current \<leftarrow> get_forward (nodes s) current 0;
     found \<leftarrow> has_key (nodes s) key current;
     Some (if found then current else None) }"

section \<open>Insertion\<close>

definition fill_update :: "nat \<Rightarrow> nat \<Rightarrow> ptr \<Rightarrow> ptr option list \<Rightarrow> ptr option list" where
  "fill_update from to hd_ptr upd = map (\<lambda>i. if from < i \<and> i < to + 1 then Some hd_ptr else upd ! i) [0..<length upd]"

definition link_level :: "ptr \<Rightarrow> ptr option list \<Rightarrow> nat \<Rightarrow> ('k, 'v) node_heap \<Rightarrow> ('k, 'v) node_heap option" where
  "link_level inserted_node upd i h = do {
     u \<leftarrow> (if i < length upd then upd ! i else None);
     q \<leftarrow> get_forward h u i;
     h \<leftarrow> set_forward inserted_node i q h;
     set_forward u i (Some inserted_node) h }"

fun link_levels :: "ptr \<Rightarrow> ptr option list \<Rightarrow> nat list \<Rightarrow> ('k, 'v) node_heap \<Rightarrow> ('k, 'v) node_heap option" where
  "link_levels inserted_node upd [] h = Some h"
| "link_levels inserted_node upd (i # is) h = do { h \<leftarrow> link_level inserted_node upd i h; link_levels inserted_node upd is h }"

text \<open>
  Level 0 with the backward links: when the new node has a successor it is the \<open>prev\<close> of its predecessor
  \<open>update[0]\<close> that is set.
\<close>

definition link_level0 :: "ptr \<Rightarrow> ptr option list \<Rightarrow> ('k, 'v) node_heap \<Rightarrow> ('k, 'v) node_heap option" where
  "link_level0 inserted_node upd h = do {
     u \<leftarrow> (if 0 < length upd then upd ! 0 else None);
     q \<leftarrow> get_forward h u 0;
     h \<leftarrow> set_forward inserted_node 0 q h;
     h \<leftarrow> (if q \<noteq> None then set_prev u (Some inserted_node) h else Some h);
     h \<leftarrow> set_forward u 0 (Some inserted_node) h;
     set_prev inserted_node (Some u) h }"

text \<open>The new node is at a fresh address \<open>p\<close>; \<open>rs\<close> are the results of \<open>rand\<close>.\<close>

definition insert_element :: "ptr \<Rightarrow> int list \<Rightarrow> 'k \<Rightarrow> 'v \<Rightarrow> (('k :: linorder), 'v) SkipList \<Rightarrow> (int \<times> ('k, 'v) SkipList) option" where
  "insert_element p rs key val s = do {
     (current, upd) \<leftarrow> descend (nodes s) key (skip_list_level s) (header s) (replicate (max_level s + 1) None);
     current \<leftarrow> get_forward (nodes s) current 0;
     found \<leftarrow> has_key (nodes s) key current;
     if found then Some (1, s)
     else do {
       random_level \<leftarrow> get_random_level rs s;
       let upd = (if skip_list_level s < random_level then fill_update (skip_list_level s) random_level (header s) upd else upd);
       h \<leftarrow> link_level0 p upd ((nodes s)(p \<mapsto> create_node key val random_level));
       h \<leftarrow> link_levels p upd [1..<random_level + 1] h;
       Some (0, s\<lparr>nodes := h, skip_list_level := max (skip_list_level s) random_level, element_count := element_count s + 1\<rparr>) } }"

section \<open>Deletion\<close>

fun unlink_levels :: "ptr \<Rightarrow> ptr option list \<Rightarrow> nat list \<Rightarrow> ('k, 'v) node_heap \<Rightarrow> ('k, 'v) node_heap option" where
  "unlink_levels current upd [] h = Some h"
| "unlink_levels current upd (i # is) h = do {
     u \<leftarrow> (if i < length upd then upd ! i else None);
     q \<leftarrow> get_forward h u i;
     if q \<noteq> Some current then Some h
     else do {
       r \<leftarrow> get_forward h current i;
       h \<leftarrow> set_forward u i r h;
       unlink_levels current upd is h } }"

fun drop_levels :: "('k, 'v) node_heap \<Rightarrow> ptr \<Rightarrow> nat \<Rightarrow> nat option" where
  "drop_levels h hd_ptr 0 = Some 0"
| "drop_levels h hd_ptr (Suc i) = do { q \<leftarrow> get_forward h hd_ptr (Suc i); if q = None then drop_levels h hd_ptr i else Some (Suc i) }"

text \<open>\<open>next->prev\<close> is written unless \<open>next\<close> is the header, also when \<open>next\<close> is null.\<close>

definition delete_element :: "'k \<Rightarrow> (('k :: linorder), 'v) SkipList \<Rightarrow> ('k, 'v) SkipList option" where
  "delete_element key s = do {
     (current, upd) \<leftarrow> descend (nodes s) key (skip_list_level s) (header s) (replicate (max_level s + 1) None);
     current \<leftarrow> get_forward (nodes s) current 0;
     found \<leftarrow> has_key (nodes s) key current;
     if \<not> found then Some s
     else do {
       c \<leftarrow> current;
       h \<leftarrow> unlink_levels c upd [0..<skip_list_level s + 1] (nodes s);
       level \<leftarrow> drop_levels h (header s) (skip_list_level s);
       next \<leftarrow> get_forward h c 0;
       n \<leftarrow> h c;
       h \<leftarrow> (if next \<noteq> Some (header s) then do { q \<leftarrow> next; set_prev q (prev_node n) h } else Some h);
       Some (s\<lparr>nodes := h(c := None), skip_list_level := level, element_count := element_count s - 1\<rparr>) } }"

section \<open>The text format\<close>

text \<open>\<open>find\<close> of the delimiter, a colon; \<open>get_key_value_from_string\<close> leaves key and value as they are for a line without one.\<close>

definition is_valid_string :: "string \<Rightarrow> bool" where
  "is_valid_string str = (str \<noteq> [] \<and> CHR '':'' \<in> set str)"

definition get_key_value_from_string :: "string \<Rightarrow> string \<times> string \<Rightarrow> string \<times> string" where
  "get_key_value_from_string str kv =
     (if \<not> is_valid_string str then kv
      else (takeWhile (\<lambda>c. c \<noteq> CHR '':'') str, tl (dropWhile (\<lambda>c. c \<noteq> CHR '':'') str)))"

definition dump_line :: "string \<Rightarrow> string \<Rightarrow> string" where
  "dump_line key val = key @ '':'' @ val"

text \<open>The keys and values \<open>dump_file\<close> writes, from the node \<open>p\<close> on.\<close>

partial_function (option) dump_nodes :: "('k, 'v) node_heap \<Rightarrow> ptr option \<Rightarrow> ('k \<times> 'v) list option" where
  "dump_nodes h p =
     (case p of None \<Rightarrow> Some []
      | Some q \<Rightarrow> do {
          n \<leftarrow> h q;
          next \<leftarrow> get_forward h q 0;
          rest \<leftarrow> dump_nodes h next;
          Some ((node_key n, node_value n) # rest) })"

declare dump_nodes.simps [code]

definition dump_file :: "('k, 'v) SkipList \<Rightarrow> ('k \<times> 'v) list option" where
  "dump_file s = do { p \<leftarrow> get_forward (nodes s) (header s) 0; dump_nodes (nodes s) p }"

text \<open>The destructor.\<close>

definition delete_node :: "ptr \<Rightarrow> ('k, 'v) node_heap \<Rightarrow> ('k, 'v) node_heap option" where
  "delete_node p h = do { _ \<leftarrow> h p; Some (h(p := None)) }"

partial_function (option) clear :: "ptr \<Rightarrow> ('k, 'v) node_heap \<Rightarrow> ('k, 'v) node_heap option" where
  "clear cur h = do {
     next \<leftarrow> get_forward h cur 0;
     h \<leftarrow> (case next of None \<Rightarrow> Some h | Some q \<Rightarrow> clear q h);
     delete_node cur h }"

declare clear.simps [code]

definition destroy_SkipList :: "('k, 'v) SkipList \<Rightarrow> ('k, 'v) node_heap option" where
  "destroy_SkipList s = do {
     next \<leftarrow> get_forward (nodes s) (header s) 0;
     h \<leftarrow> (case next of None \<Rightarrow> Some (nodes s) | Some q \<Rightarrow> clear q (nodes s));
     delete_node (header s) h }"

section \<open>Invariant\<close>

fun linked_at :: "('k, 'v) node_heap \<Rightarrow> nat \<Rightarrow> ptr \<Rightarrow> ptr list \<Rightarrow> bool" where
  "linked_at h i p [] = (get_forward h p i = Some None)"
| "linked_at h i p (q # qs) = (get_forward h p i = Some (Some q) \<and> linked_at h i q qs)"

definition lvl :: "('k, 'v) node_heap \<Rightarrow> ptr \<Rightarrow> nat" where
  "lvl h p = node_level (the (h p))"

definition key_at :: "('k, 'v) node_heap \<Rightarrow> ptr \<Rightarrow> 'k" where
  "key_at h p = node_key (the (h p))"

text \<open>The list of a level has the nodes of at least that level, in the order of the lowest one.\<close>

definition sl_inv :: "(('k :: linorder), 'v) SkipList \<Rightarrow> ptr list \<Rightarrow> bool" where
  "sl_inv s xs \<longleftrightarrow> distinct (header s # xs) \<and>
     (\<forall>p\<in>set (header s # xs). \<exists>n. nodes s p = Some n \<and> length (forward n) = Suc (node_level n)) \<and>
     lvl (nodes s) (header s) = max_level s \<and> skip_list_level s \<le> max_level s \<and>
     (\<forall>p\<in>set xs. lvl (nodes s) p \<le> skip_list_level s) \<and>
     (\<forall>i\<le>max_level s. linked_at (nodes s) i (header s) (filter (\<lambda>p. i \<le> lvl (nodes s) p) xs)) \<and>
     sorted_wrt (\<lambda>p q. key_at (nodes s) p < key_at (nodes s) q) xs \<and>
     element_count s = int (length xs)"

definition sl_map :: "('k, 'v) node_heap \<Rightarrow> ptr list \<Rightarrow> 'k \<Rightarrow> 'v option" where
  "sl_map h xs = map_of (map (\<lambda>p. (key_at h p, node_value (the (h p)))) xs)"

lemma linked_at_suffix: "linked_at h i p (us @ q # vs) \<Longrightarrow> linked_at h i q vs"
  by (induction us arbitrary: p) auto

lemma walk_stops:
  assumes "linked_at h i c (as @ bs)" "\<forall>p\<in>set (as @ bs). h p \<noteq> None" "\<forall>p\<in>set as. key_at h p < key"
    "\<forall>p\<in>set bs. \<not> key_at h p < key"
  shows "walk h i key c = Some (last (c # as))"
  using assms
proof (induction as arbitrary: c)
  case Nil
  then show ?case by (cases bs) (auto simp: walk.simps [of h i key c] key_at_def)
next
  case (Cons a as)
  then obtain n where "h a = Some n" by auto
  with Cons show ?case by (auto simp: walk.simps [of h i key c] key_at_def)
qed

text \<open>The node before the position of \<open>key\<close> on a level.\<close>

definition pred_at :: "('k, 'v) node_heap \<Rightarrow> nat \<Rightarrow> ptr \<Rightarrow> ptr list \<Rightarrow> ptr" where
  "pred_at h i p L = last (p # filter (\<lambda>q. i \<le> lvl h q) L)"

lemma walk_from_above:
  assumes "linked_at h i p (filter (\<lambda>q. i \<le> lvl h q) (L @ R))" "\<forall>q\<in>set (L @ R). h q \<noteq> None"
    "\<forall>q\<in>set L. key_at h q < key" "\<forall>q\<in>set R. \<not> key_at h q < key"
    "c = p \<or> c \<in> set L \<and> i \<le> lvl h c"
  shows "walk h i key c = Some (pred_at h i p L)"
proof (cases "c = p")
  case True
  have "walk h i key p = Some (last (p # filter (\<lambda>q. i \<le> lvl h q) L))"
    using assms by (intro walk_stops [of _ _ _ _ "filter (\<lambda>q. i \<le> lvl h q) R"]) auto
  with True show ?thesis by (simp add: pred_at_def)
next
  case False
  then have "c \<in> set (filter (\<lambda>q. i \<le> lvl h q) L)" using assms(5) by auto
  then obtain us vs where f: "filter (\<lambda>q. i \<le> lvl h q) L = us @ c # vs" by (meson split_list)
  then have "linked_at h i c (vs @ filter (\<lambda>q. i \<le> lvl h q) R)" using assms(1) linked_at_suffix by fastforce
  moreover have "set vs \<subseteq> set L" using f by (metis filter_is_subset set_append Un_upper2 list.set(2) subset_insertI subset_trans)
  ultimately have "walk h i key c = Some (last (c # vs))" using assms(2-4)
    by (intro walk_stops [of _ _ _ _ "filter (\<lambda>q. i \<le> lvl h q) R"]) auto
  then show ?thesis by (simp add: pred_at_def f)
qed

lemma pred_at_below: "pred_at h (Suc i) p L = p \<or> pred_at h (Suc i) p L \<in> set L \<and> i \<le> lvl h (pred_at h (Suc i) p L)"
proof -
  have "pred_at h (Suc i) p L \<in> set (p # filter (\<lambda>q. Suc i \<le> lvl h q) L)" unfolding pred_at_def by (rule last_in_set) simp
  then show ?thesis by auto
qed

declare descend.simps [simp del] descend_only.simps [simp del]

text \<open>The context of a search: the list is split at the position of \<open>key\<close>.\<close>

definition split_at :: "('k :: linorder, 'v) node_heap \<Rightarrow> 'k \<Rightarrow> nat \<Rightarrow> ptr \<Rightarrow> ptr list \<Rightarrow> ptr list \<Rightarrow> bool" where
  "split_at h key m p L R \<longleftrightarrow> (\<forall>i\<le>m. linked_at h i p (filter (\<lambda>q. i \<le> lvl h q) (L @ R))) \<and>
     (\<forall>q\<in>set (L @ R). h q \<noteq> None) \<and> (\<forall>q\<in>set L. key_at h q < key) \<and> (\<forall>q\<in>set R. \<not> key_at h q < key)"

lemma split_at_walk:
  assumes "split_at h key m p L R" "i \<le> m" "c = p \<or> c \<in> set L \<and> i \<le> lvl h c"
  shows "walk h i key c = Some (pred_at h i p L)"
  using assms unfolding split_at_def by (intro walk_from_above) auto

lemma descend_update:
  assumes "split_at h key m p L R" "i \<le> m" "c = p \<or> c \<in> set L \<and> i \<le> lvl h c" "i < length upd"
  shows "\<exists>upd'. descend h key i c upd = Some (pred_at h 0 p L, upd') \<and> length upd' = length upd \<and>
    (\<forall>j\<le>i. upd' ! j = Some (pred_at h j p L)) \<and> (\<forall>j>i. upd' ! j = upd ! j)"
  using assms(2-4)
proof (induction i arbitrary: c upd)
  case 0
  then show ?case using split_at_walk [OF assms(1) 0(1,2)] by (simp add: descend.simps [of h key 0])
next
  case (Suc i)
  let ?c = "pred_at h (Suc i) p L" let ?u = "upd[Suc i := Some ?c]"
  have "descend h key (Suc i) c upd = descend h key i ?c ?u"
    using split_at_walk [OF assms(1) Suc.prems(1,2)] Suc.prems(3) by (simp add: descend.simps [of h key "Suc i"])
  moreover obtain upd' where "descend h key i ?c ?u = Some (pred_at h 0 p L, upd')" "length upd' = length ?u"
    "\<forall>j\<le>i. upd' ! j = Some (pred_at h j p L)" "\<forall>j>i. upd' ! j = ?u ! j"
    using Suc.IH [of ?c ?u] Suc.prems pred_at_below [of h i p L] by auto
  ultimately show ?case using Suc.prems(3) by (auto simp: le_Suc_eq)
qed

lemma descend_only_pred:
  assumes "split_at h key m p L R" "i \<le> m" "c = p \<or> c \<in> set L \<and> i \<le> lvl h c"
  shows "descend_only h key i c = Some (pred_at h 0 p L)"
  using assms(2-3)
proof (induction i arbitrary: c)
  case 0
  then show ?case using split_at_walk [OF assms(1) 0] by (simp add: descend_only.simps [of h key 0])
next
  case (Suc i)
  then show ?case using split_at_walk [OF assms(1) Suc.prems] Suc.IH pred_at_below [of h i p L]
    by (simp add: descend_only.simps [of h key "Suc i"])
qed

lemma linked_at_last:
  "linked_at h i p (as @ bs) \<Longrightarrow> get_forward h (last (p # as)) i = Some (case bs of [] \<Rightarrow> None | q # _ \<Rightarrow> Some q)"
proof (induction as arbitrary: p)
  case Nil
  then show ?case by (cases bs) auto
next
  case (Cons a as)
  then show ?case by (cases as) auto
qed

lemma split_at_pred:
  assumes "split_at h key m p L R" "i \<le> m"
  shows "get_forward h (pred_at h i p L) i = Some (case filter (\<lambda>q. i \<le> lvl h q) R of [] \<Rightarrow> None | q # _ \<Rightarrow> Some q)"
  using assms unfolding split_at_def pred_at_def by (intro linked_at_last) auto

lemma sl_inv_node:
  assumes "sl_inv s xs" "q \<in> set (header s # xs)"
  shows "\<exists>n. nodes s q = Some n \<and> length (forward n) = Suc (node_level n)"
proof -
  have "\<forall>q\<in>set (header s # xs). \<exists>n. nodes s q = Some n \<and> length (forward n) = Suc (node_level n)"
    using assms(1) unfolding sl_inv_def by (elim conjE)
  then show ?thesis using assms(2) by (rule bspec)
qed

lemma sl_inv_alloc: "sl_inv s xs \<Longrightarrow> q \<in> set (header s # xs) \<Longrightarrow> nodes s q \<noteq> None"
  using sl_inv_node by fastforce

text \<open>Every list splits at every key.\<close>

lemma sl_inv_split:
  assumes "sl_inv s xs"
  obtains L R where "xs = L @ R" "split_at (nodes s) key (max_level s) (header s) L R"
    "\<forall>q\<in>set L. key_at (nodes s) q \<noteq> key" "\<forall>q\<in>set (tl R). key_at (nodes s) q \<noteq> key"
proof
  let ?P = "\<lambda>q. key_at (nodes s) q < key"
  let ?L = "takeWhile ?P xs" let ?R = "dropWhile ?P xs"
  show "xs = ?L @ ?R" by simp
  have sorted: "sorted_wrt (\<lambda>p q. key_at (nodes s) p < key_at (nodes s) q) ?R"
    using assms unfolding sl_inv_def by (metis sorted_wrt_append takeWhile_dropWhile_id)
  have R: "\<not> ?P q" if "q \<in> set ?R" for q
  proof -
    obtain r rs where r: "?R = r # rs" using list.set_cases [of q ?R, OF \<open>q \<in> set ?R\<close>] by blast
    then have "\<not> ?P r" using hd_dropWhile [of ?P xs] by simp
    moreover have "q = r \<or> key_at (nodes s) r < key_at (nodes s) q" using sorted that unfolding r by auto
    ultimately show ?thesis by auto
  qed
  show "\<forall>q\<in>set ?L. key_at (nodes s) q \<noteq> key" by (auto dest: set_takeWhileD)
  show "split_at (nodes s) key (max_level s) (header s) ?L ?R"
    unfolding split_at_def takeWhile_dropWhile_id
  proof (intro conjI)
    show "\<forall>i\<le>max_level s. linked_at (nodes s) i (header s) (filter (\<lambda>q. i \<le> lvl (nodes s) q) xs)"
      using assms by (simp add: sl_inv_def)
    show "\<forall>q\<in>set xs. nodes s q \<noteq> None" using sl_inv_alloc [OF assms] by simp
    show "\<forall>q\<in>set ?L. ?P q" by (auto dest: set_takeWhileD)
    show "\<forall>q\<in>set ?R. \<not> ?P q" using R by blast
  qed
  show "\<forall>q\<in>set (tl ?R). key_at (nodes s) q \<noteq> key"
  proof (cases ?R)
    case (Cons r rs)
    have "\<not> ?P r" using R [of r] unfolding Cons by simp
    then show ?thesis using sorted unfolding Cons by auto
  next
    case Nil
    show ?thesis unfolding Nil by simp
  qed
qed

lemma has_key_split:
  assumes "split_at h key m p L R"
  shows "has_key h key (case R of [] \<Rightarrow> None | q # _ \<Rightarrow> Some q) = Some (case R of [] \<Rightarrow> False | q # _ \<Rightarrow> key_at h q = key)"
  using assms by (cases R) (auto simp: has_key_def split_at_def key_at_def)

lemma sl_map_split:
  assumes "\<forall>q\<in>set L. key_at h q \<noteq> key" "\<forall>q\<in>set (tl R). key_at h q \<noteq> key"
  shows "sl_map h (L @ R) key = (case R of [] \<Rightarrow> None | q # _ \<Rightarrow> if key_at h q = key then Some (node_value (the (h q))) else None)"
proof -
  have *: "map_of (map (\<lambda>p. (key_at h p, node_value (the (h p)))) ps) key = None" if "\<forall>q\<in>set ps. key_at h q \<noteq> key" for ps
    using that by (induction ps) auto
  then show ?thesis using assms by (cases R) (auto simp: sl_map_def map_add_def split: option.splits)
qed

lemma search_element_finds:
  assumes "sl_inv s xs"
  shows "\<exists>r. search_element key s = Some r \<and>
    (case r of None \<Rightarrow> sl_map (nodes s) xs key = None
     | Some q \<Rightarrow> q \<in> set xs \<and> (\<exists>n. nodes s q = Some n \<and> node_key n = key \<and> sl_map (nodes s) xs key = Some (node_value n)))"
proof -
  obtain L R where s: "xs = L @ R" "split_at (nodes s) key (max_level s) (header s) L R"
    "\<forall>q\<in>set L. key_at (nodes s) q \<noteq> key" "\<forall>q\<in>set (tl R). key_at (nodes s) q \<noteq> key"
    using sl_inv_split [OF assms] .
  have "descend_only (nodes s) key (skip_list_level s) (header s) = Some (pred_at (nodes s) 0 (header s) L)"
    using assms by (intro descend_only_pred [OF s(2)]) (auto simp: sl_inv_def)
  then show ?thesis
    using split_at_pred [OF s(2), of 0] has_key_split [OF s(2)] sl_map_split [OF s(3,4)] s(1) assms
    by (cases R) (auto simp: search_element_def sl_inv_def key_at_def)
qed

section \<open>What the writes change\<close>

definition shape :: "('k, 'v) node_heap \<Rightarrow> ptr \<Rightarrow> ('k \<times> 'v \<times> nat \<times> nat) option" where
  "shape h p = map_option (\<lambda>n. (node_key n, node_value n, node_level n, length (forward n))) (h p)"

lemma shape_facts:
  assumes "shape h' p = shape h p"
  shows "(h' p = None) = (h p = None)" "h p \<noteq> None \<Longrightarrow> lvl h' p = lvl h p" "h p \<noteq> None \<Longrightarrow> key_at h' p = key_at h p"
    "h p \<noteq> None \<Longrightarrow> node_value (the (h' p)) = node_value (the (h p))"
    "h p \<noteq> None \<Longrightarrow> length (forward (the (h' p))) = length (forward (the (h p)))"
  using assms by (auto simp: shape_def lvl_def key_at_def map_option_case split: option.splits)

lemma get_forward_defined: "get_forward h p i \<noteq> None \<longleftrightarrow> (\<exists>n. h p = Some n \<and> i < length (forward n))"
  by (auto simp: get_forward_def split: option.splits bind_splits)

lemma set_forward_effect:
  assumes "get_forward h p i \<noteq> None"
  shows "\<exists>h'. set_forward p i q h = Some h' \<and> shape h' = shape h \<and>
    get_forward h' = (\<lambda>x j. if j = i \<and> x = p then Some q else get_forward h x j)"
proof -
  obtain n where n: "h p = Some n" "i < length (forward n)" using assms get_forward_defined by blast
  let ?h = "h(p \<mapsto> n\<lparr>forward := (forward n)[i := q]\<rparr>)"
  have "set_forward p i q h = Some ?h" using n by (simp add: set_forward_def)
  moreover have "shape ?h = shape h" using n by (simp add: shape_def fun_eq_iff)
  moreover have "get_forward ?h = (\<lambda>x j. if j = i \<and> x = p then Some q else get_forward h x j)"
    using n by (simp add: get_forward_def fun_eq_iff nth_list_update)
  ultimately show ?thesis by blast
qed

lemma set_prev_effect:
  assumes "h p \<noteq> None"
  shows "\<exists>h'. set_prev p q h = Some h' \<and> shape h' = shape h \<and> get_forward h' = get_forward h"
proof -
  obtain n where n: "h p = Some n" using assms by blast
  let ?h = "h(p \<mapsto> n\<lparr>prev_node := q\<rparr>)"
  have "set_prev p q h = Some ?h" "shape ?h = shape h" "get_forward ?h = get_forward h"
    using n by (simp_all add: set_prev_def shape_def get_forward_def fun_eq_iff)
  then show ?thesis by blast
qed

text \<open>The new node \<open>n\<close> is put behind \<open>u i\<close> on the levels of \<open>is\<close>.\<close>

definition linked_in :: "ptr \<Rightarrow> (nat \<Rightarrow> ptr) \<Rightarrow> nat set \<Rightarrow> ('k, 'v) node_heap \<Rightarrow> ('k, 'v) node_heap \<Rightarrow> bool" where
  "linked_in n u is h h' \<longleftrightarrow> shape h' = shape h \<and> get_forward h' =
     (\<lambda>x j. if j \<in> is \<and> x = n then get_forward h (u j) j else if j \<in> is \<and> x = u j then Some (Some n) else get_forward h x j)"

definition linkable :: "ptr \<Rightarrow> ptr option list \<Rightarrow> (nat \<Rightarrow> ptr) \<Rightarrow> nat \<Rightarrow> ('k, 'v) node_heap \<Rightarrow> bool" where
  "linkable n upd u i h \<longleftrightarrow> i < length upd \<and> upd ! i = Some (u i) \<and> u i \<noteq> n \<and> get_forward h (u i) i \<noteq> None \<and> get_forward h n i \<noteq> None"

lemma link_level_effect:
  assumes "linkable n upd u i h"
  shows "\<exists>h'. link_level n upd i h = Some h' \<and> linked_in n u {i} h h'"
proof -
  obtain q where q: "get_forward h (u i) i = Some q" using assms by (auto simp: linkable_def)
  obtain h1 where h1: "set_forward n i q h = Some h1" "shape h1 = shape h"
    "get_forward h1 = (\<lambda>x j. if j = i \<and> x = n then Some q else get_forward h x j)"
    using set_forward_effect [of h n i q] assms by (auto simp: linkable_def)
  obtain h2 where h2: "set_forward (u i) i (Some n) h1 = Some h2" "shape h2 = shape h1"
    "get_forward h2 = (\<lambda>x j. if j = i \<and> x = u i then Some (Some n) else get_forward h1 x j)"
    using set_forward_effect [of h1 "u i" i "Some n"] assms h1(3) q by (auto simp: linkable_def)
  then show ?thesis using assms q h1
    by (auto simp: link_level_def linked_in_def linkable_def fun_eq_iff)
qed

lemma link_level0_effect:
  assumes "linkable n upd u 0 h"
  shows "\<exists>h'. link_level0 n upd h = Some h' \<and> linked_in n u {0} h h'"
proof -
  obtain q where q: "get_forward h (u 0) 0 = Some q" using assms by (auto simp: linkable_def)
  obtain h1 where h1: "set_forward n 0 q h = Some h1" "shape h1 = shape h"
    "get_forward h1 = (\<lambda>x j. if j = 0 \<and> x = n then Some q else get_forward h x j)"
    using set_forward_effect [of h n 0 q] assms by (auto simp: linkable_def)
  have u: "h1 (u 0) \<noteq> None" "h1 n \<noteq> None" 
    using assms get_forward_defined [of h "u 0" 0] get_forward_defined [of h n 0] shape_facts(1) [of h1 "u 0" h] shape_facts(1) [of h1 n h] h1(2)
    by (auto simp: linkable_def)
  obtain h2 where h2: "(if q \<noteq> None then set_prev (u 0) (Some n) h1 else Some h1) = Some h2" "shape h2 = shape h1"
    "get_forward h2 = get_forward h1"
    using set_prev_effect [of h1 "u 0" "Some n"] u(1) by (cases "q = None") auto
  obtain h3 where h3: "set_forward (u 0) 0 (Some n) h2 = Some h3" "shape h3 = shape h2"
    "get_forward h3 = (\<lambda>x j. if j = 0 \<and> x = u 0 then Some (Some n) else get_forward h2 x j)"
    using set_forward_effect [of h2 "u 0" 0 "Some n"] assms h1(3) h2(3) q by (auto simp: linkable_def)
  have "h3 n \<noteq> None" using u(2) h2(2) h3(2) shape_facts(1) [of h3 n h1] by simp
  then obtain h4 where h4: "set_prev n (Some (u 0)) h3 = Some h4" "shape h4 = shape h3" "get_forward h4 = get_forward h3"
    using set_prev_effect [of h3 n "Some (u 0)"] by auto
  have "link_level0 n upd h = Some h4"
    using assms q h1(1) h2(1) h3(1) h4(1) by (simp add: link_level0_def linkable_def)
  moreover have "linked_in n u {0} h h4"
    using assms q h1 h2(2,3) h3(2,3) h4(2,3) by (auto simp: linked_in_def linkable_def fun_eq_iff)
  ultimately show ?thesis by blast
qed

lemma linked_in_keeps:
  assumes "linked_in n u {i} h h'" "linkable n upd u j h" "i \<noteq> j"
  shows "linkable n upd u j h'"
  using assms by (auto simp: linked_in_def linkable_def)

lemma linked_in_trans:
  assumes "linked_in n u {i} h h1" "linked_in n u is h1 h2" "i \<notin> is"
  shows "linked_in n u (insert i is) h h2"
  using assms by (auto simp: linked_in_def fun_eq_iff)

lemma link_levels_effect:
  assumes "\<forall>i\<in>set is. linkable n upd u i h" "distinct is"
  shows "\<exists>h'. link_levels n upd is h = Some h' \<and> linked_in n u (set is) h h'"
  using assms
proof (induction "is" arbitrary: h)
  case Nil
  then show ?case by (simp add: linked_in_def)
next
  case (Cons i "is")
  then obtain h1 where h1: "link_level n upd i h = Some h1" "linked_in n u {i} h h1" using link_level_effect by fastforce
  then have "\<forall>j\<in>set is. linkable n upd u j h1" using Cons.prems linked_in_keeps by (metis distinct.simps(2) list.set_intros(2))
  then obtain h2 where "link_levels n upd is h1 = Some h2" "linked_in n u (set is) h1 h2"
    using Cons.IH [of h1] Cons.prems(2) by auto
  then show ?case using h1 linked_in_trans [OF h1(2)] Cons.prems(2) by auto
qed

lemma linked_at_cong:
  "(\<And>q. q \<in> set (p # ps) \<Longrightarrow> get_forward h' q i = get_forward h q i) \<Longrightarrow> linked_at h' i p ps = linked_at h i p ps"
  by (induction ps arbitrary: p) auto

lemma linked_at_insert:
  assumes "linked_at h i p (as @ bs)" "distinct (p # as @ bs)" "n \<notin> set (p # as @ bs)"
    "get_forward h' (last (p # as)) i = Some (Some n)" "get_forward h' n i = get_forward h (last (p # as)) i"
    "\<And>q. q \<in> set (p # as @ bs) \<Longrightarrow> q \<noteq> last (p # as) \<Longrightarrow> get_forward h' q i = get_forward h q i"
  shows "linked_at h' i p (as @ n # bs)"
  using assms
proof (induction as arbitrary: p)
  case Nil
  show ?case
  proof (cases bs)
    case (Cons b bs')
    then have "linked_at h' i b bs'" using Nil linked_at_cong [of b bs' h' i h] by auto
    then show ?thesis using Nil Cons by simp
  qed (use Nil in simp)
next
  case (Cons a as)
  have "p \<noteq> last (a # as)" using Cons.prems(2) last_in_set [of "a # as"] by auto
  then have "get_forward h' p i = Some (Some a)" using Cons.prems(1) Cons.prems(6) [of p] by auto
  moreover have "linked_at h' i a (as @ n # bs)"
    using Cons.prems by (intro Cons.IH) auto
  ultimately show ?case by simp
qed

text \<open>What insertion and deletion know after the descent.\<close>

definition located :: "'k \<Rightarrow> (('k :: linorder), 'v) SkipList \<Rightarrow> ptr list \<Rightarrow> ptr list \<Rightarrow> ptr option list \<Rightarrow> bool" where
  "located key s L R upd \<longleftrightarrow> split_at (nodes s) key (max_level s) (header s) L R \<and>
     (\<forall>q\<in>set L. key_at (nodes s) q \<noteq> key) \<and> (\<forall>q\<in>set (tl R). key_at (nodes s) q \<noteq> key) \<and>
     descend (nodes s) key (skip_list_level s) (header s) (replicate (max_level s + 1) None) = Some (pred_at (nodes s) 0 (header s) L, upd) \<and>
     length upd = max_level s + 1 \<and> (\<forall>j\<le> skip_list_level s. upd ! j = Some (pred_at (nodes s) j (header s) L)) \<and>
     get_forward (nodes s) (pred_at (nodes s) 0 (header s) L) 0 = Some (case R of [] \<Rightarrow> None | q # _ \<Rightarrow> Some q) \<and>
     has_key (nodes s) key (case R of [] \<Rightarrow> None | q # _ \<Rightarrow> Some q) = Some (sl_map (nodes s) (L @ R) key \<noteq> None) \<and>
     (sl_map (nodes s) (L @ R) key \<noteq> None \<longleftrightarrow> (case R of [] \<Rightarrow> False | q # _ \<Rightarrow> key_at (nodes s) q = key))"

lemma locate:
  assumes "sl_inv s xs"
  obtains L R upd where "xs = L @ R" "located key s L R upd"
proof -
  obtain L R where s: "xs = L @ R" "split_at (nodes s) key (max_level s) (header s) L R"
    "\<forall>q\<in>set L. key_at (nodes s) q \<noteq> key" "\<forall>q\<in>set (tl R). key_at (nodes s) q \<noteq> key"
    using sl_inv_split [OF assms] .
  have lv: "skip_list_level s \<le> max_level s" using assms by (simp add: sl_inv_def)
  have found: "(sl_map (nodes s) (L @ R) key \<noteq> None) = (case R of [] \<Rightarrow> False | q # _ \<Rightarrow> key_at (nodes s) q = key)"
    using sl_map_split [OF s(3,4)] by (cases R) auto
  obtain upd where "descend (nodes s) key (skip_list_level s) (header s) (replicate (max_level s + 1) None) = Some (pred_at (nodes s) 0 (header s) L, upd)"
    "length upd = max_level s + 1" "\<forall>j\<le> skip_list_level s. upd ! j = Some (pred_at (nodes s) j (header s) L)"
    using descend_update [OF s(2) lv, of "header s" "replicate (max_level s + 1) None"] lv by auto
  then have "located key s L R upd"
    using s split_at_pred [OF s(2), of 0] has_key_split [OF s(2)] found unfolding located_def by simp
  then show thesis using that s(1) by blast
qed

text \<open>A node whose shape a step keeps.\<close>

lemma shape_node:
  assumes "sl_inv s xs" "q \<in> set (header s # xs)" "shape h q = shape (nodes s) q"
  shows "lvl h q = lvl (nodes s) q \<and> key_at h q = key_at (nodes s) q \<and> (\<exists>n. h q = Some n \<and> length (forward n) = Suc (node_level n))"
  using sl_inv_node [OF assms(1,2)] shape_facts [OF assms(3)] by (auto simp: lvl_def)

section \<open>Insertion keeps the list\<close>

lemma sl_map_cong:
  assumes "\<And>q. q \<in> set ps \<Longrightarrow> h q \<noteq> None \<and> shape h' q = shape h q"
  shows "sl_map h' ps = sl_map h ps"
proof -
  have "map (\<lambda>p. (key_at h' p, node_value (the (h' p)))) ps = map (\<lambda>p. (key_at h p, node_value (the (h p)))) ps"
    using assms shape_facts by (intro map_cong) fastforce+
  then show ?thesis unfolding sl_map_def by (rule arg_cong)
qed

lemma sl_map_insert:
  assumes "\<forall>q\<in>set L. key_at h q \<noteq> key_at h p"
  shows "sl_map h (L @ p # R) = (sl_map h (L @ R))(key_at h p \<mapsto> node_value (the (h p)))"
proof -
  have "map_of (map (\<lambda>p. (key_at h p, node_value (the (h p)))) L) (key_at h p) = None"
    using assms by (induction L) auto
  then show ?thesis by (auto simp: sl_map_def fun_eq_iff map_add_def split: option.splits)
qed

lemma pred_at_in: "pred_at h i p L \<in> set (p # L)"
  using last_in_set [of "p # filter (\<lambda>q. i \<le> lvl h q) L"] by (auto simp: pred_at_def)

lemma filled_update:
  assumes "sl_inv s (L @ R)" "rl \<le> max_level s"
    "length upd = max_level s + 1" "\<forall>j\<le> skip_list_level s. upd ! j = Some (pred_at (nodes s) j (header s) L)"
  shows "\<forall>i\<le>rl. (if skip_list_level s < rl then fill_update (skip_list_level s) rl (header s) upd else upd) ! i =
    Some (pred_at (nodes s) i (header s) L)"
proof (intro allI impI)
  fix i assume i: "i \<le> rl"
  have "pred_at (nodes s) i (header s) L = header s" if "skip_list_level s < i"
  proof -
    have "\<forall>q\<in>set L. lvl (nodes s) q < i" using assms(1) that unfolding sl_inv_def by (metis Un_iff le_less_trans set_append)
    then have "filter (\<lambda>q. i \<le> lvl (nodes s) q) L = []" by (auto simp: filter_empty_conv)
    then show ?thesis by (simp add: pred_at_def)
  qed
  moreover have "fill_update (skip_list_level s) rl (header s) upd ! i = (if skip_list_level s < i \<and> i < rl + 1 then Some (header s) else upd ! i)"
    using i assms(2,3) unfolding fill_update_def by (subst nth_map) (simp_all del: upt_Suc)
  ultimately show "(if skip_list_level s < rl then fill_update (skip_list_level s) rl (header s) upd else upd) ! i =
    Some (pred_at (nodes s) i (header s) L)"
    using i assms(4) by auto
qed

lemma linked_in_level:
  assumes split: "split_at (nodes s) key (max_level s) (header s) L R" and i: "i \<le> max_level s"
    and p: "p \<notin> set (header s # L @ R)" and dist: "distinct (header s # L @ R)"
    and h: "linked_in p (\<lambda>i. pred_at (nodes s) i (header s) L) {0..rl} ((nodes s)(p \<mapsto> create_node key val rl)) h"
  shows "linked_at h i (header s) (filter (\<lambda>q. i \<le> lvl (nodes s) q) L @ (if i \<le> rl then [p] else []) @ filter (\<lambda>q. i \<le> lvl (nodes s) q) R)"
proof -
  let ?h0 = "(nodes s)(p \<mapsto> create_node key val rl)"
  let ?A = "filter (\<lambda>q. i \<le> lvl (nodes s) q) L" let ?B = "filter (\<lambda>q. i \<le> lvl (nodes s) q) R"
  have l: "linked_at (nodes s) i (header s) (?A @ ?B)" using split i unfolding split_at_def by simp
  have u: "pred_at (nodes s) i (header s) L \<noteq> p" using pred_at_in [of "nodes s" i "header s" L] p by auto
  have fw: "get_forward ?h0 q = get_forward (nodes s) q" if "q \<noteq> p" for q using that by (simp add: get_forward_def fun_eq_iff)
  show ?thesis
  proof (cases "i \<le> rl")
    case True
    have "linked_at h i (header s) (?A @ p # ?B)"
    proof (rule linked_at_insert [OF l])
      show "distinct (header s # ?A @ ?B)" using dist by auto
      show "p \<notin> set (header s # ?A @ ?B)" using p by auto
    qed (use h True fw u p in \<open>auto simp: linked_in_def pred_at_def\<close>)
    then show ?thesis using True by simp
  next
    case False
    have "linked_at h i (header s) (?A @ ?B) = linked_at (nodes s) i (header s) (?A @ ?B)"
    proof (rule linked_at_cong)
      fix q assume "q \<in> set (header s # ?A @ ?B)"
      then have "q \<noteq> p" using p by auto
      then show "get_forward h q i = get_forward (nodes s) q i" using h False fw [of q] by (simp add: linked_in_def)
    qed
    then show ?thesis using False l by simp
  qed
qed

lemma linked_in_inv:
  assumes inv: "sl_inv s (L @ R)" and split: "split_at (nodes s) key (max_level s) (header s) L R"
    and p: "nodes s p = None" and keys: "\<forall>q\<in>set (L @ R). key_at (nodes s) q \<noteq> key" and rl: "rl \<le> max_level s"
    and h: "linked_in p (\<lambda>i. pred_at (nodes s) i (header s) L) {0..rl} ((nodes s)(p \<mapsto> create_node key val rl)) h"
  shows "sl_inv (s\<lparr>nodes := h, skip_list_level := max (skip_list_level s) rl, element_count := element_count s + 1\<rparr>) (L @ p # R)"
    "sl_map h (L @ p # R) = (sl_map (nodes s) (L @ R))(key \<mapsto> val)"
proof -
  let ?h0 = "(nodes s)(p \<mapsto> create_node key val rl)"
  have p': "p \<notin> set (header s # L @ R)" using sl_inv_alloc [OF inv] p by metis
  have sh: "shape h q = shape (nodes s) q" if "q \<noteq> p" for q using h that by (simp add: linked_in_def shape_def)
  have "shape h p = Some (key, val, rl, rl + 1)" using h by (simp add: linked_in_def shape_def create_node_def)
  then obtain n where n: "h p = Some n" "node_key n = key" "node_value n = val" "node_level n = rl" "length (forward n) = rl + 1"
    by (auto simp: shape_def)
  have old: "lvl h q = lvl (nodes s) q \<and> key_at h q = key_at (nodes s) q \<and> (\<exists>n. h q = Some n \<and> length (forward n) = Suc (node_level n))"
    if "q \<in> set (header s # L @ R)" for q
    using shape_node [OF inv that sh] that p' by auto
  have lvls: "filter (\<lambda>q. i \<le> lvl h q) xs = filter (\<lambda>q. i \<le> lvl (nodes s) q) xs" if "set xs \<subseteq> set (L @ R)" for i xs
    using that old by (intro filter_cong) auto
  have "linked_at h i (header s) (filter (\<lambda>q. i \<le> lvl h q) (L @ p # R))" if i: "i \<le> max_level s" for i
    using linked_in_level [OF split i p' _ h] inv lvls [of L] lvls [of R] n by (auto simp: lvl_def sl_inv_def)
  moreover have "sorted_wrt (\<lambda>p q. key_at h p < key_at h q) (L @ p # R)"
  proof -
    have "key_at h p = key" using n by (simp add: key_at_def)
    moreover have "\<forall>q\<in>set L. key_at h q < key" "\<forall>q\<in>set R. key < key_at h q"
      using split keys old unfolding split_at_def by (auto simp: less_le not_less)
    moreover have "sorted_wrt (\<lambda>p q. key_at h p < key_at h q) (L @ R)"
      by (rule sorted_wrt_mono_rel [of "L @ R" "\<lambda>p q. key_at (nodes s) p < key_at (nodes s) q"]) (use old inv in \<open>auto simp: sl_inv_def\<close>)
    ultimately show ?thesis by (auto simp: sorted_wrt_append)
  qed
  ultimately show "sl_inv (s\<lparr>nodes := h, skip_list_level := max (skip_list_level s) rl, element_count := element_count s + 1\<rparr>) (L @ p # R)"
    using inv old p' n rl unfolding sl_inv_def by (auto simp: lvl_def le_max_iff_disj)
  have "sl_map h (L @ p # R) = (sl_map h (L @ R))(key \<mapsto> val)"
    using sl_map_insert [of L h p R] keys old n by (auto simp: key_at_def)
  also have "sl_map h (L @ R) = sl_map (nodes s) (L @ R)"
  proof (rule sl_map_cong)
    fix q assume "q \<in> set (L @ R)"
    then have "q \<noteq> p" "nodes s q \<noteq> None" using p' sl_inv_alloc [OF inv, of q] by auto
    then show "nodes s q \<noteq> None \<and> shape h q = shape (nodes s) q" using sh by blast
  qed
  finally show "sl_map h (L @ p # R) = (sl_map (nodes s) (L @ R))(key \<mapsto> val)" .
qed

lemma insert_linkable:
  assumes "sl_inv s (L @ R)" "located key s L R upd" "nodes s p = None" "rl \<le> max_level s" "i \<le> rl"
  shows "linkable p (if skip_list_level s < rl then fill_update (skip_list_level s) rl (header s) upd else upd)
    (\<lambda>i. pred_at (nodes s) i (header s) L) i ((nodes s)(p \<mapsto> create_node key val rl))"
proof -
  let ?u = "\<lambda>i. pred_at (nodes s) i (header s) L" let ?h0 = "(nodes s)(p \<mapsto> create_node key val rl)"
  have ne: "?u i \<noteq> p" using pred_at_in [of "nodes s" i "header s" L] sl_inv_alloc [OF assms(1), of "?u i"] assms(3) by auto
  have "get_forward (nodes s) (?u i) i \<noteq> None" using assms(2,4,5) split_at_pred [of "nodes s" key "max_level s" "header s" L R i]
    by (simp add: located_def)
  then have "get_forward ?h0 (?u i) i \<noteq> None" using ne by (simp add: get_forward_def)
  moreover have "get_forward ?h0 p i \<noteq> None" using assms(5) by (simp add: get_forward_def create_node_def)
  ultimately show ?thesis
    using filled_update [OF assms(1,4), of upd] assms(2,4,5) ne unfolding linkable_def located_def by (simp add: fill_update_def)
qed

lemma insert_links:
  assumes "sl_inv s (L @ R)" "located key s L R upd" "nodes s p = None" "rl \<le> max_level s"
  defines "upd' \<equiv> if skip_list_level s < rl then fill_update (skip_list_level s) rl (header s) upd else upd"
  shows "\<exists>h1 h2. link_level0 p upd' ((nodes s)(p \<mapsto> create_node key val rl)) = Some h1 \<and> link_levels p upd' [1..<rl + 1] h1 = Some h2 \<and>
    linked_in p (\<lambda>i. pred_at (nodes s) i (header s) L) {0..rl} ((nodes s)(p \<mapsto> create_node key val rl)) h2"
proof -
  let ?u = "\<lambda>i. pred_at (nodes s) i (header s) L" let ?h0 = "(nodes s)(p \<mapsto> create_node key val rl)"
  have lk: "linkable p upd' ?u i ?h0" if "i \<le> rl" for i using insert_linkable [OF assms(1-4) that] by (simp add: upd'_def)
  obtain h1 where h1: "link_level0 p upd' ?h0 = Some h1" "linked_in p ?u {0} ?h0 h1" using link_level0_effect [OF lk [of 0]] by auto
  have "\<forall>i\<in>set [1..<rl + 1]. linkable p upd' ?u i h1" using linked_in_keeps [OF h1(2) lk] by auto
  then obtain h2 where h2: "link_levels p upd' [1..<rl + 1] h1 = Some h2" "linked_in p ?u (set [1..<rl + 1]) h1 h2"
    using link_levels_effect by (metis distinct_upt)
  have "insert 0 (set [1..<rl + 1]) = {0..rl}" by auto
  then show ?thesis using h1(1) h2(1) linked_in_trans [OF h1(2) h2(2)] by simp
qed

lemma insert_element_ok:
  assumes "sl_inv s xs" "nodes s p = None" "rand_loop 1 rs \<noteq> None"
  shows "if sl_map (nodes s) xs key \<noteq> None then insert_element p rs key val s = Some (1, s)
    else \<exists>s' xs'. insert_element p rs key val s = Some (0, s') \<and> sl_inv s' xs' \<and>
      sl_map (nodes s') xs' = (sl_map (nodes s) xs)(key \<mapsto> val) \<and> set xs' = insert p (set xs) \<and> dom (nodes s') = insert p (dom (nodes s))"
proof -
  obtain L R upd where s: "xs = L @ R" "located key s L R upd" using locate [OF assms(1)] .
  note inv = assms(1) [unfolded s(1)]
  show ?thesis
  proof (cases "sl_map (nodes s) xs key \<noteq> None")
    case True
    then show ?thesis using s by (simp add: insert_element_def located_def)
  next
    case False
    obtain rl where rl: "get_random_level rs s = Some rl" "rl \<le> max_level s" using assms(3) by (auto simp: get_random_level_def)
    let ?upd = "if skip_list_level s < rl then fill_update (skip_list_level s) rl (header s) upd else upd"
    let ?h0 = "(nodes s)(p \<mapsto> create_node key val rl)"
    obtain h1 h2 where h: "link_level0 p ?upd ?h0 = Some h1" "link_levels p ?upd [1..<rl + 1] h1 = Some h2"
      "linked_in p (\<lambda>i. pred_at (nodes s) i (header s) L) {0..rl} ?h0 h2"
      using insert_links [OF inv s(2) assms(2) rl(2), of val] by blast
    have ins: "insert_element p rs key val s =
        Some (0, s\<lparr>nodes := h2, skip_list_level := max (skip_list_level s) rl, element_count := element_count s + 1\<rparr>)"
      using False s rl(1) h(1,2) by (simp add: insert_element_def located_def Let_def)
    have keys: "\<forall>q\<in>set (L @ R). key_at (nodes s) q \<noteq> key" using s False by (cases R) (auto simp: located_def)
    have "(h2 q = None) = (?h0 q = None)" for q using h(3) shape_facts(1) [of h2 q ?h0] by (simp add: linked_in_def)
    then have "dom h2 = insert p (dom (nodes s))" by (auto simp: dom_def)
    then show ?thesis
      using ins linked_in_inv [OF inv _ assms(2) keys rl(2) h(3)] s False by (auto simp: located_def)
  qed
qed

section \<open>Deletion keeps the list\<close>

definition unlinked :: "ptr \<Rightarrow> (nat \<Rightarrow> ptr) \<Rightarrow> nat set \<Rightarrow> ('k, 'v) node_heap \<Rightarrow> ('k, 'v) node_heap \<Rightarrow> bool" where
  "unlinked c u is h h' \<longleftrightarrow> shape h' = shape h \<and>
     get_forward h' = (\<lambda>x j. if j \<in> is \<and> x = u j then get_forward h c j else get_forward h x j)"

definition unlinkable :: "ptr \<Rightarrow> ptr option list \<Rightarrow> (nat \<Rightarrow> ptr) \<Rightarrow> nat \<Rightarrow> nat \<Rightarrow> ('k, 'v) node_heap \<Rightarrow> bool" where
  "unlinkable c upd u m i h \<longleftrightarrow> i < length upd \<and> upd ! i = Some (u i) \<and> u i \<noteq> c \<and> get_forward h (u i) i \<noteq> None \<and>
     (if i \<le> m then get_forward h (u i) i = Some (Some c) \<and> get_forward h c i \<noteq> None else get_forward h (u i) i \<noteq> Some (Some c))"

lemma unlink_levels_effect:
  assumes "\<forall>i\<in>set is. unlinkable c upd u m i h" "sorted_wrt (<) is"
  shows "\<exists>h'. unlink_levels c upd is h = Some h' \<and> unlinked c u {i \<in> set is. i \<le> m} h h'"
  using assms
proof (induction "is" arbitrary: h)
  case Nil
  then show ?case by (simp add: unlinked_def)
next
  case (Cons i "is")
  have i: "unlinkable c upd u m i h" using Cons.prems by simp
  show ?case
  proof (cases "i \<le> m")
    case False
    then have e: "{j \<in> set (i # is). j \<le> m} = {}" using Cons.prems(2) by auto
    have "unlink_levels c upd (i # is) h = Some h" using i False by (auto simp: unlinkable_def)
    then show ?thesis unfolding e by (simp add: unlinked_def)
  next
    case True
    then obtain r where r: "get_forward h c i = Some r" "get_forward h (u i) i = Some (Some c)" using i by (auto simp: unlinkable_def)
    obtain h1 where h1: "set_forward (u i) i r h = Some h1" "shape h1 = shape h"
      "get_forward h1 = (\<lambda>x j. if j = i \<and> x = u i then Some r else get_forward h x j)"
      using set_forward_effect [of h "u i" i r] i by (auto simp: unlinkable_def)
    have "\<forall>j\<in>set is. unlinkable c upd u m j h1" using Cons.prems h1(3) by (auto simp: unlinkable_def)
    then obtain h2 where h2: "unlink_levels c upd is h1 = Some h2" "unlinked c u {j \<in> set is. j \<le> m} h1 h2"
      using Cons.IH [of h1] Cons.prems(2) by auto
    have "unlink_levels c upd (i # is) h = Some h2" using i r h1(1) h2(1) by (simp add: unlinkable_def)
    moreover have "unlinked c u {j \<in> set (i # is). j \<le> m} h h2"
      using h1(2,3) h2(2) r True Cons.prems(2) i by (auto simp: unlinked_def unlinkable_def fun_eq_iff)
    ultimately show ?thesis by blast
  qed
qed

lemma linked_at_remove:
  assumes "linked_at h i p (as @ c # bs)" "distinct (p # as @ c # bs)"
    "get_forward h' (last (p # as)) i = get_forward h c i"
    "\<And>q. q \<in> set (p # as @ bs) \<Longrightarrow> q \<noteq> last (p # as) \<Longrightarrow> get_forward h' q i = get_forward h q i"
  shows "linked_at h' i p (as @ bs)"
  using assms
proof (induction as arbitrary: p)
  case Nil
  show ?case
  proof (cases bs)
    case (Cons b bs')
    then have "linked_at h' i b bs'" using Nil linked_at_cong [of b bs' h' i h] by auto
    then show ?thesis using Nil Cons by simp
  qed (use Nil in simp)
next
  case (Cons a as)
  have "p \<noteq> last (a # as)" using Cons.prems(2) last_in_set [of "a # as"] by auto
  then have "get_forward h' p i = Some (Some a)" using Cons.prems(1) Cons.prems(4) [of p] by auto
  moreover have "linked_at h' i a (as @ bs)"
    using Cons.prems by (intro Cons.IH) auto
  ultimately show ?case by simp
qed

lemma drop_levels_empty:
  assumes "\<forall>j\<le>k. get_forward h p j \<noteq> None"
  shows "\<exists>k'\<le>k. drop_levels h p k = Some k' \<and> (\<forall>j. k' < j \<longrightarrow> j \<le> k \<longrightarrow> get_forward h p j = Some None)"
  using assms
proof (induction k)
  case (Suc k)
  obtain q where q: "get_forward h p (Suc k) = Some q" using Suc.prems by auto
  show ?case
  proof (cases q)
    case None
    obtain k' where "k' \<le> k" "drop_levels h p k = Some k'" "\<forall>j. k' < j \<longrightarrow> j \<le> k \<longrightarrow> get_forward h p j = Some None"
      using Suc by auto
    then show ?thesis using q None by (intro exI [of _ k']) (auto simp: le_Suc_eq)
  qed (use q in auto)
qed simp

lemma linked_at_Nil: "linked_at h i p ps \<Longrightarrow> get_forward h p i = Some None \<Longrightarrow> ps = []"
  by (cases ps) auto

lemma unlinked_level:
  assumes split: "split_at (nodes s) key (max_level s) (header s) L (c # R)" and i: "i \<le> max_level s"
    and dist: "distinct (header s # L @ c # R)"
    and h: "unlinked c (\<lambda>i. pred_at (nodes s) i (header s) L) {0..lvl (nodes s) c} (nodes s) h1"
    and fw: "\<And>q. q \<noteq> c \<Longrightarrow> get_forward h q = get_forward h1 q"
  shows "linked_at h i (header s) (filter (\<lambda>q. i \<le> lvl (nodes s) q) (L @ R))"
proof -
  let ?A = "filter (\<lambda>q. i \<le> lvl (nodes s) q) L" let ?B = "filter (\<lambda>q. i \<le> lvl (nodes s) q) R"
  have l: "linked_at (nodes s) i (header s) (?A @ (if i \<le> lvl (nodes s) c then [c] else []) @ ?B)"
    using split i unfolding split_at_def by (auto simp: filter_append dest!: spec [of _ i])
  have g: "get_forward h q i = (if i \<le> lvl (nodes s) c \<and> q = pred_at (nodes s) i (header s) L then get_forward (nodes s) c i else get_forward (nodes s) q i)"
    if "q \<in> set (header s # L @ R)" for q
  proof -
    have "q \<noteq> c" using that dist by auto
    from fw [OF this] show ?thesis using h by (simp add: unlinked_def)
  qed
  show ?thesis
  proof (cases "i \<le> lvl (nodes s) c")
    case True
    have "linked_at h i (header s) (?A @ ?B)"
    proof (rule linked_at_remove [of "nodes s" i "header s" ?A c ?B])
      show "linked_at (nodes s) i (header s) (?A @ c # ?B)" using l True by simp
      show "distinct (header s # ?A @ c # ?B)" using dist by auto
      show "get_forward h (last (header s # ?A)) i = get_forward (nodes s) c i"
        using g [of "pred_at (nodes s) i (header s) L"] True pred_at_in [of "nodes s" i "header s" L] by (auto simp: pred_at_def)
      fix q assume "q \<in> set (header s # ?A @ ?B)" "q \<noteq> last (header s # ?A)"
      then show "get_forward h q i = get_forward (nodes s) q i" using g [of q] by (auto simp: pred_at_def)
    qed
    then show ?thesis by simp
  next
    case False
    have "linked_at h i (header s) (?A @ ?B) = linked_at (nodes s) i (header s) (?A @ ?B)"
    proof (rule linked_at_cong)
      fix q assume "q \<in> set (header s # ?A @ ?B)"
      then show "get_forward h q i = get_forward (nodes s) q i" using g [of q] False by auto
    qed
    then show ?thesis using l False by simp
  qed
qed

text \<open>The heap after a deletion: \<open>c\<close> is unlinked on its levels and freed.\<close>

lemma unlinked_inv:
  assumes inv: "sl_inv s (L @ c # R)" and split: "split_at (nodes s) key (max_level s) (header s) L (c # R)"
    and h: "unlinked c (\<lambda>i. pred_at (nodes s) i (header s) L) {0..lvl (nodes s) c} (nodes s) h1"
    and h2: "shape h2 = shape h1" "get_forward h2 = get_forward h1"
    and level: "k \<le> skip_list_level s" "\<forall>j. k < j \<longrightarrow> j \<le> skip_list_level s \<longrightarrow> get_forward h1 (header s) j = Some None"
  shows "sl_inv (s\<lparr>nodes := h2(c := None), skip_list_level := k, element_count := element_count s - 1\<rparr>) (L @ R)"
    "sl_map (h2(c := None)) (L @ R) = sl_map (nodes s) (L @ R)"
proof -
  let ?h = "h2(c := None)"
  have c: "c \<notin> set (header s # L @ R)" "distinct (header s # L @ R)" using inv by (auto simp: sl_inv_def)
  have sh: "shape ?h q = shape (nodes s) q" if "q \<noteq> c" for q using h h2(1) that unfolding unlinked_def shape_def fun_eq_iff by auto
  have old: "lvl ?h q = lvl (nodes s) q \<and> key_at ?h q = key_at (nodes s) q \<and> (\<exists>n. ?h q = Some n \<and> length (forward n) = Suc (node_level n))"
    if q: "q \<in> set (header s # L @ R)" for q
    using shape_node [OF inv _ sh, of q] q c(1) by auto
  have fw: "get_forward ?h q = get_forward h1 q" if "q \<noteq> c" for q using that h2(2) by (auto simp: get_forward_def fun_eq_iff)
  have lvls: "filter (\<lambda>q. i \<le> lvl ?h q) xs = filter (\<lambda>q. i \<le> lvl (nodes s) q) xs" if "set xs \<subseteq> set (L @ R)" for i xs
    using that old by (intro filter_cong) auto
  have link: "linked_at ?h i (header s) (filter (\<lambda>q. i \<le> lvl ?h q) (L @ R))" if i: "i \<le> max_level s" for i
    using unlinked_level [OF split i _ h fw] inv lvls [of "L @ R"] by (simp add: sl_inv_def)
  have lv: "skip_list_level s \<le> max_level s" "\<forall>q\<in>set (L @ c # R). lvl (nodes s) q \<le> skip_list_level s" using inv by (auto simp: sl_inv_def)
  have below: "lvl ?h q \<le> k" if q: "q \<in> set (L @ R)" for q
  proof (rule ccontr)
    assume "\<not> lvl ?h q \<le> k"
    then have j: "k < lvl ?h q" "lvl ?h q \<le> skip_list_level s" using old [of q] lv(2) q by auto
    then have "get_forward ?h (header s) (lvl ?h q) = Some None" using level(2) fw [of "header s"] c(1) by simp
    then have "filter (\<lambda>x. lvl ?h q \<le> lvl ?h x) (L @ R) = []" using linked_at_Nil [OF link] j(2) lv(1) by simp
    then show False using q by (auto simp: filter_empty_conv)
  qed
  have "sorted_wrt (\<lambda>p q. key_at ?h p < key_at ?h q) (L @ R)"
    by (rule sorted_wrt_mono_rel [of "L @ R" "\<lambda>p q. key_at (nodes s) p < key_at (nodes s) q"])
      (use old inv in \<open>auto simp: sl_inv_def sorted_wrt_append\<close>)
  then show "sl_inv (s\<lparr>nodes := ?h, skip_list_level := k, element_count := element_count s - 1\<rparr>) (L @ R)"
    using inv old c(2) link below level(1) lv(1) unfolding sl_inv_def by auto
  show "sl_map ?h (L @ R) = sl_map (nodes s) (L @ R)"
  proof (rule sl_map_cong)
    fix q assume "q \<in> set (L @ R)"
    then have "q \<noteq> c" "nodes s q \<noteq> None" using c(1) sl_inv_alloc [OF inv, of q] by auto
    then show "nodes s q \<noteq> None \<and> shape ?h q = shape (nodes s) q" using sh by blast
  qed
qed

lemma sl_map_remove:
  assumes "\<forall>q\<in>set (L @ R). key_at h q \<noteq> key_at h c"
  shows "sl_map h (L @ R) = (sl_map h (L @ c # R))(key_at h c := None)"
proof -
  have "map_of (map (\<lambda>p. (key_at h p, node_value (the (h p)))) ps) (key_at h c) = None" if "set ps \<subseteq> set (L @ R)" for ps
    using that assms by (induction ps) auto
  from this [of L] this [of R] show ?thesis by (auto simp: sl_map_def fun_eq_iff map_add_def split: option.splits)
qed

lemma delete_unlinkable:
  assumes "sl_inv s (L @ c # R)" "located key s L (c # R) upd" "i \<le> skip_list_level s"
  shows "unlinkable c upd (\<lambda>i. pred_at (nodes s) i (header s) L) (lvl (nodes s) c) i (nodes s)"
proof -
  let ?u = "\<lambda>i. pred_at (nodes s) i (header s) L" let ?F = "filter (\<lambda>q. i \<le> lvl (nodes s) q) (c # R)"
  have lv: "skip_list_level s \<le> max_level s" "distinct (header s # L @ c # R)" using assms(1) by (simp_all add: sl_inv_def)
  have fwd: "get_forward (nodes s) (?u i) i = Some (case ?F of [] \<Rightarrow> None | q # _ \<Rightarrow> Some q)"
    using assms(2,3) lv(1) split_at_pred [of "nodes s" key "max_level s" "header s" L "c # R" i] by (simp add: located_def)
  have "?u i \<noteq> c" using pred_at_in [of "nodes s" i "header s" L] lv(2) by auto
  moreover have "get_forward (nodes s) c i \<noteq> None" if "i \<le> lvl (nodes s) c"
    using sl_inv_node [OF assms(1), of c] that by (auto simp: get_forward_def lvl_def)
  moreover have "get_forward (nodes s) (?u i) i \<noteq> Some (Some c)" if "\<not> i \<le> lvl (nodes s) c"
  proof -
    have "c \<notin> set ?F" using that by simp
    then show ?thesis using fwd by (cases ?F) auto
  qed
  ultimately show ?thesis using fwd assms(2,3) lv(1) by (auto simp: unlinkable_def located_def)
qed

text \<open>What \<open>delete_element\<close> has done when it reads \<open>next\<close>.\<close>

lemma delete_unlinks:
  assumes inv: "sl_inv s (L @ c # R)" and loc: "located key s L (c # R) upd"
  shows "\<exists>h n k. unlink_levels c upd [0..<skip_list_level s + 1] (nodes s) = Some h \<and>
    unlinked c (\<lambda>i. pred_at (nodes s) i (header s) L) {0..lvl (nodes s) c} (nodes s) h \<and>
    k \<le> skip_list_level s \<and> drop_levels h (header s) (skip_list_level s) = Some k \<and>
    (\<forall>j. k < j \<longrightarrow> j \<le> skip_list_level s \<longrightarrow> get_forward h (header s) j = Some None) \<and>
    get_forward h c 0 = Some (case R of [] \<Rightarrow> None | q # _ \<Rightarrow> Some q) \<and> h c = Some n"
proof -
  let ?u = "\<lambda>i. pred_at (nodes s) i (header s) L" let ?m = "lvl (nodes s) c"
  have lv: "skip_list_level s \<le> max_level s" "?m \<le> skip_list_level s" "distinct (header s # L @ c # R)" "lvl (nodes s) (header s) = max_level s"
    using inv by (simp_all add: sl_inv_def)
  have "\<forall>i\<in>set [0..<skip_list_level s + 1]. unlinkable c upd ?u ?m i (nodes s)"
    using delete_unlinkable [OF inv loc] by (simp del: upt_Suc)
  then obtain h where h: "unlink_levels c upd [0..<skip_list_level s + 1] (nodes s) = Some h"
    "unlinked c ?u {i \<in> set [0..<skip_list_level s + 1]. i \<le> ?m} (nodes s) h"
    using unlink_levels_effect sorted_wrt_upt by blast
  have "{i \<in> set [0..<skip_list_level s + 1]. i \<le> ?m} = {0..?m}" using lv(2) by auto
  then have un: "unlinked c ?u {0..?m} (nodes s) h" using h(2) by simp
  have hdr: "get_forward h (header s) j \<noteq> None" if "j \<le> skip_list_level s" for j
  proof -
    have "\<exists>n. nodes s (header s) = Some n \<and> j < length (forward n)"
      using sl_inv_node [OF inv, of "header s"] that lv(1,4) by (auto simp: lvl_def)
    then have "\<exists>n. h (header s) = Some n \<and> j < length (forward n)"
      using un shape_facts(1,5) [of h "header s" "nodes s"] by (auto simp: unlinked_def)
    then show ?thesis by (simp only: get_forward_defined)
  qed
  then obtain k where k: "k \<le> skip_list_level s" "drop_levels h (header s) (skip_list_level s) = Some k"
    "\<forall>j. k < j \<longrightarrow> j \<le> skip_list_level s \<longrightarrow> get_forward h (header s) j = Some None"
    using drop_levels_empty [of "skip_list_level s" h "header s"] by blast
  have "linked_at (nodes s) 0 c R" using loc linked_at_suffix [of "nodes s" 0 "header s" L c R] by (auto simp: located_def split_at_def)
  then have nxt: "get_forward h c 0 = Some (case R of [] \<Rightarrow> None | q # _ \<Rightarrow> Some q)"
    using un linked_at_last [of "nodes s" 0 c "[]" R] pred_at_in [of "nodes s" 0 "header s" L] lv(3) by (auto simp: unlinked_def)
  obtain n where "h c = Some n"
    using un shape_facts(1) [of h c "nodes s"] sl_inv_alloc [OF inv, of c] by (auto simp: unlinked_def)
  then show ?thesis using h(1) un k nxt by blast
qed

text \<open>A key that is not the greatest is deleted.\<close>

lemma delete_inner:
  assumes inv: "sl_inv s (L @ c # r # R)" and loc: "located key s L (c # r # R) upd" and key: "key_at (nodes s) c = key"
  shows "\<exists>s' xs'. delete_element key s = Some s' \<and> sl_inv s' xs' \<and> sl_map (nodes s') xs' = (sl_map (nodes s) (L @ c # r # R))(key := None) \<and>
    dom (nodes s') \<subseteq> dom (nodes s)"
proof -
  obtain h1 n k where h: "unlink_levels c upd [0..<skip_list_level s + 1] (nodes s) = Some h1"
    "unlinked c (\<lambda>i. pred_at (nodes s) i (header s) L) {0..lvl (nodes s) c} (nodes s) h1"
    "k \<le> skip_list_level s" "drop_levels h1 (header s) (skip_list_level s) = Some k"
    "\<forall>j. k < j \<longrightarrow> j \<le> skip_list_level s \<longrightarrow> get_forward h1 (header s) j = Some None"
    "get_forward h1 c 0 = Some (Some r)" "h1 c = Some n"
    using delete_unlinks [OF inv loc] by (auto simp del: upt_Suc)
  have r: "r \<noteq> header s" "h1 r \<noteq> None"
    using inv h(2) shape_facts(1) [of h1 r "nodes s"] sl_inv_alloc [OF inv, of r] by (auto simp: unlinked_def sl_inv_def)
  then obtain h2 where h2: "set_prev r (prev_node n) h1 = Some h2" "shape h2 = shape h1" "get_forward h2 = get_forward h1"
    using set_prev_effect [of h1 r] by blast
  have del: "delete_element key s = Some (s\<lparr>nodes := h2(c := None), skip_list_level := k, element_count := element_count s - 1\<rparr>)"
    using loc key h(1,4,6,7) h2(1) r(1) by (simp add: delete_element_def located_def del: upt_Suc)
  have split: "split_at (nodes s) key (max_level s) (header s) L (c # r # R)" using loc by (simp add: located_def)
  note new = unlinked_inv [OF inv split h(2) h2(2,3) h(3,5)]
  have "sl_map (nodes s) (L @ r # R) = (sl_map (nodes s) (L @ c # r # R))(key := None)"
    using sl_map_remove [of L "r # R" "nodes s" c] loc key by (auto simp: located_def)
  moreover have "(h2 q = None) = (nodes s q = None)" for q using h(2) h2(2) shape_facts(1) [of h2 q "nodes s"] by (simp add: unlinked_def)
  then have "dom h2 = dom (nodes s)" unfolding dom_def by presburger
  ultimately show ?thesis using del new by auto
qed

text \<open>The greatest key is not: its successor is null.\<close>

lemma delete_last:
  assumes inv: "sl_inv s (L @ [c])" and loc: "located key s L [c] upd" and key: "key_at (nodes s) c = key"
  shows "delete_element key s = None"
proof -
  obtain h1 n k where "unlink_levels c upd [0..<skip_list_level s + 1] (nodes s) = Some h1"
    "drop_levels h1 (header s) (skip_list_level s) = Some k" "get_forward h1 c 0 = Some None" "h1 c = Some n"
    using delete_unlinks [OF inv loc] by (auto simp del: upt_Suc)
  then show ?thesis using loc key by (simp add: delete_element_def located_def del: upt_Suc)
qed

lemma delete_element_ok:
  assumes "sl_inv s xs"
  shows "if sl_map (nodes s) xs key = None then delete_element key s = Some s
    else if key = key_at (nodes s) (last xs) then delete_element key s = None
    else \<exists>s' xs'. delete_element key s = Some s' \<and> sl_inv s' xs' \<and> sl_map (nodes s') xs' = (sl_map (nodes s) xs)(key := None) \<and>
      dom (nodes s') \<subseteq> dom (nodes s)"
proof -
  obtain L R upd where s: "xs = L @ R" "located key s L R upd" using locate [OF assms] .
  note inv = assms [unfolded s(1)]
  show ?thesis
  proof (cases "sl_map (nodes s) xs key = None")
    case True
    then show ?thesis using s by (simp add: delete_element_def located_def)
  next
    case False
    then obtain c R' where R: "R = c # R'" "key_at (nodes s) c = key" using s by (cases R) (auto simp: located_def)
    show ?thesis
    proof (cases R')
      case Nil
      then show ?thesis using False delete_last [of s L c key upd] inv s R by simp
    next
      case (Cons r R'')
      have "last xs \<in> set R'" using s(1) R(1) Cons by simp
      then have "key \<noteq> key_at (nodes s) (last xs)" using s(2) R(1) by (auto simp: located_def)
      then show ?thesis using False delete_inner [of s L c r R'' key upd] inv s R Cons by auto
    qed
  qed
qed

section \<open>The list as a map\<close>

lemma new_SkipList_inv: "sl_inv (new_SkipList k0 v0 m) []" "sl_map (nodes (new_SkipList k0 v0 m)) [] = Map.empty"
  by (simp_all add: sl_inv_def new_SkipList_def lvl_def create_node_def get_forward_def sl_map_def del: replicate_Suc)

text \<open>
  A client of the list: an insertion comes with the results of \<open>rand\<close> it draws, and the new node gets the
  address \<open>n\<close>. What an operation returns is a value: the result of the insertion, or the value of the node
  the search returns.
\<close>

datatype ('k, 'v) sl_op = SlInsert "int list" 'k 'v | SlDelete 'k | SlSearch 'k

datatype 'v sl_result = SlCode int | SlDone | SlValue "'v option"

fun sl_exec :: "ptr \<Rightarrow> ('k :: linorder, 'v) sl_op \<Rightarrow> ('k, 'v) SkipList \<Rightarrow> ('v sl_result \<times> ('k, 'v) SkipList) option" where
  "sl_exec n (SlInsert rs k v) s = do { (r, s) \<leftarrow> insert_element n rs k v s; Some (SlCode r, s) }"
| "sl_exec n (SlDelete k) s = do { s \<leftarrow> delete_element k s; Some (SlDone, s) }"
| "sl_exec n (SlSearch k) s = do {
     r \<leftarrow> search_element k s;
     (case r of None \<Rightarrow> Some (SlValue None, s) | Some p \<Rightarrow> do { m \<leftarrow> nodes s p; Some (SlValue (Some (node_value m)), s) }) }"

fun sl_run :: "ptr \<Rightarrow> ('k :: linorder, 'v) sl_op list \<Rightarrow> ('k, 'v) SkipList \<Rightarrow> ('v sl_result list \<times> ('k, 'v) SkipList) option" where
  "sl_run n [] s = Some ([], s)"
| "sl_run n (op # ops) s = do { (r, s) \<leftarrow> sl_exec n op s; (rs, s) \<leftarrow> sl_run (Suc n) ops s; Some (r # rs, s) }"

text \<open>The specification on a map.\<close>

fun map_exec :: "('k, 'v) sl_op \<Rightarrow> ('k \<Rightarrow> 'v option) \<Rightarrow> 'v sl_result \<times> ('k \<Rightarrow> 'v option)" where
  "map_exec (SlInsert rs k v) m = (if m k \<noteq> None then (SlCode 1, m) else (SlCode 0, m(k \<mapsto> v)))"
| "map_exec (SlDelete k) m = (SlDone, m(k := None))"
| "map_exec (SlSearch k) m = (SlValue (m k), m)"

fun map_run :: "('k, 'v) sl_op list \<Rightarrow> ('k \<Rightarrow> 'v option) \<Rightarrow> 'v sl_result list \<times> ('k \<Rightarrow> 'v option)" where
  "map_run [] m = ([], m)"
| "map_run (op # ops) m = (let (r, m) = map_exec op m; (rs, m) = map_run ops m in (r # rs, m))"

text \<open>The draws of an insertion end, and no deletion removes the greatest key.\<close>

fun sl_legal :: "('k :: linorder, 'v) sl_op \<Rightarrow> ('k \<Rightarrow> 'v option) \<Rightarrow> bool" where
  "sl_legal (SlInsert rs k v) m = (\<exists>r\<in>set rs. r mod 2 = 0)"
| "sl_legal (SlDelete k) m = (m k = None \<or> (\<exists>k'>k. m k' \<noteq> None))"
| "sl_legal (SlSearch k) m = True"

fun sl_legals :: "('k :: linorder, 'v) sl_op list \<Rightarrow> ('k \<Rightarrow> 'v option) \<Rightarrow> bool" where
  "sl_legals [] m = True"
| "sl_legals (op # ops) m = (sl_legal op m \<and> sl_legals ops (snd (map_exec op m)))"

lemma rand_loop_ends: "(\<exists>r\<in>set rs. r mod 2 = 0) \<Longrightarrow> rand_loop k rs \<noteq> None"
proof (induction rs arbitrary: k)
  case (Cons r rs)
  then show ?case by (cases "r mod 2 = 0") simp_all
qed simp

text \<open>The last node has the greatest key.\<close>

lemma sl_map_last:
  assumes "sl_inv s xs" "sl_map (nodes s) xs k \<noteq> None"
  shows "k \<le> key_at (nodes s) (last xs)"
proof -
  obtain q where q: "q \<in> set xs" "k = key_at (nodes s) q"
    using assms(2) unfolding sl_map_def by (cases "k \<in> key_at (nodes s) ` set xs") (auto simp: map_of_eq_None_iff image_iff)
  then have "xs \<noteq> []" by auto
  then have "sorted_wrt (\<lambda>p q. key_at (nodes s) p < key_at (nodes s) q) (butlast xs @ [last xs])"
    using assms(1) by (simp add: sl_inv_def)
  moreover have "q \<in> set (butlast xs) \<or> q = last xs" using q(1) \<open>xs \<noteq> []\<close> by (metis in_set_butlast_appendI append_butlast_last_id insertE list.set(2) rotate1.simps(2) set_rotate1)
  ultimately show ?thesis using q(2) by (auto simp: sorted_wrt_append intro: less_imp_le)
qed

lemma sl_exec_refines:
  assumes "sl_inv s xs" "sl_legal op (sl_map (nodes s) xs)" "\<forall>p\<in>dom (nodes s). p < n"
  shows "\<exists>s' xs'. sl_exec n op s = Some (fst (map_exec op (sl_map (nodes s) xs)), s') \<and> sl_inv s' xs' \<and>
    sl_map (nodes s') xs' = snd (map_exec op (sl_map (nodes s) xs)) \<and> (\<forall>p\<in>dom (nodes s'). p < Suc n)"
proof (cases op)
  case (SlInsert rs k v)
  have "nodes s n = None" using assms(3) by (metis domIff less_irrefl)
  moreover have "rand_loop 1 rs \<noteq> None" using assms(2) SlInsert by (intro rand_loop_ends) simp
  ultimately show ?thesis using insert_element_ok [OF assms(1), of n rs k v] assms(1,3) SlInsert
    by (cases "sl_map (nodes s) xs k = None") (fastforce simp: less_Suc_eq)+
next
  case (SlDelete k)
  show ?thesis
  proof (cases "sl_map (nodes s) xs k = None")
    case True
    then have "sl_map (nodes s) xs = (sl_map (nodes s) xs)(k := None)" by (simp add: fun_upd_idem)
    then show ?thesis using delete_element_ok [OF assms(1), of k] True assms(1,3) SlDelete by (auto simp: less_Suc_eq)
  next
    case False
    then obtain k' where "k < k'" "sl_map (nodes s) xs k' \<noteq> None" using assms(2) SlDelete by auto
    then have "k \<noteq> key_at (nodes s) (last xs)" using sl_map_last [OF assms(1)] by (metis leD)
    then obtain s' xs' where "delete_element k s = Some s'" "sl_inv s' xs'" "sl_map (nodes s') xs' = (sl_map (nodes s) xs)(k := None)"
      "dom (nodes s') \<subseteq> dom (nodes s)"
      using delete_element_ok [OF assms(1), of k] False by auto
    then show ?thesis using assms(3) SlDelete by (intro exI [of _ s'] exI [of _ xs']) (auto simp: less_Suc_eq)
  qed
next
  case (SlSearch k)
  have "sl_exec n op s = Some (SlValue (sl_map (nodes s) xs k), s)"
    using search_element_finds [OF assms(1), of k] SlSearch by (auto split: option.splits)
  then show ?thesis using assms(1,3) SlSearch by (intro exI [of _ s] exI [of _ xs]) (auto simp: less_Suc_eq)
qed

lemma sl_run_refines:
  assumes "sl_inv s xs" "sl_legals ops (sl_map (nodes s) xs)" "\<forall>p\<in>dom (nodes s). p < n"
  shows "\<exists>s' xs'. sl_run n ops s = Some (fst (map_run ops (sl_map (nodes s) xs)), s') \<and> sl_inv s' xs' \<and>
    sl_map (nodes s') xs' = snd (map_run ops (sl_map (nodes s) xs))"
  using assms
proof (induction ops arbitrary: n s xs)
  case Nil
  then show ?case by auto
next
  case (Cons op ops)
  obtain s1 xs1 where s1: "sl_exec n op s = Some (fst (map_exec op (sl_map (nodes s) xs)), s1)" "sl_inv s1 xs1"
    "sl_map (nodes s1) xs1 = snd (map_exec op (sl_map (nodes s) xs))" "\<forall>p\<in>dom (nodes s1). p < Suc n"
    using sl_exec_refines [of s xs op n] Cons.prems by auto
  obtain s2 xs2 where "sl_run (Suc n) ops s1 = Some (fst (map_run ops (sl_map (nodes s1) xs1)), s2)" "sl_inv s2 xs2"
    "sl_map (nodes s2) xs2 = snd (map_run ops (sl_map (nodes s1) xs1))"
    using Cons.IH [OF s1(2) _ s1(4)] Cons.prems(2) s1(3) by auto
  then show ?case using s1 by (intro exI [of _ s2] exI [of _ xs2]) (auto simp: Let_def split: prod.splits)
qed

text \<open>
  C35. From the constructor on, every sequence of insertions, deletions and searches, with whatever levels
  \<open>rand\<close> gives, returns what the same operations return on a map, as long as the greatest key is not
  deleted: an insertion of a new key returns 0 and of a known key 1 without a change, a search returns
  the node with the value inserted, and no null or freed pointer is followed.
\<close>

theorem skip_list_refines_map:
  assumes "sl_legals ops Map.empty"
  shows "\<exists>s xs. sl_run 1 ops (new_SkipList k0 v0 m) = Some (fst (map_run ops Map.empty), s) \<and> sl_inv s xs \<and>
    sl_map (nodes s) xs = snd (map_run ops Map.empty)"
  using sl_run_refines [of "new_SkipList k0 v0 m" "[]" ops 1] assms new_SkipList_inv [of k0 v0 m]
  by (simp add: new_SkipList_def)

definition demo_ops :: "(int, string) sl_op list" where
  "demo_ops = [SlInsert [1, 3, 2] 10 ''a'', SlInsert [0] 5 ''b'', SlInsert [1, 2] 7 ''c'', SlInsert [4] 7 ''d'', SlDelete 5, SlSearch 7, SlSearch 5]"

theorem skip_list_refines_map_witness:
  "\<exists>s xs. sl_run 1 demo_ops (new_SkipList 0 [] 3) =
     Some ([SlCode 0, SlCode 0, SlCode 0, SlCode 1, SlDone, SlValue (Some ''c''), SlValue None], s) \<and> sl_inv s xs"
proof -
  have "sl_legals demo_ops Map.empty" by (auto simp: demo_ops_def)
  from skip_list_refines_map [OF this, of 0 "[]" 3] show ?thesis by (auto simp: demo_ops_def)
qed

text \<open>
  C36. Deleting the greatest key of a list always crashes: the successor of its node is null, which
  \<open>delete_element\<close> compares with the header only, and then writes its \<open>prev\<close>.
\<close>

theorem delete_greatest_crashes:
  assumes "sl_inv s xs" "xs \<noteq> []" "key = key_at (nodes s) (last xs)"
  shows "delete_element key s = None"
proof -
  have "key \<in> key_at (nodes s) ` set xs" using assms(2,3) by simp
  then have found: "sl_map (nodes s) xs key \<noteq> None" by (auto simp: sl_map_def map_of_eq_None_iff image_iff)
  from delete_element_ok [OF assms(1), of key] show ?thesis unfolding if_not_P [OF found] if_P [OF assms(3)] .
qed

definition demo_list :: "(int, string) SkipList" where
  "demo_list = \<lparr>max_level = 1, skip_list_level = 1, header = 0, element_count = 1,
     nodes = [0 \<mapsto> \<lparr>node_key = 0, node_value = [], node_level = 1, forward = [Some 1, Some 1], prev_node = None\<rparr>,
              1 \<mapsto> \<lparr>node_key = 5, node_value = ''a'', node_level = 1, forward = [None, None], prev_node = Some 0\<rparr>]\<rparr>"

lemma demo_list_inv: "sl_inv demo_list [1]"
  by (auto simp: sl_inv_def demo_list_def lvl_def get_forward_def le_Suc_eq)

theorem delete_greatest_crashes_witness: "delete_element 5 demo_list = None"
  by (rule delete_greatest_crashes [OF demo_list_inv]) (simp_all add: demo_list_def key_at_def)

text \<open>
  The backward links are wrong as soon as a node is inserted before another: the \<open>prev\<close> of the successor
  still skips the new node, and the predecessor, here the header, gets the new node as its \<open>prev\<close>.
\<close>

lemma insert_prev_wrong:
  "\<exists>s h n. insert_element 2 [0] 3 ''b'' demo_list = Some (0, s) \<and> nodes s 0 = Some h \<and> prev_node h = Some 2 \<and>
     nodes s 1 = Some n \<and> prev_node n = Some 0 \<and> get_forward (nodes s) 2 0 = Some (Some 1)"
  by (simp add: insert_element_def demo_list_def descend.simps walk.simps get_forward_def has_key_def get_random_level_def
      link_level0_def link_level_def set_forward_def set_prev_def create_node_def Let_def)

text \<open>A line of the dump is read back, unless the key has a colon.\<close>

lemma dump_line_read:
  "CHR '':'' \<notin> set key \<Longrightarrow> get_key_value_from_string (dump_line key val) kv = (key, val)"
proof -
  assume "CHR '':'' \<notin> set key"
  then have "\<And>c. c \<in> set key \<Longrightarrow> c \<noteq> CHR '':''" by blast
  then show ?thesis by (simp add: get_key_value_from_string_def dump_line_def is_valid_string_def takeWhile_append2 dropWhile_append2)
qed

text \<open>The dump has the keys and values in order, and the destructor frees every node once.\<close>

lemma dump_nodes_all:
  "linked_at h 0 p ps \<Longrightarrow> \<forall>q\<in>set ps. h q \<noteq> None \<Longrightarrow>
    \<exists>f. get_forward h p 0 = Some f \<and> dump_nodes h f = Some (map (\<lambda>q. (key_at h q, node_value (the (h q)))) ps)"
proof (induction ps arbitrary: p)
  case Nil
  then show ?case by (simp add: dump_nodes.simps [of h None])
next
  case (Cons q ps)
  then obtain n where "h q = Some n" by auto
  moreover obtain f where "get_forward h q 0 = Some f" "dump_nodes h f = Some (map (\<lambda>q. (key_at h q, node_value (the (h q)))) ps)"
    using Cons.IH [of q] Cons.prems by auto
  ultimately show ?case using Cons.prems by (simp add: dump_nodes.simps [of h "Some q"] key_at_def)
qed

lemma dump_file_sorted:
  assumes "sl_inv s xs"
  shows "\<exists>kvs. dump_file s = Some kvs \<and> sorted_wrt (<) (map fst kvs) \<and> map_of kvs = sl_map (nodes s) xs"
proof -
  have "linked_at (nodes s) 0 (header s) xs" using assms by (auto simp: sl_inv_def dest!: spec [of _ 0])
  then obtain f where "get_forward (nodes s) (header s) 0 = Some f"
    "dump_nodes (nodes s) f = Some (map (\<lambda>q. (key_at (nodes s) q, node_value (the (nodes s q)))) xs)"
    using dump_nodes_all [of "nodes s" "header s" xs] sl_inv_alloc [OF assms] by auto
  then show ?thesis using assms by (simp add: dump_file_def sl_map_def sl_inv_def sorted_wrt_map)
qed

lemma clear_all:
  assumes "linked_at h 0 p ps" "distinct (p # ps)" "\<forall>q\<in>set (p # ps). h q \<noteq> None"
  shows "clear p h = Some (\<lambda>q. if q \<in> set (p # ps) then None else h q)"
  using assms
proof (induction ps arbitrary: p)
  case Nil
  then show ?case by (auto simp: clear.simps [of p h] delete_node_def fun_eq_iff)
next
  case (Cons a ps)
  have a: "clear a h = Some (\<lambda>q. if q \<in> set (a # ps) then None else h q)" using Cons.IH [of a] Cons.prems by simp
  have "get_forward h p 0 = Some (Some a)" "h p \<noteq> None" "p \<notin> set (a # ps)" using Cons.prems by auto
  then show ?case using a by (auto simp: clear.simps [of p h] delete_node_def fun_eq_iff)
qed

lemma destroy_SkipList_frees_all:
  assumes "sl_inv s xs"
  shows "destroy_SkipList s = Some (\<lambda>q. if q \<in> set (header s # xs) then None else nodes s q)"
proof -
  have l: "linked_at (nodes s) 0 (header s) xs" using assms by (auto simp: sl_inv_def dest!: spec [of _ 0])
  have "clear (header s) (nodes s) = Some (\<lambda>q. if q \<in> set (header s # xs) then None else nodes s q)"
    using clear_all [OF l] sl_inv_alloc [OF assms] assms by (simp add: sl_inv_def)
  then show ?thesis unfolding destroy_SkipList_def clear.simps [of "header s" "nodes s"] .
qed

end
