(* ===== verification/Spec2Isabelle.thy ===== *)
theory Spec2Isabelle
  imports Pool_Theorems Vmm_Theorems Random_Gen Robin_Hood HQueue Best_Fit_Opt_Theorems Net_Theorems Net_Event_Loop Net_Task_Queue Net_Client_Server Concurrent_Queue Skip_List
begin

text \<open>
  This library verifies the core of the repository: four memory pools, the virtual memory adapter
  below one of them, a lock-free queue and a queue with two locks, a hash map, a skip list, a
  counter-based random generator and the thread pool that runs it, and the message transport over TCP.

  \<^bold>\<open>The parts and how they interact.\<close>
  \<^item> \<open>src/memory\<close> is a pool for device memory. \<open>AbstractDynamicMemPool\<close> keeps one \<open>MemBufAllocator\<close>
    per stream and kind of memory; an allocator cuts blocks into linked buffers, hands out the smallest
    idle or eager-free buffer that fits and merges a freed buffer with its neighbours. A buffer that a
    stream event still uses is freed by \<open>WaitEvent\<close> or \<open>SyncAllEvents\<close>. Blocks come from the device,
    or as address ranges from \<open>AscendVmmAdapter\<close>, whose \<open>VmmManager\<close> maps physical handles on demand.
    \<open>MemoryPool\<close> is the concrete pool over the host heap.
  \<^item> \<open>src/application/src\<close> has two older pools with the same interface: \<open>DynamicMemPoolBestFit\<close> (ordered
    maps) and \<open>DynamicMemPoolBestFitOpt\<close> (vectors per stream, pointers instead of lookups).
  \<^item> \<open>src/libc/map.h\<close> is a Robin Hood hash map, \<open>src/libc/concurrent_queue.h/.cc\<close> a linked queue with one lock
    per end, \<open>src/nice/include/hqueue.h\<close> a bounded lock-free queue, \<open>src/application/src/skiplist.h\<close> an ordered
    map with random levels.
  \<^item> \<open>src/net\<close> sends messages: \<open>TCPComm\<close> keeps a \<open>ConnectionPool\<close>; a \<open>Connection\<close> writes a header and the parts of
    a message through \<open>TCPSocketOperation\<close>, and on the other side a state machine reads them back. An
    \<open>EventLoop\<close> waits for its sockets with epoll, calls the handlers that are registered with it and runs
    the tasks other threads add; an \<open>EventLoopGroup\<close> spreads the sockets over several loops.
  \<^item> \<open>src/testing\<close> generates random tensors: the Philox generator and its distributions in \<open>random.h\<close>,
    the division into tasks in \<open>init_random.cc\<close>, the \<open>ThreadPool\<close> they run on.

  \<^bold>\<open>Conventions.\<close> Addresses and sizes are 64-bit words that wrap, objects behind raw pointers are
  cells of a heap \<open>ptr \<Rightarrow> 'a option\<close>. An operation returns an \<open>option\<close>: \<open>None\<close> is an exception, a
  null or dangling pointer that is read, or a loop that never ends; what the source returns on its
  error paths is a value. Operations that hold the pool's lock are atomic steps; the queues, the task
  queue of an event loop and the thread pool are step relations, one shared access a step. Calls of code
  outside the repository (device, hash function, floating-point formulas, message handlers) are
  parameters; a socket is the sequence of what its system calls return, and the outcomes of \<open>epoll_wait\<close>
  and \<open>rand\<close> are lists.

  \<^bold>\<open>Theories.\<close>
  \<^item> \<open>Prelude\<close>: types, association lists, ordered sets, heaps and the lemmas they share.
  \<^item> \<open>Mem_Sizes\<close>, \<open>Mem_Events\<close>, \<open>Mem_Buf\<close>, \<open>Mem_Device\<close>, \<open>Mem_Allocator\<close>, \<open>Mem_Pool\<close>: the model of
    \<open>dynamic_memory_pool.h/.cc\<close> and \<open>abstract_dynamic_memory_pool.h/.cc\<close>, one definition per method with
    its name. \<open>Memory_Pool\<close>: \<open>memory_pool.h\<close>. \<open>Mem_Vmm\<close>: \<open>ascend_vmm_adapter.h/.cc\<close>.
  \<^item> \<open>Mem_Layout\<close>, \<open>Mem_Alloc_Inv\<close>, \<open>Mem_Alloc_Ops\<close>, \<open>Mem_Alloc_Malloc\<close>, \<open>Mem_Alloc_Free\<close>,
    \<open>Mem_Alloc_Total\<close>, \<open>Mem_Alloc_Provider\<close>: the invariant of an allocator (its buffers tile its blocks,
    the free sets are sorted and exact, no two neighbours are both idle) and that every operation
    returns and keeps it; the interface the pool relies on is a locale, interpreted on the allocator.
  \<^item> \<open>Mem_Pool_Inv\<close>, \<open>Mem_Pool_Alloc\<close>, \<open>Mem_Pool_Ops\<close>, \<open>Mem_Pool_Events\<close>, \<open>Mem_Pool_Sync\<close>,
    \<open>Mem_Pool_Eager\<close>: the same for the pool. \<open>Pool_Machine\<close> and \<open>Pool_Theorems\<close>: the pool as a
    transition system, the view of a client (the ranges it holds) and the refinement of the view.
  \<^item> \<open>Mem_Vmm_Inv\<close>, \<open>Vmm_Theorems\<close>: the invariant of the adapter and its results.
  \<^item> \<open>Best_Fit\<close>, \<open>Best_Fit_Inv\<close>, \<open>Best_Fit_Ops\<close>, \<open>Best_Fit_Theorems\<close>: \<open>mem_dynamic_allocator.h/.cpp\<close>.
    \<open>Best_Fit_Opt\<close> and the theories below it: \<open>mem_optimized_allocator.h/.cpp\<close>, with an abstraction to
    the plain pool under which the two pools free alike. \<open>Range_Pool\<close> is the contract of such a pool as a
    locale, interpreted on both.
  \<^item> \<open>Robin_Hood\<close>: \<open>map.h\<close>. \<open>HQueue\<close>: \<open>hqueue.h\<close>. \<open>Philox\<close>, \<open>Random_Gen\<close>: \<open>random.h\<close>,
    \<open>init_random.cc\<close>. \<open>Thread_Pool\<close>: \<open>thread_pool.h/.cc\<close>. \<open>Concurrent_Queue\<close>: \<open>concurrent_queue.h/.cc\<close>.
    \<open>Skip_List\<close>: \<open>skiplist.h\<close>.
  \<^item> \<open>Net_Message\<close>: \<open>msg.h\<close>, \<open>aid.h\<close>, \<open>constants.h\<close> and the encoding of headers. \<open>Net_Socket\<close>:
    \<open>tcp_socket_operation.cc\<close>. \<open>Net_Connection\<close>: \<open>connection.cc\<close> and the callbacks of \<open>tcp_comm.cc\<close>.
    \<open>Net_Pool\<close>: \<open>connection_pool.cc\<close> and the operations of \<open>tcp_comm.cc\<close> on it. \<open>Net_Delivery\<close>, \<open>Net_Theorems\<close>:
    the composition of sender, socket and receiver. \<open>Net_Event_Loop\<close>: the events of \<open>event_loop.cc\<close>.
    \<open>Net_Task_Queue\<close>: its task queue, and \<open>event_loop_group.cc\<close>. \<open>Net_Client_Server\<close>: \<open>tcp_client.cc\<close> and
    \<open>tcp_server.cc\<close>, over the operations of \<open>TCPComm\<close>.

  \<^bold>\<open>What is shown.\<close> For the pool of \<open>src/memory\<close>, on the states that ten of its operations reach
  (below): they return, the ranges a client holds are disjoint, large enough and untouched by other
  operations, freeing gives back exactly the range, the statistic of used memory is the sum it claims to
  be, free neighbours are merged. For the two older pools: the same contract for clients that make legal
  requests and free what they hold. For the adapter: a mapped range is covered by handles. For the
  lock-free queue: operations that do not overlap see a fifo, with its exact capacity. For the queue with
  locks: every interleaving delivers what was enqueued, in order, and touches no freed node. For the hash
  map: what was inserted is found. For the skip list: it returns what a map returns, whatever the levels,
  as long as the greatest key stays. For the generator: skipping draws is dropping them, and the parallel
  generation gives the sequence of a single generator. For the thread pool, with its mutexes and condition
  variables: every context has one living thread, every task runs exactly once, no wake-up of a task is
  lost and \<open>SyncRun\<close> can always return. For the transport: the messages sent over a healthy connection
  arrive in order and unchanged however the sockets cut the bytes, deleting a connection leaves no trace of
  it, the event loop never uses a freed event while descriptors are registered once, and no task added to a
  loop is lost. Where the code does not do this, a theorem shows when: \<open>ClearThreadPool\<close> can hang,
  \<open>Flush\<close> can hang, \<open>Disconnect\<close> and the handler of a hang-up unlock a mutex of a deleted connection,
  the first recycled request of the best-fit pool loses a buffer, deleting the greatest key of the skip
  list crashes, registering a descriptor twice leaves a freed event in epoll.

  \<^bold>\<open>Bounds.\<close>
  \<^item> The transition system of the pool has ten operations: \<open>AllocTensorMem\<close>, \<open>FreeTensorMem\<close>,
    \<open>RecordEvent\<close>, \<open>WaitEvent\<close> for one and for all user streams, \<open>DoSyncAllEvents\<close>, \<open>DefragMemory\<close>,
    \<open>FreeIdleMemsByEagerFree\<close> and the resets of the two watermarks. \<open>AllocContinuousTensorMem\<close>,
    \<open>FreePartTensorMems\<close> and \<open>ReleaseDeviceRes\<close> are defined, too, but are not steps of it: the first
    cuts a buffer at sizes that need not be multiples of 512, so that bytes of the block belong to no
    buffer and the used size is no longer the sum; the second cuts used buffers at any address; after the
    third the tiny allocator is left with links to deleted buffers. An allocation is guarded by 512 blocks and
    a request of at most 16 GB, so that the host heap of the model cannot reach the end of the address
    space; \<open>WaitEvent\<close> is guarded by no buffer being recorded for two pairs of streams, without which it
    reads deleted buffers (\<open>WaitEvent_use_after_free\<close>).
  \<^item> For the older pools a request is at most \<open>2 ^ 62\<close> bytes, and when no idle buffer serves it the device
    returns fresh memory for the block size the pool asks for, as \<open>malloc\<close> of the base class does; eager
    free is off, as in the base class.
  \<^item> Streams of the optimised pool are below 128, the length of its vectors; the function-local static
    of its \<open>AllocTensorMem\<close> is a field of the pool, which is the same for a process with one pool.
  \<^item> \<open>insert_loop\<close> of the hash map has as much fuel as the table has slots, \<open>rh_insert\<close> calls itself through
    \<open>resize_table\<close> twice at most; the theorems show that both suffice. A queue operation that runs alone ends
    within \<open>steps_for\<close> steps.
  \<^item> A random buffer has at most \<open>2 ^ 60\<close> elements.

  \<^bold>\<open>Not modelled.\<close> Output (\<open>Dump...\<close>, \<open>ToJson\<close>, logs); the floating-point formulas of the distributions;
  the core binding of the thread pool; drivers, timing experiments and tests; \<open>src/libs\<close> (vendored); the
  interposition of malloc in \<open>src/libc\<close>, the operator-new experiments of \<open>src/optimizer\<close>, \<open>src/perf\<close>,
  \<open>src/libunwind\<close> and \<open>src/copilot\<close>, which only call the C library and the system. Of \<open>src/net\<close>: the handshake of
  a new connection, \<open>socket_operation.cc\<close> and \<open>ssl_socket_operation.cc\<close>, whose bodies are system and OpenSSL
  calls, and creating and closing descriptors and threads. \<open>Allocator.h/.cpp\<close> of \<open>src/application/src\<close> reads a stream number that is never
  initialised and shifts 1 by 31 in an \<open>int\<close>, so that C++ gives it no behaviour to model.
\<close>

section \<open>Sizes\<close>

text \<open>
  \<open>AlignMemorySize\<close> rounds a request up to the next multiple of 512 bytes (512 for an empty
  request) as long as the addition does not wrap: the result is a multiple of 512, holds the
  request and exceeds it by less than 512 bytes unless the request is empty.
\<close>

theorem AlignMemorySize_rounds_up:
  assumes "unat sz \<le> 2 ^ 64 - 512"
  shows "512 dvd unat (AlignMemorySize sz) \<and> unat sz \<le> unat (AlignMemorySize sz) \<and>
    (0 < sz \<longrightarrow> unat (AlignMemorySize sz) < unat sz + 512)"
proof -
  have "unat sz \<le> (unat sz + 511) div 512 * 512" "(unat sz + 511) div 512 * 512 \<le> unat sz + 511"
    by (simp, rule div_times_less_eq_dividend)
  then show ?thesis using unat_AlignMemorySize [OF assms] by auto
qed

theorem AlignMemorySize_rounds_up_witness:
  "512 dvd unat (AlignMemorySize 1000) \<and> 1000 \<le> unat (AlignMemorySize 1000) \<and>
    unat (AlignMemorySize 1000) < 1512"
  using AlignMemorySize_rounds_up [of 1000] by simp

text \<open>
  Beyond that bound the addition wraps: a request of more than \<open>2 ^ 64 - 512\<close> bytes is "rounded
  up" to 0 bytes.
\<close>

theorem AlignMemorySize_wraps_to_zero:
  assumes "2 ^ 64 - 512 < unat sz"
  shows "AlignMemorySize sz = 0"
proof -
  have lt: "unat sz < 2 ^ 64" using unsigned_less [of sz, where ?'a = nat] by simp
  have "unat (sz + 511) = (unat sz + 511) mod 2 ^ 64" by (subst unat_word_ariths(1)) simp
  also have "\<dots> = (unat sz + 511 - 2 ^ 64) mod 2 ^ 64" using assms by (intro le_mod_geq) simp
  also have "\<dots> = unat sz + 511 - 2 ^ 64" using lt by (intro mod_less) simp
  finally have "unat (sz + 511) < 512" using lt by simp
  then have "unat ((sz + 511) div 512) = 0" by (simp only: unat_div) simp
  then have "(sz + 511) div 512 = 0" by (simp only: unat_eq_0)
  moreover have "sz \<noteq> 0" using assms by auto
  moreover have "sz + 512 - 1 = sz + 511" by simp
  ultimately show ?thesis by (simp add: AlignMemorySize_def add.commute)
qed

theorem AlignMemorySize_wraps_to_zero_witness: "AlignMemorySize (2 ^ 64 - 1) = 0"
  by (rule AlignMemorySize_wraps_to_zero) simp

text \<open>
  C14. With a unit size above 0 \<open>CalMemBlockAllocSize\<close> returns for every request up to \<open>2 ^ 63\<close> bytes: 0 when the device has
  less free memory than requested, otherwise a size that holds the request and that the device has.
\<close>

theorem CalMemBlockAllocSize_returns:
  assumes "0 < unit_size" "sz \<le> 2 ^ 63"
  shows "\<exists>n. CalMemBlockAllocSize free unit_size sz = Some n \<and> (free < sz \<longrightarrow> n = 0) \<and>
    (sz \<le> free \<longrightarrow> sz \<le> n \<and> n \<le> free)"
proof (cases "free < sz")
  case True
  then show ?thesis by (auto simp: CalMemBlockAllocSize_def)
next
  case False
  obtain r where "grow_double unit_size sz = Some r" "sz \<le> r"
    using grow_double_returns [OF assms] by blast
  with False show ?thesis by (auto simp: CalMemBlockAllocSize_def Let_def not_less)
qed

theorem CalMemBlockAllocSize_returns_witness:
  "\<exists>n. CalMemBlockAllocSize (2 ^ 33) kDynamicMemAllocUnitSize 5000 = Some n \<and> 5000 \<le> n \<and> n \<le> 2 ^ 33"
  using CalMemBlockAllocSize_returns [of kDynamicMemAllocUnitSize 5000 "2 ^ 33"] by auto

text \<open>
  C15. For a larger request that the device claims to have, the doubling of the default unit size wraps
  to 0 and the loop does not end.
\<close>

theorem CalMemBlockAllocSize_diverges:
  assumes "2 ^ 63 < sz" "sz \<le> free"
  shows "CalMemBlockAllocSize free kDynamicMemAllocUnitSize sz = None"
  using assms grow_double_power_diverges [OF assms(1), of 30] by (simp add: CalMemBlockAllocSize_def Let_def)

theorem CalMemBlockAllocSize_diverges_witness:
  "CalMemBlockAllocSize (2 ^ 64 - 1) kDynamicMemAllocUnitSize (2 ^ 63 + 1) = None"
  by (rule CalMemBlockAllocSize_diverges) (simp_all add: word_less_nat_alt)

section \<open>Events\<close>

text \<open>
  \<open>EventBase::WaitEvent\<close> for a task of a stream drops exactly the events of this stream up to the
  first one with a later task id, leaves the other streams alone, and forgets the stream when
  nothing is left, so that \<open>IsEventNotUsed\<close> holds just when no stream has a pending event.
\<close>

theorem WaitEvent_drops_prefix:
  assumes "events_wf evs"
  shows "events_wf (snd (EventBase_WaitEvent t s evs)) \<and>
    pending (snd (EventBase_WaitEvent t s evs)) s = dropWhile (task_done t) (pending evs s) \<and>
    (\<forall>s'. s' \<noteq> s \<longrightarrow> pending (snd (EventBase_WaitEvent t s evs)) s' = pending evs s') \<and>
    (IsEventNotUsed (snd (EventBase_WaitEvent t s evs)) \<longleftrightarrow>
       (\<forall>s'. pending (snd (EventBase_WaitEvent t s evs)) s' = []))"
  using pending_WaitEvent [OF assms] WaitEvent_wf [OF assms] IsEventNotUsed_pending [OF WaitEvent_wf [OF assms]] by simp

theorem WaitEvent_drops_prefix_witness:
  "pending (snd (EventBase_WaitEvent 5 1 (EventBase_RecordEvent 7 1 9 (EventBase_RecordEvent 3 1 8 None)))) 1 = [(7, 9)]"
proof -
  have "pending None 1 = []" by (simp add: pending_def)
  with WaitEvent_drops_prefix [of "EventBase_RecordEvent 7 1 9 (EventBase_RecordEvent 3 1 8 None)" 5 1]
  show ?thesis by (simp add: RecordEvent_wf task_done_def)
qed

text \<open>
  The task id is recorded with 64 bits and waited for with 32: an event recorded for task
  \<open>2 ^ 32\<close> is not released by waiting for the same task id.
\<close>

theorem WaitEvent_truncates_task_id:
  "pending (snd (EventBase_WaitEvent (ucast (2 ^ 32 :: int64)) 1 (EventBase_RecordEvent (2 ^ 32) 1 9 None))) 1 = [(2 ^ 32, 9)]"
  by (simp add: EventBase_RecordEvent_def EventBase_WaitEvent_def pending_def task_done_def)

end
